(* ===== verification/Sim_Prelude.thy ===== *)
theory Sim_Prelude
  imports Main "HOL-Library.Word" "HOL-Library.Monad_Syntax"
begin

text \<open>
  Shared vocabulary of the development.
  The simulator is written with \<open>assert\<close> and \<open>abort\<close> (the Makefile never defines
  \<open>NDEBUG\<close>): a violated check ends the process. A step that may end the process is a
  function into \<open>'a option\<close>, with \<open>None\<close> for the abort; \<open>require\<close> is the
  assertion, \<open>nth_opt\<close> and \<open>update_opt\<close> are array accesses that are checked against
  the array's length. \<open>unsigned\<close> is a 32-bit word, \<open>new_addr_type\<close> a 64-bit word.
\<close>

type_synonym u32 = "32 word"
type_synonym u64 = "64 word"
type_synonym new_addr_type = "64 word"
type_synonym address_type = "32 word"

named_theorems sim_defs "definitions unfolded by the component proofs"
named_theorems frame "facts that say which fields an operation leaves alone"

definition require :: "bool \<Rightarrow> unit option" where
  "require b = (if b then Some () else None)"

definition nth_opt :: "'a list \<Rightarrow> nat \<Rightarrow> 'a option" where
  "nth_opt xs i = (if i < length xs then Some (xs ! i) else None)"

definition update_opt :: "'a list \<Rightarrow> nat \<Rightarrow> 'a \<Rightarrow> 'a list option" where
  "update_opt xs i x = (if i < length xs then Some (xs[i := x]) else None)"

lemma require_simps [simp]:
  "require True = Some ()"
  "require False = None"
  by (simp_all add: require_def)

lemma require_eq_Some [simp]: "require b = Some u \<longleftrightarrow> b"
  by (simp add: require_def)

lemma require_eq_None [simp]: "require b = None \<longleftrightarrow> \<not> b"
  by (simp add: require_def)

lemma bind_require [simp]: "Option.bind (require b) f = (if b then f () else None)"
  by (simp add: require_def)

lemma nth_opt_eq_Some [simp]: "nth_opt xs i = Some x \<longleftrightarrow> i < length xs \<and> x = xs ! i"
  by (auto simp: nth_opt_def)

lemma nth_opt_eq_None [simp]: "nth_opt xs i = None \<longleftrightarrow> length xs \<le> i"
  by (auto simp: nth_opt_def)

lemma bind_nth_opt [simp]:
  "Option.bind (nth_opt xs i) f = (if i < length xs then f (xs ! i) else None)"
  by (simp add: nth_opt_def)

lemma update_opt_eq_Some [simp]:
  "update_opt xs i x = Some ys \<longleftrightarrow> i < length xs \<and> ys = xs[i := x]"
  by (auto simp: update_opt_def)

lemma bind_update_opt [simp]:
  "Option.bind (update_opt xs i x) f = (if i < length xs then f (xs[i := x]) else None)"
  by (simp add: update_opt_def)

lemma bind_eq_Some_iff: "Option.bind m f = Some y \<longleftrightarrow> (\<exists>x. m = Some x \<and> f x = Some y)"
  by (cases m) auto

text \<open>A loop \<open>for (x : xs) s = f x s\<close> whose body may abort.\<close>

fun foldM :: "('a \<Rightarrow> 's \<Rightarrow> 's option) \<Rightarrow> 'a list \<Rightarrow> 's \<Rightarrow> 's option" where
  "foldM f [] s = Some s"
| "foldM f (x # xs) s = do { s' \<leftarrow> f x s; foldM f xs s' }"

lemma foldM_append: "foldM f (xs @ ys) s = do { s' \<leftarrow> foldM f xs s; foldM f ys s' }"
  by (induction xs arbitrary: s) (auto split: Option.bind_splits)

text \<open>An invariant of the body is an invariant of the loop.\<close>

lemma foldM_invariant:
  assumes "foldM f xs s = Some t" and "P s"
    and "\<And>x s s'. x \<in> set xs \<Longrightarrow> P s \<Longrightarrow> f x s = Some s' \<Longrightarrow> P s'"
  shows "P t"
  using assms
proof (induction xs arbitrary: s)
  case (Cons x xs)
  then obtain s' where "f x s = Some s'" and "foldM f xs s' = Some t"
    by (auto simp: bind_eq_Some_iff)
  with Cons show ?case by (metis list.set_intros(1,2))
qed simp

text \<open>A loop whose body never aborts under its invariant never aborts.\<close>

lemma foldM_total:
  assumes "P s"
    and "\<And>x s. x \<in> set xs \<Longrightarrow> P s \<Longrightarrow> \<exists>s'. f x s = Some s' \<and> P s'"
  shows "\<exists>t. foldM f xs s = Some t \<and> P t"
  using assms
proof (induction xs arbitrary: s)
  case (Cons x xs)
  then obtain s' where "f x s = Some s'" and "P s'" by force
  with Cons show ?case by auto
qed simp

subsection \<open>Words\<close>

lemma unat_drop_div: "unat (drop_bit k w) = unat w div 2 ^ k"
  for w :: "'a::len word"
  by (simp only: unat_drop_bit_eq drop_bit_eq_div [where ?'a = nat])

lemma unat_take_mod: "unat (take_bit k w) = unat w mod 2 ^ k"
  for w :: "'a::len word"
  by (simp only: unsigned_take_bit_eq take_bit_eq_mod [where ?'a = nat])

lemma unat_u32_less: "unat w < 4294967296" for w :: u32
  using unsigned_less [of w, where ?'a = nat] by simp

lemma unat_u64_less: "unat w < 18446744073709551616" for w :: u64
  using unsigned_less [of w, where ?'a = nat] by simp

lemma unat_ucast_u64 [simp]: "unat (ucast w :: u64) = unat w"
  for w :: u32
  using unat_u32_less [of w] by (simp add: unsigned_ucast_eq take_bit_nat_eq_self_iff)

lemma unat_ucast_u32: "unat (ucast w :: u32) = unat w mod 2 ^ 32"
  for w :: u64
  by (simp add: unsigned_ucast_eq take_bit_eq_mod)

lemma unat_push_mult:
  fixes w :: u64
  assumes "unat w * 2 ^ k < 18446744073709551616"
  shows "unat (push_bit k w) = unat w * 2 ^ k"
proof -
  have "unat (push_bit k w) = take_bit LENGTH(64) (push_bit k (unat w))"
    by (simp only: unsigned_push_bit_eq)
  with assms show ?thesis
    by (simp add: push_bit_eq_mult take_bit_eq_mod)
qed

lemma unat_or_disjoint:
  fixes a b :: "'a::len word"
  assumes "and a b = 0"
  shows "unat (or a b) = unat a + unat b"
proof -
  have "and (unat a) (unat b) = 0"
    using assms by (metis unsigned_and_eq unsigned_0)
  then show ?thesis
    by (simp add: unsigned_or_eq disjunctive_add_eq_or)
qed

end
