(* ===== verification/Instruction.thy ===== *)
theory Instruction
  imports Sim_Prelude
begin

text \<open>
  The instruction vocabulary of \<open>abstract_hardware_model.h\<close> that the timing model reads:
  memory spaces, micro-architectural opcodes, memory access types and the register operands
  of \<open>inst_t\<close> and \<open>warp_inst_t\<close>.
\<close>

datatype memory_space_t =
    undefined_space | reg_space | local_space | shared_space | param_space_unclassified
  | param_space_kernel | param_space_local | const_space | tex_space | surf_space
  | global_space | generic_space | instruction_space

datatype op_type =
    NO_OP | ALU_OP | SFU_OP | ALU_SFU_OP | LOAD_OP | STORE_OP | BRANCH_OP | BARRIER_OP
  | MEMORY_BARRIER_OP | CALL_OPS | RET_OPS

datatype memory_op_t = no_memory_op | memory_load | memory_store

datatype mem_access_type =
    GLOBAL_ACC_R | LOCAL_ACC_R | CONST_ACC_R | TEXTURE_ACC_R | GLOBAL_ACC_W | LOCAL_ACC_W
  | L1_WRBK_ACC | L2_WRBK_ACC | INST_ACC_R | L1_WR_ALLOC_R | L2_WR_ALLOC_R

text \<open>
  The operands of an instruction: \<open>out\<close> and \<open>in\<close> are the four-element arrays of
  register numbers (0 for an unused slot), \<open>pred\<close>, \<open>ar1\<close> and \<open>ar2\<close> are signed
  register numbers. \<open>i_warp_id\<close> is \<open>m_warp_id\<close> of an issued \<open>warp_inst_t\<close>.
\<close>

record inst_t =
  i_pc :: address_type
  i_isize :: u32
  i_op :: op_type
  i_memory_op :: memory_op_t
  i_out :: "u32 list"
  i_in :: "u32 list"
  i_pred :: int
  i_ar1 :: int
  i_ar2 :: int
  i_space :: memory_space_t
  i_data_size :: nat
  i_warp_id :: nat

definition is_load :: "inst_t \<Rightarrow> bool" where
  "is_load i \<longleftrightarrow> i_op i = LOAD_OP \<or> i_memory_op i = memory_load"

definition is_store :: "inst_t \<Rightarrow> bool" where
  "is_store i \<longleftrightarrow> i_op i = STORE_OP \<or> i_memory_op i = memory_store"

end
