(* ===== verification/Float_Value.thy ===== *)
theory Float_Value
  imports Sim_Prelude "HOL-Library.Log_Nat"
begin

text \<open>
  The \<open>float\<close> and \<open>double\<close> arithmetic of the criticality counters, as IEEE arithmetic on
  rational numbers, infinities and NaN: each operation computes the exact result and rounds it to
  24 or 53 significant bits, ties to even. Exponents are not bounded, because the operands are
  32-bit integers and quotients of them, far from overflow and underflow. The sign of a zero is
  not kept; the code only adds and compares.
\<close>

datatype fp = Fin rat | Inf bool | NaN

definition round_half_even :: "rat \<Rightarrow> int" where
  "round_half_even x = (let n = \<lfloor>x\<rfloor>; r = x - of_int n in
     if r < 1 / 2 then n else if 1 / 2 < r then n + 1 else if even n then n else n + 1)"

text \<open>\<open>magnitude n d\<close> is the largest \<open>k\<close> with \<open>2 ^ k \<le> n / d\<close>.\<close>

definition magnitude :: "nat \<Rightarrow> nat \<Rightarrow> int" where
  "magnitude n d = (let k = int (floorlog 2 n) - int (floorlog 2 d) in
     if (if 0 \<le> k then d * 2 ^ nat k \<le> n else d \<le> n * 2 ^ nat (- k)) then k else k - 1)"

definition scale :: "rat \<Rightarrow> int \<Rightarrow> rat" where
  "scale x e = (if 0 \<le> e then x * 2 ^ nat e else x / 2 ^ nat (- e))"

definition rnd :: "nat \<Rightarrow> rat \<Rightarrow> rat" where
  "rnd p x = (if x = 0 then 0 else
     let (n, d) = quotient_of x; e = magnitude (nat \<bar>n\<bar>) (nat d) - int (p - 1)
     in scale (of_int (round_half_even (scale x (- e)))) e)"

fun fp_round :: "nat \<Rightarrow> fp \<Rightarrow> fp" where
  "fp_round p (Fin x) = Fin (rnd p x)"
| "fp_round p y = y"

fun fp_add :: "nat \<Rightarrow> fp \<Rightarrow> fp \<Rightarrow> fp" where
  "fp_add p (Fin x) (Fin y) = Fin (rnd p (x + y))"
| "fp_add p (Inf a) (Inf b) = (if a = b then Inf a else NaN)"
| "fp_add p NaN y = NaN"
| "fp_add p x NaN = NaN"
| "fp_add p (Inf a) (Fin y) = Inf a"
| "fp_add p (Fin x) (Inf b) = Inf b"

text \<open>\<open>Inf True\<close> is the positive infinity.\<close>

fun fp_mult :: "nat \<Rightarrow> fp \<Rightarrow> fp \<Rightarrow> fp" where
  "fp_mult p (Fin x) (Fin y) = Fin (rnd p (x * y))"
| "fp_mult p (Inf a) (Inf b) = Inf (a = b)"
| "fp_mult p NaN y = NaN"
| "fp_mult p x NaN = NaN"
| "fp_mult p (Inf a) (Fin y) = (if y = 0 then NaN else Inf (a = (0 < y)))"
| "fp_mult p (Fin x) (Inf b) = (if x = 0 then NaN else Inf (b = (0 < x)))"

text \<open>Division of two non-negative integers, as \<open>1.0 * a / b\<close>.\<close>

definition fp_quotient :: "nat \<Rightarrow> nat \<Rightarrow> nat \<Rightarrow> fp" where
  "fp_quotient p a b = (if b = 0 then (if a = 0 then NaN else Inf True)
     else Fin (rnd p (of_nat a / of_nat b)))"

fun fp_less :: "fp \<Rightarrow> fp \<Rightarrow> bool" where
  "fp_less (Fin x) (Fin y) = (x < y)"
| "fp_less (Inf a) (Inf b) = (\<not> a \<and> b)"
| "fp_less (Inf a) (Fin y) = (\<not> a)"
| "fp_less (Fin x) (Inf b) = b"
| "fp_less x y = False"

fun fp_eq :: "fp \<Rightarrow> fp \<Rightarrow> bool" where
  "fp_eq (Fin x) (Fin y) = (x = y)"
| "fp_eq (Inf a) (Inf b) = (a = b)"
| "fp_eq x y = False"

subsection \<open>Integers that fit are exact\<close>

lemma round_half_even_int [simp]: "round_half_even (of_int n) = n"
  by (simp add: round_half_even_def)

lemma magnitude_int: "0 < n \<Longrightarrow> n < 2 ^ p \<Longrightarrow> magnitude n 1 \<le> int (p - 1)"
proof -
  assume "0 < n" "n < 2 ^ p"
  then have "floorlog 2 n \<le> p" by (simp add: floorlog_leI)
  moreover have "floorlog 2 (1 :: nat) = 1" by (simp add: floorlog_def)
  moreover have "1 \<le> p" using \<open>0 < n\<close> \<open>n < 2 ^ p\<close> by (cases p) auto
  ultimately show ?thesis by (simp add: magnitude_def Let_def)
qed

lemma rnd_int:
  assumes "\<bar>n\<bar> < 2 ^ p"
  shows "rnd p (of_int n) = of_int n"
proof (cases "n = 0")
  case False
  define e where "e = magnitude (nat \<bar>n\<bar>) 1 - int (p - 1)"
  have "nat \<bar>n\<bar> < 2 ^ p" using assms by (simp add: nat_less_iff)
  then have e: "e \<le> 0" using magnitude_int [of "nat \<bar>n\<bar>" p] False by (simp add: e_def)
  have s: "scale (of_int n) (- e) = of_int (n * 2 ^ nat (- e))"
    using e by (simp add: scale_def)
  have "rnd p (of_int n) = scale (of_int (round_half_even (scale (of_int n) (- e)))) e"
    using False by (simp add: rnd_def quotient_of_int e_def)
  also have "\<dots> = scale (of_int (n * 2 ^ nat (- e))) e" unfolding s by (simp only: round_half_even_int)
  also have "\<dots> = of_int n" using e by (cases "e = 0") (simp_all add: scale_def)
  finally show ?thesis .
qed (simp add: rnd_def)

lemma fp_less_irrefl [simp]: "\<not> fp_less x x"
  by (cases x) auto

lemma fp_less_trans: "fp_less x y \<Longrightarrow> fp_less y z \<Longrightarrow> fp_less x z"
  by (cases x; cases y; cases z) auto

lemma fp_eq_sym: "fp_eq x y \<longleftrightarrow> fp_eq y x"
  by (cases x; cases y) auto

lemma fp_eqD: "fp_eq x y \<Longrightarrow> x = y"
  by (cases x; cases y) auto

lemma fp_eq_refl: "fp_eq x x \<longleftrightarrow> x \<noteq> NaN"
  by (cases x) auto

lemma fp_linear: "x \<noteq> NaN \<Longrightarrow> y \<noteq> NaN \<Longrightarrow> fp_less x y \<or> x = y \<or> fp_less y x"
  by (cases x; cases y) auto

subsection \<open>Rounding keeps the sign\<close>

lemma scale_powi: "scale x e = x * 2 powi e"
  by (cases "0 \<le> e") (simp_all add: scale_def power_int_def field_simps)

lemma magnitude_le:
  assumes "0 < n" and "0 < d"
  shows "(2 :: rat) powi magnitude n d * of_nat d \<le> of_nat n"
proof -
  let ?k = "int (floorlog 2 n) - int (floorlog 2 d)"
  let ?c = "if 0 \<le> ?k then d * 2 ^ nat ?k \<le> n else d \<le> n * 2 ^ nat (- ?k)"
  show ?thesis
  proof (cases ?c)
    case True
    then have m: "magnitude n d = ?k" by (simp add: magnitude_def Let_def)
    show ?thesis
    proof (cases "0 \<le> ?k")
      case k: True
      with True have "of_nat (d * 2 ^ nat ?k) \<le> (of_nat n :: rat)" by (simp only: of_nat_le_iff if_True)
      with k show ?thesis unfolding m by (simp add: power_int_def mult.commute)
    next
      case k: False
      with True have "of_nat d \<le> (of_nat (n * 2 ^ nat (- ?k)) :: rat)" by (simp only: of_nat_le_iff if_False)
      with k show ?thesis unfolding m by (simp add: power_int_def field_simps)
    qed
  next
    case False
    then have m: "magnitude n d = ?k - 1" by (auto simp: magnitude_def Let_def)
    have "2 ^ (floorlog 2 n - 1) \<le> n" "d < 2 ^ floorlog 2 d"
      using assms floorlog_bounds [of n 2] floorlog_bounds [of d 2] by auto
    then have b: "(2 :: rat) ^ (floorlog 2 n - 1) \<le> of_nat n" "of_nat d \<le> (2 :: rat) ^ floorlog 2 d"
      by (metis of_nat_le_iff of_nat_numeral of_nat_power, metis of_nat_le_iff of_nat_numeral of_nat_power less_imp_le)
    have p: "0 < floorlog 2 n" using assms(1) by (simp add: floorlog_def)
    have "(2 :: rat) powi (?k - 1) * of_nat d \<le> 2 powi (?k - 1) * 2 ^ floorlog 2 d"
      using b(2) by (intro mult_left_mono) simp_all
    also have "\<dots> = 2 powi (?k - 1) * 2 powi int (floorlog 2 d)" by simp
    also have "\<dots> = 2 powi int (floorlog 2 n - 1)"
      using p by (subst power_int_add [symmetric]) (simp_all add: of_nat_diff)
    also have "\<dots> \<le> of_nat n" using b(1) by simp
    finally show ?thesis unfolding m .
  qed
qed

lemma round_half_even_ge: "of_int m \<le> x \<Longrightarrow> m \<le> round_half_even x"
proof -
  assume "of_int m \<le> x"
  then have "m \<le> \<lfloor>x\<rfloor>" by (simp add: le_floor_iff)
  then show ?thesis by (simp add: round_half_even_def Let_def)
qed

lemma rnd_pos:
  assumes "0 < x"
  shows "0 < rnd p x"
proof -
  obtain n d where q: "quotient_of x = (n, d)" by (cases "quotient_of x")
  have d: "0 < d" and x: "x = of_int n / of_int d" using q by (auto dest: quotient_of_denom_pos quotient_of_div)
  with assms have n: "0 < n" by (simp add: zero_less_divide_iff)
  let ?k = "magnitude (nat \<bar>n\<bar>) (nat d)"
  define e where "e = ?k - int (p - 1)"
  have "(2 :: rat) powi ?k * of_nat (nat d) \<le> of_nat (nat \<bar>n\<bar>)" by (rule magnitude_le) (use n d in auto)
  then have "2 powi ?k \<le> x" using n d by (simp add: x pos_le_divide_eq)
  then have "2 powi ?k * 2 powi (- e) \<le> scale x (- e)" by (simp add: scale_powi)
  moreover have "(2 :: rat) powi ?k * 2 powi (- e) = 2 ^ (p - 1)"
    by (simp add: e_def flip: power_int_add)
  ultimately have "2 ^ (p - 1) \<le> scale x (- e)" by simp
  then have "of_int 1 \<le> scale x (- e)"
    using order_trans [OF one_le_power [of "2 :: rat" "p - 1"]] by simp
  then have "1 \<le> round_half_even (scale x (- e))" by (rule round_half_even_ge)
  then have "0 < scale (of_int (round_half_even (scale x (- e)))) e" by (simp add: scale_powi)
  then show ?thesis using assms q by (simp add: rnd_def e_def)
qed

lemma rnd_zero [simp]: "rnd p 0 = 0"
  by (simp add: rnd_def)

lemma rnd_one [simp]: "0 < p \<Longrightarrow> rnd p 1 = 1"
  using rnd_int [of 1 p] one_less_power [of "2 :: int" p] by simp

end
