(* ===== verification/Warp.thy ===== *)
theory Warp
  imports Instruction Float_Value
begin

text \<open>
  A warp of a shader core, \<open>shd_warp_t\<close> of \<open>gpgpu-sim/shader.h\<close>: its threads, its
  two-entry instruction buffer, the counts of instructions and stores in flight, and the
  criticality counters of \<open>gpgpu-sim/CPL.cc\<close>. \<open>std::bitset\<close>s are sets of lanes; counts that the
  code only increments, or decrements below an assertion, are natural numbers; the counters of
  \<open>CPL.cc\<close> that wrap are 32-bit words (\<open>tw_nInst\<close> is an \<open>int\<close>, read with \<open>sint\<close>).
\<close>

definition IBUFFER_SIZE :: nat where "IBUFFER_SIZE = 2"
definition MAX_WARP_SIZE :: nat where "MAX_WARP_SIZE = 32"

type_synonym ibuffer_entry = "inst_t option \<times> bool"

record shd_warp =
  m_cta_id :: u32
  m_warp_id :: u32
  m_warp_size :: nat
  m_dynamic_warp_id :: u32
  m_next_pc :: u32
  n_completed :: nat
  m_active_threads :: "nat set"
  m_imiss_pending :: bool
  m_inst_at_barrier :: "inst_t option"
  m_ibuffer :: "ibuffer_entry list"
  m_next :: nat
  m_n_atomic :: u32
  m_membar :: bool
  m_done_exit :: bool
  m_last_fetch :: u64
  m_stores_outstanding :: nat
  m_inst_in_pipeline :: nat
  tw_cpl_oracle :: int
  tw_cpl_actual :: fp
  tw_nInst :: u32
  tw_nStall :: u32
  tw_warp_entered_cycle :: u32
  tw_warp_completed_cycle :: u32
  tw_num_completed_inst :: u32
  tw_last_schedule_cycle :: u32
  criticality :: bool

subsection \<open>Launch and retirement\<close>

definition warp_reset :: "shd_warp \<Rightarrow> shd_warp option" where
  "warp_reset w = do {
     require (m_stores_outstanding w = 0);
     require (m_inst_in_pipeline w = 0);
     Some (w\<lparr>m_imiss_pending := False, m_warp_id := - 1, m_dynamic_warp_id := - 1,
       n_completed := m_warp_size w, m_n_atomic := 0, m_membar := False, m_done_exit := True,
       m_last_fetch := 0, m_next := 0, m_inst_at_barrier := None,
       tw_cpl_oracle := 0, tw_cpl_actual := Fin 0, tw_nInst := 0, tw_nStall := 0,
       tw_warp_entered_cycle := 0, tw_warp_completed_cycle := 0, tw_num_completed_inst := 0,
       tw_last_schedule_cycle := 0, criticality := False\<rparr>)
   }"

text \<open>The fields the constructor does not set keep the values of the argument.\<close>

definition warp_new :: "nat \<Rightarrow> shd_warp \<Rightarrow> shd_warp option" where
  "warp_new warp_sz w = warp_reset (w\<lparr>m_warp_size := warp_sz, m_active_threads := {},
     m_ibuffer := replicate IBUFFER_SIZE (None, False), m_stores_outstanding := 0,
     m_inst_in_pipeline := 0\<rparr>)"

definition warp_init :: "u32 \<Rightarrow> u32 \<Rightarrow> u32 \<Rightarrow> nat set \<Rightarrow> u32 \<Rightarrow> int \<Rightarrow> shd_warp \<Rightarrow> shd_warp option" where
  "warp_init start_pc cta_id wid active dynamic_warp_id oracle_CPL w = do {
     require (card active \<le> n_completed w);
     require (n_completed w \<le> m_warp_size w);
     Some (w\<lparr>m_cta_id := cta_id, m_warp_id := wid, m_dynamic_warp_id := dynamic_warp_id,
       m_next_pc := start_pc, n_completed := n_completed w - card active,
       m_active_threads := active, m_done_exit := False,
       tw_cpl_oracle := oracle_CPL, tw_cpl_actual := Fin 0, tw_nInst := 0, tw_nStall := 0,
       tw_warp_entered_cycle := 0, tw_warp_completed_cycle := 0, tw_num_completed_inst := 0,
       tw_last_schedule_cycle := 0, criticality := False\<rparr>)
   }"

definition set_completed :: "nat \<Rightarrow> shd_warp \<Rightarrow> shd_warp option" where
  "set_completed lane w = do {
     require (lane < MAX_WARP_SIZE);
     require (lane \<in> m_active_threads w);
     Some (w\<lparr>m_active_threads := m_active_threads w - {lane}, n_completed := n_completed w + 1\<rparr>)
   }"

definition functional_done :: "shd_warp \<Rightarrow> bool" where
  "functional_done w \<longleftrightarrow> n_completed w = m_warp_size w"

definition stores_done :: "shd_warp \<Rightarrow> bool" where
  "stores_done w \<longleftrightarrow> m_stores_outstanding w = 0"

definition inst_in_pipeline :: "shd_warp \<Rightarrow> bool" where
  "inst_in_pipeline w \<longleftrightarrow> 0 < m_inst_in_pipeline w"

definition hardware_done :: "shd_warp \<Rightarrow> bool" where
  "hardware_done w \<longleftrightarrow> functional_done w \<and> stores_done w \<and> \<not> inst_in_pipeline w"

definition inc_store_req :: "shd_warp \<Rightarrow> shd_warp" where
  "inc_store_req w = w\<lparr>m_stores_outstanding := m_stores_outstanding w + 1\<rparr>"

definition dec_store_req :: "shd_warp \<Rightarrow> shd_warp option" where
  "dec_store_req w = do {
     require (0 < m_stores_outstanding w);
     Some (w\<lparr>m_stores_outstanding := m_stores_outstanding w - 1\<rparr>)
   }"

definition inc_inst_in_pipeline :: "shd_warp \<Rightarrow> shd_warp" where
  "inc_inst_in_pipeline w = w\<lparr>m_inst_in_pipeline := m_inst_in_pipeline w + 1\<rparr>"

definition dec_inst_in_pipeline :: "shd_warp \<Rightarrow> shd_warp option" where
  "dec_inst_in_pipeline w = do {
     require (0 < m_inst_in_pipeline w);
     Some (w\<lparr>m_inst_in_pipeline := m_inst_in_pipeline w - 1\<rparr>)
   }"

text \<open>\<open>decrement_atomic_count\<close> of the core, around \<open>dec_n_atomic\<close>.\<close>

definition decrement_atomic_count :: "u32 \<Rightarrow> shd_warp \<Rightarrow> shd_warp option" where
  "decrement_atomic_count n w = do {
     require (n \<le> m_n_atomic w);
     Some (w\<lparr>m_n_atomic := m_n_atomic w - n\<rparr>)
   }"

subsection \<open>The instruction buffer\<close>

definition ibuffer_fill :: "nat \<Rightarrow> inst_t option \<Rightarrow> shd_warp \<Rightarrow> shd_warp option" where
  "ibuffer_fill slot pI w = do {
     require (slot < IBUFFER_SIZE);
     Some (w\<lparr>m_ibuffer := (m_ibuffer w)[slot := (pI, True)], m_next := 0\<rparr>)
   }"

definition ibuffer_empty :: "shd_warp \<Rightarrow> bool" where
  "ibuffer_empty w \<longleftrightarrow> (\<forall>e \<in> set (m_ibuffer w). \<not> snd e)"

definition num_inst_in_buffer :: "shd_warp \<Rightarrow> nat" where
  "num_inst_in_buffer w = length (filter snd (m_ibuffer w))"

fun flush_entries :: "ibuffer_entry list \<Rightarrow> shd_warp \<Rightarrow> shd_warp option" where
  "flush_entries [] w = Some w"
| "flush_entries ((i, valid) # es) w =
     (if valid then do { w' \<leftarrow> dec_inst_in_pipeline w; flush_entries es w' } else flush_entries es w)"

definition ibuffer_flush :: "shd_warp \<Rightarrow> shd_warp option" where
  "ibuffer_flush w = do {
     w' \<leftarrow> flush_entries (m_ibuffer w) w;
     Some (w'\<lparr>m_ibuffer := map (\<lambda>_. (None, False)) (m_ibuffer w)\<rparr>)
   }"

definition ibuffer_next_inst :: "shd_warp \<Rightarrow> inst_t option" where
  "ibuffer_next_inst w = fst (m_ibuffer w ! m_next w)"

definition ibuffer_next_valid :: "shd_warp \<Rightarrow> bool" where
  "ibuffer_next_valid w = snd (m_ibuffer w ! m_next w)"

definition ibuffer_free :: "shd_warp \<Rightarrow> shd_warp" where
  "ibuffer_free w = w\<lparr>m_ibuffer := (m_ibuffer w)[m_next w := (None, False)]\<rparr>"

definition ibuffer_step :: "shd_warp \<Rightarrow> shd_warp" where
  "ibuffer_step w = w\<lparr>m_next := (m_next w + 1) mod IBUFFER_SIZE\<rparr>"

text \<open>
  The part of \<open>shader_core_ctx::decode\<close> that fills the buffer; \<open>fetch_inst\<close> is
  \<open>ptx_fetch_inst\<close>, the program.
\<close>

definition decode_warp :: "(u32 \<Rightarrow> inst_t option) \<Rightarrow> u32 \<Rightarrow> shd_warp \<Rightarrow> shd_warp option" where
  "decode_warp fetch_inst pc w = do {
     let pI1 = fetch_inst pc;
     w \<leftarrow> ibuffer_fill 0 pI1 w;
     let w = inc_inst_in_pipeline w;
     (case pI1 of None \<Rightarrow> Some w
      | Some i1 \<Rightarrow> (case fetch_inst (pc + i_isize i1) of None \<Rightarrow> Some w
         | Some i2 \<Rightarrow> do {
             w \<leftarrow> ibuffer_fill 1 (Some i2) w;
             Some (inc_inst_in_pipeline w)
           }))
   }"

subsection \<open>Waiting\<close>

text \<open>
  \<open>waiting\<close>, with the answers of the core: \<open>at_barrier\<close> is \<open>warp_waiting_at_barrier\<close>, \<open>pending\<close>
  is \<open>pendingWrites\<close> of the scoreboard. It clears the memory barrier flag on the way.
\<close>

definition warp_waiting_at_mem_barrier :: "bool \<Rightarrow> shd_warp \<Rightarrow> bool \<times> shd_warp" where
  "warp_waiting_at_mem_barrier pending w =
     (if \<not> m_membar w then (False, w)
      else if \<not> pending then (False, w\<lparr>m_membar := False\<rparr>)
      else (True, w))"

definition warp_waiting :: "bool \<Rightarrow> bool \<Rightarrow> shd_warp \<Rightarrow> bool \<times> shd_warp" where
  "warp_waiting at_barrier pending w =
     (if functional_done w then (True, w)
      else if at_barrier then (True, w)
      else (let (mb, w') = warp_waiting_at_mem_barrier pending w in
        if mb then (True, w') else if 0 < m_n_atomic w' then (True, w') else (False, w')))"

subsection \<open>Criticality counters\<close>

definition tw_warp_enter :: "u32 \<Rightarrow> u32 \<Rightarrow> shd_warp \<Rightarrow> shd_warp" where
  "tw_warp_enter cycle ninst w = w\<lparr>tw_nInst := ninst, tw_warp_entered_cycle := cycle\<rparr>"

definition tw_warp_issue :: "u32 \<Rightarrow> u32 \<Rightarrow> u32 \<Rightarrow> shd_warp \<Rightarrow> shd_warp option" where
  "tw_warp_issue cycle npc isize w = do {
     require (tw_last_schedule_cycle w < cycle);
     let w = w\<lparr>tw_nStall := tw_nStall w +
           (if tw_last_schedule_cycle w \<noteq> 0 then cycle - tw_last_schedule_cycle w else 0),
         tw_last_schedule_cycle := cycle\<rparr>;
     (if npc = - 1 then Some w
      else if isize = 0 then None
      else if npc < m_next_pc w
      then Some (w\<lparr>tw_nInst := tw_nInst w + ((m_next_pc w - npc) div isize + 1)\<rparr>)
      else Some (w\<lparr>tw_nInst := tw_nInst w - ((npc - m_next_pc w) div isize - 1)\<rparr>))
   }"

definition tw_warp_complete :: "shd_warp \<Rightarrow> shd_warp" where
  "tw_warp_complete w = w\<lparr>tw_num_completed_inst := tw_num_completed_inst w + 1,
     tw_nInst := tw_nInst w - 1\<rparr>"

definition tw_warp_exit :: "u32 \<Rightarrow> shd_warp \<Rightarrow> shd_warp" where
  "tw_warp_exit cycle w = w\<lparr>tw_warp_completed_cycle := cycle\<rparr>"

definition tw_get_warp_execution_cycles :: "shd_warp \<Rightarrow> u32 option" where
  "tw_get_warp_execution_cycles w = do {
     require (tw_warp_entered_cycle w < tw_warp_completed_cycle w);
     Some (tw_warp_completed_cycle w - tw_warp_entered_cycle w)
   }"

definition tw_cpl_calculate :: "bool \<Rightarrow> bool \<Rightarrow> u32 \<Rightarrow> shd_warp \<Rightarrow> shd_warp" where
  "tw_cpl_calculate avg_cpi stall cycle w =
     (let cpi = (if avg_cpi
          then fp_round 24 (fp_quotient 53 (unat (cycle - tw_warp_entered_cycle w))
            (unat (tw_num_completed_inst w)))
          else Fin 1);
        product = fp_mult 24 cpi (Fin (rnd 24 (of_int (sint (tw_nInst w)))));
        stalls = (if stall then Fin (of_nat (unat (tw_nStall w))) else Fin 0)
      in w\<lparr>tw_cpl_actual := fp_round 24 (fp_add 53 product stalls)\<rparr>)"

text \<open>
  \<open>tw_get_CPL\<close>; \<open>oracle\<close> is \<open>tw_gpgpu_oracle_cpl\<close>, \<open>have_oracle\<close> is \<open>tw_with_oracle_cpl\<close>, which
  \<open>tw_if_use_oracle_cpl\<close> asserts. The conditional is a \<open>double\<close>, returned as a \<open>float\<close>.
\<close>

definition tw_get_CPL :: "bool \<Rightarrow> bool \<Rightarrow> shd_warp \<Rightarrow> fp option" where
  "tw_get_CPL oracle have_oracle w =
     (if oracle then do {
        require have_oracle;
        Some (Fin (rnd 24 (of_int (tw_cpl_oracle w))))
      } else Some (tw_cpl_actual w))"

subsection \<open>The predicted next program counter\<close>

definition vec_min :: "u32 list \<Rightarrow> u32" where
  "vec_min v = foldl (\<lambda>m x. if x < m then x else m) (hd v) v"

definition vec_max :: "u32 list \<Rightarrow> u32" where
  "vec_max v = foldl (\<lambda>m x. if m < x then x else m) (hd v) v"

definition tw_find_next_pc :: "u32 \<Rightarrow> u32 list \<Rightarrow> u32 option" where
  "tw_find_next_pc cur_pc v = do {
     require (0 < length v);
     Some (if vec_min v < cur_pc \<and> cur_pc < vec_max v
       then foldl (\<lambda>m x. if x < m \<and> cur_pc < x then x else m) (vec_max v) v
       else vec_min v)
   }"

text \<open>\<open>pcs\<close> are the program counters of the threads of the warp that are not done.\<close>

definition tw_calculate_npc_per_warp :: "u32 list \<Rightarrow> shd_warp \<Rightarrow> u32 option" where
  "tw_calculate_npc_per_warp pcs w =
     (if 0 < length pcs then tw_find_next_pc (m_next_pc w) pcs else Some (- 1))"

subsection \<open>Accounting of threads and instructions\<close>

lemmas warp_op_defs = warp_reset_def warp_init_def set_completed_def inc_inst_in_pipeline_def
  dec_inst_in_pipeline_def ibuffer_fill_def ibuffer_free_def ibuffer_step_def inc_store_req_def
  dec_store_req_def decrement_atomic_count_def

definition warp_ok :: "shd_warp \<Rightarrow> bool" where
  "warp_ok w \<longleftrightarrow> finite (m_active_threads w) \<and> n_completed w + card (m_active_threads w) = m_warp_size w \<and>
     length (m_ibuffer w) = IBUFFER_SIZE \<and> m_next w < IBUFFER_SIZE \<and>
     num_inst_in_buffer w \<le> m_inst_in_pipeline w"

lemma flush_entries_eq:
  "length (filter snd es) \<le> m_inst_in_pipeline w \<Longrightarrow>
   flush_entries es w = Some (w\<lparr>m_inst_in_pipeline := m_inst_in_pipeline w - length (filter snd es)\<rparr>)"
  by (induction es w rule: flush_entries.induct) (auto simp: dec_inst_in_pipeline_def)

text \<open>Flushing empties the buffer and takes its instructions out of the pipeline count.\<close>

lemma ibuffer_flush_eq:
  assumes "warp_ok w"
  shows "ibuffer_flush w = Some (w\<lparr>m_inst_in_pipeline := m_inst_in_pipeline w - num_inst_in_buffer w,
    m_ibuffer := map (\<lambda>_. (None, False)) (m_ibuffer w)\<rparr>)"
  using assms by (simp add: ibuffer_flush_def flush_entries_eq warp_ok_def num_inst_in_buffer_def)

lemma filter_none [simp]: "filter snd (map (\<lambda>_. (a, False)) xs) = []"
  by (induction xs) auto

lemma ibuffer_cases:
  assumes "warp_ok w"
  obtains e f where "m_ibuffer w = [e, f]"
  using assms by (auto simp: warp_ok_def IBUFFER_SIZE_def length_Suc_conv numeral_2_eq_2)

text \<open>
  The life of a warp: launched when all its threads are done, its threads complete, instructions
  are decoded into an empty buffer, freed from it when they issue, and retire from the pipeline;
  a control hazard flushes the buffer.
\<close>

inductive warp_step :: "shd_warp \<Rightarrow> shd_warp \<Rightarrow> bool" where
  step_reset: "functional_done w \<Longrightarrow> warp_reset w = Some w' \<Longrightarrow> warp_step w w'"
| step_init: "functional_done w \<Longrightarrow> finite active \<Longrightarrow> warp_init pc cta wid active dyn orc w = Some w' \<Longrightarrow>
    warp_step w w'"
| step_completed: "set_completed lane w = Some w' \<Longrightarrow> warp_step w w'"
| step_decode: "ibuffer_empty w \<Longrightarrow> decode_warp fetch pc w = Some w' \<Longrightarrow> warp_step w w'"
| step_free: "warp_step w (ibuffer_free w)"
| step_next: "warp_step w (ibuffer_step w)"
| step_flush: "ibuffer_flush w = Some w' \<Longrightarrow> warp_step w w'"
| step_retire: "num_inst_in_buffer w < m_inst_in_pipeline w \<Longrightarrow> dec_inst_in_pipeline w = Some w' \<Longrightarrow>
    warp_step w w'"
| step_wait: "warp_waiting b p w = (r, w') \<Longrightarrow> warp_step w w'"

inductive warp_reachable :: "shd_warp \<Rightarrow> bool" where
  reach_new: "warp_new n w0 = Some w \<Longrightarrow> warp_reachable w"
| reach_step: "warp_reachable w \<Longrightarrow> warp_step w w' \<Longrightarrow> warp_reachable w'"

lemma warp_ok_decode:
  assumes "warp_ok w" and "ibuffer_empty w" and "decode_warp fetch pc w = Some w'"
  shows "warp_ok w'"
proof -
  obtain e f where b: "m_ibuffer w = [e, f]" using ibuffer_cases [OF assms(1)] .
  with assms show ?thesis
    by (auto simp: decode_warp_def ibuffer_empty_def warp_ok_def num_inst_in_buffer_def
        warp_op_defs IBUFFER_SIZE_def Let_def split: option.splits)
qed

lemma warp_ok_step:
  assumes "warp_step w w'" and ok: "warp_ok w"
  shows "warp_ok w'"
  using assms(1)
proof cases
  case step_reset
  then show ?thesis
    using ok by (auto simp: warp_ok_def functional_done_def warp_op_defs num_inst_in_buffer_def
        IBUFFER_SIZE_def split: if_splits)
next
  case (step_init active pc cta wid dyn orc)
  then show ?thesis
    using ok by (auto simp: warp_ok_def functional_done_def warp_op_defs num_inst_in_buffer_def
        split: if_splits)
next
  case (step_completed lane)
  then have "lane \<in> m_active_threads w"
    and w': "w' = w\<lparr>m_active_threads := m_active_threads w - {lane}, n_completed := n_completed w + 1\<rparr>"
    by (auto simp: set_completed_def split: if_splits)
  then have "Suc (card (m_active_threads w - {lane})) = card (m_active_threads w)"
    using ok by (intro card_Suc_Diff1) (auto simp: warp_ok_def)
  then show ?thesis using ok w' by (auto simp: warp_ok_def num_inst_in_buffer_def)
next
  case step_free
  obtain e f where b: "m_ibuffer w = [e, f]" using ibuffer_cases [OF ok] .
  with step_free ok show ?thesis
    by (cases "m_next w") (auto simp: warp_ok_def num_inst_in_buffer_def ibuffer_free_def
        IBUFFER_SIZE_def split: if_splits)
next
  case step_next
  with ok show ?thesis
    by (auto simp: warp_ok_def num_inst_in_buffer_def ibuffer_step_def IBUFFER_SIZE_def)
next
  case step_flush
  with ok show ?thesis
    by (auto simp: ibuffer_flush_eq [OF ok] warp_ok_def num_inst_in_buffer_def)
next
  case step_retire
  with ok show ?thesis
    by (auto simp: warp_ok_def num_inst_in_buffer_def dec_inst_in_pipeline_def split: if_splits)
next
  case (step_wait b p r)
  with ok show ?thesis
    by (auto simp: warp_ok_def num_inst_in_buffer_def warp_waiting_def Let_def
        warp_waiting_at_mem_barrier_def split: if_splits)
qed (use warp_ok_decode [OF ok] in blast)

lemma warp_reachable_ok: "warp_reachable w \<Longrightarrow> warp_ok w"
proof (induction rule: warp_reachable.induct)
  case (reach_new n w0 w)
  then show ?case
    by (auto simp: warp_new_def warp_reset_def warp_ok_def num_inst_in_buffer_def IBUFFER_SIZE_def
        numeral_2_eq_2)
qed (rule warp_ok_step)

text \<open>
  Property C32: a warp's books balance. In every state a warp reaches, the completed and the active
  threads add up to the warp size, so it is functionally done exactly when no thread is active; no
  more instructions are buffered than are counted in the pipeline, so a control-hazard flush never
  fails its assertion, empties the buffer and leaves exactly the issued instructions in flight.
\<close>

theorem warp_books_balance:
  assumes "warp_reachable w"
  shows "n_completed w + card (m_active_threads w) = m_warp_size w \<and>
    (functional_done w \<longleftrightarrow> m_active_threads w = {}) \<and>
    (\<exists>w'. ibuffer_flush w = Some w' \<and> ibuffer_empty w' \<and>
       m_inst_in_pipeline w' + num_inst_in_buffer w = m_inst_in_pipeline w)"
proof -
  have ok: "warp_ok w" by (rule warp_reachable_ok [OF assms])
  then show ?thesis
    by (auto simp: ibuffer_flush_eq [OF ok] functional_done_def ibuffer_empty_def warp_ok_def)
qed

definition blank_warp :: shd_warp where
  "blank_warp = \<lparr>m_cta_id = 0, m_warp_id = 0, m_warp_size = 0, m_dynamic_warp_id = 0, m_next_pc = 0,
     n_completed = 0, m_active_threads = {}, m_imiss_pending = False, m_inst_at_barrier = None,
     m_ibuffer = [], m_next = 0, m_n_atomic = 0, m_membar = False, m_done_exit = True,
     m_last_fetch = 0, m_stores_outstanding = 0, m_inst_in_pipeline = 0, tw_cpl_oracle = 0,
     tw_cpl_actual = Fin 0, tw_nInst = 0, tw_nStall = 0, tw_warp_entered_cycle = 0,
     tw_warp_completed_cycle = 0, tw_num_completed_inst = 0, tw_last_schedule_cycle = 0,
     criticality = False\<rparr>"

definition launched_warp :: shd_warp where
  "launched_warp = the (do { w \<leftarrow> warp_new 32 blank_warp; warp_init 0x100 0 3 {0, 1, 2, 3} 7 0 w })"

lemma launched_warp_reachable: "warp_reachable launched_warp"
proof -
  obtain w where w: "warp_new 32 blank_warp = Some w"
    by (simp add: warp_new_def blank_warp_def warp_reset_def)
  then have "warp_init 0x100 0 3 {0, 1, 2, 3} 7 0 w = Some launched_warp" "functional_done w"
    by (auto simp: launched_warp_def warp_new_def blank_warp_def warp_reset_def warp_init_def
        functional_done_def)
  then show ?thesis
    by (intro warp_reachable.reach_step [OF warp_reachable.reach_new [OF w]] step_init) auto
qed

theorem warp_books_balance_witness:
  "n_completed launched_warp + card (m_active_threads launched_warp) = 32 \<and>
   \<not> functional_done launched_warp"
  using warp_books_balance [OF launched_warp_reachable]
  by (simp add: launched_warp_def warp_new_def blank_warp_def warp_reset_def warp_init_def)

subsection \<open>What the criticality counter counts\<close>

text \<open>
  A run of the counter: instructions issue, with the program counter predicted for the warp, and
  complete. The prediction is the warp's program counter when the next instruction issues:
  instruction number \<open>k\<close> of the code is at \<open>base + isize * k\<close>.
\<close>

datatype cpl_event = Issued u32 nat | Completed

definition pc_at :: "u32 \<Rightarrow> u32 \<Rightarrow> nat \<Rightarrow> u32" where
  "pc_at base isize k = base + isize * of_nat k"

fun cpl_event_step :: "u32 \<Rightarrow> u32 \<Rightarrow> cpl_event \<Rightarrow> shd_warp \<Rightarrow> shd_warp option" where
  "cpl_event_step base isize (Issued cycle k) w = do {
     w' \<leftarrow> tw_warp_issue cycle (pc_at base isize k) isize w;
     Some (w'\<lparr>m_next_pc := pc_at base isize k\<rparr>)
   }"
| "cpl_event_step base isize Completed w = Some (tw_warp_complete w)"

definition cpl_run :: "u32 \<Rightarrow> u32 \<Rightarrow> cpl_event list \<Rightarrow> shd_warp \<Rightarrow> shd_warp option" where
  "cpl_run base isize = foldM (cpl_event_step base isize)"

definition in_code :: "u32 \<Rightarrow> u32 \<Rightarrow> nat \<Rightarrow> bool" where
  "in_code base isize k \<longleftrightarrow> unat base + unat isize * k < 2 ^ 32 - 1"

fun event_in_code :: "u32 \<Rightarrow> u32 \<Rightarrow> cpl_event \<Rightarrow> bool" where
  "event_in_code base isize (Issued cycle k) = in_code base isize k"
| "event_in_code base isize Completed = True"

fun last_pc :: "cpl_event list \<Rightarrow> nat \<Rightarrow> nat" where
  "last_pc [] k = k"
| "last_pc (Issued cycle j # es) k = last_pc es j"
| "last_pc (Completed # es) k = last_pc es k"

definition issues :: "cpl_event list \<Rightarrow> nat" where
  "issues es = length (filter (\<lambda>e. e \<noteq> Completed) es)"

definition completions :: "cpl_event list \<Rightarrow> nat" where
  "completions es = length (filter (\<lambda>e. e = Completed) es)"

lemma unat_pc_at:
  assumes "in_code base isize k"
  shows "unat (pc_at base isize k) = unat base + unat isize * k"
proof -
  have "pc_at base isize k = of_nat (unat base + unat isize * k)" by (simp add: pc_at_def)
  moreover have "unat (of_nat n :: u32) = n" if "n < 2 ^ 32" for n
    using that by (simp add: unsigned_of_nat take_bit_nat_eq_self)
  ultimately show ?thesis using assms by (simp add: in_code_def del: of_nat_add of_nat_mult)
qed

lemma pc_at_distance:
  assumes "in_code base isize j" and "in_code base isize k" and "k \<le> j" and "isize \<noteq> 0"
  shows "(pc_at base isize j - pc_at base isize k) div isize = of_nat (j - k)"
proof -
  have "pc_at base isize k \<le> pc_at base isize j"
    using assms by (simp add: word_le_nat_alt unat_pc_at)
  then have "unat (pc_at base isize j - pc_at base isize k) = unat isize * (j - k)"
    using assms by (simp add: unat_sub unat_pc_at diff_mult_distrib2)
  then have "unat ((pc_at base isize j - pc_at base isize k) div isize) = j - k"
    using assms(4) by (simp add: unat_div_distrib unat_gt_0)
  then have "(of_nat (unat ((pc_at base isize j - pc_at base isize k) div isize)) :: u32) = of_nat (j - k)"
    by simp
  then show ?thesis by simp
qed

lemma pc_at_not_none: "in_code base isize k \<Longrightarrow> pc_at base isize k \<noteq> - 1"
proof
  assume k: "in_code base isize k" "pc_at base isize k = - 1"
  then have "unat (pc_at base isize k) = 2 ^ 32 - 1" by (simp add: unsigned_minus_1_eq_mask mask_eq_exp_minus_1)
  with k(1) show False by (simp add: unat_pc_at in_code_def)
qed

text \<open>One issue moves the counter by the distance of the jump and counts the instruction.\<close>

lemma issue_step:
  assumes "tw_warp_issue cycle (pc_at base isize j) isize w = Some w'"
    and "m_next_pc w = pc_at base isize k" and "in_code base isize j" and "in_code base isize k"
    and "isize \<noteq> 0"
  shows "tw_nInst w' = tw_nInst w + of_nat k - of_nat j + 1"
proof (cases "pc_at base isize j < pc_at base isize k")
  case True
  then have "j \<le> k" using assms(3-5)
    by (simp add: word_less_nat_alt unat_pc_at unat_gt_0)
  with True assms pc_at_distance [OF assms(4,3) \<open>j \<le> k\<close> assms(5)] pc_at_not_none [OF assms(3)]
  show ?thesis by (auto simp: tw_warp_issue_def Let_def of_nat_diff split: if_splits)
next
  case False
  then have "unat isize * k \<le> unat isize * j" using assms(3-5)
    by (auto simp: word_less_nat_alt unat_pc_at)
  moreover have "0 < unat isize" using assms(5) by (simp add: unat_gt_0)
  ultimately have "k \<le> j" using nat_mult_le_cancel1 by blast
  with False assms pc_at_distance [OF assms(3,4) \<open>k \<le> j\<close> assms(5)] pc_at_not_none [OF assms(3)]
  show ?thesis by (auto simp: tw_warp_issue_def Let_def of_nat_diff split: if_splits)
qed

text \<open>
  Property C31: the criticality counter of a warp depends only on where the warp is. Whatever path
  of jumps and loops a warp takes, with every predicted program counter taken, \<open>tw_nInst\<close> is its
  start value plus the distance in instructions from the current program counter back to the start,
  plus the number of instructions issued and not yet reported complete. Loop iterations leave no
  trace in it. Instructions that retire without a call of \<open>tw_warp_complete\<close>, as loads and stores
  do, stay counted for ever.
\<close>

theorem cpl_counter_telescopes:
  assumes "cpl_run base isize es w = Some w'" and "m_next_pc w = pc_at base isize k"
    and "in_code base isize k" and "\<forall>e \<in> set es. event_in_code base isize e" and "isize \<noteq> 0"
  shows "tw_nInst w' = tw_nInst w + of_nat k - of_nat (last_pc es k)
    + of_nat (issues es) - of_nat (completions es) \<and>
    m_next_pc w' = pc_at base isize (last_pc es k)"
  using assms
proof (induction es arbitrary: w k)
  case Nil
  then show ?case by (simp add: cpl_run_def issues_def completions_def)
next
  case (Cons e es)
  show ?case
  proof (cases e)
    case (Issued cycle j)
    with Cons.prems obtain w1 where
      w1: "tw_warp_issue cycle (pc_at base isize j) isize w = Some w1"
        "cpl_run base isize es (w1\<lparr>m_next_pc := pc_at base isize j\<rparr>) = Some w'"
      by (auto simp: cpl_run_def bind_eq_Some_iff)
    have "in_code base isize j" using Cons.prems(4) Issued by simp
    with w1 Cons.IH [OF w1(2), of j] Cons.prems issue_step [OF w1(1) Cons.prems(2), of] Issued
    show ?thesis by (simp add: issues_def completions_def)
  next
    case Completed
    with Cons.prems have "cpl_run base isize es (tw_warp_complete w) = Some w'"
      by (simp add: cpl_run_def)
    from Cons.IH [OF this, of k] Cons.prems Completed show ?thesis
      by (simp add: tw_warp_complete_def issues_def completions_def)
  qed
qed

text \<open>Two rounds of a loop of three 8-byte instructions; the last issue is not complete yet.\<close>

theorem cpl_counter_telescopes_witness:
  "\<exists>w'. cpl_run 0x100 8 [Issued 1 1, Issued 2 2, Completed, Completed, Issued 3 0, Completed,
      Issued 4 1, Issued 5 2, Completed, Issued 6 0] (blank_warp\<lparr>m_next_pc := 0x100\<rparr>) = Some w' \<and>
    tw_nInst w' = 2"
proof -
  let ?es = "[Issued 1 1, Issued 2 2, Completed, Completed, Issued 3 0, Completed,
      Issued 4 1, Issued 5 2, Completed, Issued 6 0]"
  let ?w = "blank_warp\<lparr>m_next_pc := 0x100\<rparr>"
  obtain w' where w': "cpl_run 0x100 8 ?es ?w = Some w'"
    by (simp add: cpl_run_def tw_warp_issue_def pc_at_def tw_warp_complete_def blank_warp_def)
  have "tw_nInst w' = 2"
    using cpl_counter_telescopes [OF w', of 0]
    by (simp add: pc_at_def in_code_def blank_warp_def issues_def completions_def)
  with w' show ?thesis by blast
qed

subsection \<open>The predicted program counter\<close>

lemma foldl_choice:
  fixes better :: "'a \<Rightarrow> 'a \<Rightarrow> bool"
  shows "foldl (\<lambda>m x. if P x m then x else m) a v \<in> insert a (set v)"
proof (induction v arbitrary: a)
  case (Cons x v)
  from Cons.IH [of "if P x a then x else a"] show ?case by auto
qed simp

lemma foldl_min_le:
  fixes a :: "'a::linorder"
  defines "f \<equiv> \<lambda>m x. if x < m then x else m"
  shows "foldl f a v \<le> a \<and> (\<forall>x \<in> set v. foldl f a v \<le> x)"
proof (induction v arbitrary: a)
  case (Cons y v)
  from Cons.IH [of "f a y"] show ?case by (auto simp: f_def split: if_splits)
qed simp

lemma foldl_max_ge:
  fixes a :: "'a::linorder"
  defines "f \<equiv> \<lambda>m x. if m < x then x else m"
  shows "a \<le> foldl f a v \<and> (\<forall>x \<in> set v. x \<le> foldl f a v)"
proof (induction v arbitrary: a)
  case (Cons y v)
  from Cons.IH [of "f a y"] show ?case by (auto simp: f_def split: if_splits)
qed simp

lemma foldl_above_le:
  fixes a c :: "'a::linorder"
  assumes "c < a" and f: "f = (\<lambda>m x. if x < m \<and> c < x then x else m)"
  shows "foldl f a v \<le> a \<and> c < foldl f a v \<and> (\<forall>x \<in> set v. c < x \<longrightarrow> foldl f a v \<le> x)"
  using assms(1)
proof (induction v arbitrary: a)
  case (Cons y v)
  from Cons.IH [of "f a y"] Cons.prems show ?case by (auto simp: f split: if_splits)
qed simp

text \<open>
  The prediction for a diverged warp. Of the program counters of its live threads,
  \<open>tw_find_next_pc\<close> picks the smallest one beyond the current program counter if the threads are
  on both sides of it, and the smallest one otherwise; it always picks one of them.
\<close>

theorem next_pc_prediction:
  assumes "pcs \<noteq> []"
  shows "\<exists>pc \<in> set pcs. tw_find_next_pc cur pcs = Some pc \<and>
    (if (\<exists>x \<in> set pcs. x < cur) \<and> (\<exists>x \<in> set pcs. cur < x)
     then cur < pc \<and> (\<forall>x \<in> set pcs. cur < x \<longrightarrow> pc \<le> x)
     else \<forall>x \<in> set pcs. pc \<le> x)"
proof -
  have hd: "hd pcs \<in> set pcs" using assms by simp
  have mn: "vec_min pcs \<in> set pcs" "\<forall>x \<in> set pcs. vec_min pcs \<le> x"
    using foldl_choice [of "\<lambda>x m. x < m" "hd pcs" pcs] foldl_min_le [of "hd pcs" pcs] hd
    by (auto simp: vec_min_def)
  have mx: "vec_max pcs \<in> set pcs" "\<forall>x \<in> set pcs. x \<le> vec_max pcs"
    using foldl_choice [of "\<lambda>x m. m < x" "hd pcs" pcs] foldl_max_ge [of "hd pcs" pcs] hd
    by (auto simp: vec_max_def)
  have lo: "(\<exists>x \<in> set pcs. x < cur) \<longleftrightarrow> vec_min pcs < cur" using mn by force
  have hi: "(\<exists>x \<in> set pcs. cur < x) \<longleftrightarrow> cur < vec_max pcs" using mx by force
  show ?thesis
  proof (cases "vec_min pcs < cur \<and> cur < vec_max pcs")
    case True
    let ?pc = "foldl (\<lambda>m x. if x < m \<and> cur < x then x else m) (vec_max pcs) pcs"
    have "?pc \<in> set pcs"
      using foldl_choice [of "\<lambda>x m. x < m \<and> cur < x" "vec_max pcs" pcs] mx(1) by auto
    with True foldl_above_le [OF _ refl, of cur "vec_max pcs" pcs] assms lo hi show ?thesis
      by (auto simp: tw_find_next_pc_def)
  next
    case False
    with mn assms lo hi show ?thesis by (auto simp: tw_find_next_pc_def)
  qed
qed

theorem next_pc_prediction_witness:
  "tw_find_next_pc 0x120 [0x180, 0x110, 0x140, 0x110] = Some 0x140"
  using next_pc_prediction [of "[0x180, 0x110, 0x140, 0x110]" "0x120"]
  by (auto simp: word_less_nat_alt word_le_nat_alt)

end
