(* ===== verification/Barrier.thy ===== *)
theory Barrier
  imports Sim_Prelude
begin

text \<open>
  The barriers of a shader core: \<open>barrier_set_t\<close> of \<open>gpgpu-sim/shader.cc\<close>. A
  \<open>warp_set_t\<close> is a bit set of \<open>WARP_PER_CTA_MAX\<close> (48) bits, here the set of the bits that are
  set; \<open>test\<close> and \<open>set\<close> throw on a larger index. \<open>bar_id_to_warps\<close> is a \<open>std::map\<close> whose
  \<open>operator[]\<close> yields the empty set for a new key. The keys of \<open>cta_to_warps\<close> are below
  \<open>max_cta_per_core\<close> (\<open>allocate_barrier\<close> asserts it), so a loop over the map in key order is a
  loop over those numbers.
\<close>

datatype barrier_type = NOT_BAR | SYNC | ARRIVE | RED

record barrier_inst =
  bi_type :: barrier_type
  bi_id :: u32
  bi_count :: u32

definition WARP_PER_CTA_MAX :: nat where "WARP_PER_CTA_MAX = 48"
definition MAX_BARRIERS_PER_CTA :: nat where "MAX_BARRIERS_PER_CTA = 16"

record barrier_set =
  max_cta_per_core :: nat
  max_warps_per_core :: nat
  max_barriers_per_cta :: nat
  bs_warp_size :: nat
  cta_to_warps :: "nat \<Rightarrow> nat set option"
  bar_id_to_warps :: "nat \<Rightarrow> nat set"
  warp_active :: "nat set"
  warp_at_barrier :: "nat set"

definition barrier_set_new :: "nat \<Rightarrow> nat \<Rightarrow> nat \<Rightarrow> nat \<Rightarrow> barrier_set option" where
  "barrier_set_new max_warps max_cta max_barriers warp_sz = do {
     require (max_warps \<le> WARP_PER_CTA_MAX);
     require (max_barriers \<le> MAX_BARRIERS_PER_CTA);
     Some \<lparr>max_cta_per_core = max_cta, max_warps_per_core = max_warps,
       max_barriers_per_cta = max_barriers, bs_warp_size = warp_sz, cta_to_warps = (\<lambda>_. None),
       bar_id_to_warps = (\<lambda>_. {}), warp_active = {}, warp_at_barrier = {}\<rparr>
   }"

text \<open>\<open>for (i = 0; i < m_max_barriers_per_cta; i++) m_bar_id_to_warps[i] &= ~warps\<close>.\<close>

definition clear_bars :: "nat set \<Rightarrow> barrier_set \<Rightarrow> barrier_set" where
  "clear_bars warps s = s\<lparr>bar_id_to_warps := (\<lambda>i. if i < max_barriers_per_cta s
     then bar_id_to_warps s i - warps else bar_id_to_warps s i)\<rparr>"

definition ctas :: "barrier_set \<Rightarrow> nat list" where
  "ctas s = filter (\<lambda>c. cta_to_warps s c \<noteq> None) [0..<max_cta_per_core s]"

definition allocate_barrier :: "nat \<Rightarrow> nat set \<Rightarrow> barrier_set \<Rightarrow> barrier_set option" where
  "allocate_barrier cta_id warps s = do {
     require (cta_id < max_cta_per_core s);
     require (cta_to_warps s cta_id = None);
     let s = s\<lparr>cta_to_warps := (cta_to_warps s)(cta_id \<mapsto> warps)\<rparr>;
     require (length (ctas s) \<le> max_cta_per_core s);
     Some (clear_bars warps (s\<lparr>warp_active := warp_active s \<union> warps,
       warp_at_barrier := warp_at_barrier s - warps\<rparr>))
   }"

definition deallocate_barrier :: "nat \<Rightarrow> barrier_set \<Rightarrow> barrier_set option" where
  "deallocate_barrier cta_id s = (case cta_to_warps s cta_id of
       None \<Rightarrow> Some s
     | Some warps \<Rightarrow> do {
         require (warps \<inter> warp_at_barrier s = {});
         require (warps \<inter> warp_active s = {});
         require (\<forall>i \<in> {0..<max_barriers_per_cta s}. warps \<inter> bar_id_to_warps s i = {});
         Some (clear_bars warps (s\<lparr>warp_active := warp_active s - warps,
           warp_at_barrier := warp_at_barrier s - warps,
           cta_to_warps := (cta_to_warps s)(cta_id := None)\<rparr>))
       })"

definition release_bar :: "nat \<Rightarrow> nat set \<Rightarrow> barrier_set \<Rightarrow> barrier_set" where
  "release_bar bar warps s = s\<lparr>bar_id_to_warps := (bar_id_to_warps s)(bar := bar_id_to_warps s bar - warps),
     warp_at_barrier := warp_at_barrier s - warps\<rparr>"

text \<open>
  The second component of the result is the call of \<open>broadcast_barrier_reduction\<close>, if one is
  made: the CTA, the barrier and the warps.
\<close>

definition warp_reaches_barrier :: "nat \<Rightarrow> nat \<Rightarrow> barrier_inst \<Rightarrow> barrier_set \<Rightarrow>
    (barrier_set \<times> (nat \<times> nat \<times> nat set) option) option" where
  "warp_reaches_barrier cta_id warp_id inst s = do {
     let bar = unat (bi_id inst);
     require (bi_id inst \<noteq> - 1);
     warps_in_cta \<leftarrow> cta_to_warps s cta_id;
     require (warp_id < WARP_PER_CTA_MAX);
     require (warp_id \<in> warps_in_cta);
     let s = s\<lparr>bar_id_to_warps := (bar_id_to_warps s)(bar := insert warp_id (bar_id_to_warps s bar))\<rparr>;
     let s = (if bi_type inst = SYNC \<or> bi_type inst = RED
       then s\<lparr>warp_at_barrier := insert warp_id (warp_at_barrier s)\<rparr> else s);
     let at_barrier = warps_in_cta \<inter> bar_id_to_warps s bar;
     let active = warps_in_cta \<inter> warp_active s;
     let broadcast = (if bi_type inst = RED then Some (cta_id, bar, at_barrier) else None);
     Some (if bi_count inst = - 1 then
         (if at_barrier = active then (release_bar bar at_barrier s, broadcast) else (s, None))
       else
         (if card at_barrier * bs_warp_size s = unat (bi_count inst)
          then (release_bar bar at_barrier s, broadcast) else (s, None)))
   }"

text \<open>
  The loop that looks for the CTA of the warp dereferences the end of the map when it finds none;
  the model aborts then.
\<close>

definition cta_of_warp :: "nat \<Rightarrow> barrier_set \<Rightarrow> nat set option" where
  "cta_of_warp w s = (case List.find (\<lambda>ws. w \<in> ws) (map (the \<circ> cta_to_warps s) (ctas s)) of
     None \<Rightarrow> None | Some ws \<Rightarrow> Some ws)"

definition exit_step :: "nat set \<Rightarrow> nat set \<Rightarrow> nat \<Rightarrow> barrier_set \<Rightarrow> barrier_set" where
  "exit_step warps_in_cta active i s =
     (let at_bar = warps_in_cta \<inter> bar_id_to_warps s i in
      if at_bar = active then release_bar i at_bar s else s)"

definition warp_exit :: "nat \<Rightarrow> barrier_set \<Rightarrow> barrier_set option" where
  "warp_exit warp_id s = do {
     require (warp_id < WARP_PER_CTA_MAX);
     let s = s\<lparr>warp_active := warp_active s - {warp_id}\<rparr>;
     warps_in_cta \<leftarrow> cta_of_warp warp_id s;
     let active = warps_in_cta \<inter> warp_active s;
     Some (fold (exit_step warps_in_cta active) [0..<max_barriers_per_cta s] s)
   }"

definition warp_waiting_at_barrier :: "nat \<Rightarrow> barrier_set \<Rightarrow> bool option" where
  "warp_waiting_at_barrier w s = do {
     require (w < WARP_PER_CTA_MAX);
     Some (w \<in> warp_at_barrier s)
   }"

subsection \<open>What the operations change\<close>

lemma exit_step_fields:
  "bar_id_to_warps (exit_step ws active i s) j = (if j = i \<and> ws \<inter> bar_id_to_warps s i = active
     then bar_id_to_warps s i - ws else bar_id_to_warps s j)"
  "warp_at_barrier (exit_step ws active i s) =
     (if ws \<inter> bar_id_to_warps s i = active then warp_at_barrier s - active else warp_at_barrier s)"
  "cta_to_warps (exit_step ws active i s) = cta_to_warps s"
  "warp_active (exit_step ws active i s) = warp_active s"
  "max_barriers_per_cta (exit_step ws active i s) = max_barriers_per_cta s"
  by (auto simp: exit_step_def release_bar_def Let_def)

lemma exit_loop_bars:
  "bar_id_to_warps (fold (exit_step ws active) [0..<n] s) j =
     (if j < n \<and> ws \<inter> bar_id_to_warps s j = active
      then bar_id_to_warps s j - ws else bar_id_to_warps s j)"
proof (induction n arbitrary: j)
  case (Suc n)
  have "bar_id_to_warps (fold (exit_step ws active) [0..<n] s) n = bar_id_to_warps s n"
    by (simp add: Suc.IH)
  then show ?case
    by (cases "j = n") (simp_all add: exit_step_fields Suc.IH less_Suc_eq)
qed simp

lemma exit_loop_at:
  "warp_at_barrier (fold (exit_step ws active) [0..<n] s) =
     (if \<exists>i < n. ws \<inter> bar_id_to_warps s i = active then warp_at_barrier s - active
      else warp_at_barrier s)"
proof (induction n)
  case (Suc n)
  let ?t = "fold (exit_step ws active) [0..<n] s"
  have "(\<exists>i < Suc n. ws \<inter> bar_id_to_warps s i = active) \<longleftrightarrow>
      (\<exists>i < n. ws \<inter> bar_id_to_warps s i = active) \<or> ws \<inter> bar_id_to_warps s n = active"
    by (auto simp: less_Suc_eq)
  moreover have "bar_id_to_warps ?t n = bar_id_to_warps s n" by (simp add: exit_loop_bars)
  ultimately show ?case
    by (cases "ws \<inter> bar_id_to_warps s n = active") (simp_all add: exit_step_fields Suc.IH)
qed simp

lemma exit_loop_frame:
  "cta_to_warps (fold (exit_step ws active) is s) = cta_to_warps s"
  "warp_active (fold (exit_step ws active) is s) = warp_active s"
  "max_barriers_per_cta (fold (exit_step ws active) is s) = max_barriers_per_cta s"
  by (induction "is" arbitrary: s) (simp_all add: exit_step_fields)

lemma cta_of_warpD:
  assumes "cta_of_warp w s = Some ws"
  obtains c where "cta_to_warps s c = Some ws" "w \<in> ws"
proof -
  from assms have "List.find (\<lambda>ws. w \<in> ws) (map (the \<circ> cta_to_warps s) (ctas s)) = Some ws"
    by (simp add: cta_of_warp_def split: option.splits)
  then have "w \<in> ws" and "ws \<in> set (map (the \<circ> cta_to_warps s) (ctas s))"
    by (force simp: find_Some_iff in_set_conv_nth)+
  then show thesis using that by (auto simp: ctas_def)
qed

subsection \<open>Invariant\<close>

definition cta_wf :: "barrier_set \<Rightarrow> bool" where
  "cta_wf s \<longleftrightarrow> (\<forall>c d ws vs. cta_to_warps s c = Some ws \<longrightarrow> cta_to_warps s d = Some vs \<longrightarrow> c \<noteq> d \<longrightarrow> ws \<inter> vs = {}) \<and>
     (\<forall>w \<in> warp_active s. \<exists>c ws. cta_to_warps s c = Some ws \<and> w \<in> ws)"

definition bars_wf :: "barrier_set \<Rightarrow> bool" where
  "bars_wf s \<longleftrightarrow> warp_at_barrier s = (\<Union>i. bar_id_to_warps s i) \<and> warp_at_barrier s \<subseteq> warp_active s \<and>
     (\<forall>i j. i \<noteq> j \<longrightarrow> bar_id_to_warps s i \<inter> bar_id_to_warps s j = {}) \<and>
     (\<forall>i. max_barriers_per_cta s \<le> i \<longrightarrow> bar_id_to_warps s i = {})"

definition none_complete :: "barrier_set \<Rightarrow> bool" where
  "none_complete s \<longleftrightarrow> (\<forall>c ws i. cta_to_warps s c = Some ws \<longrightarrow> ws \<inter> warp_active s \<noteq> {} \<longrightarrow>
     ws \<inter> bar_id_to_warps s i \<noteq> ws \<inter> warp_active s)"

definition barrier_inv :: "barrier_set \<Rightarrow> bool" where
  "barrier_inv s \<longleftrightarrow> cta_wf s \<and> bars_wf s \<and> none_complete s"

text \<open>
  The steps of a core whose warps synchronise with \<open>bar.sync\<close> or \<open>bar.red\<close> without a thread
  count: a CTA is launched on warps no other CTA holds, an active warp that does not wait reaches a
  barrier or exits, and a CTA is retired.
\<close>

inductive bar_step :: "barrier_set \<Rightarrow> barrier_set \<Rightarrow> bool" where
  step_allocate: "allocate_barrier c ws s = Some s' \<Longrightarrow> (\<And>d vs. cta_to_warps s d = Some vs \<Longrightarrow> ws \<inter> vs = {}) \<Longrightarrow>
    bar_step s s'"
| step_reach: "warp_reaches_barrier c w inst s = Some (s', b) \<Longrightarrow> bi_type inst = SYNC \<or> bi_type inst = RED \<Longrightarrow>
    bi_count inst = - 1 \<Longrightarrow> unat (bi_id inst) < max_barriers_per_cta s \<Longrightarrow>
    w \<in> warp_active s - warp_at_barrier s \<Longrightarrow> bar_step s s'"
| step_exit: "warp_exit w s = Some s' \<Longrightarrow> w \<in> warp_active s - warp_at_barrier s \<Longrightarrow> bar_step s s'"
| step_deallocate: "deallocate_barrier c s = Some s' \<Longrightarrow> bar_step s s'"

inductive bar_reachable :: "barrier_set \<Rightarrow> bool" where
  reach_new: "barrier_set_new m n k sz = Some s \<Longrightarrow> bar_reachable s"
| reach_step: "bar_reachable s \<Longrightarrow> bar_step s s' \<Longrightarrow> bar_reachable s'"

lemma inv_allocate:
  assumes "allocate_barrier c ws s = Some s'" and "\<And>d vs. cta_to_warps s d = Some vs \<Longrightarrow> ws \<inter> vs = {}"
    and "barrier_inv s"
  shows "barrier_inv s'"
proof -
  have eq: "cta_to_warps s' = (cta_to_warps s)(c \<mapsto> ws)" "warp_active s' = warp_active s \<union> ws"
    "warp_at_barrier s' = warp_at_barrier s - ws" "max_barriers_per_cta s' = max_barriers_per_cta s"
    "bar_id_to_warps s' = (\<lambda>i. if i < max_barriers_per_cta s then bar_id_to_warps s i - ws
       else bar_id_to_warps s i)" and c: "cta_to_warps s c = None"
    using assms(1) by (auto simp: allocate_barrier_def clear_bars_def Let_def split: if_splits)
  have wf: "cta_wf s" and b: "bars_wf s" and n: "none_complete s"
    using assms(3) by (simp_all add: barrier_inv_def)
  have act: "ws \<inter> warp_active s = {}"
    using wf assms(2) by (fastforce simp: cta_wf_def)
  then have at: "ws \<inter> warp_at_barrier s = {}" using b by (auto simp: bars_wf_def)
  then have bars: "ws \<inter> bar_id_to_warps s i = {}" for i using b by (auto simp: bars_wf_def)
  then have bars': "bar_id_to_warps s' = bar_id_to_warps s" by (auto simp: eq fun_eq_iff)
  have at': "warp_at_barrier s' = warp_at_barrier s" using at by (auto simp: eq)
  have "cta_wf s'"
    unfolding cta_wf_def
  proof (intro conjI allI ballI impI)
    fix w assume w: "w \<in> warp_active s'"
    show "\<exists>d vs. cta_to_warps s' d = Some vs \<and> w \<in> vs"
    proof (cases "w \<in> ws")
      case True
      then show ?thesis by (intro exI [of _ c]) (simp add: eq)
    next
      case False
      then obtain d vs where "cta_to_warps s d = Some vs" "w \<in> vs"
        using w wf by (auto simp: cta_wf_def eq)
      with c show ?thesis by (intro exI [of _ d]) (auto simp: eq)
    qed
  next
    fix d d' vs vs' assume "cta_to_warps s' d = Some vs" "cta_to_warps s' d' = Some vs'" "d \<noteq> d'"
    then show "vs \<inter> vs' = {}"
      using wf assms(2) by (auto simp: cta_wf_def eq Int_commute split: if_splits)
  qed
  moreover have "bars_wf s'"
    using b unfolding bars_wf_def bars' at' eq(2,4) by blast
  moreover have "none_complete s'"
    unfolding none_complete_def
  proof (intro allI impI)
    fix d vs i assume d: "cta_to_warps s' d = Some vs" and ne: "vs \<inter> warp_active s' \<noteq> {}"
    show "vs \<inter> bar_id_to_warps s' i \<noteq> vs \<inter> warp_active s'"
    proof (cases "d = c")
      case True
      then show ?thesis using d ne bars [of i] by (auto simp: eq(1,2) bars')
    next
      case False
      then have d: "cta_to_warps s d = Some vs" using d by (simp add: eq)
      then have "vs \<inter> ws = {}" using assms(2) by blast
      then have "vs \<inter> warp_active s' = vs \<inter> warp_active s" by (auto simp: eq)
      with n d ne show ?thesis by (auto simp: none_complete_def bars')
    qed
  qed
  ultimately show ?thesis by (simp add: barrier_inv_def)
qed

lemma inv_deallocate:
  assumes "deallocate_barrier c s = Some s'" and inv: "barrier_inv s"
  shows "barrier_inv s'"
proof (cases "cta_to_warps s c")
  case None
  with assms show ?thesis by (simp add: deallocate_barrier_def)
next
  case (Some ws)
  have wf: "cta_wf s" and b: "bars_wf s" and n: "none_complete s"
    using inv by (simp_all add: barrier_inv_def)
  have e: "ws \<inter> warp_at_barrier s = {}" "ws \<inter> warp_active s = {}"
    using assms(1) Some by (auto simp: deallocate_barrier_def split: if_splits)
  then have "bar_id_to_warps s i - ws = bar_id_to_warps s i" for i
    using b by (auto simp: bars_wf_def)
  moreover have "warp_active s - ws = warp_active s" "warp_at_barrier s - ws = warp_at_barrier s"
    using e by blast+
  ultimately have eq: "cta_to_warps s' = (cta_to_warps s)(c := None)" "warp_active s' = warp_active s"
    "warp_at_barrier s' = warp_at_barrier s" "max_barriers_per_cta s' = max_barriers_per_cta s"
    "bar_id_to_warps s' = bar_id_to_warps s"
    using assms(1) Some e
    by (auto simp: deallocate_barrier_def clear_bars_def fun_eq_iff split: if_splits)
  have "cta_wf s'"
    unfolding cta_wf_def
  proof (intro conjI allI ballI impI)
    fix w assume "w \<in> warp_active s'"
    then obtain d vs where d: "cta_to_warps s d = Some vs" "w \<in> vs"
      using wf by (auto simp: cta_wf_def eq)
    then have "d \<noteq> c" using Some e(2) \<open>w \<in> warp_active s'\<close> by (auto simp: eq)
    with d show "\<exists>d vs. cta_to_warps s' d = Some vs \<and> w \<in> vs" by (auto simp: eq)
  next
    fix d d' vs vs' assume "cta_to_warps s' d = Some vs" "cta_to_warps s' d' = Some vs'" "d \<noteq> d'"
    then show "vs \<inter> vs' = {}" using wf by (auto simp: cta_wf_def eq split: if_splits)
  qed
  moreover have "bars_wf s'" using b unfolding bars_wf_def eq by blast
  moreover have "none_complete s'" using n by (auto simp: none_complete_def eq)
  ultimately show ?thesis by (simp add: barrier_inv_def)
qed

text \<open>The two outcomes of a warp reaching a barrier with no thread count.\<close>

lemma reach_cases:
  assumes "warp_reaches_barrier c w inst s = Some (s', br)"
    and "bi_type inst = SYNC \<or> bi_type inst = RED" and "bi_count inst = - 1"
  obtains ws B where "cta_to_warps s c = Some ws" and "w \<in> ws" and "w < WARP_PER_CTA_MAX"
    and "B = insert w (bar_id_to_warps s (unat (bi_id inst)))"
    and "cta_to_warps s' = cta_to_warps s" and "warp_active s' = warp_active s"
    and "max_barriers_per_cta s' = max_barriers_per_cta s"
    and "bar_id_to_warps s' = (bar_id_to_warps s)(unat (bi_id inst) :=
      (if ws \<inter> B = ws \<inter> warp_active s then B - ws else B))"
    and "warp_at_barrier s' = (if ws \<inter> B = ws \<inter> warp_active s
      then insert w (warp_at_barrier s) - (ws \<inter> B) else insert w (warp_at_barrier s))"
proof -
  obtain ws where ws: "cta_to_warps s c = Some ws" "w \<in> ws" "w < WARP_PER_CTA_MAX"
    using assms(1) by (auto simp: warp_reaches_barrier_def bind_eq_Some_iff Let_def split: if_splits)
  let ?b = "unat (bi_id inst)"
  let ?B = "insert w (bar_id_to_warps s ?b)"
  have s': "s' = (if ws \<inter> ?B = ws \<inter> warp_active s
      then release_bar ?b (ws \<inter> ?B) (s\<lparr>bar_id_to_warps := (bar_id_to_warps s)(?b := ?B),
        warp_at_barrier := insert w (warp_at_barrier s)\<rparr>)
      else s\<lparr>bar_id_to_warps := (bar_id_to_warps s)(?b := ?B),
        warp_at_barrier := insert w (warp_at_barrier s)\<rparr>)"
    using assms ws by (auto simp: warp_reaches_barrier_def Let_def simp del: insert_iff
        split: if_splits)
  have d: "ws \<inter> ?B = ws \<inter> warp_active s \<Longrightarrow> ?B - ws \<inter> warp_active s = ?B - ws" by blast
  show thesis
    by (rule that [OF ws refl]) (simp_all add: s' d release_bar_def del: Int_insert_right)
qed

lemma bars_wfD:
  assumes "bars_wf s"
  shows "warp_at_barrier s = (\<Union>i. bar_id_to_warps s i)" "warp_at_barrier s \<subseteq> warp_active s"
    "i \<noteq> j \<Longrightarrow> bar_id_to_warps s i \<inter> bar_id_to_warps s j = {}"
    "max_barriers_per_cta s \<le> i \<Longrightarrow> bar_id_to_warps s i = {}"
  using assms unfolding bars_wf_def by blast+

lemma inv_reach:
  assumes "warp_reaches_barrier c w inst s = Some (s', br)"
    and "bi_type inst = SYNC \<or> bi_type inst = RED" and "bi_count inst = - 1"
    and id: "unat (bi_id inst) < max_barriers_per_cta s"
    and w: "w \<in> warp_active s - warp_at_barrier s" and inv: "barrier_inv s"
  shows "barrier_inv s'"
  using assms(1-3)
proof (cases rule: reach_cases)
  case (1 ws B)
  let ?b = "unat (bi_id inst)"
  have wf: "cta_wf s" and b: "bars_wf s" and n: "none_complete s"
    using inv by (simp_all add: barrier_inv_def)
  have wbar: "w \<notin> bar_id_to_warps s i" for i using w bars_wfD(1) [OF b] by blast
  have "cta_wf s'" using wf unfolding cta_wf_def 1(5,6) .
  moreover have "bars_wf s'"
    unfolding bars_wf_def
  proof (intro conjI allI impI)
    define R where "R = (\<Union>i \<in> - {?b}. bar_id_to_warps s i)"
    have U: "(\<Union>i. ((bar_id_to_warps s)(?b := X)) i) = X \<union> R" for X
      unfolding R_def by (auto split: if_splits)
    have "insert ?b (- {?b}) = UNIV" by blast
    then have "(\<Union>i. bar_id_to_warps s i) = bar_id_to_warps s ?b \<union> R"
      unfolding R_def using UN_insert [of "bar_id_to_warps s" ?b "- {?b}"] by simp
    then have at: "insert w (warp_at_barrier s) = B \<union> R"
      unfolding bars_wfD(1) [OF b] 1(4) by simp
    have "B \<inter> bar_id_to_warps s i = {}" if "i \<noteq> ?b" for i
      using bars_wfD(3) [OF b, of ?b i] that wbar [of i] unfolding 1(4) by auto
    then have "B \<inter> R = {}" unfolding R_def by auto
    then have "(B \<union> R) - ws \<inter> B = (B - ws) \<union> R" by blast
    then show "warp_at_barrier s' = (\<Union>i. bar_id_to_warps s' i)"
      unfolding 1(8,9) U at if_distrib [of "\<lambda>x. x \<union> R"] by (rule arg_cong)
    show "warp_at_barrier s' \<subseteq> warp_active s'"
      using bars_wfD(2) [OF b] w 1(6,9) by auto
    show "bar_id_to_warps s' i \<inter> bar_id_to_warps s' j = {}" if "i \<noteq> j" for i j
      using bars_wfD(3) [OF b that] wbar that 1(4,8) by auto
    show "bar_id_to_warps s' i = {}" if "max_barriers_per_cta s' \<le> i" for i
      using bars_wfD(4) [OF b, of i] that id 1(7,8) by auto
  qed
  moreover have "none_complete s'"
    unfolding none_complete_def
  proof (intro allI impI)
    fix d vs i assume d: "cta_to_warps s' d = Some vs" and ne: "vs \<inter> warp_active s' \<noteq> {}"
    have "vs \<inter> bar_id_to_warps s i \<noteq> vs \<inter> warp_active s"
      using n d ne unfolding none_complete_def 1(5,6) by blast
    moreover have "vs = ws \<or> vs \<inter> ws = {}"
      using wf d 1(1) unfolding cta_wf_def 1(5) by (cases "d = c") auto
    ultimately show "vs \<inter> bar_id_to_warps s' i \<noteq> vs \<inter> warp_active s'"
      using ne 1(2,4,6,8) w wbar [of i] by (cases "i = ?b") auto
  qed
  ultimately show ?thesis by (simp add: barrier_inv_def)
qed

lemma exit_cases:
  assumes "warp_exit w s = Some s'"
  obtains c ws where "cta_to_warps s c = Some ws" and "w \<in> ws"
    and "cta_to_warps s' = cta_to_warps s" and "warp_active s' = warp_active s - {w}"
    and "max_barriers_per_cta s' = max_barriers_per_cta s"
    and "\<And>i. bar_id_to_warps s' i = (if i < max_barriers_per_cta s \<and>
        ws \<inter> bar_id_to_warps s i = ws \<inter> warp_active s' then bar_id_to_warps s i - ws
      else bar_id_to_warps s i)"
    and "warp_at_barrier s' = (if \<exists>i < max_barriers_per_cta s. ws \<inter> bar_id_to_warps s i = ws \<inter> warp_active s'
      then warp_at_barrier s - (ws \<inter> warp_active s') else warp_at_barrier s)"
proof -
  let ?s = "s\<lparr>warp_active := warp_active s - {w}\<rparr>"
  obtain ws where ws: "cta_of_warp w ?s = Some ws"
    and s': "s' = fold (exit_step ws (ws \<inter> warp_active ?s)) [0..<max_barriers_per_cta s] ?s"
    using assms by (auto simp: warp_exit_def Let_def bind_eq_Some_iff split: if_splits)
  obtain c where "cta_to_warps s c = Some ws" "w \<in> ws"
    using cta_of_warpD [OF ws] by auto
  then show thesis
    by (rule that)
      (simp_all add: s' exit_loop_bars exit_loop_at exit_loop_frame split del: if_split cong: if_cong)
qed

lemma inv_exit:
  assumes "warp_exit w s = Some s'" and w: "w \<in> warp_active s - warp_at_barrier s" and inv: "barrier_inv s"
  shows "barrier_inv s'"
  using assms(1)
proof (cases rule: exit_cases)
  case (1 c ws)
  have wf: "cta_wf s" and b: "bars_wf s" and n: "none_complete s"
    using inv by (simp_all add: barrier_inv_def)
  have wbar: "w \<notin> bar_id_to_warps s i" for i using w bars_wfD(1) [OF b] by blast
  have sub: "bar_id_to_warps s' i \<subseteq> bar_id_to_warps s i" for i using 1(6) [of i] by auto
  have "cta_wf s'" using wf unfolding cta_wf_def 1(3,4) by blast
  moreover have "bars_wf s'"
    unfolding bars_wf_def
  proof (intro conjI allI impI)
    have "v \<in> warp_at_barrier s' \<longleftrightarrow> (\<exists>i. v \<in> bar_id_to_warps s' i)" for v
    proof (cases "\<exists>i < max_barriers_per_cta s. ws \<inter> bar_id_to_warps s i = ws \<inter> warp_active s'")
      case False
      then have "bar_id_to_warps s' i = bar_id_to_warps s i" for i using 1(6) [of i] by auto
      with False show ?thesis using 1(7) bars_wfD(1) [OF b] by auto
    next
      case True
      then obtain i where i: "i < max_barriers_per_cta s"
        "ws \<inter> bar_id_to_warps s i = ws \<inter> warp_active s'" by blast
      have iff: "v \<in> warp_at_barrier s' \<longleftrightarrow> v \<in> warp_at_barrier s \<and> \<not> (v \<in> ws \<and> v \<in> warp_active s')"
        using True 1(7) by auto
      show ?thesis
      proof (cases "v \<in> ws")
        case True
        have "v \<notin> bar_id_to_warps s' j" for j
        proof (cases "j = i")
          case True
          then show ?thesis using 1(6) [of j] i \<open>v \<in> ws\<close> by auto
        next
          case False
          show ?thesis
          proof
            assume "v \<in> bar_id_to_warps s' j"
            then have "v \<in> bar_id_to_warps s j" using sub by blast
            moreover from this have "v \<in> warp_active s'"
              using bars_wfD(1,2) [OF b] wbar 1(4) by blast
            then have "v \<in> bar_id_to_warps s i" using i(2) \<open>v \<in> ws\<close> by blast
            ultimately show False using bars_wfD(3) [OF b False] by blast
          qed
        qed
        moreover have "v \<notin> warp_at_barrier s'"
          using iff True bars_wfD(1,2) [OF b] w 1(4) by blast
        ultimately show ?thesis by blast
      next
        case False
        have "v \<in> bar_id_to_warps s' j \<longleftrightarrow> v \<in> bar_id_to_warps s j" for j
          using 1(6) [of j] False by auto
        with iff False show ?thesis using bars_wfD(1) [OF b] by blast
      qed
    qed
    then show "warp_at_barrier s' = (\<Union>i. bar_id_to_warps s' i)" by blast
    then show "warp_at_barrier s' \<subseteq> warp_active s'"
      using bars_wfD(1,2) [OF b] sub wbar unfolding 1(4) by blast
    show "bar_id_to_warps s' i \<inter> bar_id_to_warps s' j = {}" if "i \<noteq> j" for i j
      using bars_wfD(3) [OF b that] sub [of i] sub [of j] by blast
    show "bar_id_to_warps s' i = {}" if "max_barriers_per_cta s' \<le> i" for i
      using bars_wfD(4) [OF b, of i] that sub [of i] 1(5) by auto
  qed
  moreover have "none_complete s'"
    unfolding none_complete_def
  proof (intro allI impI)
    fix d vs i assume d: "cta_to_warps s' d = Some vs" and ne: "vs \<inter> warp_active s' \<noteq> {}"
    have "vs = ws \<or> vs \<inter> ws = {}"
      using wf d 1(1) unfolding cta_wf_def 1(3) by (cases "d = c") auto
    then show "vs \<inter> bar_id_to_warps s' i \<noteq> vs \<inter> warp_active s'"
    proof
      assume "vs = ws"
      show ?thesis
      proof (cases "i < max_barriers_per_cta s \<and> ws \<inter> bar_id_to_warps s i = ws \<inter> warp_active s'")
        case True
        then show ?thesis using ne 1(6) [of i] unfolding \<open>vs = ws\<close> by auto
      next
        case False
        then show ?thesis using ne 1(6) [of i] bars_wfD(4) [OF b, of i] unfolding \<open>vs = ws\<close>
          by (cases "i < max_barriers_per_cta s") simp_all
      qed
    next
      assume dis: "vs \<inter> ws = {}"
      then have "vs \<inter> bar_id_to_warps s' i = vs \<inter> bar_id_to_warps s i"
        using 1(6) [of i] by auto
      moreover have "vs \<inter> warp_active s' = vs \<inter> warp_active s" using dis 1(2,4) by auto
      ultimately show ?thesis using n d ne unfolding none_complete_def 1(3) by auto
    qed
  qed
  ultimately show ?thesis by (simp add: barrier_inv_def)
qed

lemma reachable_inv: "bar_reachable s \<Longrightarrow> barrier_inv s"
proof (induction rule: bar_reachable.induct)
  case (reach_new m n k sz s)
  then show ?case
    by (auto simp: barrier_set_new_def barrier_inv_def cta_wf_def bars_wf_def none_complete_def
        split: if_splits)
next
  case (reach_step s s')
  from reach_step.hyps(2) reach_step.IH show ?case
    by cases (blast intro: inv_allocate inv_reach inv_exit inv_deallocate)+
qed

lemma cta_wf_unique:
  assumes "cta_wf s" and "cta_to_warps s c = Some ws" and "cta_to_warps s d = Some vs"
    and "v \<in> ws" and "v \<in> vs"
  shows "ws = vs"
proof (cases "c = d")
  case False
  then have "ws \<inter> vs = {}" using assms(1-3) by (simp add: cta_wf_def)
  with assms(4,5) show ?thesis by blast
qed (use assms(2,3) in simp)

subsection \<open>What the barriers promise\<close>


text \<open>
  A barrier is not left early. When a warp that waited at barrier \<open>i\<close> no longer waits
  after another warp has reached a barrier, then that barrier was \<open>i\<close> and every active warp of the
  CTA has reached it; when it no longer waits after another warp has exited, every other active
  warp of the CTA had reached \<open>i\<close>.
\<close>

theorem barrier_release_safe:
  assumes "bar_reachable s" and "cta_to_warps s c = Some ws" and "v \<in> ws" and "v \<in> bar_id_to_warps s i"
    and "w \<in> warp_active s - warp_at_barrier s" and "v \<notin> warp_at_barrier s'"
    and "bi_type inst = SYNC \<or> bi_type inst = RED" and "bi_count inst = - 1"
  shows "(warp_reaches_barrier d w inst s = Some (s', br) \<longrightarrow>
      unat (bi_id inst) = i \<and> ws \<inter> warp_active s \<subseteq> insert w (bar_id_to_warps s i)) \<and>
    (warp_exit w s = Some s' \<longrightarrow> ws \<inter> warp_active s - {w} \<subseteq> bar_id_to_warps s i)"
proof -
  have b: "bars_wf s" and wf: "cta_wf s"
    using reachable_inv [OF assms(1)] by (simp_all add: barrier_inv_def)
  have vat: "v \<in> warp_at_barrier s" using assms(4) bars_wfD(1) [OF b] by blast
  have same: "vs = ws" if "cta_to_warps s e = Some vs" "v \<in> vs" for e vs
    by (rule cta_wf_unique [OF wf that(1) assms(2) that(2) assms(3)])
  have only: "j = i" if "v \<in> bar_id_to_warps s j" for j
    using bars_wfD(3) [OF b, of i j] assms(4) that by (cases "j = i") auto
  have "unat (bi_id inst) = i \<and> ws \<inter> warp_active s \<subseteq> insert w (bar_id_to_warps s i)"
    if "warp_reaches_barrier d w inst s = Some (s', br)"
    using that assms(7,8)
  proof (cases rule: reach_cases)
    case (1 vs B)
    then have comp: "vs \<inter> B = vs \<inter> warp_active s" and v: "v \<in> vs" "v \<in> B"
      using assms(6) vat by (auto split: if_splits)
    have "v \<noteq> w" using vat assms(5) by blast
    then have "v \<in> bar_id_to_warps s (unat (bi_id inst))" using v 1(4) by simp
    then have "unat (bi_id inst) = i" by (rule only)
    with comp same [OF 1(1) v(1)] 1(4) show ?thesis by auto
  qed
  moreover have "ws \<inter> warp_active s - {w} \<subseteq> bar_id_to_warps s i" if "warp_exit w s = Some s'"
    using that
  proof (cases rule: exit_cases)
    case (1 d vs)
    have r: "\<exists>j < max_barriers_per_cta s. vs \<inter> bar_id_to_warps s j = vs \<inter> warp_active s'" and v: "v \<in> vs"
      using assms(6) vat 1(7) by (auto split: if_splits)
    then obtain j where j: "vs \<inter> bar_id_to_warps s j = vs \<inter> warp_active s'" by blast
    have "v \<in> warp_active s'" using vat assms(5) bars_wfD(2) [OF b] 1(4) by blast
    then have "j = i" using j v only by blast
    with j same [OF 1(1) v] 1(4) show ?thesis by blast
  qed
  ultimately show ?thesis by blast
qed

text \<open>
  With \<open>bar.arrive\<close> a barrier can be left early. Let \<open>v\<close> have arrived at barrier \<open>i\<close>
  without waiting and then wait at barrier \<open>j\<close>. When the last warp of \<open>i\<close> reaches it, all warps
  counted at \<open>i\<close> are taken out of \<open>m_warp_at_barrier\<close>, so \<open>v\<close> stops waiting although it still counts
  as waiting at \<open>j\<close> and \<open>j\<close> is not complete.
\<close>

theorem arrive_release_wakes_other_barrier:
  assumes "cta_to_warps s c = Some ws" and "v \<in> ws" and "w \<in> ws" and "w < WARP_PER_CTA_MAX"
    and "v \<in> bar_id_to_warps s (unat (bi_id inst))" and "v \<in> bar_id_to_warps s j"
    and "j \<noteq> unat (bi_id inst)" and "warp_waiting_at_barrier v s = Some True"
    and "bi_type inst = SYNC" and "bi_id inst \<noteq> - 1" and "bi_count inst \<noteq> - 1"
    and "card (insert w (ws \<inter> bar_id_to_warps s (unat (bi_id inst)))) * bs_warp_size s = unat (bi_count inst)"
  shows "\<exists>s'. warp_reaches_barrier c w inst s = Some (s', None) \<and>
    warp_waiting_at_barrier v s' = Some False \<and> v \<in> bar_id_to_warps s' j"
proof -
  have "ws \<inter> insert w (bar_id_to_warps s (unat (bi_id inst))) =
      insert w (ws \<inter> bar_id_to_warps s (unat (bi_id inst)))" using assms(3) by blast
  moreover have "v < WARP_PER_CTA_MAX"
    using assms(8) by (simp add: warp_waiting_at_barrier_def split: if_splits)
  ultimately show ?thesis
    using assms by (simp add: warp_reaches_barrier_def Let_def release_bar_def
        warp_waiting_at_barrier_def del: Int_insert_right_if1)
qed

subsection \<open>A CTA of three warps\<close>

definition three_warps :: barrier_set where
  "three_warps = \<lparr>max_cta_per_core = 8, max_warps_per_core = 48, max_barriers_per_cta = 16,
     bs_warp_size = 32, cta_to_warps = [0 \<mapsto> {0, 1, 2}], bar_id_to_warps = (\<lambda>_. {}),
     warp_active = {0, 1, 2}, warp_at_barrier = {}\<rparr>"

definition bar_sync :: "u32 \<Rightarrow> u32 \<Rightarrow> barrier_inst" where
  "bar_sync i n = \<lparr>bi_type = SYNC, bi_id = i, bi_count = n\<rparr>"

lemma three_warps_allocated:
  assumes "barrier_set_new 48 8 16 32 = Some s"
  shows "allocate_barrier 0 {0, 1, 2} s = Some three_warps"
proof -
  have s: "s = \<lparr>max_cta_per_core = 8, max_warps_per_core = 48, max_barriers_per_cta = 16,
     bs_warp_size = 32, cta_to_warps = (\<lambda>_. None), bar_id_to_warps = (\<lambda>_. {}),
     warp_active = {}, warp_at_barrier = {}\<rparr>"
    using assms by (simp add: barrier_set_new_def WARP_PER_CTA_MAX_def MAX_BARRIERS_PER_CTA_def)
  have "length (ctas t) \<le> max_cta_per_core t" for t
    unfolding ctas_def using length_filter_le [of _ "[0..<max_cta_per_core t]"] by simp
  then show ?thesis
    by (simp add: allocate_barrier_def Let_def) (simp add: s clear_bars_def three_warps_def fun_eq_iff)
qed

lemma three_warps_reachable: "bar_reachable three_warps"
proof -
  obtain s where s: "barrier_set_new 48 8 16 32 = Some s"
    by (simp add: barrier_set_new_def WARP_PER_CTA_MAX_def MAX_BARRIERS_PER_CTA_def)
  then have "cta_to_warps s d = None" for d
    by (auto simp: barrier_set_new_def split: if_splits)
  then have "bar_step s three_warps"
    by (intro step_allocate [OF three_warps_allocated [OF s]]) simp
  with bar_reachable.reach_new [OF s] show ?thesis by (rule bar_reachable.reach_step)
qed

definition one_waits :: barrier_set where
  "one_waits = three_warps\<lparr>bar_id_to_warps := (\<lambda>_. {})(0 := {1}), warp_at_barrier := {1}\<rparr>"

lemma one_waits_reached: "warp_reaches_barrier 0 1 (bar_sync 0 (- 1)) three_warps = Some (one_waits, None)"
  by (simp add: warp_reaches_barrier_def three_warps_def bar_sync_def one_waits_def Let_def
      WARP_PER_CTA_MAX_def)

lemma one_waits_reachable: "bar_reachable one_waits"
  by (rule bar_reachable.reach_step [OF three_warps_reachable step_reach [OF one_waits_reached]])
    (simp_all add: bar_sync_def three_warps_def)


definition two_wait :: barrier_set where
  "two_wait = one_waits\<lparr>bar_id_to_warps := (\<lambda>_. {})(0 := {0, 1}), warp_at_barrier := {0, 1}\<rparr>"

lemma two_not_three: "{0, Suc 0} \<noteq> {0, Suc 0, 2}"
proof
  assume "{0, Suc 0} = {0, Suc 0, 2}"
  then have "2 \<in> {0, Suc 0}" by blast
  then show False by simp
qed

lemma two_wait_reached: "warp_reaches_barrier 0 0 (bar_sync 0 (- 1)) one_waits = Some (two_wait, None)"
  by (simp add: warp_reaches_barrier_def three_warps_def bar_sync_def one_waits_def two_wait_def
      Let_def WARP_PER_CTA_MAX_def fun_eq_iff)
    (rule impI, erule notE [OF two_not_three])

lemma two_wait_reachable: "bar_reachable two_wait"
  by (rule bar_reachable.reach_step [OF one_waits_reachable step_reach [OF two_wait_reached]])
    (simp_all add: bar_sync_def three_warps_def one_waits_def)

theorem barrier_release_safe_witness:
  "\<exists>s'. warp_reaches_barrier 0 2 (bar_sync 0 (- 1)) two_wait = Some (s', None) \<and>
     warp_at_barrier s' = {} \<and> {0, 1, 2} \<inter> warp_active two_wait \<subseteq> insert 2 (bar_id_to_warps two_wait 0)"
proof -
  obtain s' where s': "warp_reaches_barrier 0 2 (bar_sync 0 (- 1)) two_wait = Some (s', None)"
    "warp_at_barrier s' = {}"
    by (simp add: warp_reaches_barrier_def three_warps_def bar_sync_def one_waits_def two_wait_def
        Let_def WARP_PER_CTA_MAX_def release_bar_def insert_commute)
  from barrier_release_safe [OF two_wait_reachable, of 0 "{0, 1, 2}" 1 0 2 s' "bar_sync 0 (- 1)" 0 None]
  have "{0, 1, 2} \<inter> warp_active two_wait \<subseteq> insert 2 (bar_id_to_warps two_wait 0)"
    using s' by (simp add: two_wait_def one_waits_def three_warps_def bar_sync_def)
  with s' show ?thesis by blast
qed

text \<open>Warp 1 has arrived at barrier 0 and waits at barrier 1; warp 0 then completes barrier 0.\<close>

theorem arrive_release_wakes_other_barrier_witness:
  "\<exists>s1 s2 s3. warp_reaches_barrier 0 1 \<lparr>bi_type = ARRIVE, bi_id = 0, bi_count = 64\<rparr> three_warps
       = Some (s1, None) \<and>
     warp_reaches_barrier 0 1 (bar_sync 1 64) s1 = Some (s2, None) \<and>
     warp_waiting_at_barrier 1 s2 = Some True \<and>
     warp_reaches_barrier 0 0 (bar_sync 0 64) s2 = Some (s3, None) \<and>
     warp_waiting_at_barrier 1 s3 = Some False"
proof -
  obtain s1 where s1: "warp_reaches_barrier 0 1 \<lparr>bi_type = ARRIVE, bi_id = 0, bi_count = 64\<rparr> three_warps
       = Some (s1, None)" "s1 = three_warps\<lparr>bar_id_to_warps := (\<lambda>_. {})(0 := {1})\<rparr>"
    by (simp add: warp_reaches_barrier_def three_warps_def Let_def WARP_PER_CTA_MAX_def)
  obtain s2 where s2: "warp_reaches_barrier 0 1 (bar_sync 1 64) s1 = Some (s2, None)"
    "s2 = s1\<lparr>bar_id_to_warps := (\<lambda>_. {})(0 := {1}, 1 := {1}), warp_at_barrier := {1}\<rparr>"
    by (simp add: warp_reaches_barrier_def three_warps_def bar_sync_def Let_def
        WARP_PER_CTA_MAX_def s1(2))
  have w: "warp_waiting_at_barrier 1 s2 = Some True"
    by (simp add: s2(2) warp_waiting_at_barrier_def WARP_PER_CTA_MAX_def)
  have "\<exists>s3. warp_reaches_barrier 0 0 (bar_sync 0 64) s2 = Some (s3, None) \<and>
    warp_waiting_at_barrier 1 s3 = Some False \<and> 1 \<in> bar_id_to_warps s3 1"
    by (rule arrive_release_wakes_other_barrier [of _ _ "{0, 1, 2}"])
      (simp_all add: s2(2) s1(2) three_warps_def bar_sync_def WARP_PER_CTA_MAX_def
        warp_waiting_at_barrier_def)
  with s1(1) s2(1) w show ?thesis by blast
qed

end
