(* ===== verification/Scoreboard.thy ===== *)
theory Scoreboard
  imports Instruction
begin

text \<open>
  The register scoreboard of a shader core (\<open>gpgpu-sim/scoreboard.cc\<close>): for every warp
  the set of registers with a pending write, and the set of those written by a long-latency
  memory load. Reserving a register twice aborts the simulator; the issue stage avoids that by
  asking \<open>checkCollision\<close> first.
\<close>

record scoreboard =
  reg_table :: "u32 set list"
  longopregs :: "u32 set list"

definition scoreboard_new :: "nat \<Rightarrow> scoreboard" where
  "scoreboard_new n_warps =
     \<lparr>reg_table = replicate n_warps {}, longopregs = replicate n_warps {}\<rparr>"

definition reserveRegister :: "nat \<Rightarrow> u32 \<Rightarrow> scoreboard \<Rightarrow> scoreboard option" where
  "reserveRegister wid regnum sb = do {
     regs \<leftarrow> nth_opt (reg_table sb) wid;
     require (regnum \<notin> regs);
     Some (sb\<lparr>reg_table := (reg_table sb)[wid := insert regnum regs]\<rparr>)
   }"

definition releaseRegister :: "nat \<Rightarrow> u32 \<Rightarrow> scoreboard \<Rightarrow> scoreboard option" where
  "releaseRegister wid regnum sb = do {
     regs \<leftarrow> nth_opt (reg_table sb) wid;
     if regnum \<notin> regs then Some sb
     else Some (sb\<lparr>reg_table := (reg_table sb)[wid := regs - {regnum}]\<rparr>)
   }"

definition islongop :: "scoreboard \<Rightarrow> nat \<Rightarrow> u32 \<Rightarrow> bool option" where
  "islongop sb warp_id regnum = do {
     regs \<leftarrow> nth_opt (longopregs sb) warp_id;
     Some (regnum \<in> regs)
   }"

definition long_latency_space :: "memory_space_t \<Rightarrow> bool" where
  "long_latency_space sp \<longleftrightarrow>
     sp = global_space \<or> sp = local_space \<or> sp = param_space_kernel \<or>
     sp = param_space_local \<or> sp = param_space_unclassified \<or> sp = tex_space"

definition reserveRegisters :: "inst_t \<Rightarrow> scoreboard \<Rightarrow> scoreboard option" where
  "reserveRegisters inst sb = do {
     sb' \<leftarrow> foldM (\<lambda>r s. if 0 < r then reserveRegister (i_warp_id inst) r s else Some s)
              (i_out inst) sb;
     if is_load inst \<and> long_latency_space (i_space inst)
     then foldM (\<lambda>r s. if 0 < r then do {
              regs \<leftarrow> nth_opt (longopregs s) (i_warp_id inst);
              Some (s\<lparr>longopregs := (longopregs s)[i_warp_id inst := insert r regs]\<rparr>)
            } else Some s) (i_out inst) sb'
     else Some sb'
   }"

definition releaseRegisters :: "inst_t \<Rightarrow> scoreboard \<Rightarrow> scoreboard option" where
  "releaseRegisters inst sb =
     foldM (\<lambda>r s. if 0 < r then do {
              s' \<leftarrow> releaseRegister (i_warp_id inst) r s;
              regs \<leftarrow> nth_opt (longopregs s') (i_warp_id inst);
              Some (s'\<lparr>longopregs := (longopregs s')[i_warp_id inst := regs - {r}]\<rparr>)
            } else Some s) (i_out inst) sb"

text \<open>
  \<open>checkCollision\<close> collects the registers of the instruction in a \<open>std::set<int>\<close> (so an
  unsigned register number is converted to a signed one) and looks each up in the set of
  unsigned pending registers (so it is converted back).
\<close>

definition inst_regs :: "inst_t \<Rightarrow> int list" where
  "inst_regs inst =
     map sint (filter (\<lambda>r. 0 < r) (i_out inst)) @
     map sint (filter (\<lambda>r. 0 < r) (i_in inst)) @
     (if 0 < i_pred inst then [i_pred inst] else []) @
     (if 0 < i_ar1 inst then [i_ar1 inst] else []) @
     (if 0 < i_ar2 inst then [i_ar2 inst] else [])"

definition checkCollision :: "nat \<Rightarrow> inst_t \<Rightarrow> scoreboard \<Rightarrow> bool option" where
  "checkCollision wid inst sb = do {
     regs \<leftarrow> nth_opt (reg_table sb) wid;
     Some (\<exists>r \<in> set (inst_regs inst). (word_of_int r :: u32) \<in> regs)
   }"

definition pendingWrites :: "nat \<Rightarrow> scoreboard \<Rightarrow> bool option" where
  "pendingWrites wid sb = do {
     regs \<leftarrow> nth_opt (reg_table sb) wid;
     Some (regs \<noteq> {})
   }"

subsection \<open>Register sets of an instruction\<close>

definition written :: "inst_t \<Rightarrow> u32 set" where
  "written inst = {r \<in> set (i_out inst). 0 < r}"

definition touched :: "inst_t \<Rightarrow> u32 set" where
  "touched inst = word_of_int ` set (inst_regs inst)"

text \<open>
  No destination register is named twice. The code asserts nothing of the kind when it
  decodes an instruction, but reserving the second copy aborts.
\<close>

definition distinct_outs :: "inst_t \<Rightarrow> bool" where
  "distinct_outs inst \<longleftrightarrow> distinct (filter (\<lambda>r. 0 < r) (i_out inst))"

lemma written_set: "written inst = set (filter (\<lambda>r. 0 < r) (i_out inst))"
  by (auto simp: written_def)

lemma written_touched: "written inst \<subseteq> touched inst"
proof
  fix r assume "r \<in> written inst"
  then have "sint r \<in> set (inst_regs inst)"
    by (auto simp: written_def inst_regs_def)
  then show "r \<in> touched inst"
    by (simp add: touched_def rev_image_eqI)
qed

definition pending :: "scoreboard \<Rightarrow> nat \<Rightarrow> u32 set" where
  "pending sb wid = (if wid < length (reg_table sb) then reg_table sb ! wid else {})"

definition scoreboard_wf :: "nat \<Rightarrow> scoreboard \<Rightarrow> bool" where
  "scoreboard_wf n sb \<longleftrightarrow> length (reg_table sb) = n \<and> length (longopregs sb) = n"

lemma scoreboard_new_wf [simp]: "scoreboard_wf n (scoreboard_new n)"
  by (simp add: scoreboard_wf_def scoreboard_new_def)

lemma pending_new [simp]: "pending (scoreboard_new n) w = {}"
  by (simp add: pending_def scoreboard_new_def)

subsection \<open>The loops over the destination registers\<close>

lemma reserve_loop:
  assumes "w < length (reg_table sb)"
  shows "foldM (\<lambda>r s. if 0 < r then reserveRegister w r s else Some s) rs sb =
    (if distinct (filter (\<lambda>r. 0 < r) rs) \<and> set (filter (\<lambda>r. 0 < r) rs) \<inter> reg_table sb ! w = {}
     then Some (sb\<lparr>reg_table := (reg_table sb)
                 [w := reg_table sb ! w \<union> set (filter (\<lambda>r. 0 < r) rs)]\<rparr>)
     else None)"
  using assms
proof (induction rs arbitrary: sb)
  case (Cons r rs)
  show ?case
  proof (cases "0 < r \<and> r \<notin> reg_table sb ! w")
    case True
    let ?sb = "sb\<lparr>reg_table := (reg_table sb)[w := insert r (reg_table sb ! w)]\<rparr>"
    have "reserveRegister w r sb = Some ?sb"
      using True Cons.prems by (simp add: reserveRegister_def)
    with Cons.IH [of ?sb] Cons.prems True show ?thesis
      by auto
  next
    case False
    then show ?thesis
      using Cons by (auto simp: reserveRegister_def)
  qed
qed simp

lemma mark_loop:
  assumes "w < length (longopregs sb)"
  shows "foldM (\<lambda>r s. if 0 < r then do {
              regs \<leftarrow> nth_opt (longopregs s) w;
              Some (s\<lparr>longopregs := (longopregs s)[w := insert r regs]\<rparr>)
            } else Some s) rs sb =
     Some (sb\<lparr>longopregs := (longopregs sb)
       [w := longopregs sb ! w \<union> set (filter (\<lambda>r. 0 < r) rs)]\<rparr>)"
  using assms by (induction rs arbitrary: sb) auto

lemma release_loop:
  assumes "w < length (reg_table sb)" and "w < length (longopregs sb)"
  shows "foldM (\<lambda>r s. if 0 < r then do {
              s' \<leftarrow> releaseRegister w r s;
              regs \<leftarrow> nth_opt (longopregs s') w;
              Some (s'\<lparr>longopregs := (longopregs s')[w := regs - {r}]\<rparr>)
            } else Some s) rs sb =
     Some (sb\<lparr>reg_table := (reg_table sb)[w := reg_table sb ! w - set (filter (\<lambda>r. 0 < r) rs)],
              longopregs := (longopregs sb)
                [w := longopregs sb ! w - set (filter (\<lambda>r. 0 < r) rs)]\<rparr>)"
  using assms
proof (induction rs arbitrary: sb)
  case (Cons r rs)
  show ?case
  proof (cases "0 < r")
    case True
    let ?sb = "sb\<lparr>reg_table := (reg_table sb)[w := reg_table sb ! w - {r}],
                 longopregs := (longopregs sb)[w := longopregs sb ! w - {r}]\<rparr>"
    have "(do { s' \<leftarrow> releaseRegister w r sb;
              regs \<leftarrow> nth_opt (longopregs s') w;
              Some (s'\<lparr>longopregs := (longopregs s')[w := regs - {r}]\<rparr>) }) = Some ?sb"
      using True Cons.prems by (simp add: releaseRegister_def)
    with Cons.IH [of ?sb] Cons.prems True show ?thesis
      by (simp add: set_diff_eq [symmetric] insert_def [symmetric] Diff_insert2 [symmetric])
  next
    case False
    with Cons show ?thesis by simp
  qed
qed simp

subsection \<open>What the operations do\<close>

lemma checkCollision_eq:
  "w < length (reg_table sb) \<Longrightarrow>
   checkCollision w inst sb = Some (touched inst \<inter> pending sb w \<noteq> {})"
  by (auto simp: checkCollision_def touched_def pending_def)

lemma reserveRegisters_eq:
  assumes "scoreboard_wf n sb" and "i_warp_id inst < n"
  shows "reserveRegisters inst sb =
    (if distinct_outs inst \<and> written inst \<inter> pending sb (i_warp_id inst) = {}
     then Some (sb\<lparr>reg_table := (reg_table sb)
                   [i_warp_id inst := pending sb (i_warp_id inst) \<union> written inst],
                 longopregs := (if is_load inst \<and> long_latency_space (i_space inst)
                   then (longopregs sb)
                     [i_warp_id inst := longopregs sb ! i_warp_id inst \<union> written inst]
                   else longopregs sb)\<rparr>)
     else None)"
  using assms
  by (simp add: reserveRegisters_def reserve_loop mark_loop scoreboard_wf_def pending_def
      written_set distinct_outs_def)

lemma releaseRegisters_eq:
  assumes "scoreboard_wf n sb" and "i_warp_id inst < n"
  shows "releaseRegisters inst sb =
     Some (sb\<lparr>reg_table := (reg_table sb)
                [i_warp_id inst := pending sb (i_warp_id inst) - written inst],
              longopregs := (longopregs sb)
                [i_warp_id inst := longopregs sb ! i_warp_id inst - written inst]\<rparr>)"
  using assms
  by (simp add: releaseRegisters_def release_loop scoreboard_wf_def pending_def written_set)

lemma releaseRegister_total: "w < length (reg_table sb) \<Longrightarrow> \<exists>t. releaseRegister w r sb = Some t"
  by (simp add: releaseRegister_def)

lemma reserveRegisters_wf:
  assumes "reserveRegisters inst sb = Some t" and "scoreboard_wf n sb" and "i_warp_id inst < n"
  shows "scoreboard_wf n t"
  using assms(1) reserveRegisters_eq [OF assms(2,3)] assms(2)
  by (simp add: scoreboard_wf_def split: if_splits) auto

lemma releaseRegisters_wf:
  assumes "releaseRegisters inst sb = Some t" and "scoreboard_wf n sb" and "i_warp_id inst < n"
  shows "scoreboard_wf n t"
  using assms(1) releaseRegisters_eq [OF assms(2,3)] assms(2)
  by (simp add: scoreboard_wf_def) auto

subsection \<open>The interface the issue stage relies on\<close>

text \<open>
  The issue stage of \<open>shader.cc\<close> asks for a collision before it reserves, and the writeback
  stage releases what was reserved. All it needs from the table is in this locale.
\<close>

definition tracks :: "(nat \<Rightarrow> u32 set) \<Rightarrow> inst_t list \<Rightarrow> bool" where
  "tracks p fl \<longleftrightarrow>
     (\<forall>w. p w = \<Union> (written ` {i \<in> set fl. i_warp_id i = w})) \<and>
     sorted_wrt (\<lambda>i j. i_warp_id i = i_warp_id j \<longrightarrow> written i \<inter> written j = {}) fl"

locale hazard_table =
  fixes valid :: "'s \<Rightarrow> nat \<Rightarrow> bool"
    and pend :: "'s \<Rightarrow> nat \<Rightarrow> u32 set"
    and check :: "nat \<Rightarrow> inst_t \<Rightarrow> 's \<Rightarrow> bool option"
    and reserve :: "inst_t \<Rightarrow> 's \<Rightarrow> 's option"
    and release :: "inst_t \<Rightarrow> 's \<Rightarrow> 's option"
  assumes check_law: "valid s w \<Longrightarrow> check w i s = Some (touched i \<inter> pend s w \<noteq> {})"
    and reserve_law: "valid s (i_warp_id i) \<Longrightarrow> distinct_outs i \<Longrightarrow>
      written i \<inter> pend s (i_warp_id i) = {} \<Longrightarrow>
      \<exists>t. reserve i s = Some t \<and> valid t = valid s \<and>
          pend t = (pend s)(i_warp_id i := pend s (i_warp_id i) \<union> written i)"
    and release_law: "valid s (i_warp_id i) \<Longrightarrow>
      \<exists>t. release i s = Some t \<and> valid t = valid s \<and>
          pend t = (pend s)(i_warp_id i := pend s (i_warp_id i) - written i)"
begin

lemma no_hazard_reserves:
  assumes "valid s (i_warp_id i)" and "distinct_outs i"
    and "check (i_warp_id i) i s = Some False"
  shows "\<exists>t. reserve i s = Some t \<and> valid t = valid s \<and>
          pend t = (pend s)(i_warp_id i := pend s (i_warp_id i) \<union> written i)"
proof -
  have "touched i \<inter> pend s (i_warp_id i) = {}"
    using assms check_law by auto
  then have "written i \<inter> pend s (i_warp_id i) = {}"
    using written_touched by blast
  with assms show ?thesis by (intro reserve_law)
qed

lemma issue_tracks:
  assumes "tracks (pend s) fl" and "valid s (i_warp_id i)" and "distinct_outs i"
    and "check (i_warp_id i) i s = Some False" and "reserve i s = Some t"
  shows "tracks (pend t) (i # fl)"
proof -
  have p: "pend t = (pend s)(i_warp_id i := pend s (i_warp_id i) \<union> written i)"
    using no_hazard_reserves assms by fastforce
  have "touched i \<inter> pend s (i_warp_id i) = {}"
    using assms check_law by auto
  then have "written i \<inter> pend s (i_warp_id i) = {}"
    using written_touched by blast
  with assms(1) show ?thesis
    unfolding tracks_def p by (auto split: if_splits) blast
qed

lemma complete_tracks:
  assumes tr: "tracks (pend s) (xs @ i # ys)" and "valid s (i_warp_id i)"
    and "release i s = Some t"
  shows "tracks (pend t) (xs @ ys)"
proof -
  have p: "pend t = (pend s)(i_warp_id i := pend s (i_warp_id i) - written i)"
    using release_law assms by fastforce
  have dis: "\<forall>j \<in> set xs \<union> set ys. i_warp_id j = i_warp_id i \<longrightarrow> written j \<inter> written i = {}"
    using tr by (auto simp: tracks_def sorted_wrt_append)
  have "\<Union> (written ` {j \<in> set (xs @ ys). i_warp_id j = w}) = pend t w" for w
  proof (cases "w = i_warp_id i")
    case True
    have "pend s w = written i \<union> \<Union> (written ` {j \<in> set (xs @ ys). i_warp_id j = w})"
      using tr True by (auto simp: tracks_def)
    with dis True show ?thesis unfolding p by auto
  next
    case False
    with tr show ?thesis unfolding p by (auto simp: tracks_def)
  qed
  then show ?thesis
    using tr by (auto simp: tracks_def sorted_wrt_append)
qed

end

interpretation sb: hazard_table
  "\<lambda>s w. w < length (reg_table s) \<and> scoreboard_wf (length (reg_table s)) s"
  pending checkCollision reserveRegisters releaseRegisters
proof
  fix s :: scoreboard and w and i :: inst_t
  assume "w < length (reg_table s) \<and> scoreboard_wf (length (reg_table s)) s"
  then show "checkCollision w i s = Some (touched i \<inter> pending s w \<noteq> {})"
    by (simp add: checkCollision_eq)
next
  fix s :: scoreboard and i :: inst_t
  assume "i_warp_id i < length (reg_table s) \<and> scoreboard_wf (length (reg_table s)) s"
    and "distinct_outs i" and "written i \<inter> pending s (i_warp_id i) = {}"
  then show "\<exists>t. reserveRegisters i s = Some t \<and>
      (\<lambda>w. w < length (reg_table t) \<and> scoreboard_wf (length (reg_table t)) t) =
      (\<lambda>w. w < length (reg_table s) \<and> scoreboard_wf (length (reg_table s)) s) \<and>
      pending t = (pending s)(i_warp_id i := pending s (i_warp_id i) \<union> written i)"
    by (auto simp: reserveRegisters_eq [of "length (reg_table s)"] scoreboard_wf_def
        pending_def fun_eq_iff)
next
  fix s :: scoreboard and i :: inst_t
  assume "i_warp_id i < length (reg_table s) \<and> scoreboard_wf (length (reg_table s)) s"
  then show "\<exists>t. releaseRegisters i s = Some t \<and>
      (\<lambda>w. w < length (reg_table t) \<and> scoreboard_wf (length (reg_table t)) t) =
      (\<lambda>w. w < length (reg_table s) \<and> scoreboard_wf (length (reg_table s)) s) \<and>
      pending t = (pending s)(i_warp_id i := pending s (i_warp_id i) - written i)"
    by (auto simp: releaseRegisters_eq [of "length (reg_table s)"] scoreboard_wf_def
        pending_def fun_eq_iff)
qed

subsection \<open>Issue and writeback as steps\<close>

text \<open>
  The scoreboard together with the instructions in flight. An instruction issues when
  \<open>checkCollision\<close> reports no hazard (\<open>scheduler_unit::cycle\<close>), and
  \<open>shader_core_ctx::issue_warp\<close> then reserves its registers; \<open>writeback\<close> releases them
  with \<open>releaseRegisters\<close>, for the instructions in any order.
\<close>

inductive pipe_step :: "scoreboard \<times> inst_t list \<Rightarrow> scoreboard \<times> inst_t list \<Rightarrow> bool" where
  issue: "i_warp_id i < length (reg_table s) \<Longrightarrow> distinct_outs i \<Longrightarrow>
    checkCollision (i_warp_id i) i s = Some False \<Longrightarrow> reserveRegisters i s = Some t \<Longrightarrow>
    pipe_step (s, fl) (t, i # fl)"
| complete: "releaseRegisters i s = Some t \<Longrightarrow> pipe_step (s, xs @ i # ys) (t, xs @ ys)"

inductive pipe_reachable :: "nat \<Rightarrow> scoreboard \<times> inst_t list \<Rightarrow> bool" for n where
  start: "pipe_reachable n (scoreboard_new n, [])"
| step: "pipe_reachable n c \<Longrightarrow> pipe_step c c' \<Longrightarrow> pipe_reachable n c'"

inductive_cases pipe_stepE: "pipe_step (s, fl) c"

definition pipe_inv :: "nat \<Rightarrow> scoreboard \<times> inst_t list \<Rightarrow> bool" where
  "pipe_inv n c \<longleftrightarrow> scoreboard_wf n (fst c) \<and> tracks (pending (fst c)) (snd c) \<and>
     (\<forall>i \<in> set (snd c). i_warp_id i < n)"

lemma pipe_step_inv:
  assumes "pipe_step c c'" and "pipe_inv n c"
  shows "pipe_inv n c'"
  using assms
proof (induction rule: pipe_step.induct)
  case (issue i s t fl)
  then have wf: "scoreboard_wf n s" "length (reg_table s) = n"
    by (auto simp: pipe_inv_def scoreboard_wf_def)
  with issue have "tracks (pending t) (i # fl)"
    using sb.issue_tracks [of s fl i t] by (simp add: pipe_inv_def)
  moreover have "scoreboard_wf n t"
    using reserveRegisters_wf issue.hyps wf by simp
  ultimately show ?case
    using issue wf by (auto simp: pipe_inv_def)
next
  case (complete i s t xs ys)
  then have wf: "scoreboard_wf n s" "length (reg_table s) = n" "i_warp_id i < n"
    by (auto simp: pipe_inv_def scoreboard_wf_def)
  with complete have "tracks (pending t) (xs @ ys)"
    using sb.complete_tracks [of s xs i ys t] by (simp add: pipe_inv_def)
  moreover have "scoreboard_wf n t"
    using releaseRegisters_wf complete.hyps wf by simp
  ultimately show ?case
    using complete.prems by (simp add: pipe_inv_def)
qed

lemma pipe_reachable_inv: "pipe_reachable n c \<Longrightarrow> pipe_inv n c"
proof (induction rule: pipe_reachable.induct)
  case start
  then show ?case by (simp add: pipe_inv_def tracks_def)
next
  case (step c c')
  then show ?case by (blast intro: pipe_step_inv)
qed

subsection \<open>Properties\<close>

definition sample_load :: inst_t where
  "sample_load = \<lparr>i_pc = 0, i_isize = 8, i_op = LOAD_OP, i_memory_op = memory_load,
     i_out = [3, 0, 0, 0], i_in = [5, 0, 0, 0], i_pred = 0, i_ar1 = 0, i_ar2 = 0,
     i_space = global_space, i_data_size = 4, i_warp_id = 0\<rparr>"

lemmas sample_load_simps = sample_load_def checkCollision_def inst_regs_def scoreboard_new_def
  distinct_outs_def reserveRegisters_def reserveRegister_def releaseRegisters_def
  releaseRegister_def islongop_def is_load_def long_latency_space_def touched_def pending_def
  written_def scoreboard_wf_def

lemma sample_load_issues:
  "\<exists>sb. reserveRegisters sample_load (scoreboard_new 1) = Some sb \<and>
     pipe_reachable 1 (sb, [sample_load])"
proof -
  obtain sb where sb: "reserveRegisters sample_load (scoreboard_new 1) = Some sb"
    by (simp add: sample_load_simps)
  have "pipe_step (scoreboard_new 1, []) (sb, [sample_load])"
    using sb by (intro pipe_step.issue) (simp_all add: sample_load_simps)
  with sb show ?thesis
    by (blast intro: pipe_reachable.intros)
qed



text \<open>
  In every reachable state the hazard test is exact. It reports a collision if and
  only if some register the instruction reads or writes is the destination of an instruction of
  the same warp that is still in flight (so no read-after-write or write-after-write hazard is
  missed, and none is invented).
\<close>

theorem collision_iff_in_flight_writer:
  assumes "pipe_reachable n (sb, fl)" and "w < n"
  shows "checkCollision w i sb =
    Some (\<exists>j \<in> set fl. i_warp_id j = w \<and> touched i \<inter> written j \<noteq> {})"
proof -
  have "scoreboard_wf n sb" and tr: "tracks (pending sb) fl"
    using pipe_reachable_inv [OF assms(1)] by (simp_all add: pipe_inv_def)
  then have "checkCollision w i sb = Some (touched i \<inter> pending sb w \<noteq> {})"
    using assms(2) by (simp add: checkCollision_eq scoreboard_wf_def)
  moreover have "pending sb w = \<Union> (written ` {j \<in> set fl. i_warp_id j = w})"
    using tr by (simp add: tracks_def)
  ultimately show ?thesis by auto
qed

theorem collision_iff_in_flight_writer_witness:
  "\<exists>sb. pipe_reachable 1 (sb, [sample_load]) \<and> checkCollision 0 sample_load sb = Some True"
proof -
  obtain sb where r: "pipe_reachable 1 (sb, [sample_load])"
    using sample_load_issues by blast
  have "checkCollision 0 sample_load sb =
     Some (\<exists>j \<in> set [sample_load]. i_warp_id j = 0 \<and> touched sample_load \<inter> written j \<noteq> {})"
    by (rule collision_iff_in_flight_writer [OF r]) simp
  then have "checkCollision 0 sample_load sb = Some True"
    by (simp add: sample_load_simps)
  with r show ?thesis by blast
qed

text \<open>
  The writeback of a load does not go through \<open>releaseRegisters\<close> but releases each
  destination with \<open>releaseRegister\<close>, which never touches \<open>longopregs\<close>: the register is no
  longer pending, yet \<open>islongop\<close> (which the two-level scheduler uses to demote warps) still
  reports it as waiting on a long-latency operation.
\<close>

theorem released_load_stays_longop:
  assumes "scoreboard_wf n sb" and "i_warp_id i < n"
    and "is_load i" and "long_latency_space (i_space i)" and "r \<in> written i"
    and "reserveRegisters i sb = Some sb1" and "releaseRegister (i_warp_id i) r sb1 = Some sb2"
  shows "r \<notin> pending sb2 (i_warp_id i) \<and> islongop sb2 (i_warp_id i) r = Some True"
proof -
  have "longopregs sb1 = (longopregs sb)
      [i_warp_id i := longopregs sb ! i_warp_id i \<union> written i]"
    using assms(3,4,6) reserveRegisters_eq [OF assms(1,2)] by (simp split: if_splits) force
  then have long: "r \<in> longopregs sb1 ! i_warp_id i"
    using assms(1,2,5) by (simp add: scoreboard_wf_def)
  have wf: "length (reg_table sb1) = n" "length (longopregs sb1) = n"
    using reserveRegisters_wf [OF assms(6,1,2)] by (simp_all add: scoreboard_wf_def)
  show ?thesis
  proof (cases "r \<in> reg_table sb1 ! i_warp_id i")
    case True
    then have "sb2 = sb1\<lparr>reg_table := (reg_table sb1)
        [i_warp_id i := reg_table sb1 ! i_warp_id i - {r}]\<rparr>"
      using assms(2,7) wf by (simp add: releaseRegister_def)
    with long wf assms(2) show ?thesis by (simp add: pending_def islongop_def)
  next
    case False
    then have "sb2 = sb1"
      using assms(2,7) wf by (simp add: releaseRegister_def)
    with False long wf assms(2) show ?thesis by (simp add: pending_def islongop_def)
  qed
qed

theorem released_load_stays_longop_witness:
  "\<exists>sb1 sb2. reserveRegisters sample_load (scoreboard_new 1) = Some sb1 \<and>
     releaseRegister 0 3 sb1 = Some sb2 \<and> 3 \<notin> pending sb2 0 \<and> islongop sb2 0 3 = Some True"
proof -
  obtain sb1 where 1: "reserveRegisters sample_load (scoreboard_new 1) = Some sb1"
    using sample_load_issues by blast
  have "scoreboard_wf 1 sb1"
    by (rule reserveRegisters_wf [OF 1]) (simp_all add: sample_load_def)
  then obtain sb2 where 2: "releaseRegister 0 3 sb1 = Some sb2"
    using releaseRegister_total [of 0 sb1 3] by (auto simp: scoreboard_wf_def)
  have "3 \<notin> pending sb2 (i_warp_id sample_load) \<and>
        islongop sb2 (i_warp_id sample_load) 3 = Some True"
    by (rule released_load_stays_longop [of 1 "scoreboard_new 1" sample_load 3 sb1 sb2])
      (use 1 2 in \<open>simp_all add: sample_load_def is_load_def long_latency_space_def written_def\<close>)
  with 1 2 show ?thesis by (auto simp: sample_load_def)
qed

end
