(* ===== verification/Scheduler.thy ===== *)
theory Scheduler
  imports Warp Barrier Scoreboard "HOL-Library.Multiset"
begin

text \<open>
  The warp schedulers: how each orders the warps it supervises before a cycle. \<open>CAWS.cc\<close> has the
  criticality-aware schedulers CAWS and GCAWS, \<open>shader.cc\<close> the loose round robin, greedy-then-oldest,
  warp-limiting and two-level schedulers. A pointer to a warp is the warp's index in the core; it is
  never null (\<open>add_supervised_warp_id\<close> takes the address of an element). An iterator into
  \<open>m_supervised_warps\<close> is a position, \<open>None\<close> for \<open>end()\<close>. Asking a warp whether it waits may clear its
  memory-barrier flag, so comparisons pass the core's state along.
\<close>

record sched_core =
  sc_warps :: "shd_warp list"
  sc_scoreboard :: scoreboard
  sc_barriers :: barrier_set
  sc_oracle_cpl :: bool
  sc_with_oracle_cpl :: bool

definition core_waiting :: "nat \<Rightarrow> sched_core \<Rightarrow> (bool \<times> sched_core) option" where
  "core_waiting i s = do {
     w \<leftarrow> nth_opt (sc_warps s) i;
     (if functional_done w then Some (True, s)
      else do {
        at_barrier \<leftarrow> warp_waiting_at_barrier (unat (m_warp_id w)) (sc_barriers s);
        pend \<leftarrow> (if \<not> at_barrier \<and> m_membar w
          then pendingWrites (unat (m_warp_id w)) (sc_scoreboard s) else Some False);
        let (r, w') = warp_waiting at_barrier pend w;
        Some (r, s\<lparr>sc_warps := (sc_warps s)[i := w']\<rparr>)
      })
   }"

definition core_CPL :: "nat \<Rightarrow> sched_core \<Rightarrow> fp option" where
  "core_CPL i s = do {
     w \<leftarrow> nth_opt (sc_warps s) i;
     tw_get_CPL (sc_oracle_cpl s) (sc_with_oracle_cpl s) w
   }"

text \<open>\<open>done_exit() || waiting()\<close>.\<close>

definition core_stopped :: "nat \<Rightarrow> sched_core \<Rightarrow> (bool \<times> sched_core) option" where
  "core_stopped i s = do {
     w \<leftarrow> nth_opt (sc_warps s) i;
     (if m_done_exit w then Some (True, s) else core_waiting i s)
   }"

definition sort_warps_by_criticality :: "nat \<Rightarrow> nat \<Rightarrow> sched_core \<Rightarrow> (bool \<times> sched_core) option" where
  "sort_warps_by_criticality lhs rhs s = do {
     (l, s) \<leftarrow> core_stopped lhs s;
     (if l then Some (False, s)
      else do {
        (r, s) \<leftarrow> core_stopped rhs s;
        (if r then Some (True, s)
         else do {
           cl \<leftarrow> core_CPL lhs s;
           cr \<leftarrow> core_CPL rhs s;
           wl \<leftarrow> nth_opt (sc_warps s) lhs;
           wr \<leftarrow> nth_opt (sc_warps s) rhs;
           Some (if fp_eq cl cr then m_dynamic_warp_id wl < m_dynamic_warp_id wr else fp_less cr cl, s)
         })
      })
   }"

definition sort_warps_by_oldest_dynamic_id :: "nat \<Rightarrow> nat \<Rightarrow> sched_core \<Rightarrow> (bool \<times> sched_core) option" where
  "sort_warps_by_oldest_dynamic_id lhs rhs s = do {
     (l, s) \<leftarrow> core_stopped lhs s;
     (if l then Some (False, s)
      else do {
        (r, s) \<leftarrow> core_stopped rhs s;
        (if r then Some (True, s)
         else do {
           wl \<leftarrow> nth_opt (sc_warps s) lhs;
           wr \<leftarrow> nth_opt (sc_warps s) rhs;
           Some (m_dynamic_warp_id wl < m_dynamic_warp_id wr, s)
         })
      })
   }"

subsection \<open>The selection sort of CAWS\<close>

text \<open>
  \<open>sort_warps\<close>, over the comparison \<open>cmp\<close>. The bound \<open>temp.size()-1\<close> is unsigned: on an empty
  vector the loop would run past its end.
\<close>

definition select_step :: "('w \<Rightarrow> 'w \<Rightarrow> 's \<Rightarrow> (bool \<times> 's) option) \<Rightarrow> 'w list \<Rightarrow> nat \<Rightarrow> nat \<times> 's \<Rightarrow> (nat \<times> 's) option" where
  "select_step cmp temp j = (\<lambda>(jMax, s). do {
     (b, s) \<leftarrow> cmp (temp ! j) (temp ! jMax) s;
     Some (if b then j else jMax, s)
   })"

definition sort_step :: "('w \<Rightarrow> 'w \<Rightarrow> 's \<Rightarrow> (bool \<times> 's) option) \<Rightarrow> nat \<Rightarrow> 'w list \<times> 's \<Rightarrow> ('w list \<times> 's) option" where
  "sort_step cmp i = (\<lambda>(temp, s). do {
     (jMax, s) \<leftarrow> foldM (select_step cmp temp) [Suc i..<length temp] (i, s);
     Some (if jMax \<noteq> i then temp[i := temp ! jMax, jMax := temp ! i] else temp, s)
   })"

definition sort_warps :: "('w \<Rightarrow> 'w \<Rightarrow> 's \<Rightarrow> (bool \<times> 's) option) \<Rightarrow> 'w list \<Rightarrow> 's \<Rightarrow> ('w list \<times> 's) option" where
  "sort_warps cmp temp s = do {
     require (temp \<noteq> []);
     foldM (sort_step cmp) [0..<length temp - 1] (temp, s)
   }"

definition caws_order_by_priority :: "nat list \<Rightarrow> nat \<Rightarrow> sched_core \<Rightarrow> (nat list \<times> sched_core) option" where
  "caws_order_by_priority input_list num_warps_to_add s = do {
     require (num_warps_to_add \<le> length input_list);
     (temp, s) \<leftarrow> sort_warps sort_warps_by_criticality input_list s;
     Some (take num_warps_to_add temp, s)
   }"

definition gcaws_order_by_priority :: "nat list \<Rightarrow> nat option \<Rightarrow> nat \<Rightarrow> sched_core \<Rightarrow> (nat list \<times> sched_core) option" where
  "gcaws_order_by_priority input_list last_issued num_warps_to_add s = do {
     require (num_warps_to_add \<le> length input_list);
     (case last_issued of
        None \<Rightarrow> do {
          (temp, s) \<leftarrow> sort_warps sort_warps_by_criticality input_list s;
          Some (take num_warps_to_add temp, s)
        }
      | Some k \<Rightarrow> do {
          greedy_value \<leftarrow> nth_opt input_list k;
          (temp, s) \<leftarrow> sort_warps sort_warps_by_criticality input_list s;
          Some (greedy_value # filter (\<lambda>w. w \<noteq> greedy_value) (take num_warps_to_add temp), s)
        })
   }"

definition caws_order_warps :: "nat list \<Rightarrow> sched_core \<Rightarrow> (nat list \<times> sched_core) option" where
  "caws_order_warps supervised s = do {
     require (supervised \<noteq> []);
     caws_order_by_priority supervised (length supervised) s
   }"

definition gcaws_order_warps :: "nat list \<Rightarrow> nat option \<Rightarrow> sched_core \<Rightarrow> (nat list \<times> sched_core) option" where
  "gcaws_order_warps supervised last_issued s = do {
     require (supervised \<noteq> []);
     gcaws_order_by_priority supervised last_issued (length supervised) s
   }"

subsection \<open>Loose round robin\<close>

text \<open>The loop of \<open>order_lrr\<close>: \<open>it\<close> is the iterator, \<open>n\<close> the number of warps still to add.\<close>

fun lrr_loop :: "'w list \<Rightarrow> nat \<Rightarrow> nat \<Rightarrow> 'w list" where
  "lrr_loop input it 0 = []"
| "lrr_loop input it (Suc n) =
     (let it = (if it = length input then 0 else it) in input ! it # lrr_loop input (it + 1) n)"

definition order_lrr :: "'w list \<Rightarrow> nat option \<Rightarrow> nat \<Rightarrow> 'w list option" where
  "order_lrr input last_issued num_warps_to_add = do {
     require (num_warps_to_add \<le> length input);
     Some (lrr_loop input (case last_issued of None \<Rightarrow> 0 | Some k \<Rightarrow> k + 1) num_warps_to_add)
   }"

definition lrr_order_warps :: "nat list \<Rightarrow> nat option \<Rightarrow> nat list option" where
  "lrr_order_warps supervised last_issued = order_lrr supervised last_issued (length supervised)"

subsection \<open>Greedy then oldest, and warp limiting\<close>

text \<open>
  \<open>std_sort\<close> is \<open>std::sort\<close> with \<open>sort_warps_by_oldest_dynamic_id\<close>; which comparisons it makes is up
  to the library, so it is a parameter. Dereferencing \<open>end()\<close> aborts the model.
\<close>

definition order_greedy_then_priority ::
    "(nat list \<Rightarrow> sched_core \<Rightarrow> (nat list \<times> sched_core) option) \<Rightarrow> nat list \<Rightarrow> nat option \<Rightarrow> nat \<Rightarrow>
     sched_core \<Rightarrow> (nat list \<times> sched_core) option" where
  "order_greedy_then_priority std_sort input_list last_issued num_warps_to_add s = do {
     require (num_warps_to_add \<le> length input_list);
     k \<leftarrow> last_issued;
     greedy_value \<leftarrow> nth_opt input_list k;
     (temp, s) \<leftarrow> std_sort input_list s;
     Some (greedy_value # filter (\<lambda>w. w \<noteq> greedy_value) (take num_warps_to_add temp), s)
   }"

definition gto_order_warps where
  "gto_order_warps std_sort supervised last_issued s =
     order_greedy_then_priority std_sort supervised last_issued (length supervised) s"

definition swl_order_warps where
  "swl_order_warps std_sort num_warps_to_limit supervised last_issued s =
     order_greedy_then_priority std_sort supervised last_issued
       (min num_warps_to_limit (length supervised)) s"

subsection \<open>The two-level scheduler\<close>

text \<open>
  The loop over the four operands asks the scoreboard about the next buffered instruction;
  \<open>inst->in[i]\<close> is read for \<open>i < 4\<close>.
\<close>

definition waits_for_long_op :: "nat \<Rightarrow> sched_core \<Rightarrow> bool option" where
  "waits_for_long_op i s = do {
     w \<leftarrow> nth_opt (sc_warps s) i;
     (case ibuffer_next_inst w of
        None \<Rightarrow> Some False
      | Some inst \<Rightarrow> foldM (\<lambda>k waiting. do {
            r \<leftarrow> nth_opt (i_in inst) k;
            (if 0 < r then do {
               long \<leftarrow> islongop (sc_scoreboard s) (unat (m_warp_id w)) r;
               Some (waiting \<or> long)
             } else Some waiting)
          }) [0..<4] False)
   }"

fun demote_waiting :: "nat list \<Rightarrow> sched_core \<Rightarrow> (nat list \<times> nat list \<times> sched_core) option" where
  "demote_waiting [] s = Some ([], [], s)"
| "demote_waiting (i # is) s = do {
     (waiting, s) \<leftarrow> core_waiting i s;
     long \<leftarrow> waits_for_long_op i s;
     (active, demoted, s) \<leftarrow> demote_waiting is s;
     Some (if waiting \<or> long then (active, i # demoted, s) else (i # active, demoted, s))
   }"

fun promote :: "nat \<Rightarrow> nat list \<Rightarrow> nat list \<Rightarrow> (nat list \<times> nat list \<times> nat) option" where
  "promote 0 active pool = Some (active, pool, 0)"
| "promote (Suc n) active [] = None"
| "promote (Suc n) active (p # pool) = do {
     (active, pool, k) \<leftarrow> promote n (active @ [p]) pool;
     Some (active, pool, k + 1)
   }"

definition two_level_order_warps :: "nat \<Rightarrow> nat list \<Rightarrow> nat list \<Rightarrow> sched_core \<Rightarrow>
    (nat list \<times> nat list \<times> sched_core) option" where
  "two_level_order_warps max_active active pool s = do {
     (kept, demoted, s) \<leftarrow> demote_waiting active s;
     (active, pool, num_promoted) \<leftarrow> promote (max_active - length kept) kept (pool @ demoted);
     require (num_promoted = length demoted);
     Some (active, pool, s)
   }"

definition two_level_add_supervised :: "nat \<Rightarrow> nat \<Rightarrow> nat list \<times> nat list \<Rightarrow> nat list \<times> nat list" where
  "two_level_add_supervised max_active i = (\<lambda>(active, pool).
     if length active < max_active then (active @ [i], pool) else (active, pool @ [i]))"

definition two_level_on_issue :: "nat list \<Rightarrow> nat \<Rightarrow> nat list option" where
  "two_level_on_issue active it = order_lrr active (Some it) (length active)"

subsection \<open>Sorting through a comparison with side effects\<close>

text \<open>
  What the sort relies on: on the elements of \<open>elems\<close> and in a good state, the comparison answers by
  a strict partial order and leaves the state good.
\<close>

lemma select_step_app: "select_step cmp temp j (m, s) = do {
    (b, s) \<leftarrow> cmp (temp ! j) (temp ! m) s; Some (if b then j else m, s) }"
  by (simp add: select_step_def)

lemma sort_step_app: "sort_step cmp i (temp, s) = do {
    (jMax, s) \<leftarrow> foldM (select_step cmp temp) [Suc i..<length temp] (i, s);
    Some (if jMax \<noteq> i then temp[i := temp ! jMax, jMax := temp ! i] else temp, s) }"
  by (simp add: sort_step_def)

locale probing_order =
  fixes cmp :: "'w \<Rightarrow> 'w \<Rightarrow> 's \<Rightarrow> (bool \<times> 's) option"
    and less :: "'w \<Rightarrow> 'w \<Rightarrow> bool"
    and good :: "'s \<Rightarrow> bool"
    and elems :: "'w set"
  assumes cmp: "good s \<Longrightarrow> a \<in> elems \<Longrightarrow> b \<in> elems \<Longrightarrow> \<exists>s'. cmp a b s = Some (less a b, s') \<and> good s'"
    and irrefl: "\<not> less a a"
    and trans: "less a b \<Longrightarrow> less b c \<Longrightarrow> less a c"
begin

lemma select_loop:
  assumes "good s" and "set temp \<subseteq> elems" and "i < length temp" and "n \<le> length temp" and "i < n"
  shows "\<exists>m s'. foldM (select_step cmp temp) [Suc i..<n] (i, s) = Some (m, s') \<and> good s' \<and>
    i \<le> m \<and> m < n \<and> (\<forall>k. i \<le> k \<longrightarrow> k < n \<longrightarrow> \<not> less (temp ! k) (temp ! m))"
  using assms(4,5)
proof (induction n)
  case (Suc n)
  show ?case
  proof (cases "i = n")
    case True
    with assms(1) show ?thesis by (auto simp: irrefl less_Suc_eq)
  next
    case False
    then have "i < n" using Suc.prems by simp
    then obtain m s1 where m: "foldM (select_step cmp temp) [Suc i..<n] (i, s) = Some (m, s1)" "good s1"
      "i \<le> m" "m < n" "\<And>k. i \<le> k \<Longrightarrow> k < n \<Longrightarrow> \<not> less (temp ! k) (temp ! m)"
      using Suc.IH Suc.prems by auto
    have "temp ! n \<in> elems" "temp ! m \<in> elems"
      using assms(2) m(4) Suc.prems by (auto intro!: nth_mem)
    then obtain s2 where s2: "cmp (temp ! n) (temp ! m) s1 = Some (less (temp ! n) (temp ! m), s2)" "good s2"
      using cmp [OF m(2)] by blast
    have "[Suc i..<Suc n] = [Suc i..<n] @ [n]" using \<open>i < n\<close> by simp
    then have run: "foldM (select_step cmp temp) [Suc i..<Suc n] (i, s)
        = Some (if less (temp ! n) (temp ! m) then n else m, s2)"
      using m(1) s2(1) by (simp add: foldM_append select_step_app del: upt_Suc)
    have "\<not> less (temp ! k) (temp ! (if less (temp ! n) (temp ! m) then n else m))"
      if "i \<le> k" "k < Suc n" for k
    proof (cases "k = n")
      case True
      then show ?thesis by (auto simp: irrefl)
    next
      case False
      then have "\<not> less (temp ! k) (temp ! m)" using m(5) that by simp
      then show ?thesis using trans by auto
    qed
    with run s2(2) m(3,4) \<open>i < n\<close> show ?thesis by auto
  qed
qed simp

text \<open>Between two rounds, no later element comes before one of the first \<open>i\<close>.\<close>

definition settled :: "nat \<Rightarrow> 'w list \<Rightarrow> bool" where
  "settled i xs \<longleftrightarrow> (\<forall>p q. p < i \<longrightarrow> p < q \<longrightarrow> q < length xs \<longrightarrow> \<not> less (xs ! q) (xs ! p))"

definition exchange :: "nat \<Rightarrow> nat \<Rightarrow> 'w list \<Rightarrow> 'w list" where
  "exchange i m xs = (if m \<noteq> i then xs[i := xs ! m, m := xs ! i] else xs)"

lemma exchange_simps:
  assumes "i < length xs" and "m < length xs"
  shows "length (exchange i m xs) = length xs" and "mset (exchange i m xs) = mset xs"
    and "k < length xs \<Longrightarrow> exchange i m xs ! k = (if k = i then xs ! m else if k = m then xs ! i else xs ! k)"
  using assms mset_swap [of m xs i] by (auto simp: exchange_def nth_list_update)

lemma sort_step_exchanges:
  assumes "good s" and "set temp \<subseteq> elems" and "i < length temp"
  shows "\<exists>m s'. sort_step cmp i (temp, s) = Some (exchange i m temp, s') \<and> good s' \<and> i \<le> m \<and>
    m < length temp \<and> (\<forall>k. i \<le> k \<longrightarrow> k < length temp \<longrightarrow> \<not> less (temp ! k) (temp ! m))"
  using select_loop [OF assms, of "length temp"] assms(3)
  by (auto simp: sort_step_app exchange_def)

lemma sort_round:
  assumes "good s" and "set temp \<subseteq> elems" and "i < length temp" and "settled i temp"
  shows "\<exists>temp' s'. sort_step cmp i (temp, s) = Some (temp', s') \<and> good s' \<and>
    mset temp' = mset temp \<and> settled (Suc i) temp'"
proof -
  obtain m s' where m: "sort_step cmp i (temp, s) = Some (exchange i m temp, s')" "good s'"
      "i \<le> m" "m < length temp" "\<And>k. i \<le> k \<Longrightarrow> k < length temp \<Longrightarrow> \<not> less (temp ! k) (temp ! m)"
    using sort_step_exchanges [OF assms(1-3)] by auto
  note ex = exchange_simps [OF assms(3) m(4)]
  have "settled (Suc i) (exchange i m temp)"
    unfolding settled_def ex(1)
  proof (intro allI impI)
    fix p q assume pq: "p < Suc i" "p < q" "q < length temp"
    show "\<not> less (exchange i m temp ! q) (exchange i m temp ! p)"
    proof (cases "p = i")
      case True
      then show ?thesis using pq m(3-5) by (simp add: ex(3) assms(3))
    next
      case False
      then have "p < i" using pq(1) by simp
      let ?k = "if q = i then m else if q = m then i else q"
      have "exchange i m temp ! p = temp ! p" "exchange i m temp ! q = temp ! ?k"
        using \<open>p < i\<close> m(3) assms(3) ex(3) [OF pq(3)] by (simp_all add: ex(3))
      moreover have "p < ?k" "?k < length temp" using pq \<open>p < i\<close> m(3,4) assms(3) by auto
      ultimately show ?thesis using assms(4) \<open>p < i\<close> unfolding settled_def by metis
    qed
  qed
  with m(1,2) ex(2) show ?thesis by blast
qed

lemma sort_rounds:
  assumes "good s" and "set temp \<subseteq> elems" and "n \<le> length temp"
  shows "\<exists>temp' s'. foldM (sort_step cmp) [0..<n] (temp, s) = Some (temp', s') \<and> good s' \<and>
    mset temp' = mset temp \<and> settled n temp'"
  using assms(3)
proof (induction n)
  case 0
  then show ?case using assms(1) by (auto simp: settled_def)
next
  case (Suc n)
  then obtain t1 s1 where t1: "foldM (sort_step cmp) [0..<n] (temp, s) = Some (t1, s1)" "good s1"
    "mset t1 = mset temp" "settled n t1" by auto
  have "set t1 \<subseteq> elems" "n < length t1"
    using t1(3) assms(2) Suc.prems by (metis set_mset_mset, metis Suc_le_lessD size_mset)
  from sort_round [OF t1(2) this t1(4)] t1 show ?case
    by (fastforce simp: foldM_append)
qed

text \<open>An element that none comes before keeps its place at the front.\<close>

lemma select_front:
  assumes "good s" and "set temp \<subseteq> elems" and "i < length temp" and "n \<le> length temp"
    and "\<forall>a \<in> elems. \<not> less a (temp ! i)" and "i < n"
  shows "\<exists>s'. foldM (select_step cmp temp) [Suc i..<n] (i, s) = Some (i, s') \<and> good s'"
  using assms(4,6)
proof (induction n)
  case (Suc n)
  show ?case
  proof (cases "i = n")
    case True
    with assms(1) show ?thesis by auto
  next
    case False
    then have "i < n" using Suc.prems by simp
    then obtain s1 where m: "foldM (select_step cmp temp) [Suc i..<n] (i, s) = Some (i, s1)" "good s1"
      using Suc.IH Suc.prems by auto
    have e: "temp ! n \<in> elems" "temp ! i \<in> elems"
      using assms(2,3) Suc.prems by (auto intro!: nth_mem)
    then obtain s2 where s2: "cmp (temp ! n) (temp ! i) s1 = Some (False, s2)" "good s2"
      using cmp [OF m(2)] assms(5) by metis
    have "[Suc i..<Suc n] = [Suc i..<n] @ [n]" using \<open>i < n\<close> by simp
    with m(1) s2 show ?thesis by (simp add: foldM_append select_step_app del: upt_Suc)
  qed
qed simp

lemma sort_rounds_front:
  assumes "good s" and "set temp \<subseteq> elems" and "n \<le> length temp"
    and "\<forall>a \<in> elems. \<not> less a (temp ! 0)"
  shows "\<exists>temp' s'. foldM (sort_step cmp) [0..<n] (temp, s) = Some (temp', s') \<and> good s' \<and>
    mset temp' = mset temp \<and> temp' ! 0 = temp ! 0"
  using assms(3)
proof (induction n)
  case (Suc n)
  show ?case
  proof (cases "n = 0")
    case True
    have "0 < length temp" using Suc.prems by linarith
    then obtain s' where "foldM (select_step cmp temp) [Suc 0..<length temp] (0, s) = Some (0, s')" "good s'"
      using select_front [OF assms(1,2) _ order_refl assms(4)] by blast
    with True show ?thesis by (simp add: sort_step_app)
  next
    case False
    obtain t1 s1 where t1: "foldM (sort_step cmp) [0..<n] (temp, s) = Some (t1, s1)" "good s1"
      "mset t1 = mset temp" "t1 ! 0 = temp ! 0" using Suc by auto
    have sub: "set t1 \<subseteq> elems" and n: "n < length t1"
      using t1(3) assms(2) Suc.prems by (metis set_mset_mset, metis Suc_le_lessD size_mset)
    obtain m s2 where m: "sort_step cmp n (t1, s1) = Some (exchange n m t1, s2)" "good s2"
      "n \<le> m" "m < length t1"
      using sort_step_exchanges [OF t1(2) sub n] by auto
    have "exchange n m t1 ! 0 = t1 ! 0"
      using exchange_simps(3) [OF n m(4), of 0] False m(3) n by fastforce
    moreover have "mset (exchange n m t1) = mset t1" by (rule exchange_simps(2) [OF n m(4)])
    ultimately show ?thesis using m t1 by (auto simp: foldM_append)
  qed
qed (use assms(1) in auto)

lemma sort_warps_front:
  assumes "good s" and "set (x # rest) \<subseteq> elems" and "\<forall>a \<in> elems. \<not> less a x"
  shows "\<exists>ws s'. sort_warps cmp (x # rest) s = Some (x # ws, s') \<and> length ws = length rest"
proof -
  obtain t s' where t: "foldM (sort_step cmp) [0..<length (x # rest) - 1] (x # rest, s) = Some (t, s')"
    "mset t = mset (x # rest)" "t ! 0 = x"
    using sort_rounds_front [OF assms(1,2), of "length (x # rest) - 1"] assms(3) by auto
  have "length t = Suc (length rest)" using t(2) by (metis size_mset length_Cons)
  then obtain ws where "t = x # ws" "length ws = length rest"
    using t(3) by (cases t) auto
  with t(1) show ?thesis by (simp add: sort_warps_def)
qed

text \<open>The sort ends, permutes, and puts no element before one that comes before it in the order.\<close>

lemma sort_warps_correct:
  assumes "good s" and "set temp \<subseteq> elems" and "temp \<noteq> []"
  shows "\<exists>temp' s'. sort_warps cmp temp s = Some (temp', s') \<and> good s' \<and> mset temp' = mset temp \<and>
    (\<forall>p q. p < q \<longrightarrow> q < length temp' \<longrightarrow> \<not> less (temp' ! q) (temp' ! p))"
proof -
  obtain temp' s' where t: "foldM (sort_step cmp) [0..<length temp - 1] (temp, s) = Some (temp', s')"
    "good s'" "mset temp' = mset temp" "settled (length temp - 1) temp'"
    using sort_rounds [OF assms(1,2), of "length temp - 1"] by auto
  have "length temp' = length temp" using t(3) by (metis size_mset)
  with t assms(3) show ?thesis by (auto simp: sort_warps_def settled_def)
qed

end

subsection \<open>The criticality order\<close>

text \<open>What the schedulers see of warp \<open>i\<close>, and when a core's tables fit together.\<close>

definition warp_blocked :: "sched_core \<Rightarrow> nat \<Rightarrow> bool" where
  "warp_blocked s i \<longleftrightarrow> (let w = sc_warps s ! i in
     m_done_exit w \<or> functional_done w \<or> i \<in> warp_at_barrier (sc_barriers s) \<or>
     (m_membar w \<and> reg_table (sc_scoreboard s) ! i \<noteq> {}) \<or> 0 < m_n_atomic w)"

definition warp_CPL :: "sched_core \<Rightarrow> nat \<Rightarrow> fp" where
  "warp_CPL s i = (if sc_oracle_cpl s then Fin (rnd 24 (of_int (tw_cpl_oracle (sc_warps s ! i))))
     else tw_cpl_actual (sc_warps s ! i))"

definition core_ok :: "sched_core \<Rightarrow> bool" where
  "core_ok s \<longleftrightarrow> length (sc_warps s) \<le> WARP_PER_CTA_MAX \<and>
     length (reg_table (sc_scoreboard s)) = length (sc_warps s) \<and>
     (\<forall>i < length (sc_warps s). \<not> functional_done (sc_warps s ! i) \<longrightarrow>
        unat (m_warp_id (sc_warps s ! i)) = i) \<and>
     (sc_oracle_cpl s \<longrightarrow> sc_with_oracle_cpl s)"

definition crit_less :: "sched_core \<Rightarrow> nat \<Rightarrow> nat \<Rightarrow> bool" where
  "crit_less s a b \<longleftrightarrow> \<not> warp_blocked s a \<and> (warp_blocked s b \<or>
     (if fp_eq (warp_CPL s a) (warp_CPL s b)
      then m_dynamic_warp_id (sc_warps s ! a) < m_dynamic_warp_id (sc_warps s ! b)
      else fp_less (warp_CPL s b) (warp_CPL s a)))"

text \<open>Two states of a core that the schedulers cannot tell apart.\<close>

definition same_view :: "sched_core \<Rightarrow> sched_core \<Rightarrow> bool" where
  "same_view s t \<longleftrightarrow> length (sc_warps t) = length (sc_warps s) \<and>
     (\<forall>i < length (sc_warps s). warp_blocked t i = warp_blocked s i \<and> warp_CPL t i = warp_CPL s i \<and>
        m_dynamic_warp_id (sc_warps t ! i) = m_dynamic_warp_id (sc_warps s ! i))"

lemma same_view_refl [simp]: "same_view s s"
  by (simp add: same_view_def)

lemma same_view_trans: "same_view s t \<Longrightarrow> same_view t u \<Longrightarrow> same_view s u"
  by (simp add: same_view_def)

lemma core_stopped_view:
  assumes ok: "core_ok s" and i: "i < length (sc_warps s)"
  shows "\<exists>t. core_stopped i s = Some (warp_blocked s i, t) \<and> core_ok t \<and> same_view s t"
proof -
  let ?w = "sc_warps s ! i"
  consider "m_done_exit ?w \<or> functional_done ?w" | "\<not> m_done_exit ?w" "\<not> functional_done ?w" by blast
  then show ?thesis
  proof cases
    case 1
    with ok i show ?thesis
      by (intro exI [of _ s]) (auto simp: core_stopped_def core_waiting_def warp_blocked_def)
  next
    case 2
    then have id: "unat (m_warp_id ?w) = i" and lt: "i < WARP_PER_CTA_MAX"
      and r: "i < length (reg_table (sc_scoreboard s))"
      using ok i by (auto simp: core_ok_def)
    let ?at = "i \<in> warp_at_barrier (sc_barriers s)"
    let ?pend = "\<not> ?at \<and> m_membar ?w \<and> reg_table (sc_scoreboard s) ! i \<noteq> {}"
    let ?w' = "if \<not> ?at \<and> m_membar ?w \<and> reg_table (sc_scoreboard s) ! i = {} then ?w\<lparr>m_membar := False\<rparr> else ?w"
    let ?t = "s\<lparr>sc_warps := (sc_warps s)[i := ?w']\<rparr>"
    have "core_stopped i s = Some (warp_blocked s i, ?t)"
      using 2 id lt r i
      by (auto simp: core_stopped_def core_waiting_def warp_blocked_def warp_waiting_at_barrier_def
          pendingWrites_def warp_waiting_def warp_waiting_at_mem_barrier_def Let_def)
    moreover have "core_ok ?t"
      using ok i by (auto simp: core_ok_def nth_list_update functional_done_def)
    moreover have "same_view s ?t"
      using i by (auto simp: same_view_def warp_blocked_def warp_CPL_def nth_list_update
          functional_done_def Let_def)
    ultimately show ?thesis by blast
  qed
qed

lemma core_CPL_view: "core_ok s \<Longrightarrow> i < length (sc_warps s) \<Longrightarrow> core_CPL i s = Some (warp_CPL s i)"
  by (auto simp: core_CPL_def warp_CPL_def tw_get_CPL_def core_ok_def)

lemma same_view_crit:
  assumes "same_view s t" and "a < length (sc_warps s)" and "b < length (sc_warps s)"
  shows "crit_less t a b = crit_less s a b"
  using assms by (simp add: crit_less_def same_view_def)

lemma criticality_cmp:
  assumes ok: "core_ok s" and a: "a < length (sc_warps s)" and b: "b < length (sc_warps s)"
  shows "\<exists>t. sort_warps_by_criticality a b s = Some (crit_less s a b, t) \<and> core_ok t \<and> same_view s t"
proof -
  obtain s1 where s1: "core_stopped a s = Some (warp_blocked s a, s1)" "core_ok s1" "same_view s s1"
    using core_stopped_view [OF ok a] by blast
  show ?thesis
  proof (cases "warp_blocked s a")
    case True
    with s1 show ?thesis by (auto simp: sort_warps_by_criticality_def crit_less_def)
  next
    case False
    have len: "length (sc_warps s1) = length (sc_warps s)" using s1(3) by (simp add: same_view_def)
    obtain s2 where s2: "core_stopped b s1 = Some (warp_blocked s1 b, s2)" "core_ok s2" "same_view s1 s2"
      using core_stopped_view [OF s1(2)] b len by metis
    have v: "same_view s s2" by (rule same_view_trans [OF s1(3) s2(3)])
    then have len2: "length (sc_warps s2) = length (sc_warps s)" by (simp add: same_view_def)
    have bb: "warp_blocked s1 b = warp_blocked s b" using s1(3) b by (simp add: same_view_def)
    from a b len2 have "core_CPL a s2 = Some (warp_CPL s a)" "core_CPL b s2 = Some (warp_CPL s b)"
      using core_CPL_view [OF s2(2)] v by (simp_all add: same_view_def)
    moreover have "m_dynamic_warp_id (sc_warps s2 ! a) = m_dynamic_warp_id (sc_warps s ! a)"
      "m_dynamic_warp_id (sc_warps s2 ! b) = m_dynamic_warp_id (sc_warps s ! b)"
      using v a b by (simp_all add: same_view_def)
    ultimately have "sort_warps_by_criticality a b s = Some (crit_less s a b, s2)"
      using False s1(1) s2(1) bb a b len2
      by (auto simp: sort_warps_by_criticality_def crit_less_def)
    with s2(2) v show ?thesis by blast
  qed
qed

lemma crit_less_irrefl: "\<not> crit_less s a a"
  by (simp add: crit_less_def)

lemma crit_less_trans:
  assumes "crit_less s a b" and "crit_less s b c"
  shows "crit_less s a c"
proof (cases "warp_blocked s c")
  case False
  let ?a = "warp_CPL s a" and ?b = "warp_CPL s b" and ?c = "warp_CPL s c"
  have a: "\<not> warp_blocked s a" and b: "\<not> warp_blocked s b"
    using assms by (auto simp: crit_less_def)
  consider "fp_eq ?a ?b" "fp_eq ?b ?c" | "fp_eq ?a ?b" "fp_less ?c ?b" "\<not> fp_eq ?b ?c"
    | "fp_less ?b ?a" "fp_eq ?b ?c" "\<not> fp_eq ?a ?b" | "fp_less ?b ?a" "fp_less ?c ?b"
    using assms a b False by (auto simp: crit_less_def split: if_splits)
  then show ?thesis
  proof cases
    case 4
    then have "fp_less ?c ?a" by (rule fp_less_trans [rotated])
    then have "\<not> fp_eq ?a ?c" by (auto dest: fp_eqD)
    with \<open>fp_less ?c ?a\<close> a show ?thesis by (simp add: crit_less_def)
  qed (use assms a b False in \<open>auto simp: crit_less_def dest: fp_eqD split: if_splits\<close>)
qed (use assms in \<open>auto simp: crit_less_def\<close>)

text \<open>The sort sees a fixed order although it clears memory-barrier flags as it compares.\<close>

interpretation crit: probing_order sort_warps_by_criticality "crit_less s0"
  "\<lambda>s. core_ok s \<and> same_view s0 s" "{..<length (sc_warps s0)}" for s0
proof (unfold_locales, goal_cases)
  case (1 s a b)
  then have len: "length (sc_warps s) = length (sc_warps s0)" by (simp add: same_view_def)
  with 1 obtain t where "sort_warps_by_criticality a b s = Some (crit_less s a b, t)" "core_ok t" "same_view s t"
    using criticality_cmp [of s a b] by auto
  with 1 show ?case using same_view_crit [of s0 s a b] same_view_trans [of s0 s t] by auto
qed (use crit_less_irrefl crit_less_trans in blast)+

subsection \<open>What the schedulers promise\<close>

text \<open>The laws of a warp order: the supervised warps, each as often as before, by priority.\<close>

definition in_priority :: "(nat \<Rightarrow> nat \<Rightarrow> bool) \<Rightarrow> nat list \<Rightarrow> bool" where
  "in_priority before ws \<longleftrightarrow> (\<forall>p q. p < q \<longrightarrow> q < length ws \<longrightarrow> \<not> before (ws ! q) (ws ! p))"

lemma caws_sorted:
  assumes "core_ok s" and "supervised \<noteq> []" and "set supervised \<subseteq> {..<length (sc_warps s)}"
  shows "\<exists>ws t. sort_warps sort_warps_by_criticality supervised s = Some (ws, t) \<and> core_ok t \<and>
    same_view s t \<and> mset ws = mset supervised \<and> in_priority (crit_less s) ws"
  using crit.sort_warps_correct [of s s supervised] assms by (auto simp: in_priority_def)

text \<open>
  Property C8: CAWS orders by criticality. The order it produces is a permutation of the supervised
  warps in which no warp stands before one it should follow: warps that can issue come before those
  that are done or wait, the more critical before the less critical, and of equally critical ones
  the older. It never aborts, and asking the warps changes nothing the schedulers can see.
\<close>

theorem caws_orders_by_criticality:
  assumes "core_ok s" and "supervised \<noteq> []" and "set supervised \<subseteq> {..<length (sc_warps s)}"
  shows "\<exists>ws t. caws_order_warps supervised s = Some (ws, t) \<and> mset ws = mset supervised \<and>
    same_view s t \<and>
    (\<forall>p q. p < q \<longrightarrow> q < length ws \<longrightarrow> \<not> warp_blocked s (ws ! q) \<longrightarrow>
       \<not> warp_blocked s (ws ! p) \<and> \<not> fp_less (warp_CPL s (ws ! p)) (warp_CPL s (ws ! q)) \<and>
       (fp_eq (warp_CPL s (ws ! p)) (warp_CPL s (ws ! q)) \<longrightarrow>
          m_dynamic_warp_id (sc_warps s ! (ws ! p)) \<le> m_dynamic_warp_id (sc_warps s ! (ws ! q))))"
proof -
  obtain ws t where t: "sort_warps sort_warps_by_criticality supervised s = Some (ws, t)"
    "same_view s t" "mset ws = mset supervised" "in_priority (crit_less s) ws"
    using caws_sorted [OF assms] by blast
  have "length ws = length supervised" using t(3) by (metis size_mset)
  then have run: "caws_order_warps supervised s = Some (ws, t)"
    using t(1) assms(2) by (simp add: caws_order_warps_def caws_order_by_priority_def)
  have "\<not> warp_blocked s (ws ! p) \<and> \<not> fp_less (warp_CPL s (ws ! p)) (warp_CPL s (ws ! q)) \<and>
       (fp_eq (warp_CPL s (ws ! p)) (warp_CPL s (ws ! q)) \<longrightarrow>
          m_dynamic_warp_id (sc_warps s ! (ws ! p)) \<le> m_dynamic_warp_id (sc_warps s ! (ws ! q)))"
    if "p < q" "q < length ws" "\<not> warp_blocked s (ws ! q)" for p q
  proof -
    have n: "\<not> crit_less s (ws ! q) (ws ! p)" using t(4) that by (simp add: in_priority_def)
    then have b: "\<not> warp_blocked s (ws ! p)" using that(3) by (auto simp: crit_less_def)
    show ?thesis
    proof (cases "fp_eq (warp_CPL s (ws ! q)) (warp_CPL s (ws ! p))")
      case True
      with n b that(3) have "\<not> m_dynamic_warp_id (sc_warps s ! (ws ! q)) < m_dynamic_warp_id (sc_warps s ! (ws ! p))"
        by (simp add: crit_less_def)
      with True b show ?thesis by (auto dest: fp_eqD)
    next
      case False
      with n b that(3) show ?thesis by (auto simp: crit_less_def fp_eq_sym)
    qed
  qed
  with run t(2,3) show ?thesis by blast
qed

text \<open>
  Property C30: GCAWS is CAWS with the last issued warp moved to the front. Every supervised warp
  appears in its order, the greedy one exactly once and first.
\<close>

theorem gcaws_is_greedy_caws:
  assumes "core_ok s" and "set supervised \<subseteq> {..<length (sc_warps s)}" and "k < length supervised"
  shows "\<exists>ws t. caws_order_warps supervised s = Some (ws, t) \<and>
    gcaws_order_warps supervised (Some k) s = Some (supervised ! k # filter (\<lambda>w. w \<noteq> supervised ! k) ws, t) \<and>
    gcaws_order_warps supervised None s = caws_order_warps supervised s \<and>
    set (supervised ! k # filter (\<lambda>w. w \<noteq> supervised ! k) ws) = set supervised"
proof -
  have ne: "supervised \<noteq> []" using assms(3) by auto
  obtain ws t where t: "sort_warps sort_warps_by_criticality supervised s = Some (ws, t)"
    "mset ws = mset supervised"
    using caws_sorted [OF assms(1) ne assms(2)] by blast
  have "length ws = length supervised" "set ws = set supervised"
    using t(2) by (metis size_mset, metis set_mset_mset)
  then have "caws_order_warps supervised s = Some (ws, t)"
    "gcaws_order_warps supervised (Some k) s = Some (supervised ! k # filter (\<lambda>w. w \<noteq> supervised ! k) ws, t)"
    "gcaws_order_warps supervised None s = caws_order_warps supervised s"
    using t(1) ne assms(3)
    by (simp_all add: caws_order_warps_def caws_order_by_priority_def gcaws_order_warps_def
        gcaws_order_by_priority_def nth_opt_def)
  moreover have "set (supervised ! k # filter (\<lambda>w. w \<noteq> supervised ! k) ws) = set supervised"
    using \<open>set ws = set supervised\<close> nth_mem [OF assms(3)] by force
  ultimately show ?thesis by (intro exI conjI)
qed

text \<open>
  A criticality that is not a number defeats the order. With the average CPI switched
  on, a warp that has completed no instruction and whose count is zero has the counter
  \<open>inf * 0 = NaN\<close>; standing first among the supervised warps it keeps the highest priority, whatever
  the criticality of the others.
\<close>

theorem nan_criticality_keeps_front:
  assumes "core_ok s" and "set (i # rest) \<subseteq> {..<length (sc_warps s)}" and "\<not> sc_oracle_cpl s"
    and "\<not> warp_blocked s i" and "tw_num_completed_inst w = 0" and "tw_nInst w = 0"
    and "cycle \<noteq> tw_warp_entered_cycle w" and "sc_warps s ! i = tw_cpl_calculate True False cycle w"
  shows "\<exists>ws t. caws_order_warps (i # rest) s = Some (i # ws, t)"
proof -
  have "fp_quotient 53 (unat (cycle - tw_warp_entered_cycle w)) 0 = Inf True"
    using assms(7) by (simp add: fp_quotient_def unat_eq_0)
  then have nan: "warp_CPL s i = NaN"
    using assms(3,5,6,8) by (simp add: warp_CPL_def tw_cpl_calculate_def rnd_def Let_def)
  have "\<not> crit_less s a i" for a
    using nan assms(4) by (cases "warp_CPL s a") (simp_all add: crit_less_def)
  then obtain ws t where "sort_warps sort_warps_by_criticality (i # rest) s = Some (i # ws, t)"
    "length ws = length rest"
    using crit.sort_warps_front [of s s i rest] assms(1,2) by auto
  then show ?thesis by (auto simp: caws_order_warps_def caws_order_by_priority_def)
qed

subsection \<open>Round robin is a rotation\<close>

lemma lrr_loop_eq:
  assumes "it \<le> length xs" and "n \<le> length xs"
  shows "lrr_loop xs it n = take n (drop it xs @ take it xs)"
  using assms
proof (induction xs it n rule: lrr_loop.induct)
  case (2 input it n)
  show ?case
  proof (cases "it = length input")
    case True
    then have ne: "0 < length input" using 2 by auto
    then have "lrr_loop input 1 n = take n (drop 1 input @ take 1 input)" using 2 True by simp
    also have "\<dots> = take n (drop 1 input)" using 2(3) by simp
    finally show ?thesis using True ne by (cases input) simp_all
  next
    case False
    then have it: "it < length input" using 2 by simp
    then have "lrr_loop input (it + 1) n = take n (drop (it + 1) input @ take (it + 1) input)"
      using 2 False by simp
    moreover have "drop it input = input ! it # drop (Suc it) input" by (rule Cons_nth_drop_Suc [OF it, symmetric])
    moreover have "take n (drop (Suc it) input @ take (Suc it) input) = take n (drop (Suc it) input @ take it input)"
      using 2(3) it by simp
    ultimately show ?thesis using False by (simp add: Let_def)
  qed
qed simp

text \<open>
  Loose round robin is fair. The order starts with the warp after the one that issued
  last and goes once around: it is the supervised list rotated, so every warp appears exactly once
  and the last issued one comes last.
\<close>

theorem lrr_is_rotation:
  assumes "k < length supervised"
  shows "lrr_order_warps supervised (Some k) = Some (rotate (k + 1) supervised) \<and>
    lrr_order_warps supervised None = Some supervised \<and>
    last (rotate (k + 1) supervised) = supervised ! k"
proof -
  have "rotate (k + 1) supervised = drop (k + 1) supervised @ take (k + 1) supervised"
  proof (cases "k + 1 = length supervised")
    case True
    then show ?thesis by (metis append_Nil drop_all order_refl rotate_length01 rotate_id take_all append.right_neutral mod_self)
  next
    case False
    then show ?thesis using assms by (simp add: rotate_drop_take del: rotate_Suc)
  qed
  moreover have "last (drop (k + 1) supervised @ take (k + 1) supervised) = supervised ! k"
    using assms by (simp add: last_append take_Suc_conv_app_nth)
  ultimately show ?thesis
    using assms by (simp add: lrr_order_warps_def order_lrr_def lrr_loop_eq del: rotate_Suc)
qed

theorem lrr_is_rotation_witness: "lrr_order_warps [4, 7, 9] (Some 1) = Some [9, 4, 7]"
  using lrr_is_rotation [of 1 "[4, 7, 9]"] by simp

subsection \<open>Greedy then oldest\<close>

definition older :: "sched_core \<Rightarrow> nat \<Rightarrow> nat \<Rightarrow> bool" where
  "older s a b \<longleftrightarrow> \<not> warp_blocked s a \<and> (warp_blocked s b \<or>
     m_dynamic_warp_id (sc_warps s ! a) < m_dynamic_warp_id (sc_warps s ! b))"

lemma older_irrefl: "\<not> older s a a"
  by (simp add: older_def)

lemma older_trans: "older s a b \<Longrightarrow> older s b c \<Longrightarrow> older s a c"
  by (auto simp: older_def)

lemma same_view_older:
  assumes "same_view s t" and "a < length (sc_warps s)" and "b < length (sc_warps s)"
  shows "older t a b = older s a b"
  using assms by (simp add: older_def same_view_def)

lemma oldest_cmp:
  assumes ok: "core_ok s" and a: "a < length (sc_warps s)" and b: "b < length (sc_warps s)"
  shows "\<exists>t. sort_warps_by_oldest_dynamic_id a b s = Some (older s a b, t) \<and> core_ok t \<and> same_view s t"
proof -
  obtain s1 where s1: "core_stopped a s = Some (warp_blocked s a, s1)" "core_ok s1" "same_view s s1"
    using core_stopped_view [OF ok a] by blast
  show ?thesis
  proof (cases "warp_blocked s a")
    case True
    with s1 show ?thesis by (auto simp: sort_warps_by_oldest_dynamic_id_def older_def)
  next
    case False
    have len: "length (sc_warps s1) = length (sc_warps s)" using s1(3) by (simp add: same_view_def)
    obtain s2 where s2: "core_stopped b s1 = Some (warp_blocked s1 b, s2)" "core_ok s2" "same_view s1 s2"
      using core_stopped_view [OF s1(2)] b len by metis
    have v: "same_view s s2" by (rule same_view_trans [OF s1(3) s2(3)])
    have "sort_warps_by_oldest_dynamic_id a b s = Some (older s a b, s2)"
      using False s1 s2 v a b by (auto simp: sort_warps_by_oldest_dynamic_id_def older_def same_view_def)
    with s2(2) v show ?thesis by blast
  qed
qed

text \<open>The same selection sort, run with the age comparison, is one admissible \<open>std::sort\<close>.\<close>

interpretation age: probing_order sort_warps_by_oldest_dynamic_id "older s0"
  "\<lambda>s. core_ok s \<and> same_view s0 s" "{..<length (sc_warps s0)}" for s0
proof (unfold_locales, goal_cases)
  case (1 s a b)
  then have len: "length (sc_warps s) = length (sc_warps s0)" by (simp add: same_view_def)
  with 1 obtain t where "sort_warps_by_oldest_dynamic_id a b s = Some (older s a b, t)" "core_ok t" "same_view s t"
    using oldest_cmp [of s a b] by auto
  with 1 show ?case using same_view_older [of s0 s a b] same_view_trans [of s0 s t] by auto
qed (use older_irrefl older_trans in blast)+

text \<open>
  What the C++ standard promises of \<open>std::sort\<close> with a strict weak order: a permutation in which no
  element follows one it comes before; the comparisons it makes leave the state as the comparison
  function leaves it.
\<close>

definition std_sort_ok :: "(nat list \<Rightarrow> sched_core \<Rightarrow> (nat list \<times> sched_core) option) \<Rightarrow> bool" where
  "std_sort_ok std_sort \<longleftrightarrow> (\<forall>ws s. core_ok s \<longrightarrow> set ws \<subseteq> {..<length (sc_warps s)} \<longrightarrow>
     (\<exists>vs t. std_sort ws s = Some (vs, t) \<and> mset vs = mset ws \<and> in_priority (older s) vs \<and>
        core_ok t \<and> same_view s t))"

text \<open>
  Greedy-then-oldest with a limit. With the limit \<open>n\<close>, the order has the last issued
  warp first and after it the oldest warps that can issue, by age. It has \<open>n\<close> warps if the greedy
  warp is among the \<open>n\<close> oldest, and otherwise one more than the limit the warp-limiting scheduler
  was configured with; without a limit it has every supervised warp once.
\<close>

theorem warp_limit_can_be_exceeded:
  assumes "std_sort_ok std_sort" and "core_ok s" and "set supervised \<subseteq> {..<length (sc_warps s)}"
    and "distinct supervised" and "k < length supervised" and "n \<le> length supervised"
  shows "\<exists>vs t. swl_order_warps std_sort n supervised (Some k) s
      = Some (supervised ! k # filter (\<lambda>w. w \<noteq> supervised ! k) (take n vs), t) \<and>
    mset vs = mset supervised \<and> in_priority (older s) vs \<and>
    length (supervised ! k # filter (\<lambda>w. w \<noteq> supervised ! k) (take n vs)) =
      (if supervised ! k \<in> set (take n vs) then n else n + 1) \<and>
    (n = length supervised \<longrightarrow> gto_order_warps std_sort supervised (Some k) s =
       swl_order_warps std_sort n supervised (Some k) s)"
proof -
  obtain vs t where v: "std_sort supervised s = Some (vs, t)" "mset vs = mset supervised"
    "in_priority (older s) vs"
    using assms(1-3) unfolding std_sort_ok_def by blast
  have d: "distinct vs" using v(2) assms(4) by (metis mset_eq_imp_distinct_iff)
  have len: "length vs = length supervised" using v(2) by (metis size_mset)
  have run: "swl_order_warps std_sort n supervised (Some k) s
      = Some (supervised ! k # filter (\<lambda>w. w \<noteq> supervised ! k) (take n vs), t)"
    using v(1) assms(5,6) by (simp add: swl_order_warps_def order_greedy_then_priority_def min_absorb1)
  let ?g = "supervised ! k"
  have "length (?g # filter (\<lambda>w. w \<noteq> ?g) (take n vs)) = (if ?g \<in> set (take n vs) then n else n + 1)"
  proof (cases "?g \<in> set (take n vs)")
    case True
    have "filter (\<lambda>w. w \<noteq> ?g) (take n vs) = remove1 ?g (take n vs)"
      using d by (simp add: distinct_remove1_removeAll removeAll_filter_not_eq neq_commute)
    with True assms(6) len show ?thesis
      by (simp add: length_remove1) (metis Suc_pred length_pos_if_in_set length_take min.absorb2)
  next
    case False
    then have "filter (\<lambda>w. w \<noteq> ?g) (take n vs) = take n vs" by (auto simp: filter_id_conv)
    with False assms(6) len show ?thesis by simp
  qed
  moreover have "n = length supervised \<longrightarrow> gto_order_warps std_sort supervised (Some k) s =
       swl_order_warps std_sort n supervised (Some k) s"
    by (simp add: gto_order_warps_def swl_order_warps_def)
  ultimately show ?thesis using run v(2,3) by (intro exI conjI)
qed

definition selection_std_sort :: "nat list \<Rightarrow> sched_core \<Rightarrow> (nat list \<times> sched_core) option" where
  "selection_std_sort ws s =
     (if ws = [] then Some ([], s) else sort_warps sort_warps_by_oldest_dynamic_id ws s)"

lemma selection_std_sort_ok: "std_sort_ok selection_std_sort"
  unfolding std_sort_ok_def
proof (intro allI impI)
  fix ws s assume "core_ok s" "set ws \<subseteq> {..<length (sc_warps s)}"
  then show "\<exists>vs t. selection_std_sort ws s = Some (vs, t) \<and> mset vs = mset ws \<and> in_priority (older s) vs \<and>
      core_ok t \<and> same_view s t"
    using age.sort_warps_correct [of s s ws]
    by (cases "ws = []") (auto simp: selection_std_sort_def in_priority_def)
qed

subsection \<open>Two levels\<close>

definition operands_ok :: "sched_core \<Rightarrow> bool" where
  "operands_ok s \<longleftrightarrow> length (longopregs (sc_scoreboard s)) = length (sc_warps s) \<and>
     (\<forall>i < length (sc_warps s). \<forall>inst. ibuffer_next_inst (sc_warps s ! i) = Some inst \<longrightarrow>
        unat (m_warp_id (sc_warps s ! i)) = i \<and> 4 \<le> length (i_in inst))"

lemma waits_for_long_op_total:
  assumes "operands_ok s" and "i < length (sc_warps s)"
  shows "\<exists>b. waits_for_long_op i s = Some b"
proof (cases "ibuffer_next_inst (sc_warps s ! i)")
  case None
  with assms show ?thesis by (auto simp: waits_for_long_op_def)
next
  case (Some inst)
  then have id: "unat (m_warp_id (sc_warps s ! i)) = i" and len: "4 \<le> length (i_in inst)"
    and l: "i < length (longopregs (sc_scoreboard s))"
    using assms by (auto simp: operands_ok_def)
  let ?f = "\<lambda>k waiting. do {
            r \<leftarrow> nth_opt (i_in inst) k;
            (if 0 < r then do {
               long \<leftarrow> islongop (sc_scoreboard s) (unat (m_warp_id (sc_warps s ! i))) r;
               Some (waiting \<or> long)
             } else Some waiting)
          }"
  have "\<exists>b. foldM ?f [0..<4] False = Some b \<and> True"
    by (rule foldM_total) (use len l id in \<open>auto simp: islongop_def\<close>)
  then show ?thesis using Some assms(2) by (simp add: waits_for_long_op_def)
qed

lemma core_waiting_view:
  assumes ok: "core_ok s" and op: "operands_ok s" and i: "i < length (sc_warps s)"
  shows "\<exists>b t. core_waiting i s = Some (b, t) \<and> core_ok t \<and> operands_ok t \<and>
    length (sc_warps t) = length (sc_warps s)"
proof (cases "functional_done (sc_warps s ! i)")
  case True
  with assms show ?thesis by (auto simp: core_waiting_def)
next
  case False
  let ?w = "sc_warps s ! i"
  have id: "unat (m_warp_id ?w) = i" and lt: "i < WARP_PER_CTA_MAX"
    and r: "i < length (reg_table (sc_scoreboard s))"
    using ok i False by (auto simp: core_ok_def)
  let ?at = "i \<in> warp_at_barrier (sc_barriers s)"
  define w' where "w' = (if \<not> ?at \<and> m_membar ?w \<and> reg_table (sc_scoreboard s) ! i = {}
    then ?w\<lparr>m_membar := False\<rparr> else ?w)"
  let ?b = "?at \<or> (m_membar ?w \<and> reg_table (sc_scoreboard s) ! i \<noteq> {}) \<or> 0 < m_n_atomic ?w"
  have w: "core_waiting i s = Some (?b, s\<lparr>sc_warps := (sc_warps s)[i := w']\<rparr>)"
      "w' = ?w \<or> w' = ?w\<lparr>m_membar := False\<rparr>"
    using False id lt r i
    by (auto simp: w'_def core_waiting_def warp_waiting_at_barrier_def pendingWrites_def warp_waiting_def
        warp_waiting_at_mem_barrier_def Let_def)
  let ?t = "s\<lparr>sc_warps := (sc_warps s)[i := w']\<rparr>"
  have "core_ok ?t"
    using ok i w(2) by (auto simp: core_ok_def nth_list_update functional_done_def)
  moreover have "operands_ok ?t"
    using op i w(2) by (auto simp: operands_ok_def nth_list_update ibuffer_next_inst_def)
  ultimately show ?thesis using w(1) by auto
qed

lemma demote_total:
  assumes "core_ok s" and "operands_ok s" and "set is \<subseteq> {..<length (sc_warps s)}"
  shows "\<exists>active demoted t. demote_waiting is s = Some (active, demoted, t) \<and>
    mset (active @ demoted) = mset is"
  using assms
proof (induction "is" arbitrary: s)
  case (Cons i "is")
  obtain b t where t: "core_waiting i s = Some (b, t)" "core_ok t" "operands_ok t"
    "length (sc_warps t) = length (sc_warps s)"
    using core_waiting_view [of s i] Cons.prems by auto
  obtain long where l: "waits_for_long_op i t = Some long"
    using waits_for_long_op_total [OF t(3), of i] Cons.prems(3) t(4) by auto
  obtain active demoted u where u: "demote_waiting is t = Some (active, demoted, u)"
    "mset (active @ demoted) = mset is"
    using Cons.IH [OF t(2,3)] Cons.prems(3) t(4) by auto
  from t(1) l u show ?case by auto
qed simp

lemma promote_eq:
  "promote n active pool = (if n \<le> length pool then Some (active @ take n pool, drop n pool, n) else None)"
  by (induction n active pool rule: promote.induct) auto

text \<open>
  The two-level scheduler neither loses nor invents warps. With a full active pool,
  re-ordering demotes some warps to the back of the pending pool and promotes as many from its
  front: it never aborts, the active pool stays full, and both pools together hold the same warps.
  With fewer warps than the active pool has room for, it reads the front of an empty pending queue.
\<close>

theorem two_level_conserves_warps:
  assumes "core_ok s" and "operands_ok s" and "set active \<subseteq> {..<length (sc_warps s)}"
  shows "(length active = max_active \<longrightarrow>
      (\<exists>active' pool' t. two_level_order_warps max_active active pool s = Some (active', pool', t) \<and>
        length active' = max_active \<and> mset (active' @ pool') = mset (active @ pool))) \<and>
    (length (active @ pool) < max_active \<longrightarrow> two_level_order_warps max_active active pool s = None)"
proof -
  obtain kept demoted t where d: "demote_waiting active s = Some (kept, demoted, t)"
    "mset (kept @ demoted) = mset active"
    using demote_total [OF assms] by blast
  have len: "length kept + length demoted = length active"
    using d(2) by (metis length_append size_mset)
  have "\<exists>active' pool' t. two_level_order_warps max_active active pool s = Some (active', pool', t) \<and>
        length active' = max_active \<and> mset (active' @ pool') = mset (active @ pool)"
    if "length active = max_active"
  proof -
    let ?n = "length demoted"
    have n: "max_active - length kept = ?n" using that len by simp
    define front where "front = take ?n (pool @ demoted)"
    define rear where "rear = drop ?n (pool @ demoted)"
    have "promote ?n kept (pool @ demoted) = Some (kept @ front, rear, ?n)"
      by (simp add: promote_eq front_def rear_def)
    then have "two_level_order_warps max_active active pool s = Some (kept @ front, rear, t)"
      using d(1) by (simp add: two_level_order_warps_def n)
    moreover have "front @ rear = pool @ demoted" by (simp only: front_def rear_def append_take_drop_id)
    then have "mset ((kept @ front) @ rear) = mset (active @ pool)" using d(2) by (simp add: ac_simps)
    moreover have "length (kept @ front) = max_active" using that len by (simp add: front_def)
    ultimately show ?thesis by (intro exI conjI)
  qed
  moreover have "two_level_order_warps max_active active pool s = None"
    if "length (active @ pool) < max_active"
    using that d(1) len by (auto simp: two_level_order_warps_def promote_eq)
  ultimately show ?thesis by blast
qed

subsection \<open>A core of three warps\<close>

definition live_warp :: "nat \<Rightarrow> u32 \<Rightarrow> fp \<Rightarrow> shd_warp" where
  "live_warp i dyn cpl = blank_warp\<lparr>m_warp_id := of_nat i, m_warp_size := 32,
     m_active_threads := {0..<32}, m_done_exit := False, m_dynamic_warp_id := dyn,
     m_ibuffer := [(None, False), (None, False)], tw_cpl_actual := cpl\<rparr>"

definition sample_core :: "shd_warp list \<Rightarrow> sched_core" where
  "sample_core ws = \<lparr>sc_warps = ws, sc_scoreboard = scoreboard_new (length ws),
     sc_barriers = three_warps, sc_oracle_cpl = False, sc_with_oracle_cpl = False\<rparr>"

definition core3 :: "fp \<Rightarrow> fp \<Rightarrow> fp \<Rightarrow> sched_core" where
  "core3 a b c = sample_core [live_warp 0 5 a, live_warp 1 6 b, live_warp 2 7 c]"

lemma less_three: "i < Suc (Suc (Suc 0)) \<longleftrightarrow> i = 0 \<or> i = 1 \<or> i = 2"
  by auto

lemma core3_simps [simp]:
  "length (sc_warps (core3 a b c)) = 3" "sc_oracle_cpl (core3 a b c) = False"
  "core_ok (core3 a b c)" "operands_ok (core3 a b c)"
  by (auto simp: core3_def sample_core_def core_ok_def operands_ok_def less_three live_warp_def
      functional_done_def scoreboard_new_def WARP_PER_CTA_MAX_def ibuffer_next_inst_def blank_warp_def)

lemma core3_ready: "i < 3 \<Longrightarrow> \<not> warp_blocked (core3 a b c) i"
  by (auto simp: core3_def sample_core_def numeral_3_eq_3 less_three live_warp_def warp_blocked_def
      functional_done_def three_warps_def blank_warp_def Let_def)

theorem caws_orders_by_criticality_witness:
  "\<exists>ws t. caws_order_warps [0, 1, 2] (core3 (Fin 3) (Fin 9) (Fin 5)) = Some (ws, t) \<and>
     mset ws = mset [0, 1, 2]"
  using caws_orders_by_criticality [of "core3 (Fin 3) (Fin 9) (Fin 5)" "[0, 1, 2]"]
  by fastforce

theorem gcaws_is_greedy_caws_witness:
  "\<exists>ws t. gcaws_order_warps [0, 1, 2] (Some 2) (core3 (Fin 3) (Fin 9) (Fin 5)) = Some (2 # ws, t)"
  using gcaws_is_greedy_caws [of "core3 (Fin 3) (Fin 9) (Fin 5)" "[0, 1, 2]" 2] by auto

theorem nan_criticality_keeps_front_witness:
  "\<exists>ws t. caws_order_warps [0, 1, 2] (core3 (tw_cpl_actual (tw_cpl_calculate True False 9 blank_warp))
     (Fin 9) (Fin 5)) = Some (0 # ws, t)"
proof -
  let ?c = "tw_cpl_actual (tw_cpl_calculate True False 9 blank_warp)"
  let ?w = "live_warp 0 5 (Fin 0)"
  have w: "sc_warps (core3 ?c (Fin 9) (Fin 5)) ! 0 = tw_cpl_calculate True False 9 ?w"
    by (simp add: core3_def sample_core_def live_warp_def tw_cpl_calculate_def blank_warp_def Let_def)
  show ?thesis
    by (rule nan_criticality_keeps_front [OF _ _ _ _ _ _ _ w])
      (simp_all add: core3_ready, simp_all add: live_warp_def blank_warp_def)
qed

theorem warp_limit_can_be_exceeded_witness:
  "\<exists>vs t. swl_order_warps selection_std_sort 1 [0, 1, 2] (Some 2) (core3 (Fin 3) (Fin 9) (Fin 5))
     = Some (vs, t) \<and> length vs \<in> {1, 2}"
  using warp_limit_can_be_exceeded [OF selection_std_sort_ok, of "core3 (Fin 3) (Fin 9) (Fin 5)" "[0, 1, 2]" 2 1]
  by (force split: if_splits)

theorem two_level_conserves_warps_witness:
  "(\<exists>a p t. two_level_order_warps 2 [0, 1] [2] (core3 (Fin 3) (Fin 9) (Fin 5)) = Some (a, p, t) \<and> length a = 2) \<and>
   two_level_order_warps 4 [0, 1] [2] (core3 (Fin 3) (Fin 9) (Fin 5)) = None"
  using two_level_conserves_warps [of "core3 (Fin 3) (Fin 9) (Fin 5)" "[0, 1]" 2 "[2]"]
    two_level_conserves_warps [of "core3 (Fin 3) (Fin 9) (Fin 5)" "[0, 1]" 4 "[2]"]
  by auto

end
