(* ===== verification/Simt_Stack.thy ===== *)
theory Simt_Stack
  imports Instruction
begin

text \<open>
  The reconvergence stack of a warp (\<open>simt_stack\<close> of \<open>abstract_hardware_model.cc\<close>) and
  \<open>core_t::updateSIMTStack\<close>. A mask is the set of its lanes; the stack is a list whose head is
  \<open>m_stack.back()\<close>. The property: for code whose reconvergence points are post-dominators, every live
  thread is always at the program counter of the topmost entry it is active in, so executing the top
  entry executes each of its threads where that thread is, and the update never aborts.
\<close>

datatype stack_entry_type = STACK_ENTRY_TYPE_NORMAL | STACK_ENTRY_TYPE_CALL

record simt_stack_entry =
  se_pc :: address_type
  se_calldepth :: u32
  se_active_mask :: "nat set"
  se_recvg_pc :: address_type
  se_branch_div_cycle :: u64
  se_type :: stack_entry_type

definition simt_stack_entry_new :: simt_stack_entry where
  "simt_stack_entry_new = \<lparr>se_pc = - 1, se_calldepth = 0, se_active_mask = {}, se_recvg_pc = - 1,
     se_branch_div_cycle = 0, se_type = STACK_ENTRY_TYPE_NORMAL\<rparr>"

type_synonym simt_stack = "simt_stack_entry list"

definition simt_reset :: "simt_stack \<Rightarrow> simt_stack" where
  "simt_reset s = []"

definition simt_launch :: "address_type \<Rightarrow> nat set \<Rightarrow> simt_stack \<Rightarrow> simt_stack" where
  "simt_launch start_pc active s =
     [simt_stack_entry_new\<lparr>se_pc := start_pc, se_calldepth := 1, se_active_mask := active\<rparr>]"

definition get_active_mask :: "simt_stack \<Rightarrow> nat set option" where
  "get_active_mask s = do { require (s \<noteq> []); Some (se_active_mask (hd s)) }"

definition get_pdom_stack_top_info :: "simt_stack \<Rightarrow> (address_type \<times> address_type) option" where
  "get_pdom_stack_top_info s = do { require (s \<noteq> []); Some (se_pc (hd s), se_recvg_pc (hd s)) }"

definition get_rp :: "simt_stack \<Rightarrow> address_type option" where
  "get_rp s = do { require (s \<noteq> []); Some (se_recvg_pc (hd s)) }"

subsection \<open>The paths of a step\<close>

definition null_pc :: address_type where "null_pc = - 1"

text \<open>One lane of the \<open>for\<close> loop: the mask left, the program counter of the group and its lanes.\<close>

definition group_step :: "(nat \<Rightarrow> bool) \<Rightarrow> (nat \<Rightarrow> address_type) \<Rightarrow> nat \<Rightarrow>
    nat set \<times> address_type \<times> nat set \<Rightarrow> nat set \<times> address_type \<times> nat set" where
  "group_step thread_done next_pc i = (\<lambda>(todo, pc, grp).
     if i \<in> todo then
       (if thread_done i then (todo - {i}, pc, grp)
        else if pc = null_pc then (todo - {i}, next_pc i, insert i grp)
        else if pc = next_pc i then (todo - {i}, pc, insert i grp)
        else (todo, pc, grp))
     else (todo, pc, grp))"

definition extract_group :: "nat \<Rightarrow> (nat \<Rightarrow> bool) \<Rightarrow> (nat \<Rightarrow> address_type) \<Rightarrow> nat set \<Rightarrow>
    nat set \<times> address_type \<times> nat set" where
  "extract_group warp_size thread_done next_pc todo =
     fold (group_step thread_done next_pc) (rev [0..<warp_size]) (todo, null_pc, {})"

text \<open>\<open>divergent_paths[pc] = grp\<close>; the map is a list sorted by its keys.\<close>

definition set_path :: "address_type \<Rightarrow> nat set \<Rightarrow> (address_type \<times> nat set) list \<Rightarrow>
    (address_type \<times> nat set) list" where
  "set_path pc grp paths = insort_key fst (pc, grp) (filter (\<lambda>p. fst p \<noteq> pc) paths)"

partial_function (option) divergent_paths :: "nat \<Rightarrow> (nat \<Rightarrow> bool) \<Rightarrow> (nat \<Rightarrow> address_type) \<Rightarrow> nat set \<Rightarrow>
    (address_type \<times> nat set) list \<Rightarrow> nat \<Rightarrow> ((address_type \<times> nat set) list \<times> nat) option" where
  "divergent_paths warp_size thread_done next_pc todo paths num =
     (if todo = {} then Some (paths, num)
      else (case extract_group warp_size thread_done next_pc todo of (todo', pc, grp) \<Rightarrow>
        if pc = null_pc then (if todo' = {} then Some (paths, num) else None)
        else divergent_paths warp_size thread_done next_pc todo' (set_path pc grp paths) (num + 1)))"

declare divergent_paths.simps [code]

text \<open>The fall-through path first, then the one with the smallest program counter.\<close>

definition take_path :: "address_type \<Rightarrow> nat \<Rightarrow> (address_type \<times> nat set) list \<Rightarrow>
    ((address_type \<times> nat set) \<times> (address_type \<times> nat set) list) option" where
  "take_path not_taken_pc i paths = (case map_of paths not_taken_pc of
       Some m \<Rightarrow> do { require (i = 0); Some ((not_taken_pc, m), filter (\<lambda>p. fst p \<noteq> not_taken_pc) paths) }
     | None \<Rightarrow> (case paths of [] \<Rightarrow> None | p # rest \<Rightarrow> Some (p, rest)))"

subsection \<open>The update\<close>

text \<open>
  The body of the loop over the paths. The state is the stack, \<open>warp_diverged\<close> and \<open>new_recvg_pc\<close>;
  \<open>Inl\<close> is a return from inside the loop.
\<close>

type_synonym update_state = "simt_stack \<times> bool \<times> address_type"

definition path_step :: "u64 \<Rightarrow> op_type \<Rightarrow> nat \<Rightarrow> simt_stack_entry \<Rightarrow> address_type \<Rightarrow>
    address_type \<times> nat set \<Rightarrow> update_state \<Rightarrow> (simt_stack + update_state) option" where
  "path_step now op num tos recvg_pc = (\<lambda>(pc, msk) (stack, diverged, new_recvg).
     if op = CALL_OPS then do {
       require (num = 1);
       Some (Inl (simt_stack_entry_new\<lparr>se_pc := pc, se_active_mask := msk, se_branch_div_cycle := now,
         se_type := STACK_ENTRY_TYPE_CALL\<rparr> # stack))
     } else if op = RET_OPS \<and> se_type tos = STACK_ENTRY_TYPE_CALL then do {
       require (num = 1);
       require (tl stack \<noteq> []);
       let below = (hd (tl stack))\<lparr>se_pc := pc\<rparr>;
       Some (Inl (if pc = se_recvg_pc below \<and> se_type below \<noteq> STACK_ENTRY_TYPE_CALL
         then tl (tl stack) else below # tl (tl stack)))
     } else if pc = se_recvg_pc tos \<and> se_type tos \<noteq> STACK_ENTRY_TYPE_CALL
       then Some (Inr (stack, diverged, new_recvg))
     else (
       let enter = (1 < num \<and> \<not> diverged);
           new_recvg = (if enter then recvg_pc else new_recvg);
           diverged = (diverged \<or> enter);
           stack = (if enter \<and> new_recvg \<noteq> se_recvg_pc tos
             then simt_stack_entry_new # (hd stack)\<lparr>se_pc := new_recvg, se_branch_div_cycle := now\<rparr> # tl stack
             else stack)
       in if diverged \<and> pc = new_recvg then Some (Inr (stack, diverged, new_recvg))
          else let e = (hd stack)\<lparr>se_pc := pc, se_active_mask := msk\<rparr>;
                   e = (if diverged then e\<lparr>se_calldepth := 0, se_recvg_pc := new_recvg\<rparr>
                        else e\<lparr>se_recvg_pc := se_recvg_pc tos\<rparr>)
               in Some (Inr (simt_stack_entry_new # e # tl stack, diverged, new_recvg))))"

fun path_loop :: "u64 \<Rightarrow> op_type \<Rightarrow> nat \<Rightarrow> simt_stack_entry \<Rightarrow> address_type \<Rightarrow> address_type \<Rightarrow> nat list \<Rightarrow>
    (address_type \<times> nat set) list \<Rightarrow> update_state \<Rightarrow> simt_stack option" where
  "path_loop now op num tos recvg_pc not_taken_pc [] paths (stack, diverged, new_recvg) = do {
     require (stack \<noteq> []);
     Some (tl stack)
   }"
| "path_loop now op num tos recvg_pc not_taken_pc (i # is) paths s = do {
     (p, paths) \<leftarrow> take_path not_taken_pc i paths;
     r \<leftarrow> path_step now op num tos recvg_pc p s;
     (case r of Inl stack \<Rightarrow> Some stack
      | Inr s \<Rightarrow> path_loop now op num tos recvg_pc not_taken_pc is paths s)
   }"

definition simt_update :: "u64 \<Rightarrow> nat \<Rightarrow> (nat \<Rightarrow> bool) \<Rightarrow> address_type list \<Rightarrow> address_type \<Rightarrow> op_type \<Rightarrow>
    u32 \<Rightarrow> address_type \<Rightarrow> simt_stack \<Rightarrow> simt_stack option" where
  "simt_update now warp_size thread_done next_pc recvg_pc op isize inst_pc stack = do {
     require (stack \<noteq> []);
     require (length next_pc = warp_size);
     let tos = hd stack;
     require (se_pc tos = inst_pc);
     require (se_active_mask tos \<noteq> {});
     (paths, num) \<leftarrow> divergent_paths warp_size thread_done (nth next_pc) (se_active_mask tos) [] 0;
     require (num \<le> 2);
     path_loop now op num tos recvg_pc (inst_pc + isize) [0..<num] paths (stack, False, null_pc)
   }"

text \<open>
  \<open>core_t::updateSIMTStack\<close>: \<open>threads\<close> are the program counter and the return address of the threads of
  the warp, \<open>None\<close> for a thread that is done. The first live thread decides the return address that
  replaces \<open>RECONVERGE_RETURN_PC\<close>, because the instruction itself is overwritten.
\<close>

definition RECONVERGE_RETURN_PC :: address_type where "RECONVERGE_RETURN_PC = - 2"

definition updateSIMTStack :: "u64 \<Rightarrow> nat \<Rightarrow> (address_type \<times> address_type) option list \<Rightarrow> address_type \<Rightarrow> op_type \<Rightarrow>
    u32 \<Rightarrow> address_type \<Rightarrow> simt_stack \<Rightarrow> simt_stack option" where
  "updateSIMTStack now warp_size threads reconvergence_pc op isize pc stack =
     (let recvg = fold (\<lambda>t r. case t of None \<Rightarrow> r
          | Some (_, ret) \<Rightarrow> if r = RECONVERGE_RETURN_PC then ret else r) threads reconvergence_pc
      in simt_update now warp_size (\<lambda>i. threads ! i = None)
           (map (\<lambda>t. case t of None \<Rightarrow> - 1 | Some (p, _) \<Rightarrow> p) threads) recvg op isize pc stack)"

text \<open>\<open>getExecuteWarp\<close>: the instruction at the top entry (\<open>fetch\<close> is \<open>ptx_fetch_inst\<close>) and its lanes.\<close>

definition getExecuteWarp :: "(address_type \<Rightarrow> inst_t option) \<Rightarrow> simt_stack \<Rightarrow> (inst_t \<times> nat set) option" where
  "getExecuteWarp fetch s = do {
     (pc, rpc) \<leftarrow> get_pdom_stack_top_info s;
     wi \<leftarrow> fetch pc;
     active \<leftarrow> get_active_mask s;
     Some (wi, active)
   }"

subsection \<open>The groups\<close>

lemma group_fold:
  assumes "pc \<noteq> null_pc"
  shows "fold (group_step d pcs) xs (todo, pc, grp) =
    (todo - {i \<in> set xs. d i \<or> pcs i = pc}, pc, grp \<union> {i \<in> set xs \<inter> todo. \<not> d i \<and> pcs i = pc})"
proof (induction xs arbitrary: todo grp)
  case (Cons i xs)
  have "group_step d pcs i (todo, pc, grp) =
      (todo - {j \<in> {i}. d j \<or> pcs j = pc}, pc, grp \<union> {j \<in> {i} \<inter> todo. \<not> d j \<and> pcs j = pc})"
    using assms by (auto simp: group_step_def)
  with Cons.IH [of "todo - {j \<in> {i}. d j \<or> pcs j = pc}" "grp \<union> {j \<in> {i} \<inter> todo. \<not> d j \<and> pcs j = pc}"]
  show ?case by (auto simp del: Collect_conv_if)
qed simp

lemma group_fold_null:
  assumes "\<And>i. i \<in> set xs \<inter> todo \<Longrightarrow> \<not> d i \<Longrightarrow> pcs i \<noteq> null_pc"
  shows "if \<forall>i \<in> set xs \<inter> todo. d i then fold (group_step d pcs) xs (todo, null_pc, {}) = (todo - set xs, null_pc, {})
    else \<exists>k \<in> set xs \<inter> todo. \<not> d k \<and> fold (group_step d pcs) xs (todo, null_pc, {}) =
      (todo - {i \<in> set xs. d i \<or> pcs i = pcs k}, pcs k, {i \<in> set xs \<inter> todo. \<not> d i \<and> pcs i = pcs k})"
  using assms
proof (induction xs arbitrary: todo)
  case (Cons i xs)
  consider "i \<notin> todo" | "i \<in> todo" "d i" | "i \<in> todo" "\<not> d i" by blast
  then show ?case
  proof cases
    case 1
    then have g: "fold (group_step d pcs) (i # xs) (todo, null_pc, {}) = fold (group_step d pcs) xs (todo, null_pc, {})"
      by (simp add: group_step_def)
    have s: "set (i # xs) \<inter> todo = set xs \<inter> todo" "todo - set (i # xs) = todo - set xs"
      "todo - {j \<in> set (i # xs). d j \<or> pcs j = p} = todo - {j \<in> set xs. d j \<or> pcs j = p}" for p
      using 1 by auto
    show ?thesis unfolding g s by (rule Cons.IH) (use Cons.prems in auto)
  next
    case 2
    then have g: "fold (group_step d pcs) (i # xs) (todo, null_pc, {}) = fold (group_step d pcs) xs (todo - {i}, null_pc, {})"
      by (simp add: group_step_def)
    have s: "todo - set (i # xs) = todo - {i} - set xs"
      "todo - {j \<in> set (i # xs). d j \<or> pcs j = p} = todo - {i} - {j \<in> set xs. d j \<or> pcs j = p}"
      "{j \<in> set (i # xs) \<inter> todo. \<not> d j \<and> pcs j = p} = {j \<in> set xs \<inter> (todo - {i}). \<not> d j \<and> pcs j = p}" for p
      using 2 by auto
    have q: "(\<forall>j \<in> set (i # xs) \<inter> todo. d j) \<longleftrightarrow> (\<forall>j \<in> set xs \<inter> (todo - {i}). d j)"
      "(\<exists>j \<in> set (i # xs) \<inter> todo. \<not> d j \<and> P j) \<longleftrightarrow> (\<exists>j \<in> set xs \<inter> (todo - {i}). \<not> d j \<and> P j)" for P
      using 2 by auto
    show ?thesis unfolding g s q by (rule Cons.IH) (use Cons.prems in auto)
  next
    case 3
    then have n: "pcs i \<noteq> null_pc" using Cons.prems by auto
    have "group_step d pcs i (todo, null_pc, {}) = (todo - {i}, pcs i, {i})" using 3 by (simp add: group_step_def)
    moreover have "todo - {i} - {j \<in> set xs. d j \<or> pcs j = pcs i} = todo - {j \<in> set (i # xs). d j \<or> pcs j = pcs i}"
      "{i} \<union> {j \<in> set xs \<inter> (todo - {i}). \<not> d j \<and> pcs j = pcs i} = {j \<in> set (i # xs) \<inter> todo. \<not> d j \<and> pcs j = pcs i}"
      using 3 by auto
    ultimately have "fold (group_step d pcs) (i # xs) (todo, null_pc, {}) =
        (todo - {j \<in> set (i # xs). d j \<or> pcs j = pcs i}, pcs i, {j \<in> set (i # xs) \<inter> todo. \<not> d j \<and> pcs j = pcs i})"
      by (simp only: fold_simps comp_apply group_fold [OF n])
    then show ?thesis using 3 by auto
  qed
qed simp

text \<open>With the mask inside the warp, a round takes all lanes of one path and drops the finished ones.\<close>

lemma extract_group_cases:
  assumes "todo \<subseteq> {..<ws}" and "\<And>i. i \<in> todo \<Longrightarrow> \<not> d i \<Longrightarrow> pcs i \<noteq> null_pc"
  shows "(\<forall>i \<in> todo. d i) \<and> extract_group ws d pcs todo = ({}, null_pc, {}) \<or>
    (\<exists>k \<in> todo. \<not> d k \<and> extract_group ws d pcs todo =
      ({i \<in> todo. \<not> d i \<and> pcs i \<noteq> pcs k}, pcs k, {i \<in> todo. \<not> d i \<and> pcs i = pcs k}))"
proof -
  have s: "set (rev [0..<ws]) \<inter> todo = todo" "todo - set (rev [0..<ws]) = {}"
    "todo - {i \<in> set (rev [0..<ws]). d i \<or> pcs i = p} = {i \<in> todo. \<not> d i \<and> pcs i \<noteq> p}" for p
    using assms(1) by auto
  from group_fold_null [of "rev [0..<ws]" todo d pcs] assms(2) show ?thesis
    unfolding extract_group_def s by (auto split: if_splits)
qed

text \<open>The paths: one per program counter of the live lanes, with the lanes that go there.\<close>

definition lanes_at :: "(nat \<Rightarrow> bool) \<Rightarrow> (nat \<Rightarrow> address_type) \<Rightarrow> nat set \<Rightarrow> address_type \<Rightarrow> nat set" where
  "lanes_at d pcs msk p = {i \<in> msk. \<not> d i \<and> pcs i = p}"

lemma divergent_paths_eq:
  assumes "todo \<subseteq> {..<ws}" and "\<And>i. i \<in> todo \<Longrightarrow> \<not> d i \<Longrightarrow> pcs i \<noteq> null_pc"
    and "distinct (map fst acc)" and "fst ` set acc \<inter> pcs ` {i \<in> todo. \<not> d i} = {}"
  shows "\<exists>paths. divergent_paths ws d pcs todo acc n = Some (paths, n + card (pcs ` {i \<in> todo. \<not> d i})) \<and>
    set paths = set acc \<union> (\<lambda>p. (p, lanes_at d pcs todo p)) ` pcs ` {i \<in> todo. \<not> d i} \<and> distinct (map fst paths)"
proof -
  have "finite todo" using assms(1) by (rule finite_subset) simp
  then show ?thesis using assms
  proof (induction todo arbitrary: acc n rule: finite_psubset_induct)
    case (psubset todo)
    show ?case
    proof (cases "todo = {}")
      case True
      with psubset.prems show ?thesis by (subst divergent_paths.simps) auto
    next
      case False
      let ?L = "{i \<in> todo. \<not> d i}"
      have "(\<forall>i \<in> todo. d i) \<and> extract_group ws d pcs todo = ({}, null_pc, {}) \<or>
          (\<exists>k \<in> todo. \<not> d k \<and> extract_group ws d pcs todo =
            ({i \<in> todo. \<not> d i \<and> pcs i \<noteq> pcs k}, pcs k, {i \<in> todo. \<not> d i \<and> pcs i = pcs k}))"
        by (rule extract_group_cases) (use psubset.prems in auto)
      then show ?thesis
      proof (elim disjE conjE bexE)
        assume none: "\<forall>i \<in> todo. d i" "extract_group ws d pcs todo = ({}, null_pc, {})"
        then have "?L = {}" by auto
        with none False psubset.prems(3) show ?thesis by (subst divergent_paths.simps) (auto simp: null_pc_def)
      next
        fix k
        assume k: "k \<in> todo" "\<not> d k" "extract_group ws d pcs todo =
            ({i \<in> todo. \<not> d i \<and> pcs i \<noteq> pcs k}, pcs k, {i \<in> todo. \<not> d i \<and> pcs i = pcs k})"
        then have some: "k \<in> ?L" "extract_group ws d pcs todo =
            ({i \<in> todo. \<not> d i \<and> pcs i \<noteq> pcs k}, pcs k, lanes_at d pcs todo (pcs k))"
          by (simp_all add: lanes_at_def)
        let ?T = "{i \<in> todo. \<not> d i \<and> pcs i \<noteq> pcs k}"
        let ?acc = "set_path (pcs k) (lanes_at d pcs todo (pcs k)) acc"
        have L: "{i \<in> ?T. \<not> d i} = ?T" "pcs ` ?L = insert (pcs k) (pcs ` ?T)" "pcs k \<notin> pcs ` ?T"
          using some(1) by auto
        have lt: "lanes_at d pcs ?T p = lanes_at d pcs todo p" if "p \<in> pcs ` ?T" for p
          using that by (auto simp: lanes_at_def)
        have acc: "filter (\<lambda>p. fst p \<noteq> pcs k) acc = acc"
          using psubset.prems(4) some(1) by (auto simp: filter_id_conv)
        have sa: "set ?acc = insert (pcs k, lanes_at d pcs todo (pcs k)) (set acc)"
          by (simp add: set_path_def acc set_insort_key)
        have "pcs k \<notin> fst ` set acc" using psubset.prems(4) some(1) by auto
        then have da: "distinct (map fst ?acc)"
          using psubset.prems(3) by (simp add: set_path_def acc distinct_map distinct_insort inj_on_insert set_insort_key) force
        have "?T \<subset> todo" using some(1) by auto
        moreover have "?T \<subseteq> {..<ws}" using psubset.prems(1) by auto
        moreover have "fst ` set ?acc \<inter> pcs ` {i \<in> ?T. \<not> d i} = {}"
          unfolding sa using psubset.prems(4) L by auto
        ultimately obtain paths where p: "divergent_paths ws d pcs ?T ?acc (n + 1) =
              Some (paths, n + 1 + card (pcs ` ?T))"
            "set paths = set ?acc \<union> (\<lambda>p. (p, lanes_at d pcs ?T p)) ` pcs ` ?T" "distinct (map fst paths)"
          using psubset.IH [of ?T ?acc "n + 1"] psubset.prems(2) da L(1) by auto
        have "card (pcs ` ?L) = Suc (card (pcs ` ?T))"
          using L(3) psubset.hyps unfolding L(2) by simp
        moreover have "pcs k \<noteq> null_pc" using some(1) psubset.prems(2) by auto
        ultimately have "divergent_paths ws d pcs todo acc n = Some (paths, n + card (pcs ` ?L))"
          using p(1) some(2) False by (subst divergent_paths.simps) simp
        moreover have "set paths = set acc \<union> (\<lambda>p. (p, lanes_at d pcs todo p)) ` pcs ` ?L"
          unfolding p(2) sa L(2) using lt by auto
        ultimately show ?thesis using p(3) by blast
      qed
    qed
  qed
qed

subsection \<open>What an update does to the stack\<close>

text \<open>
  \<open>msk\<close> are the lanes of the top entry that are still live. No path: all lanes are done. One path: the
  entry moves on, calls, returns or reconverges. Two paths, of which \<open>x\<close> is handled first.
\<close>

definition one_path :: "u64 \<Rightarrow> op_type \<Rightarrow> address_type \<Rightarrow> nat set \<Rightarrow> simt_stack_entry \<Rightarrow> simt_stack \<Rightarrow> simt_stack" where
  "one_path now op pc msk e es =
     (if op = CALL_OPS then simt_stack_entry_new\<lparr>se_pc := pc, se_active_mask := msk,
         se_branch_div_cycle := now, se_type := STACK_ENTRY_TYPE_CALL\<rparr> # e # es
      else if op = RET_OPS \<and> se_type e = STACK_ENTRY_TYPE_CALL then
        (if pc = se_recvg_pc (hd es) \<and> se_type (hd es) \<noteq> STACK_ENTRY_TYPE_CALL then tl es
         else (hd es)\<lparr>se_pc := pc\<rparr> # tl es)
      else if pc = se_recvg_pc e \<and> se_type e \<noteq> STACK_ENTRY_TYPE_CALL then es
      else e\<lparr>se_pc := pc, se_active_mask := msk\<rparr> # es)"

text \<open>The entries for those of the paths \<open>ps\<close> that do not reconverge at \<open>r\<close>, the last path on top.\<close>

definition path_entries :: "address_type \<Rightarrow> (address_type \<times> nat set) list \<Rightarrow> simt_stack_entry list" where
  "path_entries r ps = rev (map (\<lambda>(pc, msk). simt_stack_entry_new\<lparr>se_pc := pc, se_active_mask := msk,
     se_recvg_pc := r\<rparr>) (filter (\<lambda>p. fst p \<noteq> r) ps))"

lemma one_path_loop:
  assumes "op = RET_OPS \<and> se_type e = STACK_ENTRY_TYPE_CALL \<longrightarrow> es \<noteq> []"
  shows "path_loop now op 1 e r nt [0..<1] [(pc, msk)] (e # es, False, null_pc) = Some (one_path now op pc msk e es)"
  using assms by (auto simp: take_path_def path_step_def one_path_def Let_def)

lemma take_two:
  assumes "p \<noteq> q"
  obtains x A y B where "{(x, A), (y, B)} = {(p, P), (q, Q)}" "x \<noteq> y"
    "take_path nt 0 [(p, P), (q, Q)] = Some ((x, A), [(y, B)])" "take_path nt (Suc 0) [(y, B)] = Some ((y, B), [])"
proof (cases "q = nt")
  case True
  with assms show ?thesis by (intro that [of q Q p P]) (auto simp: take_path_def)
next
  case False
  with assms show ?thesis by (intro that [of p P q Q]) (auto simp: take_path_def)
qed

text \<open>
  Two paths in an entry that does not reconverge where the branch does: it becomes the reconvergence
  entry, under one entry for each path that goes elsewhere.
\<close>

lemma two_path_loop_new:
  assumes "op \<noteq> CALL_OPS" and "\<not> (op = RET_OPS \<and> se_type e = STACK_ENTRY_TYPE_CALL)" and "p \<noteq> q"
    and "r \<noteq> se_recvg_pc e" and "se_type e = STACK_ENTRY_TYPE_CALL \<or> se_recvg_pc e \<notin> {p, q}"
  obtains x A y B where "{(x, A), (y, B)} = {(p, P), (q, Q)}" "x \<noteq> y"
    "path_loop now op 2 e r nt [0, 1] [(p, P), (q, Q)] (e # es, False, null_pc) =
       Some (path_entries r [(x, A), (y, B)] @ e\<lparr>se_pc := r, se_branch_div_cycle := now\<rparr> # es)"
proof -
  obtain x A y B where t: "{(x, A), (y, B)} = {(p, P), (q, Q)}" "x \<noteq> y"
    "take_path nt 0 [(p, P), (q, Q)] = Some ((x, A), [(y, B)])" "take_path nt (Suc 0) [(y, B)] = Some ((y, B), [])"
    using take_two [OF assms(3)] by metis
  have n: "\<not> (x = se_recvg_pc e \<and> se_type e \<noteq> STACK_ENTRY_TYPE_CALL)"
    "\<not> (y = se_recvg_pc e \<and> se_type e \<noteq> STACK_ENTRY_TYPE_CALL)"
    using t(1) assms(5) by (auto simp: doubleton_eq_iff)
  show ?thesis
    using t assms(1,2,4) n
    by (intro that [OF t(1,2)]) (auto simp: path_step_def path_entries_def simt_stack_entry_new_def Let_def)
qed

text \<open>Two paths in an entry with the branch's reconvergence point: its entry is replaced.\<close>

lemma two_path_loop_same:
  assumes "op \<noteq> CALL_OPS" and "p \<noteq> q" and "se_type e = STACK_ENTRY_TYPE_NORMAL" and "r = se_recvg_pc e"
  obtains x A y B where "{(x, A), (y, B)} = {(p, P), (q, Q)}" "x \<noteq> y"
    "path_loop now op 2 e r nt [0, 1] [(p, P), (q, Q)] (e # es, False, null_pc) = Some (
       (if y \<noteq> r \<and> x \<noteq> r then [simt_stack_entry_new\<lparr>se_pc := y, se_active_mask := B, se_recvg_pc := r\<rparr>] else []) @
       (if x \<noteq> r then e\<lparr>se_pc := x, se_active_mask := A, se_calldepth := 0\<rparr>
        else e\<lparr>se_pc := y, se_active_mask := B, se_calldepth := 0\<rparr>) # es)"
proof -
  obtain x A y B where t: "{(x, A), (y, B)} = {(p, P), (q, Q)}" "x \<noteq> y"
    "take_path nt 0 [(p, P), (q, Q)] = Some ((x, A), [(y, B)])" "take_path nt (Suc 0) [(y, B)] = Some ((y, B), [])"
    using take_two [OF assms(2)] by metis
  show ?thesis
    using t assms(1,3,4)
    by (intro that [OF t(1,2)]) (auto simp: path_step_def simt_stack_entry_new_def Let_def)
qed

subsection \<open>The stack follows the threads\<close>

definition topmost :: "nat \<Rightarrow> simt_stack \<Rightarrow> simt_stack_entry option" where
  "topmost t s = find (\<lambda>e. t \<in> se_active_mask e) s"

definition at_entry :: "nat \<Rightarrow> address_type \<Rightarrow> simt_stack \<Rightarrow> bool" where
  "at_entry t pc s \<longleftrightarrow> (\<exists>e. topmost t s = Some e \<and> se_pc e = pc)"

text \<open>
  Well-formed for the live threads: the lanes of an entry with a reconvergence point find, below it,
  the entry that waits there; a call covers the live lanes of its caller.
\<close>

fun stack_ok :: "nat \<Rightarrow> nat set \<Rightarrow> simt_stack \<Rightarrow> bool" where
  "stack_ok ws live [] = True"
| "stack_ok ws live (e # es) \<longleftrightarrow> se_active_mask e \<noteq> {} \<and> se_active_mask e \<subseteq> {..<ws} \<and>
     (if se_type e = STACK_ENTRY_TYPE_CALL
      then se_recvg_pc e = null_pc \<and> es \<noteq> [] \<and> se_active_mask e \<subseteq> se_active_mask (hd es) \<and>
        se_active_mask (hd es) \<inter> live \<subseteq> se_active_mask e
      else se_recvg_pc e \<noteq> null_pc \<longrightarrow>
        (\<forall>t \<in> se_active_mask e \<inter> live. at_entry t (se_recvg_pc e) es)) \<and>
     stack_ok ws live es"

text \<open>
  A step of a warp at the top entry. The lanes outside it stay where they are; no thread goes to
  \<open>null_pc\<close>; and if the lanes part, the instruction is a branch with a reconvergence point, which is
  the top entry's own point if one of the paths leads there (it is the immediate post-dominator).
\<close>

definition legal_step :: "simt_stack \<Rightarrow> nat set \<Rightarrow> (nat \<Rightarrow> address_type) \<Rightarrow> op_type \<Rightarrow> address_type \<Rightarrow>
    nat set \<Rightarrow> (nat \<Rightarrow> address_type) \<Rightarrow> bool" where
  "legal_step s live pcs op recvg_pc live' pcs' \<longleftrightarrow> s \<noteq> [] \<and> live' \<subseteq> live \<and>
     (\<forall>t \<in> live' - se_active_mask (hd s). pcs' t = pcs t) \<and> (\<forall>t \<in> live'. pcs' t \<noteq> null_pc) \<and>
     (let targets = pcs' ` (se_active_mask (hd s) \<inter> live') in card targets \<le> 2 \<and>
       (card targets = 2 \<longrightarrow> recvg_pc \<noteq> null_pc \<and> op \<noteq> CALL_OPS \<and>
          (se_type (hd s) = STACK_ENTRY_TYPE_CALL \<longrightarrow> op \<noteq> RET_OPS) \<and>
          (se_recvg_pc (hd s) \<in> targets \<longrightarrow> recvg_pc = se_recvg_pc (hd s))))"

inductive simt_reachable :: "nat \<Rightarrow> simt_stack \<Rightarrow> nat set \<Rightarrow> (nat \<Rightarrow> address_type) \<Rightarrow> bool" for ws where
  launched: "active \<noteq> {} \<Longrightarrow> active \<subseteq> {..<ws} \<Longrightarrow> simt_reachable ws (simt_launch pc active s) active (\<lambda>_. pc)"
| updated: "simt_reachable ws s live pcs \<Longrightarrow> legal_step s live pcs op recvg_pc live' pcs' \<Longrightarrow>
    simt_update now ws (\<lambda>t. t \<notin> live') (map pcs' [0..<ws]) recvg_pc op isize (se_pc (hd s)) s = Some s' \<Longrightarrow>
    simt_reachable ws s' live' pcs'"

lemma topmost_simps [simp]:
  "topmost t [] = None" "topmost t (e # s) = (if t \<in> se_active_mask e then Some e else topmost t s)"
  by (simp_all add: topmost_def)

lemma at_entry_simps [simp]:
  "\<not> at_entry t pc []" "at_entry t pc (e # s) = (if t \<in> se_active_mask e then se_pc e = pc else at_entry t pc s)"
  by (auto simp: at_entry_def)

lemma stack_ok_live: "stack_ok ws live s \<Longrightarrow> live' \<subseteq> live \<Longrightarrow> stack_ok ws live' s"
  by (induction s) (auto split: if_splits)

text \<open>One path.\<close>

lemma one_path_follows:
  assumes ok: "stack_ok ws live' (e # es)" and tr: "\<forall>t \<in> live' - se_active_mask e. at_entry t (pcs' t) es"
    and msk: "msk = se_active_mask e \<inter> live'" "msk \<noteq> {}" "\<forall>t \<in> msk. pcs' t = pc" and pc: "pc \<noteq> null_pc"
  shows "stack_ok ws live' (one_path now op pc msk e es) \<and>
    (\<forall>t \<in> live'. at_entry t (pcs' t) (one_path now op pc msk e es))"
proof (cases "op = RET_OPS \<and> se_type e = STACK_ENTRY_TYPE_CALL")
  case True
  then have c: "es \<noteq> []" "se_active_mask e \<subseteq> se_active_mask (hd es)" "se_active_mask (hd es) \<inter> live' \<subseteq> msk"
    using ok msk(1) by auto
  then obtain b bs where b: "es = b # bs" by (cases es) auto
  have in_b: "pcs' t = pc" if "t \<in> se_active_mask b" "t \<in> live'" for t
    using that c(3) b msk(3) by auto
  have off: "at_entry t (pcs' t) bs" if "t \<in> live'" "t \<notin> se_active_mask b" for t
    using that tr c(2) b by (auto split: if_splits)
  have okb: "stack_ok ws live' (b # bs)" using ok b by simp
  show ?thesis
  proof (cases "pc = se_recvg_pc b \<and> se_type b \<noteq> STACK_ENTRY_TYPE_CALL")
    case rec: True
    then have "at_entry t (pcs' t) bs" if "t \<in> live'" for t
      using okb off in_b that pc by (cases "t \<in> se_active_mask b") auto
    with True rec b okb show ?thesis by (simp add: one_path_def)
  next
    case False
    with True b have "one_path now op pc msk e es = b\<lparr>se_pc := pc\<rparr> # bs" by (auto simp: one_path_def)
    with okb off in_b show ?thesis by auto
  qed
next
  case nret: False
  show ?thesis
  proof (cases "op = CALL_OPS")
    case True
    with ok tr msk show ?thesis by (auto simp: one_path_def simt_stack_entry_new_def null_pc_def)
  next
    case False
    show ?thesis
    proof (cases "pc = se_recvg_pc e \<and> se_type e \<noteq> STACK_ENTRY_TYPE_CALL")
      case True
      have "at_entry t (pcs' t) es" if "t \<in> live'" for t
        using ok tr msk that True pc by (cases "t \<in> se_active_mask e") auto
      with ok True False nret show ?thesis by (simp add: one_path_def)
    next
      case nrec: False
      with False nret have "one_path now op pc msk e es = e\<lparr>se_pc := pc, se_active_mask := msk\<rparr> # es"
        by (auto simp: one_path_def)
      moreover have "stack_ok ws live' (e\<lparr>se_pc := pc, se_active_mask := msk\<rparr> # es)"
        using ok msk(1,2) by (auto split: if_splits)
      moreover have "\<forall>t \<in> live'. at_entry t (pcs' t) (e\<lparr>se_pc := pc, se_active_mask := msk\<rparr> # es)"
        using tr msk(1,3) by auto
      ultimately show ?thesis by (simp only: simp_thms)
    qed
  qed
qed

text \<open>Two paths.\<close>

lemma path_entries_two:
  "path_entries r [(x, A), (y, B)] =
     (if y \<noteq> r then [simt_stack_entry_new\<lparr>se_pc := y, se_active_mask := B, se_recvg_pc := r\<rparr>] else []) @
     (if x \<noteq> r then [simt_stack_entry_new\<lparr>se_pc := x, se_active_mask := A, se_recvg_pc := r\<rparr>] else [])"
  by (simp add: path_entries_def)

lemma new_entry_simps [simp]:
  "se_type simt_stack_entry_new = STACK_ENTRY_TYPE_NORMAL" "se_recvg_pc simt_stack_entry_new = null_pc"
  by (simp_all add: simt_stack_entry_new_def null_pc_def)

lemma two_paths_follow_new:
  assumes ok: "stack_ok ws live' (e # es)" and tr: "\<forall>t \<in> live' - se_active_mask e. at_entry t (pcs' t) es"
    and AB: "A \<union> B = se_active_mask e \<inter> live'" "A \<inter> B = {}" "A \<noteq> {}" "B \<noteq> {}" "\<forall>t \<in> A. pcs' t = x" "\<forall>t \<in> B. pcs' t = y"
    and e': "se_active_mask e' = se_active_mask e" "se_pc e' = r" "se_type e' = se_type e" "se_recvg_pc e' = se_recvg_pc e"
  shows "stack_ok ws live' (path_entries r [(x, A), (y, B)] @ e' # es) \<and>
    (\<forall>t \<in> live'. at_entry t (pcs' t) (path_entries r [(x, A), (y, B)] @ e' # es))"
proof -
  have sub: "A \<subseteq> se_active_mask e'" "B \<subseteq> se_active_mask e'" "A \<subseteq> {..<ws}" "B \<subseteq> {..<ws}"
    using AB(1) ok e'(1) by auto
  have oke: "stack_ok ws live' (e' # es)" using ok e' by auto
  have at: "at_entry t (pcs' t) (e' # es)" if "t \<in> live'" "t \<notin> A \<or> x = r" "t \<notin> B \<or> y = r" for t
  proof (cases "t \<in> se_active_mask e")
    case True
    with that(1) AB(1) have "t \<in> A \<or> t \<in> B" by blast
    with that AB(5,6) have "pcs' t = r" by auto
    with True e' show ?thesis by simp
  qed (use that tr e' in simp)
  let ?X = "simt_stack_entry_new\<lparr>se_pc := x, se_active_mask := A, se_recvg_pc := r\<rparr>"
  let ?Y = "simt_stack_entry_new\<lparr>se_pc := y, se_active_mask := B, se_recvg_pc := r\<rparr>"
  have X: "stack_ok ws live' (?X # e' # es)" using oke sub AB(3) e'(2) by auto
  have Y: "stack_ok ws live' (?Y # e' # es)" using oke sub AB(4) e'(2) by auto
  have "stack_ok ws live' (?Y # ?X # e' # es)" using X sub AB(2,4) e'(2) by auto
  moreover have "\<forall>t \<in> live'. at_entry t (pcs' t) (path_entries r [(x, A), (y, B)] @ e' # es)"
    using at AB(5,6) by (auto simp: path_entries_two simp del: at_entry_simps(2) simp: at_entry_simps(2) [of _ _ ?X] at_entry_simps(2) [of _ _ ?Y])
  ultimately show ?thesis using X Y oke by (auto simp: path_entries_two)
qed

lemma two_paths_follow_same:
  assumes ok: "stack_ok ws live' (e # es)" and tr: "\<forall>t \<in> live' - se_active_mask e. at_entry t (pcs' t) es"
    and AB: "A \<union> B = se_active_mask e \<inter> live'" "A \<inter> B = {}" "A \<noteq> {}" "B \<noteq> {}" "\<forall>t \<in> A. pcs' t = x" "\<forall>t \<in> B. pcs' t = y"
    and e: "se_type e = STACK_ENTRY_TYPE_NORMAL" "se_recvg_pc e = r" "r \<noteq> null_pc" "x \<noteq> y"
    and s: "s = (if y \<noteq> r \<and> x \<noteq> r then [simt_stack_entry_new\<lparr>se_pc := y, se_active_mask := B, se_recvg_pc := r\<rparr>] else []) @
       (if x \<noteq> r then e\<lparr>se_pc := x, se_active_mask := A, se_calldepth := 0\<rparr>
        else e\<lparr>se_pc := y, se_active_mask := B, se_calldepth := 0\<rparr>) # es"
  shows "stack_ok ws live' s \<and> (\<forall>t \<in> live'. at_entry t (pcs' t) s)"
proof -
  have sub: "A \<subseteq> se_active_mask e" "B \<subseteq> se_active_mask e" "A \<subseteq> {..<ws}" "B \<subseteq> {..<ws}" "A \<subseteq> live'" "B \<subseteq> live'"
    using AB(1) ok by auto
  have below: "at_entry t r es" if "t \<in> A \<or> t \<in> B" for t using ok e that sub by auto
  have oks: "stack_ok ws live' es" using ok by simp
  have at: "at_entry t (pcs' t) es" if "t \<in> live'" "t \<notin> A \<or> x = r" "t \<notin> B \<or> y = r" for t
  proof (cases "t \<in> se_active_mask e")
    case True
    with that(1) AB(1) have "t \<in> A \<or> t \<in> B" by blast
    with that AB(5,6) below show ?thesis by auto
  qed (use that tr in simp)
  let ?X = "e\<lparr>se_pc := x, se_active_mask := A, se_calldepth := 0\<rparr>"
  let ?Y = "e\<lparr>se_pc := y, se_active_mask := B, se_calldepth := 0\<rparr>"
  let ?N = "simt_stack_entry_new\<lparr>se_pc := y, se_active_mask := B, se_recvg_pc := r\<rparr>"
  have X: "stack_ok ws live' (?X # es)" and Y: "stack_ok ws live' (?Y # es)"
    using oks sub AB(3,4) e below by auto
  have N: "stack_ok ws live' (?N # ?X # es)" using X sub AB(2,4) below by auto
  consider "x = r" "y \<noteq> r" | "x \<noteq> r" "y = r" | "x \<noteq> r" "y \<noteq> r" using e(4) by auto
  then show ?thesis
  proof cases
    case 1
    with s have "s = ?Y # es" by simp
    moreover have "\<forall>t \<in> live'. at_entry t (pcs' t) (?Y # es)" using at 1 AB(6) by auto
    ultimately show ?thesis using Y by (simp only: simp_thms)
  next
    case 2
    with s have "s = ?X # es" by simp
    moreover have "\<forall>t \<in> live'. at_entry t (pcs' t) (?X # es)" using at 2 AB(5) by auto
    ultimately show ?thesis using X by (simp only: simp_thms)
  next
    case 3
    with s have "s = ?N # ?X # es" by simp
    moreover have "\<forall>t \<in> live'. at_entry t (pcs' t) (?N # ?X # es)" using at AB(5,6) by auto
    ultimately show ?thesis using N by (simp only: simp_thms)
  qed
qed

text \<open>Every legal step succeeds and keeps the stack in line with the threads.\<close>

lemma simt_update_follows:
  assumes ok: "stack_ok ws live s" and tr: "\<forall>t \<in> live. at_entry t (pcs t) s"
    and legal: "legal_step s live pcs op recvg_pc live' pcs'"
  shows "\<exists>s'. simt_update now ws (\<lambda>t. t \<notin> live') (map pcs' [0..<ws]) recvg_pc op isize (se_pc (hd s)) s = Some s' \<and>
    stack_ok ws live' s' \<and> (\<forall>t \<in> live'. at_entry t (pcs' t) s')"
proof -
  obtain e es where s: "s = e # es" using legal by (cases s) (auto simp: legal_step_def)
  let ?M = "se_active_mask e" and ?d = "\<lambda>t. t \<notin> live'" and ?p = "nth (map pcs' [0..<ws])"
  define msk where "msk = ?M \<inter> live'"
  have live: "live' \<subseteq> live" "\<forall>t \<in> live' - ?M. pcs' t = pcs t" "\<forall>t \<in> live'. pcs' t \<noteq> null_pc"
    and two: "card (pcs' ` msk) \<le> 2" "card (pcs' ` msk) = 2 \<Longrightarrow> recvg_pc \<noteq> null_pc \<and> op \<noteq> CALL_OPS \<and>
      (se_type e = STACK_ENTRY_TYPE_CALL \<longrightarrow> op \<noteq> RET_OPS) \<and> (se_recvg_pc e \<in> pcs' ` msk \<longrightarrow> recvg_pc = se_recvg_pc e)"
    using legal by (auto simp: legal_step_def s Let_def msk_def)
  have ok': "stack_ok ws live' (e # es)" using stack_ok_live [OF ok live(1)] s by simp
  then have M: "?M \<subseteq> {..<ws}" "?M \<noteq> {}" by auto
  have tr': "\<forall>t \<in> live' - ?M. at_entry t (pcs' t) es"
    using tr live(1,2) s by (metis Diff_iff at_entry_simps(2) subsetD)
  have p: "?p i = pcs' i" if "i \<in> ?M" for i using that M by auto
  have m: "{i \<in> ?M. \<not> ?d i} = msk" by (auto simp: msk_def)
  have img: "?p ` msk = pcs' ` msk" using p by (auto simp: msk_def image_def)
  obtain paths where dp: "divergent_paths ws ?d ?p ?M [] 0 = Some (paths, card (pcs' ` msk))"
    and sp: "set paths = (\<lambda>q. (q, lanes_at ?d ?p ?M q)) ` pcs' ` msk" and di: "distinct (map fst paths)"
    using divergent_paths_eq [OF M(1), of ?d ?p "[]" 0] p live(3) unfolding m img by auto
  have la: "lanes_at ?d ?p ?M q = {i \<in> msk. pcs' i = q}" for q using p by (auto simp: lanes_at_def msk_def)
  have fin: "finite (pcs' ` msk)" using M(1) by (auto simp: msk_def intro: finite_subset)
  let ?n = "card (pcs' ` msk)"
  have up: "simt_update now ws ?d (map pcs' [0..<ws]) recvg_pc op isize (se_pc (hd s)) s =
      path_loop now op ?n e recvg_pc (se_pc e + isize) [0..<?n] paths (e # es, False, null_pc)"
    using dp two(1) M(2) by (simp add: simt_update_def s)
  have "card (set paths) = ?n" unfolding sp by (rule card_image) (simp add: inj_on_def)
  then have len: "length paths = ?n" using di distinct_card [of paths] by (simp add: distinct_map)
  consider "?n = 0" | "?n = 1" | "?n = 2" using two(1) by linarith
  then show ?thesis
  proof cases
    case 1
    then have e0: "msk = {}" using fin by simp
    then have "\<forall>t \<in> live'. at_entry t (pcs' t) es" using tr' by (auto simp: msk_def)
    with up 1 ok' show ?thesis by simp
  next
    case 2
    then obtain pc where pc: "pcs' ` msk = {pc}" by (auto simp: card_1_singleton_iff)
    with sp la have "set paths = {(pc, {i \<in> msk. pcs' i = pc})}" by simp
    moreover have "{i \<in> msk. pcs' i = pc} = msk" using pc by auto
    ultimately have ps: "paths = [(pc, msk)]" using len 2 by (cases paths) auto
    have mne: "msk \<noteq> {}" "\<forall>t \<in> msk. pcs' t = pc" "pc \<noteq> null_pc" using pc live(3) by (auto simp: msk_def)
    have "op = RET_OPS \<and> se_type e = STACK_ENTRY_TYPE_CALL \<longrightarrow> es \<noteq> []" using ok' by auto
    from one_path_loop [OF this] up ps 2
    have "simt_update now ws ?d (map pcs' [0..<ws]) recvg_pc op isize (se_pc (hd s)) s = Some (one_path now op pc msk e es)"
      by simp
    with one_path_follows [OF ok' tr' msk_def mne] show ?thesis by blast
  next
    case 3
    then obtain p1 p2 where p12: "pcs' ` msk = {p1, p2}" "p1 \<noteq> p2" by (auto simp: card_2_iff)
    obtain q1 q2 where "paths = [q1, q2]" using len 3 by (auto simp: length_Suc_conv numeral_2_eq_2)
    then obtain x1 A1 x2 A2 where ps: "paths = [(x1, A1), (x2, A2)]" by (cases q1; cases q2) auto
    have x12: "x1 \<noteq> x2" using di ps by simp
    have A: "(x, A) \<in> {(x1, A1), (x2, A2)} \<Longrightarrow> A = {i \<in> msk. pcs' i = x} \<and> x \<in> pcs' ` msk" for x A
      using sp la ps by auto
    have im: "pcs' ` msk = {x1, x2}" using A [of x1 A1] A [of x2 A2] p12 x12 by auto
    note t = two(2) [OF 3]
    have rt: "\<not> (op = RET_OPS \<and> se_type e = STACK_ENTRY_TYPE_CALL)" using t by auto
    have parts: "A \<union> B = ?M \<inter> live' \<and> A \<inter> B = {} \<and> A \<noteq> {} \<and> B \<noteq> {} \<and> (\<forall>t \<in> A. pcs' t = x) \<and> (\<forall>t \<in> B. pcs' t = y)"
      if "{(x, A), (y, B)} = {(x1, A1), (x2, A2)}" "x \<noteq> y" for x y A B
    proof -
      have a: "A = {i \<in> msk. pcs' i = x}" "x \<in> pcs' ` msk" "B = {i \<in> msk. pcs' i = y}" "y \<in> pcs' ` msk"
        using A [of x A, folded that(1)] A [of y B, folded that(1)] by simp_all
      have "{x, y} = {x1, x2}" using arg_cong [OF that(1), of "image fst"] by simp
      then have "pcs' i = x \<or> pcs' i = y" if "i \<in> msk" for i using im that by blast
      then have "A \<union> B = msk" using a(1,3) by blast
      moreover have "A \<inter> B = {}" "A \<noteq> {}" "B \<noteq> {}" "\<forall>t \<in> A. pcs' t = x" "\<forall>t \<in> B. pcs' t = y"
        using a that(2) by blast+
      ultimately show ?thesis unfolding msk_def by blast
    qed
    show ?thesis
    proof (cases "recvg_pc = se_recvg_pc e")
      case True
      with t ok' have n: "se_type e = STACK_ENTRY_TYPE_NORMAL" by (cases "se_type e") auto
      obtain x A y B where l: "{(x, A), (y, B)} = {(x1, A1), (x2, A2)}" "x \<noteq> y"
        "path_loop now op 2 e recvg_pc (se_pc e + isize) [0, 1] [(x1, A1), (x2, A2)] (e # es, False, null_pc) = Some (
         (if y \<noteq> recvg_pc \<and> x \<noteq> recvg_pc
          then [simt_stack_entry_new\<lparr>se_pc := y, se_active_mask := B, se_recvg_pc := recvg_pc\<rparr>] else []) @
         (if x \<noteq> recvg_pc then e\<lparr>se_pc := x, se_active_mask := A, se_calldepth := 0\<rparr>
          else e\<lparr>se_pc := y, se_active_mask := B, se_calldepth := 0\<rparr>) # es)"
        using two_path_loop_same [OF _ x12 n True] t by metis
      from parts [OF l(1,2)] two_paths_follow_same [OF ok' tr' _ _ _ _ _ _ n True [symmetric] _ l(2) refl, of A B] t l(3)
      show ?thesis using up ps 3 by (simp add: upt_rec numeral_2_eq_2)
    next
      case False
      have "se_type e = STACK_ENTRY_TYPE_CALL \<or> se_recvg_pc e \<notin> {x1, x2}" using t False im by auto
      then obtain x A y B where l: "{(x, A), (y, B)} = {(x1, A1), (x2, A2)}" "x \<noteq> y"
        "path_loop now op 2 e recvg_pc (se_pc e + isize) [0, 1] [(x1, A1), (x2, A2)] (e # es, False, null_pc) =
         Some (path_entries recvg_pc [(x, A), (y, B)] @ e\<lparr>se_pc := recvg_pc, se_branch_div_cycle := now\<rparr> # es)"
        using two_path_loop_new [OF _ rt x12 False] t by metis
      from parts [OF l(1,2)] two_paths_follow_new [OF ok' tr',
          of A B x y "e\<lparr>se_pc := recvg_pc, se_branch_div_cycle := now\<rparr>" recvg_pc] l(3)
      show ?thesis using up ps 3 by (simp add: upt_rec numeral_2_eq_2)
    qed
  qed
qed

lemma simt_reachable_follows:
  assumes "simt_reachable ws s live pcs"
  shows "stack_ok ws live s \<and> (\<forall>t \<in> live. at_entry t (pcs t) s)"
  using assms
proof induction
  case (launched active pc s)
  then show ?case by (simp add: simt_launch_def simt_stack_entry_new_def null_pc_def)
next
  case (updated s live pcs op recvg_pc live' pcs' now isize s')
  from updated.IH simt_update_follows [OF _ _ updated.hyps(2), of ws now isize] updated.hyps(3)
  show ?case by auto
qed

text \<open>
  Property C2: the reconvergence stack executes each thread where the thread is. In every state a warp
  reaches, however its threads branched, called, returned and ended, each live thread is at the
  program counter of the topmost entry it is active in, so all live lanes of the top entry are at its
  program counter; and the next update never aborts, whatever its threads do, as long as branches
  reconverge at their post-dominators.
\<close>

theorem simt_stack_follows_threads:
  assumes "simt_reachable ws s live pcs"
  shows "(\<forall>t \<in> live. \<exists>e. topmost t s = Some e \<and> se_pc e = pcs t) \<and>
    (\<forall>t \<in> live. s \<noteq> [] \<and> t \<in> se_active_mask (hd s) \<longrightarrow> pcs t = se_pc (hd s)) \<and>
    (legal_step s live pcs op recvg_pc live' pcs' \<longrightarrow>
      (\<exists>s'. simt_update now ws (\<lambda>t. t \<notin> live') (map pcs' [0..<ws]) recvg_pc op isize (se_pc (hd s)) s = Some s' \<and>
        simt_reachable ws s' live' pcs'))"
proof (intro conjI impI)
  note f = simt_reachable_follows [OF assms]
  then show "\<forall>t \<in> live. \<exists>e. topmost t s = Some e \<and> se_pc e = pcs t" by (simp add: at_entry_def)
  show "\<forall>t \<in> live. s \<noteq> [] \<and> t \<in> se_active_mask (hd s) \<longrightarrow> pcs t = se_pc (hd s)"
    using f by (cases s) auto
  show "\<exists>s'. simt_update now ws (\<lambda>t. t \<notin> live') (map pcs' [0..<ws]) recvg_pc op isize (se_pc (hd s)) s = Some s' \<and>
      simt_reachable ws s' live' pcs'" if "legal_step s live pcs op recvg_pc live' pcs'"
    using simt_update_follows [OF conjunct1 [OF f] conjunct2 [OF f] that, of now isize]
      simt_reachable.updated [OF assms that] by blast
qed

subsection \<open>Sample runs\<close>

text \<open>Four lanes; lanes 2 and 3 take a branch at \<open>0x100\<close> that reconverges at \<open>0x200\<close>.\<close>

definition branch_pcs :: "nat \<Rightarrow> address_type" where
  "branch_pcs t = (if t < 2 then 0x108 else 0x180)"

theorem simt_stack_follows_threads_witness:
  "\<exists>s'. simt_update 0 4 (\<lambda>t. t \<notin> {0, 1, 2, 3}) (map branch_pcs [0..<4]) 0x200 BRANCH_OP 8 0x100
      (simt_launch 0x100 {0, 1, 2, 3} []) = Some s' \<and> simt_reachable 4 s' {0, 1, 2, 3} branch_pcs"
proof -
  have r: "simt_reachable 4 (simt_launch 0x100 {0, 1, 2, 3} []) {0, 1, 2, 3} (\<lambda>_. 0x100)"
    by (rule simt_reachable.launched) auto
  have "branch_pcs ` {0, 1, 2, 3} = {0x108, 0x180}" by (auto simp: branch_pcs_def)
  then have "legal_step (simt_launch 0x100 {0, 1, 2, 3} []) {0, 1, 2, 3} (\<lambda>_. 0x100) BRANCH_OP 0x200
      {0, 1, 2, 3} branch_pcs"
    by (auto simp: legal_step_def simt_launch_def simt_stack_entry_new_def null_pc_def branch_pcs_def Let_def)
  with simt_stack_follows_threads [OF r, of BRANCH_OP "0x200" "{0, 1, 2, 3}" branch_pcs 0 8]
  show ?thesis by (simp add: simt_launch_def)
qed

text \<open>
  A call at \<open>0x100\<close>, a branch in the callee that reconverges at the return address, and the returns of
  both paths.
\<close>

definition call_branch_return :: "simt_stack option" where
  "call_branch_return = (let run = (\<lambda>pcs recvg op pc s. simt_update 0 2 (\<lambda>t. False) pcs recvg op 8 pc s) in do {
     s \<leftarrow> run [0x400, 0x400] (- 1) CALL_OPS 0x100 (simt_launch 0x100 {0, 1} []);
     s \<leftarrow> run [0x408, 0x480] 0x108 BRANCH_OP 0x400 s;
     s \<leftarrow> run [0x108, 0x108] (- 1) RET_OPS (se_pc (hd s)) s;
     run [0x108, 0x108] (- 1) RET_OPS (se_pc (hd s)) s
   })"

text \<open>
  A call that returns while its lanes have parted is never popped. Both paths return to
  their reconvergence point, which is the return address, so they only reconverge there; the entry of
  the call is not on top when the returns are executed and goes on executing the caller's code, one
  more entry on the stack after each such call.
\<close>

theorem call_branch_return_leaves_call:
  "map_option (map (\<lambda>e. (se_pc e, se_type e))) call_branch_return =
     Some [(0x108, STACK_ENTRY_TYPE_CALL), (0x100, STACK_ENTRY_TYPE_NORMAL)]"
  by code_simp

end
