(* ===== verification/Kernel_Launch.thy ===== *)
theory Kernel_Launch
  imports Sim_Prelude
begin

unbundle bit_operations_syntax

text \<open>
  Work distribution: the grid of a kernel as \<open>kernel_info_t\<close> walks it
  (\<open>abstract_hardware_model.h\<close>), the slots of running kernels of \<open>gpgpu_sim\<close> (\<open>gpu-sim.cc\<close>), the number of
  CTAs a core takes and the place of a CTA in it (\<open>shader_core_config::max_cta\<close>,
  \<open>shader_core_ctx::issue_block2core\<close>), and the addresses of local memory
  (\<open>shader_core_ctx::translate_local_memaddr\<close>). Running kernels are shared between the
  slots and the cores, so they live in a list and are referred to by position.
\<close>

subsection \<open>The grid of a kernel\<close>

record dim3 =
  d_x :: u32
  d_y :: u32
  d_z :: u32

definition dim0 :: dim3 where
  "dim0 = \<lparr>d_x = 0, d_y = 0, d_z = 0\<rparr>"

definition increment_x_then_y_then_z :: "dim3 \<Rightarrow> dim3 \<Rightarrow> dim3" where
  "increment_x_then_y_then_z i bound =
     (let i = i\<lparr>d_x := d_x i + 1\<rparr> in
      if d_x i \<ge> d_x bound then
        (let i = i\<lparr>d_x := 0, d_y := d_y i + 1\<rparr> in
         if d_y i \<ge> d_y bound then
           (let i = i\<lparr>d_y := 0\<rparr> in if d_z i < d_z bound then i\<lparr>d_z := d_z i + 1\<rparr> else i)
         else i)
      else i)"

text \<open>A functional thread, as far as the launch sets it.\<close>

record ptx_thread =
  th_ctaid :: dim3
  th_tid :: dim3
  th_local :: u32
  th_done :: bool

record kernel_info =
  ki_uid :: u32
  grid_dim :: dim3
  block_dim :: dim3
  next_cta :: dim3
  next_tid :: dim3
  num_cores_running :: u32
  active_threads :: "ptx_thread list"

text \<open>The second component is \<open>m_next_uid\<close>; the parameter memory is a \<open>memory_space_impl\<close> of its own.\<close>

definition kernel_info_new :: "dim3 \<Rightarrow> dim3 \<Rightarrow> u32 \<Rightarrow> kernel_info \<times> u32" where
  "kernel_info_new gridDim blockDim next_uid =
     (\<lparr>ki_uid = next_uid, grid_dim = gridDim, block_dim = blockDim, next_cta = dim0, next_tid = dim0,
       num_cores_running = 0, active_threads = []\<rparr>, next_uid + 1)"

definition inc_running :: "kernel_info \<Rightarrow> kernel_info" where
  "inc_running k = k\<lparr>num_cores_running := num_cores_running k + 1\<rparr>"

definition dec_running :: "kernel_info \<Rightarrow> kernel_info option" where
  "dec_running k = do {
     require (num_cores_running k > 0);
     Some (k\<lparr>num_cores_running := num_cores_running k - 1\<rparr>) }"

definition running :: "kernel_info \<Rightarrow> bool" where
  "running k \<longleftrightarrow> num_cores_running k > 0"

definition no_more_ctas_to_run :: "kernel_info \<Rightarrow> bool" where
  "no_more_ctas_to_run k \<longleftrightarrow> d_x (next_cta k) \<ge> d_x (grid_dim k) \<or> d_y (next_cta k) \<ge> d_y (grid_dim k) \<or>
     d_z (next_cta k) \<ge> d_z (grid_dim k)"

definition kernel_done :: "kernel_info \<Rightarrow> bool" where
  "kernel_done k \<longleftrightarrow> no_more_ctas_to_run k \<and> \<not> running k"

definition num_blocks :: "kernel_info \<Rightarrow> u32" where
  "num_blocks k = d_x (grid_dim k) * d_y (grid_dim k) * d_z (grid_dim k)"

definition threads_per_cta :: "kernel_info \<Rightarrow> u32" where
  "threads_per_cta k = d_x (block_dim k) * d_y (block_dim k) * d_z (block_dim k)"

definition increment_cta_id :: "kernel_info \<Rightarrow> kernel_info" where
  "increment_cta_id k = k\<lparr>next_cta := increment_x_then_y_then_z (next_cta k) (grid_dim k), next_tid := dim0\<rparr>"

definition increment_thread_id :: "kernel_info \<Rightarrow> kernel_info" where
  "increment_thread_id k = k\<lparr>next_tid := increment_x_then_y_then_z (next_tid k) (block_dim k)\<rparr>"

definition get_next_thread_id :: "kernel_info \<Rightarrow> u32" where
  "get_next_thread_id k = d_x (next_tid k) + d_x (block_dim k) * d_y (next_tid k) +
     d_x (block_dim k) * d_y (block_dim k) * d_z (next_tid k)"

definition more_threads_in_cta :: "kernel_info \<Rightarrow> bool" where
  "more_threads_in_cta k \<longleftrightarrow> d_z (next_tid k) < d_z (block_dim k) \<and> d_y (next_tid k) < d_y (block_dim k) \<and>
     d_x (next_tid k) < d_x (block_dim k)"

definition tw_next_cta_num :: "kernel_info \<Rightarrow> u32" where
  "tw_next_cta_num k = d_x (next_cta k) + d_y (next_cta k) * d_x (grid_dim k) +
     d_z (next_cta k) * d_x (grid_dim k) * d_y (grid_dim k)"

subsection \<open>Threads\<close>

text \<open>
  \<open>ptx_sim_init_thread\<close> (\<open>cuda-sim.cc\<close>): the threads of a CTA are made when its first thread is asked for and then handed out one by one. The memories and the
  \<open>ptx_cta_info\<close> it looks up are left out. The fuel of the loop is the number of threads.
\<close>

fun make_threads :: "nat \<Rightarrow> u32 \<Rightarrow> kernel_info \<Rightarrow> kernel_info option" where
  "make_threads fuel tid k =
     (if more_threads_in_cta k then
        (case fuel of
           0 \<Rightarrow> None
         | Suc fuel \<Rightarrow>
             (let th = \<lparr>th_ctaid = next_cta k, th_tid = next_tid k, th_local = get_next_thread_id k + tid, th_done = False\<rparr>
              in make_threads fuel tid ((increment_thread_id k)\<lparr>active_threads := active_threads k @ [th]\<rparr>)))
      else Some k)"

declare make_threads.simps [simp del]

definition dim_size :: "dim3 \<Rightarrow> nat" where
  "dim_size b = unat (d_x b) * unat (d_y b) * unat (d_z b)"

definition ptx_sim_init_thread :: "u32 \<Rightarrow> u32 \<Rightarrow> u32 \<Rightarrow> ptx_thread option \<Rightarrow> kernel_info \<Rightarrow>
    (u32 \<times> ptx_thread option \<times> kernel_info) option" where
  "ptx_sim_init_thread tid threads_left num_threads old k = do {
     require (case old of None \<Rightarrow> True | Some th \<Rightarrow> th_done th);
     if active_threads k \<noteq> [] then do {
       require (length (active_threads k) \<le> unat threads_left);
       Some (1, Some (hd (active_threads k)), k\<lparr>active_threads := tl (active_threads k)\<rparr>) }
     else if no_more_ctas_to_run k then Some (0, None, k)
     else if threads_left < threads_per_cta k then Some (0, None, k)
     else do {
       require (threads_per_cta k \<noteq> 0);
       require (num_threads div threads_per_cta k > 0);
       k \<leftarrow> make_threads (dim_size (block_dim k)) tid k;
       let k = increment_cta_id k;
       require (length (active_threads k) \<le> unat threads_left);
       require (active_threads k \<noteq> []);
       Some (1, Some (hd (active_threads k)), k\<lparr>active_threads := tl (active_threads k)\<rparr>) } }"

subsection \<open>Running kernels\<close>

record gpu_launcher =
  kernels :: "kernel_info list"
  running_kernels :: "nat option list"
  last_issued_kernel :: nat
  finished_kernels :: "u32 list"
  total_cta_launched :: nat
  n_executed_uids :: "u32 list"

definition launcher_new :: "nat \<Rightarrow> gpu_launcher" where
  "launcher_new max_concurrent = \<lparr>kernels = [], running_kernels = replicate max_concurrent None,
     last_issued_kernel = 0, finished_kernels = [], total_cta_launched = 0, n_executed_uids = []\<rparr>"

text \<open>A slot that is empty or holds a kernel that is done.\<close>

definition slot_free :: "gpu_launcher \<Rightarrow> nat option \<Rightarrow> bool" where
  "slot_free g slot = (case slot of None \<Rightarrow> True | Some p \<Rightarrow> kernel_done (kernels g ! p))"

definition slot_has_work :: "gpu_launcher \<Rightarrow> nat option \<Rightarrow> bool" where
  "slot_has_work g slot = (case slot of None \<Rightarrow> False | Some p \<Rightarrow> \<not> no_more_ctas_to_run (kernels g ! p))"

fun first_index :: "('a \<Rightarrow> bool) \<Rightarrow> 'a list \<Rightarrow> nat option" where
  "first_index P [] = None"
| "first_index P (x # xs) = (if P x then Some 0 else map_option Suc (first_index P xs))"

definition launch :: "u32 \<Rightarrow> kernel_info \<Rightarrow> gpu_launcher \<Rightarrow> gpu_launcher option" where
  "launch n_thread_per_shader kinfo g = do {
     require (threads_per_cta kinfo \<le> n_thread_per_shader);
     n \<leftarrow> first_index (slot_free g) (running_kernels g);
     Some (g\<lparr>kernels := kernels g @ [kinfo], running_kernels := (running_kernels g)[n := Some (length (kernels g))]\<rparr>) }"

definition can_start_kernel :: "gpu_launcher \<Rightarrow> bool" where
  "can_start_kernel g \<longleftrightarrow> (\<exists>slot \<in> set (running_kernels g). slot_free g slot)"

definition get_more_cta_left :: "nat \<Rightarrow> gpu_launcher \<Rightarrow> bool" where
  "get_more_cta_left gpu_max_cta_opt g \<longleftrightarrow> (gpu_max_cta_opt \<noteq> 0 \<longrightarrow> total_cta_launched g < gpu_max_cta_opt) \<and>
     (\<exists>slot \<in> set (running_kernels g). slot_has_work g slot)"

text \<open>The slots in the order in which the round robin looks at them.\<close>

definition select_order :: "gpu_launcher \<Rightarrow> nat list" where
  "select_order g = map (\<lambda>n. (n + last_issued_kernel g + 1) mod length (running_kernels g)) [0..<length (running_kernels g)]"

definition select_kernel :: "gpu_launcher \<Rightarrow> nat option \<times> gpu_launcher" where
  "select_kernel g = (case find (\<lambda>idx. slot_has_work g (running_kernels g ! idx)) (select_order g) of
     None \<Rightarrow> (None, g)
   | Some idx \<Rightarrow> (case running_kernels g ! idx of
       None \<Rightarrow> (None, g)
     | Some p \<Rightarrow> (Some p, g\<lparr>last_issued_kernel := idx,
         n_executed_uids := (if ki_uid (kernels g ! p) \<in> set (n_executed_uids g) then n_executed_uids g
           else n_executed_uids g @ [ki_uid (kernels g ! p)])\<rparr>)))"

definition finished_kernel :: "gpu_launcher \<Rightarrow> u32 \<times> gpu_launcher" where
  "finished_kernel g = (case finished_kernels g of [] \<Rightarrow> (0, g) | uid # uids \<Rightarrow> (uid, g\<lparr>finished_kernels := uids\<rparr>))"

definition set_kernel_done :: "nat \<Rightarrow> gpu_launcher \<Rightarrow> gpu_launcher option" where
  "set_kernel_done p g = do {
     let g = g\<lparr>finished_kernels := finished_kernels g @ [ki_uid (kernels g ! p)]\<rparr>;
     n \<leftarrow> first_index (\<lambda>slot. slot = Some p) (running_kernels g);
     Some (g\<lparr>running_kernels := (running_kernels g)[n := None]\<rparr>) }"

subsection \<open>CTAs of a core\<close>

record core_limits =
  n_thread_per_shader :: u32
  warp_size :: u32
  gpgpu_shmem_size :: u32
  gpgpu_shader_registers :: u32
  max_cta_per_core :: u32
  n_simt_clusters :: u32
  n_simt_cores_per_cluster :: u32
  gpgpu_local_mem_map :: bool

definition MAX_CTA_PER_SHADER :: u32 where "MAX_CTA_PER_SHADER = 32"

definition num_shader :: "core_limits \<Rightarrow> u32" where
  "num_shader c = n_simt_clusters c * n_simt_cores_per_cluster c"

definition padded_size :: "core_limits \<Rightarrow> u32 \<Rightarrow> u32" where
  "padded_size c n = (if n mod warp_size c \<noteq> 0 then (n div warp_size c + 1) * warp_size c else n)"

text \<open>\<open>smem\<close> and \<open>regs\<close> are what the kernel uses; \<open>None\<close> is a division by zero or the abort.\<close>

definition reg_need :: "core_limits \<Rightarrow> u32 \<Rightarrow> kernel_info \<Rightarrow> u32" where
  "reg_need c regs k = padded_size c (threads_per_cta k) * ((regs + 3) AND NOT 3)"

definition cta_limit :: "core_limits \<Rightarrow> u32 \<Rightarrow> u32 \<Rightarrow> kernel_info \<Rightarrow> u32" where
  "cta_limit c smem regs k =
     (let result_thread = n_thread_per_shader c div padded_size c (threads_per_cta k);
          result_shmem = (if smem > 0 then gpgpu_shmem_size c div smem else - 1);
          result_regs = (if regs > 0 then gpgpu_shader_registers c div reg_need c regs k else - 1)
      in min (min (min result_thread result_shmem) result_regs) (max_cta_per_core c))"

definition max_cta :: "core_limits \<Rightarrow> u32 \<Rightarrow> u32 \<Rightarrow> kernel_info \<Rightarrow> u32 option" where
  "max_cta c smem regs k = do {
     require (warp_size c \<noteq> 0);
     require (padded_size c (threads_per_cta k) \<noteq> 0);
     require (regs > 0 \<longrightarrow> reg_need c regs k \<noteq> 0);
     let result = cta_limit c smem regs k;
     let result = (if num_blocks k < result * num_shader c
       then num_blocks k div num_shader c + (if num_blocks k mod num_shader c \<noteq> 0 then 1 else 0) else result);
     require (result \<le> MAX_CTA_PER_SHADER);
     require (result \<ge> 1);
     Some result }"

record core_ctas =
  cc_max_cta :: u32
  cc_padded :: u32
  cta_status :: "u32 list"
  n_active_cta :: u32
  cta_num_in_kernel :: "u32 list"
  threads :: "ptx_thread option list"

definition set_max_cta :: "core_limits \<Rightarrow> u32 \<Rightarrow> u32 \<Rightarrow> kernel_info \<Rightarrow> core_ctas \<Rightarrow> core_ctas option" where
  "set_max_cta c smem regs k s = do {
     n \<leftarrow> max_cta c smem regs k;
     Some (s\<lparr>cc_max_cta := n, cc_padded := padded_size c (threads_per_cta k)\<rparr>) }"

text \<open>The loop of \<open>issue_block2core\<close> over the hardware threads; the last component counts them.\<close>

definition bind_thread :: "core_limits \<Rightarrow> u32 \<Rightarrow> nat \<Rightarrow> nat \<Rightarrow> core_ctas \<times> kernel_info \<times> u32 \<Rightarrow>
    (core_ctas \<times> kernel_info \<times> u32) option" where
  "bind_thread c cta_size start_thread i = (\<lambda>(s, k, n). do {
     old \<leftarrow> nth_opt (threads s) i;
     (r, th, k) \<leftarrow> ptx_sim_init_thread (of_nat i) (cta_size - of_nat (i - start_thread)) (n_thread_per_shader c) old k;
     Some (s\<lparr>threads := (threads s)[i := th]\<rparr>, k, n + r) })"

text \<open>
  \<open>issue_block2core\<close> up to the warps: the CTA's number, its first and last thread, the bound threads. The
  warps it returns are allocated by \<open>allocate_barrier\<close> and started by \<open>init_warps\<close>.
\<close>

definition issue_block2core :: "core_limits \<Rightarrow> u32 \<Rightarrow> u32 \<Rightarrow> core_ctas \<times> kernel_info \<Rightarrow>
    (nat \<times> nat set \<times> core_ctas \<times> kernel_info) option" where
  "issue_block2core c smem regs = (\<lambda>(s, k). do {
     s \<leftarrow> set_max_cta c smem regs k s;
     free \<leftarrow> first_index (\<lambda>n. n = 0) (take (unat (cc_max_cta s)) (cta_status s));
     let cta_size = threads_per_cta k;
     let start_thread = unat (of_nat free * padded_size c cta_size);
     let end_thread = unat (of_nat start_thread + cta_size);
     let s = s\<lparr>cta_num_in_kernel := (cta_num_in_kernel s)[free := tw_next_cta_num k]\<rparr>;
     (s, k, n) \<leftarrow> foldM (bind_thread c cta_size start_thread) [start_thread..<end_thread] (s, k, 0);
     require (n > 0 \<and> n \<le> n_thread_per_shader c);
     Some (free, (\<lambda>i. i div unat (warp_size c)) ` {start_thread..<end_thread},
       s\<lparr>cta_status := (cta_status s)[free := n], n_active_cta := n_active_cta s + 1\<rparr>, k) })"

subsection \<open>Local memory\<close>

definition LOCAL_GENERIC_START :: u32 where
  "LOCAL_GENERIC_START = 0x80000000 - 64 * 64 * 1024 - 64 * 2048 * 8 * 1024"

definition thread_base :: "core_limits \<Rightarrow> core_ctas \<Rightarrow> u32 \<Rightarrow> u32 \<Rightarrow> u32" where
  "thread_base c s sid tid = (if gpgpu_local_mem_map c
     then 4 * (cc_padded s * (sid + num_shader c * (tid div cc_padded s)) + tid mod cc_padded s)
     else 4 * (n_thread_per_shader c * sid + tid))"

definition max_concurrent_threads :: "core_limits \<Rightarrow> core_ctas \<Rightarrow> u32" where
  "max_concurrent_threads c s = (if gpgpu_local_mem_map c then cc_padded s * cc_max_cta s * num_shader c
     else num_shader c * n_thread_per_shader c)"

definition translate_local_memaddr :: "core_limits \<Rightarrow> core_ctas \<Rightarrow> u32 \<Rightarrow> u32 \<Rightarrow> u32 \<Rightarrow> u32 \<Rightarrow> u64 list option" where
  "translate_local_memaddr c s sid localaddr tid datasize = do {
     require (gpgpu_local_mem_map c \<longrightarrow> cc_padded s \<noteq> 0);
     let base = thread_base c s sid tid;
     let n = max_concurrent_threads c s;
     require (base < 4 * n);
     if datasize \<ge> 4 then do {
       require (datasize mod 4 = 0);
       require (datasize div 4 \<le> 8);
       require (localaddr mod 4 = 0);
       Some (map (\<lambda>i. ucast ((localaddr div 4 + of_nat i) * n * 4 + base + LOCAL_GENERIC_START)) [0..<unat (datasize div 4)]) }
     else do {
       require (datasize > 0);
       require ((localaddr + datasize - 1) div 4 = localaddr div 4);
       Some [ucast (localaddr div 4 * n * 4 + localaddr mod 4 + base + LOCAL_GENERIC_START)] } }"

subsection \<open>The walk over a grid\<close>

text \<open>The position with linear number \<open>n\<close>; \<open>x\<close> runs fastest.\<close>

definition pos :: "dim3 \<Rightarrow> nat \<Rightarrow> dim3" where
  "pos b n = \<lparr>d_x = of_nat (n mod unat (d_x b)), d_y = of_nat (n div unat (d_x b) mod unat (d_y b)),
     d_z = of_nat (n div unat (d_x b) div unat (d_y b))\<rparr>"

definition proper :: "dim3 \<Rightarrow> bool" where
  "proper b \<longleftrightarrow> d_x b \<noteq> 0 \<and> d_y b \<noteq> 0 \<and> d_z b \<noteq> 0"

lemma unat_of_nat_le: "n \<le> unat b \<Longrightarrow> unat (of_nat n :: u32) = n" for b :: u32
  using unat_u32_less [of b] by (simp add: unat_of_nat)

lemma unat_of_nat_less: "n < 2 ^ 32 \<Longrightarrow> unat (of_nat n :: u32) = n"
  by (simp add: unat_of_nat)

lemma pos_0 [simp]: "pos b 0 = dim0"
  by (simp add: pos_def dim0_def)

lemma pos_bounds:
  assumes "proper b" and "n < dim_size b"
  shows "n mod unat (d_x b) < unat (d_x b)" and "n div unat (d_x b) mod unat (d_y b) < unat (d_y b)"
    and "n div unat (d_x b) div unat (d_y b) < unat (d_z b)"
proof -
  show "n mod unat (d_x b) < unat (d_x b)" "n div unat (d_x b) mod unat (d_y b) < unat (d_y b)"
    using assms(1) by (simp_all add: proper_def unat_gt_0)
  have "n < unat (d_z b) * (unat (d_x b) * unat (d_y b))" using assms(2) by (simp add: dim_size_def mult_ac)
  then show "n div unat (d_x b) div unat (d_y b) < unat (d_z b)"
    by (simp only: div_mult2_eq [symmetric]) (rule less_mult_imp_div_less)
qed

lemma pos_unat:
  assumes "proper b" and "n \<le> dim_size b"
  shows "unat (d_x (pos b n)) = n mod unat (d_x b)" and "unat (d_y (pos b n)) = n div unat (d_x b) mod unat (d_y b)"
    and "unat (d_z (pos b n)) = n div unat (d_x b) div unat (d_y b)"
proof -
  have nz: "0 < unat (d_x b)" "0 < unat (d_y b)" using assms(1) by (simp_all add: proper_def unat_gt_0)
  then show "unat (d_x (pos b n)) = n mod unat (d_x b)" "unat (d_y (pos b n)) = n div unat (d_x b) mod unat (d_y b)"
    by (simp_all add: pos_def unat_of_nat_le [of _ "d_x b"] unat_of_nat_le [of _ "d_y b"] less_imp_le)
  have "n div (unat (d_x b) * unat (d_y b)) \<le> dim_size b div (unat (d_x b) * unat (d_y b))"
    by (rule div_le_mono [OF assms(2)])
  also have "\<dots> = unat (d_z b)" using nz by (simp add: dim_size_def)
  finally show "unat (d_z (pos b n)) = n div unat (d_x b) div unat (d_y b)"
    by (simp add: pos_def div_mult2_eq [symmetric] unat_of_nat_le)
qed

lemma unat_Suc: "unat w < unat b \<Longrightarrow> unat (w + 1) = Suc (unat w)" for w b :: u32
  using unat_u32_less [of b] by (simp add: unat_word_ariths)

lemma dim3_eq: "i = j \<longleftrightarrow> unat (d_x i) = unat (d_x j) \<and> unat (d_y i) = unat (d_y j) \<and> unat (d_z i) = unat (d_z j)"
  for i j :: dim3
  by (cases i; cases j) (simp add: word_unat_eq_iff)

lemma increment_pos:
  assumes "proper b" and "n < dim_size b"
  shows "increment_x_then_y_then_z (pos b n) b = pos b (Suc n)"
proof -
  let ?X = "unat (d_x b)" and ?Y = "unat (d_y b)" and ?p = "pos b n"
  note bnd = pos_bounds [OF assms] and u = pos_unat [OF assms(1) less_imp_le [OF assms(2)]]
    and u' = pos_unat [OF assms(1) Suc_leI [OF assms(2)]]
  have sx: "unat (d_x ?p + 1) = Suc (n mod ?X)" using unat_Suc [of "d_x ?p" "d_x b"] u bnd by simp
  have sy: "unat (d_y ?p + 1) = Suc (n div ?X mod ?Y)" using unat_Suc [of "d_y ?p" "d_y b"] u bnd by simp
  have sz: "unat (d_z ?p + 1) = Suc (n div ?X div ?Y)" using unat_Suc [of "d_z ?p" "d_z b"] u bnd by simp
  show ?thesis
    using bnd sx sy sz u
    by (auto simp: dim3_eq u' increment_x_then_y_then_z_def Let_def word_le_nat_alt word_less_nat_alt mod_Suc div_Suc)
qed

lemma pos_linear:
  "d_x (pos b n) + d_y (pos b n) * d_x b + d_z (pos b n) * d_x b * d_y b = of_nat n"
proof -
  let ?X = "unat (d_x b)" and ?Y = "unat (d_y b)"
  have "n mod ?X + (n div ?X mod ?Y + n div ?X div ?Y * ?Y) * ?X = n" by simp
  then have "(of_nat n :: u32) = of_nat (n mod ?X + (n div ?X mod ?Y + n div ?X div ?Y * ?Y) * ?X)" by metis
  also have "\<dots> = of_nat (n mod ?X) + (of_nat (n div ?X mod ?Y) + of_nat (n div ?X div ?Y) * d_y b) * d_x b"
    by (simp only: of_nat_add of_nat_mult of_nat_unat ucast_id)
  finally show ?thesis by (simp add: pos_def algebra_simps)
qed

lemma pos_inside:
  assumes "proper b" and "n \<le> dim_size b"
  shows "(d_x b \<le> d_x (pos b n) \<or> d_y b \<le> d_y (pos b n) \<or> d_z b \<le> d_z (pos b n)) \<longleftrightarrow> n = dim_size b"
proof (cases "n = dim_size b")
  case True
  have "0 < unat (d_x b)" "0 < unat (d_y b)" using assms(1) by (simp_all add: proper_def unat_gt_0)
  with True show ?thesis using pos_unat(3) [OF assms] by (simp add: word_le_nat_alt dim_size_def)
next
  case False
  then have "n < dim_size b" using assms(2) by simp
  from pos_bounds [OF assms(1) this] pos_unat [OF assms] False show ?thesis by (simp add: word_le_nat_alt)
qed

lemma walk_pos:
  assumes "proper b" shows "n \<le> dim_size b \<Longrightarrow> ((\<lambda>i. increment_x_then_y_then_z i b) ^^ n) dim0 = pos b n"
  by (induction n) (simp_all add: increment_pos [OF assms])

subsection \<open>The threads of a CTA\<close>

definition thread_of :: "kernel_info \<Rightarrow> u32 \<Rightarrow> nat \<Rightarrow> ptx_thread" where
  "thread_of k tid m = \<lparr>th_ctaid = next_cta k, th_tid = pos (block_dim k) m, th_local = of_nat m + tid, th_done = False\<rparr>"

lemma thread_of_update [simp]:
  "thread_of (k\<lparr>next_tid := t, active_threads := ths\<rparr>) = thread_of k"
  "thread_of (k\<lparr>active_threads := ths\<rparr>) = thread_of k" "thread_of (k\<lparr>next_tid := t\<rparr>) = thread_of k"
  by (simp_all add: thread_of_def fun_eq_iff)

lemma make_threads_from:
  assumes "proper (block_dim k)" and "m \<le> dim_size (block_dim k)" and "next_tid k = pos (block_dim k) m"
    and "dim_size (block_dim k) \<le> m + fuel"
  shows "make_threads fuel tid k = Some (k\<lparr>next_tid := pos (block_dim k) (dim_size (block_dim k)),
    active_threads := active_threads k @ map (thread_of k tid) [m..<dim_size (block_dim k)]\<rparr>)"
  using assms
proof (induction fuel arbitrary: m k)
  case (0 m k)
  then have m: "m = dim_size (block_dim k)" by simp
  moreover from 0 m have "\<not> more_threads_in_cta k"
    using pos_inside [of "block_dim k" m] by (auto simp: more_threads_in_cta_def not_less)
  ultimately show ?case using 0(3) by (simp add: make_threads.simps)
next
  case (Suc fuel m k)
  let ?b = "block_dim k"
  show ?case
  proof (cases "m = dim_size ?b")
    case True
    with Suc.prems have "\<not> more_threads_in_cta k"
      using pos_inside [of ?b m] by (auto simp: more_threads_in_cta_def not_less)
    with True Suc.prems(3) show ?thesis by (simp add: make_threads.simps)
  next
    case False
    then have m: "m < dim_size ?b" using Suc.prems(2) by simp
    have more: "more_threads_in_cta k"
      using False pos_inside [OF Suc.prems(1,2)] Suc.prems(3) by (auto simp: more_threads_in_cta_def not_le)
    have th: "\<lparr>th_ctaid = next_cta k, th_tid = next_tid k, th_local = get_next_thread_id k + tid, th_done = False\<rparr> = thread_of k tid m"
      using pos_linear [of ?b m] by (simp add: thread_of_def Suc.prems(3) get_next_thread_id_def mult_ac)
    let ?k = "(increment_thread_id k)\<lparr>active_threads := active_threads k @ [thread_of k tid m]\<rparr>"
    have k: "next_tid ?k = pos ?b (Suc m)" "block_dim ?k = ?b" "thread_of ?k = thread_of k"
      "?k = k\<lparr>next_tid := pos ?b (Suc m), active_threads := active_threads k @ [thread_of k tid m]\<rparr>"
      using increment_pos [OF Suc.prems(1) m] by (simp_all add: increment_thread_id_def Suc.prems(3) thread_of_def fun_eq_iff)
    have "make_threads (Suc fuel) tid k = make_threads fuel tid ?k"
      using more th by (simp add: make_threads.simps [of "Suc fuel"] Let_def)
    also have "\<dots> = Some (?k\<lparr>next_tid := pos ?b (dim_size ?b),
        active_threads := active_threads ?k @ map (thread_of ?k tid) [Suc m..<dim_size ?b]\<rparr>)"
      using Suc.IH [of ?k "Suc m"] Suc.prems(1,4) m by (simp only: k) simp
    also have "\<dots> = Some (k\<lparr>next_tid := pos ?b (dim_size ?b), active_threads := active_threads k @ map (thread_of k tid) [m..<dim_size ?b]\<rparr>)"
      using m by (simp add: k upt_conv_Cons)
    finally show ?thesis .
  qed
qed

lemma bind_rest:
  assumes "foldM (bind_thread c cta_size st) [j..<e] (s, k, n) = Some (s', k', n')"
    and "active_threads k = map th [j..<e]" and "j \<le> e"
  shows "s' = s\<lparr>threads := threads s'\<rparr> \<and> length (threads s') = length (threads s) \<and> (j < e \<longrightarrow> e \<le> length (threads s)) \<and>
    (\<forall>i. threads s' ! i = (if j \<le> i \<and> i < e then Some (th i) else threads s ! i)) \<and>
    k' = k\<lparr>active_threads := []\<rparr> \<and> n' = n + of_nat (e - j)"
  using assms
proof (induction "e - j" arbitrary: j s k n)
  case 0
  then show ?case by auto
next
  case (Suc d)
  then have j: "j < e" by simp
  then have up: "[j..<e] = j # [Suc j..<e]" by (rule upt_conv_Cons)
  have act: "active_threads k = th j # map th [Suc j..<e]" using Suc.prems(2) by (simp add: up)
  let ?k = "k\<lparr>active_threads := map th [Suc j..<e]\<rparr>"
  let ?s = "s\<lparr>threads := (threads s)[j := Some (th j)]\<rparr>"
  have len: "j < length (threads s)" and rest: "foldM (bind_thread c cta_size st) [Suc j..<e] (?s, ?k, n + 1) = Some (s', k', n')"
    using Suc.prems(1) unfolding up by (auto simp: bind_thread_def ptx_sim_init_thread_def act bind_eq_Some_iff split: if_splits)
  from Suc.hyps(1) [OF _ rest] Suc.hyps(2) j
  have IH: "s' = ?s\<lparr>threads := threads s'\<rparr>" "length (threads s') = length (threads s)" "Suc j < e \<longrightarrow> e \<le> length (threads s)"
    "\<And>i. threads s' ! i = (if Suc j \<le> i \<and> i < e then Some (th i) else (threads s)[j := Some (th j)] ! i)"
    "k' = k\<lparr>active_threads := []\<rparr>" "n' = n + 1 + of_nat (e - Suc j)"
    by simp_all
  have "n' = n + of_nat (Suc (e - Suc j))" using IH(6) by simp
  moreover have "Suc (e - Suc j) = e - j" using j by simp
  moreover have "e \<le> length (threads s)" using IH(3) j len by (cases "Suc j < e") simp_all
  moreover have "threads s' ! i = (if j \<le> i \<and> i < e then Some (th i) else threads s ! i)" for i
    using IH(4) [of i] j len by (auto simp: nth_list_update less_Suc_eq_le le_eq_less_or_eq)
  ultimately show ?case using IH(1,2,5) j by simp
qed

lemma threads_per_cta_size: "dim_size (block_dim k) < 2 ^ 32 \<Longrightarrow> unat (threads_per_cta k) = dim_size (block_dim k)"
proof -
  assume small: "dim_size (block_dim k) < 2 ^ 32"
  have "threads_per_cta k = of_nat (dim_size (block_dim k))" by (simp add: threads_per_cta_def dim_size_def)
  with small show ?thesis by (simp add: unat_of_nat)
qed

text \<open>The first thread makes the threads of the CTA, the others take theirs.\<close>

lemma bind_all:
  assumes fold: "foldM (bind_thread c (threads_per_cta k) st) [st..<st + dim_size (block_dim k)] (s, k, 0) = Some (s', k', n')"
    and b: "proper (block_dim k)" "dim_size (block_dim k) < 2 ^ 32" and k: "active_threads k = []" "next_tid k = dim0"
      "\<not> no_more_ctas_to_run k"
  shows "s' = s\<lparr>threads := threads s'\<rparr> \<and> st + dim_size (block_dim k) \<le> length (threads s) \<and>
    (\<forall>i. threads s' ! i = (if st \<le> i \<and> i < st + dim_size (block_dim k) then Some (thread_of k (of_nat st) (i - st)) else threads s ! i)) \<and>
    k' = increment_cta_id k \<and> n' = threads_per_cta k"
proof -
  let ?b = "block_dim k" and ?N = "dim_size (block_dim k)"
  let ?th = "\<lambda>i. thread_of k (of_nat st) (i - st)"
  have N: "0 < ?N" using b(1) by (simp add: proper_def dim_size_def unat_gt_0)
  have tpc: "threads_per_cta k = of_nat ?N" by (simp add: threads_per_cta_def dim_size_def)
  have up: "[st..<st + ?N] = st # [Suc st..<st + ?N]" using N by (simp add: upt_conv_Cons)
  have made: "make_threads ?N (of_nat st) k = Some (k\<lparr>next_tid := pos ?b ?N, active_threads := map (thread_of k (of_nat st)) [0..<?N]\<rparr>)"
    using make_threads_from [OF b(1), of 0 ?N "of_nat st"] k by simp
  have ths: "map (thread_of k (of_nat st)) [0..<?N] = ?th st # map ?th [Suc st..<st + ?N]"
    using N by (intro nth_equalityI) (auto simp: nth_Cons split: nat.split)
  let ?k = "(increment_cta_id k)\<lparr>active_threads := map ?th [Suc st..<st + ?N]\<rparr>"
  let ?s = "s\<lparr>threads := (threads s)[st := Some (?th st)]\<rparr>"
  have inc: "increment_cta_id (k\<lparr>next_tid := t, active_threads := a\<rparr>) = (increment_cta_id k)\<lparr>active_threads := a\<rparr>" for t a
    by (simp add: increment_cta_id_def)
  have init: "ptx_sim_init_thread (of_nat st) (threads_per_cta k) (n_thread_per_shader c) old k = Some r \<Longrightarrow> r = (1, Some (?th st), ?k)" for old r
    using k by (auto simp: ptx_sim_init_thread_def made inc ths bind_eq_Some_iff Let_def split: if_splits)
  have len: "st < length (threads s)" and rest: "foldM (bind_thread c (threads_per_cta k) st) [Suc st..<st + ?N] (?s, ?k, 1) = Some (s', k', n')"
    using fold unfolding up by (auto simp: bind_thread_def bind_eq_Some_iff dest!: init split: if_splits)
  have "active_threads ?k = map ?th [Suc st..<st + ?N]" "Suc st \<le> st + ?N" using N by simp_all
  note R = bind_rest [OF rest this]
  have "n' = 1 + of_nat (?N - 1)" using R by simp
  then have "n' = of_nat (Suc (?N - 1))" by simp
  then have "n' = threads_per_cta k" using N by (simp add: tpc)
  moreover have "k' = increment_cta_id k" using R k(1) by (simp add: increment_cta_id_def)
  moreover have "st + ?N \<le> length (threads s)" using R N len by (cases "Suc st < st + ?N") simp_all
  moreover have "threads s' ! i = (if st \<le> i \<and> i < st + ?N then Some (?th i) else threads s ! i)" for i
    using R len N by (auto simp: nth_list_update Suc_le_eq le_eq_less_or_eq)
  moreover have "s' = s\<lparr>threads := threads s'\<rparr>" using R by simp
  ultimately show ?thesis by blast
qed

subsection \<open>Resources\<close>

lemma first_index_Some: "first_index P xs = Some n \<Longrightarrow> n < length xs \<and> P (xs ! n) \<and> (\<forall>m<n. \<not> P (xs ! m))"
proof (induction xs arbitrary: n)
  case (Cons x xs)
  then show ?case by (auto simp: nth_Cons split: if_splits nat.split)
qed simp

lemma unat_div: "unat (a div b) = unat a div unat b" for a b :: u32
  by (simp add: unat_div_distrib)

lemma round_down_4: "unat (x AND NOT 3) + unat x mod 4 = unat x" for x :: u32
proof -
  have "x AND 3 = take_bit 2 x" by (simp add: take_bit_eq_mask mask_eq_exp_minus_1)
  then have "unat (x AND 3) = unat x mod 4" using unat_take_mod [of 2 x] by simp
  moreover have "unat ((x AND NOT 3) OR (x AND 3)) = unat (x AND NOT 3) + unat (x AND 3)"
    by (rule unat_or_disjoint) (simp add: and.assoc and.left_commute)
  moreover have "(x AND NOT 3) OR (x AND 3) = x" by (rule bit_word_eqI) (auto simp: bit_simps)
  ultimately show ?thesis by simp
qed

lemma div_bound: "m \<le> a div b \<Longrightarrow> m * b \<le> (a :: nat)"
  by (metis div_times_less_eq_dividend le_trans mult_le_mono1)

text \<open>Fewer CTAs if the grid cannot keep all cores busy; never more.\<close>

lemma spread_le:
  fixes nb r ns :: u32
  assumes "nb < r * ns"
  shows "nb div ns + (if nb mod ns \<noteq> 0 then 1 else 0) \<le> r"
proof -
  have "unat nb < unat r * unat ns"
    using assms unat_word_ariths(2) [of r ns] by (auto simp: word_less_nat_alt intro: less_le_trans)
  then have lt: "unat (nb div ns) < unat r" by (simp add: unat_div less_mult_imp_div_less)
  then have "nb div ns < r" by (simp add: word_less_nat_alt)
  moreover have "unat (nb div ns + 1) = Suc (unat (nb div ns))" by (rule unat_Suc [OF lt])
  ultimately show ?thesis using lt by (simp add: word_le_nat_alt)
qed

lemma max_cta_limits:
  assumes "max_cta c smem regs k = Some m"
  shows "1 \<le> m" and "m \<le> 32" and "m \<le> max_cta_per_core c"
    and "m \<le> n_thread_per_shader c div padded_size c (threads_per_cta k)"
    and "smem > 0 \<Longrightarrow> m \<le> gpgpu_shmem_size c div smem"
    and "regs > 0 \<Longrightarrow> m \<le> gpgpu_shader_registers c div reg_need c regs k"
proof -
  let ?r = "cta_limit c smem regs k"
  have m: "m = (if num_blocks k < ?r * num_shader c
      then num_blocks k div num_shader c + (if num_blocks k mod num_shader c \<noteq> 0 then 1 else 0) else ?r)"
    and range: "m \<le> MAX_CTA_PER_SHADER" "1 \<le> m"
    using assms by (simp_all add: max_cta_def Let_def split: if_split_asm)
  have "m \<le> ?r" unfolding m using spread_le by simp
  note le = this [unfolded cta_limit_def Let_def min.bounded_iff]
  show "1 \<le> m" "m \<le> 32" using range by (simp_all add: MAX_CTA_PER_SHADER_def)
  show "m \<le> max_cta_per_core c" "m \<le> n_thread_per_shader c div padded_size c (threads_per_cta k)"
    using le by blast+
  show "m \<le> gpgpu_shmem_size c div smem" if "smem > 0"
    using le that by (simp only: if_True)
  show "m \<le> gpgpu_shader_registers c div reg_need c regs k" if "regs > 0"
    using le that by (simp only: if_True)
qed

lemma padded_size_nat:
  assumes "warp_size c \<noteq> 0" and "unat n + unat (warp_size c) \<le> 2 ^ 32"
  shows "unat n \<le> unat (padded_size c n)" and "unat (warp_size c) dvd unat (padded_size c n)"
    and "unat (padded_size c n) < unat n + unat (warp_size c)"
proof -
  let ?w = "unat (warp_size c)"
  have w: "0 < ?w" using assms(1) by (simp add: unat_gt_0)
  show "unat n \<le> unat (padded_size c n)" "?w dvd unat (padded_size c n)" "unat (padded_size c n) < unat n + ?w"
  proof -
    have "unat (padded_size c n) = (if unat n mod ?w = 0 then unat n else (unat n div ?w + 1) * ?w)"
    proof (cases "unat n mod ?w = 0")
      case True
      then show ?thesis by (simp add: padded_size_def unat_mod_distrib word_unat_eq_iff)
    next
      case False
      have "(unat n div ?w + 1) * ?w = unat n - unat n mod ?w + ?w" by (simp add: minus_mod_eq_div_mult)
      also have "\<dots> < 2 ^ 32" using False assms(2) w mod_less_eq_dividend [of "unat n" ?w] by linarith
      finally have small: "(unat n div ?w + 1) * ?w < 2 ^ 32" .
      moreover from this w have "unat n div ?w + 1 < 2 ^ 32" by (metis le_less_trans mult.right_neutral mult_le_mono2 Suc_leI One_nat_def)
      ultimately have "unat ((n div warp_size c + 1) * warp_size c) = (unat n div ?w + 1) * ?w"
        by (simp add: unat_word_ariths unat_div)
      with False show ?thesis by (simp add: padded_size_def unat_mod_distrib word_unat_eq_iff)
    qed
    moreover have "(unat n div ?w + 1) * ?w = unat n + (?w - unat n mod ?w)"
    proof -
      have "unat n div ?w * ?w + unat n mod ?w = unat n" "(unat n div ?w + 1) * ?w = unat n div ?w * ?w + ?w" by simp_all
      with mod_less_divisor [OF w, of "unat n"] show ?thesis by linarith
    qed
    ultimately consider "unat n mod ?w = 0" "unat (padded_size c n) = unat n"
      | "unat n mod ?w \<noteq> 0" "unat (padded_size c n) = unat n + (?w - unat n mod ?w)"
        "unat (padded_size c n) = (unat n div ?w + 1) * ?w" by argo
    then have "unat n \<le> unat (padded_size c n) \<and> ?w dvd unat (padded_size c n) \<and> unat (padded_size c n) < unat n + ?w"
    proof cases
      case 1
      then show ?thesis using w by (simp add: dvd_eq_mod_eq_0)
    next
      case 2
      then have "?w dvd unat (padded_size c n)" by (metis dvd_triv_right)
      with 2(1,2) w mod_less_divisor [OF w, of "unat n"] show ?thesis by linarith
    qed
    then show "unat n \<le> unat (padded_size c n)" "?w dvd unat (padded_size c n)" "unat (padded_size c n) < unat n + ?w"
      by blast+
  qed
qed

subsection \<open>Properties\<close>

lemma increment_cta_walk:
  "next_cta ((increment_cta_id ^^ n) k) = ((\<lambda>i. increment_x_then_y_then_z i (grid_dim k)) ^^ n) (next_cta k) \<and>
   grid_dim ((increment_cta_id ^^ n) k) = grid_dim k"
  by (induction n) (simp_all add: increment_cta_id_def)

text \<open>
  Property C35 (roundtrip): the walk over a grid visits every CTA once, in the order of its number: after \<open>n\<close>
  steps the CTA has the number \<open>n\<close>, which gives its coordinates back, and exactly after the last CTA there
  are no more.
\<close>

theorem grid_walk_numbers_ctas:
  assumes "proper (grid_dim k)" and "next_cta k = dim0" and "n \<le> dim_size (grid_dim k)"
  shows "let k' = (increment_cta_id ^^ n) k; X = unat (d_x (grid_dim k)); Y = unat (d_y (grid_dim k)) in
    tw_next_cta_num k' = of_nat n \<and> unat (d_x (next_cta k')) = n mod X \<and> unat (d_y (next_cta k')) = n div X mod Y \<and>
    unat (d_z (next_cta k')) = n div X div Y \<and> (no_more_ctas_to_run k' \<longleftrightarrow> n = dim_size (grid_dim k))"
proof -
  have "next_cta ((increment_cta_id ^^ n) k) = pos (grid_dim k) n"
    using increment_cta_walk [of n k] walk_pos [OF assms(1,3)] assms(2) by simp
  then show ?thesis
    using pos_linear [of "grid_dim k" n] pos_unat [OF assms(1,3)] pos_inside [OF assms(1,3)] increment_cta_walk [of n k]
    by (simp add: Let_def tw_next_cta_num_def no_more_ctas_to_run_def)
qed

text \<open>
  The CTAs that a core takes fit its threads, its shared memory, its registers and its
  slots, however the grid is spread over the cores.
\<close>

theorem cta_resources_fit:
  assumes "max_cta c smem regs k = Some m" and "unat (padded_size c (threads_per_cta k)) * (unat regs + 3) < 2 ^ 32"
  shows "0 < unat m \<and> unat m \<le> 32 \<and> m \<le> max_cta_per_core c \<and>
    unat m * unat (padded_size c (threads_per_cta k)) \<le> unat (n_thread_per_shader c) \<and>
    unat m * unat smem \<le> unat (gpgpu_shmem_size c) \<and>
    unat m * (unat (padded_size c (threads_per_cta k)) * unat regs) \<le> unat (gpgpu_shader_registers c)"
proof -
  let ?P = "padded_size c (threads_per_cta k)"
  note lim = max_cta_limits [OF assms(1)]
  have "?P \<noteq> 0" using assms(1) by (auto simp: max_cta_def split: if_splits)
  then have P: "1 \<le> unat ?P" by (simp add: unat_gt_0 Suc_le_eq)
  have threads: "unat m * unat ?P \<le> unat (n_thread_per_shader c)"
    using lim(4) by (intro div_bound) (simp add: word_le_nat_alt unat_div)
  have shmem: "unat m * unat smem \<le> unat (gpgpu_shmem_size c)"
  proof (cases "smem = 0")
    case False
    then have "smem > 0" by (simp add: word_neq_0_conv)
    from lim(5) [OF this] show ?thesis by (intro div_bound) (simp add: word_le_nat_alt unat_div)
  qed simp
  have need: "unat m * (unat ?P * unat regs) \<le> unat (gpgpu_shader_registers c)"
  proof (cases "regs = 0")
    case False
    then have "regs > 0" by (simp add: word_neq_0_conv)
    have "unat regs + 3 \<le> unat ?P * (unat regs + 3)" using P by simp
    then have "unat regs + 3 < 2 ^ 32" using assms(2) by linarith
    then have r3: "unat (regs + 3) = unat regs + 3" by (simp add: unat_word_ariths)
    have up: "unat regs \<le> unat ((regs + 3) AND NOT 3)" and down: "unat ((regs + 3) AND NOT 3) \<le> unat regs + 3"
      using round_down_4 [of "regs + 3"] r3 mod_less_divisor [of 4 "unat regs + 3"] by linarith+
    have "unat ?P * unat ((regs + 3) AND NOT 3) < 2 ^ 32"
      using mult_le_mono2 [OF down, of "unat ?P"] assms(2) by linarith
    then have "unat (reg_need c regs k) = unat ?P * unat ((regs + 3) AND NOT 3)"
      by (simp add: reg_need_def unat_word_ariths)
    then have "unat m * (unat ?P * unat ((regs + 3) AND NOT 3)) \<le> unat (gpgpu_shader_registers c)"
      using lim(6) [OF \<open>regs > 0\<close>] div_bound by (simp add: word_le_nat_alt unat_div)
    with mult_le_mono2 [OF mult_le_mono2 [OF up, of "unat ?P"], of "unat m"] show ?thesis by linarith
  qed simp
  show ?thesis using lim(1-3) threads shmem need by (simp add: word_le_nat_alt)
qed

text \<open>
  Property C34 (functional): a CTA is placed in the first free slot, at its own range of hardware threads within the core; these
  are bound to the threads of the next CTA of the grid in the order of their numbers, no other thread is touched, and the
  kernel moves to its next CTA.
\<close>

theorem cta_binds_each_thread_once:
  assumes issue: "issue_block2core c smem regs (s, k) = Some (cta, warps, s', k')"
    and k: "proper (block_dim k)" "active_threads k = []" "next_tid k = dim0" "\<not> no_more_ctas_to_run k"
    and small: "dim_size (block_dim k) + unat (warp_size c) \<le> 2 ^ 32"
  shows "let P = unat (padded_size c (threads_per_cta k)); start = cta * P in
    cta_status s ! cta = 0 \<and> start + P \<le> unat (n_thread_per_shader c) \<and> dim_size (block_dim k) \<le> P \<and>
    (\<forall>m < dim_size (block_dim k). threads s' ! (start + m) = Some (thread_of k (of_nat start) m)) \<and>
    (\<forall>i. i < start \<or> start + dim_size (block_dim k) \<le> i \<longrightarrow> threads s' ! i = threads s ! i) \<and>
    cta_status s' = (cta_status s)[cta := threads_per_cta k] \<and> k' = increment_cta_id k"
proof -
  let ?P = "padded_size c (threads_per_cta k)" and ?N = "dim_size (block_dim k)"
  let ?start = "unat (of_nat cta * ?P)"
  let ?stop = "unat (of_nat ?start + threads_per_cta k)"
  obtain m s2 n where m: "max_cta c smem regs k = Some m"
    and free: "first_index (\<lambda>n. n = 0) (take (unat m) (cta_status s)) = Some cta"
    and fold: "foldM (bind_thread c (threads_per_cta k) ?start) [?start..<?stop]
      (s\<lparr>cc_max_cta := m, cc_padded := ?P, cta_num_in_kernel := (cta_num_in_kernel s)[cta := tw_next_cta_num k]\<rparr>, k, 0) = Some (s2, k', n)"
    and s': "s' = s2\<lparr>cta_status := (cta_status s2)[cta := n], n_active_cta := n_active_cta s2 + 1\<rparr>"
    using issue by (auto simp: issue_block2core_def set_max_cta_def Let_def bind_eq_Some_iff split: if_splits)
  from first_index_Some [OF free] have cta: "cta < unat m" "cta_status s ! cta = 0" by auto
  have "warp_size c \<noteq> 0" using m by (auto simp: max_cta_def split: if_splits)
  then have "0 < unat (warp_size c)" by (simp add: unat_gt_0)
  then have N: "unat (threads_per_cta k) = ?N" using small by (intro threads_per_cta_size) simp
  have NP: "?N \<le> unat ?P" using padded_size_nat(1) [OF \<open>warp_size c \<noteq> 0\<close>, of "threads_per_cta k"] N small by simp
  have "unat m * unat ?P \<le> unat (n_thread_per_shader c)"
    using max_cta_limits(4) [OF m] by (intro div_bound) (simp add: word_le_nat_alt unat_div)
  moreover have "(cta + 1) * unat ?P \<le> unat m * unat ?P" using cta(1) by (intro mult_right_mono) simp_all
  ultimately have fit: "cta * unat ?P + unat ?P \<le> unat (n_thread_per_shader c)" by simp
  have "cta < 2 ^ 32" using cta(1) unat_u32_less [of m] by simp
  then have start: "?start = cta * unat ?P"
    using fit unat_u32_less [of "n_thread_per_shader c"] by (simp add: unat_word_ariths unat_of_nat)
  then have "?stop = ?start + ?N"
    using fit NP N unat_u32_less [of "n_thread_per_shader c"] by (simp add: unat_word_ariths unat_of_nat)
  note B = bind_all [OF fold [unfolded this] k(1) _ k(2-4)]
  have "?N < 2 ^ 32" using small \<open>0 < unat (warp_size c)\<close> by simp
  note B = B [OF this, unfolded start]
  have eq: "s2 = s\<lparr>cc_max_cta := m, cc_padded := ?P, cta_num_in_kernel := (cta_num_in_kernel s)[cta := tw_next_cta_num k],
    threads := threads s2\<rparr>" using B by blast
  have "cta_status s2 = cta_status s" by (subst eq) simp
  with B cta(2) fit NP start show ?thesis by (auto simp: Let_def s')
qed

subsection \<open>Private local memory\<close>

text \<open>The number of a thread among all threads of the GPU; \<open>thread_base\<close> is four times it.\<close>

definition thread_number :: "core_limits \<Rightarrow> core_ctas \<Rightarrow> nat \<Rightarrow> nat \<Rightarrow> nat" where
  "thread_number c s sid tid = (if gpgpu_local_mem_map c
     then unat (cc_padded s) * (sid + unat (num_shader c) * (tid div unat (cc_padded s))) + tid mod unat (cc_padded s)
     else unat (n_thread_per_shader c) * sid + tid)"

definition all_threads :: "core_limits \<Rightarrow> core_ctas \<Rightarrow> nat" where
  "all_threads c s = (if gpgpu_local_mem_map c then unat (cc_padded s) * unat (cc_max_cta s) * unat (num_shader c)
     else unat (num_shader c) * unat (n_thread_per_shader c))"

text \<open>A thread of a core of the GPU.\<close>

definition thread_of_core :: "core_limits \<Rightarrow> core_ctas \<Rightarrow> nat \<Rightarrow> nat \<Rightarrow> bool" where
  "thread_of_core c s sid tid \<longleftrightarrow> sid < unat (num_shader c) \<and>
     (if gpgpu_local_mem_map c then tid < unat (cc_padded s) * unat (cc_max_cta s) else tid < unat (n_thread_per_shader c))"

lemma mixed_less:
  assumes "sid < S" and "tid < P * (M :: nat)"
  shows "P * (sid + S * (tid div P)) + tid mod P < P * M * S"
proof -
  have P: "0 < P" using assms(2) by (cases P) simp_all
  have "tid div P < M" using assms(2) by (simp add: less_mult_imp_div_less mult.commute)
  then have "S * (tid div P) + S \<le> S * M" by (metis Suc_leI mult_Suc_right add.commute mult_le_mono2)
  with assms(1) have "Suc (sid + S * (tid div P)) \<le> S * M" by simp
  then have "P * Suc (sid + S * (tid div P)) \<le> P * (S * M)" by (rule mult_le_mono2)
  with mod_less_divisor [OF P, of tid] show ?thesis by (simp add: mult_ac)
qed

lemma mixed_inj:
  assumes "sid < S" and "sid' < S" and "0 < P"
    and "P * (sid + S * (tid div P)) + tid mod P = P * (sid' + S * (tid' div P)) + tid' mod (P :: nat)"
  shows "sid = sid' \<and> tid = tid'"
proof -
  have "sid + S * (tid div P) = sid' + S * (tid' div P)" "tid mod P = tid' mod P"
    using arg_cong [OF assms(4), of "\<lambda>x. x div P"] arg_cong [OF assms(4), of "\<lambda>x. x mod P"] assms(3) by simp_all
  moreover from this(1) have "(sid + S * (tid div P)) mod S = (sid' + S * (tid' div P)) mod S"
    "(sid + S * (tid div P)) div S = (sid' + S * (tid' div P)) div S" by simp_all
  then have "sid = sid'" "tid div P = tid' div P" using assms(1,2) by simp_all
  ultimately show ?thesis by (metis div_mult_mod_eq)
qed

lemma thread_number_less: "thread_of_core c s sid tid \<Longrightarrow> thread_number c s sid tid < all_threads c s"
proof (cases "gpgpu_local_mem_map c")
  case True
  assume "thread_of_core c s sid tid"
  with True mixed_less [of sid "unat (num_shader c)" tid "unat (cc_padded s)" "unat (cc_max_cta s)"] show ?thesis
    by (simp add: thread_number_def all_threads_def thread_of_core_def)
next
  case False
  assume *: "thread_of_core c s sid tid"
  let ?N = "unat (n_thread_per_shader c)"
  have "?N * Suc sid \<le> ?N * unat (num_shader c)" using False * by (intro mult_le_mono2) (simp add: thread_of_core_def Suc_le_eq)
  with False * show ?thesis by (simp add: thread_number_def all_threads_def thread_of_core_def mult.commute)
qed

lemma thread_number_inj:
  assumes "thread_of_core c s sid tid" and "thread_of_core c s sid' tid'" and "thread_number c s sid tid = thread_number c s sid' tid'"
  shows "sid = sid' \<and> tid = tid'"
proof (cases "gpgpu_local_mem_map c")
  case True
  then have "0 < unat (cc_padded s)" using assms(1) by (cases "unat (cc_padded s)") (simp_all add: thread_of_core_def)
  with True assms mixed_inj [of sid "unat (num_shader c)" sid' "unat (cc_padded s)" tid tid'] show ?thesis
    by (simp add: thread_number_def thread_of_core_def)
next
  case False
  with assms mixed_inj [of tid "unat (n_thread_per_shader c)" tid' 1 sid sid'] show ?thesis
    by (simp add: thread_number_def thread_of_core_def add.commute)
qed

lemma thread_base_nat:
  assumes "thread_of_core c s (unat sid) (unat tid)" and "4 * all_threads c s < 2 ^ 32"
  shows "unat (thread_base c s sid tid) = 4 * thread_number c s (unat sid) (unat tid)"
    and "unat (max_concurrent_threads c s) = all_threads c s"
proof -
  let ?t = "thread_number c s (unat sid) (unat tid)"
  have "thread_base c s sid tid = of_nat (4 * ?t)"
    by (simp add: thread_base_def thread_number_def flip: unat_div unat_mod_distrib)
  moreover have "4 * ?t < 2 ^ 32" using thread_number_less [OF assms(1)] assms(2) by linarith
  ultimately show "unat (thread_base c s sid tid) = 4 * ?t" by (simp only: unat_of_nat_less)
  have "max_concurrent_threads c s = of_nat (all_threads c s)"
    by (simp add: max_concurrent_threads_def all_threads_def)
  with assms(2) show "unat (max_concurrent_threads c s) = all_threads c s" by (simp only: unat_of_nat_less)
qed

text \<open>An address belongs to a word of its thread.\<close>

lemma local_word:
  assumes t: "thread_of_core c s (unat sid) (unat tid)"
    and tr: "translate_local_memaddr c s sid a tid d = Some xs" and x: "x \<in> set xs"
    and fit: "(unat a div 4 + 8) * (4 * all_threads c s) + unat LOCAL_GENERIC_START \<le> 2 ^ 32"
  shows "\<exists>w off. off < 4 \<and> unat x = 4 * (w * all_threads c s + thread_number c s (unat sid) (unat tid)) + off + unat LOCAL_GENERIC_START"
proof -
  let ?N = "all_threads c s" and ?t = "thread_number c s (unat sid) (unat tid)" and ?S = "unat LOCAL_GENERIC_START"
  have tN: "?t < ?N" by (rule thread_number_less [OF t])
  have "8 * (4 * ?N) \<le> (unat a div 4 + 8) * (4 * ?N)" by (rule mult_le_mono1) simp
  then have "32 * ?N + ?S \<le> 2 ^ 32" using fit by linarith
  moreover have "0 < ?S" by (simp add: LOCAL_GENERIC_START_def)
  ultimately have N: "4 * ?N < 2 ^ 32" by linarith
  note base = thread_base_nat [OF t N]
  have word: "unat (ucast ((w :: u32) * max_concurrent_threads c s * 4 + off + thread_base c s sid tid + LOCAL_GENERIC_START) :: u64) =
      4 * (unat w * ?N + ?t) + unat off + ?S" if "unat w < unat a div 4 + 8" and "unat off < 4" for w off :: u32
  proof -
    have "(unat w + 1) * (4 * ?N) \<le> (unat a div 4 + 8) * (4 * ?N)" using that(1) by (intro mult_le_mono1) simp
    then have lt: "4 * (unat w * ?N + ?t) + unat off + ?S < 2 ^ 32" using fit tN that(2) by (simp add: algebra_simps)
    have eq: "w * max_concurrent_threads c s * 4 + off + thread_base c s sid tid + LOCAL_GENERIC_START =
        of_nat (4 * (unat w * ?N + ?t) + unat off + ?S)"
    proof -
      have "max_concurrent_threads c s = of_nat ?N" "thread_base c s sid tid = of_nat (4 * ?t)"
        by (simp_all flip: base)
      then show ?thesis by (simp add: algebra_simps)
    qed
    show ?thesis unfolding unat_ucast_u64 eq by (rule unat_of_nat_less [OF lt])
  qed
  have "unat (a div 4) = unat a div 4" by (simp add: unat_div)
  show ?thesis
  proof (cases "d \<ge> 4")
    case True
    with tr x obtain i where i: "i < unat (d div 4)" and le: "d div 4 \<le> 8"
      and x: "x = ucast ((a div 4 + of_nat i) * max_concurrent_threads c s * 4 + 0 + thread_base c s sid tid + LOCAL_GENERIC_START)"
      by (auto simp: translate_local_memaddr_def Let_def split: if_splits)
    have "i < 8" using i le by (simp add: word_le_nat_alt)
    have "unat a div 4 + i < 2 ^ 32" using unat_u32_less [of a] \<open>i < 8\<close> by simp
    then have "unat (a div 4 + of_nat i) = unat a div 4 + i"
      using \<open>unat (a div 4) = unat a div 4\<close> \<open>i < 8\<close> by (simp add: unat_word_ariths unat_of_nat)
    then have "unat x = 4 * ((unat a div 4 + i) * ?N + ?t) + 0 + ?S"
      using word [of "a div 4 + of_nat i" 0] \<open>i < 8\<close> by (simp add: x)
    then show ?thesis by (intro exI [of _ "unat a div 4 + i"] exI [of _ 0]) simp
  next
    case False
    with tr x have x: "x = ucast (a div 4 * max_concurrent_threads c s * 4 + a mod 4 + thread_base c s sid tid + LOCAL_GENERIC_START)"
      by (auto simp: translate_local_memaddr_def Let_def split: if_splits)
    have "unat (a mod 4) < 4" by (simp add: unat_mod_distrib)
    with word [of "a div 4" "a mod 4"] \<open>unat (a div 4) = unat a div 4\<close> show ?thesis by (auto simp: x)
  qed
qed


subsection \<open>A kernel on a core\<close>

definition demo_limits :: core_limits where
  "demo_limits = \<lparr>n_thread_per_shader = 16, warp_size = 4, gpgpu_shmem_size = 1024, gpgpu_shader_registers = 512,
     max_cta_per_core = 8, n_simt_clusters = 2, n_simt_cores_per_cluster = 1, gpgpu_local_mem_map = True\<rparr>"

definition demo_kernel :: kernel_info where
  "demo_kernel = fst (kernel_info_new \<lparr>d_x = 3, d_y = 2, d_z = 1\<rparr> \<lparr>d_x = 3, d_y = 2, d_z = 1\<rparr> 1)"

definition demo_ctas :: core_ctas where
  "demo_ctas = \<lparr>cc_max_cta = 0, cc_padded = 0, cta_status = replicate 32 0, n_active_cta = 0,
     cta_num_in_kernel = replicate 32 0, threads = replicate 16 None\<rparr>"

lemma demo_kernel_facts:
  "proper (grid_dim demo_kernel)" "proper (block_dim demo_kernel)" "next_cta demo_kernel = dim0" "next_tid demo_kernel = dim0"
  "dim_size (grid_dim demo_kernel) = 6" "dim_size (block_dim demo_kernel) = 6" "active_threads demo_kernel = []"
  "\<not> no_more_ctas_to_run demo_kernel" "unat (d_x (grid_dim demo_kernel)) = 3" "unat (d_y (grid_dim demo_kernel)) = 2"
  by (simp_all add: demo_kernel_def kernel_info_new_def proper_def dim_size_def no_more_ctas_to_run_def dim0_def)

theorem grid_walk_numbers_ctas_witness:
  "tw_next_cta_num ((increment_cta_id ^^ 4) demo_kernel) = 4 \<and> d_y (next_cta ((increment_cta_id ^^ 4) demo_kernel)) = 1"
proof -
  have "4 \<le> dim_size (grid_dim demo_kernel)" by (simp add: demo_kernel_facts)
  from grid_walk_numbers_ctas [OF demo_kernel_facts(1,3) this, unfolded Let_def demo_kernel_facts]
  show ?thesis by (simp add: word_unat_eq_iff)
qed

theorem cta_resources_fit_witness:
  "\<exists>m. max_cta demo_limits 0 16 demo_kernel = Some m \<and> unat m * 8 \<le> 16"
proof -
  have "max_cta demo_limits 0 16 demo_kernel = Some 2" by code_simp
  moreover have "padded_size demo_limits (threads_per_cta demo_kernel) = 8" by code_simp
  ultimately show ?thesis using cta_resources_fit [of demo_limits 0 16 demo_kernel 2] by (simp add: demo_limits_def)
qed

theorem cta_binds_each_thread_once_witness:
  "\<exists>s' k'. issue_block2core demo_limits 0 16 (demo_ctas, demo_kernel) = Some (0, {0, 1}, s', k') \<and>
     threads s' ! 4 = Some (thread_of demo_kernel 0 4) \<and> k' = increment_cta_id demo_kernel"
proof -
  have "map_option (\<lambda>(cta, warps, s', k'). (cta, warps)) (issue_block2core demo_limits 0 16 (demo_ctas, demo_kernel)) = Some (0, {0, 1})"
    by code_simp
  then obtain s' k' where issue: "issue_block2core demo_limits 0 16 (demo_ctas, demo_kernel) = Some (0, {0, 1}, s', k')"
    by auto
  have small: "dim_size (block_dim demo_kernel) + unat (warp_size demo_limits) \<le> 2 ^ 32"
    by (simp add: demo_kernel_facts demo_limits_def)
  note T = cta_binds_each_thread_once [OF issue demo_kernel_facts(2,7,4,8) small, unfolded Let_def demo_kernel_facts]
  then have "\<forall>m<6. threads s' ! (0 + m) = Some (thread_of demo_kernel 0 m)" by simp
  then have "threads s' ! 4 = Some (thread_of demo_kernel 0 4)" by simp
  with T issue show ?thesis by blast
qed


end
