(* ===== verification/Cache_Config.thy ===== *)
theory Cache_Config
  imports Sim_Prelude
begin

unbundle bit_operations_syntax

text \<open>
  The configuration of a cache (\<open>cache_config\<close> of \<open>gpgpu-sim/gpu-cache.h\<close>): the parsed
  configuration string, the set-index functions of the base, L1D and L2 configurations, and
  the tag and block address of an access. \<open>LOGB2\<close> is the integer logarithm of
  \<open>gpgpu-sim/gpu-misc.cc\<close>. Masks and shifts are kept at the width the C code gives them.
\<close>

datatype replacement_policy_t = LRU | FIFO
datatype write_policy_t = READ_ONLY | WRITE_BACK | WRITE_THROUGH | WRITE_EVICT | LOCAL_WB_GLOBAL_WT
datatype allocation_policy_t = ON_MISS | ON_FILL
datatype write_allocate_policy_t = NO_WRITE_ALLOCATE | WRITE_ALLOCATE
datatype mshr_config_t = TEX_FIFO | ASSOC
datatype set_index_function = FERMI_HASH_SET_FUNCTION | LINEAR_SET_FUNCTION | CUSTOM_SET_FUNCTION

text \<open>
  Which class the configuration object has, since \<open>set_index\<close> is virtual. An
  \<open>l2_cache_config\<close> holds a pointer to the address mapping; \<open>Some f\<close> is a mapping whose
  \<open>partition_address\<close> is \<open>f\<close>.
\<close>

datatype config_class = Base_config | L1D_config | L2_config "(u64 \<Rightarrow> u64) option"

record cache_config =
  m_class :: config_class
  m_nset :: u32
  m_line_sz :: u32
  m_assoc :: nat
  m_line_sz_log2 :: nat
  m_nset_log2 :: nat
  m_replacement_policy :: replacement_policy_t
  m_write_policy :: write_policy_t
  m_alloc_policy :: allocation_policy_t
  m_write_alloc_policy :: write_allocate_policy_t
  m_mshr_type :: mshr_config_t
  m_mshr_entries :: nat
  m_mshr_max_merge :: nat
  m_miss_queue_size :: nat
  m_result_fifo_entries :: nat
  m_data_port_width :: u32
  m_set_index_function :: set_index_function

subsection \<open>The integer logarithm\<close>

text \<open>
  The five statements \<open>shift = ((v & mask) != 0) << k; v >>= shift; r |= shift\<close>.
\<close>

definition LOGB2 :: "u32 \<Rightarrow> nat" where
  "LOGB2 v =
     (let s4 = (if v AND 0xFFFF0000 \<noteq> 0 then 16 else 0); v = drop_bit s4 v;
          s3 = (if v AND 0xFF00 \<noteq> 0 then 8 else 0); v = drop_bit s3 v;
          s2 = (if v AND 0xF0 \<noteq> 0 then 4 else 0); v = drop_bit s2 v;
          s1 = (if v AND 0xC \<noteq> 0 then 2 else 0); v = drop_bit s1 v;
          s0 = (if v AND 0x2 \<noteq> 0 then 1 else 0)
      in (((s4 OR s3) OR s2) OR s1) OR s0)"

subsection \<open>Reading the configuration string\<close>

text \<open>
  What \<open>sscanf(config, "%u:%u:%u,%c:%c:%c:%c:%c,%c:%u:%u,%u:%u,%u", ...)\<close> stored: the
  number of converted fields and their values. A field past \<open>ntok\<close> keeps the value the
  member had before the call.
\<close>

record config_tokens =
  ntok :: nat
  t_nset :: u32
  t_line_sz :: u32
  t_assoc :: nat
  t_rp :: char
  t_wp :: char
  t_ap :: char
  t_wap :: char
  t_sif :: char
  t_mshr_type :: char
  t_mshr_entries :: nat
  t_mshr_max_merge :: nat
  t_miss_queue_size :: nat
  t_result_fifo_entries :: nat
  t_data_port_width :: u32

definition replacement_of :: "char \<Rightarrow> replacement_policy_t option" where
  "replacement_of c =
     (if c = CHR ''L'' then Some LRU else if c = CHR ''F'' then Some FIFO else None)"

definition write_policy_of :: "char \<Rightarrow> write_policy_t option" where
  "write_policy_of c =
     (if c = CHR ''R'' then Some READ_ONLY
      else if c = CHR ''B'' then Some WRITE_BACK
      else if c = CHR ''T'' then Some WRITE_THROUGH
      else if c = CHR ''E'' then Some WRITE_EVICT
      else if c = CHR ''L'' then Some LOCAL_WB_GLOBAL_WT else None)"

definition alloc_policy_of :: "char \<Rightarrow> allocation_policy_t option" where
  "alloc_policy_of c =
     (if c = CHR ''m'' then Some ON_MISS else if c = CHR ''f'' then Some ON_FILL else None)"

definition mshr_type_of :: "char \<Rightarrow> nat \<Rightarrow> mshr_config_t option" where
  "mshr_type_of c n =
     (if c = CHR ''F'' then (if n = 13 then Some TEX_FIFO else None)
      else if c = CHR ''A'' then Some ASSOC else None)"

definition write_alloc_of :: "char \<Rightarrow> write_allocate_policy_t option" where
  "write_alloc_of c =
     (if c = CHR ''W'' then Some WRITE_ALLOCATE
      else if c = CHR ''N'' then Some NO_WRITE_ALLOCATE else None)"

definition set_index_function_of :: "char \<Rightarrow> set_index_function option" where
  "set_index_function_of c =
     (if c = CHR ''H'' then Some FERMI_HASH_SET_FUNCTION
      else if c = CHR ''C'' then Some CUSTOM_SET_FUNCTION
      else if c = CHR ''L'' then Some LINEAR_SET_FUNCTION else None)"

text \<open>
  \<open>cache_config::init\<close>: \<open>None\<close> for a parse error, a failed assertion or the division by a
  zero port width; the result of the string \<open>none\<close> is \<open>Some None\<close> (a disabled cache).
\<close>

definition cache_config_init ::
    "config_class \<Rightarrow> bool \<Rightarrow> config_tokens \<Rightarrow> cache_config option option" where
  "cache_config_init cls is_none t =
     (if ntok t < 11 then (if is_none then Some None else None)
      else do {
        rp \<leftarrow> replacement_of (t_rp t);
        wp \<leftarrow> write_policy_of (t_wp t);
        ap \<leftarrow> alloc_policy_of (t_ap t);
        mt \<leftarrow> mshr_type_of (t_mshr_type t) (ntok t);
        wap \<leftarrow> write_alloc_of (t_wap t);
        require (\<not> (ap = ON_FILL \<and> wp = WRITE_BACK));
        let width = (if t_data_port_width t = 0 then t_line_sz t else t_data_port_width t);
        require (width \<noteq> 0 \<and> t_line_sz t mod width = 0);
        sif \<leftarrow> set_index_function_of (t_sif t);
        Some (Some \<lparr>m_class = cls, m_nset = t_nset t, m_line_sz = t_line_sz t,
          m_assoc = t_assoc t, m_line_sz_log2 = LOGB2 (t_line_sz t),
          m_nset_log2 = LOGB2 (t_nset t), m_replacement_policy = rp, m_write_policy = wp,
          m_alloc_policy = ap, m_write_alloc_policy = wap, m_mshr_type = mt,
          m_mshr_entries = t_mshr_entries t, m_mshr_max_merge = t_mshr_max_merge t,
          m_miss_queue_size = t_miss_queue_size t,
          m_result_fifo_entries = t_result_fifo_entries t, m_data_port_width = width,
          m_set_index_function = sif\<rparr>)
      })"

definition get_num_lines :: "cache_config \<Rightarrow> nat" where
  "get_num_lines cfg = unat (m_nset cfg) * m_assoc cfg"

subsection \<open>Set index, tag and block address\<close>

definition linear_index :: "cache_config \<Rightarrow> u64 \<Rightarrow> u32" where
  "linear_index cfg addr =
     ucast (drop_bit (m_line_sz_log2 cfg) addr AND ucast (m_nset cfg - 1))"

definition base_set_index :: "cache_config \<Rightarrow> u64 \<Rightarrow> u32 option" where
  "base_set_index cfg addr = do {
     require (m_set_index_function cfg = LINEAR_SET_FUNCTION);
     Some (linear_index cfg addr)
   }"

definition fermi_hash :: "cache_config \<Rightarrow> u64 \<Rightarrow> u32" where
  "fermi_hash cfg addr =
     (let lower_xor = (ucast (drop_bit (m_line_sz_log2 cfg) addr AND 0x1F) :: u32);
          upper_xor = (ucast (drop_bit 13 (addr AND 0xE000)) :: u32);
          upper_xor = upper_xor OR ucast (drop_bit 14 (addr AND 0x20000));
          upper_xor = upper_xor OR ucast (drop_bit 15 (addr AND 0x80000));
          set_index = lower_xor XOR upper_xor
      in if m_nset cfg = 64 then set_index OR ucast (drop_bit 7 (addr AND 0x1000))
         else set_index)"

definition l1d_set_index :: "cache_config \<Rightarrow> u64 \<Rightarrow> u32 option" where
  "l1d_set_index cfg addr = do {
     set_index \<leftarrow> (case m_set_index_function cfg of
         FERMI_HASH_SET_FUNCTION \<Rightarrow>
           do { require (m_nset cfg = 32 \<or> m_nset cfg = 64); Some (fermi_hash cfg addr) }
       | CUSTOM_SET_FUNCTION \<Rightarrow> Some (m_nset cfg)
       | LINEAR_SET_FUNCTION \<Rightarrow> Some (linear_index cfg addr));
     require (set_index < m_nset cfg);
     Some set_index
   }"

definition l2_set_index :: "(u64 \<Rightarrow> u64) option \<Rightarrow> cache_config \<Rightarrow> u64 \<Rightarrow> u32 option" where
  "l2_set_index mapping cfg addr =
     (case mapping of
        None \<Rightarrow> Some (linear_index cfg addr)
      | Some partition_address \<Rightarrow> Some (linear_index cfg (partition_address addr)))"

definition set_index :: "cache_config \<Rightarrow> u64 \<Rightarrow> u32 option" where
  "set_index cfg addr =
     (case m_class cfg of
        Base_config \<Rightarrow> base_set_index cfg addr
      | L1D_config \<Rightarrow> l1d_set_index cfg addr
      | L2_config mapping \<Rightarrow> l2_set_index mapping cfg addr)"

text \<open>
  \<open>addr & ~(m_line_sz-1)\<close>: the complement is taken at the 32 bits of \<open>m_line_sz\<close> and then
  widened with zeros to the 64 bits of the address.
\<close>

definition tag :: "cache_config \<Rightarrow> u64 \<Rightarrow> u64" where
  "tag cfg addr = addr AND ucast (NOT (m_line_sz cfg - 1))"

definition block_addr :: "cache_config \<Rightarrow> u64 \<Rightarrow> u64" where
  "block_addr cfg addr = addr AND ucast (NOT (m_line_sz cfg - 1))"

subsection \<open>Bounds on masked and shifted words\<close>

lemma unat_and_le: "unat (a AND m) \<le> unat m"
  for a m :: "'a::len word"
  by (metis word_and_le1 word_and_le2 word_le_nat_alt)

lemma unat_ucast_le: "unat (ucast w :: u32) \<le> unat w"
  for w :: u64
  by (simp add: unsigned_ucast_eq take_bit_nat_less_eq_self)

lemma ucast_drop_and_less:
  fixes a m :: u64
  assumes "unat m div 2 ^ k < 2 ^ n"
  shows "unat (ucast (drop_bit k (a AND m)) :: u32) < 2 ^ n"
proof -
  have "unat (ucast (drop_bit k (a AND m)) :: u32) \<le> unat (a AND m) div 2 ^ k"
    by (metis unat_drop_div unat_ucast_le)
  also have "\<dots> \<le> unat m div 2 ^ k"
    by (simp add: unat_and_le div_le_mono)
  finally show ?thesis using assms by simp
qed

lemma word_or_less:
  fixes a b :: u32
  shows "unat a < 2 ^ n \<Longrightarrow> unat b < 2 ^ n \<Longrightarrow> unat (a OR b) < 2 ^ n"
  by (simp add: unsigned_or_eq take_bit_nat_eq_self_iff [symmetric] take_bit_or)

lemma word_xor_less:
  fixes a b :: u32
  shows "unat a < 2 ^ n \<Longrightarrow> unat b < 2 ^ n \<Longrightarrow> unat (a XOR b) < 2 ^ n"
  by (simp add: unsigned_xor_eq take_bit_nat_eq_self_iff [symmetric] take_bit_xor)

lemma linear_index_less:
  assumes "m_nset cfg \<noteq> 0"
  shows "linear_index cfg addr < m_nset cfg"
proof -
  have "unat (linear_index cfg addr) \<le>
      unat (drop_bit (m_line_sz_log2 cfg) addr AND ucast (m_nset cfg - 1))"
    unfolding linear_index_def by (rule unat_ucast_le)
  also have "\<dots> \<le> unat (ucast (m_nset cfg - 1) :: u64)"
    by (rule unat_and_le)
  also have "\<dots> \<le> unat (m_nset cfg - 1)"
    by (simp add: unsigned_ucast_eq take_bit_nat_less_eq_self)
  also have "\<dots> < unat (m_nset cfg)"
    using assms by (simp add: unat_minus_one unat_gt_0)
  finally show ?thesis by (simp add: word_less_nat_alt)
qed

lemma fermi_hash_less:
  assumes "m_nset cfg = 32 \<or> m_nset cfg = 64"
  shows "fermi_hash cfg addr < m_nset cfg"
proof -
  have lower: "unat (ucast (drop_bit (m_line_sz_log2 cfg) addr AND 0x1F) :: u32) < 2 ^ 5"
    using ucast_drop_and_less [of "0x1F" 0 5 "drop_bit (m_line_sz_log2 cfg) addr"] by simp
  have up: "unat (ucast (drop_bit 13 (addr AND 0xE000)) :: u32) < 2 ^ 5"
    "unat (ucast (drop_bit 14 (addr AND 0x20000)) :: u32) < 2 ^ 5"
    "unat (ucast (drop_bit 15 (addr AND 0x80000)) :: u32) < 2 ^ 5"
    by (rule ucast_drop_and_less; simp)+
  have top: "unat (ucast (drop_bit 7 (addr AND 0x1000)) :: u32) < 2 ^ 6"
    by (rule ucast_drop_and_less) simp
  let ?x = "(ucast (drop_bit (m_line_sz_log2 cfg) addr AND 0x1F) :: u32) XOR
    (((ucast (drop_bit 13 (addr AND 0xE000)) :: u32) OR ucast (drop_bit 14 (addr AND 0x20000)))
       OR ucast (drop_bit 15 (addr AND 0x80000)))"
  have x5: "unat ?x < 2 ^ 5"
    by (intro word_xor_less word_or_less lower up)
  then have x6: "unat ?x < 2 ^ 6"
    by (rule less_trans) simp
  have x6': "unat (?x OR ucast (drop_bit 7 (addr AND 0x1000))) < 2 ^ 6"
    by (intro word_or_less x6 top)
  show ?thesis
  proof (cases "m_nset cfg = 64")
    case True
    then have "fermi_hash cfg addr = ?x OR ucast (drop_bit 7 (addr AND 0x1000))"
      by (simp add: fermi_hash_def Let_def)
    with x6' True show ?thesis by (simp add: word_less_nat_alt)
  next
    case False
    then have "fermi_hash cfg addr = ?x"
      by (simp add: fermi_hash_def Let_def)
    with x5 False assms show ?thesis by (simp add: word_less_nat_alt)
  qed
qed

lemma set_index_less:
  assumes "set_index cfg addr = Some i" and "m_nset cfg \<noteq> 0"
  shows "i < m_nset cfg"
  using assms
  by (auto simp: set_index_def base_set_index_def l1d_set_index_def l2_set_index_def
      linear_index_less split: config_class.splits option.splits if_splits
      set_index_function.splits)

subsection \<open>The logarithm\<close>

lemma log_stage:
  fixes v :: u32
  assumes "unat v < 2 ^ (2 * k)" and "k \<le> 16"
  shows "v AND push_bit k (mask k) \<noteq> 0 \<longleftrightarrow> 2 ^ k \<le> unat v"
proof -
  have small: "unat (drop_bit k v) < 2 ^ k"
    using assms(1) by (simp add: unat_drop_div less_mult_imp_div_less
        power_add [symmetric] mult_2)
  have "v AND push_bit k (mask k) = push_bit k (take_bit k (drop_bit k v))"
    by (rule bit_word_eqI) (auto simp: bit_simps)
  also have "take_bit k (drop_bit k v) = drop_bit k v"
    using small by (simp add: word_unat_eq_iff unsigned_take_bit_eq take_bit_nat_eq_self)
  finally have eq: "v AND push_bit k (mask k) = push_bit k (drop_bit k v)" .
  have "drop_bit k (push_bit k (drop_bit k v)) = drop_bit k v"
    by (rule bit_word_eqI) (auto simp: bit_simps dest: bit_imp_le_length)
  then have "push_bit k (drop_bit k v) = 0 \<longleftrightarrow> drop_bit k v = 0"
    by (metis drop_bit_of_0 push_bit_of_0)
  also have "drop_bit k v = 0 \<longleftrightarrow> unat v div 2 ^ k = 0"
    by (simp add: word_unat_eq_iff unat_drop_div)
  finally show ?thesis
    unfolding eq by (simp add: div_eq_0_iff not_less)
qed

lemma log_step:
  fixes v :: u32
  assumes "unat v < 2 ^ (2 * k)" and "k \<le> 16" and "0 < unat v"
    and "m = push_bit k (mask k)"
    and "s = (if v AND m \<noteq> 0 then k else 0)"
  shows "unat (drop_bit s v) < 2 ^ k" and "0 < unat (drop_bit s v)"
proof -
  have cond: "v AND m \<noteq> 0 \<longleftrightarrow> 2 ^ k \<le> unat v"
    using log_stage [OF assms(1,2)] assms(4) by simp
  show "unat (drop_bit s v) < 2 ^ k"
    using assms(1,5) cond
    by (auto simp: unat_drop_div less_mult_imp_div_less power_add [symmetric] mult_2)
  show "0 < unat (drop_bit s v)"
    using assms(3,5) cond by (auto simp: unat_drop_div div_greater_zero_iff)
qed

lemma or_disjoint_shifts:
  fixes s4 s3 s2 s1 s0 :: nat
  assumes "s4 \<in> {0, 16}" and "s3 \<in> {0, 8}" and "s2 \<in> {0, 4}" and "s1 \<in> {0, 2}"
    and "s0 \<in> {0, 1}"
  shows "(((s4 OR s3) OR s2) OR s1) OR s0 = s4 + s3 + s2 + s1 + s0"
  using assms by auto

text \<open>\<open>LOGB2\<close> is the integer logarithm of every nonzero value.\<close>

lemma LOGB2_is_log:
  assumes "v \<noteq> 0"
  shows "2 ^ LOGB2 v \<le> unat v \<and> unat v < 2 ^ (LOGB2 v + 1)"
proof -
  define s4 where "s4 = (if v AND 0xFFFF0000 \<noteq> 0 then 16 else 0 :: nat)"
  define v4 where "v4 = drop_bit s4 v"
  define s3 where "s3 = (if v4 AND 0xFF00 \<noteq> 0 then 8 else 0 :: nat)"
  define v3 where "v3 = drop_bit s3 v4"
  define s2 where "s2 = (if v3 AND 0xF0 \<noteq> 0 then 4 else 0 :: nat)"
  define v2 where "v2 = drop_bit s2 v3"
  define s1 where "s1 = (if v2 AND 0xC \<noteq> 0 then 2 else 0 :: nat)"
  define v1 where "v1 = drop_bit s1 v2"
  define s0 where "s0 = (if v1 AND 0x2 \<noteq> 0 then 1 else 0 :: nat)"
  have m: "(0xFFFF0000 :: u32) = push_bit 16 (mask 16)" "(0xFF00 :: u32) = push_bit 8 (mask 8)"
    "(0xF0 :: u32) = push_bit 4 (mask 4)" "(0xC :: u32) = push_bit 2 (mask 2)"
    "(0x2 :: u32) = push_bit 1 (mask 1)"
    by (simp_all add: mask_eq_exp_minus_1 push_bit_eq_mult)
  have b5: "unat v < 2 ^ (2 * 16)" "0 < unat v"
    using assms unsigned_less [of v] by (simp_all add: unat_gt_0)
  have b4: "unat v4 < 2 ^ 16" "0 < unat v4"
    using log_step [OF b5(1) _ b5(2) m(1) s4_def] by (simp_all add: v4_def)
  have b3: "unat v3 < 2 ^ 8" "0 < unat v3"
    using log_step [of v4 8, OF _ _ b4(2) m(2) s3_def] b4 by (simp_all add: v3_def)
  have b2: "unat v2 < 2 ^ 4" "0 < unat v2"
    using log_step [of v3 4, OF _ _ b3(2) m(3) s2_def] b3 by (simp_all add: v2_def)
  have b1: "unat v1 < 2 ^ 2" "0 < unat v1"
    using log_step [of v2 2, OF _ _ b2(2) m(4) s1_def] b2 by (simp_all add: v1_def)
  have b0: "unat (drop_bit s0 v1) < 2 ^ 1" "0 < unat (drop_bit s0 v1)"
    using log_step [of v1 1, OF _ _ b1(2) m(5) s0_def] b1 by simp_all
  have "LOGB2 v = (((s4 OR s3) OR s2) OR s1) OR s0"
    unfolding LOGB2_def Let_def s0_def v1_def s1_def v2_def s2_def v3_def s3_def v4_def s4_def
    by (rule refl)
  also have "\<dots> = s4 + s3 + s2 + s1 + s0"
    by (rule or_disjoint_shifts) (simp_all add: s4_def s3_def s2_def s1_def s0_def)
  finally have sum: "LOGB2 v = s4 + s3 + s2 + s1 + s0" .
  have "unat v div 2 ^ LOGB2 v = unat (drop_bit s0 v1)"
    unfolding sum v1_def v2_def v3_def v4_def
    by (simp only: drop_bit_drop_bit unat_drop_div ac_simps)
  then have "unat v div 2 ^ LOGB2 v = 1" using b0 by simp
  moreover have "unat v mod 2 ^ LOGB2 v < 2 ^ LOGB2 v" by simp
  ultimately show ?thesis
    using div_mult_mod_eq [of "unat v" "2 ^ LOGB2 v"] by (simp del: mod_less_divisor)
qed

subsection \<open>Set indices and tags\<close>

definition index_ok :: "cache_config \<Rightarrow> bool" where
  "index_ok cfg \<longleftrightarrow> m_nset cfg \<noteq> 0 \<and>
     (case m_class cfg of
        Base_config \<Rightarrow> m_set_index_function cfg = LINEAR_SET_FUNCTION
      | L1D_config \<Rightarrow> m_set_index_function cfg = LINEAR_SET_FUNCTION \<or>
          (m_set_index_function cfg = FERMI_HASH_SET_FUNCTION \<and>
             (m_nset cfg = 32 \<or> m_nset cfg = 64))
      | L2_config mapping \<Rightarrow> True)"

lemma set_index_total: "index_ok cfg \<Longrightarrow> \<exists>i. set_index cfg addr = Some i"
  using fermi_hash_less [of cfg addr]
  by (auto simp: index_ok_def set_index_def base_set_index_def l1d_set_index_def
      l2_set_index_def linear_index_less
      split: config_class.splits option.splits)

text \<open>
  For every address, a cache whose set-index function is linear, or is the Fermi hash
  with the 32 or 64 sets it is written for, computes an index below the number of sets: the
  bounds assertion of \<open>l1d_cache_config::set_index\<close> never fires and no line outside the array
  is read.
\<close>

theorem set_index_in_bounds:
  assumes "index_ok cfg"
  shows "\<exists>i. set_index cfg addr = Some i \<and> i < m_nset cfg"
  using assms set_index_total [OF assms, of addr] set_index_less [of cfg addr]
  by (auto simp: index_ok_def)

definition sample_l1d_config :: cache_config where
  "sample_l1d_config = \<lparr>m_class = L1D_config, m_nset = 32, m_line_sz = 128, m_assoc = 4,
     m_line_sz_log2 = 7, m_nset_log2 = 5, m_replacement_policy = LRU,
     m_write_policy = LOCAL_WB_GLOBAL_WT, m_alloc_policy = ON_MISS,
     m_write_alloc_policy = NO_WRITE_ALLOCATE, m_mshr_type = ASSOC, m_mshr_entries = 32,
     m_mshr_max_merge = 8, m_miss_queue_size = 8, m_result_fifo_entries = 0,
     m_data_port_width = 128, m_set_index_function = FERMI_HASH_SET_FUNCTION\<rparr>"

theorem set_index_in_bounds_witness:
  "\<exists>i. set_index sample_l1d_config 0xFFFFFFFFFF = Some i \<and> i < 32"
  using set_index_in_bounds [of sample_l1d_config "0xFFFFFFFFFF"]
  by (simp add: index_ok_def sample_l1d_config_def)

lemma tag_eq_block_addr: "tag cfg addr = block_addr cfg addr"
  by (simp add: tag_def block_addr_def)

lemma block_addr_idem [simp]: "block_addr cfg (block_addr cfg addr) = block_addr cfg addr"
  by (simp add: block_addr_def and.assoc)

lemma tag_block_addr [simp]: "tag cfg (block_addr cfg addr) = tag cfg addr"
  by (simp add: tag_eq_block_addr)

text \<open>
  The mask of \<open>tag\<close> and \<open>block_addr\<close> is computed at 32 bits and widened with
  zeros, so the upper half of a 64-bit address is dropped: two addresses that agree in their low
  32 bits have the same tag and block address, in every cache configuration, however far apart
  they are.
\<close>

theorem tag_ignores_upper_address_bits:
  "tag cfg (push_bit 32 hi OR ucast (lo :: u32)) = tag cfg (ucast lo) \<and>
   block_addr cfg (push_bit 32 hi OR ucast lo) = block_addr cfg (ucast lo)"
proof -
  have "(push_bit 32 hi OR ucast lo) AND ucast (NOT (m_line_sz cfg - 1)) =
        (ucast lo :: u64) AND ucast (NOT (m_line_sz cfg - 1))"
    by (rule bit_word_eqI) (auto simp: bit_simps)
  then show ?thesis by (simp add: tag_def block_addr_def)
qed

end
