(* ===== verification/Addrdec.thy ===== *)
theory Addrdec
  imports Cache_Config
begin

unbundle bit_operations_syntax

text \<open>
  The address decoder (\<open>gpgpu-sim/addrdec.cc\<close>): \<open>linear_to_raw_address_translation\<close>
  splits a linear address into the chip, bank, row, column and burst of the DRAM it lives in, and
  computes the address within its memory partition. Every field of the raw address gathers the
  address bits that a mask selects. The main results: gathering loses no selected bit, so decoding
  is injective on the bits the masks cover, and the masks that the option string describes do not
  overlap.
\<close>

datatype addr_field = CHIP | BK | ROW | COL | BURST

record addrdec_t =
  chip :: u32
  bk :: u32
  row :: u32
  col :: u32
  burst :: u32
  sub_partition :: u32

record address_translation =
  ADDR_CHIP_S :: int
  addrdec_mklow :: "addr_field \<Rightarrow> nat"
  addrdec_mkhigh :: "addr_field \<Rightarrow> nat"
  addrdec_mask :: "addr_field \<Rightarrow> u64"
  sub_partition_id_mask :: u64
  gap :: u32
  m_n_channel :: u32
  m_n_sub_partition_in_channel :: u32

subsection \<open>The arithmetic helpers\<close>

primrec powli :: "int \<Rightarrow> nat \<Rightarrow> int" where
  "powli x 0 = 1"
| "powli x (Suc y) = powli x y * x"

definition LOGB2_32 :: "u32 \<Rightarrow> nat" where
  "LOGB2_32 v =
     (let s4 = (if v AND 0xFFFF0000 \<noteq> 0 then 16 else 0); v = drop_bit s4 v;
          s3 = (if v AND 0xFF00 \<noteq> 0 then 8 else 0); v = drop_bit s3 v;
          s2 = (if v AND 0xF0 \<noteq> 0 then 4 else 0); v = drop_bit s2 v;
          s1 = (if v AND 0xC \<noteq> 0 then 2 else 0); v = drop_bit s1 v;
          s0 = (if v AND 0x2 \<noteq> 0 then 1 else 0)
      in (((s4 OR s3) OR s2) OR s1) OR s0)"

text \<open>The loop of \<open>addrdec_packbits\<close> over the bit positions, with its \<open>pos\<close> and \<open>result\<close>.\<close>

fun packbits_loop :: "u64 \<Rightarrow> u64 \<Rightarrow> nat list \<Rightarrow> nat \<Rightarrow> u64 \<Rightarrow> u64" where
  "packbits_loop msk val [] pos result = result"
| "packbits_loop msk val (i # rest) pos result =
     (if msk AND push_bit i 1 \<noteq> 0
      then packbits_loop msk val rest (pos + 1)
             (result OR push_bit pos (drop_bit i (val AND push_bit i 1)))
      else packbits_loop msk val rest pos result)"

definition addrdec_packbits :: "u64 \<Rightarrow> u64 \<Rightarrow> nat \<Rightarrow> nat \<Rightarrow> u64" where
  "addrdec_packbits msk val high low = packbits_loop msk val [low..<high] 0 0"

text \<open>\<open>addrdec_getmasklimit\<close>: the loop variables are \<open>high\<close>, \<open>low\<close>, \<open>low_found\<close>.\<close>

definition masklimit_step :: "u64 \<Rightarrow> nat \<Rightarrow> nat \<times> nat \<times> bool \<Rightarrow> nat \<times> nat \<times> bool" where
  "masklimit_step msk i = (\<lambda>(high, low, low_found).
     if msk AND push_bit i 1 \<noteq> 0
     then (if low_found then (i + 1, low, low_found) else (i + 1, i, True))
     else (high, low, low_found))"

definition addrdec_getmasklimit :: "u64 \<Rightarrow> nat \<times> nat" where
  "addrdec_getmasklimit msk =
     (case fold (masklimit_step msk) [0..<64] (64, 0, False) of (high, low, _) \<Rightarrow> (high, low))"

subsection \<open>Decoding an address\<close>

definition low_mask :: "nat \<Rightarrow> u64" where
  "low_mask s = push_bit s 1 - 1"

text \<open>
  With a number of channels that is not a power of two the address is split at
  \<open>ADDR_CHIP_S\<close>: the channel is the upper part modulo the number of channels, and the rest is
  the quotient above the lower part. Dividing by zero channels and shifting the \<open>int\<close> 1 out of
  its width are undefined.
\<close>

definition split_address :: "address_translation \<Rightarrow> u64 \<Rightarrow> (u64 \<times> u64) option" where
  "split_address t addr = do {
     require (0 \<le> ADDR_CHIP_S t \<and> ADDR_CHIP_S t < 31 \<and> m_n_channel t \<noteq> 0);
     let s = nat (ADDR_CHIP_S t);
     let n = (ucast (m_n_channel t) :: u64);
     Some (drop_bit s addr mod n,
           push_bit s (drop_bit s addr div n) OR (addr AND low_mask s))
   }"

definition pack_field :: "address_translation \<Rightarrow> addr_field \<Rightarrow> u64 \<Rightarrow> u32" where
  "pack_field t f addr =
     ucast (addrdec_packbits (addrdec_mask t f) addr (addrdec_mkhigh t f) (addrdec_mklow t f))"

definition addrdec_tlx :: "address_translation \<Rightarrow> u64 \<Rightarrow> addrdec_t option" where
  "addrdec_tlx t addr = do {
     (chip_id, rest) \<leftarrow>
       (if gap t = 0 then Some (pack_field t CHIP addr, addr)
        else do { (c, r) \<leftarrow> split_address t addr; Some (ucast c, r) });
     let bank = pack_field t BK rest;
     Some \<lparr>chip = chip_id, bk = bank, row = pack_field t ROW rest, col = pack_field t COL rest,
       burst = pack_field t BURST rest,
       sub_partition = chip_id * m_n_sub_partition_in_channel t
         + (bank AND (m_n_sub_partition_in_channel t - 1))\<rparr>
   }"

definition partition_address :: "address_translation \<Rightarrow> u64 \<Rightarrow> u64 option" where
  "partition_address t addr =
     (if gap t = 0
      then Some (addrdec_packbits (NOT (addrdec_mask t CHIP OR sub_partition_id_mask t)) addr 64 0)
      else do {
        (_, rest) \<leftarrow> split_address t addr;
        Some (addrdec_packbits (NOT (sub_partition_id_mask t)) rest 64 0)
      })"

subsection \<open>Setting the masks\<close>

text \<open>
  The loop of \<open>addrdec_parseoption\<close> over the characters of the mapping, from bit \<open>ofs\<close> down.
  Setting a bit at a negative offset is undefined; an unknown character is reported and skipped.
\<close>

definition set_mask_bit :: "addr_field \<Rightarrow> int \<Rightarrow> (addr_field \<Rightarrow> u64) \<Rightarrow> (addr_field \<Rightarrow> u64) option" where
  "set_mask_bit f ofs msk = do {
     require (0 \<le> ofs);
     Some (msk(f := msk f OR push_bit (nat ofs) 1))
   }"

text \<open>The masks a character sets the current bit of; \<open>None\<close> for a character that uses no bit.\<close>

definition mapping_fields :: "char \<Rightarrow> addr_field list option" where
  "mapping_fields c =
     (if c \<in> {CHR ''D'', CHR ''d''} then Some [CHIP]
      else if c \<in> {CHR ''B'', CHR ''b''} then Some [BK]
      else if c \<in> {CHR ''R'', CHR ''r''} then Some [ROW]
      else if c \<in> {CHR ''C'', CHR ''c''} then Some [COL]
      else if c \<in> {CHR ''S'', CHR ''s''} then Some [BURST, COL]
      else if c = CHR ''0'' then Some []
      else None)"

definition parse_char :: "bool \<Rightarrow> char \<Rightarrow> int \<times> (addr_field \<Rightarrow> u64) \<Rightarrow>
    (int \<times> (addr_field \<Rightarrow> u64)) option" where
  "parse_char dramid c = (\<lambda>(ofs, msk).
     (case mapping_fields c of
        None \<Rightarrow> Some (ofs, msk)
      | Some fs \<Rightarrow> do {
          require (\<not> (dramid \<and> CHIP \<in> set fs));
          msk' \<leftarrow> foldM (\<lambda>f. set_mask_bit f ofs) fs msk;
          Some (ofs - 1, msk')
        }))"

definition parse_mapping :: "bool \<Rightarrow> string \<Rightarrow> int \<Rightarrow> (addr_field \<Rightarrow> u64) \<Rightarrow>
    (int \<times> (addr_field \<Rightarrow> u64)) option" where
  "parse_mapping dramid cs ofs msk = foldM (parse_char dramid) cs (ofs, msk)"

text \<open>\<open>strchr(option, ';') + 1\<close>, or the whole option when there is no semicolon.\<close>

definition mapping_part :: "string \<Rightarrow> string" where
  "mapping_part opt =
     (if CHR '';'' \<in> set opt then tl (dropWhile (\<lambda>c. c \<noteq> CHR '';'') opt) else opt)"

text \<open>
  \<open>dramid\<close> is the number that \<open>sscanf(option, "dramid@%d", ...)\<close> read, \<open>None\<close> when it
  read none.
\<close>

definition addrdec_parseoption ::
    "int option \<Rightarrow> string \<Rightarrow> address_translation \<Rightarrow> address_translation option" where
  "addrdec_parseoption dramid opt t = do {
     let s = (case dramid of Some n \<Rightarrow> n | None \<Rightarrow> - 1);
     (ofs, msk) \<leftarrow> parse_mapping (dramid \<noteq> None) (mapping_part opt) 63 (\<lambda>_. 0);
     require (ofs = -1);
     Some (t\<lparr>ADDR_CHIP_S := s, addrdec_mask := msk\<rparr>)
   }"

text \<open>The table of \<open>init\<close>, indexed by \<open>gpgpu_mem_address_mask\<close>: chip shift, BK, ROW and COL.\<close>

definition preset_masks :: "int \<Rightarrow> (int \<times> u64 \<times> u64 \<times> u64) option" where
  "preset_masks n =
     (if n = 0 then Some (10, 0x300, 0x7FFE000, 0x1CFF)
      else if n = 1 then Some (13, 0x1800, 0x7FFE000, 0x7FF)
      else if n = 2 then Some (11, 0x1800, 0x7FFE000, 0x7FF)
      else if n = 3 then Some (11, 0x1800, 0xFFFE000, 0x7FF)
      else if n = 14 then Some (14, 0x1800, 0x7FFE000, 0x7FF)
      else if n = 15 then Some (15, 0x1800, 0x7FFE000, 0x7FF)
      else if n = 16 then Some (16, 0x1800, 0x7FFE000, 0x7FF)
      else if n = 6 then Some (6, 0x1800, 0x7FFE000, 0x7FF)
      else if n = 5 then Some (5, 0x1800, 0x7FFE000, 0x7FF)
      else if n = 100 then Some (1, 0x3, 0x7FFE000, 0x1FFC)
      else if n = 103 then Some (3, 0x3, 0x7FFE000, 0x1FFC)
      else if n = 106 then Some (6, 0x1800, 0x7FFE000, 0x7FF)
      else if n = 160 then Some (6, 0x300, 0x7FFE000, 0x1CFF)
      else None)"

definition translation_new :: address_translation where
  "translation_new = \<lparr>ADDR_CHIP_S = 10, addrdec_mklow = (\<lambda>_. 0), addrdec_mkhigh = (\<lambda>_. 64),
     addrdec_mask = (\<lambda>f. case f of CHIP \<Rightarrow> 0x1C00 | BK \<Rightarrow> 0x300 | ROW \<Rightarrow> 0xFFF0000
       | COL \<Rightarrow> 0xE0FF | BURST \<Rightarrow> 0xF),
     sub_partition_id_mask = 0, gap = 0, m_n_channel = 0, m_n_sub_partition_in_channel = 0\<rparr>"

definition use_preset :: "int \<Rightarrow> address_translation \<Rightarrow> address_translation" where
  "use_preset n t = (case preset_masks n of
       None \<Rightarrow> t
     | Some (s, b, r, c) \<Rightarrow> t\<lparr>ADDR_CHIP_S := s,
         addrdec_mask := (addrdec_mask t)(CHIP := 0, BK := b, ROW := r, COL := c)\<rparr>)"

text \<open>A msk with \<open>n\<close> bits of room inserted at bit \<open>s\<close>.\<close>

definition shift_above :: "nat \<Rightarrow> nat \<Rightarrow> u64 \<Rightarrow> u64" where
  "shift_above s n m = push_bit n (m AND NOT (low_mask s)) OR (m AND low_mask s)"

definition insert_chip_bits :: "nat \<Rightarrow> nat \<Rightarrow> (addr_field \<Rightarrow> u64) \<Rightarrow> addr_field \<Rightarrow> u64" where
  "insert_chip_bits s n msk = msk
     (BK := shift_above s n (msk BK), ROW := shift_above s n (msk ROW),
      COL := shift_above s n (msk COL),
      CHIP := fold (\<lambda>i m. m OR push_bit i 1) [s..<s + n] (msk CHIP))"

text \<open>The loop that collects the lowest \<open>n\<close> bits of the bank msk, with its \<open>break\<close>.\<close>

fun sub_mask_loop :: "u64 \<Rightarrow> nat \<Rightarrow> nat list \<Rightarrow> nat \<Rightarrow> u64 \<Rightarrow> u64" where
  "sub_mask_loop bkm n [] pos m = m"
| "sub_mask_loop bkm n (i # rest) pos m =
     (if bkm AND push_bit i 1 \<noteq> 0
      then (if n \<le> pos + 1 then m OR push_bit i 1
            else sub_mask_loop bkm n rest (pos + 1) (m OR push_bit i 1))
      else sub_mask_loop bkm n rest pos m)"

definition set_limits :: "address_translation \<Rightarrow> address_translation" where
  "set_limits t = t\<lparr>
     addrdec_mkhigh := (\<lambda>f. fst (addrdec_getmasklimit (addrdec_mask t f))),
     addrdec_mklow := (\<lambda>f. snd (addrdec_getmasklimit (addrdec_mask t f)))\<rparr>"

definition set_sub_mask :: "address_translation \<Rightarrow> address_translation" where
  "set_sub_mask t = t\<lparr>sub_partition_id_mask :=
     (if 1 < m_n_sub_partition_in_channel t
      then sub_mask_loop (addrdec_mask t BK) (LOGB2_32 (m_n_sub_partition_in_channel t))
             [addrdec_mklow t BK..<addrdec_mkhigh t BK] 0 0
      else 0)\<rparr>"

text \<open>
  \<open>init\<close>; \<open>opt\<close> is the option string, if one was given, with the number \<open>sscanf\<close> reads in
  it. \<open>None\<close> is a failed assertion or a shift by more than the width.
\<close>

definition translation_init :: "int \<Rightarrow> (int option \<times> string) option \<Rightarrow> u32 \<Rightarrow> u32 \<Rightarrow>
    address_translation \<Rightarrow> address_translation option" where
  "translation_init preset opt n_channel n_sub t0 = do {
     let nchipbits = LOGB2_32 n_channel;
     let g = n_channel - word_of_int (powli 2 nchipbits);
     let nchipbits = (if g \<noteq> 0 then nchipbits + 1 else nchipbits);
     let t = use_preset preset (t0\<lparr>m_n_channel := n_channel,
       m_n_sub_partition_in_channel := n_sub, gap := g\<rparr>);
     t \<leftarrow> (case opt of None \<Rightarrow> Some t
         | Some (dramid, str) \<Rightarrow> addrdec_parseoption dramid str t);
     t \<leftarrow> (if ADDR_CHIP_S t \<noteq> -1 then
            (if g = 0 then do {
               require (0 \<le> ADDR_CHIP_S t \<and> ADDR_CHIP_S t < 64 \<and>
                 nat (ADDR_CHIP_S t) + nchipbits \<le> 64);
               Some (t\<lparr>addrdec_mask :=
                 insert_chip_bits (nat (ADDR_CHIP_S t)) nchipbits (addrdec_mask t)\<rparr>)
             } else Some t)
          else do { require (n_channel AND (n_channel - 1) = 0); Some t });
     require (n_sub AND (n_sub - 1) = 0);
     Some (set_sub_mask (set_limits t))
   }"

subsection \<open>Comparing raw addresses, and the sweep test\<close>

definition addrdec_less :: "addrdec_t \<Rightarrow> addrdec_t \<Rightarrow> bool" where
  "addrdec_less x y =
     (if chip x \<ge> chip y then False
      else if bk x \<ge> bk y then False
      else if row x \<ge> row y then False
      else if col x \<ge> col y then False
      else if burst x \<ge> burst y then False
      else True)"

text \<open>
  One iteration of \<open>sweep_test\<close> on the hash map of the raw addresses seen so far; \<open>None\<close> is
  the abort on an alias or one of the two assertions.
\<close>

definition sweep_step :: "address_translation \<Rightarrow> u64 \<Rightarrow> (addrdec_t \<rightharpoonup> u64) \<Rightarrow>
    (addrdec_t \<rightharpoonup> u64) option" where
  "sweep_step t raw_addr history = do {
     tlx \<leftarrow> addrdec_tlx t raw_addr;
     require (history tlx = None);
     require (sint (chip tlx) < sint (m_n_channel t));
     (if (ADDR_CHIP_S t \<noteq> -1 \<and> raw_addr \<ge> push_bit (nat (ADDR_CHIP_S t)) 1) \<or>
         (ADDR_CHIP_S t = -1 \<and> raw_addr \<ge> push_bit (addrdec_mklow t CHIP) 1)
      then do {
        pa \<leftarrow> partition_address t raw_addr;
        require (raw_addr \<noteq> pa);
        Some (history(tlx \<mapsto> raw_addr))
      } else Some (history(tlx \<mapsto> raw_addr)))
   }"

definition sweep_test :: "address_translation \<Rightarrow> u64 list \<Rightarrow> (addrdec_t \<rightharpoonup> u64) option" where
  "sweep_test t addrs = foldM (sweep_step t) addrs Map.empty"

definition sweep_addresses :: "u64 list" where
  "sweep_addresses = map (\<lambda>k. of_nat (4 * k)) [1..<16 * 1024 * 1024 div 4]"

subsection \<open>Packed bits\<close>

definition positions :: "u64 \<Rightarrow> nat \<Rightarrow> nat \<Rightarrow> nat list" where
  "positions msk low high = filter (bit msk) [low..<high]"

lemma and_bit_zero: "msk AND 2 ^ i = 0 \<longleftrightarrow> \<not> bit msk i"
  for msk :: "'a::len word"
  using bit_iff_and_push_bit_not_eq_0 [of msk i] by (simp add: push_bit_of_1)

lemma and_bit_nonzero: "msk AND push_bit i 1 \<noteq> 0 \<longleftrightarrow> bit msk i"
  for msk :: u64
  by (simp add: bit_iff_and_push_bit_not_eq_0)

lemma bit_packbits_loop:
  "bit (packbits_loop msk val is pos r) k \<longleftrightarrow> k < 64 \<and> (bit r k \<or>
     (pos \<le> k \<and> k - pos < length (filter (bit msk) is) \<and>
      bit val (filter (bit msk) is ! (k - pos))))"
proof (induction "is" arbitrary: pos r)
  case Nil
  then show ?case by (auto dest: bit_imp_le_length)
next
  case (Cons i "is")
  have i: "bit (r OR push_bit pos (drop_bit i (val AND push_bit i 1))) k \<longleftrightarrow>
      k < 64 \<and> (bit r k \<or> k = pos \<and> bit val i)"
    by (auto simp: bit_simps dest: bit_imp_le_length)
  show ?case
  proof (cases "bit msk i")
    case True
    then show ?thesis
      using Cons [of "pos + 1" "r OR push_bit pos (drop_bit i (val AND push_bit i 1))"] i
      by (cases "k = pos") (auto simp: and_bit_zero nth_Cons' Suc_le_eq)
  next
    case False
    with Cons [of pos r] show ?thesis by (simp add: and_bit_zero)
  qed
qed

lemma bit_packbits:
  "bit (addrdec_packbits msk val high low) k \<longleftrightarrow> k < 64 \<and> k < length (positions msk low high) \<and>
     bit val (positions msk low high ! k)"
  by (simp add: addrdec_packbits_def bit_packbits_loop positions_def)

lemma packbits_agree:
  assumes "\<And>k. k < n \<Longrightarrow> bit (addrdec_packbits msk a high low) k = bit (addrdec_packbits msk b high low) k"
    and "length (positions msk low high) \<le> n" and "n \<le> 64"
    and "i \<in> set (positions msk low high)"
  shows "bit a i = bit b i"
proof -
  obtain k where k: "k < length (positions msk low high)" "positions msk low high ! k = i"
    using assms(4) by (auto simp: in_set_conv_nth)
  with assms(1) [of k] assms(2,3) show ?thesis by (simp add: bit_packbits)
qed

subsection \<open>The limits of a mask\<close>

definition masklimit_ok :: "u64 \<Rightarrow> nat \<Rightarrow> nat \<times> nat \<times> bool \<Rightarrow> bool" where
  "masklimit_ok w n = (\<lambda>(high, low, found).
     (found \<longleftrightarrow> (\<exists>i < n. bit w i)) \<and>
     (\<forall>i < n. bit w i \<longrightarrow> low \<le> i \<and> i < high) \<and> (found \<longrightarrow> low < n))"

lemma masklimit_ok_step:
  assumes "masklimit_ok w n s"
  shows "masklimit_ok w (Suc n) (masklimit_step w n s)"
proof -
  obtain h l f where s: "s = (h, l, f)" by (cases s) auto
  show ?thesis
  proof (cases "bit w n")
    case True
    with assms s show ?thesis
      by (cases f) (auto simp: masklimit_ok_def masklimit_step_def and_bit_zero less_Suc_eq)
  next
    case False
    with assms s show ?thesis
      by (auto simp: masklimit_ok_def masklimit_step_def and_bit_zero less_Suc_eq)
  qed
qed

lemma masklimit_invariant:
  "masklimit_ok w n (fold (masklimit_step w) [0..<n] (64, 0, False))"
  by (induction n) (simp add: masklimit_ok_def, simp add: masklimit_ok_step)

lemma getmasklimit_covers:
  assumes "bit w i"
  shows "snd (addrdec_getmasklimit w) \<le> i \<and> i < fst (addrdec_getmasklimit w)"
proof -
  have "i < 64" using assms by (auto dest: bit_imp_le_length)
  with masklimit_invariant [of w 64] assms show ?thesis
    by (auto simp: addrdec_getmasklimit_def masklimit_ok_def split: prod.splits)
qed

definition limits_ok :: "address_translation \<Rightarrow> bool" where
  "limits_ok t \<longleftrightarrow> (\<forall>f i. bit (addrdec_mask t f) i \<longrightarrow> addrdec_mklow t f \<le> i \<and> i < addrdec_mkhigh t f)"

lemma set_limits_ok: "limits_ok (set_limits t)"
  by (simp add: limits_ok_def set_limits_def getmasklimit_covers)

definition field_positions :: "address_translation \<Rightarrow> addr_field \<Rightarrow> nat list" where
  "field_positions t f = positions (addrdec_mask t f) (addrdec_mklow t f) (addrdec_mkhigh t f)"

definition narrow_fields :: "address_translation \<Rightarrow> bool" where
  "narrow_fields t \<longleftrightarrow> (\<forall>f. length (field_positions t f) \<le> 32)"

lemma field_positions_set:
  "limits_ok t \<Longrightarrow> i \<in> set (field_positions t f) \<longleftrightarrow> bit (addrdec_mask t f) i"
  by (auto simp: field_positions_def positions_def limits_ok_def)

lemma bit_pack_field:
  "bit (pack_field t f a) k \<longleftrightarrow> k < 32 \<and> k < length (field_positions t f) \<and>
     bit a (field_positions t f ! k)"
  by (auto simp: pack_field_def bit_simps bit_packbits field_positions_def)

text \<open>Equal fields come from addresses that agree on the bits of the field's mask.\<close>

lemma pack_field_agree:
  assumes "pack_field t f a = pack_field t f b" and "limits_ok t" and "narrow_fields t"
    and "bit (addrdec_mask t f) i"
  shows "bit a i = bit b i"
proof -
  have "i \<in> set (field_positions t f)"
    using assms(2,4) by (simp add: field_positions_set)
  then obtain k where k: "k < length (field_positions t f)" "field_positions t f ! k = i"
    by (auto simp: in_set_conv_nth)
  moreover have "length (field_positions t f) \<le> 32"
    using assms(3) by (simp add: narrow_fields_def)
  ultimately show ?thesis
    using bit_pack_field [of t f a k] bit_pack_field [of t f b k] assms(1) by simp
qed

subsection \<open>Decoding is injective\<close>

text \<open>Every one of the \<open>l\<close> lowest address bits goes to some field.\<close>

definition covers :: "address_translation \<Rightarrow> nat \<Rightarrow> bool" where
  "covers t l \<longleftrightarrow> (\<forall>i < l. \<exists>f. (gap t = 0 \<or> f \<noteq> CHIP) \<and> bit (addrdec_mask t f) i)"

lemma low_bits_eqI:
  fixes a b :: u64
  assumes "\<And>i. i < l \<Longrightarrow> bit a i = bit b i" and "unat a < 2 ^ l" and "unat b < 2 ^ l"
  shows "a = b"
proof (rule bit_word_eqI)
  fix i :: nat
  show "bit a i = bit b i"
  proof (cases "i < l")
    case False
    have "\<not> bit w i" if "unat w < 2 ^ l" for w :: u64
    proof -
      have "unat w < 2 ^ i"
        using that False by (meson dual_order.strict_trans2 not_le one_le_numeral power_increasing)
      then have "unat (drop_bit i w) = 0" by (simp add: unat_drop_div)
      then have "drop_bit i w = 0" by (simp only: unat_eq_zero)
      then show ?thesis by (simp add: bit_iff_odd_drop_bit)
    qed
    with assms(2,3) show ?thesis by simp
  qed (rule assms(1))
qed

lemma unat_low_part: "unat (a AND low_mask s) = unat a mod 2 ^ s" if "s < 64"
proof -
  have "low_mask s = mask s"
    by (simp add: low_mask_def mask_eq_exp_minus_1)
  then have "a AND low_mask s = take_bit s a"
    by (simp add: take_bit_eq_mask)
  then show ?thesis
    by (simp only: unat_take_mod)
qed

text \<open>The quotient keeps the address below its value, and the two halves do not overlap.\<close>

lemma split_address_eq:
  assumes "split_address t a = Some (c, r)"
  shows "\<exists>s n. s < 31 \<and> n = unat (m_n_channel t) \<and> 0 < n \<and> s = nat (ADDR_CHIP_S t) \<and>
    unat c = unat a div 2 ^ s mod n \<and> unat r = unat a div 2 ^ s div n * 2 ^ s + unat a mod 2 ^ s"
proof -
  let ?s = "nat (ADDR_CHIP_S t)" and ?n = "unat (m_n_channel t)"
  have s: "0 \<le> ADDR_CHIP_S t" "?s < 31" and n: "0 < ?n"
    and c: "c = drop_bit ?s a mod ucast (m_n_channel t)"
    and r: "r = push_bit ?s (drop_bit ?s a div ucast (m_n_channel t)) OR (a AND low_mask ?s)"
    using assms by (auto simp: split_address_def Let_def word_gt_0 unat_gt_0 split: if_splits)
  have q: "unat (drop_bit ?s a div ucast (m_n_channel t)) = unat a div 2 ^ ?s div ?n"
    by (simp add: unat_div unat_drop_div)
  have c': "unat c = unat a div 2 ^ ?s mod ?n"
    by (simp add: c unat_mod unat_drop_div)
  have bound: "unat a div 2 ^ ?s div ?n * 2 ^ ?s \<le> unat a"
    by (meson div_le_dividend div_times_less_eq_dividend dual_order.trans mult_le_mono1)
  then have "unat a div 2 ^ ?s div ?n * 2 ^ ?s < 2 ^ 64"
    using unat_u64_less [of a] by simp
  then have hi: "unat (push_bit ?s (drop_bit ?s a div ucast (m_n_channel t)))
      = unat a div 2 ^ ?s div ?n * 2 ^ ?s"
    using unat_push_mult [of "drop_bit ?s a div ucast (m_n_channel t)" ?s] q by simp
  have "push_bit ?s (drop_bit ?s a div ucast (m_n_channel t)) AND (a AND low_mask ?s) = 0"
    by (rule bit_word_eqI) (auto simp: bit_simps low_mask_def mask_eq_exp_minus_1 [symmetric]
        simp flip: mask_eq_exp_minus_1)
  then have "unat r = unat (push_bit ?s (drop_bit ?s a div ucast (m_n_channel t)))
      + unat (a AND low_mask ?s)"
    unfolding r by (rule unat_or_disjoint)
  then have "unat r = unat a div 2 ^ ?s div ?n * 2 ^ ?s + unat a mod 2 ^ ?s"
    using hi unat_low_part [of ?s a] s by simp
  with s n c' show ?thesis by blast
qed

lemma split_address_inj:
  assumes "split_address t a = Some (c, r)" and "split_address t b = Some (d, r)"
    and "(ucast c :: u32) = ucast d"
  shows "a = b"
proof -
  let ?s = "nat (ADDR_CHIP_S t)" and ?n = "unat (m_n_channel t)"
  have n: "0 < ?n" and ca: "unat c = unat a div 2 ^ ?s mod ?n"
    and cb: "unat d = unat b div 2 ^ ?s mod ?n"
    and ra: "unat r = unat a div 2 ^ ?s div ?n * 2 ^ ?s + unat a mod 2 ^ ?s"
    and rb: "unat r = unat b div 2 ^ ?s div ?n * 2 ^ ?s + unat b mod 2 ^ ?s"
    using split_address_eq [OF assms(1)] split_address_eq [OF assms(2)] by auto
  have "unat c < 2 ^ 32" "unat d < 2 ^ 32"
    using ca cb n unat_u32_less [of "m_n_channel t"] by (simp_all add: less_trans [of _ ?n])
  with assms(3) have cd: "unat c = unat d"
    using unat_ucast_u32 [of c] unat_ucast_u32 [of d] by simp
  have lows: "unat a mod 2 ^ ?s = unat b mod 2 ^ ?s"
    and quots: "unat a div 2 ^ ?s div ?n = unat b div 2 ^ ?s div ?n"
  proof -
    have "x mod 2 ^ ?s = unat r mod 2 ^ ?s" "x div 2 ^ ?s div ?n = unat r div 2 ^ ?s"
      if "unat r = x div 2 ^ ?s div ?n * 2 ^ ?s + x mod 2 ^ ?s" for x
      unfolding that by simp_all
    from this [OF ra] this [OF rb]
    show "unat a mod 2 ^ ?s = unat b mod 2 ^ ?s"
      "unat a div 2 ^ ?s div ?n = unat b div 2 ^ ?s div ?n" by simp_all
  qed
  have "unat a div 2 ^ ?s = unat b div 2 ^ ?s"
    using quots ca cb cd by (metis div_mult_mod_eq)
  with lows have "unat a = unat b" by (metis div_mult_mod_eq)
  then show ?thesis by (simp only: word_unat_eq_iff)
qed

lemma split_address_le:
  assumes "split_address t a = Some (c, r)"
  shows "unat r \<le> unat a"
proof -
  let ?s = "nat (ADDR_CHIP_S t)"
  have "unat r = unat a div 2 ^ ?s div unat (m_n_channel t) * 2 ^ ?s + unat a mod 2 ^ ?s"
    using split_address_eq [OF assms] by auto
  also have "\<dots> \<le> unat a div 2 ^ ?s * 2 ^ ?s + unat a mod 2 ^ ?s"
    by (intro add_mono mult_le_mono1 div_le_dividend order_refl)
  finally show ?thesis by (simp only: div_mult_mod_eq)
qed

text \<open>
  Property C38: address decoding is injective. If the masks send each of the lowest \<open>l\<close> address
  bits to a field, within the limits \<open>init\<close> computes and with no field wider than 32 bits, then
  two addresses below \<open>2 ^ l\<close> with the same chip, bank, row, column and burst are the same
  address. This holds both for a power-of-two number of channels and for the modulo mapping
  used otherwise.
\<close>

theorem address_decode_injective:
  assumes "limits_ok t" and "narrow_fields t" and "covers t l"
    and "unat a < 2 ^ l" and "unat b < 2 ^ l"
    and "addrdec_tlx t a = Some x" and "addrdec_tlx t b = Some x"
  shows "a = b"
proof (cases "gap t = 0")
  case True
  with assms(6,7) have eq: "pack_field t f a = pack_field t f b" for f
    by (cases f) (auto simp: addrdec_tlx_def Let_def)
  show ?thesis
  proof (rule low_bits_eqI [OF _ assms(4,5)])
    fix i assume "i < l"
    with assms(3) obtain f where "bit (addrdec_mask t f) i" by (auto simp: covers_def)
    with eq [of f] assms(1,2) show "bit a i = bit b i"
      using pack_field_agree [of t f a b i] by simp
  qed
next
  case False
  then obtain c r d u where sa: "split_address t a = Some (c, r)"
    and sb: "split_address t b = Some (d, u)" and cd: "(ucast c :: u32) = ucast d"
    and eqs: "pack_field t BK r = pack_field t BK u" "pack_field t ROW r = pack_field t ROW u"
      "pack_field t COL r = pack_field t COL u" "pack_field t BURST r = pack_field t BURST u"
    using assms(6,7)
    by (cases "split_address t a"; cases "split_address t b") (auto simp: addrdec_tlx_def Let_def)
  have eq: "f \<noteq> CHIP \<Longrightarrow> pack_field t f r = pack_field t f u" for f
    using eqs by (cases f) simp_all
  have "r = u"
  proof (rule low_bits_eqI)
    show "unat r < 2 ^ l" "unat u < 2 ^ l"
      using split_address_le [OF sa] split_address_le [OF sb] assms(4,5) by auto
    fix i assume "i < l"
    with assms(3) False obtain f where "f \<noteq> CHIP" "bit (addrdec_mask t f) i"
      by (auto simp: covers_def)
    with eq [of f] assms(1,2) show "bit r i = bit u i"
      using pack_field_agree [of t f r u i] by simp
  qed
  with sa sb cd show ?thesis by (auto intro: split_address_inj)
qed

text \<open>Three channels, selected above bit 2; the rest of the address is the column.\<close>

definition three_channels :: address_translation where
  "three_channels = translation_new\<lparr>ADDR_CHIP_S := 2, addrdec_mask := (\<lambda>f. if f = COL then 0xF else 0),
     addrdec_mklow := (\<lambda>_. 0), addrdec_mkhigh := (\<lambda>_. 4), gap := 1,
     m_n_channel := 3, m_n_sub_partition_in_channel := 1\<rparr>"

lemma three_channels_ok: "limits_ok three_channels" "narrow_fields three_channels"
  "covers three_channels 4"
proof -
  have "(0xF :: u64) = mask 4" by (simp add: mask_eq_exp_minus_1)
  then have bits: "bit (0xF :: u64) i \<longleftrightarrow> i < 4" for i
    by (simp only: bit_mask_iff) auto
  show "limits_ok three_channels"
    using bits [THEN iffD1] by (fastforce simp: limits_ok_def three_channels_def split: if_splits)
  show "narrow_fields three_channels"
  proof -
    have "length (filter p [0..<4]) \<le> 32" for p :: "nat \<Rightarrow> bool"
      by (rule order_trans [OF length_filter_le]) simp
    then show ?thesis
      by (simp add: narrow_fields_def field_positions_def positions_def three_channels_def
          translation_new_def)
  qed
  show "covers three_channels 4"
    using bits [THEN iffD2] by (fastforce simp: covers_def three_channels_def)
qed

theorem address_decode_injective_witness:
  "addrdec_tlx three_channels 6 \<noteq> addrdec_tlx three_channels 10"
proof
  assume eq: "addrdec_tlx three_channels 6 = addrdec_tlx three_channels 10"
  obtain x where x: "addrdec_tlx three_channels 6 = Some x"
    by (simp add: addrdec_tlx_def split_address_def three_channels_def Let_def)
  have "(6 :: u64) = 10"
    by (rule address_decode_injective [OF three_channels_ok _ _ x]) (use eq x in simp_all)
  then show False by simp
qed

subsection \<open>The option string describes disjoint masks\<close>

definition masks_above :: "int \<Rightarrow> (addr_field \<Rightarrow> u64) \<Rightarrow> bool" where
  "masks_above ofs msk \<longleftrightarrow>
     (\<forall>f i. bit (msk f) i \<longrightarrow> ofs < int i) \<and>
     (\<forall>f g i. bit (msk f) i \<longrightarrow> bit (msk g) i \<longrightarrow> f = g \<or> {f, g} = {BURST, COL}) \<and>
     (\<forall>i. bit (msk BURST) i \<longrightarrow> bit (msk COL) i)"

lemma set_mask_bit_eq:
  "set_mask_bit f ofs msk = Some msk' \<longleftrightarrow>
     0 \<le> ofs \<and> msk' = msk(f := msk f OR push_bit (nat ofs) 1)"
  by (auto simp: set_mask_bit_def)

lemma bit_or_pow: "bit (m OR push_bit k 1) i \<longleftrightarrow> bit m i \<or> i = k \<and> k < 64"
  for m :: u64
  by (auto simp: bit_simps)

lemma masks_above_step:
  assumes "masks_above ofs msk" and "mapping_fields c = Some fs" and "0 \<le> ofs"
    and "\<And>f i. bit (msk' f) i \<longleftrightarrow> bit (msk f) i \<or> f \<in> set fs \<and> i = nat ofs \<and> nat ofs < 64"
  shows "masks_above (ofs - 1) msk'"
proof -
  have fs: "fs = [] \<or> (\<exists>f. fs = [f] \<and> f \<noteq> BURST) \<or> fs = [BURST, COL]"
    using assms(2) by (auto simp: mapping_fields_def split: if_splits)
  have fresh: "\<not> bit (msk f) (nat ofs)" for f
    using assms(1,3) unfolding masks_above_def by (metis int_nat_eq less_irrefl)
  have 1: "\<forall>f i. bit (msk' f) i \<longrightarrow> ofs - 1 < int i"
    using assms(1,3,4) by (fastforce simp: masks_above_def)
  have 2: "\<forall>f g i. bit (msk' f) i \<longrightarrow> bit (msk' g) i \<longrightarrow> f = g \<or> {f, g} = {BURST, COL}"
    using assms(1,4) fresh fs by (auto simp: masks_above_def)
  have 3: "\<forall>i. bit (msk' BURST) i \<longrightarrow> bit (msk' COL) i"
    using assms(1,4) fs by (auto simp: masks_above_def)
  from 1 2 3 show ?thesis by (simp only: masks_above_def)
qed

lemma set_fields_bits:
  "foldM (\<lambda>f. set_mask_bit f ofs) fs msk = Some msk' \<Longrightarrow>
   bit (msk' f) i \<longleftrightarrow> bit (msk f) i \<or> f \<in> set fs \<and> i = nat ofs \<and> nat ofs < 64"
proof (induction fs arbitrary: msk)
  case (Cons g fs)
  then have "foldM (\<lambda>f. set_mask_bit f ofs) fs (msk(g := msk g OR push_bit (nat ofs) 1)) = Some msk'"
    by (auto simp: bind_eq_Some_iff set_mask_bit_eq)
  from Cons.IH [OF this] show ?case by (auto simp: bit_or_pow simp del: push_bit_of_1)
qed simp

lemma set_fields_offset:
  "foldM (\<lambda>f. set_mask_bit f ofs) fs msk = Some msk' \<Longrightarrow> fs \<noteq> [] \<Longrightarrow> 0 \<le> ofs"
  by (cases fs) (auto simp: bind_eq_Some_iff set_mask_bit_eq)

lemma masks_above_weaken: "masks_above ofs msk \<Longrightarrow> masks_above (ofs - 1) msk"
  by (force simp: masks_above_def)

lemma parse_mapping_disjoint:
  "parse_mapping dramid cs ofs msk = Some (ofs', msk') \<Longrightarrow> masks_above ofs msk \<Longrightarrow>
   masks_above ofs' msk'"
  unfolding parse_mapping_def
proof (induction cs arbitrary: ofs msk)
  case (Cons c cs)
  then obtain o1 m1 where c: "parse_char dramid c (ofs, msk) = Some (o1, m1)"
    and r: "foldM (parse_char dramid) cs (o1, m1) = Some (ofs', msk')"
    by (auto simp: bind_eq_Some_iff)
  have "masks_above o1 m1"
  proof (cases "mapping_fields c")
    case None
    with c Cons.prems(2) show ?thesis by (simp add: parse_char_def)
  next
    case (Some fs)
    with c have o1: "o1 = ofs - 1" and m1: "foldM (\<lambda>f. set_mask_bit f ofs) fs msk = Some m1"
      by (auto simp: parse_char_def bind_eq_Some_iff split: if_splits)
    show ?thesis
    proof (cases "fs = []")
      case True
      with m1 o1 Cons.prems(2) show ?thesis by (simp add: masks_above_weaken)
    next
      case False
      from masks_above_step [OF Cons.prems(2) Some set_fields_offset [OF m1 False]
          set_fields_bits [OF m1]]
      show ?thesis by (simp add: o1)
    qed
  qed
  with r show ?case by (rule Cons.IH)
qed simp

text \<open>
  The option string cannot describe an ambiguous mapping. Whatever string
  \<open>addrdec_parseoption\<close> accepts, each address bit belongs to at most one of the chip, bank, row
  and column masks, and the burst bits are column bits.
\<close>

theorem parsed_masks_disjoint:
  assumes "addrdec_parseoption dramid opt t = Some t'"
  shows "(\<forall>f \<in> {CHIP, BK, ROW, COL}. \<forall>g \<in> {CHIP, BK, ROW, COL}. f \<noteq> g \<longrightarrow>
           addrdec_mask t' f AND addrdec_mask t' g = 0) \<and>
         addrdec_mask t' BURST AND addrdec_mask t' COL = addrdec_mask t' BURST"
proof -
  have "masks_above (-1) (addrdec_mask t')"
  proof -
    obtain m where m: "parse_mapping (dramid \<noteq> None) (mapping_part opt) 63 (\<lambda>_. 0) = Some (-1, m)"
      and "addrdec_mask t' = m"
      using assms by (auto simp: addrdec_parseoption_def bind_eq_Some_iff split: if_splits)
    moreover have "masks_above 63 (\<lambda>_. 0)" by (simp add: masks_above_def)
    ultimately show ?thesis using parse_mapping_disjoint by blast
  qed
  then have ex: "\<And>f g i. bit (addrdec_mask t' f) i \<Longrightarrow> bit (addrdec_mask t' g) i \<Longrightarrow>
      f = g \<or> {f, g} = {BURST, COL}"
    and sub: "\<And>i. bit (addrdec_mask t' BURST) i \<Longrightarrow> bit (addrdec_mask t' COL) i"
    by (simp_all add: masks_above_def)
  have "addrdec_mask t' f AND addrdec_mask t' g = 0"
    if "f \<noteq> g" "f \<noteq> BURST" "g \<noteq> BURST" for f g
  proof (rule bit_word_eqI)
    fix i
    show "bit (addrdec_mask t' f AND addrdec_mask t' g) i \<longleftrightarrow> bit (0 :: u64) i"
      using ex [of f i g] that by (auto simp: bit_simps doubleton_eq_iff)
  qed
  moreover have "addrdec_mask t' BURST AND addrdec_mask t' COL = addrdec_mask t' BURST"
    by (rule bit_word_eqI) (use sub in \<open>auto simp: bit_simps\<close>)
  ultimately show ?thesis by auto
qed

definition sample_mapping :: string where
  "sample_mapping = replicate 60 (CHR ''0'') @ ''RRBC''"

lemma parse_zeros:
  "foldM (parse_char d) (replicate n (CHR ''0'')) (ofs, m) = Some (ofs - int n, m)"
  by (induction n arbitrary: ofs) (simp_all add: parse_char_def mapping_fields_def)

theorem parsed_masks_disjoint_witness:
  "\<exists>t'. addrdec_parseoption None sample_mapping translation_new = Some t' \<and>
     addrdec_mask t' ROW = 0xC \<and> addrdec_mask t' BK AND addrdec_mask t' ROW = 0"
proof -
  have "mapping_part sample_mapping = sample_mapping"
    by (simp add: mapping_part_def sample_mapping_def)
  then obtain t' where t': "addrdec_parseoption None sample_mapping translation_new = Some t'"
    "addrdec_mask t' ROW = 0xC"
    by (simp add: addrdec_parseoption_def parse_mapping_def)
      (simp add: sample_mapping_def foldM_append parse_zeros parse_char_def mapping_fields_def
        set_mask_bit_def)
  with parsed_masks_disjoint [OF t'(1)] show ?thesis by auto
qed

subsection \<open>The sweep test\<close>

lemma sweep_step_eq:
  assumes "sweep_step t a h = Some h'"
  shows "\<exists>x. addrdec_tlx t a = Some x \<and> h x = None \<and> h' = h(x \<mapsto> a)"
  using assms by (auto simp: sweep_step_def bind_eq_Some_iff split: if_splits)

lemma sweep_history:
  "foldM (sweep_step t) addrs h = Some h' \<Longrightarrow> distinct (map (addrdec_tlx t) addrs) \<and>
   (\<forall>a \<in> set addrs. \<forall>x. addrdec_tlx t a = Some x \<longrightarrow> h x = None) \<and>
   (\<forall>a \<in> set addrs. addrdec_tlx t a \<noteq> None)"
proof (induction addrs arbitrary: h)
  case (Cons a addrs)
  then obtain h1 where h1: "sweep_step t a h = Some h1" "foldM (sweep_step t) addrs h1 = Some h'"
    by (auto simp: bind_eq_Some_iff)
  obtain x where x: "addrdec_tlx t a = Some x" "h x = None" "h1 = h(x \<mapsto> a)"
    using sweep_step_eq [OF h1(1)] by blast
  from Cons.IH [OF h1(2)] x show ?case by (auto split: if_splits)
qed simp

text \<open>
  The sweep test is sound. If it ends without an abort, then no two positions of
  the swept list decode to the same raw address.
\<close>

theorem sweep_test_sound:
  assumes "sweep_test t addrs = Some h" and "i < length addrs" and "j < length addrs" and "i \<noteq> j"
  shows "addrdec_tlx t (addrs ! i) \<noteq> addrdec_tlx t (addrs ! j)"
  using sweep_history [of t addrs] assms by (auto simp: sweep_test_def distinct_conv_nth)

definition column_only :: address_translation where
  "column_only = translation_new\<lparr>addrdec_mask := (\<lambda>f. if f = COL then 0xC else 0),
     addrdec_mklow := (\<lambda>_. 2), addrdec_mkhigh := (\<lambda>_. 4),
     m_n_channel := 1, m_n_sub_partition_in_channel := 1\<rparr>"

theorem sweep_test_sound_witness:
  "addrdec_tlx column_only 4 \<noteq> addrdec_tlx column_only 8"
proof -
  have "[2..<4] = [2, 3 :: nat]" by (simp add: upt_rec)
  then have "sweep_test column_only [4, 8] \<noteq> None"
    by (simp add: sweep_test_def sweep_step_def addrdec_tlx_def pack_field_def
        addrdec_packbits_def column_only_def translation_new_def Let_def)
  then obtain h where "sweep_test column_only [4, 8] = Some h" by blast
  from sweep_test_sound [OF this, of 0 1] show ?thesis by simp
qed

text \<open>
  \<open>operator<\<close> on raw addresses is not an ordering that a \<open>std::map\<close> can use: it
  compares all fields at once, so incomparability is not transitive. There are three raw
  addresses of which the first and the second, and the second and the third, count as equal
  keys, while the first is smaller than the third.
\<close>

theorem addrdec_less_not_weak_order:
  "\<exists>x y z. \<not> addrdec_less x y \<and> \<not> addrdec_less y x \<and> \<not> addrdec_less y z \<and> \<not> addrdec_less z y \<and>
     addrdec_less x z \<and> x \<noteq> y"
  by (rule exI [of _ "\<lparr>chip = 0, bk = 0, row = 0, col = 0, burst = 0, sub_partition = 0\<rparr>"],
      rule exI [of _ "\<lparr>chip = 0, bk = 1, row = 0, col = 0, burst = 0, sub_partition = 0\<rparr>"],
      rule exI [of _ "\<lparr>chip = 1, bk = 1, row = 1, col = 1, burst = 1, sub_partition = 0\<rparr>"])
    (simp add: addrdec_less_def)

subsection \<open>Partition addresses do not alias\<close>

lemma bit_sub_mask_loop:
  "pos < n \<Longrightarrow> bit (sub_mask_loop bkm n is pos m) i \<longleftrightarrow>
     bit m i \<or> i \<in> set (take (n - pos) (filter (bit bkm) is))"
proof (induction "is" arbitrary: pos m)
  case (Cons j "is")
  have j: "bit bkm j \<Longrightarrow> j < 64" by (auto dest: bit_imp_le_length)
  show ?case
  proof (cases "bit bkm j \<and> n \<le> pos + 1")
    case True
    with Cons.prems have "n - pos = Suc 0" by linarith
    with True j show ?thesis by (auto simp: and_bit_zero bit_simps)
  next
    case False
    show ?thesis
    proof (cases "bit bkm j")
      case True
      with False have "n - pos = Suc (n - (pos + 1))" "pos + 1 < n" by auto
      with True False Cons.IH [of "pos + 1" "m OR push_bit j 1"] j show ?thesis
        by (auto simp: and_bit_zero bit_simps)
    next
      case False
      with Cons show ?thesis by (simp add: and_bit_zero)
    qed
  qed
qed simp

lemma LOGB2_32_eq: "LOGB2_32 v = LOGB2 v"
  unfolding LOGB2_32_def LOGB2_def by (rule refl)

lemma LOGB2_32_power:
  assumes "k < 32"
  shows "LOGB2_32 (2 ^ k) = k"
proof -
  have un: "unat (2 ^ k :: u32) = 2 ^ k"
  proof -
    have "unat (push_bit k 1 :: u32) = take_bit LENGTH(32) (push_bit k (unat (1 :: u32)))"
      by (simp only: unsigned_push_bit_eq)
    also have "\<dots> = 2 ^ k"
      using assms power_strict_increasing [of k 32 "2 :: nat"]
      by (simp add: push_bit_of_1 take_bit_nat_eq_self_iff)
    finally show ?thesis by simp
  qed
  then have "2 ^ k \<noteq> (0 :: u32)" by (metis power_not_zero unat_0 zero_neq_numeral)
  from LOGB2_is_log [OF this] un
  have "(2 :: nat) ^ LOGB2 (2 ^ k) \<le> 2 ^ k" "(2 :: nat) ^ k < 2 ^ (LOGB2 (2 ^ k) + 1)"
    by simp_all
  then have "LOGB2 (2 ^ k) \<le> k" "k < LOGB2 (2 ^ k) + 1"
    by (simp_all only: power_increasing_iff power_strict_increasing_iff one_less_numeral_iff
        semiring_norm)
  then show ?thesis by (simp add: LOGB2_32_eq)
qed

text \<open>
  Partition addresses do not alias. When the number of channels is a power of two
  and every channel has \<open>2 ^ k\<close> sub-partitions, two addresses on the same chip and the same
  sub-partition that have the same partition address are the same address: the L2 slice of a
  sub-partition can index its sets and compare its lines by partition address without
  confusing two blocks.
\<close>

theorem partition_address_unique:
  assumes "limits_ok t" and "narrow_fields t" and "gap t = 0" and "k < 32"
    and "m_n_sub_partition_in_channel t = 2 ^ k"
    and "sub_partition_id_mask t = sub_partition_id_mask (set_sub_mask t)"
    and "addrdec_tlx t a = Some x" and "addrdec_tlx t b = Some y"
    and "chip x = chip y" and "sub_partition x = sub_partition y"
    and "partition_address t a = partition_address t b"
  shows "a = b"
proof (rule bit_word_eqI)
  fix i assume i: "i < LENGTH(64)"
  let ?m = "NOT (addrdec_mask t CHIP OR sub_partition_id_mask t)"
  have chips: "pack_field t CHIP a = pack_field t CHIP b"
    and low: "pack_field t BK a AND (2 ^ k - 1) = pack_field t BK b AND (2 ^ k - 1)"
    using assms(3,5,7-10) by (auto simp: addrdec_tlx_def Let_def)
  have part: "addrdec_packbits ?m a 64 0 = addrdec_packbits ?m b 64 0"
    using assms(3,11) by (simp add: partition_address_def)
  consider (chip) "bit (addrdec_mask t CHIP) i" | (sub) "bit (sub_partition_id_mask t) i"
    | (rest) "bit ?m i"
    using i by (auto simp: bit_simps)
  then show "bit a i = bit b i"
  proof cases
    case chip
    then show ?thesis using pack_field_agree [OF chips assms(1,2)] by blast
  next
    case sub
    have "k \<noteq> 0"
      using sub assms(5,6) by (auto simp: set_sub_mask_def intro: gr0I)
    then have "i \<in> set (take k (field_positions t BK))"
      using sub assms(4-6) bit_sub_mask_loop [of 0 k "addrdec_mask t BK"
          "[addrdec_mklow t BK..<addrdec_mkhigh t BK]" 0 i]
      by (auto simp: set_sub_mask_def field_positions_def positions_def LOGB2_32_power
          split: if_splits)
    then obtain j where j: "j < k" "j < length (field_positions t BK)"
      "field_positions t BK ! j = i"
      by (auto simp: in_set_conv_nth)
    have "bit (pack_field t BK a AND (2 ^ k - 1)) j = bit (pack_field t BK b AND (2 ^ k - 1)) j"
      using low by simp
    then have "bit (pack_field t BK a) j = bit (pack_field t BK b) j"
      using j(1) assms(4) by (simp add: bit_simps flip: mask_eq_exp_minus_1)
    with j assms(4) show ?thesis by (simp add: bit_pack_field)
  next
    case rest
    show ?thesis
      by (rule packbits_agree [where n = 64 and high = 64 and low = 0 and msk = ?m])
        (use part rest i in \<open>auto simp: positions_def intro: order_trans [OF length_filter_le]\<close>)
  qed
qed

definition two_sub_partitions :: address_translation where
  "two_sub_partitions = translation_new\<lparr>addrdec_mask := (\<lambda>f. if f = BK then 0xC else 0),
     addrdec_mklow := (\<lambda>_. 2), addrdec_mkhigh := (\<lambda>_. 4), sub_partition_id_mask := 4,
     m_n_channel := 1, m_n_sub_partition_in_channel := 2\<rparr>"

theorem partition_address_unique_witness:
  "partition_address two_sub_partitions 0x10 \<noteq> partition_address two_sub_partitions 0x18"
proof
  assume eq: "partition_address two_sub_partitions 0x10 = partition_address two_sub_partitions 0x18"
  have upt: "[2..<4] = [2, 3 :: nat]" by (simp add: upt_rec)
  note defs = two_sub_partitions_def translation_new_def
  have bits: "bit (0xC :: u64) i \<longleftrightarrow> i = 2 \<or> i = 3" for i
  proof -
    have "(0xC :: u64) = (0 OR push_bit 2 1) OR push_bit 3 1" by simp
    then show ?thesis by (simp only: bit_or_pow) auto
  qed
  have "limits_ok two_sub_partitions"
    using bits [THEN iffD1] by (fastforce simp: limits_ok_def defs split: if_splits)
  moreover have "narrow_fields two_sub_partitions"
    by (simp add: narrow_fields_def field_positions_def positions_def defs upt)
  moreover have "sub_partition_id_mask two_sub_partitions
      = sub_partition_id_mask (set_sub_mask two_sub_partitions)"
    using LOGB2_32_power [of 1] by (simp add: set_sub_mask_def defs upt)
  moreover obtain x y where "addrdec_tlx two_sub_partitions 0x10 = Some x"
    "addrdec_tlx two_sub_partitions 0x18 = Some y" "chip x = chip y"
    "sub_partition x = sub_partition y"
    by (simp add: addrdec_tlx_def pack_field_def addrdec_packbits_def defs upt Let_def)
  ultimately have "(0x10 :: u64) = 0x18"
    using partition_address_unique [of two_sub_partitions 1 "0x10" x "0x18" y] eq
    by (simp add: defs)
  then show False by simp
qed

end
