(* ===== verification/Mem_Fetch.thy ===== *)
theory Mem_Fetch
  imports Instruction Addrdec "HOL-Library.Product_Lexorder"
begin

unbundle bit_operations_syntax

text \<open>
  Memory accesses and memory requests: \<open>memory_space_t\<close>, \<open>mem_access_t\<close> and the part of
  \<open>warp_inst_t\<close> a request reads (\<open>abstract_hardware_model.h\<close>), \<open>mem_fetch\<close>
  (\<open>gpgpu-sim/mem_fetch.h\<close>, \<open>mem_fetch.cc\<close>) and the two allocators of requests.
  The caches hold pointers to requests and change them through these pointers, so requests
  live in an explicit heap and are referred to by their address.
\<close>

subsection \<open>Memory spaces\<close>

text \<open>The position of a space in its enumeration, which is the order \<open><\<close> compares.\<close>

fun space_code :: "memory_space_t \<Rightarrow> nat" where
  "space_code undefined_space = 0"
| "space_code reg_space = 1"
| "space_code local_space = 2"
| "space_code shared_space = 3"
| "space_code param_space_unclassified = 4"
| "space_code param_space_kernel = 5"
| "space_code param_space_local = 6"
| "space_code const_space = 7"
| "space_code tex_space = 8"
| "space_code surf_space = 9"
| "space_code global_space = 10"
| "space_code generic_space = 11"
| "space_code instruction_space = 12"

lemma space_code_inj: "space_code a = space_code b \<Longrightarrow> a = b"
  by (cases a; cases b) simp_all

instantiation memory_space_t :: linorder
begin

definition less_memory_space_t :: "memory_space_t \<Rightarrow> memory_space_t \<Rightarrow> bool" where
  "less_memory_space_t a b \<longleftrightarrow> space_code a < space_code b"

definition less_eq_memory_space_t :: "memory_space_t \<Rightarrow> memory_space_t \<Rightarrow> bool" where
  "less_eq_memory_space_t a b \<longleftrightarrow> space_code a \<le> space_code b"

instance
  by standard (auto simp: less_memory_space_t_def less_eq_memory_space_t_def
      intro: space_code_inj)

end

record memory_space =
  sp_type :: memory_space_t
  sp_bank :: u32

definition space_less :: "memory_space \<Rightarrow> memory_space \<Rightarrow> bool" where
  "space_less a b =
     (if sp_type a < sp_type b then True
      else if sp_type a > sp_type b then False
      else if sp_bank a < sp_bank b then True
      else False)"

definition space_is_const :: "memory_space_t \<Rightarrow> bool" where
  "space_is_const s \<longleftrightarrow> s = const_space \<or> s = param_space_kernel"

definition space_is_local :: "memory_space_t \<Rightarrow> bool" where
  "space_is_local s \<longleftrightarrow> s = local_space \<or> s = param_space_local"

definition space_is_global :: "memory_space_t \<Rightarrow> bool" where
  "space_is_global s \<longleftrightarrow> s = global_space"

lemma space_less_lex: "space_less a b \<longleftrightarrow> (sp_type a, sp_bank a) < (sp_type b, sp_bank b)"
  by (auto simp: space_less_def less_prod_def')

subsection \<open>Accesses and requests\<close>

type_synonym active_mask_t = u32
type_synonym byte_mask_t = "128 word"

record mem_access_t =
  ma_addr :: u64
  ma_write :: bool
  ma_req_size :: u32
  ma_type :: mem_access_type
  ma_warp_mask :: active_mask_t
  ma_byte_mask :: byte_mask_t

text \<open>\<open>m_uid\<close> only numbers the accesses and is left out.\<close>

definition mem_access_full ::
    "mem_access_type \<Rightarrow> u64 \<Rightarrow> u32 \<Rightarrow> bool \<Rightarrow> active_mask_t \<Rightarrow> byte_mask_t \<Rightarrow> mem_access_t" where
  "mem_access_full type address nbytes wr active_mask byte_mask =
     \<lparr>ma_addr = address, ma_write = wr, ma_req_size = nbytes, ma_type = type,
      ma_warp_mask = active_mask, ma_byte_mask = byte_mask\<rparr>"

definition mem_access_new :: "mem_access_type \<Rightarrow> u64 \<Rightarrow> u32 \<Rightarrow> bool \<Rightarrow> mem_access_t" where
  "mem_access_new type address nbytes wr =
     \<lparr>ma_addr = address, ma_write = wr, ma_req_size = nbytes, ma_type = type,
      ma_warp_mask = 0, ma_byte_mask = 0\<rparr>"

datatype mf_type = READ_REQUEST | WRITE_REQUEST | READ_REPLY | WRITE_ACK

datatype mem_fetch_status =
    MEM_FETCH_INITIALIZED | IN_L1I_MISS_QUEUE | IN_L1D_MISS_QUEUE | IN_L1T_MISS_QUEUE
  | IN_L1C_MISS_QUEUE | IN_L1TLB_MISS_QUEUE | IN_VM_MANAGER_QUEUE | IN_ICNT_TO_MEM
  | IN_PARTITION_ROP_DELAY | IN_PARTITION_ICNT_TO_L2_QUEUE | IN_PARTITION_L2_TO_DRAM_QUEUE
  | IN_PARTITION_DRAM_LATENCY_QUEUE | IN_PARTITION_L2_MISS_QUEUE
  | IN_PARTITION_MC_INTERFACE_QUEUE | IN_PARTITION_MC_INPUT_QUEUE
  | IN_PARTITION_MC_BANK_ARB_QUEUE | IN_PARTITION_DRAM | IN_PARTITION_MC_RETURNQ
  | IN_PARTITION_DRAM_TO_L2_QUEUE | IN_PARTITION_L2_FILL_QUEUE
  | IN_PARTITION_L2_TO_ICNT_QUEUE | IN_ICNT_TO_SHADER | IN_CLUSTER_TO_SHADER_QUEUE
  | IN_SHADER_LDST_RESPONSE_FIFO | IN_SHADER_FETCHED | IN_SHADER_L1T_ROB | MEM_FETCH_DELETED

text \<open>An issued instruction, as far as a request reads it.\<close>

record warp_inst_t = inst_t +
  w_isatomic :: bool

text \<open>\<open>None\<close> for \<open>mf_inst\<close> is an empty \<open>m_inst\<close>.\<close>

record mem_fetch =
  mf_request_uid :: u32
  mf_sid :: u32
  mf_tpc :: u32
  mf_wid :: u32
  mf_status :: mem_fetch_status
  mf_status_change :: u64
  mf_access :: mem_access_t
  mf_data_size :: u32
  mf_ctrl_size :: u32
  mf_partition_addr :: u64
  mf_raw_addr :: addrdec_t
  mf_type :: mf_type
  mf_timestamp :: u32
  mf_timestamp2 :: u32
  mf_inst :: "warp_inst_t option"
  mf_icnt_flit_size :: u32

record memory_config =
  mc_address_mapping :: address_translation
  mc_icnt_flit_size :: u32

text \<open>
  The heap: the live requests, the next free address and \<open>sm_next_mf_request_uid\<close>. The
  current cycle \<open>gpu_sim_cycle + gpu_tot_sim_cycle\<close> is an argument of the operations that read
  it.
\<close>

record mf_heap =
  heap_mf :: "nat \<Rightarrow> mem_fetch option"
  heap_next :: nat
  next_mf_request_uid :: u32

definition heap_empty :: mf_heap where
  "heap_empty = \<lparr>heap_mf = (\<lambda>_. None), heap_next = 0, next_mf_request_uid = 1\<rparr>"

definition mem_fetch_new :: "memory_config \<Rightarrow> u64 \<Rightarrow> mem_access_t \<Rightarrow> warp_inst_t option \<Rightarrow> u32 \<Rightarrow>
    u32 \<Rightarrow> u32 \<Rightarrow> u32 \<Rightarrow> mf_heap \<Rightarrow> (nat \<times> mf_heap) option" where
  "mem_fetch_new config now access inst ctrl_size wid sid tpc h = do {
     require (case inst of None \<Rightarrow> True | Some i \<Rightarrow> unat wid = i_warp_id i);
     raw \<leftarrow> addrdec_tlx (mc_address_mapping config) (ma_addr access);
     paddr \<leftarrow> partition_address (mc_address_mapping config) (ma_addr access);
     let mf = \<lparr>mf_request_uid = next_mf_request_uid h, mf_sid = sid, mf_tpc = tpc, mf_wid = wid,
       mf_status = MEM_FETCH_INITIALIZED, mf_status_change = now, mf_access = access,
       mf_data_size = ma_req_size access, mf_ctrl_size = ctrl_size, mf_partition_addr = paddr,
       mf_raw_addr = raw, mf_type = (if ma_write access then WRITE_REQUEST else READ_REQUEST),
       mf_timestamp = ucast now, mf_timestamp2 = 0, mf_inst = inst,
       mf_icnt_flit_size = mc_icnt_flit_size config\<rparr>;
     Some (heap_next h, h\<lparr>heap_mf := (heap_mf h)(heap_next h \<mapsto> mf),
       heap_next := heap_next h + 1, next_mf_request_uid := next_mf_request_uid h + 1\<rparr>)
   }"

subsection \<open>Reading and changing a request\<close>

definition get_is_write :: "mem_fetch \<Rightarrow> bool" where
  "get_is_write mf = ma_write (mf_access mf)"

definition mf_size :: "mem_fetch \<Rightarrow> u32" where
  "mf_size mf = mf_data_size mf + mf_ctrl_size mf"

definition isatomic :: "mem_fetch \<Rightarrow> bool" where
  "isatomic mf = (case mf_inst mf of None \<Rightarrow> False | Some i \<Rightarrow> w_isatomic i)"

definition istexture :: "mem_fetch \<Rightarrow> bool" where
  "istexture mf = (case mf_inst mf of None \<Rightarrow> False | Some i \<Rightarrow> i_space i = tex_space)"

definition isconst :: "mem_fetch \<Rightarrow> bool" where
  "isconst mf = (case mf_inst mf of None \<Rightarrow> False
     | Some i \<Rightarrow> i_space i = const_space \<or> i_space i = param_space_kernel)"

definition set_reply :: "mem_fetch \<Rightarrow> mem_fetch option" where
  "set_reply mf = do {
     require (ma_type (mf_access mf) \<noteq> L1_WRBK_ACC \<and> ma_type (mf_access mf) \<noteq> L2_WRBK_ACC);
     (if mf_type mf = READ_REQUEST then do {
        require (\<not> get_is_write mf);
        Some (mf\<lparr>mf_type := READ_REPLY\<rparr>)
      } else if mf_type mf = WRITE_REQUEST then do {
        require (get_is_write mf);
        Some (mf\<lparr>mf_type := WRITE_ACK\<rparr>)
      } else Some mf)
   }"

text \<open>The number of flits; dividing by a zero flit size is undefined.\<close>

definition get_num_flits :: "bool \<Rightarrow> mem_fetch \<Rightarrow> u32 option" where
  "get_num_flits simt_to_mem mf = do {
     let sz = (if isatomic mf \<or> (simt_to_mem \<and> get_is_write mf) \<or>
                  \<not> (simt_to_mem \<or> get_is_write mf)
               then mf_size mf else mf_ctrl_size mf);
     require (mf_icnt_flit_size mf \<noteq> 0);
     Some (sz div mf_icnt_flit_size mf + (if sz mod mf_icnt_flit_size mf \<noteq> 0 then 1 else 0))
   }"

definition update_mf :: "nat \<Rightarrow> (mem_fetch \<Rightarrow> mem_fetch) \<Rightarrow> mf_heap \<Rightarrow> mf_heap option" where
  "update_mf p f h = do {
     mf \<leftarrow> heap_mf h p;
     Some (h\<lparr>heap_mf := (heap_mf h)(p \<mapsto> f mf)\<rparr>)
   }"

definition set_status :: "mem_fetch_status \<Rightarrow> u64 \<Rightarrow> nat \<Rightarrow> mf_heap \<Rightarrow> mf_heap option" where
  "set_status status cycle p h =
     update_mf p (\<lambda>mf. mf\<lparr>mf_status := status, mf_status_change := cycle\<rparr>) h"

definition set_data_size :: "u32 \<Rightarrow> nat \<Rightarrow> mf_heap \<Rightarrow> mf_heap option" where
  "set_data_size nbytes p h = update_mf p (\<lambda>mf. mf\<lparr>mf_data_size := nbytes\<rparr>) h"

subsection \<open>The allocators\<close>

text \<open>
  A cache gets its write-back requests from a \<open>mem_fetch_allocator\<close>: the one of a shader core
  (with its core and cluster number) or the one of a memory partition, which only makes writes.
\<close>

datatype mf_allocator = Shader_allocator u32 u32 | Partition_allocator

definition READ_PACKET_SIZE :: u32 where "READ_PACKET_SIZE = 8"
definition WRITE_PACKET_SIZE :: u32 where "WRITE_PACKET_SIZE = 8"

definition shader_alloc :: "u32 \<Rightarrow> u32 \<Rightarrow> memory_config \<Rightarrow> u64 \<Rightarrow> u64 \<Rightarrow> mem_access_type \<Rightarrow> u32 \<Rightarrow> bool \<Rightarrow>
    mf_heap \<Rightarrow> (nat \<times> mf_heap) option" where
  "shader_alloc core_id cluster_id config now addr type nbytes wr h =
     mem_fetch_new config now (mem_access_new type addr nbytes wr) None
       (if wr then WRITE_PACKET_SIZE else READ_PACKET_SIZE) (-1) core_id cluster_id h"

definition partition_alloc :: "memory_config \<Rightarrow> u64 \<Rightarrow> u64 \<Rightarrow> mem_access_type \<Rightarrow> u32 \<Rightarrow> bool \<Rightarrow>
    mf_heap \<Rightarrow> (nat \<times> mf_heap) option" where
  "partition_alloc config now addr type nbytes wr h = do {
     require wr;
     mem_fetch_new config now (mem_access_new type addr nbytes wr) None
       WRITE_PACKET_SIZE (-1) (-1) (-1) h
   }"

definition shader_alloc_inst :: "u32 \<Rightarrow> u32 \<Rightarrow> memory_config \<Rightarrow> u64 \<Rightarrow> warp_inst_t \<Rightarrow> mem_access_t \<Rightarrow>
    mf_heap \<Rightarrow> (nat \<times> mf_heap) option" where
  "shader_alloc_inst core_id cluster_id config now inst access h =
     mem_fetch_new config now access (Some inst)
       (if ma_write access then WRITE_PACKET_SIZE else READ_PACKET_SIZE)
       (of_nat (i_warp_id inst)) core_id cluster_id h"

definition mf_alloc :: "mf_allocator \<Rightarrow> memory_config \<Rightarrow> u64 \<Rightarrow> u64 \<Rightarrow> mem_access_type \<Rightarrow> u32 \<Rightarrow> bool \<Rightarrow>
    mf_heap \<Rightarrow> (nat \<times> mf_heap) option" where
  "mf_alloc al config now addr type nbytes wr h = (case al of
       Shader_allocator core cluster \<Rightarrow> shader_alloc core cluster config now addr type nbytes wr h
     | Partition_allocator \<Rightarrow> partition_alloc config now addr type nbytes wr h)"

subsection \<open>Facts about the heap\<close>

text \<open>Every address in use is below the next free one.\<close>

definition heap_ok :: "mf_heap \<Rightarrow> bool" where
  "heap_ok h \<longleftrightarrow> (\<forall>p. heap_mf h p \<noteq> None \<longrightarrow> p < heap_next h)"

lemma heap_empty_ok [simp]: "heap_ok heap_empty"
  by (simp add: heap_ok_def heap_empty_def)

lemma mem_fetch_new_eq:
  assumes "mem_fetch_new config now a inst c w s t h = Some (p, h')"
  shows "p = heap_next h \<and> heap_next h' = Suc p \<and>
    (\<exists>mf. heap_mf h' = (heap_mf h)(p \<mapsto> mf) \<and> mf_access mf = a \<and> mf_inst mf = inst
      \<and> mf_data_size mf = ma_req_size a)"
  using assms
  by (auto simp: mem_fetch_new_def bind_eq_Some_iff Let_def split: if_splits)

lemma mem_fetch_new_fresh: "mem_fetch_new config now a inst c w s t h = Some (p, h') \<Longrightarrow>
    heap_ok h \<Longrightarrow> heap_mf h p = None"
  by (drule mem_fetch_new_eq) (force simp: heap_ok_def)

lemma mem_fetch_new_ok: "mem_fetch_new config now a inst c w s t h = Some (p, h') \<Longrightarrow>
    heap_ok h \<Longrightarrow> heap_ok h'"
  by (drule mem_fetch_new_eq) (auto simp: heap_ok_def less_Suc_eq)

lemma update_mf_eq:
  "update_mf p f h = Some h' \<longleftrightarrow>
     (\<exists>mf. heap_mf h p = Some mf \<and> h' = h\<lparr>heap_mf := (heap_mf h)(p \<mapsto> f mf)\<rparr>)"
  by (auto simp: update_mf_def bind_eq_Some_iff)

lemma update_mf_dom [frame]: "update_mf p f h = Some h' \<Longrightarrow> heap_mf h' q = None \<longleftrightarrow> heap_mf h q = None"
  by (auto simp: update_mf_eq split: if_splits)

lemma update_mf_ok [frame]: "update_mf p f h = Some h' \<Longrightarrow> heap_ok h \<Longrightarrow> heap_ok h'"
  unfolding heap_ok_def by (metis update_mf_dom update_mf_eq mf_heap.select_convs(2)
    mf_heap.surjective mf_heap.update_convs(1))

end
