(* ===== verification/Coalesce.thy ===== *)
theory Coalesce
  imports Mem_Fetch
begin

unbundle bit_operations_syntax

text \<open>
  The memory accesses of a warp instruction: \<open>warp_inst_t::generate_mem_accesses\<close>, the coalescing
  rules \<open>memory_coalescing_arch_13\<close> and \<open>memory_coalescing_arch_13_atomic\<close>
  (\<open>abstract_hardware_model.cc\<close>, \<open>abstract_hardware_model.h\<close>). A \<open>std::map\<close> is an association list in the order of its
  keys, a \<open>std::bitset\<close> a word; \<open>set\<close> and \<open>test\<close> out of range throw, which is \<open>None\<close>. The counters
  of the statistics per source line are left out.
\<close>

subsection \<open>Ordered maps and bit sets\<close>

fun omap_put :: "'k::linorder \<Rightarrow> 'v \<Rightarrow> ('k \<times> 'v) list \<Rightarrow> ('k \<times> 'v) list" where
  "omap_put k v [] = [(k, v)]"
| "omap_put k v ((k', v') # m) =
     (if k < k' then (k, v) # (k', v') # m
      else if k = k' then (k, v) # m
      else (k', v') # omap_put k v m)"

text \<open>\<open>operator[]\<close>: the element at the key, a default one if there is none.\<close>

definition omap_get :: "'v \<Rightarrow> 'k \<Rightarrow> ('k \<times> 'v) list \<Rightarrow> 'v" where
  "omap_get d k m = (case map_of m k of None \<Rightarrow> d | Some v \<Rightarrow> v)"

definition bitset_set :: "nat \<Rightarrow> 'a::len word \<Rightarrow> 'a word option" where
  "bitset_set n w = (if n < LENGTH('a) then Some (Bit_Operations.set_bit n w) else None)"

definition bitset_test :: "nat \<Rightarrow> 'a::len word \<Rightarrow> bool option" where
  "bitset_test n w = (if n < LENGTH('a) then Some (bit w n) else None)"

subsection \<open>State\<close>

record core_config =
  cc_warp_size :: nat
  cc_coalesce_arch :: int
  cc_shmem_limited_broadcast :: bool
  cc_num_shmem_bank :: u32
  cc_mem_warp_parts :: nat
  cc_cache_texl1_linesize :: u32
  cc_cache_constl1_linesize :: u32

definition WORD_SIZE :: address_type where "WORD_SIZE = 4"

definition shmem_bank_func :: "core_config \<Rightarrow> address_type \<Rightarrow> u32 option" where
  "shmem_bank_func c addr = do {
     require (cc_num_shmem_bank c \<noteq> 0);
     Some ((addr div WORD_SIZE) mod cc_num_shmem_bank c) }"

definition MAX_ACCESSES_PER_INSN_PER_THREAD :: nat where
  "MAX_ACCESSES_PER_INSN_PER_THREAD = 8"

text \<open>
  The members of \<open>warp_inst_t\<close> that the generation of accesses reads and writes;
  \<open>w_memreqaddr\<close> is the array \<open>memreqaddr\<close> of every lane of \<open>m_per_scalar_thread\<close>.
\<close>

record warp_mem_inst = warp_inst_t +
  w_empty :: bool
  w_mem_accesses_created :: bool
  w_active_mask :: active_mask_t
  w_per_scalar_thread_valid :: bool
  w_memreqaddr :: "u64 list list"
  w_accessq :: "mem_access_t list"
  w_cycles :: nat

definition active :: "warp_mem_inst \<Rightarrow> nat \<Rightarrow> bool option" where
  "active w thread = bitset_test thread (w_active_mask w)"

definition resize_threads :: "core_config \<Rightarrow> warp_mem_inst \<Rightarrow> warp_mem_inst" where
  "resize_threads c w =
     (if w_per_scalar_thread_valid w then w
      else w\<lparr>w_memreqaddr := take (cc_warp_size c) (w_memreqaddr w) @
               replicate (cc_warp_size c - length (w_memreqaddr w))
                 (replicate MAX_ACCESSES_PER_INSN_PER_THREAD 0),
             w_per_scalar_thread_valid := True\<rparr>)"

definition set_addr :: "core_config \<Rightarrow> nat \<Rightarrow> u64 \<Rightarrow> warp_mem_inst \<Rightarrow> warp_mem_inst option" where
  "set_addr c n addr w = (let w = resize_threads c w in do {
     info \<leftarrow> nth_opt (w_memreqaddr w) n;
     info \<leftarrow> update_opt info 0 addr;
     Some (w\<lparr>w_memreqaddr := (w_memreqaddr w)[n := info]\<rparr>) })"

definition set_addrs :: "core_config \<Rightarrow> nat \<Rightarrow> u64 list \<Rightarrow> warp_mem_inst \<Rightarrow> warp_mem_inst option" where
  "set_addrs c n addrs w = (let w = resize_threads c w in do {
     require (length addrs \<le> MAX_ACCESSES_PER_INSN_PER_THREAD);
     info \<leftarrow> nth_opt (w_memreqaddr w) n;
     info \<leftarrow> foldM (\<lambda>i info. update_opt info i (addrs ! i)) [0..<length addrs] info;
     Some (w\<lparr>w_memreqaddr := (w_memreqaddr w)[n := info]\<rparr>) })"

definition clear_active :: "active_mask_t \<Rightarrow> warp_mem_inst \<Rightarrow> warp_mem_inst option" where
  "clear_active inactive w = do {
     require (w_active_mask w AND inactive = inactive);
     Some (w\<lparr>w_active_mask := w_active_mask w AND NOT inactive\<rparr>) }"

definition set_not_active :: "nat \<Rightarrow> warp_mem_inst \<Rightarrow> warp_mem_inst option" where
  "set_not_active lane w = do {
     require (lane < 32);
     Some (w\<lparr>w_active_mask := Bit_Operations.unset_bit lane (w_active_mask w)\<rparr>) }"

definition dispatch_delay :: "warp_mem_inst \<Rightarrow> bool \<times> warp_mem_inst" where
  "dispatch_delay w = (let w = w\<lparr>w_cycles := w_cycles w - 1\<rparr> in (w_cycles w > 0, w))"

definition accessq_pop_back :: "warp_mem_inst \<Rightarrow> warp_mem_inst option" where
  "accessq_pop_back w = do {
     require (w_accessq w \<noteq> []);
     Some (w\<lparr>w_accessq := butlast (w_accessq w)\<rparr>) }"

definition line_size_based_tag_func :: "u64 \<Rightarrow> u64 \<Rightarrow> address_type" where
  "line_size_based_tag_func address line_size = ucast (address AND NOT (line_size - 1))"

subsection \<open>Transactions of a part of a warp\<close>

record transaction_info =
  tr_chunks :: "4 word"
  tr_bytes :: byte_mask_t
  tr_active :: active_mask_t

definition transaction_info_new :: transaction_info where
  "transaction_info_new = \<lparr>tr_chunks = 0, tr_bytes = 0, tr_active = 0\<rparr>"

definition test_bytes :: "transaction_info \<Rightarrow> u32 \<Rightarrow> u32 \<Rightarrow> bool option" where
  "test_bytes info start_bit end_bit = foldM (\<lambda>i found. if found then Some True else bitset_test i (tr_bytes info))
     [unat start_bit..<Suc (unat end_bit)] False"

definition segment_size_of :: "nat \<Rightarrow> u32" where
  "segment_size_of data_size =
     (if data_size = 1 then 32 else if data_size = 2 then 64
      else if data_size = 4 \<or> data_size = 8 \<or> data_size = 16 then 128 else 0)"

definition mark_thread :: "nat \<Rightarrow> u64 \<Rightarrow> nat \<Rightarrow> transaction_info \<Rightarrow> transaction_info option" where
  "mark_thread thread addr data_size info = (let idx = unat (addr AND 127) in do {
     chunks \<leftarrow> bitset_set (idx div 32) (tr_chunks info);
     act \<leftarrow> bitset_set thread (tr_active info);
     bytes \<leftarrow> foldM (\<lambda>i b. bitset_set (idx + i) b) [0..<data_size] (tr_bytes info);
     Some \<lparr>tr_chunks = chunks, tr_bytes = bytes, tr_active = act\<rparr> })"

type_synonym transactions = "(u64 \<times> transaction_info) list"

definition coalesce_access :: "u32 \<Rightarrow> nat \<Rightarrow> nat \<Rightarrow> u64 \<Rightarrow> transactions \<Rightarrow> transactions option" where
  "coalesce_access segment_size data_size thread addr txs = (
     let block_address = line_size_based_tag_func addr (ucast segment_size);
         info = omap_get transaction_info_new (ucast block_address) txs in do {
     require (block_address =
       line_size_based_tag_func (addr + of_nat data_size - 1) (ucast segment_size));
     info \<leftarrow> mark_thread thread addr data_size info;
     Some (omap_put (ucast block_address) info txs) })"

definition reduce_segment :: "4 word \<Rightarrow> u64 \<Rightarrow> u32 \<Rightarrow> (u64 \<times> u32) option" where
  "reduce_segment q addr segment_size = do {
     require (addr AND ucast (segment_size - 1) = 0);
     require (q \<noteq> 0);
     (addr, size, h0, h1) \<leftarrow>
       (if segment_size = 128 then
          (let lower = bit q 0 \<or> bit q 1; upper = bit q 2 \<or> bit q 3 in
           if lower \<and> \<not> upper then Some (addr, 64, bit q 0, bit q 1)
           else if \<not> lower \<and> upper then Some (addr + 64, 64, bit q 2, bit q 3)
           else do { require (lower \<and> upper); Some (addr, segment_size, False, False) })
        else if segment_size = 64 then
          (if addr mod 128 = 0 then Some (addr, segment_size, bit q 0, bit q 1)
           else do { require (addr mod 128 = 64); Some (addr, segment_size, bit q 2, bit q 3) })
        else Some (addr, segment_size, False, False));
     if size = 64 then
       (if h0 \<and> \<not> h1 then Some (addr, 32)
        else if \<not> h0 \<and> h1 then Some (addr + 32, 32)
        else do { require (h0 \<and> h1); Some (addr, size) })
     else Some (addr, size) }"

definition memory_coalescing_arch_13_reduce_and_send ::
    "bool \<Rightarrow> mem_access_type \<Rightarrow> transaction_info \<Rightarrow> u64 \<Rightarrow> u32 \<Rightarrow> mem_access_t list \<Rightarrow> mem_access_t list option" where
  "memory_coalescing_arch_13_reduce_and_send wr type info addr segment_size q = do {
     (addr, size) \<leftarrow> reduce_segment (tr_chunks info) addr segment_size;
     Some (q @ [mem_access_full type addr size wr (tr_active info) (tr_bytes info)]) }"

text \<open>Local accesses of four bytes or more are split into pieces of four bytes.\<close>

definition coalesce_pieces :: "memory_space_t \<Rightarrow> nat \<Rightarrow> nat \<times> nat" where
  "coalesce_pieces space data_size =
     (if (space = local_space \<or> space = param_space_local) \<and> data_size \<ge> 4
      then (4, data_size div 4) else (data_size, 1))"

definition coalesce_thread :: "warp_mem_inst \<Rightarrow> nat \<Rightarrow> transactions \<Rightarrow> transactions option" where
  "coalesce_thread w thread txs = do {
     a \<leftarrow> active w thread;
     if \<not> a then Some txs
     else (let (data_size, num_accesses) = coalesce_pieces (i_space w) (i_data_size w) in do {
       require (num_accesses \<le> MAX_ACCESSES_PER_INSN_PER_THREAD);
       info \<leftarrow> nth_opt (w_memreqaddr w) thread;
       foldM (\<lambda>access txs. do {
           addr \<leftarrow> nth_opt info access;
           coalesce_access (segment_size_of (i_data_size w)) data_size thread addr txs })
         [0..<num_accesses] txs }) }"

definition coalesce_subwarp :: "bool \<Rightarrow> mem_access_type \<Rightarrow> nat \<Rightarrow> warp_mem_inst \<Rightarrow> nat \<Rightarrow> mem_access_t list \<Rightarrow>
    mem_access_t list option" where
  "coalesce_subwarp wr type subwarp_size w subwarp q = do {
     txs \<leftarrow> foldM (coalesce_thread w) [subwarp * subwarp_size..<(subwarp + 1) * subwarp_size] [];
     foldM (\<lambda>(addr, info). memory_coalescing_arch_13_reduce_and_send wr type info addr
       (segment_size_of (i_data_size w))) txs q }"

definition memory_coalescing_arch_13 :: "core_config \<Rightarrow> bool \<Rightarrow> mem_access_type \<Rightarrow> warp_mem_inst \<Rightarrow>
    warp_mem_inst option" where
  "memory_coalescing_arch_13 c wr type w = do {
     require (cc_mem_warp_parts c \<noteq> 0);
     q \<leftarrow> foldM (coalesce_subwarp wr type (cc_warp_size c div cc_mem_warp_parts c) w)
       [0..<cc_mem_warp_parts c] (w_accessq w);
     Some (w\<lparr>w_accessq := q\<rparr>) }"

subsection \<open>Atomics\<close>

text \<open>
  An atomic joins the first transaction of its block whose bytes it does not touch. The loop
  over the list of transactions of the block, with the transaction it appends at the end.
\<close>

definition mark_atomic :: "nat \<Rightarrow> u64 \<Rightarrow> nat \<Rightarrow> transaction_info \<Rightarrow> transaction_info option" where
  "mark_atomic thread addr data_size info = (let idx = unat (addr AND 127) in do {
     chunks \<leftarrow> bitset_set (idx div 32) (tr_chunks info);
     act \<leftarrow> bitset_set thread (tr_active info);
     bytes \<leftarrow> foldM (\<lambda>i b. do {
         t \<leftarrow> bitset_test (idx + i) b;
         require (\<not> t);
         bitset_set (idx + i) b }) [0..<data_size] (tr_bytes info);
     Some \<lparr>tr_chunks = chunks, tr_bytes = bytes, tr_active = act\<rparr> })"

fun place_atomic :: "nat \<Rightarrow> u64 \<Rightarrow> nat \<Rightarrow> transaction_info list \<Rightarrow> transaction_info list option" where
  "place_atomic thread addr data_size [] = do {
     info \<leftarrow> mark_atomic thread addr data_size transaction_info_new;
     Some [info] }"
| "place_atomic thread addr data_size (it # infos) = do {
     t \<leftarrow> test_bytes it (ucast (addr AND 127)) (ucast (addr AND 127) + of_nat data_size - 1);
     if \<not> t then do {
       info \<leftarrow> mark_atomic thread addr data_size it;
       Some (info # infos) }
     else do {
       infos \<leftarrow> place_atomic thread addr data_size infos;
       Some (it # infos) } }"

type_synonym atomic_transactions = "(u64 \<times> transaction_info list) list"

definition atomic_thread :: "warp_mem_inst \<Rightarrow> nat \<Rightarrow> atomic_transactions \<Rightarrow> atomic_transactions option" where
  "atomic_thread w thread txs = do {
     a \<leftarrow> active w thread;
     if \<not> a then Some txs
     else (let data_size = i_data_size w; segment_size = segment_size_of data_size in do {
       info \<leftarrow> nth_opt (w_memreqaddr w) thread;
       addr \<leftarrow> nth_opt info 0;
       let block_address = line_size_based_tag_func addr (ucast segment_size);
       require (block_address =
         line_size_based_tag_func (addr + of_nat data_size - 1) (ucast segment_size));
       infos \<leftarrow> place_atomic thread addr data_size (omap_get [] (ucast block_address) txs);
       Some (omap_put (ucast block_address) infos txs) }) }"

definition atomic_subwarp :: "bool \<Rightarrow> mem_access_type \<Rightarrow> nat \<Rightarrow> warp_mem_inst \<Rightarrow> nat \<Rightarrow> mem_access_t list \<Rightarrow>
    mem_access_t list option" where
  "atomic_subwarp wr type subwarp_size w subwarp q = do {
     txs \<leftarrow> foldM (atomic_thread w) [subwarp * subwarp_size..<subwarp_size * (subwarp + 1)] [];
     foldM (\<lambda>(addr, infos). foldM (\<lambda>info. memory_coalescing_arch_13_reduce_and_send wr type info addr
       (segment_size_of (i_data_size w))) infos) txs q }"

definition memory_coalescing_arch_13_atomic :: "core_config \<Rightarrow> bool \<Rightarrow> mem_access_type \<Rightarrow> warp_mem_inst \<Rightarrow>
    warp_mem_inst option" where
  "memory_coalescing_arch_13_atomic c wr type w = do {
     require (i_space w = global_space);
     q \<leftarrow> foldM (atomic_subwarp wr type (cc_warp_size c div 2) w) [0..<2] (w_accessq w);
     Some (w\<lparr>w_accessq := q\<rparr>) }"

subsection \<open>Bank conflicts of shared memory\<close>

type_synonym bank_accs = "(u32 \<times> (u64 \<times> nat) list) list"

definition bank_thread :: "core_config \<Rightarrow> warp_mem_inst \<Rightarrow> nat \<Rightarrow> bank_accs \<Rightarrow> bank_accs option" where
  "bank_thread c w thread accs = do {
     a \<leftarrow> active w thread;
     if \<not> a then Some accs
     else do {
       info \<leftarrow> nth_opt (w_memreqaddr w) thread;
       addr \<leftarrow> nth_opt info 0;
       bank \<leftarrow> shmem_bank_func c (ucast addr);
       let word = ucast (line_size_based_tag_func addr (ucast WORD_SIZE));
       let words = omap_get [] bank accs;
       Some (omap_put bank (omap_put word (omap_get 0 word words + 1) words) accs) } }"

text \<open>The first word of the first bank that several lanes access.\<close>

fun find_broadcast :: "bank_accs \<Rightarrow> (u32 \<times> u64) option" where
  "find_broadcast [] = None"
| "find_broadcast ((bank, words) # accs) = (case find (\<lambda>(word, n). n > 1) words of
     Some (word, n) \<Rightarrow> Some (bank, word)
   | None \<Rightarrow> find_broadcast accs)"

definition bank_step :: "(u32 \<times> u64) option \<Rightarrow> u32 \<times> (u64 \<times> nat) list \<Rightarrow> nat \<Rightarrow> nat option" where
  "bank_step broadcast = (\<lambda>(bank, words) max_bank_accesses. (
     let bank_accesses = sum_list (map snd words) in do {
     bank_accesses \<leftarrow> (case broadcast of
         None \<Rightarrow> Some bank_accesses
       | Some (broadcast_bank, broadcast_word) \<Rightarrow>
           if broadcast_bank = bank then
             (case map_of words broadcast_word of
                None \<Rightarrow> Some bank_accesses
              | Some n \<Rightarrow> do {
                  require (n > 1);
                  require (bank_accesses \<ge> n - 1);
                  Some (bank_accesses - (n - 1)) })
           else Some bank_accesses);
     Some (if bank_accesses > max_bank_accesses then bank_accesses else max_bank_accesses) }))"

definition shared_subwarp :: "core_config \<Rightarrow> nat \<Rightarrow> warp_mem_inst \<Rightarrow> nat \<Rightarrow> nat \<Rightarrow> nat option" where
  "shared_subwarp c subwarp_size w subwarp total_accesses = do {
     accs \<leftarrow> foldM (bank_thread c w) [subwarp * subwarp_size..<(subwarp + 1) * subwarp_size] [];
     max_bank_accesses \<leftarrow>
       (if cc_shmem_limited_broadcast c then foldM (bank_step (find_broadcast accs)) accs 0
        else Some (fold (\<lambda>(bank, words) m. max m (length words)) accs 0));
     Some (total_accesses + max_bank_accesses) }"

definition shared_accesses :: "core_config \<Rightarrow> warp_mem_inst \<Rightarrow> warp_mem_inst option" where
  "shared_accesses c w = do {
     require (cc_mem_warp_parts c \<noteq> 0);
     total_accesses \<leftarrow> foldM (shared_subwarp c (cc_warp_size c div cc_mem_warp_parts c) w)
       [0..<cc_mem_warp_parts c] 0;
     require (total_accesses > 0 \<and> total_accesses \<le> cc_warp_size c);
     Some (w\<lparr>w_cycles := total_accesses\<rparr>) }"

subsection \<open>Texture and constant accesses, and all of them\<close>

definition block_thread :: "u32 \<Rightarrow> warp_mem_inst \<Rightarrow> nat \<Rightarrow> (u64 \<times> active_mask_t) list \<times> byte_mask_t \<Rightarrow>
    ((u64 \<times> active_mask_t) list \<times> byte_mask_t) option" where
  "block_thread cache_block_size w thread = (\<lambda>(accesses, byte_mask). do {
     a \<leftarrow> active w thread;
     if \<not> a then Some (accesses, byte_mask)
     else do {
       info \<leftarrow> nth_opt (w_memreqaddr w) thread;
       addr \<leftarrow> nth_opt info 0;
       let block_address = line_size_based_tag_func addr (ucast cache_block_size);
       lanes \<leftarrow> bitset_set thread (omap_get 0 (ucast block_address) accesses);
       let idx = (ucast (addr - ucast block_address) :: u32);
       byte_mask \<leftarrow> foldM (\<lambda>i b. bitset_set (unat (idx + of_nat i)) b) [0..<i_data_size w] byte_mask;
       Some (omap_put (ucast block_address) lanes accesses, byte_mask) } })"

definition block_accesses :: "core_config \<Rightarrow> bool \<Rightarrow> mem_access_type \<Rightarrow> u32 \<Rightarrow> warp_mem_inst \<Rightarrow>
    warp_mem_inst option" where
  "block_accesses c wr type cache_block_size w =
     (if cache_block_size = 0 then Some w
      else do {
        require (w_accessq w = []);
        (accesses, byte_mask) \<leftarrow> foldM (block_thread cache_block_size w) [0..<cc_warp_size c] ([], 0);
        Some (w\<lparr>w_accessq := w_accessq w @
          map (\<lambda>(addr, lanes). mem_access_full type addr cache_block_size wr lanes byte_mask) accesses\<rparr>) })"

definition access_type_of :: "memory_space_t \<Rightarrow> bool \<Rightarrow> mem_access_type" where
  "access_type_of space wr =
     (if space = const_space \<or> space = param_space_kernel then CONST_ACC_R
      else if space = tex_space then TEXTURE_ACC_R
      else if space = global_space then (if wr then GLOBAL_ACC_W else GLOBAL_ACC_R)
      else (if wr then LOCAL_ACC_W else LOCAL_ACC_R))"

definition generate_mem_accesses :: "core_config \<Rightarrow> warp_mem_inst \<Rightarrow> warp_mem_inst option" where
  "generate_mem_accesses c w =
     (if w_empty w \<or> i_op w = MEMORY_BARRIER_OP \<or> w_mem_accesses_created w then Some w
      else if \<not> (i_op w = LOAD_OP \<or> i_op w = STORE_OP) then Some w
      else if w_active_mask w = 0 then Some w
      else (let wr = is_store (inst_t.truncate w);
                type = access_type_of (i_space w) wr in do {
        require (is_load (inst_t.truncate w) \<or> is_store (inst_t.truncate w));
        require (w_per_scalar_thread_valid w);
        w \<leftarrow> (case i_space w of
            shared_space \<Rightarrow> shared_accesses c w
          | tex_space \<Rightarrow> block_accesses c wr type (cc_cache_texl1_linesize c) w
          | const_space \<Rightarrow> block_accesses c wr type (cc_cache_constl1_linesize c) w
          | param_space_kernel \<Rightarrow> block_accesses c wr type (cc_cache_constl1_linesize c) w
          | global_space \<Rightarrow> do {
              require (cc_coalesce_arch c = 13);
              if w_isatomic w then memory_coalescing_arch_13_atomic c wr type w
              else memory_coalescing_arch_13 c wr type w }
          | local_space \<Rightarrow> do {
              require (cc_coalesce_arch c = 13);
              if w_isatomic w then memory_coalescing_arch_13_atomic c wr type w
              else memory_coalescing_arch_13 c wr type w }
          | param_space_local \<Rightarrow> do {
              require (cc_coalesce_arch c = 13);
              if w_isatomic w then memory_coalescing_arch_13_atomic c wr type w
              else memory_coalescing_arch_13 c wr type w }
          | _ \<Rightarrow> None);
        Some (w\<lparr>w_mem_accesses_created := True\<rparr>) }))"

end
