(* ===== verification/Pipeline_Register.thy ===== *)
theory Pipeline_Register
  imports Coalesce Barrier
begin

text \<open>
  Instructions in flight and the registers between the stages of a core's pipeline: the issued part
  of \<open>warp_inst_t\<close>, \<open>move_warp\<close> and \<open>register_set\<close> of \<open>abstract_hardware_model.h\<close> and
  \<open>abstract_hardware_model.cc\<close>. A register set owns its instruction objects; a pointer to one of
  its registers is the register's index. The contract the stages rely on, a set of slots from which
  the oldest instruction is taken, is the locale \<open>slot_file\<close> of \<open>Writeback\<close>.
\<close>

subsection \<open>Instructions in flight\<close>

text \<open>
  What an instruction of the program says beside its operands: its barrier, reconvergence point
  and timing, the arrays of \<open>arch_reg\<close>, whose entries beyond the lists are \<open>-1\<close> as the constructor
  leaves them, and whether \<open>pre_decode\<close> has run.
\<close>

record static_info =
  st_bar :: barrier_inst
  st_reconvergence_pc :: address_type
  st_latency :: nat
  st_initiation_interval :: nat
  st_decoded :: bool
  st_src :: "int list"
  st_dst :: "int list"

record pipe_inst =
  pi_inst :: warp_mem_inst
  pi_static :: static_info
  pi_uid :: u32
  pi_issued_mask :: active_mask_t
  pi_dynamic_warp_id :: u32
  pi_issue_cycle :: u64

definition pi_empty :: "pipe_inst \<Rightarrow> bool" where
  "pi_empty p = w_empty (pi_inst p)"

definition pi_clear :: "pipe_inst \<Rightarrow> pipe_inst" where
  "pi_clear p = p\<lparr>pi_inst := (pi_inst p)\<lparr>w_empty := True\<rparr>\<rparr>"

text \<open>A member read through an accessor that asserts that the instruction is not empty.\<close>

definition pi_warp_id :: "pipe_inst \<Rightarrow> nat option" where
  "pi_warp_id p = do { require (\<not> pi_empty p); Some (i_warp_id (pi_inst p)) }"

text \<open>
  An instruction of the program, as \<open>warp_inst_t(config)\<close> leaves the members that are set when it
  issues.
\<close>

definition program_inst :: "static_info \<Rightarrow> inst_t \<Rightarrow> pipe_inst" where
  "program_inst st i = \<lparr>
     pi_inst = warp_inst_t.extend (inst_t.extend i (warp_inst_t.fields False))
       (warp_mem_inst.fields True False 0 False [] [] 0),
     pi_static = st, pi_uid = 0, pi_issued_mask = 0, pi_dynamic_warp_id = 0, pi_issue_cycle = 0\<rparr>"

text \<open>\<open>warp_inst_t::issue\<close>; \<open>uid\<close> is the counter \<open>sm_next_uid\<close> after its increment.\<close>

definition issue_inst :: "active_mask_t \<Rightarrow> nat \<Rightarrow> u64 \<Rightarrow> u32 \<Rightarrow> u32 \<Rightarrow> pipe_inst \<Rightarrow> pipe_inst" where
  "issue_inst msk warp_id cycle dynamic_warp_id uid p =
     p\<lparr>pi_inst := (pi_inst p)\<lparr>w_active_mask := msk, i_warp_id := warp_id,
         w_cycles := st_initiation_interval (pi_static p), w_empty := False\<rparr>,
       pi_issued_mask := msk, pi_uid := uid, pi_dynamic_warp_id := dynamic_warp_id,
       pi_issue_cycle := cycle\<rparr>"

text \<open>
  \<open>move_warp(dst, src)\<close> exchanges two pointers and clears the one that ends up as the source. The
  result is the new pair.
\<close>

definition move_warp :: "pipe_inst \<Rightarrow> pipe_inst \<Rightarrow> (pipe_inst \<times> pipe_inst) option" where
  "move_warp dst src = do {
     require (pi_empty dst);
     Some (src, pi_clear dst)
   }"

subsection \<open>Register sets\<close>

type_synonym register_set = "pipe_inst list"

text \<open>\<open>blank\<close> is the instruction \<open>warp_inst_t()\<close> makes, empty and otherwise unset.\<close>

definition register_set_new :: "pipe_inst \<Rightarrow> nat \<Rightarrow> register_set" where
  "register_set_new blank num = replicate num (pi_clear blank)"

definition has_free :: "register_set \<Rightarrow> bool" where
  "has_free regs \<longleftrightarrow> (\<exists>p \<in> set regs. pi_empty p)"

definition has_ready :: "register_set \<Rightarrow> bool" where
  "has_ready regs \<longleftrightarrow> (\<exists>p \<in> set regs. \<not> pi_empty p)"

fun first_free :: "register_set \<Rightarrow> nat option" where
  "first_free [] = None"
| "first_free (p # ps) = (if pi_empty p then Some 0 else map_option Suc (first_free ps))"

text \<open>\<open>None\<close> is the assertion \<open>No free registers found\<close>.\<close>

definition get_free :: "register_set \<Rightarrow> nat option" where
  "get_free regs = first_free regs"

definition ready_step :: "register_set \<Rightarrow> nat \<Rightarrow> nat option \<Rightarrow> nat option" where
  "ready_step regs i ready =
     (if \<not> pi_empty (regs ! i) then
        (case ready of
           Some r \<Rightarrow> if pi_uid (regs ! r) < pi_uid (regs ! i) then Some r else Some i
         | None \<Rightarrow> Some i)
      else ready)"

text \<open>Here \<open>None\<close> is the null pointer the code returns when nothing is ready.\<close>

definition get_ready :: "register_set \<Rightarrow> nat option" where
  "get_ready regs = fold (ready_step regs) [0..<length regs] None"

definition move_in :: "pipe_inst \<Rightarrow> register_set \<Rightarrow> (pipe_inst \<times> register_set) option" where
  "move_in src regs = do {
     r \<leftarrow> get_free regs;
     (dst, src) \<leftarrow> move_warp (regs ! r) src;
     Some (src, regs[r := dst])
   }"

definition move_out_to :: "pipe_inst \<Rightarrow> register_set \<Rightarrow> (pipe_inst \<times> register_set) option" where
  "move_out_to dest regs = do {
     r \<leftarrow> get_ready regs;
     (dest, old) \<leftarrow> move_warp dest (regs ! r);
     Some (dest, regs[r := old])
   }"

subsection \<open>What the operations do\<close>

lemma pi_empty_clear [simp]: "pi_empty (pi_clear p)"
  by (simp add: pi_empty_def pi_clear_def)

lemma pi_empty_program [simp]: "pi_empty (program_inst st i)"
  by (simp add: pi_empty_def program_inst_def inst_t.defs warp_inst_t.defs warp_mem_inst.defs)

lemma pi_empty_issue [simp]: "\<not> pi_empty (issue_inst m w c d u p)"
  by (simp add: pi_empty_def issue_inst_def)

lemma first_free_Some:
  "first_free ps = Some r \<Longrightarrow> r < length ps \<and> pi_empty (ps ! r)"
  by (induction ps arbitrary: r) (auto split: if_splits)

lemma first_free_None: "first_free ps = None \<longleftrightarrow> \<not> has_free ps"
  by (induction ps) (auto simp: has_free_def)

lemma get_free_iff: "(\<exists>r. get_free regs = Some r) \<longleftrightarrow> has_free regs"
  using first_free_None [of regs] by (auto simp: get_free_def)

lemma get_freeD: "get_free regs = Some r \<Longrightarrow> r < length regs \<and> pi_empty (regs ! r)"
  by (simp add: get_free_def first_free_Some)

text \<open>The scan keeps the ready register with the smallest number, the last one of equals.\<close>

lemma ready_scan:
  assumes "n \<le> length regs"
  shows "case fold (ready_step regs) [0..<n] None of
      None \<Rightarrow> \<forall>i < n. pi_empty (regs ! i)
    | Some r \<Rightarrow> r < n \<and> \<not> pi_empty (regs ! r) \<and>
        (\<forall>i < n. \<not> pi_empty (regs ! i) \<longrightarrow> pi_uid (regs ! r) \<le> pi_uid (regs ! i))"
  using assms
proof (induction n)
  case (Suc n)
  have step: "fold (ready_step regs) [0..<Suc n] None = ready_step regs n (fold (ready_step regs) [0..<n] None)"
    by simp
  show ?case
  proof (cases "fold (ready_step regs) [0..<n] None")
    case None
    with Suc have "\<forall>i < n. pi_empty (regs ! i)" by simp
    then show ?thesis
      unfolding step None by (auto simp: ready_step_def less_Suc_eq)
  next
    case (Some r)
    with Suc have r: "r < n" "\<not> pi_empty (regs ! r)"
      "\<And>i. i < n \<Longrightarrow> \<not> pi_empty (regs ! i) \<Longrightarrow> pi_uid (regs ! r) \<le> pi_uid (regs ! i)"
      by auto
    then show ?thesis
      unfolding step Some by (auto simp: ready_step_def less_Suc_eq not_less intro: order_trans)
  qed
qed simp

lemma get_readyD:
  assumes "get_ready regs = Some r"
  shows "r < length regs" and "\<not> pi_empty (regs ! r)"
    and "i < length regs \<Longrightarrow> \<not> pi_empty (regs ! i) \<Longrightarrow> pi_uid (regs ! r) \<le> pi_uid (regs ! i)"
  using ready_scan [of "length regs" regs] assms by (simp_all add: get_ready_def)

lemma get_ready_iff: "(\<exists>r. get_ready regs = Some r) \<longleftrightarrow> has_ready regs"
  using ready_scan [of "length regs" regs]
  by (cases "get_ready regs") (auto simp: get_ready_def has_ready_def Bex_def in_set_conv_nth)

end
