(* ===== verification/Issue.thy ===== *)
theory Issue
  imports Scheduler Simt_Stack Kernel_Launch Pipeline_Register
begin

text \<open>
  The issue stage of a core: \<open>scheduler_unit::cycle\<close> and \<open>shader_core_ctx::issue_warp\<close>
  (\<open>shader.cc\<close>), with the functional execution of the issued instruction
  (\<open>core_t::execute_warp_inst_t\<close>, \<open>checkExecutionStatusAndUpdate\<close>). It composes the warps, the
  scoreboard, the barriers, the SIMT stacks, the coalescer and the orders of the schedulers.
  What \<open>ptx_exec_inst\<close> does to a thread is a parameter: a function on a machine of any
  type, of which the core sees the program counter and return address of every hardware thread.
\<close>

subsection \<open>State\<close>

text \<open>\<open>tw_gpgpu_oracle_cpl\<close> is \<open>sc_oracle_cpl\<close> of the core's state.\<close>

record core_params =
  cp_warp_size :: nat
  cp_max_warps :: nat
  cp_max_issue :: nat
  cp_sid :: u32
  cp_core :: core_config
  cp_limits :: core_limits

text \<open>
  \<open>fn_exec\<close> is \<open>ptx_exec_inst\<close>, called with the lane and the hardware thread; it may change the instruction
  (mask out the lane, set its address) and abort. \<open>fn_thread\<close> is \<open>None\<close> for a thread that is done or
  absent. \<open>fn_broadcast\<close> is \<open>broadcast_barrier_reduction\<close>.
\<close>

record 'm functional =
  fn_info :: "address_type \<Rightarrow> static_info"
  fn_exec :: "nat \<Rightarrow> nat \<Rightarrow> pipe_inst \<Rightarrow> 'm \<Rightarrow> (pipe_inst \<times> 'm) option"
  fn_thread :: "'m \<Rightarrow> nat \<Rightarrow> (address_type \<times> address_type) option"
  fn_broadcast :: "nat \<times> nat \<times> nat set \<Rightarrow> 'm \<Rightarrow> 'm"

record 'm core_state =
  cs_core :: sched_core
  cs_stacks :: "simt_stack list"
  cs_sp :: register_set
  cs_sfu :: register_set
  cs_mem :: register_set
  cs_ctas :: core_ctas
  cs_machine :: 'm
  cs_next_uid :: u32

datatype issue_pipe = SP_PIPE | SFU_PIPE | MEM_PIPE

fun pipe_regs :: "issue_pipe \<Rightarrow> 'm core_state \<Rightarrow> register_set" where
  "pipe_regs SP_PIPE s = cs_sp s"
| "pipe_regs SFU_PIPE s = cs_sfu s"
| "pipe_regs MEM_PIPE s = cs_mem s"

fun set_pipe_regs :: "issue_pipe \<Rightarrow> register_set \<Rightarrow> 'm core_state \<Rightarrow> 'm core_state" where
  "set_pipe_regs SP_PIPE r s = s\<lparr>cs_sp := r\<rparr>"
| "set_pipe_regs SFU_PIPE r s = s\<lparr>cs_sfu := r\<rparr>"
| "set_pipe_regs MEM_PIPE r s = s\<lparr>cs_mem := r\<rparr>"

definition core_warps :: "'m core_state \<Rightarrow> shd_warp list" where
  "core_warps s = sc_warps (cs_core s)"

text \<open>A call of a method of \<open>m_warp[i]\<close>.\<close>

definition on_warp :: "nat \<Rightarrow> (shd_warp \<Rightarrow> shd_warp option) \<Rightarrow> 'm core_state \<Rightarrow> 'm core_state option" where
  "on_warp i f s = do {
     w \<leftarrow> nth_opt (core_warps s) i;
     w \<leftarrow> f w;
     Some (s\<lparr>cs_core := (cs_core s)\<lparr>sc_warps := (core_warps s)[i := w]\<rparr>\<rparr>)
   }"

definition lanes_mask :: "nat set \<Rightarrow> active_mask_t" where
  "lanes_mask A = fold (\<lambda>i m. if i \<in> A then Bit_Operations.set_bit i m else m) [0..<32] 0"

text \<open>The threads of a warp, as \<open>updateSIMTStack\<close> and \<open>tw_calculate_npc_per_warp\<close> visit them.\<close>

definition warp_threads :: "core_params \<Rightarrow> 'm functional \<Rightarrow> nat \<Rightarrow> 'm core_state \<Rightarrow>
    (address_type \<times> address_type) option list" where
  "warp_threads c fn warp_id s =
     map (\<lambda>i. fn_thread fn (cs_machine s) (warp_id * cp_warp_size c + i)) [0..<cp_warp_size c]"

subsection \<open>Functional execution\<close>

text \<open>The local address of a lane becomes its addresses in the memory all threads share.\<close>

definition local_addresses :: "core_params \<Rightarrow> core_ctas \<Rightarrow> nat \<Rightarrow> nat \<Rightarrow> pipe_inst \<Rightarrow> pipe_inst option" where
  "local_addresses c placed t tid p = (let i = inst_t.truncate (pi_inst p) in
     if space_is_local (i_space i) \<and> (is_load i \<or> is_store i) then do {
       require (w_per_scalar_thread_valid (pi_inst p));
       addrs \<leftarrow> nth_opt (w_memreqaddr (pi_inst p)) t;
       a \<leftarrow> nth_opt addrs 0;
       xs \<leftarrow> translate_local_memaddr (cp_limits c) placed (cp_sid c) (ucast a) (of_nat tid) (of_nat (i_data_size i));
       q \<leftarrow> set_addrs (cp_core c) t xs (pi_inst p);
       Some (p\<lparr>pi_inst := q\<rparr>)
     } else Some p)"

definition check_execution :: "core_params \<Rightarrow> 'm functional \<Rightarrow> nat \<Rightarrow> nat \<Rightarrow> pipe_inst \<times> 'm core_state \<Rightarrow>
    (pipe_inst \<times> 'm core_state) option" where
  "check_execution c fn t tid = (\<lambda>(p, s). do {
     wid \<leftarrow> pi_warp_id p;
     s \<leftarrow> (if w_isatomic (pi_inst p) then on_warp wid (\<lambda>w. Some (w\<lparr>m_n_atomic := m_n_atomic w + 1\<rparr>)) s
       else Some s);
     p \<leftarrow> local_addresses c (cs_ctas s) t tid p;
     s \<leftarrow> (if fn_thread fn (cs_machine s) tid = None
       then on_warp wid (\<lambda>w. do { w \<leftarrow> set_completed t w; ibuffer_flush w }) s
       else Some s);
     Some (p, s)
   })"

definition exec_lane :: "core_params \<Rightarrow> 'm functional \<Rightarrow> nat \<Rightarrow> pipe_inst \<times> 'm core_state \<Rightarrow>
    (pipe_inst \<times> 'm core_state) option" where
  "exec_lane c fn t = (\<lambda>(p, s). do {
     act \<leftarrow> active (pi_inst p) t;
     (if act then do {
        wid \<leftarrow> pi_warp_id p;
        let tid = cp_warp_size c * wid + t;
        (p, m) \<leftarrow> fn_exec fn t tid p (cs_machine s);
        check_execution c fn t tid (p, s\<lparr>cs_machine := m\<rparr>)
      } else Some (p, s))
   })"

definition execute_warp_inst_t :: "core_params \<Rightarrow> 'm functional \<Rightarrow> pipe_inst \<times> 'm core_state \<Rightarrow>
    (pipe_inst \<times> 'm core_state) option" where
  "execute_warp_inst_t c fn ps = foldM (exec_lane c fn) [0..<cp_warp_size c] ps"

definition func_exec_inst :: "core_params \<Rightarrow> 'm functional \<Rightarrow> pipe_inst \<times> 'm core_state \<Rightarrow>
    (pipe_inst \<times> 'm core_state) option" where
  "func_exec_inst c fn ps = do {
     (p, s) \<leftarrow> execute_warp_inst_t c fn ps;
     let i = inst_t.truncate (pi_inst p);
     (if is_load i \<or> is_store i then do {
        q \<leftarrow> generate_mem_accesses (cp_core c) (pi_inst p);
        Some (p\<lparr>pi_inst := q\<rparr>, s)
      } else Some (p, s))
   }"

subsection \<open>Issuing an instruction\<close>

text \<open>The barrier and memory barrier part of \<open>issue_warp\<close>.\<close>

definition issue_barrier :: "'m functional \<Rightarrow> inst_t \<Rightarrow> pipe_inst \<Rightarrow> nat \<Rightarrow> 'm core_state \<Rightarrow> 'm core_state option" where
  "issue_barrier fn next_inst p warp_id s =
     (if i_op next_inst = BARRIER_OP then do {
        s \<leftarrow> on_warp warp_id (\<lambda>w. Some (w\<lparr>m_inst_at_barrier := Some (inst_t.truncate (pi_inst p))\<rparr>)) s;
        w \<leftarrow> nth_opt (core_warps s) warp_id;
        (b, call) \<leftarrow> warp_reaches_barrier (unat (m_cta_id w)) warp_id
          (st_bar (fn_info fn (i_pc next_inst))) (sc_barriers (cs_core s));
        Some (s\<lparr>cs_core := (cs_core s)\<lparr>sc_barriers := b\<rparr>,
          cs_machine := (case call of None \<Rightarrow> cs_machine s | Some x \<Rightarrow> fn_broadcast fn x (cs_machine s))\<rparr>)
      }
      else if i_op next_inst = MEMORY_BARRIER_OP then on_warp warp_id (\<lambda>w. Some (w\<lparr>m_membar := True\<rparr>)) s
      else Some s)"

text \<open>The criticality part: the predicted next program counter of the warp updates its counters.\<close>

definition issue_criticality :: "core_params \<Rightarrow> 'm functional \<Rightarrow> u64 \<Rightarrow> inst_t \<Rightarrow> nat \<Rightarrow> 'm core_state \<Rightarrow>
    'm core_state option" where
  "issue_criticality c fn now next_inst warp_id s =
     (if sc_oracle_cpl (cs_core s) then Some s
      else on_warp warp_id (\<lambda>w. do {
        npc \<leftarrow> tw_calculate_npc_per_warp (map fst (List.map_filter id (warp_threads c fn warp_id s))) w;
        tw_warp_issue (ucast now) npc (i_isize next_inst) w
      }) s)"

definition update_stack :: "core_params \<Rightarrow> 'm functional \<Rightarrow> u64 \<Rightarrow> pipe_inst \<Rightarrow> nat \<Rightarrow> 'm core_state \<Rightarrow>
    'm core_state option" where
  "update_stack c fn now p warp_id s = do {
     stack \<leftarrow> nth_opt (cs_stacks s) warp_id;
     stack \<leftarrow> updateSIMTStack now (cp_warp_size c) (warp_threads c fn warp_id s)
       (st_reconvergence_pc (pi_static p)) (i_op (pi_inst p)) (i_isize (pi_inst p)) (i_pc (pi_inst p)) stack;
     Some (s\<lparr>cs_stacks := (cs_stacks s)[warp_id := stack]\<rparr>)
   }"

definition reserve :: "pipe_inst \<Rightarrow> 'm core_state \<Rightarrow> 'm core_state option" where
  "reserve p s = do {
     sb \<leftarrow> reserveRegisters (inst_t.truncate (pi_inst p)) (sc_scoreboard (cs_core s));
     Some (s\<lparr>cs_core := (cs_core s)\<lparr>sc_scoreboard := sb\<rparr>\<rparr>)
   }"

text \<open>The pipeline register is filled when the instruction is complete; nothing reads it before.\<close>

definition issue_warp :: "core_params \<Rightarrow> 'm functional \<Rightarrow> u64 \<Rightarrow> issue_pipe \<Rightarrow> inst_t \<Rightarrow> nat set \<Rightarrow> nat \<Rightarrow>
    'm core_state \<Rightarrow> 'm core_state option" where
  "issue_warp c fn now pipe next_inst active_mask warp_id s = do {
     r \<leftarrow> get_free (pipe_regs pipe s);
     s \<leftarrow> on_warp warp_id (\<lambda>w. Some (ibuffer_free w)) s;
     let st = fn_info fn (i_pc next_inst);
     require (st_decoded st);
     w \<leftarrow> nth_opt (core_warps s) warp_id;
     let uid = cs_next_uid s + 1;
     let p = issue_inst (lanes_mask active_mask) warp_id now (m_dynamic_warp_id w) uid
       (program_inst st next_inst);
     require (warp_id < cp_max_warps c);
     (p, s) \<leftarrow> func_exec_inst c fn (p, s\<lparr>cs_next_uid := uid\<rparr>);
     s \<leftarrow> issue_barrier fn next_inst p warp_id s;
     s \<leftarrow> issue_criticality c fn now next_inst warp_id s;
     s \<leftarrow> update_stack c fn now p warp_id s;
     s \<leftarrow> reserve p s;
     s \<leftarrow> on_warp warp_id (\<lambda>w. Some (w\<lparr>m_next_pc := i_pc next_inst + i_isize next_inst\<rparr>)) s;
     Some (set_pipe_regs pipe ((pipe_regs pipe s)[r := p]) s)
   }"

subsection \<open>Scheduler units\<close>

datatype scheduler_kind =
    Sched_LRR | Sched_GTO | Sched_CAWS | Sched_GCAWS | Sched_SWL nat | Sched_Two_Level nat

record scheduler_unit =
  su_kind :: scheduler_kind
  su_supervised :: "nat list"
  su_last :: "nat option"
  su_prioritized :: "nat list"
  su_pending :: "nat list"

definition scheduler_new :: "scheduler_kind \<Rightarrow> scheduler_unit" where
  "scheduler_new k = \<lparr>su_kind = k, su_supervised = [], su_last = None, su_prioritized = [], su_pending = []\<rparr>"

definition add_supervised_warp_id :: "nat \<Rightarrow> scheduler_unit \<Rightarrow> scheduler_unit" where
  "add_supervised_warp_id i u = (case su_kind u of
       Sched_Two_Level n \<Rightarrow>
         (case two_level_add_supervised n i (su_prioritized u, su_pending u) of
            (a, p) \<Rightarrow> u\<lparr>su_prioritized := a, su_pending := p\<rparr>)
     | _ \<Rightarrow> u\<lparr>su_supervised := su_supervised u @ [i]\<rparr>)"

text \<open>\<open>begin()\<close> of an empty vector is \<open>end()\<close>.\<close>

definition done_adding_supervised_warps :: "scheduler_unit \<Rightarrow> scheduler_unit" where
  "done_adding_supervised_warps u = u\<lparr>su_last :=
     (if su_kind u \<in> {Sched_LRR, Sched_CAWS, Sched_GCAWS} \<or> su_supervised u = [] then None else Some 0)\<rparr>"

definition order_warps :: "(nat list \<Rightarrow> sched_core \<Rightarrow> (nat list \<times> sched_core) option) \<Rightarrow> scheduler_unit \<Rightarrow>
    sched_core \<Rightarrow> (scheduler_unit \<times> sched_core) option" where
  "order_warps std_sort u s =
     (let plain = (\<lambda>r. do { (ws, s) \<leftarrow> r; Some (u\<lparr>su_prioritized := ws\<rparr>, s) }) in
      case su_kind u of
        Sched_LRR \<Rightarrow> plain (do { ws \<leftarrow> lrr_order_warps (su_supervised u) (su_last u); Some (ws, s) })
      | Sched_GTO \<Rightarrow> plain (gto_order_warps std_sort (su_supervised u) (su_last u) s)
      | Sched_CAWS \<Rightarrow> plain (caws_order_warps (su_supervised u) s)
      | Sched_GCAWS \<Rightarrow> plain (gcaws_order_warps (su_supervised u) (su_last u) s)
      | Sched_SWL n \<Rightarrow> plain (swl_order_warps std_sort n (su_supervised u) (su_last u) s)
      | Sched_Two_Level n \<Rightarrow> do {
          (a, p, s) \<leftarrow> two_level_order_warps n (su_prioritized u) (su_pending u) s;
          Some (u\<lparr>su_prioritized := a, su_pending := p\<rparr>, s)
        })"

definition do_on_warp_issued :: "nat \<Rightarrow> nat \<Rightarrow> scheduler_unit \<times> 'm core_state \<Rightarrow>
    (scheduler_unit \<times> 'm core_state) option" where
  "do_on_warp_issued warp_id it = (\<lambda>(u, s). do {
     s \<leftarrow> on_warp warp_id (\<lambda>w. Some (ibuffer_step w)) s;
     (case su_kind u of
        Sched_Two_Level _ \<Rightarrow> do {
          ws \<leftarrow> two_level_on_issue (su_prioritized u) it;
          Some (u\<lparr>su_prioritized := ws\<rparr>, s)
        }
      | _ \<Rightarrow> Some (u, s))
   })"

subsection \<open>A cycle of a scheduler\<close>

text \<open>\<open>valid_inst\<close>, \<open>ready_inst\<close> and \<open>issued_inst\<close>, which classify the cycle for the stall statistics.\<close>

record cycle_flags =
  valid_inst :: bool
  ready_inst :: bool
  issued_inst :: bool

definition waiting :: "nat \<Rightarrow> 'm core_state \<Rightarrow> (bool \<times> 'm core_state) option" where
  "waiting i s = do { (b, core) \<leftarrow> core_waiting i (cs_core s); Some (b, s\<lparr>cs_core := core\<rparr>) }"

text \<open>\<open>set_next_pc(pc)\<close> and \<open>ibuffer_flush()\<close>.\<close>

definition redirect :: "nat \<Rightarrow> address_type \<Rightarrow> 'm core_state \<Rightarrow> 'm core_state option" where
  "redirect warp_id pc s = on_warp warp_id (\<lambda>w. ibuffer_flush (w\<lparr>m_next_pc := pc\<rparr>)) s"

text \<open>The pipeline the instruction goes to, \<open>None\<close> when it finds none free.\<close>

definition choose_pipe :: "inst_t \<Rightarrow> 'm core_state \<Rightarrow> issue_pipe option" where
  "choose_pipe pI s =
     (if i_op pI = LOAD_OP \<or> i_op pI = STORE_OP \<or> i_op pI = MEMORY_BARRIER_OP
      then (if has_free (cs_mem s) then Some MEM_PIPE else None)
      else if has_free (cs_sp s) \<and> i_op pI \<noteq> SFU_OP then Some SP_PIPE
      else if (i_op pI = SFU_OP \<or> i_op pI = ALU_SFU_OP) \<and> has_free (cs_sfu s) then Some SFU_PIPE
      else None)"

text \<open>The body of the inner loop; the first component says whether an instruction issued.\<close>

definition try_issue :: "core_params \<Rightarrow> 'm functional \<Rightarrow> u64 \<Rightarrow> nat \<Rightarrow> cycle_flags \<times> 'm core_state \<Rightarrow>
    (bool \<times> cycle_flags \<times> 'm core_state) option" where
  "try_issue c fn now warp_id = (\<lambda>(fl, s). do {
     w \<leftarrow> nth_opt (core_warps s) warp_id;
     stack \<leftarrow> nth_opt (cs_stacks s) warp_id;
     (pc, rpc) \<leftarrow> get_pdom_stack_top_info stack;
     (case ibuffer_next_inst w of
        Some pI \<Rightarrow> do {
          require (ibuffer_next_valid w);
          (if pc \<noteq> i_pc pI then do { s \<leftarrow> redirect warp_id pc s; Some (False, fl, s) }
           else do {
             let fl = fl\<lparr>valid_inst := True\<rparr>;
             hazard \<leftarrow> checkCollision warp_id pI (sc_scoreboard (cs_core s));
             (if hazard then Some (False, fl, s)
              else do {
                let fl = fl\<lparr>ready_inst := True\<rparr>;
                active_mask \<leftarrow> get_active_mask stack;
                require (inst_in_pipeline w);
                (case choose_pipe pI s of
                   None \<Rightarrow> Some (False, fl, s)
                 | Some pipe \<Rightarrow> do {
                     s \<leftarrow> issue_warp c fn now pipe pI active_mask warp_id s;
                     Some (True, fl\<lparr>issued_inst := True\<rparr>, s)
                   })
              })
           })
        }
      | None \<Rightarrow>
          (if ibuffer_next_valid w then do { s \<leftarrow> redirect warp_id pc s; Some (False, fl, s) }
           else Some (False, fl, s)))
   })"

text \<open>
  The inner loop on the warp at position \<open>it\<close> of the order. \<open>left\<close> is \<open>max_issue - checked\<close>; the test
  of the loop asks \<open>waiting()\<close> first, which may clear the warp's memory barrier flag.
\<close>

fun issue_loop :: "core_params \<Rightarrow> 'm functional \<Rightarrow> u64 \<Rightarrow> nat \<Rightarrow> nat \<Rightarrow> nat \<Rightarrow> nat \<Rightarrow>
    scheduler_unit \<times> cycle_flags \<times> 'm core_state \<Rightarrow>
    (nat \<times> scheduler_unit \<times> cycle_flags \<times> 'm core_state) option" where
  "issue_loop c fn now it warp_id left issued (u, fl, s) = do {
     (wait, s) \<leftarrow> waiting warp_id s;
     w \<leftarrow> nth_opt (core_warps s) warp_id;
     (case left of
        0 \<Rightarrow> Some (issued, u, fl, s)
      | Suc left \<Rightarrow>
          (if wait \<or> ibuffer_empty w \<or> \<not> cp_max_issue c - Suc left \<le> issued \<or> \<not> issued < cp_max_issue c
           then Some (issued, u, fl, s)
           else do {
             (b, fl, s) \<leftarrow> try_issue c fn now warp_id (fl, s);
             (if b then do {
                (u, s) \<leftarrow> do_on_warp_issued warp_id it (u, s);
                issue_loop c fn now it warp_id left (issued + 1) (u, fl, s)
              } else issue_loop c fn now it warp_id left issued (u, fl, s))
           }))
   }"

declare issue_loop.simps [simp del]

text \<open>The scan that sets \<open>m_last_supervised_issued\<close>; the last match stays.\<close>

definition note_issued :: "nat \<Rightarrow> scheduler_unit \<Rightarrow> scheduler_unit" where
  "note_issued i u = fold (\<lambda>k u. if su_supervised u ! k = i then u\<lparr>su_last := Some k\<rparr> else u)
     [0..<length (su_supervised u)] u"

fun warp_loop :: "core_params \<Rightarrow> 'm functional \<Rightarrow> u64 \<Rightarrow> (nat \<times> nat) list \<Rightarrow>
    scheduler_unit \<times> cycle_flags \<times> 'm core_state \<Rightarrow>
    (scheduler_unit \<times> cycle_flags \<times> 'm core_state) option" where
  "warp_loop c fn now [] (u, fl, s) = Some (u, fl, s)"
| "warp_loop c fn now ((it, i) # rest) (u, fl, s) = do {
     w \<leftarrow> nth_opt (core_warps s) i;
     (if m_done_exit w then warp_loop c fn now rest (u, fl, s)
      else do {
        (issued, u, fl, s) \<leftarrow> issue_loop c fn now it (unat (m_warp_id w)) (cp_max_issue c) 0 (u, fl, s);
        (if 0 < issued then Some (note_issued i u, fl, s)
         else warp_loop c fn now rest (u, fl, s))
      })
   }"

definition scheduler_cycle :: "core_params \<Rightarrow> 'm functional \<Rightarrow>
    (nat list \<Rightarrow> sched_core \<Rightarrow> (nat list \<times> sched_core) option) \<Rightarrow> u64 \<Rightarrow>
    scheduler_unit \<times> 'm core_state \<Rightarrow> (scheduler_unit \<times> cycle_flags \<times> 'm core_state) option" where
  "scheduler_cycle c fn std_sort now = (\<lambda>(u, s). do {
     (u, core) \<leftarrow> order_warps std_sort u (cs_core s);
     warp_loop c fn now (enumerate 0 (su_prioritized u))
       (u, \<lparr>valid_inst = False, ready_inst = False, issued_inst = False\<rparr>, s\<lparr>cs_core := core\<rparr>)
   })"

text \<open>The entry of \<open>shader_cycle_distro\<close> that a cycle without an issue counts.\<close>

definition stall_entry :: "cycle_flags \<Rightarrow> nat option" where
  "stall_entry fl = (if \<not> valid_inst fl then Some 0 else if \<not> ready_inst fl then Some 1
     else if \<not> issued_inst fl then Some 2 else None)"

end
