(* ===== verification/Issue_Correct.thy ===== *)
theory Issue_Correct
  imports Issue
begin

text \<open>
  What the issue stage guarantees. An issued instruction is the one its warp's SIMT stack points at,
  passed the scoreboard, found a free register of a pipeline that accepts it, and its warp was not
  waiting; everything else a cycle does leaves the architectural state alone. With the criticality counters
  switched on, a warp cannot issue twice in a cycle: the second issue aborts.
\<close>

subsection \<open>Operations on one warp\<close>

definition upd_warps :: "shd_warp list \<Rightarrow> 'm core_state \<Rightarrow> 'm core_state" where
  "upd_warps ws s = s\<lparr>cs_core := (cs_core s)\<lparr>sc_warps := ws\<rparr>\<rparr>"

lemma upd_warps_simps [simp]:
  "core_warps (upd_warps ws s) = ws"
  "upd_warps vs (upd_warps ws s) = upd_warps vs s"
  "upd_warps (core_warps s) s = s"
  "cs_stacks (upd_warps ws s) = cs_stacks s"
  "cs_machine (upd_warps ws s) = cs_machine s"
  "cs_next_uid (upd_warps ws s) = cs_next_uid s"
  "cs_ctas (upd_warps ws s) = cs_ctas s"
  "pipe_regs p (upd_warps ws s) = pipe_regs p s"
  "sc_scoreboard (cs_core (upd_warps ws s)) = sc_scoreboard (cs_core s)"
  "sc_barriers (cs_core (upd_warps ws s)) = sc_barriers (cs_core s)"
  "sc_oracle_cpl (cs_core (upd_warps ws s)) = sc_oracle_cpl (cs_core s)"
  by (cases p; simp add: upd_warps_def core_warps_def)+

lemma on_warp_eq:
  "on_warp i f s = (if i < length (core_warps s)
     then map_option (\<lambda>w. upd_warps ((core_warps s)[i := w]) s) (f (core_warps s ! i)) else None)"
  by (cases "f (core_warps s ! i)") (simp_all add: on_warp_def upd_warps_def)

lemma on_warpE:
  assumes "on_warp i f s = Some s'"
  obtains w where "i < length (core_warps s)" and "f (core_warps s ! i) = Some w"
    and "s' = upd_warps ((core_warps s)[i := w]) s"
  using assms by (auto simp: on_warp_eq split: if_splits)

subsection \<open>What functional execution changes\<close>

text \<open>
  Executing an instruction changes the machine and, of a warp, only the completed threads, the atomics in
  flight and the instruction buffer with its count.
\<close>

definition exec_warp :: "shd_warp \<Rightarrow> shd_warp \<Rightarrow> bool" where
  "exec_warp w w' \<longleftrightarrow> (\<exists>n a b k p. w' = w\<lparr>n_completed := n, m_active_threads := a,
     m_ibuffer := b, m_n_atomic := k, m_inst_in_pipeline := p\<rparr>)"

definition exec_frame :: "'m core_state \<Rightarrow> 'm core_state \<Rightarrow> bool" where
  "exec_frame s s' \<longleftrightarrow> s' = (upd_warps (core_warps s') s)\<lparr>cs_machine := cs_machine s'\<rparr> \<and>
     list_all2 exec_warp (core_warps s) (core_warps s')"

lemma exec_warpI: "exec_warp w (w\<lparr>n_completed := n, m_active_threads := a,
    m_ibuffer := b, m_n_atomic := k, m_inst_in_pipeline := p\<rparr>)"
  unfolding exec_warp_def by (intro exI) (rule refl)

lemma exec_warp_refl [simp]: "exec_warp w w"
  using exec_warpI [where w = w and n = "n_completed w" and a = "m_active_threads w" and b = "m_ibuffer w"
    and k = "m_n_atomic w" and p = "m_inst_in_pipeline w"]
  by simp

lemma exec_warp_trans:
  assumes "exec_warp w v" and "exec_warp v u"
  shows "exec_warp w u"
proof -
  obtain n a b k p where v: "v = w\<lparr>n_completed := n, m_active_threads := a, m_ibuffer := b,
      m_n_atomic := k, m_inst_in_pipeline := p\<rparr>" using assms(1) unfolding exec_warp_def by blast
  obtain n a b k p where "u = v\<lparr>n_completed := n, m_active_threads := a, m_ibuffer := b,
      m_n_atomic := k, m_inst_in_pipeline := p\<rparr>" using assms(2) unfolding exec_warp_def by blast
  then have "u = w\<lparr>n_completed := n, m_active_threads := a, m_ibuffer := b,
      m_n_atomic := k, m_inst_in_pipeline := p\<rparr>" by (simp add: v)
  then show ?thesis unfolding exec_warp_def by blast
qed

lemma exec_warp_eqI:
  "w' = w\<lparr>n_completed := n_completed w', m_active_threads := m_active_threads w', m_ibuffer := m_ibuffer w',
     m_n_atomic := m_n_atomic w', m_inst_in_pipeline := m_inst_in_pipeline w'\<rparr> \<Longrightarrow> exec_warp w w'"
  unfolding exec_warp_def by blast

lemma exec_warp_upds [simp]:
  "exec_warp w (w\<lparr>m_inst_in_pipeline := p\<rparr>)" "exec_warp w (w\<lparr>m_ibuffer := b\<rparr>)"
  "exec_warp w (w\<lparr>m_n_atomic := k\<rparr>)"
  "exec_warp w (w\<lparr>n_completed := n, m_active_threads := a\<rparr>)"
  by (rule exec_warp_eqI, simp)+

lemma exec_frame_refl [simp]: "exec_frame s s"
  by (simp add: exec_frame_def list_all2_same)

lemma machine_upd [simp]:
  "core_warps (s\<lparr>cs_machine := m\<rparr>) = core_warps s"
  "upd_warps ws (s\<lparr>cs_machine := m\<rparr>) = (upd_warps ws s)\<lparr>cs_machine := m\<rparr>"
  by (simp_all add: upd_warps_def core_warps_def)

lemma exec_frame_trans:
  assumes "exec_frame s t" and "exec_frame t u"
  shows "exec_frame s u"
proof -
  have "u = (upd_warps (core_warps u) t)\<lparr>cs_machine := cs_machine u\<rparr>"
    and "t = (upd_warps (core_warps t) s)\<lparr>cs_machine := cs_machine t\<rparr>"
    using assms by (simp_all add: exec_frame_def)
  then have "u = (upd_warps (core_warps u) ((upd_warps (core_warps t) s)\<lparr>cs_machine := cs_machine t\<rparr>))\<lparr>cs_machine := cs_machine u\<rparr>"
    by metis
  then have "u = (upd_warps (core_warps u) s)\<lparr>cs_machine := cs_machine u\<rparr>" by simp
  moreover have "list_all2 exec_warp (core_warps s) (core_warps u)"
    using assms by (auto simp: exec_frame_def intro: list_all2_trans [OF exec_warp_trans])
  ultimately show ?thesis by (simp add: exec_frame_def)
qed

lemma exec_frame_machine [simp]: "exec_frame s (s\<lparr>cs_machine := m\<rparr>)"
  by (simp add: exec_frame_def list_all2_same)

lemma exec_frame_on_warp:
  assumes "on_warp i f s = Some s'" and "\<And>w w'. f w = Some w' \<Longrightarrow> exec_warp w w'"
  shows "exec_frame s s'"
proof -
  obtain w where i: "i < length (core_warps s)" and f: "f (core_warps s ! i) = Some w"
    and s': "s' = upd_warps ((core_warps s)[i := w]) s"
    using assms(1) by (rule on_warpE)
  have "list_all2 exec_warp (core_warps s) ((core_warps s)[i := w])"
    using assms(2) [OF f] i by (intro list_all2_all_nthI) (auto simp: nth_list_update)
  then show ?thesis
    unfolding s' by (simp add: exec_frame_def upd_warps_def core_warps_def)
qed

lemma exec_warp_flush_entries: "flush_entries es w = Some w' \<Longrightarrow> exec_warp w w'"
proof (induction es arbitrary: w)
  case (Cons e es)
  show ?case
  proof (cases "snd e")
    case True
    with Cons.prems have "flush_entries es (w\<lparr>m_inst_in_pipeline := m_inst_in_pipeline w - 1\<rparr>) = Some w'"
      by (cases e) (simp add: dec_inst_in_pipeline_def bind_eq_Some_iff split: if_splits)
    then show ?thesis by (rule exec_warp_trans [OF exec_warp_upds(1) Cons.IH])
  next
    case False
    with Cons show ?thesis by (cases e) simp
  qed
qed simp

lemma exec_warp_flush:
  assumes "ibuffer_flush w = Some w'"
  shows "exec_warp w w'"
proof -
  obtain v where "flush_entries (m_ibuffer w) w = Some v"
    and "w' = v\<lparr>m_ibuffer := map (\<lambda>_. (None, False)) (m_ibuffer w)\<rparr>"
    using assms by (auto simp: ibuffer_flush_def bind_eq_Some_iff)
  then show ?thesis using exec_warp_trans [OF exec_warp_flush_entries exec_warp_upds(2)] by simp
qed

lemma exec_warp_complete:
  assumes "do { w \<leftarrow> set_completed t w; ibuffer_flush w } = Some w'"
  shows "exec_warp w w'"
proof -
  obtain v where v: "set_completed t w = Some v" and "ibuffer_flush v = Some w'"
    using assms unfolding bind_eq_Some_iff by blast
  from v have "v = w\<lparr>n_completed := n_completed w + 1, m_active_threads := m_active_threads w - {t}\<rparr>"
    by (auto simp: set_completed_def split: if_splits)
  then have "exec_warp w v" by simp
  moreover have "exec_warp v w'" by (rule exec_warp_flush) fact
  ultimately show ?thesis by (rule exec_warp_trans)
qed

lemma exec_frame_check:
  assumes "check_execution c fn t tid (p, s) = Some (p', s')"
  shows "exec_frame s s'"
proof -
  let ?atom = "\<lambda>wid. if w_isatomic (pi_inst p) then on_warp wid (\<lambda>w. Some (w\<lparr>m_n_atomic := m_n_atomic w + 1\<rparr>)) s else Some s"
  obtain wid s1 where s1: "?atom wid = Some s1"
    and s2: "(if fn_thread fn (cs_machine s1) tid = None
       then on_warp wid (\<lambda>w. do { w \<leftarrow> set_completed t w; ibuffer_flush w }) s1 else Some s1) = Some s'"
    using assms unfolding check_execution_def Let_def prod.case bind_eq_Some_iff by blast
  have "exec_frame s s1"
    using s1 by (auto split: if_splits elim!: exec_frame_on_warp)
  moreover have "exec_frame s1 s'"
    using s2 by (auto split: if_splits elim!: exec_frame_on_warp intro: exec_warp_complete)
  ultimately show ?thesis by (rule exec_frame_trans)
qed

lemma exec_frame_lane:
  assumes "exec_lane c fn t (p, s) = Some (p', s')"
  shows "exec_frame s s'"
proof -
  obtain act where act: "(if act then do {
        wid \<leftarrow> pi_warp_id p;
        let tid = cp_warp_size c * wid + t;
        (p, m) \<leftarrow> fn_exec fn t tid p (cs_machine s);
        check_execution c fn t tid (p, s\<lparr>cs_machine := m\<rparr>)
      } else Some (p, s)) = Some (p', s')"
    using assms unfolding exec_lane_def prod.case bind_eq_Some_iff by blast
  show ?thesis
  proof (cases act)
    case True
    with act obtain wid q m where
      "check_execution c fn t (cp_warp_size c * wid + t) (q, s\<lparr>cs_machine := m\<rparr>) = Some (p', s')"
      by (auto simp: Let_def bind_eq_Some_iff)
    then show ?thesis
      by (rule exec_frame_trans [OF exec_frame_machine exec_frame_check])
  qed (use act in simp)
qed

lemma exec_frame_func:
  assumes "func_exec_inst c fn (p, s) = Some (p', s')"
  shows "exec_frame s s'"
proof -
  obtain p1 where "foldM (exec_lane c fn) [0..<cp_warp_size c] (p, s) = Some (p1, s')"
    using assms
    by (auto simp: func_exec_inst_def execute_warp_inst_t_def Let_def bind_eq_Some_iff split: if_splits)
  then have "exec_frame s (snd (p1, s'))"
    by (rule foldM_invariant [where P = "\<lambda>x. exec_frame s (snd x)"])
      (auto dest!: exec_frame_lane intro: exec_frame_trans)
  then show ?thesis by simp
qed

subsection \<open>The stages of an issue\<close>

lemma issue_warpE:
  assumes "issue_warp c fn now pipe i msk w s = Some s'"
  obtains r p s1 s2 s3 s4 s5 s6 s7 where "get_free (pipe_regs pipe s) = Some r"
    and "on_warp w (\<lambda>w. Some (ibuffer_free w)) s = Some s1"
    and "func_exec_inst c fn (issue_inst (lanes_mask msk) w now (m_dynamic_warp_id (core_warps s1 ! w))
        (cs_next_uid s1 + 1) (program_inst (fn_info fn (i_pc i)) i), s1\<lparr>cs_next_uid := cs_next_uid s1 + 1\<rparr>) = Some (p, s2)"
    and "issue_barrier fn i p w s2 = Some s3" and "issue_criticality c fn now i w s3 = Some s4"
    and "update_stack c fn now p w s4 = Some s5" and "reserve p s5 = Some s6"
    and "on_warp w (\<lambda>w. Some (w\<lparr>m_next_pc := i_pc i + i_isize i\<rparr>)) s6 = Some s7"
    and "s' = set_pipe_regs pipe ((pipe_regs pipe s7)[r := p]) s7"
  using assms unfolding issue_warp_def Let_def bind_eq_Some_iff split_paired_Ex prod.case
  by (elim exE conjE) (auto simp only: nth_opt_eq_Some option.inject intro: that)

lemma issue_barrierE:
  assumes "issue_barrier fn i p w s = Some s'"
  obtains (barrier) s1 b call m where "i_op i = BARRIER_OP"
      and "on_warp w (\<lambda>w. Some (w\<lparr>m_inst_at_barrier := Some (inst_t.truncate (pi_inst p))\<rparr>)) s = Some s1"
      and "warp_reaches_barrier (unat (m_cta_id (core_warps s1 ! w))) w (st_bar (fn_info fn (i_pc i)))
        (sc_barriers (cs_core s1)) = Some (b, call)"
      and "s' = s1\<lparr>cs_core := (cs_core s1)\<lparr>sc_barriers := b\<rparr>, cs_machine := m\<rparr>"
    | (membar) "i_op i = MEMORY_BARRIER_OP" "on_warp w (\<lambda>w. Some (w\<lparr>m_membar := True\<rparr>)) s = Some s'"
    | (other) "s' = s"
proof (cases "i_op i = BARRIER_OP")
  case True
  show thesis
    using assms unfolding issue_barrier_def if_P [OF True] bind_eq_Some_iff split_paired_Ex prod.case
    by (elim exE conjE) (auto simp only: nth_opt_eq_Some option.inject intro: barrier [OF True])
next
  case False
  then show thesis using assms membar other by (auto simp: issue_barrier_def split: if_splits)
qed

text \<open>The scheduling time of a warp's last issue, and whether the counters are maintained.\<close>

definition stamps :: "'m core_state \<Rightarrow> u32 list \<times> bool" where
  "stamps s = (map tw_last_schedule_cycle (core_warps s), sc_oracle_cpl (cs_core s))"

lemma stamps_frame [simp]:
  "stamps (s\<lparr>cs_next_uid := u\<rparr>) = stamps s" "stamps (s\<lparr>cs_stacks := st\<rparr>) = stamps s"
  "stamps (s\<lparr>cs_core := (cs_core s)\<lparr>sc_scoreboard := sb\<rparr>\<rparr>) = stamps s"
  "stamps (set_pipe_regs p r s) = stamps s"
  "stamps (s\<lparr>cs_core := (cs_core s)\<lparr>sc_barriers := b\<rparr>, cs_machine := m\<rparr>) = stamps s"
  by (cases p; simp add: stamps_def core_warps_def)+

lemma stamps_on_warp:
  assumes "on_warp i f s = Some s'" and "\<And>w w'. f w = Some w' \<Longrightarrow> tw_last_schedule_cycle w' = tw_last_schedule_cycle w"
  shows "stamps s' = stamps s"
proof -
  obtain w where i: "i < length (core_warps s)" and f: "f (core_warps s ! i) = Some w"
    and s': "s' = upd_warps ((core_warps s)[i := w]) s"
    using assms(1) by (rule on_warpE)
  have "map tw_last_schedule_cycle ((core_warps s)[i := w]) = map tw_last_schedule_cycle (core_warps s)"
    using assms(2) [OF f] i by (simp add: map_update list_update_same_conv)
  then show ?thesis by (simp add: s' stamps_def)
qed

lemma exec_warp_stamp: "exec_warp w w' \<Longrightarrow> tw_last_schedule_cycle w' = tw_last_schedule_cycle w"
  by (auto simp: exec_warp_def)

lemma stamps_exec:
  assumes "exec_frame s s'"
  shows "stamps s' = stamps s"
proof -
  have eq: "s' = (upd_warps (core_warps s') s)\<lparr>cs_machine := cs_machine s'\<rparr>"
    and "list_all2 exec_warp (core_warps s) (core_warps s')"
    using assms by (simp_all add: exec_frame_def)
  then have "map tw_last_schedule_cycle (core_warps s') = map tw_last_schedule_cycle (core_warps s)"
    by (auto simp: list_all2_conv_all_nth intro!: nth_equalityI exec_warp_stamp)
  moreover have "sc_oracle_cpl (cs_core s') = sc_oracle_cpl (cs_core s)"
    by (subst eq) (simp add: upd_warps_def)
  ultimately show ?thesis by (simp add: stamps_def)
qed

lemma stamps_barrier: "issue_barrier fn i p w s = Some s' \<Longrightarrow> stamps s' = stamps s"
  by (erule issue_barrierE) (auto dest!: stamps_on_warp)

lemma stamps_update_stack: "update_stack c fn now p w s = Some s' \<Longrightarrow> stamps s' = stamps s"
  unfolding update_stack_def bind_eq_Some_iff by auto

lemma stamps_reserve: "reserve p s = Some s' \<Longrightarrow> stamps s' = stamps s"
  unfolding reserve_def bind_eq_Some_iff by auto

lemma stamps_criticality:
  assumes "issue_criticality c fn now i w s = Some s'" and "\<not> snd (stamps s)"
  shows "w < length (core_warps s)" and "fst (stamps s) ! w < ucast now"
    and "stamps s' = ((fst (stamps s))[w := ucast now], False)"
proof -
  have "\<not> sc_oracle_cpl (cs_core s)" using assms(2) by (simp add: stamps_def)
  with assms(1) have "on_warp w (\<lambda>w'. do {
        npc \<leftarrow> tw_calculate_npc_per_warp (map fst (List.map_filter id (warp_threads c fn w s))) w';
        tw_warp_issue (ucast now) npc (i_isize i) w'}) s = Some s'"
    by (simp add: issue_criticality_def)
  then obtain v npc where "w < length (core_warps s)"
    and v: "tw_warp_issue (ucast now) npc (i_isize i) (core_warps s ! w) = Some v"
    and s': "s' = upd_warps ((core_warps s)[w := v]) s"
    by (rule on_warpE) (auto simp: bind_eq_Some_iff)
  moreover have "tw_last_schedule_cycle (core_warps s ! w) < ucast now" "tw_last_schedule_cycle v = ucast now"
    using v by (auto simp: tw_warp_issue_def Let_def split: if_splits)
  ultimately show "w < length (core_warps s)" "fst (stamps s) ! w < ucast now"
    "stamps s' = ((fst (stamps s))[w := ucast now], False)"
    using \<open>\<not> sc_oracle_cpl (cs_core s)\<close> by (simp_all add: stamps_def map_update)
qed

lemma stamps_issue:
  assumes "issue_warp c fn now pipe i msk w s = Some s'" and "\<not> snd (stamps s)"
  shows "w < length (core_warps s)" and "fst (stamps s) ! w < ucast now"
    and "stamps s' = ((fst (stamps s))[w := ucast now], False)"
proof -
  obtain r p s1 s2 s3 s4 s5 s6 s7 where s1: "on_warp w (\<lambda>w. Some (ibuffer_free w)) s = Some s1"
    and s2: "func_exec_inst c fn (issue_inst (lanes_mask msk) w now (m_dynamic_warp_id (core_warps s1 ! w))
        (cs_next_uid s1 + 1) (program_inst (fn_info fn (i_pc i)) i), s1\<lparr>cs_next_uid := cs_next_uid s1 + 1\<rparr>) = Some (p, s2)"
    and s3: "issue_barrier fn i p w s2 = Some s3" and s4: "issue_criticality c fn now i w s3 = Some s4"
    and s5: "update_stack c fn now p w s4 = Some s5" and s6: "reserve p s5 = Some s6"
    and s7: "on_warp w (\<lambda>w. Some (w\<lparr>m_next_pc := i_pc i + i_isize i\<rparr>)) s6 = Some s7"
    and s': "s' = set_pipe_regs pipe ((pipe_regs pipe s7)[r := p]) s7"
    using assms(1) by (rule issue_warpE)
  have "stamps s1 = stamps s" using s1 by (rule stamps_on_warp) (auto simp: ibuffer_free_def)
  moreover have "stamps s2 = stamps s1" using stamps_exec [OF exec_frame_func [OF s2]] by simp
  moreover have "stamps s3 = stamps s2" using s3 by (rule stamps_barrier)
  ultimately have eq: "stamps s3 = stamps s" by simp
  with assms(2) have n: "\<not> snd (stamps s3)" by simp
  have "stamps s' = stamps s7" by (simp add: s')
  also have "\<dots> = stamps s6" using s7 by (rule stamps_on_warp) auto
  also have "\<dots> = stamps s4" using stamps_reserve [OF s6] stamps_update_stack [OF s5] by simp
  also have "\<dots> = ((fst (stamps s))[w := ucast now], False)" using stamps_criticality(3) [OF s4 n] by (simp add: eq)
  finally show "stamps s' = ((fst (stamps s))[w := ucast now], False)" .
  show "w < length (core_warps s)" using s1 by (rule on_warpE)
  show "fst (stamps s) ! w < ucast now" using stamps_criticality(2) [OF s4 n] by (simp add: eq)
qed

text \<open>A second issue of the same warp in the same cycle fails the assertion of \<open>tw_warp_issue\<close>.\<close>

lemma issue_same_cycle:
  assumes "fst (stamps s) ! w = ucast now" and "\<not> snd (stamps s)"
  shows "issue_warp c fn now pipe i msk w s = None"
  using stamps_issue(2) [of c fn now pipe i msk w s, OF _ assms(2)] assms(1)
  by (cases "issue_warp c fn now pipe i msk w s") auto

subsection \<open>Guarded issues\<close>

text \<open>What a cycle does beside issuing: it redirects warps, flushes their buffers and clears memory barriers.\<close>

definition quiet_warp :: "shd_warp \<Rightarrow> shd_warp \<Rightarrow> bool" where
  "quiet_warp w w' \<longleftrightarrow> (\<exists>m pc b p. w' = w\<lparr>m_membar := m, m_next_pc := pc, m_ibuffer := b,
     m_inst_in_pipeline := p\<rparr>)"

definition quiet :: "'m core_state \<Rightarrow> 'm core_state \<Rightarrow> bool" where
  "quiet s s' \<longleftrightarrow> (\<exists>ws. s' = upd_warps ws s \<and> list_all2 quiet_warp (core_warps s) ws)"

lemma quiet_warp_eqI:
  "w' = w\<lparr>m_membar := m_membar w', m_next_pc := m_next_pc w', m_ibuffer := m_ibuffer w',
     m_inst_in_pipeline := m_inst_in_pipeline w'\<rparr> \<Longrightarrow> quiet_warp w w'"
  unfolding quiet_warp_def by blast

lemma quiet_warp_upds [simp]:
  "quiet_warp w w" "quiet_warp w (w\<lparr>m_membar := m\<rparr>)" "quiet_warp w (w\<lparr>m_next_pc := pc\<rparr>)"
  "quiet_warp w (w\<lparr>m_ibuffer := b\<rparr>)" "quiet_warp w (w\<lparr>m_inst_in_pipeline := p\<rparr>)"
  by (rule quiet_warp_eqI, simp)+

lemma quiet_warp_trans:
  assumes "quiet_warp w v" and "quiet_warp v u"
  shows "quiet_warp w u"
proof -
  obtain m pc b p where v: "v = w\<lparr>m_membar := m, m_next_pc := pc, m_ibuffer := b, m_inst_in_pipeline := p\<rparr>"
    using assms(1) unfolding quiet_warp_def by blast
  obtain m pc b p where "u = v\<lparr>m_membar := m, m_next_pc := pc, m_ibuffer := b, m_inst_in_pipeline := p\<rparr>"
    using assms(2) unfolding quiet_warp_def by blast
  then have "u = w\<lparr>m_membar := m, m_next_pc := pc, m_ibuffer := b, m_inst_in_pipeline := p\<rparr>" by (simp add: v)
  then show ?thesis unfolding quiet_warp_def by blast
qed

lemma quiet_refl [simp]: "quiet s s"
  unfolding quiet_def by (intro exI [of _ "core_warps s"]) (simp add: list_all2_same)

lemma quiet_trans:
  assumes "quiet s t" and "quiet t u"
  shows "quiet s u"
proof -
  obtain vs ws where "t = upd_warps vs s" "list_all2 quiet_warp (core_warps s) vs"
    "u = upd_warps ws t" "list_all2 quiet_warp (core_warps t) ws"
    using assms unfolding quiet_def by blast
  moreover from this have "list_all2 quiet_warp (core_warps s) ws"
    by (simp add: list_all2_conv_all_nth) (metis quiet_warp_trans)
  ultimately have "u = upd_warps ws s" "list_all2 quiet_warp (core_warps s) ws" by simp_all
  then show ?thesis unfolding quiet_def by blast
qed

lemma quiet_on_warp:
  assumes "on_warp i f s = Some s'" and "\<And>w w'. f w = Some w' \<Longrightarrow> quiet_warp w w'"
  shows "quiet s s'"
proof -
  obtain w where i: "i < length (core_warps s)" and f: "f (core_warps s ! i) = Some w"
    and s': "s' = upd_warps ((core_warps s)[i := w]) s"
    using assms(1) by (rule on_warpE)
  have "list_all2 quiet_warp (core_warps s) ((core_warps s)[i := w])"
    using assms(2) [OF f] i by (intro list_all2_all_nthI) (auto simp: nth_list_update)
  then show ?thesis unfolding s' quiet_def by blast
qed

lemma quiet_flush_entries: "flush_entries es w = Some w' \<Longrightarrow> quiet_warp w w'"
proof (induction es arbitrary: w)
  case (Cons e es)
  show ?case
  proof (cases "snd e")
    case True
    with Cons.prems have "flush_entries es (w\<lparr>m_inst_in_pipeline := m_inst_in_pipeline w - 1\<rparr>) = Some w'"
      by (cases e) (simp add: dec_inst_in_pipeline_def bind_eq_Some_iff split: if_splits)
    then show ?thesis by (rule quiet_warp_trans [OF quiet_warp_upds(5) Cons.IH])
  next
    case False
    with Cons show ?thesis by (cases e) simp
  qed
qed simp

lemma quiet_redirect:
  assumes "redirect i pc s = Some s'"
  shows "quiet s s'"
  using assms unfolding redirect_def
proof (rule quiet_on_warp)
  fix w w' assume "ibuffer_flush (w\<lparr>m_next_pc := pc\<rparr>) = Some w'"
  then obtain v where v: "flush_entries (m_ibuffer w) (w\<lparr>m_next_pc := pc\<rparr>) = Some v"
    and w': "w' = v\<lparr>m_ibuffer := map (\<lambda>_. (None, False)) (m_ibuffer w)\<rparr>"
    by (auto simp: ibuffer_flush_def bind_eq_Some_iff)
  show "quiet_warp w w'"
    unfolding w'
    by (rule quiet_warp_trans [OF quiet_warp_trans [OF quiet_warp_upds(3) quiet_flush_entries [OF v]] quiet_warp_upds(4)])
qed

text \<open>Asking a warp whether it waits; a warp that does not wait answers the same again.\<close>

lemma warp_waiting_result:
  assumes "warp_waiting b p w = (r, w')"
  shows "w' = w \<or> w' = w\<lparr>m_membar := False\<rparr>" and "\<not> r \<Longrightarrow> warp_waiting b p' w' = (False, w')"
  using assms by (auto simp: warp_waiting_def warp_waiting_at_mem_barrier_def Let_def functional_done_def split: if_splits)

lemma waitingE:
  assumes "waiting i s = Some (r, s')"
  obtains (finished) "i < length (core_warps s)" "functional_done (core_warps s ! i)" "r" "s' = s"
    | (alive) b p w' where "i < length (core_warps s)" "\<not> functional_done (core_warps s ! i)"
        "warp_waiting_at_barrier (unat (m_warp_id (core_warps s ! i))) (sc_barriers (cs_core s)) = Some b"
        "warp_waiting b p (core_warps s ! i) = (r, w')" "s' = upd_warps ((core_warps s)[i := w']) s"
proof -
  have i: "i < length (core_warps s)"
    using assms unfolding waiting_def core_waiting_def bind_eq_Some_iff split_paired_Ex prod.case core_warps_def
    by (auto simp only: nth_opt_eq_Some)
  show thesis
  proof (cases "functional_done (core_warps s ! i)")
    case True
    then have "core_waiting i (cs_core s) = Some (True, cs_core s)"
      using i by (simp add: core_waiting_def core_warps_def)
    then have "r" "s' = s" using assms by (simp_all add: waiting_def)
    then show thesis by (rule finished [OF i True])
  next
    case False
    obtain core where core: "core_waiting i (cs_core s) = Some (r, core)" and s': "s' = s\<lparr>cs_core := core\<rparr>"
      using assms by (auto simp: waiting_def bind_eq_Some_iff)
    let ?w = "core_warps s ! i"
    have "do {
        at_barrier \<leftarrow> warp_waiting_at_barrier (unat (m_warp_id ?w)) (sc_barriers (cs_core s));
        pend \<leftarrow> (if \<not> at_barrier \<and> m_membar ?w
          then pendingWrites (unat (m_warp_id ?w)) (sc_scoreboard (cs_core s)) else Some False);
        let (r, w') = warp_waiting at_barrier pend ?w;
        Some (r, (cs_core s)\<lparr>sc_warps := (core_warps s)[i := w']\<rparr>)} = Some (r, core)"
      using core i False unfolding core_waiting_def core_warps_def by simp
    then obtain b p where b: "warp_waiting_at_barrier (unat (m_warp_id ?w)) (sc_barriers (cs_core s)) = Some b"
      and "(case warp_waiting b p ?w of (r, w') \<Rightarrow> Some (r, (cs_core s)\<lparr>sc_warps := (core_warps s)[i := w']\<rparr>)) = Some (r, core)"
      unfolding bind_eq_Some_iff Let_def by (elim exE conjE) (rule that)
    then show thesis
      using alive [OF i False b] s' by (cases "warp_waiting b p ?w") (auto simp: upd_warps_def)
  qed
qed

lemma waiting_cases:
  assumes "waiting i s = Some (r, s')"
  shows "quiet s s'" and "i < length (core_warps s)" and "\<not> r \<Longrightarrow> waiting i s' = Some (False, s')"
proof -
  show "i < length (core_warps s)" using assms by (rule waitingE)
  show "quiet s s'"
    using assms
  proof (cases rule: waitingE)
    case (alive b p w')
    then have "on_warp i (\<lambda>_. Some w') s = Some s'" by (simp add: on_warp_eq)
    moreover have "w' = core_warps s ! i \<or> w' = (core_warps s ! i)\<lparr>m_membar := False\<rparr>"
      using alive by (blast dest: warp_waiting_result)
    ultimately show ?thesis
      using alive(1) unfolding quiet_def
      by (intro exI [of _ "(core_warps s)[i := w']"]) (auto simp: alive intro!: list_all2_all_nthI simp: nth_list_update)
  qed simp
  assume "\<not> r"
  with assms show "waiting i s' = Some (False, s')"
  proof (cases rule: waitingE)
    case (alive b p w')
    have nb: "\<not> b" "m_membar w' = False" "\<not> functional_done w'" "m_warp_id w' = m_warp_id (core_warps s ! i)"
      using alive \<open>\<not> r\<close>
      by (auto simp: warp_waiting_def warp_waiting_at_mem_barrier_def Let_def functional_done_def split: if_splits)
    then have "warp_waiting False False w' = (False, w')"
      using warp_waiting_result(2) [OF alive(4) \<open>\<not> r\<close>] by simp
    then show ?thesis
      using alive nb by (simp add: waiting_def core_waiting_def upd_warps_def core_warps_def)
  qed simp
qed

subsection \<open>A cycle as a run\<close>

text \<open>The instructions a pipeline takes.\<close>

fun pipe_takes :: "issue_pipe \<Rightarrow> op_type \<Rightarrow> bool" where
  "pipe_takes MEM_PIPE op \<longleftrightarrow> op = LOAD_OP \<or> op = STORE_OP \<or> op = MEMORY_BARRIER_OP"
| "pipe_takes SP_PIPE op \<longleftrightarrow> op \<notin> {LOAD_OP, STORE_OP, MEMORY_BARRIER_OP, SFU_OP}"
| "pipe_takes SFU_PIPE op \<longleftrightarrow> op = SFU_OP \<or> op = ALU_SFU_OP"

lemma choose_pipe_takes:
  "choose_pipe pI s = Some pipe \<Longrightarrow> has_free (pipe_regs pipe s) \<and> pipe_takes pipe (i_op pI)"
  by (auto simp: choose_pipe_def split: if_splits)

text \<open>
  When an instruction may leave the buffer: the warp is not waiting, the instruction is the valid one at
  its buffer's head and the one at the top of its SIMT stack, none of its registers has a pending write,
  and the pipeline takes it and has a free register.
\<close>

definition may_issue :: "nat \<Rightarrow> issue_pipe \<Rightarrow> inst_t \<Rightarrow> nat set \<Rightarrow> 'm core_state \<Rightarrow> bool" where
  "may_issue w pipe pI msk s \<longleftrightarrow>
     waiting w s = Some (False, s) \<and>
     w < length (core_warps s) \<and> ibuffer_next_inst (core_warps s ! w) = Some pI \<and>
     ibuffer_next_valid (core_warps s ! w) \<and> inst_in_pipeline (core_warps s ! w) \<and>
     w < length (cs_stacks s) \<and> (\<exists>rpc. get_pdom_stack_top_info (cs_stacks s ! w) = Some (i_pc pI, rpc)) \<and>
     get_active_mask (cs_stacks s ! w) = Some msk \<and>
     checkCollision w pI (sc_scoreboard (cs_core s)) = Some False \<and>
     has_free (pipe_regs pipe s) \<and> pipe_takes pipe (i_op pI)"

text \<open>The run of one warp: quiet steps and issues, with the instructions issued.\<close>

inductive warp_run :: "core_params \<Rightarrow> 'm functional \<Rightarrow> u64 \<Rightarrow> nat \<Rightarrow> 'm core_state \<Rightarrow>
    (issue_pipe \<times> inst_t) list \<Rightarrow> 'm core_state \<Rightarrow> bool" for c fn now w where
  run_quiet: "quiet s s' \<Longrightarrow> warp_run c fn now w s [] s'"
| run_issue: "quiet s t \<Longrightarrow> may_issue w pipe pI msk t \<Longrightarrow> issue_warp c fn now pipe pI msk w t = Some t' \<Longrightarrow>
    on_warp w (\<lambda>v. Some (ibuffer_step v)) t' = Some u \<Longrightarrow> warp_run c fn now w u tr s' \<Longrightarrow>
    warp_run c fn now w s ((pipe, pI) # tr) s'"

lemma run_after_quiet: "quiet s t \<Longrightarrow> warp_run c fn now w t tr u \<Longrightarrow> warp_run c fn now w s tr u"
  by (erule warp_run.cases) (auto intro: warp_run.intros quiet_trans)

text \<open>One round of the inner loop.\<close>

lemma try_issue_cases:
  assumes "try_issue c fn now w (fl, s) = Some (b, fl', s')" and "waiting w s = Some (False, s)"
  obtains (stay) "\<not> b" "quiet s s'" "issued_inst fl' = issued_inst fl"
    | (issue) pipe pI msk where "b" "may_issue w pipe pI msk s" "issue_warp c fn now pipe pI msk w s = Some s'"
        "issued_inst fl'"
proof -
  have w: "w < length (core_warps s)" and st: "w < length (cs_stacks s)"
    using assms(1) unfolding try_issue_def prod.case bind_eq_Some_iff split_paired_Ex
    by (auto simp only: nth_opt_eq_Some)
  let ?w = "core_warps s ! w"
  obtain pc rpc where top: "get_pdom_stack_top_info (cs_stacks s ! w) = Some (pc, rpc)"
    using assms(1) unfolding try_issue_def prod.case bind_eq_Some_iff split_paired_Ex
    by (auto simp only: nth_opt_eq_Some)
  show thesis
  proof (cases "ibuffer_next_inst ?w")
    case None
    with assms(1) w st top have "\<not> b \<and> fl' = fl \<and> (redirect w pc s = Some s' \<or> s' = s)"
      by (auto simp: try_issue_def bind_eq_Some_iff split: if_splits)
    then show thesis using stay quiet_redirect quiet_refl by blast
  next
    case (Some pI)
    show thesis
    proof (cases "pc = i_pc pI")
      case False
      with assms(1) w st top Some have "\<not> b \<and> fl' = fl \<and> redirect w pc s = Some s'"
        by (auto simp: try_issue_def bind_eq_Some_iff split: if_splits)
      then show thesis using stay quiet_redirect by blast
    next
      case True
      obtain hz where hz: "checkCollision w pI (sc_scoreboard (cs_core s)) = Some hz"
        using assms(1) w st top Some True
        by (cases "checkCollision w pI (sc_scoreboard (cs_core s))") (auto simp: try_issue_def split: if_splits)
      show thesis
      proof (cases "hz \<or> choose_pipe pI s = None")
        case True': True
        then have "\<not> b \<and> s' = s \<and> issued_inst fl' = issued_inst fl"
          using assms(1) w st top Some True hz
          by (auto simp: try_issue_def Let_def bind_eq_Some_iff split: if_splits)
        then show thesis using stay by simp
      next
        case False
        then obtain pipe where pipe: "choose_pipe pI s = Some pipe" and nh: "\<not> hz" by auto
        obtain msk where msk: "get_active_mask (cs_stacks s ! w) = Some msk"
          and pl: "inst_in_pipeline ?w" and v: "ibuffer_next_valid ?w"
          and iss: "b" "issue_warp c fn now pipe pI msk w s = Some s'" "issued_inst fl'"
          using assms(1) w st top Some True hz nh pipe
          by (auto simp: try_issue_def Let_def bind_eq_Some_iff split: if_splits)
        have "may_issue w pipe pI msk s"
          using assms(2) w st top Some True hz nh msk pl v choose_pipe_takes [OF pipe]
          by (simp add: may_issue_def)
        then show thesis using issue iss by blast
      qed
    qed
  qed
qed

text \<open>The inner loop is a run of its warp, the outer loop a run of one warp.\<close>

lemma issue_loop_run:
  assumes "issue_loop c fn now it w left k (u, fl, s) = Some (n, u', fl', s')"
  shows "\<exists>tr. warp_run c fn now w s tr s' \<and> n = k + length tr \<and> length tr \<le> left \<and>
    (issued_inst fl' \<longleftrightarrow> issued_inst fl \<or> tr \<noteq> [])"
  using assms
proof (induction left arbitrary: k u fl s)
  case 0
  then obtain b where "waiting w s = Some (b, s')" and "n = k" "fl' = fl"
    by (subst (asm) issue_loop.simps) (auto simp: bind_eq_Some_iff split: if_splits)
  then show ?case by (auto intro!: exI [of _ "[]"] run_quiet dest: waiting_cases)
next
  case (Suc left)
  obtain wt s1 where wt: "waiting w s = Some (wt, s1)" and w: "w < length (core_warps s1)"
    and rest: "(if wt \<or> ibuffer_empty (core_warps s1 ! w) \<or> \<not> cp_max_issue c - Suc left \<le> k \<or> \<not> k < cp_max_issue c
       then Some (k, u, fl, s1)
       else do {
         (b, fl, s) \<leftarrow> try_issue c fn now w (fl, s1);
         (if b then do {
            (u, s) \<leftarrow> do_on_warp_issued w it (u, s);
            issue_loop c fn now it w left (k + 1) (u, fl, s)
          } else issue_loop c fn now it w left k (u, fl, s))
       }) = Some (n, u', fl', s')"
    using Suc.prems
    by (subst (asm) issue_loop.simps) (simp only: bind_eq_Some_iff split_paired_Ex prod.case nat.case nth_opt_eq_Some, blast)
  have q: "quiet s s1" using wt by (rule waiting_cases)
  show ?case
  proof (cases "wt \<or> ibuffer_empty (core_warps s1 ! w) \<or> \<not> cp_max_issue c - Suc left \<le> k \<or> \<not> k < cp_max_issue c")
    case True
    then show ?thesis using rest q by (intro exI [of _ "[]"]) (auto intro: run_quiet)
  next
    case False
    then have nw: "waiting w s1 = Some (False, s1)" using waiting_cases(3) [OF wt] by simp
    obtain b fl2 s2 where ti: "try_issue c fn now w (fl, s1) = Some (b, fl2, s2)"
      and cont: "(if b then do {
            (u, s) \<leftarrow> do_on_warp_issued w it (u, s2);
            issue_loop c fn now it w left (k + 1) (u, fl2, s)
          } else issue_loop c fn now it w left k (u, fl2, s2)) = Some (n, u', fl', s')"
      using rest unfolding if_not_P [OF False] bind_eq_Some_iff split_paired_Ex prod.case by blast
    from ti nw show ?thesis
    proof (cases rule: try_issue_cases)
      case stay
      with cont have "issue_loop c fn now it w left k (u, fl2, s2) = Some (n, u', fl', s')" by simp
      from Suc.IH [OF this] obtain tr where "warp_run c fn now w s2 tr s'" "n = k + length tr"
        "length tr \<le> left" "issued_inst fl' \<longleftrightarrow> issued_inst fl2 \<or> tr \<noteq> []" by blast
      moreover from this have "warp_run c fn now w s tr s'"
        using run_after_quiet [OF quiet_trans [OF q stay(2)]] by blast
      ultimately show ?thesis using stay(3) by (intro exI [of _ tr]) auto
    next
      case (issue pipe pI msk)
      with cont obtain u3 s3 where d: "do_on_warp_issued w it (u, s2) = Some (u3, s3)"
        and l: "issue_loop c fn now it w left (k + 1) (u3, fl2, s3) = Some (n, u', fl', s')"
        by (auto simp: bind_eq_Some_iff)
      have step: "on_warp w (\<lambda>v. Some (ibuffer_step v)) s2 = Some s3"
        using d by (cases "su_kind u") (auto simp: do_on_warp_issued_def bind_eq_Some_iff)
      from Suc.IH [OF l] obtain tr where tr: "warp_run c fn now w s3 tr s'" "n = k + 1 + length tr"
        "length tr \<le> left" by blast
      have "issued_inst fl'" using Suc.IH [OF l] issue(4) by auto
      moreover have "warp_run c fn now w s ((pipe, pI) # tr) s'"
        by (rule run_issue [OF q issue(2,3) step tr(1)])
      ultimately show ?thesis using tr by (intro exI [of _ "(pipe, pI) # tr"]) auto
    qed
  qed
qed

lemma warp_run_Nil: "warp_run c fn now w s [] s' \<Longrightarrow> quiet s s'"
  by (erule warp_run.cases) auto

lemma warp_loop_run:
  assumes "warp_loop c fn now order (u, fl, s) = Some (u', fl', s')"
  shows "\<exists>w tr. warp_run c fn now w s tr s' \<and> length tr \<le> cp_max_issue c \<and>
    (issued_inst fl' \<longleftrightarrow> issued_inst fl \<or> tr \<noteq> [])"
  using assms
proof (induction order arbitrary: u fl s)
  case Nil
  then show ?case by (auto intro!: exI [of _ "[]"] run_quiet)
next
  case (Cons p rest)
  obtain it i where p: "p = (it, i)" by (cases p)
  let ?w = "core_warps s ! i"
  have i: "i < length (core_warps s)"
    and if_eq: "(if m_done_exit ?w then warp_loop c fn now rest (u, fl, s)
      else do {
        (issued, u, fl, s) \<leftarrow> issue_loop c fn now it (unat (m_warp_id ?w)) (cp_max_issue c) 0 (u, fl, s);
        (if 0 < issued then Some (note_issued i u, fl, s)
         else warp_loop c fn now rest (u, fl, s))
      }) = Some (u', fl', s')"
    using Cons.prems by (simp_all add: p split: if_splits)
  show ?case
  proof (cases "m_done_exit ?w")
    case True
    then show ?thesis using Cons.IH if_eq by simp
  next
    case False
    obtain n u2 fl2 s2 where
      l: "issue_loop c fn now it (unat (m_warp_id ?w)) (cp_max_issue c) 0 (u, fl, s) = Some (n, u2, fl2, s2)"
      and r: "(if 0 < n then Some (note_issued i u2, fl2, s2) else warp_loop c fn now rest (u2, fl2, s2)) = Some (u', fl', s')"
      using if_eq unfolding if_not_P [OF False] bind_eq_Some_iff split_paired_Ex prod.case by blast
    from issue_loop_run [OF l] obtain tr where tr: "warp_run c fn now (unat (m_warp_id ?w)) s tr s2"
      "n = length tr" "length tr \<le> cp_max_issue c" "issued_inst fl2 \<longleftrightarrow> issued_inst fl \<or> tr \<noteq> []" by auto
    show ?thesis
    proof (cases "tr = []")
      case True
      with r tr(2) have "warp_loop c fn now rest (u2, fl2, s2) = Some (u', fl', s')" by simp
      from Cons.IH [OF this] obtain v tr' where "warp_run c fn now v s2 tr' s'" "length tr' \<le> cp_max_issue c"
        "issued_inst fl' \<longleftrightarrow> issued_inst fl2 \<or> tr' \<noteq> []" by blast
      moreover have "quiet s s2" using tr(1) True warp_run_Nil by blast
      ultimately show ?thesis
        using tr(4) True run_after_quiet [of s s2 c fn now v tr' s'] by (intro exI [of _ v] exI [of _ tr']) auto
    next
      case False
      with r tr(2) have "fl' = fl2" "s' = s2" by auto
      with tr show ?thesis by blast
    qed
  qed
qed

lemma stamps_quiet:
  assumes "quiet s s'"
  shows "stamps s' = stamps s"
proof -
  obtain ws where s': "s' = upd_warps ws s" and l: "list_all2 quiet_warp (core_warps s) ws"
    using assms unfolding quiet_def by blast
  have "quiet_warp w w' \<Longrightarrow> tw_last_schedule_cycle w' = tw_last_schedule_cycle w" for w w'
    by (auto simp: quiet_warp_def)
  with l have "map tw_last_schedule_cycle ws = map tw_last_schedule_cycle (core_warps s)"
    by (auto simp: list_all2_conv_all_nth intro!: nth_equalityI)
  then show ?thesis by (simp add: s' stamps_def)
qed

lemma stamps_step: "on_warp w (\<lambda>v. Some (ibuffer_step v)) s = Some s' \<Longrightarrow> stamps s' = stamps s"
  by (rule stamps_on_warp) (auto simp: ibuffer_step_def)

lemma stamped_run:
  assumes "warp_run c fn now w s tr s'" and "fst (stamps s) ! w = ucast now" and "\<not> snd (stamps s)"
  shows "tr = []"
  using assms
proof (cases rule: warp_run.cases)
  case (run_issue t pipe pI msk t' u tr')
  then show ?thesis using issue_same_cycle [of t w now] assms(2,3) stamps_quiet [of s t] by simp
qed simp

lemma counted_run:
  assumes "warp_run c fn now w s tr s'" and "\<not> sc_oracle_cpl (cs_core s)"
  shows "length tr \<le> 1"
  using assms(1)
proof (cases rule: warp_run.cases)
  case (run_issue t pipe pI msk t' u tr')
  have n: "\<not> snd (stamps t)" using assms(2) stamps_quiet [OF run_issue(2)] by (simp add: stamps_def)
  have "stamps u = ((fst (stamps t))[w := ucast now], False)" and "w < length (core_warps t)"
    using stamps_issue [OF run_issue(4) n] stamps_step [OF run_issue(5)] by simp_all
  then have "tr' = []" using run_issue(6) by (intro stamped_run) (auto simp: stamps_def)
  then show ?thesis using run_issue by simp
qed simp

subsection \<open>Issue and the scoreboard\<close>

text \<open>
  What is assumed of \<open>ptx_exec_inst\<close>: it leaves the registers and the warp of the instruction alone.
\<close>

definition same_regs :: "inst_t \<Rightarrow> inst_t \<Rightarrow> bool" where
  "same_regs i j \<longleftrightarrow> i_out i = i_out j \<and> i_in i = i_in j \<and> i_pred i = i_pred j \<and> i_ar1 i = i_ar1 j \<and>
     i_ar2 i = i_ar2 j \<and> i_warp_id i = i_warp_id j"

definition exec_keeps_regs :: "'m functional \<Rightarrow> bool" where
  "exec_keeps_regs fn \<longleftrightarrow> (\<forall>t tid p m p' m'. fn_exec fn t tid p m = Some (p', m') \<longrightarrow>
     same_regs (inst_t.truncate (pi_inst p')) (inst_t.truncate (pi_inst p)))"

lemma same_regs_refl [simp]: "same_regs i i"
  by (simp add: same_regs_def)

lemma same_regs_trans: "same_regs i j \<Longrightarrow> same_regs j k \<Longrightarrow> same_regs i k"
  by (simp add: same_regs_def)

lemma truncate_inst: "i_out (inst_t.truncate w) = i_out w" "i_in (inst_t.truncate w) = i_in w"
  "i_pred (inst_t.truncate w) = i_pred w" "i_ar1 (inst_t.truncate w) = i_ar1 w"
  "i_ar2 (inst_t.truncate w) = i_ar2 w" "i_warp_id (inst_t.truncate w) = i_warp_id w"
  by (simp_all add: inst_t.defs)

lemma generate_keeps:
  assumes "generate_mem_accesses c w = Some w'"
  shows "inst_t.truncate w' = inst_t.truncate w"
proof -
  have k: "memory_coalescing_arch_13 c b t w = Some v \<Longrightarrow> inst_t.truncate v = inst_t.truncate w"
    "memory_coalescing_arch_13_atomic c b t w = Some v \<Longrightarrow> inst_t.truncate v = inst_t.truncate w"
    "shared_accesses c w = Some v \<Longrightarrow> inst_t.truncate v = inst_t.truncate w"
    "block_accesses c b t l w = Some v \<Longrightarrow> inst_t.truncate v = inst_t.truncate w" for b t v l
    by (auto simp: memory_coalescing_arch_13_def memory_coalescing_arch_13_atomic_def shared_accesses_def
        block_accesses_def bind_eq_Some_iff Let_def inst_t.defs split: if_splits prod.splits)
  have f: "inst_t.truncate (w\<lparr>w_mem_accesses_created := True\<rparr>) = inst_t.truncate w" for w :: warp_mem_inst
    by (simp add: inst_t.defs)
  show ?thesis
    using assms unfolding generate_mem_accesses_def Let_def
    by (auto simp: bind_eq_Some_iff f split: if_splits memory_space_t.splits dest: k)
qed

lemma set_addrs_keeps: "set_addrs c n xs w = Some w' \<Longrightarrow> inst_t.truncate w' = inst_t.truncate w"
  unfolding set_addrs_def Let_def bind_eq_Some_iff by (auto simp: resize_threads_def inst_t.defs)

lemma local_keeps: "local_addresses c placed t tid p = Some p' \<Longrightarrow>
    inst_t.truncate (pi_inst p') = inst_t.truncate (pi_inst p)"
  by (auto simp: local_addresses_def Let_def bind_eq_Some_iff dest: set_addrs_keeps split: if_splits)

lemma check_keeps:
  assumes "check_execution c fn t tid (p, s) = Some (p', s')"
  shows "inst_t.truncate (pi_inst p') = inst_t.truncate (pi_inst p)"
  using assms unfolding check_execution_def prod.case Let_def bind_eq_Some_iff
  by (auto simp only: option.inject prod.inject dest: local_keeps)

lemma exec_keeps:
  assumes "exec_keeps_regs fn" and "func_exec_inst c fn (p, s) = Some (p', s')"
  shows "same_regs (inst_t.truncate (pi_inst p')) (inst_t.truncate (pi_inst p))"
proof -
  let ?R = "\<lambda>ps. same_regs (inst_t.truncate (pi_inst (fst ps))) (inst_t.truncate (pi_inst p))"
  have lane: "?R qt'" if q: "?R qt" and l: "exec_lane c fn t qt = Some qt'" for t qt qt'
  proof -
    obtain q s q' s' where eq: "qt = (q, s)" "qt' = (q', s')" by (cases qt; cases qt')
    obtain act where act: "(if act then do {
        wid \<leftarrow> pi_warp_id q;
        (p, m) \<leftarrow> fn_exec fn t (cp_warp_size c * wid + t) q (cs_machine s);
        check_execution c fn t (cp_warp_size c * wid + t) (p, s\<lparr>cs_machine := m\<rparr>)
      } else Some (q, s)) = Some (q', s')"
      using l unfolding eq exec_lane_def prod.case Let_def bind_eq_Some_iff by blast
    show ?thesis
    proof (cases act)
      case True
      with act obtain tid v m where "fn_exec fn t tid q (cs_machine s) = Some (v, m)"
        and "check_execution c fn t tid (v, s\<lparr>cs_machine := m\<rparr>) = Some (q', s')"
        by (auto simp: bind_eq_Some_iff)
      then have "same_regs (inst_t.truncate (pi_inst v)) (inst_t.truncate (pi_inst q))"
        and "inst_t.truncate (pi_inst q') = inst_t.truncate (pi_inst v)"
        using assms(1) check_keeps unfolding exec_keeps_regs_def by blast+
      with q show ?thesis by (auto simp: eq intro: same_regs_trans)
    qed (use act q eq in simp)
  qed
  obtain p1 where f: "foldM (exec_lane c fn) [0..<cp_warp_size c] (p, s) = Some (p1, s')"
    and g: "inst_t.truncate (pi_inst p') = inst_t.truncate (pi_inst p1)"
    using assms(2)
    by (auto simp: func_exec_inst_def execute_warp_inst_t_def Let_def bind_eq_Some_iff
        dest: generate_keeps split: if_splits)
  have "?R (p1, s')" using f by (rule foldM_invariant) (auto intro: lane)
  with g show ?thesis by simp
qed

text \<open>With the scoreboard each issue is a step of \<open>pipe_step\<close>; nothing else in the cycle touches it.\<close>

definition board :: "'m core_state \<Rightarrow> scoreboard" where
  "board s = sc_scoreboard (cs_core s)"

lemma board_frame [simp]:
  "board (upd_warps ws s) = board s" "board (s\<lparr>cs_machine := m\<rparr>) = board s"
  "board (s\<lparr>cs_next_uid := u\<rparr>) = board s" "board (s\<lparr>cs_stacks := st\<rparr>) = board s"
  "board (s\<lparr>cs_core := (cs_core s)\<lparr>sc_barriers := b\<rparr>, cs_machine := m\<rparr>) = board s"
  "board (s\<lparr>cs_core := (cs_core s)\<lparr>sc_barriers := b\<rparr>\<rparr>) = board s"
  "board (set_pipe_regs p r s) = board s"
  by (cases p; simp add: board_def)+

lemma board_on_warp: "on_warp i f s = Some s' \<Longrightarrow> board s' = board s"
  by (erule on_warpE) simp

lemma board_exec: "exec_frame s s' \<Longrightarrow> board s' = board s"
  unfolding exec_frame_def by (metis board_frame(1,2))

lemma board_quiet: "quiet s s' \<Longrightarrow> board s' = board s"
  by (auto simp: quiet_def)

lemma board_barrier: "issue_barrier fn i p w s = Some s' \<Longrightarrow> board s' = board s"
  by (erule issue_barrierE) (auto dest: board_on_warp)

lemma board_criticality: "issue_criticality c fn now i w s = Some s' \<Longrightarrow> board s' = board s"
  by (auto simp: issue_criticality_def split: if_splits dest: board_on_warp)

lemma board_update_stack: "update_stack c fn now p w s = Some s' \<Longrightarrow> board s' = board s"
  unfolding update_stack_def bind_eq_Some_iff by auto

lemma issue_reserves:
  assumes "exec_keeps_regs fn" and "issue_warp c fn now pipe i msk w s = Some s'"
  obtains j where "same_regs j (i\<lparr>i_warp_id := w\<rparr>)" and "reserveRegisters j (board s) = Some (board s')"
proof -
  obtain r p s1 s2 s3 s4 s5 s6 s7 where s1: "on_warp w (\<lambda>w. Some (ibuffer_free w)) s = Some s1"
    and s2: "func_exec_inst c fn (issue_inst (lanes_mask msk) w now (m_dynamic_warp_id (core_warps s1 ! w))
        (cs_next_uid s1 + 1) (program_inst (fn_info fn (i_pc i)) i), s1\<lparr>cs_next_uid := cs_next_uid s1 + 1\<rparr>) = Some (p, s2)"
    and s3: "issue_barrier fn i p w s2 = Some s3" and s4: "issue_criticality c fn now i w s3 = Some s4"
    and s5: "update_stack c fn now p w s4 = Some s5" and s6: "reserve p s5 = Some s6"
    and s7: "on_warp w (\<lambda>w. Some (w\<lparr>m_next_pc := i_pc i + i_isize i\<rparr>)) s6 = Some s7"
    and s': "s' = set_pipe_regs pipe ((pipe_regs pipe s7)[r := p]) s7"
    using assms(2) by (rule issue_warpE)
  have "board s5 = board s"
    using board_on_warp [OF s1] board_exec [OF exec_frame_func [OF s2]] board_barrier [OF s3]
      board_criticality [OF s4] board_update_stack [OF s5] by simp
  moreover have "reserveRegisters (inst_t.truncate (pi_inst p)) (board s5) = Some (board s6)"
    using s6 unfolding reserve_def board_def bind_eq_Some_iff by auto
  moreover have "board s' = board s6" using board_on_warp [OF s7] by (simp add: s')
  moreover have "same_regs (inst_t.truncate (pi_inst p)) (i\<lparr>i_warp_id := w\<rparr>)"
    using exec_keeps [OF assms(1) s2]
    by (simp add: same_regs_def truncate_inst issue_inst_def program_inst_def inst_t.defs warp_inst_t.defs warp_mem_inst.defs)
  ultimately show thesis using that by simp
qed

lemma same_regs_check:
  "same_regs i j \<Longrightarrow> checkCollision w i sb = checkCollision w j sb"
  by (simp add: checkCollision_def inst_regs_def same_regs_def)

lemma reserve_distinct:
  assumes "reserveRegisters i sb = Some t" and "i_warp_id i < length (reg_table sb)"
  shows "distinct_outs i"
  using assms reserve_loop [of "i_warp_id i" sb "i_out i"]
  by (auto simp: reserveRegisters_def distinct_outs_def bind_eq_Some_iff split: if_splits)

lemma check_in_table: "checkCollision w i sb = Some b \<Longrightarrow> w < length (reg_table sb)"
  by (auto simp: checkCollision_def split: if_splits)

lemma run_pipe_reachable:
  assumes "warp_run c fn now w s tr s'" and "exec_keeps_regs fn" and "pipe_reachable n (board s, fl)"
  shows "\<exists>is. pipe_reachable n (board s', rev is @ fl) \<and>
    list_all2 (\<lambda>j (pipe, i). same_regs j (i\<lparr>i_warp_id := w\<rparr>)) is tr"
  using assms(1,3)
proof (induction arbitrary: fl rule: warp_run.induct)
  case (run_quiet s s')
  then show ?case using board_quiet [OF run_quiet(1)] by (intro exI [of _ "[]"]) simp
next
  case (run_issue s t pipe i msk t' u tr s')
  obtain j where j: "same_regs j (i\<lparr>i_warp_id := w\<rparr>)" and res: "reserveRegisters j (board t) = Some (board t')"
    using issue_reserves [OF assms(2) run_issue(3)] .
  have u: "board u = board t'" using run_issue(4) by (rule board_on_warp)
  have chk: "checkCollision w i (board t) = Some False"
    using run_issue(2) by (simp add: may_issue_def board_def)
  have jw: "i_warp_id j = w" using j by (simp add: same_regs_def)
  have "checkCollision w j (board t) = checkCollision w (i\<lparr>i_warp_id := w\<rparr>) (board t)"
    using j by (rule same_regs_check)
  also have "\<dots> = Some False" using chk by (simp add: checkCollision_def inst_regs_def)
  finally have cj: "checkCollision (i_warp_id j) j (board t) = Some False" by (simp add: jw)
  then have wl: "i_warp_id j < length (reg_table (board t))" by (rule check_in_table)
  have "pipe_step (board t, fl) (board u, j # fl)"
    unfolding u by (rule pipe_step.issue [OF wl reserve_distinct [OF res wl] cj res])
  moreover have "pipe_reachable n (board t, fl)" using run_issue.prems board_quiet [OF run_issue(1)] by simp
  ultimately have "pipe_reachable n (board u, j # fl)" by (rule pipe_reachable.step [rotated])
  from run_issue.IH [OF this] obtain "is" where "pipe_reachable n (board s', rev is @ j # fl)"
    "list_all2 (\<lambda>j (pipe, i). same_regs j (i\<lparr>i_warp_id := w\<rparr>)) is tr" by blast
  then show ?case using j by (intro exI [of _ "j # is"]) simp
qed

subsection \<open>Properties\<close>


text \<open>
  Property C25: with the criticality counters switched on, dual issue ends the simulation. After a warp
  has issued and stepped its buffer, any further issue of it in the same cycle fails the assertion of
  \<open>tw_warp_issue\<close> that the cycle is later than the last one the warp was scheduled in.
\<close>

theorem second_issue_aborts:
  assumes "issue_warp c fn now pipe i msk w s = Some t" and "\<not> sc_oracle_cpl (cs_core s)"
    and "do_on_warp_issued w it (u, t) = Some (u', s')"
  shows "issue_warp c fn now pipe' i' msk' w s' = None"
proof -
  have "on_warp w (\<lambda>v. Some (ibuffer_step v)) t = Some s'"
    using assms(3) by (cases "su_kind u") (auto simp: do_on_warp_issued_def bind_eq_Some_iff)
  then have "stamps s' = stamps t" by (rule stamps_step)
  moreover have "stamps t = ((fst (stamps s))[w := ucast now], False)" "w < length (core_warps s)"
    using stamps_issue [OF assms(1)] assms(2) by (simp_all add: stamps_def)
  ultimately show ?thesis by (intro issue_same_cycle) (auto simp: stamps_def)
qed


subsection \<open>An example\<close>

text \<open>One warp of one thread that runs \<open>add\<close> instructions; the machine is the thread's program counter.\<close>

definition add_inst :: "address_type \<Rightarrow> inst_t" where
  "add_inst pc = \<lparr>i_pc = pc, i_isize = 8, i_op = ALU_OP, i_memory_op = no_memory_op, i_out = [3, 0, 0, 0],
     i_in = [5, 0, 0, 0], i_pred = 0, i_ar1 = 0, i_ar2 = 0, i_space = undefined_space, i_data_size = 0, i_warp_id = 0\<rparr>"

definition add_info :: static_info where
  "add_info = \<lparr>st_bar = \<lparr>bi_type = NOT_BAR, bi_id = 0, bi_count = 0\<rparr>, st_reconvergence_pc = 0, st_latency = 4,
     st_initiation_interval = 1, st_decoded = True, st_src = [5], st_dst = [3]\<rparr>"

definition add_machine :: "address_type functional" where
  "add_machine = \<lparr>fn_info = (\<lambda>_. add_info), fn_exec = (\<lambda>_ _ p pc. Some (p, pc + 8)),
     fn_thread = (\<lambda>pc tid. if tid = 0 then Some (pc, 0) else None), fn_broadcast = (\<lambda>_ pc. pc)\<rparr>"

definition one_warp :: shd_warp where
  "one_warp = blank_warp\<lparr>m_warp_size := 1, m_active_threads := {0}, m_done_exit := False,
     m_ibuffer := [(Some (add_inst 16), True), (Some (add_inst 24), True)], m_next_pc := 16,
     m_inst_in_pipeline := 2\<rparr>"

definition one_core :: "address_type core_state" where
  "one_core = \<lparr>cs_core = \<lparr>sc_warps = [one_warp], sc_scoreboard = scoreboard_new 1,
       sc_barriers = the (barrier_set_new 1 1 1 1),
       sc_oracle_cpl = False, sc_with_oracle_cpl = False\<rparr>,
     cs_stacks = [simt_launch 16 {0} []],
     cs_sp = [program_inst add_info (add_inst 0), program_inst add_info (add_inst 0)], cs_sfu = [], cs_mem = [],
     cs_ctas = \<lparr>cc_max_cta = 1, cc_padded = 1, cta_status = [1], n_active_cta = 1, cta_num_in_kernel = [0],
       threads = []\<rparr>, cs_machine = 16, cs_next_uid = 0\<rparr>"

definition one_params :: core_params where
  "one_params = \<lparr>cp_warp_size = 1, cp_max_warps = 1, cp_max_issue = 1, cp_sid = 0,
     cp_core = \<lparr>cc_warp_size = 1, cc_coalesce_arch = 13, cc_shmem_limited_broadcast = False,
       cc_num_shmem_bank = 16, cc_mem_warp_parts = 1, cc_cache_texl1_linesize = 128,
       cc_cache_constl1_linesize = 64\<rparr>,
     cp_limits = \<lparr>n_thread_per_shader = 1, warp_size = 1, gpgpu_shmem_size = 0, gpgpu_shader_registers = 0,
       max_cta_per_core = 1, n_simt_clusters = 1, n_simt_cores_per_cluster = 1, gpgpu_local_mem_map = True\<rparr>\<rparr>"

definition one_scheduler :: scheduler_unit where
  "one_scheduler = done_adding_supervised_warps (add_supervised_warp_id 0 (scheduler_new Sched_CAWS))"

lemma one_cycle:
  "\<exists>u fl s. scheduler_cycle one_params add_machine (\<lambda>ws s. Some (ws, s)) 5 (one_scheduler, one_core) = Some (u, fl, s) \<and>
    issued_inst fl \<and> cs_machine s = 24"
proof -
  have "case scheduler_cycle one_params add_machine (\<lambda>ws s. Some (ws, s)) 5 (one_scheduler, one_core) of
      None \<Rightarrow> False | Some (u, fl, s) \<Rightarrow> issued_inst fl \<and> cs_machine s = 24"
    by code_simp
  then show ?thesis by (auto split: option.splits)
qed

lemma one_issue:
  "\<exists>t u s. issue_warp one_params add_machine 5 SP_PIPE (add_inst 16) {0} 0 one_core = Some t \<and>
    do_on_warp_issued 0 0 (one_scheduler, t) = Some (u, s)"
proof -
  have "case issue_warp one_params add_machine 5 SP_PIPE (add_inst 16) {0} 0 one_core of None \<Rightarrow> False
      | Some t \<Rightarrow> (case do_on_warp_issued 0 0 (one_scheduler, t) of None \<Rightarrow> False | Some _ \<Rightarrow> True)"
    by code_simp
  then show ?thesis by (auto split: option.splits)
qed

lemma add_keeps_regs: "exec_keeps_regs add_machine"
  by (simp add: exec_keeps_regs_def add_machine_def)


theorem second_issue_aborts_witness:
  "\<exists>t u s. issue_warp one_params add_machine 5 SP_PIPE (add_inst 16) {0} 0 one_core = Some t \<and>
    do_on_warp_issued 0 0 (one_scheduler, t) = Some (u, s) \<and>
    issue_warp one_params add_machine 5 SP_PIPE (add_inst 24) {0} 0 s = None"
proof -
  obtain t u s where t: "issue_warp one_params add_machine 5 SP_PIPE (add_inst 16) {0} 0 one_core = Some t"
    and s: "do_on_warp_issued 0 0 (one_scheduler, t) = Some (u, s)" using one_issue by blast
  have "\<not> sc_oracle_cpl (cs_core one_core)" by (simp add: one_core_def)
  from second_issue_aborts [OF t this s] t s show ?thesis by blast
qed


end
