(* ===== verification/Function_Unit.thy ===== *)
theory Function_Unit
  imports Pipeline_Register
begin

text \<open>
  The arithmetic units of a core: \<open>simd_function_unit\<close> and \<open>pipelined_simd_unit\<close>, with the part of
  \<open>shader_core_ctx::execute\<close> that drives them and reserves the result bus (\<open>shader.h\<close>, \<open>shader.cc\<close>). The
  specification of a unit is a delay line: an instruction of latency \<open>L\<close> reaches the result port \<open>L + 1\<close>
  cycles after its issue. The buses are reserved so that the result port never overflows.
\<close>

subsection \<open>State\<close>

definition MAX_ALU_LATENCY :: nat where "MAX_ALU_LATENCY = 512"

text \<open>
  \<open>fu_regs\<close> is \<open>m_pipeline_reg\<close>, whose length is \<open>m_pipeline_depth\<close>. A \<open>std::bitset\<close> is the set of its set bits.
\<close>

record function_unit =
  fu_regs :: "pipe_inst list"
  fu_dispatch :: pipe_inst
  fu_occupied :: "nat set"

definition latency :: "pipe_inst \<Rightarrow> nat" where
  "latency p = st_latency (pi_static p)"

definition interval :: "pipe_inst \<Rightarrow> nat" where
  "interval p = st_initiation_interval (pi_static p)"

text \<open>\<open>occupied >>= 1\<close>.\<close>

definition shift_bits :: "nat set \<Rightarrow> nat set" where
  "shift_bits b = (\<lambda>k. k - 1) ` (b - {0})"

definition function_unit_new :: "pipe_inst \<Rightarrow> nat \<Rightarrow> function_unit" where
  "function_unit_new blank max_latency =
     \<lparr>fu_regs = replicate max_latency (pi_clear blank), fu_dispatch = pi_clear blank, fu_occupied = {}\<rparr>"

subsection \<open>Operations\<close>

text \<open>\<open>test\<close> and \<open>set\<close> of the bit set throw beyond its size.\<close>

definition can_issue :: "function_unit \<Rightarrow> pipe_inst \<Rightarrow> bool option" where
  "can_issue u inst =
     (if \<not> pi_empty (fu_dispatch u) then Some False
      else do { require (latency inst < MAX_ALU_LATENCY); Some (latency inst \<notin> fu_occupied u) })"

definition unit_issue :: "register_set \<Rightarrow> function_unit \<Rightarrow> (register_set \<times> function_unit) option" where
  "unit_issue source u = do {
     (d, source) \<leftarrow> move_out_to (fu_dispatch u) source;
     require (latency d < MAX_ALU_LATENCY);
     Some (source, u\<lparr>fu_dispatch := d, fu_occupied := insert (latency d) (fu_occupied u)\<rparr>)
   }"

definition shift_stage :: "nat \<Rightarrow> pipe_inst list \<Rightarrow> pipe_inst list option" where
  "shift_stage stage regs = do {
     dst \<leftarrow> nth_opt regs stage;
     src \<leftarrow> nth_opt regs (stage + 1);
     (dst, src) \<leftarrow> move_warp dst src;
     Some (regs[stage := dst, stage + 1 := src])
   }"

definition unit_dispatch :: "function_unit \<Rightarrow> function_unit option" where
  "unit_dispatch u =
     (if pi_empty (fu_dispatch u) then Some u
      else (case dispatch_delay (pi_inst (fu_dispatch u)) of (delay, i) \<Rightarrow>
        let d = (fu_dispatch u)\<lparr>pi_inst := i\<rparr>; start_stage = latency d - interval d in
        if delay then Some (u\<lparr>fu_dispatch := d\<rparr>)
        else do {
          require (interval d \<le> latency d);
          dst \<leftarrow> nth_opt (fu_regs u) start_stage;
          (dst, d) \<leftarrow> move_warp dst d;
          Some (u\<lparr>fu_regs := (fu_regs u)[start_stage := dst], fu_dispatch := d\<rparr>)
        }))"

definition unit_cycle :: "function_unit \<Rightarrow> register_set \<Rightarrow> (function_unit \<times> register_set) option" where
  "unit_cycle u port = do {
     out \<leftarrow> nth_opt (fu_regs u) 0;
     (out, port) \<leftarrow> (if \<not> pi_empty out then move_in out port else Some (out, port));
     regs \<leftarrow> foldM shift_stage [0..<length (fu_regs u) - 1] ((fu_regs u)[0 := out]);
     u \<leftarrow> unit_dispatch (u\<lparr>fu_regs := regs\<rparr>);
     Some (u\<lparr>fu_occupied := shift_bits (fu_occupied u)\<rparr>, port)
   }"

definition get_active_lanes_in_pipeline :: "function_unit \<Rightarrow> nat" where
  "get_active_lanes_in_pipeline u = length (filter (\<lambda>i. \<exists>p \<in> set (butlast (fu_regs u)).
     \<not> pi_empty p \<and> bit (w_active_mask (pi_inst p)) i) [0..<32])"

subsection \<open>Driving the units\<close>

text \<open>
  \<open>ex_issue\<close> are the registers of the issue ports, \<open>ex_wb\<close> those of the \<open>EX_WB\<close> stage, \<open>ex_bus\<close> the result buses.
  Each unit comes with the number of its port.
\<close>

record exec_stage =
  ex_units :: "(nat \<times> function_unit) list"
  ex_issue :: "register_set list"
  ex_wb :: register_set
  ex_bus :: "nat set list"

fun test_res_bus :: "nat \<Rightarrow> nat set list \<Rightarrow> nat option" where
  "test_res_bus l [] = None"
| "test_res_bus l (b # bs) = (if l \<notin> b then Some 0 else map_option Suc (test_res_bus l bs))"

text \<open>The body of the loop over the units for one that cannot stall; its clock multiplier is 1.\<close>

definition issue_to_unit :: "nat \<Rightarrow> exec_stage \<Rightarrow> exec_stage option" where
  "issue_to_unit n x = do {
     (port, u) \<leftarrow> nth_opt (ex_units x) n;
     source \<leftarrow> nth_opt (ex_issue x) port;
     (case get_ready source of
        None \<Rightarrow> Some x
      | Some r \<Rightarrow> do {
          can \<leftarrow> can_issue u (source ! r);
          (if \<not> can then Some x
           else do {
             require (latency (source ! r) < MAX_ALU_LATENCY);
             (case test_res_bus (latency (source ! r)) (ex_bus x) of
                None \<Rightarrow> Some x
              | Some b \<Rightarrow> do {
                  (source', u) \<leftarrow> unit_issue source u;
                  Some (x\<lparr>ex_units := (ex_units x)[n := (port, u)], ex_issue := (ex_issue x)[port := source'],
                    ex_bus := (ex_bus x)[b := insert (latency (source ! r)) (ex_bus x ! b)]\<rparr>)
                })
           })
        })
   }"

definition execute_unit :: "nat \<Rightarrow> exec_stage \<Rightarrow> exec_stage option" where
  "execute_unit n x = do {
     (port, u) \<leftarrow> nth_opt (ex_units x) n;
     (u, wb) \<leftarrow> unit_cycle u (ex_wb x);
     issue_to_unit n (x\<lparr>ex_units := (ex_units x)[n := (port, u)], ex_wb := wb\<rparr>)
   }"

definition execute :: "exec_stage \<Rightarrow> exec_stage option" where
  "execute x = foldM execute_unit [0..<length (ex_units x)] (x\<lparr>ex_bus := map shift_bits (ex_bus x)\<rparr>)"

subsection \<open>Moving instructions\<close>

lemma shift_stage_eq:
  "Suc k < length regs \<Longrightarrow> pi_empty (regs ! k) \<Longrightarrow>
   shift_stage k regs = Some (regs[k := regs ! Suc k, Suc k := pi_clear (regs ! k)])"
  by (simp add: shift_stage_def move_warp_def)

text \<open>With stage 0 empty, the loop moves every instruction one stage down.\<close>

lemma shift_loop:
  assumes "regs \<noteq> []" and "pi_empty (regs ! 0)" and "n < length regs"
  shows "\<exists>regs'. foldM shift_stage [0..<n] regs = Some regs' \<and> length regs' = length regs \<and>
    pi_empty (regs' ! n) \<and> (\<forall>k < n. regs' ! k = regs ! Suc k) \<and> (\<forall>k < length regs. n < k \<longrightarrow> regs' ! k = regs ! k)"
  using assms(3)
proof (induction n)
  case (Suc n)
  then obtain r where r: "foldM shift_stage [0..<n] regs = Some r" "length r = length regs"
    "pi_empty (r ! n)" "\<forall>k < n. r ! k = regs ! Suc k" "\<forall>k < length regs. n < k \<longrightarrow> r ! k = regs ! k" by auto
  then have "shift_stage n r = Some (r[n := r ! Suc n, Suc n := pi_clear (r ! n)])"
    using Suc.prems by (intro shift_stage_eq) auto
  then show ?case
    using r Suc.prems by (auto simp: foldM_append nth_list_update less_Suc_eq)
qed (use assms in auto)

subsection \<open>A unit is a delay line\<close>

text \<open>The cycles until a dispatched instruction would stand in stage 0, and the instructions in a unit with theirs.\<close>

definition dispatch_due :: "function_unit \<Rightarrow> nat" where
  "dispatch_due u = w_cycles (pi_inst (fu_dispatch u)) + (latency (fu_dispatch u) - interval (fu_dispatch u))"

definition holds_at :: "function_unit \<Rightarrow> nat \<Rightarrow> u32 \<Rightarrow> bool" where
  "holds_at u k x \<longleftrightarrow>
     (k < length (fu_regs u) \<and> \<not> pi_empty (fu_regs u ! k) \<and> pi_uid (fu_regs u ! k) = x) \<or>
     (\<not> pi_empty (fu_dispatch u) \<and> k = dispatch_due u \<and> pi_uid (fu_dispatch u) = x)"

text \<open>Every instruction in the unit has its bit in \<open>occupied\<close>, and the dispatched one will find its stage empty.\<close>

definition unit_ok :: "function_unit \<Rightarrow> bool" where
  "unit_ok u \<longleftrightarrow> fu_regs u \<noteq> [] \<and> (\<forall>k < length (fu_regs u). \<not> pi_empty (fu_regs u ! k) \<longrightarrow> k \<in> fu_occupied u) \<and>
     (\<not> pi_empty (fu_dispatch u) \<longrightarrow>
        interval (fu_dispatch u) \<le> latency (fu_dispatch u) \<and>
        latency (fu_dispatch u) - interval (fu_dispatch u) < length (fu_regs u) \<and>
        0 < w_cycles (pi_inst (fu_dispatch u)) \<and> dispatch_due u \<in> fu_occupied u \<and>
        (dispatch_due u < length (fu_regs u) \<longrightarrow> pi_empty (fu_regs u ! dispatch_due u)))"

lemma shift_bits_iff [simp]: "k \<in> shift_bits b \<longleftrightarrow> Suc k \<in> b"
proof
  assume "Suc k \<in> b"
  then show "k \<in> shift_bits b" by (force simp: shift_bits_def intro: image_eqI [of _ _ "Suc k"])
next
  assume "k \<in> shift_bits b"
  then obtain j where "j \<in> b" "j \<noteq> 0" "k = j - 1" by (auto simp: shift_bits_def)
  then show "Suc k \<in> b" by simp
qed

lemma unit_new_ok: "0 < d \<Longrightarrow> unit_ok (function_unit_new blank d)"
  by (simp add: unit_ok_def function_unit_new_def)

lemma pi_cycles_simps [simp]:
  "latency (p\<lparr>pi_inst := i\<rparr>) = latency p" "interval (p\<lparr>pi_inst := i\<rparr>) = interval p"
  "pi_uid (p\<lparr>pi_inst := i\<rparr>) = pi_uid p" "pi_uid (pi_clear p) = pi_uid p"
  "pi_empty (p\<lparr>pi_inst := (pi_inst p)\<lparr>w_cycles := n\<rparr>\<rparr>) = pi_empty p"
  by (simp_all add: latency_def interval_def pi_clear_def pi_empty_def)

text \<open>The dispatch register after the stages have shifted to \<open>regs\<close>.\<close>

lemma unit_dispatch_ok:
  assumes ok: "unit_ok u" and len: "length regs = length (fu_regs u)"
    and shift: "\<And>k. k < length regs - 1 \<Longrightarrow> regs ! k = fu_regs u ! Suc k" and last: "pi_empty (regs ! (length regs - 1))"
  shows "\<exists>v. unit_dispatch (u\<lparr>fu_regs := regs\<rparr>) = Some v \<and> length (fu_regs v) = length (fu_regs u) \<and>
    fu_occupied v = fu_occupied u \<and> unit_ok (v\<lparr>fu_occupied := shift_bits (fu_occupied u)\<rparr>) \<and>
    (\<forall>k x. holds_at v k x \<longleftrightarrow> holds_at u (Suc k) x)"
proof -
  let ?d = "fu_dispatch u" let ?n = "length (fu_regs u)"
  have n: "0 < ?n" using ok by (simp add: unit_ok_def)
  have at: "regs ! k = (if Suc k < ?n then fu_regs u ! Suc k else regs ! (?n - 1))" if "k < ?n" for k
    using shift [of k] that len n by (cases "Suc k < ?n") (auto simp: not_less less_Suc_eq_le le_Suc_eq)
  have stages: "k < ?n \<and> \<not> pi_empty (regs ! k) \<longleftrightarrow> Suc k < ?n \<and> \<not> pi_empty (fu_regs u ! Suc k)" for k
    using at [of k] last len by (cases "Suc k < ?n") auto
  have occ: "k < ?n \<Longrightarrow> \<not> pi_empty (regs ! k) \<Longrightarrow> Suc k \<in> fu_occupied u" for k
    using stages [of k] ok by (auto simp: unit_ok_def)
  have uid: "k < ?n \<Longrightarrow> \<not> pi_empty (regs ! k) \<Longrightarrow> pi_uid (regs ! k) = pi_uid (fu_regs u ! Suc k)" for k
    using at [of k] stages [of k] by auto
  show ?thesis
  proof (cases "pi_empty ?d")
    case True
    then show ?thesis
      using occ uid stages len n
      by (auto simp: unit_dispatch_def unit_ok_def holds_at_def)
  next
    case False
    let ?c = "w_cycles (pi_inst ?d)" let ?s = "latency ?d - interval ?d"
    have d: "interval ?d \<le> latency ?d" "?s < ?n" "0 < ?c" "?c + ?s \<in> fu_occupied u"
      "?c + ?s < ?n \<Longrightarrow> pi_empty (fu_regs u ! (?c + ?s))"
      using ok False unfolding unit_ok_def dispatch_due_def by blast+
    let ?e = "?d\<lparr>pi_inst := (pi_inst ?d)\<lparr>w_cycles := ?c - 1\<rparr>\<rparr>"
    show ?thesis
    proof (cases "?c = 1")
      case True
      have free: "pi_empty (regs ! ?s)"
        using at [of ?s] d True last len by (cases "Suc ?s < ?n") auto
      then have e: "unit_dispatch (u\<lparr>fu_regs := regs\<rparr>) =
          Some (u\<lparr>fu_regs := regs[?s := ?e], fu_dispatch := pi_clear (regs ! ?s)\<rparr>)"
        using False d True len by (simp add: unit_dispatch_def dispatch_delay_def move_warp_def Let_def)
      have h: "holds_at (u\<lparr>fu_regs := regs[?s := ?e], fu_dispatch := pi_clear (regs ! ?s)\<rparr>) k x \<longleftrightarrow>
          holds_at u (Suc k) x" for k x
        using stages [of k] uid [of k] False True d len free
        by (cases "k = ?s") (auto simp: holds_at_def dispatch_due_def)
      show ?thesis
        unfolding e using h occ False True d len n free
        by (auto simp: unit_ok_def nth_list_update)
    next
      case c: False
      have e: "unit_dispatch (u\<lparr>fu_regs := regs\<rparr>) = Some (u\<lparr>fu_regs := regs, fu_dispatch := ?e\<rparr>)"
        using False d c by (simp add: unit_dispatch_def dispatch_delay_def Let_def)
      have due: "Suc (dispatch_due (u\<lparr>fu_regs := regs, fu_dispatch := ?e\<rparr>)) = dispatch_due u"
        using d(3) by (simp add: dispatch_due_def)
      have h: "holds_at (u\<lparr>fu_regs := regs, fu_dispatch := ?e\<rparr>) k x \<longleftrightarrow> holds_at u (Suc k) x" for k x
        using stages [of k] uid [of k] False len due by (auto simp: holds_at_def)
      have "pi_empty (regs ! (?c - 1 + ?s))" if "?c - 1 + ?s < ?n"
        using that stages [of "?c - 1 + ?s"] d(3,5) by auto
      then show ?thesis
        unfolding e using h occ False d c len n due
        by (auto simp: unit_ok_def dispatch_due_def)
    qed
  qed
qed

text \<open>A cycle: everything comes one cycle closer, and the instruction of stage 0 enters the port.\<close>

lemma unit_cycle_ok:
  assumes ok: "unit_ok u" and free: "\<not> pi_empty (fu_regs u ! 0) \<Longrightarrow> has_free port"
  shows "\<exists>v port'. unit_cycle u port = Some (v, port') \<and> unit_ok v \<and> length (fu_regs v) = length (fu_regs u) \<and>
    fu_occupied v = shift_bits (fu_occupied u) \<and> (\<forall>k x. holds_at v k x \<longleftrightarrow> holds_at u (Suc k) x) \<and>
    (if pi_empty (fu_regs u ! 0) then port' = port
     else \<exists>r. get_free port = Some r \<and> port' = port[r := fu_regs u ! 0])"
proof -
  let ?n = "length (fu_regs u)"
  have n: "0 < ?n" using ok by (simp add: unit_ok_def)
  obtain out port' where io: "(if \<not> pi_empty (fu_regs u ! 0) then move_in (fu_regs u ! 0) port
      else Some (fu_regs u ! 0, port)) = Some (out, port')" and oe: "pi_empty out"
    and p: "if pi_empty (fu_regs u ! 0) then port' = port
     else \<exists>r. get_free port = Some r \<and> port' = port[r := fu_regs u ! 0]"
  proof (cases "pi_empty (fu_regs u ! 0)")
    case False
    then obtain r where r: "get_free port = Some r" using free get_free_iff [of port] by blast
    then have "move_in (fu_regs u ! 0) port = Some (pi_clear (port ! r), port[r := fu_regs u ! 0])"
      using get_freeD [OF r] by (simp add: move_in_def move_warp_def)
    then show thesis using that [of "pi_clear (port ! r)" "port[r := fu_regs u ! 0]"] False r by simp
  qed (use that in simp)
  have "?n - 1 < length ((fu_regs u)[0 := out])" using n by simp
  from shift_loop [OF _ _ this] n oe obtain regs where
    loop: "foldM shift_stage [0..<?n - 1] ((fu_regs u)[0 := out]) = Some regs" and len: "length regs = ?n"
    and lst: "pi_empty (regs ! (?n - 1))" and sh: "\<forall>k < ?n - 1. regs ! k = (fu_regs u)[0 := out] ! Suc k"
    by auto
  obtain v where v: "unit_dispatch (u\<lparr>fu_regs := regs\<rparr>) = Some v" "length (fu_regs v) = ?n"
    "fu_occupied v = fu_occupied u" "unit_ok (v\<lparr>fu_occupied := shift_bits (fu_occupied u)\<rparr>)"
    "\<forall>k x. holds_at v k x \<longleftrightarrow> holds_at u (Suc k) x"
    using unit_dispatch_ok [OF ok len] lst sh len by auto
  have "unit_cycle u port = Some (v\<lparr>fu_occupied := shift_bits (fu_occupied u)\<rparr>, port')"
    using io loop v(1,3) n by (simp add: unit_cycle_def)
  moreover have "holds_at (v\<lparr>fu_occupied := b\<rparr>) k x = holds_at v k x" for b k x
    by (simp add: holds_at_def dispatch_due_def)
  ultimately show ?thesis using v p by auto
qed

text \<open>An issue: the oldest ready instruction enters with its whole latency before it.\<close>

lemma unit_issue_ok:
  assumes ok: "unit_ok u" and r: "get_ready source = Some r" and can: "can_issue u (source ! r) = Some True"
    and timing: "0 < interval (source ! r)" "interval (source ! r) \<le> latency (source ! r)"
      "latency (source ! r) - interval (source ! r) < length (fu_regs u)"
      "w_cycles (pi_inst (source ! r)) = interval (source ! r)"
  shows "\<exists>v source'. unit_issue source u = Some (source', v) \<and> unit_ok v \<and> fu_regs v = fu_regs u \<and>
    fu_occupied v = insert (latency (source ! r)) (fu_occupied u) \<and> latency (source ! r) \<notin> fu_occupied u \<and>
    source' = source[r := pi_clear (fu_dispatch u)] \<and>
    (\<forall>k x. holds_at v k x \<longleftrightarrow> holds_at u k x \<or> k = latency (source ! r) \<and> x = pi_uid (source ! r))"
proof -
  have c: "pi_empty (fu_dispatch u)" "latency (source ! r) < MAX_ALU_LATENCY" "latency (source ! r) \<notin> fu_occupied u"
    using can by (auto simp: can_issue_def split: if_splits)
  have e: "unit_issue source u = Some (source[r := pi_clear (fu_dispatch u)],
      u\<lparr>fu_dispatch := source ! r, fu_occupied := insert (latency (source ! r)) (fu_occupied u)\<rparr>)"
    using r c by (simp add: unit_issue_def move_out_to_def move_warp_def)
  have "\<not> pi_empty (source ! r)" using r by (rule get_readyD)
  moreover have "interval (source ! r) + (latency (source ! r) - interval (source ! r)) = latency (source ! r)"
    using timing by simp
  ultimately show ?thesis
    unfolding e using ok c timing by (auto simp: unit_ok_def holds_at_def dispatch_due_def)
qed

subsection \<open>The result buses\<close>

lemma test_res_bus_Some:
  "test_res_bus l bs = Some b \<Longrightarrow> b < length bs \<and> l \<notin> bs ! b"
  by (induction bs arbitrary: b) (auto split: if_splits)

text \<open>How many units and how many buses expect an instruction in \<open>k\<close> cycles.\<close>

definition units_due :: "nat \<Rightarrow> (nat \<times> function_unit) list \<Rightarrow> nat" where
  "units_due k us = length (filter (\<lambda>(p, u). k \<in> fu_occupied u) us)"

definition buses_due :: "nat \<Rightarrow> nat set list \<Rightarrow> nat" where
  "buses_due k bs = length (filter (\<lambda>b. k \<in> b) bs)"

text \<open>The instructions waiting in a port can be executed by the unit behind it.\<close>

definition port_ok :: "function_unit \<Rightarrow> register_set \<Rightarrow> bool" where
  "port_ok u regs \<longleftrightarrow> (\<forall>p \<in> set regs. \<not> pi_empty p \<longrightarrow> 0 < interval p \<and> interval p \<le> latency p \<and>
     latency p < MAX_ALU_LATENCY \<and> latency p - interval p < length (fu_regs u) \<and> w_cycles (pi_inst p) = interval p)"

definition exec_ok :: "exec_stage \<Rightarrow> bool" where
  "exec_ok x \<longleftrightarrow> (\<forall>(p, u) \<in> set (ex_units x). unit_ok u \<and> p < length (ex_issue x) \<and> port_ok u (ex_issue x ! p)) \<and>
     (\<forall>k. units_due k (ex_units x) \<le> buses_due k (ex_bus x))"

lemma units_due_upd:
  assumes "n < length us"
  shows "units_due k (us[n := (p, u)]) + (if k \<in> fu_occupied (snd (us ! n)) then 1 else 0) =
    units_due k us + (if k \<in> fu_occupied u then 1 else 0)"
  using assms
proof (induction us arbitrary: n)
  case (Cons a us)
  then show ?case by (cases n) (auto simp: units_due_def split: prod.splits)
qed simp

lemma buses_due_upd:
  assumes "n < length bs"
  shows "buses_due k (bs[n := b]) + (if k \<in> bs ! n then 1 else 0) = buses_due k bs + (if k \<in> b then 1 else 0)"
  using assms
proof (induction bs arbitrary: n)
  case (Cons a bs)
  then show ?case by (cases n) (auto simp: buses_due_def)
qed simp

lemma buses_due_shift: "buses_due k (map shift_bits bs) = buses_due (Suc k) bs"
  by (induction bs) (auto simp: buses_due_def)

text \<open>The registers in use.\<close>

definition used :: "register_set \<Rightarrow> nat" where
  "used regs = length (filter (\<lambda>p. \<not> pi_empty p) regs)"

lemma has_free_used: "has_free regs \<longleftrightarrow> used regs < length regs"
proof (induction regs)
  case (Cons p regs)
  then show ?case using length_filter_le [of "\<lambda>p. \<not> pi_empty p" regs]
    by (cases "pi_empty p") (auto simp: has_free_def used_def le_less_Suc_eq)
qed (simp add: has_free_def used_def)

lemma used_upd: "r < length regs \<Longrightarrow> pi_empty (regs ! r) \<Longrightarrow> \<not> pi_empty p \<Longrightarrow> used (regs[r := p]) = Suc (used regs)"
proof (induction regs arbitrary: r)
  case (Cons a regs)
  then show ?case by (cases r) (auto simp: used_def)
qed simp

text \<open>Inside the loop the units before \<open>n\<close> have had their cycle, the others have not.\<close>

definition mixed_due :: "nat \<Rightarrow> nat \<Rightarrow> (nat \<times> function_unit) list \<Rightarrow> nat" where
  "mixed_due n k us = units_due k (take n us) + units_due (Suc k) (drop n us)"

lemma mixed_due_step:
  assumes "n < length us"
  shows "mixed_due (Suc n) k (us[n := (p, v)]) + (if Suc k \<in> fu_occupied (snd (us ! n)) then 1 else 0) =
    mixed_due n k us + (if k \<in> fu_occupied v then 1 else 0)"
proof -
  have "take (Suc n) (us[n := (p, v)]) = take n us @ [(p, v)]"
    using assms by (simp add: take_Suc_conv_app_nth)
  moreover have "drop n us = us ! n # drop (Suc n) us"
    using assms by (simp add: Cons_nth_drop_Suc)
  ultimately show ?thesis
    by (simp add: mixed_due_def units_due_def split: prod.splits)
qed

lemma drop_due_step:
  assumes "n < length us"
  shows "units_due k (drop n us) = units_due k (drop (Suc n) (us[n := q])) + (if k \<in> fu_occupied (snd (us ! n)) then 1 else 0)"
proof -
  have "drop n us = us ! n # drop (Suc n) us"
    using assms by (simp add: Cons_nth_drop_Suc)
  then show ?thesis by (simp add: units_due_def split: prod.splits)
qed

definition loop_ok :: "nat \<Rightarrow> exec_stage \<Rightarrow> bool" where
  "loop_ok n x \<longleftrightarrow> (\<forall>i < length (ex_units x). unit_ok (snd (ex_units x ! i)) \<and> fst (ex_units x ! i) < length (ex_issue x) \<and>
       port_ok (snd (ex_units x ! i)) (ex_issue x ! fst (ex_units x ! i))) \<and>
     (\<forall>k. mixed_due n k (ex_units x) \<le> buses_due k (ex_bus x)) \<and>
     used (ex_wb x) + units_due 0 (drop n (ex_units x)) \<le> length (ex_wb x)"

lemma port_ok_clear:
  assumes "port_ok u regs"
  shows "port_ok u (regs[r := pi_clear p])"
proof -
  have "set (regs[r := pi_clear p]) \<subseteq> insert (pi_clear p) (set regs)" by (rule set_update_subset_insert)
  with assms show ?thesis unfolding port_ok_def by (metis insertE pi_empty_clear subsetD)
qed

lemma port_ok_depth: "length (fu_regs u) = length (fu_regs v) \<Longrightarrow> port_ok u regs = port_ok v regs"
  by (simp add: port_ok_def)

text \<open>The issue part keeps the balance: a unit and a bus are marked together.\<close>

lemma issue_to_unit_ok:
  assumes ok: "loop_ok (Suc n) x" and n: "n < length (ex_units x)"
  shows "\<exists>y. issue_to_unit n x = Some y \<and> loop_ok (Suc n) y \<and> length (ex_units y) = length (ex_units x) \<and>
    length (ex_bus y) = length (ex_bus x) \<and> ex_wb y = ex_wb x"
proof -
  obtain port u where u: "ex_units x ! n = (port, u)" by (cases "ex_units x ! n")
  let ?src = "ex_issue x ! port"
  have uo: "unit_ok u" and port: "port < length (ex_issue x)" and po: "port_ok u ?src"
    using ok n u unfolding loop_ok_def by (metis fst_conv snd_conv)+
  show ?thesis
  proof (cases "get_ready ?src")
    case None
    then show ?thesis using ok n u port by (simp add: issue_to_unit_def)
  next
    case (Some r)
    let ?p = "?src ! r"
    have rp: "r < length ?src" "\<not> pi_empty ?p" using get_readyD [OF Some] by simp_all
    then have t: "0 < interval ?p" "interval ?p \<le> latency ?p" "latency ?p < MAX_ALU_LATENCY"
      "latency ?p - interval ?p < length (fu_regs u)" "w_cycles (pi_inst ?p) = interval ?p"
      using po unfolding port_ok_def by simp_all
    show ?thesis
    proof (cases "can_issue u ?p = Some True \<and> test_res_bus (latency ?p) (ex_bus x) \<noteq> None")
      case False
      then have "issue_to_unit n x = Some x"
        using n u port Some t by (auto simp: issue_to_unit_def can_issue_def split: option.split)
      then show ?thesis using ok by simp
    next
      case True
      then obtain b where b: "test_res_bus (latency ?p) (ex_bus x) = Some b" and can: "can_issue u ?p = Some True" by auto
      from unit_issue_ok [OF uo Some can t(1,2,4,5)] obtain v src where
        v: "unit_issue ?src u = Some (src, v)" "unit_ok v" "fu_regs v = fu_regs u"
          "fu_occupied v = insert (latency ?p) (fu_occupied u)" "latency ?p \<notin> fu_occupied u"
          "src = ?src[r := pi_clear (fu_dispatch u)]" by blast
      let ?y = "x\<lparr>ex_units := (ex_units x)[n := (port, v)], ex_issue := (ex_issue x)[port := src],
        ex_bus := (ex_bus x)[b := insert (latency ?p) (ex_bus x ! b)]\<rparr>"
      have e: "issue_to_unit n x = Some ?y"
        using n u port Some t b can v(1) by (simp add: issue_to_unit_def)
      have bl: "b < length (ex_bus x)" "latency ?p \<notin> ex_bus x ! b" using test_res_bus_Some [OF b] by simp_all
      have units: "unit_ok (snd (ex_units ?y ! i)) \<and> fst (ex_units ?y ! i) < length (ex_issue ?y) \<and>
          port_ok (snd (ex_units ?y ! i)) (ex_issue ?y ! fst (ex_units ?y ! i))" if i: "i < length (ex_units ?y)" for i
      proof -
        obtain q w where qw: "ex_units x ! i = (q, w)" by (cases "ex_units x ! i")
        have w: "unit_ok w" "q < length (ex_issue x)" "port_ok w (ex_issue x ! q)"
          using ok i qw unfolding loop_ok_def by (auto dest: spec [of _ i])
        have pw: "port_ok w ((ex_issue x)[port := src] ! q)"
          using w(3) port_ok_clear v(6) by (cases "q = port") (auto simp: port)
        show ?thesis
        proof (cases "i = n")
          case True
          then have "q = port" "w = u" using qw u by simp_all
          then show ?thesis using True i v(2) port pw port_ok_depth [of v u] v(3) by simp
        qed (use w pw qw in simp)
      qed
      have tk: "take (Suc n) ((ex_units x)[n := (port, v)]) = (take (Suc n) (ex_units x))[n := (port, v)]"
        by (simp add: take_update_swap)
      have "mixed_due (Suc n) k (ex_units ?y) \<le> buses_due k (ex_bus ?y)" for k
      proof -
        have "mixed_due (Suc n) k (ex_units x) \<le> buses_due k (ex_bus x)"
          using ok unfolding loop_ok_def by blast
        moreover have "units_due k ((take (Suc n) (ex_units x))[n := (port, v)]) + (if k \<in> fu_occupied u then 1 else 0) =
            units_due k (take (Suc n) (ex_units x)) + (if k \<in> fu_occupied v then 1 else 0)"
          using units_due_upd [of n "take (Suc n) (ex_units x)" k port v] n u by simp
        moreover have "buses_due k (ex_bus ?y) + (if k \<in> ex_bus x ! b then 1 else 0) =
            buses_due k (ex_bus x) + (if k \<in> insert (latency ?p) (ex_bus x ! b) then 1 else 0)"
          using buses_due_upd [OF bl(1)] by simp
        moreover have "mixed_due (Suc n) k (ex_units ?y) =
            units_due k ((take (Suc n) (ex_units x))[n := (port, v)]) + units_due (Suc k) (drop (Suc n) (ex_units x))"
          by (simp add: mixed_due_def tk)
        ultimately show ?thesis
          using v(4,5) bl(2) unfolding mixed_due_def by (cases "k = latency ?p") (auto split: if_splits)
      qed
      moreover have "used (ex_wb ?y) + units_due 0 (drop (Suc n) (ex_units ?y)) \<le> length (ex_wb ?y)"
        using ok by (simp add: loop_ok_def)
      ultimately have "loop_ok (Suc n) ?y" using units unfolding loop_ok_def by blast
      then show ?thesis using e by simp
    qed
  qed
qed

lemma execute_unit_ok:
  assumes ok: "loop_ok n x" and n: "n < length (ex_units x)"
  shows "\<exists>y. execute_unit n x = Some y \<and> loop_ok (Suc n) y \<and> length (ex_units y) = length (ex_units x) \<and>
    length (ex_bus y) = length (ex_bus x) \<and> length (ex_wb y) = length (ex_wb x)"
proof -
  obtain port u where u: "ex_units x ! n = (port, u)" by (cases "ex_units x ! n")
  have uo: "unit_ok u" and port: "port < length (ex_issue x)" and po: "port_ok u (ex_issue x ! port)"
    using ok n u unfolding loop_ok_def by (metis fst_conv snd_conv)+
  have room: "used (ex_wb x) + (units_due 0 (drop (Suc n) ((ex_units x)[n := q])) + (if 0 \<in> fu_occupied u then 1 else 0)) \<le> length (ex_wb x)" for q
    using ok drop_due_step [OF n, of 0 q] u unfolding loop_ok_def by simp
  have z: "\<not> pi_empty (fu_regs u ! 0) \<Longrightarrow> 0 \<in> fu_occupied u" using uo by (auto simp: unit_ok_def)
  then have "\<not> pi_empty (fu_regs u ! 0) \<Longrightarrow> has_free (ex_wb x)" using room by (auto simp: has_free_used)
  from unit_cycle_ok [OF uo this] obtain v wb where v: "unit_cycle u (ex_wb x) = Some (v, wb)" "unit_ok v"
    "length (fu_regs v) = length (fu_regs u)" "fu_occupied v = shift_bits (fu_occupied u)"
    and wb: "if pi_empty (fu_regs u ! 0) then wb = ex_wb x
      else \<exists>r. get_free (ex_wb x) = Some r \<and> wb = (ex_wb x)[r := fu_regs u ! 0]" by blast
  let ?y = "x\<lparr>ex_units := (ex_units x)[n := (port, v)], ex_wb := wb\<rparr>"
  have len: "length wb = length (ex_wb x)" using wb by (auto split: if_splits)
  have us: "used wb \<le> used (ex_wb x) + (if 0 \<in> fu_occupied u then 1 else 0)"
    using wb z used_upd get_freeD by (fastforce split: if_splits)
  have "mixed_due (Suc n) k (ex_units ?y) = mixed_due n k (ex_units x)" for k
    using mixed_due_step [OF n, of k port v] u v(4) by simp
  moreover have "used wb + units_due 0 (drop (Suc n) (ex_units ?y)) \<le> length wb"
    using room [of "(port, v)"] us len by simp
  moreover have "unit_ok (snd (ex_units ?y ! i)) \<and> fst (ex_units ?y ! i) < length (ex_issue ?y) \<and>
      port_ok (snd (ex_units ?y ! i)) (ex_issue ?y ! fst (ex_units ?y ! i))" if "i < length (ex_units ?y)" for i
    using ok that u v(2,3) port po port_ok_depth [of v u] unfolding loop_ok_def by (cases "i = n") auto
  ultimately have "loop_ok (Suc n) ?y" using ok unfolding loop_ok_def by simp
  from issue_to_unit_ok [OF this] n obtain y where "issue_to_unit n ?y = Some y" "loop_ok (Suc n) y"
    "length (ex_units y) = length (ex_units ?y)" "length (ex_bus y) = length (ex_bus ?y)" "ex_wb y = ex_wb ?y" by auto
  then show ?thesis using n u v(1) len by (simp add: execute_unit_def)
qed

text \<open>
  Before \<open>execute\<close>, the writeback stage has drained \<open>ex_wb\<close>, which has a register for every bus; the buses
  account for the instructions in the units.
\<close>

lemma mixed_0: "mixed_due 0 k us = units_due (Suc k) us"
  by (simp add: mixed_due_def units_due_def)

lemma mixed_all: "mixed_due (length us) k us = units_due k us"
  by (simp add: mixed_due_def units_due_def)

lemma exec_ok_at:
  assumes "exec_ok x" and "i < length (ex_units x)"
  shows "unit_ok (snd (ex_units x ! i)) \<and> fst (ex_units x ! i) < length (ex_issue x) \<and>
    port_ok (snd (ex_units x ! i)) (ex_issue x ! fst (ex_units x ! i))"
  using assms nth_mem [OF assms(2)] unfolding exec_ok_def by (cases "ex_units x ! i") auto

lemma loop_start:
  assumes "exec_ok x" and "used (ex_wb x) = 0" and "length (ex_bus x) \<le> length (ex_wb x)"
  shows "loop_ok 0 (x\<lparr>ex_bus := map shift_bits (ex_bus x)\<rparr>)"
proof -
  have d: "units_due k (ex_units x) \<le> buses_due k (ex_bus x)" for k
    using assms(1) by (simp add: exec_ok_def)
  have "units_due 0 (ex_units x) \<le> length (ex_wb x)"
    using le_trans [OF d [of 0, unfolded buses_due_def] length_filter_le] assms(3) by (rule le_trans)
  then show ?thesis
    using exec_ok_at [OF assms(1)] d assms(2) by (simp add: loop_ok_def mixed_0 buses_due_shift)
qed

lemma loop_end: "loop_ok (length (ex_units x)) x \<Longrightarrow> exec_ok x"
  unfolding loop_ok_def exec_ok_def mixed_all by (auto simp: in_set_conv_nth) (metis fst_conv snd_conv)+

lemma execute_loop:
  assumes "loop_ok 0 x" and "n \<le> length (ex_units x)"
  shows "\<exists>y. foldM execute_unit [0..<n] x = Some y \<and> loop_ok n y \<and> length (ex_units y) = length (ex_units x) \<and>
    length (ex_bus y) = length (ex_bus x) \<and> length (ex_wb y) = length (ex_wb x)"
  using assms(2)
proof (induction n)
  case (Suc n)
  then obtain y where y: "foldM execute_unit [0..<n] x = Some y" "loop_ok n y" "length (ex_units y) = length (ex_units x)"
    "length (ex_bus y) = length (ex_bus x)" "length (ex_wb y) = length (ex_wb x)" by auto
  moreover have "n < length (ex_units y)" using Suc.prems y(3) by simp
  ultimately obtain z where "execute_unit n y = Some z" "loop_ok (Suc n) z" "length (ex_units z) = length (ex_units y)"
    "length (ex_bus z) = length (ex_bus y)" "length (ex_wb z) = length (ex_wb y)"
    using execute_unit_ok by blast
  with y show ?case by (simp add: foldM_append)
qed (simp add: assms(1))

lemma execute_ok:
  assumes "exec_ok x" and "used (ex_wb x) = 0" and "length (ex_bus x) \<le> length (ex_wb x)"
  shows "\<exists>y. execute x = Some y \<and> exec_ok y \<and> length (ex_bus y) = length (ex_bus x) \<and>
    length (ex_wb y) = length (ex_wb x)"
proof -
  let ?x = "x\<lparr>ex_bus := map shift_bits (ex_bus x)\<rparr>"
  from execute_loop [OF loop_start [OF assms], of "length (ex_units ?x)"] obtain y where
    "foldM execute_unit [0..<length (ex_units ?x)] ?x = Some y" "loop_ok (length (ex_units ?x)) y"
    "length (ex_units y) = length (ex_units ?x)" "length (ex_bus y) = length (ex_bus x)" "length (ex_wb y) = length (ex_wb x)"
    by auto
  then show ?thesis using loop_end [of y] by (auto simp: execute_def)
qed

subsection \<open>Properties\<close>


text \<open>
  Property C24: an arithmetic unit is a delay line. In a cycle every instruction in it, whether in a stage or
  waiting for its initiation interval, comes one cycle closer to the result port, and exactly the
  instruction that was due enters it; an issue adds the oldest instruction of the source registers, due in its
  whole latency. So an instruction of latency L enters the result port in the (L + 1)-th cycle after its issue.
\<close>

theorem function_unit_is_delay_line:
  assumes "unit_ok u" and "\<not> pi_empty (fu_regs u ! 0) \<longrightarrow> has_free port"
  shows "\<exists>v port'. unit_cycle u port = Some (v, port') \<and> unit_ok v \<and> (\<forall>k x. holds_at v k x \<longleftrightarrow> holds_at u (Suc k) x) \<and>
      (if pi_empty (fu_regs u ! 0) then port' = port
       else \<exists>r. get_free port = Some r \<and> port' = port[r := fu_regs u ! 0]) \<and>
      (\<forall>source r. port_ok v source \<longrightarrow> get_ready source = Some r \<longrightarrow> can_issue v (source ! r) = Some True \<longrightarrow>
        (\<exists>w source'. unit_issue source v = Some (source', w) \<and> unit_ok w \<and>
          (\<forall>k x. holds_at w k x \<longleftrightarrow> holds_at v k x \<or> k = latency (source ! r) \<and> x = pi_uid (source ! r))))"
proof -
  have issue: "\<exists>w source'. unit_issue source v = Some (source', w) \<and> unit_ok w \<and>
      (\<forall>k x. holds_at w k x \<longleftrightarrow> holds_at v k x \<or> k = latency (source ! r) \<and> x = pi_uid (source ! r))"
    if "unit_ok v" and p: "port_ok v source" and r: "get_ready source = Some r"
      and c: "can_issue v (source ! r) = Some True" for v source r
  proof -
    have "source ! r \<in> set source" "\<not> pi_empty (source ! r)" using get_readyD [OF r] by simp_all
    with p have "0 < interval (source ! r)" "interval (source ! r) \<le> latency (source ! r)"
      "latency (source ! r) - interval (source ! r) < length (fu_regs v)"
      "w_cycles (pi_inst (source ! r)) = interval (source ! r)" unfolding port_ok_def by blast+
    from unit_issue_ok [OF \<open>unit_ok v\<close> r c this] show ?thesis by blast
  qed
  from unit_cycle_ok [OF assms(1), of port] assms(2) obtain v port' where "unit_cycle u port = Some (v, port')" "unit_ok v"
    "\<forall>k x. holds_at v k x \<longleftrightarrow> holds_at u (Suc k) x" "if pi_empty (fu_regs u ! 0) then port' = port
       else \<exists>r. get_free port = Some r \<and> port' = port[r := fu_regs u ! 0]" by blast
  then show ?thesis using issue by blast
qed

subsection \<open>An example\<close>

definition blank_inst :: pipe_inst where
  "blank_inst = program_inst \<lparr>st_bar = \<lparr>bi_type = NOT_BAR, bi_id = 0, bi_count = 0\<rparr>, st_reconvergence_pc = 0,
     st_latency = 4, st_initiation_interval = 2, st_decoded = True, st_src = [5], st_dst = [3]\<rparr>
     \<lparr>i_pc = 0, i_isize = 8, i_op = ALU_OP, i_memory_op = no_memory_op, i_out = [1, 0, 0, 0], i_in = [0, 0, 0, 0],
      i_pred = 0, i_ar1 = 0, i_ar2 = 0, i_space = undefined_space, i_data_size = 0, i_warp_id = 0\<rparr>"

text \<open>One unit of depth four with an instruction at its port, and one result bus.\<close>

definition one_unit :: exec_stage where
  "one_unit = \<lparr>ex_units = [(0, function_unit_new blank_inst 4)],
     ex_issue = [[issue_inst 1 0 7 0 1 blank_inst]], ex_wb = register_set_new blank_inst 1, ex_bus = [{}]\<rparr>"

lemma one_port_ok: "port_ok (function_unit_new blank_inst 4) [issue_inst 1 0 7 0 1 blank_inst]"
  by (simp add: port_ok_def function_unit_new_def interval_def latency_def issue_inst_def blank_inst_def
      program_inst_def MAX_ALU_LATENCY_def inst_t.defs warp_inst_t.defs warp_mem_inst.defs)

lemma one_unit_ok: "exec_ok one_unit" "used (ex_wb one_unit) = 0" "length (ex_bus one_unit) \<le> length (ex_wb one_unit)"
  using one_port_ok
  by (simp_all add: one_unit_def exec_ok_def unit_new_ok used_def register_set_new_def)
    (simp add: units_due_def function_unit_new_def)


text \<open>A unit of one stage whose instruction is due now.\<close>

definition due_unit :: function_unit where
  "due_unit = \<lparr>fu_regs = [issue_inst 1 0 7 0 1 blank_inst], fu_dispatch = pi_clear blank_inst, fu_occupied = {0}\<rparr>"

theorem function_unit_is_delay_line_witness:
  "\<exists>v. unit_cycle due_unit (register_set_new blank_inst 1) = Some (v, [issue_inst 1 0 7 0 1 blank_inst]) \<and> unit_ok v \<and>
    (\<forall>k x. \<not> holds_at v k x)"
proof -
  have ok: "unit_ok due_unit" by (simp add: unit_ok_def due_unit_def)
  have free: "has_free (register_set_new blank_inst 1)" by (simp add: has_free_def register_set_new_def)
  have g: "get_free (register_set_new blank_inst 1) = Some 0" by (simp add: get_free_def register_set_new_def)
  have n: "\<not> holds_at due_unit (Suc k) x" for k x by (simp add: holds_at_def due_unit_def)
  from function_unit_is_delay_line [OF ok, of "register_set_new blank_inst 1"] free obtain v port' where
    "unit_cycle due_unit (register_set_new blank_inst 1) = Some (v, port')" "unit_ok v"
    "\<forall>k x. holds_at v k x \<longleftrightarrow> holds_at due_unit (Suc k) x"
    "if pi_empty (fu_regs due_unit ! 0) then port' = register_set_new blank_inst 1
       else \<exists>r. get_free (register_set_new blank_inst 1) = Some r \<and> port' = (register_set_new blank_inst 1)[r := fu_regs due_unit ! 0]"
    by blast
  with n g show ?thesis by (auto simp: due_unit_def register_set_new_def)
qed

end
