(* ===== verification/Operand_Collector.thy ===== *)
theory Operand_Collector
  imports Pipeline_Register "HOL-Library.Log_Nat"
begin

text \<open>
  The operand collector of a core (\<open>opndcoll_rfu_t\<close> of \<open>shader.h\<close> and \<open>shader.cc\<close>), between the issue stage and
  the function units. Collector units hold issued instructions while an arbiter reads their source
  registers from the banks of the register file; dispatch units send complete instructions on. The counters of
  register file accesses, which only feed the power model, are left out. A pointer to a collector unit is its
  hardware number, the position in \<open>m_cu\<close>; a null pointer that is used ends the step.
\<close>

subsection \<open>State\<close>

definition MAX_REG_OPERANDS :: nat where "MAX_REG_OPERANDS = 8"

datatype pipeline_stage_name_t = ID_OC_SP | ID_OC_SFU | ID_OC_MEM | OC_EX_SP | OC_EX_SFU | OC_EX_MEM | EX_WB

text \<open>\<open>m_pipeline_reg\<close> of the core.\<close>

type_synonym stage_regs = "pipeline_stage_name_t \<Rightarrow> register_set"

text \<open>
  A valid \<open>op_t\<close> belongs to a collector unit (\<open>m_cu\<close>) or to an instruction that writes (\<open>m_warp\<close>); an invalid one is
  \<open>None\<close>.
\<close>

datatype op_owner = Unit_of nat | Warp_of pipe_inst

record op_t =
  op_owner :: op_owner
  op_operand :: nat
  op_register :: u32
  op_bank :: nat

datatype allocation_t = NO_ALLOC | READ_ALLOC op_t | WRITE_ALLOC op_t

record collector_unit =
  cu_free :: bool
  cu_warp_id :: u32
  cu_warp :: pipe_inst
  cu_output :: "pipeline_stage_name_t option"
  cu_src :: "op_t option list"
  cu_not_ready :: "nat set"

record arbiter_t =
  ar_num_banks :: nat
  ar_num_collectors :: nat
  ar_allocated :: "allocation_t list"
  ar_queue :: "op_t list list"
  ar_last_cu :: nat

record input_port =
  ip_in :: "pipeline_stage_name_t list"
  ip_out :: "pipeline_stage_name_t list"
  ip_cu_sets :: "nat list"

record dispatch_unit =
  du_num :: nat
  du_set :: nat
  du_last_cu :: nat

text \<open>\<open>m_num_banks\<close> and \<open>m_bank_warp_shift\<close> of the units are copies of these, made by \<open>init\<close>.\<close>

record opndcoll_rfu =
  rf_num_banks :: u32
  rf_bank_warp_shift :: u32
  rf_cu :: "collector_unit list"
  rf_arbiter :: arbiter_t
  rf_in_ports :: "input_port list"
  rf_cus :: "nat \<Rightarrow> nat list"
  rf_dispatch_units :: "dispatch_unit list"

subsection \<open>Construction\<close>

definition collector_unit_new :: "pipe_inst \<Rightarrow> collector_unit" where
  "collector_unit_new blank = \<lparr>cu_free = True, cu_warp_id = - 1, cu_warp = pi_clear blank, cu_output = None,
     cu_src = replicate (MAX_REG_OPERANDS * 2) None, cu_not_ready = {}\<rparr>"

definition arbiter_init :: "nat \<Rightarrow> nat \<Rightarrow> arbiter_t option" where
  "arbiter_init num_cu num_banks = do {
     require (0 < num_cu);
     require (0 < num_banks);
     Some \<lparr>ar_num_banks = num_banks, ar_num_collectors = num_cu, ar_allocated = replicate num_banks NO_ALLOC,
       ar_queue = replicate num_banks [], ar_last_cu = 0\<rparr>
   }"

definition input_port_new :: "pipeline_stage_name_t list \<Rightarrow> pipeline_stage_name_t list \<Rightarrow> nat list \<Rightarrow> input_port option" where
  "input_port_new input output cu_sets = do {
     require (length input = length output);
     require (cu_sets \<noteq> []);
     Some \<lparr>ip_in = input, ip_out = output, ip_cu_sets = cu_sets\<rparr>
   }"

text \<open>
  Before \<open>init\<close>: the units, sets, dispatch units and ports. Adding to a set a second time could move its units
  away from the pointers to them, which the step refuses.
\<close>

definition add_cu_set :: "pipe_inst \<Rightarrow> nat \<Rightarrow> nat \<Rightarrow> nat \<Rightarrow>
    collector_unit list \<times> (nat \<Rightarrow> nat list) \<times> dispatch_unit list \<Rightarrow>
    (collector_unit list \<times> (nat \<Rightarrow> nat list) \<times> dispatch_unit list) option" where
  "add_cu_set blank set_id num_cu num_dispatch = (\<lambda>(cus, sets, dus). do {
     require (sets set_id = []);
     Some (cus @ replicate num_cu (collector_unit_new blank), sets(set_id := [length cus..<length cus + num_cu]),
       dus @ replicate num_dispatch \<lparr>du_num = num_cu, du_set = set_id, du_last_cu = 0\<rparr>)
   })"

definition add_port :: "pipeline_stage_name_t list \<Rightarrow> pipeline_stage_name_t list \<Rightarrow> nat list \<Rightarrow> input_port list \<Rightarrow>
    input_port list option" where
  "add_port input output cu_sets ports = do { p \<leftarrow> input_port_new input output cu_sets; Some (ports @ [p]) }"

text \<open>\<open>(unsigned)(int)(log(warp_size + 0.5) / log(2.0))\<close>\<close>

definition warp_shift :: "nat \<Rightarrow> u32" where
  "warp_shift warp_size = (if warp_size = 0 then - 1 else of_nat (floorlog 2 warp_size - 1))"

definition opndcoll_init :: "u32 \<Rightarrow> nat \<Rightarrow> collector_unit list \<Rightarrow> (nat \<Rightarrow> nat list) \<Rightarrow> dispatch_unit list \<Rightarrow>
    input_port list \<Rightarrow> opndcoll_rfu option" where
  "opndcoll_init num_banks warp_size cus sets dus ports = do {
     a \<leftarrow> arbiter_init (length cus) (unat num_banks);
     require (warp_shift warp_size = 5 \<or> warp_size \<noteq> 32);
     Some \<lparr>rf_num_banks = num_banks, rf_bank_warp_shift = warp_shift warp_size, rf_cu = cus, rf_arbiter = a,
       rf_in_ports = ports, rf_cus = sets, rf_dispatch_units = dus\<rparr>
   }"

text \<open>
  The configuration of a core: for the units of the kinds SP, SFU, MEM and GEN in turn, how many collector units,
  output ports and input ports.
\<close>

record collector_config =
  oc_num_units :: "nat list"
  oc_out_ports :: "nat list"
  oc_in_ports :: "nat list"
  oc_num_banks :: u32
  oc_warp_size :: nat

definition port_stages :: "nat \<Rightarrow> pipeline_stage_name_t list \<times> pipeline_stage_name_t list \<times> nat list" where
  "port_stages kind = (if kind = 0 then ([ID_OC_SP], [OC_EX_SP], [0, 3])
     else if kind = 1 then ([ID_OC_SFU], [OC_EX_SFU], [1, 3])
     else if kind = 2 then ([ID_OC_MEM], [OC_EX_MEM], [2, 3])
     else ([ID_OC_SP, ID_OC_SFU, ID_OC_MEM], [OC_EX_SP, OC_EX_SFU, OC_EX_MEM], [3]))"

definition opndcoll_new :: "pipe_inst \<Rightarrow> collector_config \<Rightarrow> opndcoll_rfu option" where
  "opndcoll_new blank c = do {
     (cus, sets, dus) \<leftarrow> foldM (\<lambda>kind. add_cu_set blank kind (oc_num_units c ! kind) (oc_out_ports c ! kind)) [0..<4]
       ([], \<lambda>_. [], []);
     ports \<leftarrow> foldM (\<lambda>kind. foldM (\<lambda>_. case port_stages kind of (input, output, cu_sets) \<Rightarrow> add_port input output cu_sets)
       [0..<oc_in_ports c ! kind]) [0..<4] [];
     opndcoll_init (oc_num_banks c) (oc_warp_size c) cus sets dus ports
   }"

subsection \<open>Operands and banks\<close>

text \<open>The remainder is taken on \<open>unsigned\<close>, the sum wraps.\<close>

definition register_bank :: "u32 \<Rightarrow> u32 \<Rightarrow> u32 \<Rightarrow> u32 \<Rightarrow> nat" where
  "register_bank regnum wid num_banks bank_warp_shift =
     unat ((if bank_warp_shift \<noteq> 0 then regnum + wid else regnum) mod num_banks)"

definition arch_reg :: "int list \<Rightarrow> nat \<Rightarrow> int" where
  "arch_reg rs i = (if i < length rs then rs ! i else - 1)"

definition get_regs_written :: "pipe_inst \<Rightarrow> u32 list" where
  "get_regs_written inst = map word_of_int (filter (\<lambda>r. 0 \<le> r) (map (arch_reg (st_dst (pi_static inst))) [0..<MAX_REG_OPERANDS]))"

text \<open>\<open>get_oc_id\<close> and \<open>get_wid\<close>.\<close>

fun get_oc_id :: "op_t \<Rightarrow> nat option" where
  "get_oc_id op = (case op_owner op of Unit_of k \<Rightarrow> Some k | Warp_of _ \<Rightarrow> None)"

definition get_wid :: "opndcoll_rfu \<Rightarrow> op_t \<Rightarrow> u32 option" where
  "get_wid rf op = (case op_owner op of
       Warp_of p \<Rightarrow> map_option of_nat (pi_warp_id p)
     | Unit_of k \<Rightarrow> do { cu \<leftarrow> nth_opt (rf_cu rf) k; Some (cu_warp_id cu) })"

fun is_write :: "allocation_t \<Rightarrow> bool" where
  "is_write (WRITE_ALLOC _) = True"
| "is_write _ = False"

fun is_read :: "allocation_t \<Rightarrow> bool" where
  "is_read (READ_ALLOC _) = True"
| "is_read _ = False"

definition is_free :: "allocation_t \<Rightarrow> bool" where
  "is_free a \<longleftrightarrow> a = NO_ALLOC"

subsection \<open>The arbiter\<close>

definition add_read_requests :: "op_t option list \<Rightarrow> arbiter_t \<Rightarrow> arbiter_t option" where
  "add_read_requests src = foldM (\<lambda>i a. (case src ! i of
       None \<Rightarrow> Some a
     | Some op \<Rightarrow> do {
         q \<leftarrow> nth_opt (ar_queue a) (op_bank op);
         Some (a\<lparr>ar_queue := (ar_queue a)[op_bank op := q @ [op]]\<rparr>) })) [0..<MAX_REG_OPERANDS * 2]"

definition bank_idle :: "nat \<Rightarrow> arbiter_t \<Rightarrow> bool option" where
  "bank_idle bank a = do { x \<leftarrow> nth_opt (ar_allocated a) bank; Some (is_free x) }"

definition allocate_bank :: "nat \<Rightarrow> allocation_t \<Rightarrow> arbiter_t \<Rightarrow> arbiter_t option" where
  "allocate_bank bank x a = do {
     require (bank < ar_num_banks a);
     old \<leftarrow> nth_opt (ar_allocated a) bank;
     require (is_free old);
     Some (a\<lparr>ar_allocated := (ar_allocated a)[bank := x]\<rparr>)
   }"

definition allocate_bank_for_write :: "nat \<Rightarrow> op_t \<Rightarrow> arbiter_t \<Rightarrow> arbiter_t option" where
  "allocate_bank_for_write bank op = allocate_bank bank (WRITE_ALLOC op)"

definition allocate_for_read :: "nat \<Rightarrow> op_t \<Rightarrow> arbiter_t \<Rightarrow> arbiter_t option" where
  "allocate_for_read bank op = allocate_bank bank (READ_ALLOC op)"

definition reset_allocation :: "arbiter_t \<Rightarrow> arbiter_t" where
  "reset_allocation a = a\<lparr>ar_allocated := replicate (ar_num_banks a) NO_ALLOC\<rparr>"

text \<open>The row of \<open>_request\<close> for bank \<open>i\<close>: the collector that the oldest read of the bank is for.\<close>

definition bank_request :: "arbiter_t \<Rightarrow> nat \<Rightarrow> nat option option" where
  "bank_request a i = (case ar_queue a ! i of
       [] \<Rightarrow> Some None
     | op # _ \<Rightarrow> do { k \<leftarrow> get_oc_id op; require (k < ar_num_collectors a); Some (Some k) })"

definition bank_requests :: "arbiter_t \<Rightarrow> nat option list option" where
  "bank_requests a = foldM (\<lambda>i rs. do { r \<leftarrow> bank_request a i; Some (rs @ [r]) }) [0..<ar_num_banks a] []"

text \<open>
  One element of the diagonal \<open>p\<close>. \<open>_inmatch\<close> and \<open>_outmatch\<close> hold \<open>-1\<close> for \<open>None\<close>; the running \<open>output\<close> starts at
  \<open>(_pri + p) % _square\<close> and steps with \<open>input\<close>. The assertion comes before the test of the same condition.
\<close>

definition wave_cell :: "nat option list \<Rightarrow> nat \<Rightarrow> nat \<Rightarrow> nat \<Rightarrow> nat \<times> nat option list \<times> nat option list \<Rightarrow>
    (nat \<times> nat option list \<times> nat option list) option" where
  "wave_cell request outputs square input = (\<lambda>(output, inmatch, outmatch). do {
     require (output < outputs);
     Some (if output < outputs \<and> inmatch ! input = None \<and> outmatch ! output = None \<and> request ! input = Some output
       then ((output + 1) mod square, inmatch[input := Some output], outmatch[output := Some input])
       else ((output + 1) mod square, inmatch, outmatch))
   })"

definition wave_diagonal :: "nat option list \<Rightarrow> nat \<Rightarrow> nat \<Rightarrow> nat \<Rightarrow> nat \<Rightarrow> nat \<Rightarrow>
    nat option list \<times> nat option list \<Rightarrow> (nat option list \<times> nat option list) option" where
  "wave_diagonal request inputs outputs square pri p m =
     map_option snd (foldM (wave_cell request outputs square) [0..<inputs] ((pri + p) mod square, m))"

definition wavefront :: "nat option list \<Rightarrow> nat \<Rightarrow> nat \<Rightarrow> nat \<Rightarrow> nat \<Rightarrow> nat option list \<Rightarrow>
    (nat option list \<times> nat option list) option" where
  "wavefront request inputs outputs square pri inmatch =
     foldM (wave_diagonal request inputs outputs square pri) [0..<square] (inmatch, replicate outputs None)"

definition pop_granted :: "nat option list \<Rightarrow> nat \<Rightarrow> op_t list \<times> arbiter_t \<Rightarrow> (op_t list \<times> arbiter_t) option" where
  "pop_granted inmatch i = (\<lambda>(result, a).
     if inmatch ! i \<noteq> None \<and> \<not> is_write (ar_allocated a ! i)
     then (case ar_queue a ! i of
         [] \<Rightarrow> None
       | op # ops \<Rightarrow> Some (result @ [op], a\<lparr>ar_queue := (ar_queue a)[i := ops]\<rparr>))
     else Some (result, a))"

text \<open>\<open>arbiter_t::allocate_reads\<close>; a bank that is being written takes no part in the matching.\<close>

definition arbiter_allocate_reads :: "arbiter_t \<Rightarrow> (op_t list \<times> arbiter_t) option" where
  "arbiter_allocate_reads a = do {
     let square = max (ar_num_banks a) (ar_num_collectors a);
     require (0 < square);
     request \<leftarrow> bank_requests a;
     let blocked = map (\<lambda>i. if is_write (ar_allocated a ! i) then Some 0 else None) [0..<ar_num_banks a];
     (inmatch, outmatch) \<leftarrow> wavefront request (ar_num_banks a) (ar_num_collectors a) square (ar_last_cu a) blocked;
     foldM (pop_granted inmatch) [0..<ar_num_banks a] ([], a\<lparr>ar_last_cu := (ar_last_cu a + 1) mod square\<rparr>)
   }"

subsection \<open>Collector units\<close>

definition collector_ready :: "stage_regs \<Rightarrow> collector_unit \<Rightarrow> bool option" where
  "collector_ready regs cu = (if cu_free cu \<or> cu_not_ready cu \<noteq> {} then Some False
     else map_option (\<lambda>st. has_free (regs st)) (cu_output cu))"

definition source_op :: "opndcoll_rfu \<Rightarrow> nat \<Rightarrow> u32 \<Rightarrow> pipe_inst \<Rightarrow> nat \<Rightarrow> op_t option" where
  "source_op rf k wid p op = (let reg_num = arch_reg (st_src (pi_static p)) op in
     if 0 \<le> reg_num then Some \<lparr>op_owner = Unit_of k, op_operand = op, op_register = word_of_int reg_num,
       op_bank = register_bank (word_of_int reg_num) wid (rf_num_banks rf) (rf_bank_warp_shift rf)\<rparr>
     else None)"

text \<open>\<open>collector_unit_t::allocate\<close> of unit \<open>k\<close>.\<close>

definition collector_allocate :: "nat \<Rightarrow> pipeline_stage_name_t \<Rightarrow> pipeline_stage_name_t \<Rightarrow> stage_regs \<times> opndcoll_rfu \<Rightarrow>
    (bool \<times> stage_regs \<times> opndcoll_rfu) option" where
  "collector_allocate k input output = (\<lambda>(regs, rf). do {
     cu \<leftarrow> nth_opt (rf_cu rf) k;
     require (cu_free cu);
     require (cu_not_ready cu = {});
     let cu = cu\<lparr>cu_free := False, cu_output := Some output\<rparr>;
     (case get_ready (regs input) of
        None \<Rightarrow> Some (False, regs, rf\<lparr>rf_cu := (rf_cu rf)[k := cu]\<rparr>)
      | Some r \<Rightarrow> do {
          warp_id \<leftarrow> pi_warp_id (regs input ! r);
          let ops = map (source_op rf k (of_nat warp_id) (regs input ! r)) [0..<MAX_REG_OPERANDS];
          (warp, src) \<leftarrow> move_out_to (cu_warp cu) (regs input);
          Some (True, regs(input := src), rf\<lparr>rf_cu := (rf_cu rf)[k := cu\<lparr>cu_warp_id := of_nat warp_id, cu_warp := warp,
            cu_src := ops @ drop MAX_REG_OPERANDS (cu_src cu),
            cu_not_ready := {i. i < MAX_REG_OPERANDS \<and> ops ! i \<noteq> None}\<rparr>]\<rparr>)
        })
   })"

definition collector_dispatch :: "nat \<Rightarrow> stage_regs \<times> opndcoll_rfu \<Rightarrow> (stage_regs \<times> opndcoll_rfu) option" where
  "collector_dispatch k = (\<lambda>(regs, rf). do {
     cu \<leftarrow> nth_opt (rf_cu rf) k;
     require (cu_not_ready cu = {});
     output \<leftarrow> cu_output cu;
     (warp, out) \<leftarrow> move_in (cu_warp cu) (regs output);
     Some (regs(output := out), rf\<lparr>rf_cu := (rf_cu rf)[k := cu\<lparr>cu_warp := warp, cu_free := True, cu_output := None,
       cu_src := replicate (MAX_REG_OPERANDS * 2) None\<rparr>]\<rparr>)
   })"

text \<open>\<open>m_not_ready.reset(op)\<close> throws beyond the bit set.\<close>

definition collect_operand :: "nat \<Rightarrow> collector_unit \<Rightarrow> collector_unit option" where
  "collect_operand op cu = do {
     require (op < MAX_REG_OPERANDS * 2);
     Some (cu\<lparr>cu_not_ready := cu_not_ready cu - {op}\<rparr>)
   }"

subsection \<open>A step\<close>

text \<open>The loop of \<open>find_ready\<close> over the units that remain to be looked at.\<close>

fun find_ready :: "stage_regs \<Rightarrow> opndcoll_rfu \<Rightarrow> nat list \<Rightarrow> dispatch_unit \<Rightarrow> (nat option \<times> dispatch_unit) option" where
  "find_ready regs rf [] du = Some (None, du)"
| "find_ready regs rf (n # ns) du = (let c = (du_last_cu du + n + 1) mod du_num du in do {
     k \<leftarrow> nth_opt (rf_cus rf (du_set du)) c;
     cu \<leftarrow> nth_opt (rf_cu rf) k;
     ready \<leftarrow> collector_ready regs cu;
     (if ready then Some (Some k, du\<lparr>du_last_cu := c\<rparr>) else find_ready regs rf ns du) })"

definition dispatch_from :: "nat \<Rightarrow> stage_regs \<times> opndcoll_rfu \<Rightarrow> (stage_regs \<times> opndcoll_rfu) option" where
  "dispatch_from p = (\<lambda>(regs, rf). do {
     du \<leftarrow> nth_opt (rf_dispatch_units rf) p;
     (found, du) \<leftarrow> find_ready regs rf [0..<du_num du] du;
     let rf = rf\<lparr>rf_dispatch_units := (rf_dispatch_units rf)[p := du]\<rparr>;
     (case found of None \<Rightarrow> Some (regs, rf) | Some k \<Rightarrow> collector_dispatch k (regs, rf))
   })"

definition dispatch_ready_cu :: "stage_regs \<times> opndcoll_rfu \<Rightarrow> (stage_regs \<times> opndcoll_rfu) option" where
  "dispatch_ready_cu = (\<lambda>(regs, rf). foldM dispatch_from [0..<length (rf_dispatch_units rf)] (regs, rf))"

text \<open>
  \<open>opndcoll_rfu_t::allocate_reads\<close>: the granted reads take their banks; \<open>read_ops\<close>, ordered by bank, then delivers them.
\<close>

definition take_bank :: "op_t \<Rightarrow> (nat \<Rightarrow> op_t option) \<times> opndcoll_rfu \<Rightarrow> ((nat \<Rightarrow> op_t option) \<times> opndcoll_rfu) option" where
  "take_bank rr = (\<lambda>(read_ops, rf). do {
     wid \<leftarrow> get_wid rf rr;
     let bank = register_bank (op_register rr) wid (rf_num_banks rf) (rf_bank_warp_shift rf);
     a \<leftarrow> allocate_for_read bank rr (rf_arbiter rf);
     Some (read_ops(bank := Some rr), rf\<lparr>rf_arbiter := a\<rparr>)
   })"

definition deliver :: "op_t \<Rightarrow> opndcoll_rfu \<Rightarrow> opndcoll_rfu option" where
  "deliver op rf = do {
     k \<leftarrow> get_oc_id op;
     cu \<leftarrow> nth_opt (rf_cu rf) k;
     cu \<leftarrow> collect_operand (op_operand op) cu;
     Some (rf\<lparr>rf_cu := (rf_cu rf)[k := cu]\<rparr>)
   }"

definition allocate_reads :: "opndcoll_rfu \<Rightarrow> opndcoll_rfu option" where
  "allocate_reads rf = do {
     (allocated, a) \<leftarrow> arbiter_allocate_reads (rf_arbiter rf);
     (read_ops, rf) \<leftarrow> foldM take_bank allocated (\<lambda>_. None, rf\<lparr>rf_arbiter := a\<rparr>);
     foldM deliver (List.map_filter read_ops [0..<unat (rf_num_banks rf)]) rf
   }"

text \<open>\<open>allocate_cu\<close>: the first input that is ready is offered to the first set with a free unit.\<close>

fun offer_to_sets :: "nat list \<Rightarrow> pipeline_stage_name_t \<Rightarrow> pipeline_stage_name_t \<Rightarrow> stage_regs \<times> opndcoll_rfu \<Rightarrow>
    (stage_regs \<times> opndcoll_rfu) option" where
  "offer_to_sets [] input output s = Some s"
| "offer_to_sets (j # js) input output (regs, rf) = (case find (\<lambda>k. cu_free (rf_cu rf ! k)) (rf_cus rf j) of
       None \<Rightarrow> offer_to_sets js input output (regs, rf)
     | Some k \<Rightarrow> do {
         (allocated, regs, rf) \<leftarrow> collector_allocate k input output (regs, rf);
         a \<leftarrow> add_read_requests (cu_src (rf_cu rf ! k)) (rf_arbiter rf);
         let rf = rf\<lparr>rf_arbiter := a\<rparr>;
         (if allocated then Some (regs, rf) else offer_to_sets js input output (regs, rf)) })"

fun offer_inputs :: "(pipeline_stage_name_t \<times> pipeline_stage_name_t) list \<Rightarrow> nat list \<Rightarrow> stage_regs \<times> opndcoll_rfu \<Rightarrow>
    (stage_regs \<times> opndcoll_rfu) option" where
  "offer_inputs [] js s = Some s"
| "offer_inputs ((input, output) # ios) js s =
     (if has_ready (fst s input) then offer_to_sets js input output s else offer_inputs ios js s)"

definition allocate_cu :: "nat \<Rightarrow> stage_regs \<times> opndcoll_rfu \<Rightarrow> (stage_regs \<times> opndcoll_rfu) option" where
  "allocate_cu port_num = (\<lambda>(regs, rf). do {
     inp \<leftarrow> nth_opt (rf_in_ports rf) port_num;
     offer_inputs (zip (ip_in inp) (ip_out inp)) (ip_cu_sets inp) (regs, rf)
   })"

definition process_banks :: "opndcoll_rfu \<Rightarrow> opndcoll_rfu" where
  "process_banks rf = rf\<lparr>rf_arbiter := reset_allocation (rf_arbiter rf)\<rparr>"

definition collector_step :: "stage_regs \<times> opndcoll_rfu \<Rightarrow> (stage_regs \<times> opndcoll_rfu) option" where
  "collector_step s = do {
     (regs, rf) \<leftarrow> dispatch_ready_cu s;
     rf \<leftarrow> allocate_reads rf;
     (regs, rf) \<leftarrow> foldM allocate_cu [0..<length (rf_in_ports rf)] (regs, rf);
     Some (regs, process_banks rf)
   }"

subsection \<open>Writing results\<close>

fun write_banks :: "pipe_inst \<Rightarrow> nat \<Rightarrow> u32 list \<Rightarrow> opndcoll_rfu \<Rightarrow> (bool \<times> opndcoll_rfu) option" where
  "write_banks inst wid [] rf = Some (True, rf)"
| "write_banks inst wid (reg # regs) rf =
     (let bank = register_bank reg (of_nat wid) (rf_num_banks rf) (rf_bank_warp_shift rf) in do {
        idle \<leftarrow> bank_idle bank (rf_arbiter rf);
        (if idle then do {
           a \<leftarrow> allocate_bank_for_write bank
             \<lparr>op_owner = Warp_of inst, op_operand = 4294967295, op_register = reg, op_bank = bank\<rparr> (rf_arbiter rf);
           write_banks inst wid regs (rf\<lparr>rf_arbiter := a\<rparr>) }
         else Some (False, rf)) })"

text \<open>\<open>opndcoll_rfu_t::writeback\<close>; after a refusal the banks taken so far stay allocated.\<close>

definition collector_writeback :: "pipe_inst \<Rightarrow> opndcoll_rfu \<Rightarrow> (bool \<times> opndcoll_rfu) option" where
  "collector_writeback inst rf = do {
     warp_id \<leftarrow> pi_warp_id inst;
     write_banks inst warp_id (get_regs_written inst) rf
   }"

end
