(* ===== verification/Operand_Reads.thy ===== *)
theory Operand_Reads
  imports Operand_Collector "HOL-Library.Multiset"
begin

text \<open>
  The read arbitration of the operand collector. The wavefront allocator computes a maximal matching of
  banks and collector units in which the priority diagonal is always served, so no read starves; with
  fewer units than banks it violates its own assertion.
\<close>

subsection \<open>The wavefront allocator\<close>

text \<open>
  \<open>m0\<close> is the initial \<open>_inmatch\<close>, in which the banks being written are taken. Among the others a grant
  answers a request and both arrays record it.
\<close>

definition matching :: "nat option list \<Rightarrow> nat option list \<Rightarrow> nat \<Rightarrow> nat option list \<times> nat option list \<Rightarrow> bool" where
  "matching R m0 outputs m \<longleftrightarrow> length (fst m) = length m0 \<and> length (snd m) = outputs \<and>
     (\<forall>i < length m0. m0 ! i \<noteq> None \<longrightarrow> fst m ! i = m0 ! i) \<and>
     (\<forall>i < length m0. \<forall>k. m0 ! i = None \<and> fst m ! i = Some k \<longrightarrow> k < outputs \<and> R ! i = Some k \<and> snd m ! k = Some i) \<and>
     (\<forall>k < outputs. \<forall>i. snd m ! k = Some i \<longrightarrow> i < length m0 \<and> m0 ! i = None \<and> fst m ! i = Some k)"

definition extends :: "'a option list \<Rightarrow> 'a option list \<Rightarrow> bool" where
  "extends xs ys \<longleftrightarrow> length ys = length xs \<and> (\<forall>i < length xs. xs ! i \<noteq> None \<longrightarrow> ys ! i = xs ! i)"

lemma extends_refl: "extends xs xs"
  by (simp add: extends_def)

lemma extends_trans: "extends xs ys \<Longrightarrow> extends ys zs \<Longrightarrow> extends xs zs"
  by (auto simp: extends_def)

lemma extends_upd: "xs ! i = None \<Longrightarrow> extends xs (xs[i := x])"
  unfolding extends_def by (metis length_list_update nth_list_update_neq)

lemma extendsD: "extends xs ys \<Longrightarrow> i < length xs \<Longrightarrow> xs ! i = Some x \<Longrightarrow> ys ! i = Some x"
  by (simp add: extends_def)

lemma matchingD:
  assumes "matching R m0 N m"
  shows "length (fst m) = length m0" and "length (snd m) = N"
    and "i < length m0 \<Longrightarrow> m0 ! i = Some x \<Longrightarrow> fst m ! i = Some x"
    and "i < length m0 \<Longrightarrow> m0 ! i = None \<Longrightarrow> fst m ! i = Some k \<Longrightarrow> k < N \<and> R ! i = Some k \<and> snd m ! k = Some i"
    and "k < N \<Longrightarrow> snd m ! k = Some i \<Longrightarrow> i < length m0 \<and> m0 ! i = None \<and> fst m ! i = Some k"
proof -
  note c = assms [unfolded matching_def]
  note c12 = c [THEN conjunct1] c [THEN conjunct2, THEN conjunct1]
  note c3 = c [THEN conjunct2, THEN conjunct2, THEN conjunct1]
  note c4 = c [THEN conjunct2, THEN conjunct2, THEN conjunct2, THEN conjunct1]
  note c5 = c [THEN conjunct2, THEN conjunct2, THEN conjunct2, THEN conjunct2]
  show "length (fst m) = length m0" "length (snd m) = N" by (rule c12)+
  show "i < length m0 \<Longrightarrow> m0 ! i = Some x \<Longrightarrow> fst m ! i = Some x" using c3 by simp
  show "i < length m0 \<Longrightarrow> m0 ! i = None \<Longrightarrow> fst m ! i = Some k \<Longrightarrow> k < N \<and> R ! i = Some k \<and> snd m ! k = Some i"
    by (rule c4 [rule_format], simp_all)
  show "k < N \<Longrightarrow> snd m ! k = Some i \<Longrightarrow> i < length m0 \<and> m0 ! i = None \<and> fst m ! i = Some k"
    by (rule c5 [rule_format])
qed

lemma matchingI:
  assumes "length inm = length m0" and "length outm = N"
    and "\<And>i. i < length m0 \<Longrightarrow> m0 ! i \<noteq> None \<Longrightarrow> inm ! i = m0 ! i"
    and "\<And>i k. i < length m0 \<Longrightarrow> m0 ! i = None \<Longrightarrow> inm ! i = Some k \<Longrightarrow> k < N \<and> R ! i = Some k \<and> outm ! k = Some i"
    and "\<And>i k. k < N \<Longrightarrow> outm ! k = Some i \<Longrightarrow> i < length m0 \<and> m0 ! i = None \<and> inm ! i = Some k"
  shows "matching R m0 N (inm, outm)"
  unfolding matching_def fst_conv snd_conv using assms by blast

text \<open>A grant to a free bank and a free unit keeps the matching.\<close>

lemma matching_grant:
  assumes m: "matching R m0 N (inm, outm)" and i: "i < length m0" and k: "k < N"
    and free: "inm ! i = None" "outm ! k = None" and r: "R ! i = Some k"
  shows "m0 ! i = None" and "matching R m0 N (inm[i := Some k], outm[k := Some i])"
proof -
  note d = matchingD [OF m, simplified]
  show n: "m0 ! i = None" using d(3) [OF i] free(1) by (cases "m0 ! i") auto
  show "matching R m0 N (inm[i := Some k], outm[k := Some i])"
  proof (rule matchingI)
    show "inm[i := Some k] ! j = m0 ! j" if "j < length m0" "m0 ! j \<noteq> None" for j
      using that n d(3) by (cases "j = i") auto
    show "l < N \<and> R ! j = Some l \<and> outm[k := Some i] ! l = Some j"
      if "j < length m0" "m0 ! j = None" "inm[i := Some k] ! j = Some l" for j l
    proof (cases "j = i")
      case True
      then show ?thesis using that i k r d(1,2) by simp
    next
      case False
      then have "l < N \<and> R ! j = Some l \<and> outm ! l = Some j" using d(4) [OF that(1,2)] that(3) by simp
      then show ?thesis using free(2) by (cases "l = k") auto
    qed
    show "j < length m0 \<and> m0 ! j = None \<and> inm[i := Some k] ! j = Some l"
      if "l < N" "outm[k := Some i] ! l = Some j" for j l
    proof (cases "l = k")
      case True
      then show ?thesis using that i n d(1,2) by simp
    next
      case False
      then have "j < length m0 \<and> m0 ! j = None \<and> inm ! j = Some l" using d(5) [OF that(1)] that(2) by simp
      then show ?thesis using free(1) by (cases "j = i") auto
    qed
  qed (simp_all add: d(1,2))
qed

lemma shifted_mod_eq: "(d + i) mod N = (d + j) mod N \<Longrightarrow> i < N \<Longrightarrow> j < N \<Longrightarrow> i = j" for d i j N :: nat
proof (induction i j rule: linorder_wlog)
  case (le i j)
  then have "N dvd j - i" using mod_eq_dvd_iff_nat [of "d + i" "d + j" N] by simp
  then show ?case using le by (auto dest: dvd_imp_le)
qed simp

definition served :: "nat option list \<Rightarrow> nat option list \<times> nat option list \<Rightarrow> nat \<Rightarrow> nat \<Rightarrow> bool" where
  "served R m i k \<longleftrightarrow> (R ! i = Some k \<longrightarrow> fst m ! i \<noteq> None \<or> snd m ! k \<noteq> None)"

lemma served_extends:
  assumes "served R m i k" "extends (fst m) (fst m')" "extends (snd m) (snd m')" "i < length (fst m)" "k < length (snd m)"
  shows "served R m' i k"
  using assms unfolding served_def extends_def by fastforce

text \<open>A cell of the wave.\<close>

lemma wave_cell_ok:
  assumes m: "matching R m0 N m" and k: "k < N" and i: "i < length m0"
  shows "\<exists>m'. wave_cell R N N i (k, m) = Some ((k + 1) mod N, m') \<and> matching R m0 N m' \<and>
    extends (fst m) (fst m') \<and> extends (snd m) (snd m') \<and> served R m' i k \<and>
    (\<forall>l < N. \<forall>j. snd m' ! l = Some j \<longrightarrow> snd m ! l = Some j \<or> (j = i \<and> l = k)) \<and>
    (snd m ! k = None \<and> m0 ! i = None \<and> R ! i = Some k \<longrightarrow> fst m' ! i = Some k)"
proof -
  obtain inm outm where mm: "m = (inm, outm)" by (cases m)
  note d = matchingD [OF m [unfolded mm], simplified]
  show ?thesis
  proof (cases "inm ! i = None \<and> outm ! k = None \<and> R ! i = Some k")
    case True
    let ?m = "(inm[i := Some k], outm[k := Some i])"
    have "wave_cell R N N i (k, m) = Some ((k + 1) mod N, ?m)" using k True by (simp add: wave_cell_def mm)
    moreover have "matching R m0 N ?m" using matching_grant(2) [OF m [unfolded mm] i k] True by simp
    moreover have "extends (fst m) (fst ?m)" "extends (snd m) (snd ?m)" using True by (simp_all add: mm extends_upd)
    moreover have "served R ?m i k" "fst ?m ! i = Some k" using i d(1) by (simp_all add: served_def)
    moreover have "snd m ! l = Some j \<or> j = i \<and> l = k" if "l < N" "snd ?m ! l = Some j" for l j
      using that d(2) by (cases "l = k") (simp_all add: mm)
    ultimately show ?thesis by (intro exI [of _ ?m]) simp
  next
    case False
    then have "wave_cell R N N i (k, m) = Some ((k + 1) mod N, m)" unfolding wave_cell_def mm using k by auto
    moreover have "served R m i k" using False by (auto simp: served_def mm)
    moreover have "snd m ! k = None \<and> m0 ! i = None \<and> R ! i = Some k \<longrightarrow> fst m ! i = Some k"
      using d(4) [OF i] False by (cases "inm ! i") (auto simp: mm)
    ultimately show ?thesis using m by (intro exI [of _ m]) (simp add: extends_refl)
  qed
qed

text \<open>A diagonal, cell by cell; \<open>d\<close> is where it starts.\<close>

lemma wave_diagonal_cells:
  assumes "matching R m0 N m" and "0 < N" and "j \<le> length m0"
  shows "\<exists>m'. foldM (wave_cell R N N) [0..<j] (d mod N, m) = Some ((d + j) mod N, m') \<and> matching R m0 N m' \<and>
    extends (fst m) (fst m') \<and> extends (snd m) (snd m') \<and> (\<forall>i < j. served R m' i ((d + i) mod N))"
  using assms(3)
proof (induction j)
  case 0
  then show ?case using assms(1) by (simp add: extends_refl)
next
  case (Suc j)
  then obtain m1 where m1: "foldM (wave_cell R N N) [0..<j] (d mod N, m) = Some ((d + j) mod N, m1)" "matching R m0 N m1"
    "extends (fst m) (fst m1)" "extends (snd m) (snd m1)" "\<forall>i < j. served R m1 i ((d + i) mod N)" using Suc.IH Suc_leD [OF Suc.prems] by blast
  have k: "(d + j) mod N < N" and j: "j < length m0" using assms(2) Suc.prems by simp_all
  obtain m2 where m2: "wave_cell R N N j ((d + j) mod N, m1) = Some (((d + j) mod N + 1) mod N, m2)" "matching R m0 N m2"
    "extends (fst m1) (fst m2)" "extends (snd m1) (snd m2)" "served R m2 j ((d + j) mod N)"
    using wave_cell_ok [OF m1(2) k j] by blast
  have "served R m2 i ((d + i) mod N)" if "i < Suc j" for i
  proof (cases "i = j")
    case False
    then show ?thesis
      using served_extends [of R m1 i "(d + i) mod N" m2] m1(5) m2(3,4) that assms(2) Suc.prems matchingD(1,2) [OF m1(2)] by simp
  qed (simp add: m2(5))
  moreover have "extends (fst m) (fst m2)" "extends (snd m) (snd m2)"
    using extends_trans m1(3,4) m2(3,4) by blast+
  ultimately show ?case using m1(1) m2(1,2) by (simp add: foldM_append mod_simps)
qed

text \<open>On the first diagonal nothing is in the way.\<close>

lemma first_diagonal:
  assumes "matching R m0 N m" and "0 < N" and "j \<le> length m0" and "length m0 \<le> N" and none: "\<forall>k < N. snd m ! k = None"
  shows "\<exists>m'. foldM (wave_cell R N N) [0..<j] (d mod N, m) = Some ((d + j) mod N, m') \<and> matching R m0 N m' \<and>
    (\<forall>k < N. \<forall>i. snd m' ! k = Some i \<longrightarrow> i < j \<and> k = (d + i) mod N) \<and>
    (\<forall>i < j. m0 ! i = None \<and> R ! i = Some ((d + i) mod N) \<longrightarrow> fst m' ! i = Some ((d + i) mod N))"
  using assms(3)
proof (induction j)
  case 0
  then show ?case using assms(1) none by simp
next
  case (Suc j)
  let ?k = "(d + j) mod N"
  obtain m1 where m1: "foldM (wave_cell R N N) [0..<j] (d mod N, m) = Some (?k, m1)" "matching R m0 N m1"
    "\<forall>k < N. \<forall>i. snd m1 ! k = Some i \<longrightarrow> i < j \<and> k = (d + i) mod N"
    "\<forall>i < j. m0 ! i = None \<and> R ! i = Some ((d + i) mod N) \<longrightarrow> fst m1 ! i = Some ((d + i) mod N)"
    using Suc.IH Suc_leD [OF Suc.prems] by blast
  have jN: "j < N" and k: "?k < N" and j: "j < length m0" using Suc.prems assms(2,4) by simp_all
  have free: "snd m1 ! ?k = None"
  proof (cases "snd m1 ! ?k")
    case (Some i)
    then have i: "i < j" "(d + j) mod N = (d + i) mod N" using m1(3) assms(2) by (blast intro: mod_less_divisor)+
    then have "j = i" using jN by (intro shifted_mod_eq [of d j N i]) simp_all
    with i(1) show ?thesis by simp
  qed
  obtain m2 where m2: "wave_cell R N N j (?k, m1) = Some ((?k + 1) mod N, m2)" "matching R m0 N m2"
    "extends (fst m1) (fst m2)" "\<forall>l < N. \<forall>i. snd m2 ! l = Some i \<longrightarrow> snd m1 ! l = Some i \<or> (i = j \<and> l = ?k)"
    "m0 ! j = None \<and> R ! j = Some ?k \<longrightarrow> fst m2 ! j = Some ?k"
    using wave_cell_ok [OF m1(2) k j] free by blast
  have "fst m2 ! i = Some ((d + i) mod N)" if i: "i < Suc j" "m0 ! i = None" "R ! i = Some ((d + i) mod N)" for i
  proof (cases "i = j")
    case False
    then have "fst m1 ! i = Some ((d + i) mod N)" using i m1(4) by simp
    then show ?thesis using extendsD [OF m2(3)] matchingD(1) [OF m1(2)] i(1) Suc.prems by simp
  qed (use i m2(5) in simp)
  moreover have "i < Suc j \<and> k = (d + i) mod N" if k: "k < N" "snd m2 ! k = Some i" for k i
    using m2(4) [rule_format, OF k] m1(3) [rule_format, OF k(1)] by auto
  ultimately show ?case using m1(1) m2(1,2) by (simp add: foldM_append mod_simps)
qed

text \<open>Every cell of the matrix lies on a diagonal.\<close>

lemma shifted_mod_surj:
  fixes d k N :: nat
  assumes "0 < N" and "k < N"
  shows "\<exists>p < N. (d + p) mod N = k"
proof -
  have "(\<lambda>p. (d + p) mod N) ` {..<N} = {..<N}"
  proof (rule endo_inj_surj)
    show "(\<lambda>p. (d + p) mod N) ` {..<N} \<subseteq> {..<N}" using assms(1) by auto
    show "inj_on (\<lambda>p. (d + p) mod N) {..<N}" 
    proof (rule inj_onI)
      show "p = q" if "p \<in> {..<N}" "q \<in> {..<N}" "(d + p) mod N = (d + q) mod N" for p q
        using shifted_mod_eq [OF that(3)] that(1,2) by simp
    qed
  qed simp
  moreover have "k \<in> {..<N}" using assms(2) by simp
  ultimately have "k \<in> (\<lambda>p. (d + p) mod N) ` {..<N}" by (simp only:)
  then show ?thesis by auto
qed

lemma wave_diagonal_ok:
  assumes "matching R m0 N m" and "0 < N"
  shows "\<exists>m'. wave_diagonal R (length m0) N N d p m = Some m' \<and> matching R m0 N m' \<and>
    extends (fst m) (fst m') \<and> extends (snd m) (snd m') \<and> (\<forall>i < length m0. served R m' i ((d + p + i) mod N))"
  using wave_diagonal_cells [OF assms order_refl, of "d + p"] by (auto simp: wave_diagonal_def)

definition priority_served :: "nat option list \<Rightarrow> nat option list \<Rightarrow> nat \<Rightarrow> nat \<Rightarrow> nat option list \<times> nat option list \<Rightarrow> bool" where
  "priority_served R m0 N d m \<longleftrightarrow>
     (\<forall>i < length m0. m0 ! i = None \<and> R ! i = Some ((d + i) mod N) \<longrightarrow> fst m ! i = Some ((d + i) mod N))"

lemma priority_served_extends:
  "priority_served R m0 N d m \<Longrightarrow> extends (fst m) (fst m') \<Longrightarrow> length (fst m) = length m0 \<Longrightarrow> priority_served R m0 N d m'"
  unfolding priority_served_def by (simp add: extendsD)

lemma wavefront_rounds:
  assumes "0 < N" and "length m0 \<le> N" and "0 < P"
  shows "\<exists>m. foldM (wave_diagonal R (length m0) N N d) [0..<P] (m0, replicate N None) = Some m \<and> matching R m0 N m \<and>
    (\<forall>p < P. \<forall>i < length m0. served R m i ((d + p + i) mod N)) \<and> priority_served R m0 N d m"
  using assms(3)
proof (induction P)
  case (Suc P)
  have start: "matching R m0 N (m0, replicate N None)" by (rule matchingI) auto
  show ?case
  proof (cases P)
    case 0
    obtain m1 where m1: "wave_diagonal R (length m0) N N d 0 (m0, replicate N None) = Some m1" "matching R m0 N m1"
      "\<forall>i < length m0. served R m1 i ((d + 0 + i) mod N)" using wave_diagonal_ok [OF start assms(1)] by blast
    obtain m2 where "foldM (wave_cell R N N) [0..<length m0] (d mod N, m0, replicate N None) = Some ((d + length m0) mod N, m2)"
      "\<forall>i < length m0. m0 ! i = None \<and> R ! i = Some ((d + i) mod N) \<longrightarrow> fst m2 ! i = Some ((d + i) mod N)"
      using first_diagonal [OF start assms(1) order_refl assms(2), where d = d] by auto
    then have "priority_served R m0 N d m1" using m1(1) by (simp add: wave_diagonal_def priority_served_def)
    then show ?thesis using m1 0 by (intro exI [of _ m1]) simp
  next
    case (Suc P')
    then obtain m1 where m1: "foldM (wave_diagonal R (length m0) N N d) [0..<P] (m0, replicate N None) = Some m1"
      "matching R m0 N m1" "\<forall>p < P. \<forall>i < length m0. served R m1 i ((d + p + i) mod N)" "priority_served R m0 N d m1"
      using Suc.IH by auto
    obtain m2 where m2: "wave_diagonal R (length m0) N N d P m1 = Some m2" "matching R m0 N m2"
      "extends (fst m1) (fst m2)" "extends (snd m1) (snd m2)" "\<forall>i < length m0. served R m2 i ((d + P + i) mod N)"
      using wave_diagonal_ok [OF m1(2) assms(1)] by blast
    note len = matchingD(1,2) [OF m1(2)]
    have "served R m2 i ((d + p + i) mod N)" if "p < Suc P" "i < length m0" for p i
      using that m1(3) m2(5) served_extends [OF _ m2(3,4), of R i "(d + p + i) mod N"] len assms(1)
      by (cases "p = P") simp_all
    moreover have "priority_served R m0 N d m2" by (rule priority_served_extends [OF m1(4) m2(3) len(1)])
    ultimately show ?thesis using m1(1) m2(1,2) by (simp add: foldM_append)
  qed
qed simp

lemma wavefront_ok:
  assumes "0 < N" and "length m0 \<le> N"
  shows "\<exists>m. wavefront R (length m0) N N d m0 = Some m \<and> matching R m0 N m \<and>
    (\<forall>i < length m0. \<forall>k < N. served R m i k) \<and> priority_served R m0 N d m"
proof -
  obtain m where m: "foldM (wave_diagonal R (length m0) N N d) [0..<N] (m0, replicate N None) = Some m" "matching R m0 N m"
    "\<forall>p < N. \<forall>i < length m0. served R m i ((d + p + i) mod N)" "priority_served R m0 N d m"
    using wavefront_rounds [OF assms assms(1)] by blast
  have "served R m i k" if i: "i < length m0" and k: "k < N" for i k
  proof -
    obtain p where "p < N" "(d + i + p) mod N = k" using shifted_mod_surj [OF assms(1) k, of "d + i"] by blast
    moreover have "d + i + p = d + p + i" by simp
    ultimately show ?thesis using m(3) i by metis
  qed
  then show ?thesis using m by (auto simp: wavefront_def)
qed

text \<open>With fewer outputs than inputs the first diagonal leaves the matrix.\<close>

lemma wave_cells_inside:
  "foldM (wave_cell R outputs sq) [0..<j] (d mod sq, m) = Some (k, m') \<Longrightarrow> k = (d + j) mod sq \<and> (\<forall>i < j. (d + i) mod sq < outputs)"
proof (induction j arbitrary: k m')
  case (Suc j)
  then obtain k1 m1 where 1: "foldM (wave_cell R outputs sq) [0..<j] (d mod sq, m) = Some (k1, m1)"
    and 2: "wave_cell R outputs sq j (k1, m1) = Some (k, m')" by (auto simp: foldM_append bind_eq_Some_iff)
  from 2 have "k1 < outputs" "k = (k1 + 1) mod sq"
    by (auto simp: wave_cell_def split: prod.splits if_splits)
  then show ?case using Suc.IH [OF 1] by (auto simp: mod_simps less_Suc_eq)
qed simp

lemma wavefront_leaves:
  assumes "outputs < inputs"
  shows "wavefront R inputs outputs inputs d m0 = None"
proof -
  have "wave_diagonal R inputs outputs inputs d 0 m = None" for m
  proof (cases "foldM (wave_cell R outputs inputs) [0..<inputs] (d mod inputs, m)")
    case (Some x)
    then have "\<forall>i < inputs. (d + i) mod inputs < outputs" using wave_cells_inside [of R outputs inputs inputs d m "fst x" "snd x"] by simp
    moreover obtain p where "p < inputs" "(d + p) mod inputs = outputs" using shifted_mod_surj [of inputs outputs d] assms by auto
    ultimately show ?thesis by auto
  qed (simp add: wave_diagonal_def)
  moreover have "[0..<inputs] = 0 # [1..<inputs]" using assms by (simp add: upt_rec)
  ultimately show ?thesis unfolding wavefront_def by simp
qed

subsection \<open>The arbiter\<close>

text \<open>The unit that the oldest read of a bank is for; \<open>G\<close> are the banks whose oldest read is granted.\<close>

definition head_unit :: "arbiter_t \<Rightarrow> nat \<Rightarrow> nat option" where
  "head_unit a b = (case ar_queue a ! b of [] \<Rightarrow> None | op # _ \<Rightarrow> get_oc_id op)"

definition arbiter_ok :: "arbiter_t \<Rightarrow> bool" where
  "arbiter_ok a \<longleftrightarrow> length (ar_queue a) = ar_num_banks a \<and> length (ar_allocated a) = ar_num_banks a \<and>
     0 < ar_num_banks a \<and> ar_num_banks a \<le> ar_num_collectors a \<and>
     (\<forall>q \<in> set (ar_queue a). \<forall>op \<in> set q. \<exists>k < ar_num_collectors a. op_owner op = Unit_of k)"

definition maximal_matching :: "arbiter_t \<Rightarrow> nat set \<Rightarrow> bool" where
  "maximal_matching a G \<longleftrightarrow>
     (\<forall>b \<in> G. b < ar_num_banks a \<and> ar_queue a ! b \<noteq> [] \<and> \<not> is_write (ar_allocated a ! b)) \<and>
     inj_on (head_unit a) G \<and>
     (\<forall>b < ar_num_banks a. ar_queue a ! b \<noteq> [] \<and> \<not> is_write (ar_allocated a ! b) \<longrightarrow> head_unit a b \<in> head_unit a ` G) \<and>
     (\<forall>b < ar_num_banks a. \<not> is_write (ar_allocated a ! b) \<and>
        head_unit a b = Some ((ar_last_cu a + b) mod ar_num_collectors a) \<longrightarrow> b \<in> G)"

definition grant_reads :: "nat list \<Rightarrow> arbiter_t \<Rightarrow> arbiter_t" where
  "grant_reads G a = a\<lparr>ar_last_cu := (ar_last_cu a + 1) mod ar_num_collectors a,
     ar_queue := map (\<lambda>b. if b \<in> set G then tl (ar_queue a ! b) else ar_queue a ! b) [0..<ar_num_banks a]\<rparr>"

lemma foldM_collect:
  "(\<And>x. x \<in> set xs \<Longrightarrow> f x = Some (g x)) \<Longrightarrow> foldM (\<lambda>x rs. do { r \<leftarrow> f x; Some (rs @ [r]) }) xs acc = Some (acc @ map g xs)"
  by (induction xs arbitrary: acc) auto

lemma head_unit_cases:
  assumes "arbiter_ok a" and "b < ar_num_banks a"
  shows "(head_unit a b = None \<longleftrightarrow> ar_queue a ! b = [])" and "head_unit a b = Some k \<Longrightarrow> k < ar_num_collectors a"
proof -
  have m: "ar_queue a ! b \<in> set (ar_queue a)" using assms by (simp add: arbiter_ok_def)
  show "head_unit a b = None \<longleftrightarrow> ar_queue a ! b = []"
  proof (cases "ar_queue a ! b")
    case (Cons op ops)
    then obtain l where "op_owner op = Unit_of l" using assms(1) m unfolding arbiter_ok_def by fastforce
    then show ?thesis using Cons by (simp add: head_unit_def)
  qed (simp add: head_unit_def)
  assume h: "head_unit a b = Some k"
  show "k < ar_num_collectors a"
  proof (cases "ar_queue a ! b")
    case (Cons op ops)
    then obtain l where "op_owner op = Unit_of l" "l < ar_num_collectors a" using assms(1) m unfolding arbiter_ok_def by fastforce
    then show ?thesis using h Cons by (simp add: head_unit_def)
  qed (use h in \<open>simp add: head_unit_def\<close>)
qed

lemma bank_requests_eq:
  assumes "arbiter_ok a"
  shows "bank_requests a = Some (map (head_unit a) [0..<ar_num_banks a])"
proof -
  have "bank_request a i = Some (head_unit a i)" if i: "i < ar_num_banks a" for i
  proof (cases "ar_queue a ! i")
    case (Cons op ops)
    then obtain k where k: "head_unit a i = Some k" using head_unit_cases(1) [OF assms i] by fastforce
    then have "get_oc_id op = Some k" using Cons by (simp add: head_unit_def)
    then show ?thesis using head_unit_cases(2) [OF assms i k] k Cons by (simp add: bank_request_def del: get_oc_id.simps)
  qed (simp add: bank_request_def head_unit_def)
  then show ?thesis unfolding bank_requests_def by (subst foldM_collect [where g = "head_unit a"]) auto
qed

lemma pop_loop:
  assumes "\<And>b. b < j \<Longrightarrow> g b \<longleftrightarrow> im ! b \<noteq> None \<and> \<not> is_write (ar_allocated a ! b)"
    and "\<And>b. b < j \<Longrightarrow> g b \<Longrightarrow> ar_queue a ! b \<noteq> []" and "j \<le> length (ar_queue a)"
  shows "foldM (pop_granted im) [0..<j] ([], a) = Some (map (\<lambda>b. hd (ar_queue a ! b)) (filter g [0..<j]),
    a\<lparr>ar_queue := map (\<lambda>b. if b < j \<and> g b then tl (ar_queue a ! b) else ar_queue a ! b) [0..<length (ar_queue a)]\<rparr>)"
  using assms
proof (induction j)
  case 0
  then show ?case by (simp add: map_nth)
next
  case (Suc j)
  let ?q = "\<lambda>j. map (\<lambda>b. if b < j \<and> g b then tl (ar_queue a ! b) else ar_queue a ! b) [0..<length (ar_queue a)]"
  have IH: "foldM (pop_granted im) [0..<j] ([], a) =
      Some (map (\<lambda>b. hd (ar_queue a ! b)) (filter g [0..<j]), a\<lparr>ar_queue := ?q j\<rparr>)"
    using Suc.prems by (intro Suc.IH) auto
  show ?case
  proof (cases "g j")
    case True
    then obtain op ops where q: "ar_queue a ! j = op # ops" using Suc.prems(2) [of j] by (cases "ar_queue a ! j") auto
    have "(?q j)[j := ops] = ?q (Suc j)" using q True Suc.prems(3) by (auto intro!: nth_equalityI simp: nth_list_update less_Suc_eq)
    then have "pop_granted im j (rs, a\<lparr>ar_queue := ?q j\<rparr>) = Some (rs @ [op], a\<lparr>ar_queue := ?q (Suc j)\<rparr>)" for rs
      using q True Suc.prems(1) [of j] Suc.prems(3) by (simp add: pop_granted_def)
    then show ?thesis using IH q True by (simp add: foldM_append)
  next
    case False
    have "?q j = ?q (Suc j)" using False by (auto simp: less_Suc_eq)
    then have "pop_granted im j (rs, a\<lparr>ar_queue := ?q j\<rparr>) = Some (rs, a\<lparr>ar_queue := ?q (Suc j)\<rparr>)" for rs
      using False Suc.prems(1) [of j] by (auto simp: pop_granted_def)
    then show ?thesis using IH False by (simp add: foldM_append)
  qed
qed

lemma arbiter_allocate_reads_eq:
  assumes "arbiter_ok a"
  shows "\<exists>G. sorted G \<and> distinct G \<and> maximal_matching a (set G) \<and>
    arbiter_allocate_reads a = Some (map (\<lambda>b. hd (ar_queue a ! b)) G, grant_reads G a)"
proof -
  let ?n = "ar_num_banks a" and ?N = "ar_num_collectors a" and ?R = "map (head_unit a) [0..<ar_num_banks a]"
  let ?w = "\<lambda>b. is_write (ar_allocated a ! b)"
  let ?m0 = "map (\<lambda>i. if ?w i then Some 0 else None) [0..<?n]"
  have n: "0 < ?N" "?n \<le> ?N" "max ?n ?N = ?N" "length (ar_queue a) = ?n" using assms unfolding arbiter_ok_def by auto
  have l0: "length ?m0 = ?n" by simp
  obtain m where m: "wavefront ?R ?n ?N ?N (ar_last_cu a) ?m0 = Some m" "matching ?R ?m0 ?N m"
    "\<forall>i < ?n. \<forall>k < ?N. served ?R m i k" "priority_served ?R ?m0 ?N (ar_last_cu a) m"
    using wavefront_ok [of ?N ?m0 ?R "ar_last_cu a"] n(1,2) l0 by metis
  note d = matchingD [OF m(2), unfolded l0]
  define g where "g b \<longleftrightarrow> fst m ! b \<noteq> None \<and> \<not> ?w b" for b
  define G where "G = filter g [0..<?n]"
  have G: "b \<in> set G \<longleftrightarrow> b < ?n \<and> \<not> ?w b \<and> (\<exists>k. fst m ! b = Some k)" for b by (auto simp: G_def g_def)
  have gr: "k < ?N \<and> head_unit a b = Some k \<and> snd m ! k = Some b" if "b < ?n" "\<not> ?w b" "fst m ! b = Some k" for b k
    using d(4) [OF that(1) _ that(3)] that(1,2) by simp
  have ne: "ar_queue a ! b \<noteq> []" if "b \<in> set G" for b
    using that gr [of b] head_unit_cases(1) [OF assms, of b] unfolding G by auto
  have "maximal_matching a (set G)"
    unfolding maximal_matching_def
  proof (intro conjI ballI allI impI)
    show "inj_on (head_unit a) (set G)"
    proof (rule inj_onI)
      fix b c assume bc: "b \<in> set G" "c \<in> set G" "head_unit a b = head_unit a c"
      then obtain k l where "snd m ! k = Some b" "head_unit a b = Some k" "snd m ! l = Some c" "head_unit a c = Some l"
        using gr unfolding G by blast
      then show "b = c" using bc(3) by simp
    qed
    fix b assume b: "b < ?n"
    {
      assume q: "ar_queue a ! b \<noteq> [] \<and> \<not> ?w b"
      then obtain k where k: "head_unit a b = Some k" "k < ?N" using head_unit_cases [OF assms b] by fastforce
      then have "fst m ! b \<noteq> None \<or> snd m ! k \<noteq> None" using m(3) b by (auto simp: served_def)
      then show "head_unit a b \<in> head_unit a ` set G"
      proof
        assume "fst m ! b \<noteq> None"
        then show ?thesis using b q by (auto simp: G)
      next
        assume "snd m ! k \<noteq> None"
        then obtain c where c: "snd m ! k = Some c" by auto
        from d(5) [OF k(2) c] have cn: "c < ?n" "\<not> ?w c" "fst m ! c = Some k" by (auto split: if_splits)
        then show ?thesis using gr [OF cn] k(1) by (metis G image_eqI)
      qed
    }
    assume "\<not> ?w b \<and> head_unit a b = Some ((ar_last_cu a + b) mod ?N)"
    then show "b \<in> set G" using m(4) b unfolding priority_served_def G by auto
  qed (use ne in \<open>auto simp: G\<close>)
  moreover have "arbiter_allocate_reads a = Some (map (\<lambda>b. hd (ar_queue a ! b)) G, grant_reads G a)"
  proof -
    let ?a = "a\<lparr>ar_last_cu := (ar_last_cu a + 1) mod ?N\<rparr>"
    have "foldM (pop_granted (fst m)) [0..<?n] ([], ?a) = Some (map (\<lambda>b. hd (ar_queue ?a ! b)) (filter g [0..<?n]),
        ?a\<lparr>ar_queue := map (\<lambda>b. if b < ?n \<and> g b then tl (ar_queue ?a ! b) else ar_queue ?a ! b) [0..<length (ar_queue ?a)]\<rparr>)"
      by (rule pop_loop) (use ne n in \<open>auto simp: g_def G\<close>)
    moreover have "(b < ?n \<and> g b) = (b \<in> set G)" for b by (auto simp: G_def)
    ultimately have "foldM (pop_granted (fst m)) [0..<?n] ([], ?a) = Some (map (\<lambda>b. hd (ar_queue a ! b)) G, grant_reads G a)"
      unfolding G_def [symmetric] grant_reads_def by (simp add: n(4))
    then show ?thesis
      unfolding arbiter_allocate_reads_def Let_def n(3) bank_requests_eq [OF assms] using n(1) m(1)
      by (simp add: case_prod_beta)
  qed
  ultimately show ?thesis by (intro exI [of _ G]) (simp add: G_def sorted_wrt_filter)
qed

subsection \<open>Waiting\<close>

text \<open>In how many rounds the priority diagonal reaches the oldest read of bank \<open>b\<close>.\<close>

definition read_turn :: "nat \<Rightarrow> arbiter_t \<Rightarrow> nat" where
  "read_turn b a = (case head_unit a b of None \<Rightarrow> 0
     | Some k \<Rightarrow> (k + ar_num_collectors a - (ar_last_cu a + b) mod ar_num_collectors a) mod ar_num_collectors a)"

text \<open>What the rest of a step may do between two rounds: the oldest read of the bank stays, and so does the priority.\<close>

definition same_head :: "nat \<Rightarrow> arbiter_t \<Rightarrow> arbiter_t \<Rightarrow> bool" where
  "same_head b a a' \<longleftrightarrow> ar_num_banks a' = ar_num_banks a \<and> ar_num_collectors a' = ar_num_collectors a \<and>
     ar_last_cu a' = ar_last_cu a \<and> ar_queue a ! b \<noteq> [] \<and> ar_queue a' ! b \<noteq> [] \<and> hd (ar_queue a' ! b) = hd (ar_queue a ! b)"

text \<open>\<open>read_waits b n a\<close>: the oldest read of bank \<open>b\<close> was refused in the last \<open>n\<close> rounds, in none of which the bank was written.\<close>

inductive read_waits :: "nat \<Rightarrow> nat \<Rightarrow> arbiter_t \<Rightarrow> bool" for b where
  start: "read_waits b 0 a"
| refused: "read_waits b n a \<Longrightarrow> same_head b a a1 \<Longrightarrow> arbiter_ok a1 \<Longrightarrow> \<not> is_write (ar_allocated a1 ! b) \<Longrightarrow>
    arbiter_allocate_reads a1 = Some (ops, a2) \<Longrightarrow> ar_queue a2 ! b = ar_queue a1 ! b \<Longrightarrow> read_waits b (Suc n) a2"

lemma rotate_turn:
  fixes k x N :: nat
  assumes "k < N" and "x < N" and "k \<noteq> x"
  shows "Suc ((k + N - (x + 1) mod N) mod N) = (k + N - x) mod N"
proof -
  consider "x < k" | "k < x" "x + 1 = N" | "k < x" "x + 1 < N" using assms by linarith
  then show ?thesis
  proof cases
    case 1
    then have "k + N - x = N + (k - x)" "k + N - (x + 1) = N + (k - (x + 1))" by simp_all
    then have "(k + N - x) mod N = k - x" "(k + N - (x + 1)) mod N = k - (x + 1)"
      using assms(1) by (simp_all only: mod_add_self1) simp_all
    then show ?thesis using 1 assms by simp
  qed (use assms in simp_all)
qed

lemma same_head_turn: "same_head b a a' \<Longrightarrow> read_turn b a' = read_turn b a"
  unfolding same_head_def read_turn_def head_unit_def by (auto split: list.splits op_owner.split)

lemma refused_turn:
  assumes ok: "arbiter_ok a" and b: "b < ar_num_banks a" "ar_queue a ! b \<noteq> []" "\<not> is_write (ar_allocated a ! b)"
    and r: "arbiter_allocate_reads a = Some (ops, a')" "ar_queue a' ! b = ar_queue a ! b"
  shows "Suc (read_turn b a') = read_turn b a" and "ar_num_collectors a' = ar_num_collectors a" and "ar_num_banks a' = ar_num_banks a"
proof -
  let ?N = "ar_num_collectors a" and ?x = "(ar_last_cu a + b) mod ar_num_collectors a"
  have N: "0 < ?N" using ok unfolding arbiter_ok_def by linarith
  obtain G where G: "maximal_matching a (set G)" "a' = grant_reads G a" using arbiter_allocate_reads_eq [OF ok] r(1) by auto
  have "b \<notin> set G"
  proof
    assume "b \<in> set G"
    then have "tl (ar_queue a ! b) = ar_queue a ! b" using r(2) b(1) by (simp add: G(2) grant_reads_def)
    then show False using b(2) by (metis list.exhaust_sel not_Cons_self2)
  qed
  then have "head_unit a b \<noteq> Some ?x" using G(1) b unfolding maximal_matching_def by blast
  moreover obtain k where k: "head_unit a b = Some k" "k < ?N" using head_unit_cases [OF ok b(1)] b(2) by fastforce
  moreover have "head_unit a' b = head_unit a b" using r(2) by (simp add: head_unit_def)
  moreover have "((ar_last_cu a + 1) mod ?N + b) mod ?N = (?x + 1) mod ?N" by (simp add: mod_simps)
  moreover show "ar_num_collectors a' = ?N" "ar_num_banks a' = ar_num_banks a" by (simp_all add: G(2) grant_reads_def)
  moreover have "ar_last_cu a' = (ar_last_cu a + 1) mod ?N" by (simp add: G(2) grant_reads_def)
  ultimately show "Suc (read_turn b a') = read_turn b a"
    using rotate_turn [of k ?N ?x] N by (simp add: read_turn_def)
qed

lemma read_waits_turn:
  "read_waits b n a \<Longrightarrow> 0 < ar_num_collectors a \<Longrightarrow> b < ar_num_banks a \<Longrightarrow> n + read_turn b a < ar_num_collectors a"
proof (induction rule: read_waits.induct)
  case (start a)
  then show ?case by (simp add: read_turn_def split: option.split)
next
  case (refused n a a1 ops a2)
  have h: "ar_num_banks a1 = ar_num_banks a" "ar_num_collectors a1 = ar_num_collectors a" "ar_queue a1 ! b \<noteq> []"
    using refused.hyps(2) by (simp_all add: same_head_def)
  have "ar_num_banks a2 = ar_num_banks a1"
    using arbiter_allocate_reads_eq [OF refused.hyps(3)] refused.hyps(5) by (auto simp: grant_reads_def)
  then have b: "b < ar_num_banks a1" using refused.prems(2) by simp
  note t = refused_turn [OF refused.hyps(3) b h(3) refused.hyps(4-6)]
  show ?case using refused.IH refused.prems t same_head_turn [OF refused.hyps(2)] h by simp
qed

subsection \<open>Too few collector units\<close>

lemma collector_dispatch_arbiter: "collector_dispatch k (regs, rf) = Some (regs', rf') \<Longrightarrow> rf_arbiter rf' = rf_arbiter rf"
  by (auto simp: collector_dispatch_def bind_eq_Some_iff split: if_splits)

lemma dispatch_arbiter:
  assumes "dispatch_ready_cu (regs, rf) = Some (regs', rf')"
  shows "rf_arbiter rf' = rf_arbiter rf"
proof -
  have "rf_arbiter (snd (regs', rf')) = rf_arbiter rf"
  proof (rule foldM_invariant [where P = "\<lambda>s. rf_arbiter (snd s) = rf_arbiter rf"])
    show "foldM dispatch_from [0..<length (rf_dispatch_units rf)] (regs, rf) = Some (regs', rf')"
      using assms by (simp add: dispatch_ready_cu_def)
    fix p :: nat and s t :: "stage_regs \<times> opndcoll_rfu"
    assume "rf_arbiter (snd s) = rf_arbiter rf" "dispatch_from p s = Some t"
    then show "rf_arbiter (snd t) = rf_arbiter rf"
      by (cases s; cases t)
        (auto simp: dispatch_from_def Let_def bind_eq_Some_iff dest!: collector_dispatch_arbiter split: option.splits if_splits)
  qed simp
  then show ?thesis by simp
qed

lemma opndcoll_new_arbiter:
  assumes "opndcoll_new blank c = Some rf"
  shows "ar_num_collectors (rf_arbiter rf) = (\<Sum>kind < 4. oc_num_units c ! kind)" and "ar_num_banks (rf_arbiter rf) = unat (oc_num_banks c)"
proof -
  obtain cus sets dus ports where
    f: "foldM (\<lambda>kind. add_cu_set blank kind (oc_num_units c ! kind) (oc_out_ports c ! kind)) [0..<4] ([], \<lambda>_. [], []) = Some (cus, sets, dus)"
    and i: "opndcoll_init (oc_num_banks c) (oc_warp_size c) cus sets dus ports = Some rf"
    using assms by (auto simp: opndcoll_new_def bind_eq_Some_iff simp del: upt_rec_numeral)
  have "length cus = length (fst s) + sum_list (map (\<lambda>k. oc_num_units c ! k) ks)"
    if "foldM (\<lambda>kind. add_cu_set blank kind (oc_num_units c ! kind) (oc_out_ports c ! kind)) ks s = Some (cus, sets, dus)" for cus sets dus ks s
    using that
    by (induction ks arbitrary: s) (auto simp: bind_eq_Some_iff add_cu_set_def split: if_splits)
  from this [OF f] have "length cus = (\<Sum>kind < 4. oc_num_units c ! kind)"
    by (simp add: interv_sum_list_conv_sum_set_nat lessThan_atLeast0 del: upt_rec_numeral)
  then show "ar_num_collectors (rf_arbiter rf) = (\<Sum>kind < 4. oc_num_units c ! kind)"
    "ar_num_banks (rf_arbiter rf) = unat (oc_num_banks c)"
    using i by (auto simp: opndcoll_init_def arbiter_init_def split: if_splits)
qed

lemma arbiter_allocate_reads_few: "ar_num_collectors a < ar_num_banks a \<Longrightarrow> arbiter_allocate_reads a = None"
  by (cases "bank_requests a") (simp_all add: arbiter_allocate_reads_def wavefront_leaves Let_def)

subsection \<open>Properties\<close>

text \<open>
  Property C18: the read arbitration of a cycle. With no more banks than collector units, the step reads the oldest
  request of some banks, in the order of the banks, and the rest of every queue keeps its order. No bank that is being
  written is read, no unit receives two operands, no further bank could be read (its unit is
  served already), and banks whose request lies on the priority diagonal are always read.
\<close>

theorem reads_are_maximal_matching:
  assumes "arbiter_ok a"
  shows "\<exists>G. sorted G \<and> distinct G \<and>
    arbiter_allocate_reads a = Some (map (\<lambda>b. hd (ar_queue a ! b)) G, grant_reads G a) \<and>
    (\<forall>b \<in> set G. b < ar_num_banks a \<and> ar_queue a ! b \<noteq> [] \<and> \<not> is_write (ar_allocated a ! b)) \<and>
    inj_on (head_unit a) (set G) \<and>
    (\<forall>b < ar_num_banks a. ar_queue a ! b \<noteq> [] \<and> \<not> is_write (ar_allocated a ! b) \<longrightarrow> head_unit a b \<in> head_unit a ` set G) \<and>
    (\<forall>b < ar_num_banks a. \<not> is_write (ar_allocated a ! b) \<and>
       head_unit a b = Some ((ar_last_cu a + b) mod ar_num_collectors a) \<longrightarrow> b \<in> set G)"
  using arbiter_allocate_reads_eq [OF assms] unfolding maximal_matching_def by blast

text \<open>Two banks ask for unit 1, and the priority diagonal favours the second.\<close>

definition demo_op :: "nat \<Rightarrow> nat \<Rightarrow> op_t" where
  "demo_op operand bank = \<lparr>op_owner = Unit_of 1, op_operand = operand, op_register = of_nat bank, op_bank = bank\<rparr>"

definition demo_arbiter :: arbiter_t where
  "demo_arbiter = \<lparr>ar_num_banks = 2, ar_num_collectors = 2, ar_allocated = [NO_ALLOC, NO_ALLOC],
     ar_queue = [[demo_op 0 0], [demo_op 1 1]], ar_last_cu = 0\<rparr>"

lemma demo_arbiter_ok: "arbiter_ok demo_arbiter"
  by (simp add: arbiter_ok_def demo_arbiter_def demo_op_def)

theorem reads_are_maximal_matching_witness:
  "\<exists>G. arbiter_allocate_reads demo_arbiter = Some (map (\<lambda>b. hd (ar_queue demo_arbiter ! b)) G, grant_reads G demo_arbiter) \<and> set G = {1}"
proof -
  obtain G where G: "arbiter_allocate_reads demo_arbiter = Some (map (\<lambda>b. hd (ar_queue demo_arbiter ! b)) G, grant_reads G demo_arbiter)"
    "\<forall>b \<in> set G. b < ar_num_banks demo_arbiter" "inj_on (head_unit demo_arbiter) (set G)"
    "\<forall>b < ar_num_banks demo_arbiter. \<not> is_write (ar_allocated demo_arbiter ! b) \<and>
       head_unit demo_arbiter b = Some ((ar_last_cu demo_arbiter + b) mod ar_num_collectors demo_arbiter) \<longrightarrow> b \<in> set G"
    using reads_are_maximal_matching [OF demo_arbiter_ok] by blast
  have h: "head_unit demo_arbiter 0 = Some 1" "head_unit demo_arbiter 1 = Some 1"
    by (simp_all add: head_unit_def demo_arbiter_def demo_op_def)
  have "1 \<in> set G" using G(4) h(2) by (simp add: demo_arbiter_def)
  moreover have "0 \<notin> set G" using inj_onD [OF G(3), of 0 1] h calculation by auto
  moreover have "set G \<subseteq> {0, 1}" using G(2) by (auto simp: demo_arbiter_def less_2_cases_iff)
  ultimately show ?thesis using G(1) by (intro exI [of _ G]) auto
qed

text \<open>
  Property C22: no read starves. In consecutive rounds without a write to its bank, the oldest read of a bank is refused
  fewer times than there are collector units, whatever requests the other banks receive.
\<close>

theorem read_wait_bounded:
  assumes "read_waits b n a" and "0 < ar_num_collectors a" and "b < ar_num_banks a"
  shows "n < ar_num_collectors a"
  using read_waits_turn [OF assms] by simp

theorem read_wait_bounded_witness:
  "\<exists>ops a. arbiter_allocate_reads demo_arbiter = Some (ops, a) \<and> read_waits 0 1 a \<and> 1 < ar_num_collectors a"
proof -
  have "case arbiter_allocate_reads demo_arbiter of None \<Rightarrow> False
      | Some (ops, a) \<Rightarrow> ar_queue a ! 0 = ar_queue demo_arbiter ! 0 \<and> 0 < ar_num_collectors a \<and> 0 < ar_num_banks a" by code_simp
  then obtain ops a where r: "arbiter_allocate_reads demo_arbiter = Some (ops, a)" "ar_queue a ! 0 = ar_queue demo_arbiter ! 0"
    and p: "0 < ar_num_collectors a" "0 < ar_num_banks a" by (auto split: option.splits)
  have "read_waits 0 (Suc 0) a"
    by (rule read_waits.refused [OF read_waits.start [of 0 demo_arbiter] _ demo_arbiter_ok _ r])
      (simp_all add: same_head_def demo_arbiter_def)
  then show ?thesis using read_wait_bounded [of 0 "Suc 0" a] r(1) p by auto
qed

text \<open>
  Property C23: a core whose collector units are fewer than its register banks aborts in the first cycle of the operand
  collector, whatever its registers hold: the allocator asserts that every diagonal stays inside the matrix of
  banks and units before it tests exactly that.
\<close>

theorem few_collectors_abort:
  assumes "opndcoll_new blank c = Some rf" and "(\<Sum>kind < 4. oc_num_units c ! kind) < unat (oc_num_banks c)"
  shows "collector_step (regs, rf) = None"
proof -
  have "ar_num_collectors (rf_arbiter rf) < ar_num_banks (rf_arbiter rf)"
    using assms(2) by (simp add: opndcoll_new_arbiter [OF assms(1)])
  moreover have "allocate_reads rf' = None" if "rf_arbiter rf' = rf_arbiter rf" for rf'
    using arbiter_allocate_reads_few [of "rf_arbiter rf'"] calculation that by (simp add: allocate_reads_def)
  ultimately show ?thesis
    by (cases "dispatch_ready_cu (regs, rf)") (auto simp: collector_step_def dest: dispatch_arbiter)
qed

text \<open>The default configuration with 16 banks instead of 8.\<close>

definition demo_config :: collector_config where
  "demo_config = \<lparr>oc_num_units = [4, 4, 2, 0], oc_out_ports = [1, 1, 1, 0], oc_in_ports = [1, 1, 1, 0], oc_num_banks = 16, oc_warp_size = 32\<rparr>"

definition blank_pipe_inst :: pipe_inst where
  "blank_pipe_inst = program_inst \<lparr>st_bar = \<lparr>bi_type = NOT_BAR, bi_id = 0, bi_count = 0\<rparr>, st_reconvergence_pc = 0,
     st_latency = 1, st_initiation_interval = 1, st_decoded = False, st_src = [], st_dst = []\<rparr>
   \<lparr>i_pc = 0, i_isize = 0, i_op = NO_OP, i_memory_op = no_memory_op, i_out = [], i_in = [], i_pred = 0, i_ar1 = 0,
     i_ar2 = 0, i_space = undefined_space, i_data_size = 0, i_warp_id = 0\<rparr>"

lemma demo_config_new: "\<exists>rf. opndcoll_new blank_pipe_inst demo_config = Some rf"
proof -
  have "case opndcoll_new blank_pipe_inst demo_config of None \<Rightarrow> False | Some _ \<Rightarrow> True" by code_simp
  then show ?thesis by (auto split: option.splits)
qed

theorem few_collectors_abort_witness:
  "\<exists>rf. opndcoll_new blank_pipe_inst demo_config = Some rf \<and> collector_step (\<lambda>_. [], rf) = None"
proof -
  obtain rf where rf: "opndcoll_new blank_pipe_inst demo_config = Some rf" using demo_config_new by blast
  have "(\<Sum>kind < 4. oc_num_units demo_config ! kind) < unat (oc_num_banks demo_config)"
    by code_simp
  then show ?thesis using few_collectors_abort [OF rf] rf by blast
qed

end
