(* ===== verification/Operand_Runs.thy ===== *)
theory Operand_Runs
  imports Operand_Reads
begin

text \<open>
  A step of the operand collector is safe: its invariant ties the operands a unit still misses to the
  requests in the queues of the arbiter, one for one, and every instruction that enters a unit leaves it once,
  after its last operand was read.
\<close>

subsection \<open>The invariant\<close>

definition collector_ok :: "collector_unit \<Rightarrow> bool" where
  "collector_ok cu \<longleftrightarrow> length (cu_src cu) = MAX_REG_OPERANDS * 2 \<and> cu_not_ready cu \<subseteq> {..<MAX_REG_OPERANDS} \<and>
     (\<forall>i < MAX_REG_OPERANDS * 2. MAX_REG_OPERANDS \<le> i \<longrightarrow> cu_src cu ! i = None) \<and>
     (if cu_free cu then cu_not_ready cu = {} \<and> pi_empty (cu_warp cu) else cu_output cu \<noteq> None \<and> \<not> pi_empty (cu_warp cu))"

definition op_key :: "op_t \<Rightarrow> op_owner \<times> nat" where
  "op_key op = (op_owner op, op_operand op)"

text \<open>A request in bank \<open>b\<close> is for an operand its unit misses and stands in the bank of its register.\<close>

definition request_ok :: "opndcoll_rfu \<Rightarrow> nat \<Rightarrow> op_t \<Rightarrow> bool" where
  "request_ok rf b op \<longleftrightarrow> (\<exists>k < length (rf_cu rf). op_owner op = Unit_of k \<and> op_operand op \<in> cu_not_ready (rf_cu rf ! k) \<and>
     register_bank (op_register op) (cu_warp_id (rf_cu rf ! k)) (rf_num_banks rf) (rf_bank_warp_shift rf) = b)"

definition queues_ok :: "opndcoll_rfu \<Rightarrow> bool" where
  "queues_ok rf \<longleftrightarrow> (\<forall>b < length (ar_queue (rf_arbiter rf)). \<forall>op \<in> set (ar_queue (rf_arbiter rf) ! b). request_ok rf b op) \<and>
     distinct (map op_key (concat (ar_queue (rf_arbiter rf)))) \<and>
     (\<forall>k < length (rf_cu rf). \<forall>i \<in> cu_not_ready (rf_cu rf ! k). (Unit_of k, i) \<in> op_key ` set (concat (ar_queue (rf_arbiter rf))))"

definition sizes_ok :: "opndcoll_rfu \<Rightarrow> bool" where
  "sizes_ok rf \<longleftrightarrow> (let a = rf_arbiter rf in length (ar_queue a) = ar_num_banks a \<and> length (ar_allocated a) = ar_num_banks a \<and>
     0 < ar_num_banks a \<and> ar_num_banks a \<le> ar_num_collectors a \<and> ar_num_banks a = unat (rf_num_banks rf) \<and>
     ar_num_collectors a = length (rf_cu rf)) \<and>
     (\<forall>j. \<forall>k \<in> set (rf_cus rf j). k < length (rf_cu rf)) \<and>
     (\<forall>du \<in> set (rf_dispatch_units rf). du_num du = length (rf_cus rf (du_set du)))"

definition units_ok :: "opndcoll_rfu \<Rightarrow> bool" where
  "units_ok rf \<longleftrightarrow> sizes_ok rf \<and> (\<forall>cu \<in> set (rf_cu rf). collector_ok cu) \<and> queues_ok rf"

text \<open>Between steps no bank is held by a read.\<close>

definition rf_ok :: "opndcoll_rfu \<Rightarrow> bool" where
  "rf_ok rf \<longleftrightarrow> units_ok rf \<and> (\<forall>x \<in> set (ar_allocated (rf_arbiter rf)). \<not> is_read x)"

lemma units_okD:
  assumes "units_ok rf" and "k < length (rf_cu rf)"
  shows "collector_ok (rf_cu rf ! k)"
  using assms by (simp add: units_ok_def)

lemma request_okD:
  assumes "queues_ok rf" and "b < length (ar_queue (rf_arbiter rf))" and "op \<in> set (ar_queue (rf_arbiter rf) ! b)"
  shows "request_ok rf b op"
  using assms by (simp add: queues_ok_def)

lemma queues_okI:
  assumes "ar_queue (rf_arbiter rf) = q" and "\<And>b op. b < length q \<Longrightarrow> op \<in> set (q ! b) \<Longrightarrow> request_ok rf b op"
    and "distinct (map op_key (concat q))"
    and "\<And>k i. k < length (rf_cu rf) \<Longrightarrow> i \<in> cu_not_ready (rf_cu rf ! k) \<Longrightarrow> (Unit_of k, i) \<in> op_key ` set (concat q)"
  shows "queues_ok rf"
  using assms unfolding queues_ok_def by blast

lemma units_ok_arbiter:
  assumes "units_ok rf"
  shows "arbiter_ok (rf_arbiter rf)"
proof -
  have s: "sizes_ok rf" and q: "queues_ok rf" using assms by (simp_all add: units_ok_def)
  have "\<exists>k < ar_num_collectors (rf_arbiter rf). op_owner op = Unit_of k"
    if qs: "qs \<in> set (ar_queue (rf_arbiter rf))" and op: "op \<in> set qs" for qs op
  proof -
    obtain b where "b < length (ar_queue (rf_arbiter rf))" "ar_queue (rf_arbiter rf) ! b = qs"
      using qs by (auto simp: in_set_conv_nth)
    then have "request_ok rf b op" using request_okD [OF q] op by simp
    then show ?thesis using s by (auto simp: request_ok_def sizes_ok_def Let_def)
  qed
  then show ?thesis using s unfolding arbiter_ok_def sizes_ok_def Let_def by blast
qed

lemma register_bank_less: "0 < unat num_banks \<Longrightarrow> register_bank r w num_banks s < unat num_banks"
  by (simp add: register_bank_def unat_mod)

subsection \<open>The instructions held\<close>

definition occupants :: "pipe_inst list \<Rightarrow> pipe_inst multiset" where
  "occupants ps = mset (filter (\<lambda>p. \<not> pi_empty p) ps)"

definition stages :: "pipeline_stage_name_t list" where
  "stages = [ID_OC_SP, ID_OC_SFU, ID_OC_MEM, OC_EX_SP, OC_EX_SFU, OC_EX_MEM, EX_WB]"

definition in_stages :: "stage_regs \<Rightarrow> pipe_inst multiset" where
  "in_stages regs = (\<Sum>st \<leftarrow> stages. occupants (regs st))"

definition in_units :: "opndcoll_rfu \<Rightarrow> pipe_inst multiset" where
  "in_units rf = occupants (map cu_warp (rf_cu rf))"

text \<open>The instructions whose operands have all been read.\<close>

definition complete :: "opndcoll_rfu \<Rightarrow> pipe_inst multiset" where
  "complete rf = occupants (map cu_warp (filter (\<lambda>cu. cu_not_ready cu = {}) (rf_cu rf)))"

lemma occupants_upd: "r < length ps \<Longrightarrow> occupants (ps[r := p]) + occupants [ps ! r] = occupants ps + occupants [p]"
proof (induction ps arbitrary: r)
  case (Cons q ps)
  then show ?case
  proof (cases r)
    case (Suc r')
    then have "occupants (ps[r' := p]) + occupants [ps ! r'] = occupants ps + occupants [p]" using Cons by simp
    then show ?thesis using Suc by (auto simp: occupants_def)
  qed (auto simp: occupants_def)
qed simp

lemma in_stages_upd: "in_stages (regs(st := ps)) + occupants (regs st) = in_stages regs + occupants ps"
  by (cases st) (simp_all add: in_stages_def stages_def ac_simps)

lemma move_in_occupants:
  assumes "has_free regs" and "\<not> pi_empty w"
  shows "\<exists>w' regs'. move_in w regs = Some (w', regs') \<and> pi_empty w' \<and> occupants regs' = add_mset w (occupants regs)"
proof -
  obtain r where r: "get_free regs = Some r" using get_free_iff [of regs] assms(1) by blast
  then have "r < length regs" "pi_empty (regs ! r)" using get_freeD by simp_all
  then show ?thesis using r occupants_upd [of r regs w] assms(2) by (simp add: move_in_def move_warp_def occupants_def)
qed

lemma move_out_occupants:
  assumes "get_ready regs = Some r" and "pi_empty w"
  shows "\<exists>regs'. move_out_to w regs = Some (regs ! r, regs') \<and> occupants regs = add_mset (regs ! r) (occupants regs') \<and> \<not> pi_empty (regs ! r)"
proof -
  have "r < length regs" "\<not> pi_empty (regs ! r)" using get_readyD [OF assms(1)] by simp_all
  then show ?thesis using assms occupants_upd [of r regs "pi_clear w"] by (simp add: move_out_to_def move_warp_def occupants_def)
qed

subsection \<open>Dispatch\<close>

text \<open>Freeing a complete unit keeps the invariant: no request is for it.\<close>

lemma request_ok_cong:
  assumes "request_ok rf b op" and "length (rf_cu rf') = length (rf_cu rf)" and "rf_num_banks rf' = rf_num_banks rf"
    and "rf_bank_warp_shift rf' = rf_bank_warp_shift rf"
    and "\<And>k. k < length (rf_cu rf) \<Longrightarrow> op_owner op = Unit_of k \<Longrightarrow> op_operand op \<in> cu_not_ready (rf_cu rf ! k) \<Longrightarrow>
      op_operand op \<in> cu_not_ready (rf_cu rf' ! k) \<and> cu_warp_id (rf_cu rf' ! k) = cu_warp_id (rf_cu rf ! k)"
  shows "request_ok rf' b op"
proof -
  obtain k where "k < length (rf_cu rf)" "op_owner op = Unit_of k" "op_operand op \<in> cu_not_ready (rf_cu rf ! k)"
    "register_bank (op_register op) (cu_warp_id (rf_cu rf ! k)) (rf_num_banks rf) (rf_bank_warp_shift rf) = b"
    using assms(1) unfolding request_ok_def by blast
  with assms(2-5) show ?thesis unfolding request_ok_def by auto
qed

lemma set_collector_free:
  assumes ok: "units_ok rf" and k: "k < length (rf_cu rf)" and nr: "cu_not_ready (rf_cu rf ! k) = {}"
    and cu: "collector_ok cu" "cu_not_ready cu = {}"
  shows "units_ok (rf\<lparr>rf_cu := (rf_cu rf)[k := cu]\<rparr>)"
proof -
  let ?rf = "rf\<lparr>rf_cu := (rf_cu rf)[k := cu]\<rparr>"
  have q: "queues_ok rf" using ok by (simp add: units_ok_def)
  have "request_ok ?rf b op" if "b < length (ar_queue (rf_arbiter rf))" "op \<in> set (ar_queue (rf_arbiter rf) ! b)" for b op
  proof (rule request_ok_cong [OF request_okD [OF q that]])
    fix l assume "op_operand op \<in> cu_not_ready (rf_cu rf ! l)"
    then have "l \<noteq> k" using nr by auto
    then show "op_operand op \<in> cu_not_ready (rf_cu ?rf ! l) \<and> cu_warp_id (rf_cu ?rf ! l) = cu_warp_id (rf_cu rf ! l)"
      using \<open>op_operand op \<in> cu_not_ready (rf_cu rf ! l)\<close> by simp
  qed simp_all
  moreover have "(Unit_of l, i) \<in> op_key ` set (concat (ar_queue (rf_arbiter rf)))"
    if "l < length (rf_cu rf)" "i \<in> cu_not_ready ((rf_cu rf)[k := cu] ! l)" for l i
    using q that cu(2) unfolding queues_ok_def by (cases "l = k") simp_all
  ultimately have "queues_ok ?rf" using q unfolding queues_ok_def by simp
  moreover have "collector_ok c" if "c \<in> set (rf_cu ?rf)" for c
    using that set_update_subset_insert [of "rf_cu rf" k cu] ok cu(1) unfolding units_ok_def by auto
  moreover have "sizes_ok ?rf" using ok by (simp add: units_ok_def sizes_ok_def Let_def)
  ultimately show ?thesis by (simp add: units_ok_def)
qed

lemma units_ok_dispatch_units:
  assumes "units_ok rf" and "du_num du = du_num (rf_dispatch_units rf ! p)" and "du_set du = du_set (rf_dispatch_units rf ! p)"
    and p: "p < length (rf_dispatch_units rf)"
  shows "units_ok (rf\<lparr>rf_dispatch_units := (rf_dispatch_units rf)[p := du]\<rparr>)"
proof -
  let ?rf = "rf\<lparr>rf_dispatch_units := (rf_dispatch_units rf)[p := du]\<rparr>"
  have "du_num d = length (rf_cus rf (du_set d))" if "d \<in> set (rf_dispatch_units ?rf)" for d
  proof (cases "d = du")
    case True
    have "du_num (rf_dispatch_units rf ! p) = length (rf_cus rf (du_set (rf_dispatch_units rf ! p)))"
      using assms(1) nth_mem [OF p] by (simp add: units_ok_def sizes_ok_def)
    then show ?thesis using True assms(2,3) by simp
  next
    case False
    then have "d \<in> set (rf_dispatch_units rf)"
      using that set_update_subset_insert [of "rf_dispatch_units rf" p du] by auto
    then show ?thesis using assms(1) by (simp add: units_ok_def sizes_ok_def)
  qed
  then show ?thesis using assms(1) by (simp add: units_ok_def sizes_ok_def queues_ok_def request_ok_def Let_def)
qed

lemma find_ready_ok:
  assumes ok: "units_ok rf" and "du_num du = length (rf_cus rf (du_set du))" and "du_num du \<noteq> 0"
  shows "\<exists>found du'. find_ready regs rf ns du = Some (found, du') \<and> du_num du' = du_num du \<and> du_set du' = du_set du \<and>
    (\<forall>k. found = Some k \<longrightarrow> k < length (rf_cu rf) \<and> collector_ready regs (rf_cu rf ! k) = Some True)"
  using assms(2,3)
proof (induction ns arbitrary: du)
  case (Cons n ns)
  let ?c = "(du_last_cu du + n + 1) mod du_num du"
  have c: "?c < length (rf_cus rf (du_set du))" using Cons.prems by (metis mod_less_divisor not_gr_zero)
  let ?k = "rf_cus rf (du_set du) ! ?c"
  have k: "?k < length (rf_cu rf)" using ok nth_mem [OF c] by (simp add: units_ok_def sizes_ok_def)
  have "collector_ready regs (rf_cu rf ! ?k) \<noteq> None"
    using units_okD [OF ok k] by (auto simp: collector_ready_def collector_ok_def)
  then obtain ready where "collector_ready regs (rf_cu rf ! ?k) = Some ready" by auto
  then show ?case using Cons c k by (cases ready) (auto simp: Let_def)
qed simp

lemma occupants_map_upd:
  "k < length cus \<Longrightarrow> occupants (map cu_warp (cus[k := cu])) + occupants [cu_warp (cus ! k)] = occupants (map cu_warp cus) + occupants [cu_warp cu]"
  using occupants_upd [of k "map cu_warp cus" "cu_warp cu"] by (simp add: map_update)

text \<open>
  Dispatch takes complete instructions out of the units; what is complete later was complete before.
\<close>

definition dispatched :: "stage_regs \<times> opndcoll_rfu \<Rightarrow> stage_regs \<times> opndcoll_rfu \<Rightarrow> pipe_inst multiset \<Rightarrow> bool" where
  "dispatched s t D \<longleftrightarrow> in_stages (fst t) = in_stages (fst s) + D \<and> in_units (snd s) = in_units (snd t) + D \<and>
     complete (snd s) = complete (snd t) + D"

lemma complete_upd:
  assumes "k < length cus" and "cu_not_ready (cus ! k) = {}" and "cu_not_ready cu = {}" and "pi_empty (cu_warp cu)"
    and "\<not> pi_empty (cu_warp (cus ! k))"
  shows "occupants (map cu_warp (filter (\<lambda>cu. cu_not_ready cu = {}) cus)) =
    add_mset (cu_warp (cus ! k)) (occupants (map cu_warp (filter (\<lambda>cu. cu_not_ready cu = {}) (cus[k := cu]))))"
  using assms
proof (induction cus arbitrary: k)
  case (Cons c cus)
  then show ?case by (cases k) (auto simp: occupants_def)
qed simp

lemma dispatch_from_ok:
  assumes ok: "units_ok rf" and p: "p < length (rf_dispatch_units rf)"
  shows "\<exists>regs' rf' D. dispatch_from p (regs, rf) = Some (regs', rf') \<and> units_ok rf' \<and> rf_in_ports rf' = rf_in_ports rf \<and>
    rf_arbiter rf' = rf_arbiter rf \<and> length (rf_dispatch_units rf') = length (rf_dispatch_units rf) \<and> dispatched (regs, rf) (regs', rf') D"
proof -
  let ?du = "rf_dispatch_units rf ! p"
  have du: "du_num ?du = length (rf_cus rf (du_set ?du))" using ok nth_mem [OF p] by (simp add: units_ok_def sizes_ok_def)
  have "\<exists>found du'. find_ready regs rf [0..<du_num ?du] ?du = Some (found, du') \<and> du_num du' = du_num ?du \<and> du_set du' = du_set ?du \<and>
    (\<forall>k. found = Some k \<longrightarrow> k < length (rf_cu rf) \<and> collector_ready regs (rf_cu rf ! k) = Some True)"
    using find_ready_ok [OF ok du] by (cases "du_num ?du = 0") auto
  then obtain found du' where f: "find_ready regs rf [0..<du_num ?du] ?du = Some (found, du')" "du_num du' = du_num ?du" "du_set du' = du_set ?du"
    "\<forall>k. found = Some k \<longrightarrow> k < length (rf_cu rf) \<and> collector_ready regs (rf_cu rf ! k) = Some True" by blast
  let ?rf = "rf\<lparr>rf_dispatch_units := (rf_dispatch_units rf)[p := du']\<rparr>"
  have ok': "units_ok ?rf" by (rule units_ok_dispatch_units [OF ok f(2,3) p])
  show ?thesis
  proof (cases found)
    case None
    then show ?thesis using f(1) p ok'
      by (intro exI [of _ regs] exI [of _ ?rf] exI [of _ "{#}"]) (simp add: dispatch_from_def dispatched_def in_units_def complete_def)
  next
    case (Some k)
    let ?cu = "rf_cu rf ! k"
    have k: "k < length (rf_cu rf)" and r: "collector_ready regs ?cu = Some True" using f(4) Some by simp_all
    then obtain out where o: "cu_output ?cu = Some out" "has_free (regs out)" and nr: "cu_not_ready ?cu = {}" and nf: "\<not> cu_free ?cu"
      by (auto simp: collector_ready_def split: if_splits)
    have w: "\<not> pi_empty (cu_warp ?cu)" using units_okD [OF ok k] nf by (simp add: collector_ok_def)
    obtain w' ps where m: "move_in (cu_warp ?cu) (regs out) = Some (w', ps)" "pi_empty w'" "occupants ps = add_mset (cu_warp ?cu) (occupants (regs out))"
      using move_in_occupants [OF o(2) w] by blast
    let ?new = "?cu\<lparr>cu_warp := w', cu_free := True, cu_output := None, cu_src := replicate (MAX_REG_OPERANDS * 2) None\<rparr>"
    let ?rf' = "?rf\<lparr>rf_cu := (rf_cu rf)[k := ?new]\<rparr>"
    have "dispatch_from p (regs, rf) = Some (regs(out := ps), ?rf')"
      using f(1) p Some k nr o m(1) by (simp add: dispatch_from_def collector_dispatch_def)
    moreover have "units_ok ?rf'"
      using set_collector_free [OF ok', of k ?new] k nr m(2) by (simp add: collector_ok_def MAX_REG_OPERANDS_def)
    moreover have "in_stages (regs(out := ps)) = in_stages regs + {#cu_warp ?cu#}"
      using in_stages_upd [of regs out ps] m(3) by simp
    moreover have "in_units rf = in_units ?rf' + {#cu_warp ?cu#}"
      using occupants_map_upd [OF k, of ?new] w m(2) by (simp add: in_units_def occupants_def)
    moreover have "complete rf = complete ?rf' + {#cu_warp ?cu#}"
      using complete_upd [OF k nr, of ?new] nr m(2) w by (simp add: complete_def)
    ultimately show ?thesis
      by (intro exI [of _ "regs(out := ps)"] exI [of _ ?rf'] exI [of _ "{#cu_warp ?cu#}"]) (simp add: dispatched_def)
  qed
qed

lemma dispatched_trans: "dispatched s t D \<Longrightarrow> dispatched t u E \<Longrightarrow> dispatched s u (E + D)"
  by (simp add: dispatched_def ac_simps)

lemma dispatch_ok:
  assumes "units_ok rf"
  shows "\<exists>regs' rf' D. dispatch_ready_cu (regs, rf) = Some (regs', rf') \<and> units_ok rf' \<and> rf_in_ports rf' = rf_in_ports rf \<and>
    rf_arbiter rf' = rf_arbiter rf \<and> dispatched (regs, rf) (regs', rf') D"
proof -
  let ?P = "\<lambda>s. units_ok (snd s) \<and> rf_in_ports (snd s) = rf_in_ports rf \<and> rf_arbiter (snd s) = rf_arbiter rf \<and>
    length (rf_dispatch_units (snd s)) = length (rf_dispatch_units rf) \<and> (\<exists>D. dispatched (regs, rf) s D)"
  have "\<exists>t. foldM dispatch_from [0..<length (rf_dispatch_units rf)] (regs, rf) = Some t \<and> ?P t"
  proof (rule foldM_total)
    show "?P (regs, rf)" using assms by (auto simp: dispatched_def)
    fix p and s :: "stage_regs \<times> opndcoll_rfu"
    assume "p \<in> set [0..<length (rf_dispatch_units rf)]" and P: "?P s"
    then have "p < length (rf_dispatch_units (snd s))" by simp
    from dispatch_from_ok [of "snd s", OF _ this, of "fst s"] P obtain regs' rf' D where
      "dispatch_from p s = Some (regs', rf')" "units_ok rf'" "rf_in_ports rf' = rf_in_ports (snd s)" "rf_arbiter rf' = rf_arbiter (snd s)"
      "length (rf_dispatch_units rf') = length (rf_dispatch_units (snd s))" "dispatched s (regs', rf') D" by auto
    then show "\<exists>t. dispatch_from p s = Some t \<and> ?P t" using P dispatched_trans by fastforce
  qed
  then show ?thesis by (auto simp: dispatch_ready_cu_def)
qed

subsection \<open>Reads\<close>

text \<open>The granted reads take their banks.\<close>

lemma take_banks:
  assumes "distinct G" and "\<And>b. b \<in> set G \<Longrightarrow> request_ok rf b (f b) \<and> b < length al \<and> is_free (al ! b)"
    and "length al = ar_num_banks a"
  shows "\<exists>al'. foldM take_bank (map f G) (ro, rf\<lparr>rf_arbiter := a\<lparr>ar_allocated := al\<rparr>\<rparr>) =
      Some (\<lambda>b. if b \<in> set G then Some (f b) else ro b, rf\<lparr>rf_arbiter := a\<lparr>ar_allocated := al'\<rparr>\<rparr>) \<and> length al' = length al"
  using assms
proof (induction G arbitrary: al ro)
  case (Cons b G)
  obtain k where k: "k < length (rf_cu rf)" "op_owner (f b) = Unit_of k"
    "register_bank (op_register (f b)) (cu_warp_id (rf_cu rf ! k)) (rf_num_banks rf) (rf_bank_warp_shift rf) = b"
    using Cons.prems(2) [of b] unfolding request_ok_def by auto
  have b: "b < length al" "is_free (al ! b)" using Cons.prems(2) [of b] by simp_all
  let ?al = "al[b := READ_ALLOC (f b)]"
  have t: "take_bank (f b) (ro, rf\<lparr>rf_arbiter := a\<lparr>ar_allocated := al\<rparr>\<rparr>) =
      Some (ro(b := Some (f b)), rf\<lparr>rf_arbiter := a\<lparr>ar_allocated := ?al\<rparr>\<rparr>)"
    using k b Cons.prems(3) by (simp add: take_bank_def get_wid_def allocate_for_read_def allocate_bank_def Let_def)
  have "request_ok rf c (f c) \<and> c < length ?al \<and> is_free (?al ! c)" if "c \<in> set G" for c
  proof -
    have "c \<noteq> b" using Cons.prems(1) that by auto
    then show ?thesis using Cons.prems(2) [of c] that by simp
  qed
  then obtain al' where "foldM take_bank (map f G) (ro(b := Some (f b)), rf\<lparr>rf_arbiter := a\<lparr>ar_allocated := ?al\<rparr>\<rparr>) =
      Some (\<lambda>c. if c \<in> set G then Some (f c) else (ro(b := Some (f b))) c, rf\<lparr>rf_arbiter := a\<lparr>ar_allocated := al'\<rparr>\<rparr>)" "length al' = length al"
    using Cons.IH [of ?al "ro(b := Some (f b))"] Cons.prems(1,3) by (auto simp del: fun_upd_apply)
  then show ?case using t by (intro exI [of _ al']) (simp add: fun_eq_iff)
qed auto

text \<open>What the delivery of \<open>ops\<close> leaves of the units.\<close>

definition deliver_all :: "op_t list \<Rightarrow> collector_unit list \<Rightarrow> collector_unit list" where
  "deliver_all ops cus = map (\<lambda>k. (cus ! k)\<lparr>cu_not_ready := cu_not_ready (cus ! k) - {i. (Unit_of k, i) \<in> op_key ` set ops}\<rparr>)
     [0..<length cus]"

lemma length_deliver_all [simp]: "length (deliver_all ops cus) = length cus"
  by (simp add: deliver_all_def)

lemma deliver_loop:
  assumes "\<And>op. op \<in> set ops \<Longrightarrow> \<exists>k < length (rf_cu rf). op_owner op = Unit_of k \<and> op_operand op < MAX_REG_OPERANDS * 2"
  shows "foldM deliver ops rf = Some (rf\<lparr>rf_cu := deliver_all ops (rf_cu rf)\<rparr>)"
  using assms
proof (induction ops arbitrary: rf)
  case Nil
  have "deliver_all [] (rf_cu rf) = rf_cu rf" by (rule nth_equalityI) (simp_all add: deliver_all_def)
  then show ?case by simp
next
  case (Cons op ops)
  obtain k where k: "k < length (rf_cu rf)" "op_owner op = Unit_of k" "op_operand op < MAX_REG_OPERANDS * 2"
    using Cons.prems [of op] by auto
  let ?cus = "(rf_cu rf)[k := (rf_cu rf ! k)\<lparr>cu_not_ready := cu_not_ready (rf_cu rf ! k) - {op_operand op}\<rparr>]"
  have d: "deliver op rf = Some (rf\<lparr>rf_cu := ?cus\<rparr>)" using k by (simp add: deliver_def collect_operand_def)
  have "deliver_all ops ?cus = deliver_all (op # ops) (rf_cu rf)"
  proof (rule nth_equalityI)
    fix l assume l: "l < length (deliver_all ops ?cus)"
    have "s - {op_operand op} - {i. (Unit_of k, i) \<in> op_key ` set ops} = s - {i. (Unit_of k, i) \<in> op_key ` set (op # ops)}" for s
      using k(2) by (auto simp: op_key_def)
    then show "deliver_all ops ?cus ! l = deliver_all (op # ops) (rf_cu rf) ! l"
      using k(1,2) l by (cases "l = k") (simp_all add: deliver_all_def op_key_def)
  qed (simp add: deliver_all_def)
  moreover have "foldM deliver ops (rf\<lparr>rf_cu := ?cus\<rparr>) = Some (rf\<lparr>rf_cu := deliver_all ops ?cus\<rparr>)"
    using Cons.IH [of "rf\<lparr>rf_cu := ?cus\<rparr>"] Cons.prems by simp
  ultimately show ?case using d by simp
qed

lemma popped_mset:
  assumes "\<And>b. b < n \<Longrightarrow> b \<in> A \<Longrightarrow> q b \<noteq> []"
  shows "mset (concat (map q [0..<n])) =
    mset (concat (map (\<lambda>b. if b \<in> A then tl (q b) else q b) [0..<n])) + mset (map (\<lambda>b. hd (q b)) (filter (\<lambda>b. b \<in> A) [0..<n]))"
  using assms
proof (induction n)
  case (Suc n)
  then have "n \<in> A \<Longrightarrow> mset (q n) = mset (tl (q n)) + {#hd (q n)#}" by (metis add_mset_add_single lessI list.exhaust_sel mset.simps(2))
  then show ?case using Suc by (auto simp: ac_simps)
qed simp

lemma sorted_filter_upt:
  assumes "sorted G" and "distinct G" and "\<And>b. b \<in> set G \<Longrightarrow> b < (n :: nat)"
  shows "filter (\<lambda>b. b \<in> set G) [0..<n] = G"
  using assms by (intro sorted_distinct_set_unique) (auto simp: sorted_wrt_filter)

lemma distinct_map_append: "distinct (map f (xs @ ys)) \<Longrightarrow> x \<in> set xs \<Longrightarrow> f x \<notin> f ` set ys"
  by auto

lemma allocate_reads_ok:
  assumes "rf_ok rf"
  shows "\<exists>rf'. allocate_reads rf = Some rf' \<and> units_ok rf' \<and> rf_in_ports rf' = rf_in_ports rf \<and> in_units rf' = in_units rf"
proof -
  let ?a = "rf_arbiter rf" let ?q = "ar_queue ?a" let ?n = "ar_num_banks ?a"
  have ok: "units_ok rf" and nr: "\<forall>x \<in> set (ar_allocated ?a). \<not> is_read x" using assms by (simp_all add: rf_ok_def)
  have q: "queues_ok rf" and sz: "sizes_ok rf" using ok by (simp_all add: units_ok_def)
  have n: "length ?q = ?n" "length (ar_allocated ?a) = ?n" "?n = unat (rf_num_banks rf)" "ar_num_collectors ?a = length (rf_cu rf)"
    using sz by (simp_all add: sizes_ok_def Let_def)
  obtain G where G: "sorted G" "distinct G" "maximal_matching ?a (set G)"
    "arbiter_allocate_reads ?a = Some (map (\<lambda>b. hd (?q ! b)) G, grant_reads G ?a)"
    using arbiter_allocate_reads_eq [OF units_ok_arbiter [OF ok]] by blast
  have g: "b < ?n \<and> ?q ! b \<noteq> [] \<and> is_free (ar_allocated ?a ! b)" if "b \<in> set G" for b
  proof -
    have "b < ?n" "?q ! b \<noteq> []" "\<not> is_write (ar_allocated ?a ! b)" using G(3) that unfolding maximal_matching_def by simp_all
    moreover have "\<not> is_read (ar_allocated ?a ! b)" using nr n(2) calculation(1) by simp
    ultimately show ?thesis by (cases "ar_allocated ?a ! b") (simp_all add: is_free_def)
  qed
  let ?ops = "map (\<lambda>b. hd (?q ! b)) G"
  have req: "request_ok rf b (hd (?q ! b))" if "b \<in> set G" for b
    using request_okD [OF q] g [OF that] n(1) by simp
  let ?a1 = "grant_reads G ?a"
  have a1: "rf\<lparr>rf_arbiter := ?a1\<rparr> = rf\<lparr>rf_arbiter := ?a1\<lparr>ar_allocated := ar_allocated ?a\<rparr>\<rparr>" by (simp add: grant_reads_def)
  obtain al where al: "foldM take_bank ?ops (\<lambda>_. None, rf\<lparr>rf_arbiter := ?a1\<rparr>) =
      Some (\<lambda>b. if b \<in> set G then Some (hd (?q ! b)) else None, rf\<lparr>rf_arbiter := ?a1\<lparr>ar_allocated := al\<rparr>\<rparr>)" "length al = ?n"
    using take_banks [OF G(2), of rf "\<lambda>b. hd (?q ! b)" "ar_allocated ?a" ?a1 "\<lambda>_. None"] req g n(2)
    unfolding a1 by (auto simp: grant_reads_def)
  have G_upt: "filter (\<lambda>b. b \<in> set G) [0..<?n] = G" using G(1,2) g by (intro sorted_filter_upt) simp_all
  have mf: "List.map_filter (\<lambda>b. if b \<in> set G then Some (hd (?q ! b)) else None) [0..<?n] = ?ops"
    using G_upt by (simp add: List.map_filter_def comp_def if_distrib cong: if_cong)
  let ?rf1 = "rf\<lparr>rf_arbiter := ?a1\<lparr>ar_allocated := al\<rparr>\<rparr>"
  let ?rf2 = "?rf1\<lparr>rf_cu := deliver_all ?ops (rf_cu rf)\<rparr>"
  have "foldM deliver ?ops ?rf1 = Some (?rf1\<lparr>rf_cu := deliver_all ?ops (rf_cu ?rf1)\<rparr>)"
  proof (rule deliver_loop)
    fix op assume "op \<in> set ?ops"
    then obtain b where "request_ok rf b op" using req by auto
    then obtain k where k: "k < length (rf_cu rf)" "op_owner op = Unit_of k" "op_operand op \<in> cu_not_ready (rf_cu rf ! k)"
      unfolding request_ok_def by blast
    then have "op_operand op < MAX_REG_OPERANDS" using units_okD [OF ok k(1)] by (auto simp: collector_ok_def)
    then show "\<exists>k < length (rf_cu ?rf1). op_owner op = Unit_of k \<and> op_operand op < MAX_REG_OPERANDS * 2" using k by auto
  qed
  then have "allocate_reads rf = Some ?rf2"
    unfolding allocate_reads_def using G(4) al(1) mf n(3) by simp
  moreover have "units_ok ?rf2"
  proof -
    let ?q' = "map (\<lambda>b. if b \<in> set G then tl (?q ! b) else ?q ! b) [0..<?n]"
    have qs: "ar_queue (rf_arbiter ?rf2) = ?q'" by (simp add: grant_reads_def)
    have "mset (concat (map ((!) ?q) [0..<?n])) = mset (concat ?q') + mset (map (\<lambda>b. hd (?q ! b)) (filter (\<lambda>b. b \<in> set G) [0..<?n]))"
      by (rule popped_mset) (use g in blast)
    moreover have "map ((!) ?q) [0..<?n] = ?q" by (metis map_nth n(1))
    ultimately have m: "mset (concat ?q) = mset (concat ?q' @ ?ops)" unfolding G_upt mset_append by (simp only:)
    have "mset (map op_key (concat ?q)) = mset (map op_key (concat ?q' @ ?ops))" using m by (metis mset_map)
    then have dist: "distinct (map op_key (concat ?q' @ ?ops))" using q mset_eq_imp_distinct_iff unfolding queues_ok_def by blast
    have sets: "set (concat ?q) = set (concat ?q') \<union> set ?ops" using mset_eq_setD [OF m] by simp
    have len: "length (rf_cu ?rf2) = length (rf_cu rf)" by (simp add: deliver_all_def)
    have req2: "request_ok ?rf2 b op" if b: "b < ?n" and op: "op \<in> set (?q' ! b)" for b op
    proof (rule request_ok_cong)
      have "op \<in> set (?q ! b)" using op b by (cases "b \<in> set G"; cases "?q ! b") simp_all
      then show "request_ok rf b op" using request_okD [OF q] b n(1) by simp
      have "?q' ! b \<in> set ?q'" using b by (intro nth_mem) simp
      then have "op \<in> set (concat ?q')" using op by (auto simp del: set_map set_upt)
      then have "op_key op \<notin> op_key ` set ?ops" by (rule distinct_map_append [OF dist])
      then show "op_operand op \<in> cu_not_ready (rf_cu ?rf2 ! k) \<and> cu_warp_id (rf_cu ?rf2 ! k) = cu_warp_id (rf_cu rf ! k)"
        if "k < length (rf_cu rf)" "op_owner op = Unit_of k" "op_operand op \<in> cu_not_ready (rf_cu rf ! k)" for k
        using that by (simp add: deliver_all_def op_key_def)
    qed simp_all
    have missing: "(Unit_of k, i) \<in> op_key ` set (concat ?q')"
      if "k < length (rf_cu rf)" "i \<in> cu_not_ready (rf_cu ?rf2 ! k)" for k i
    proof -
      have i: "i \<in> cu_not_ready (rf_cu rf ! k)" "(Unit_of k, i) \<notin> op_key ` set ?ops" using that by (simp_all add: deliver_all_def)
      have "(Unit_of k, i) \<in> op_key ` set (concat ?q)" using q that(1) i(1) unfolding queues_ok_def by blast
      then show ?thesis using i(2) unfolding sets image_Un Un_iff by blast
    qed
    have "queues_ok ?rf2"
    proof (rule queues_okI [OF qs])
      show "distinct (map op_key (concat ?q'))" using dist unfolding map_append distinct_append by (rule conjunct1)
      show "request_ok ?rf2 b op" if "b < length ?q'" "op \<in> set (?q' ! b)" for b op
        using req2 that by (simp only: length_map length_upt diff_zero)
      show "(Unit_of k, i) \<in> op_key ` set (concat ?q')" if "k < length (rf_cu ?rf2)" "i \<in> cu_not_ready (rf_cu ?rf2 ! k)" for k i
        using missing [of k i] that unfolding len by blast
    qed
    moreover have "sizes_ok ?rf2" using sz al(2) len by (simp add: sizes_ok_def Let_def grant_reads_def)
    moreover have "collector_ok cu" if "cu \<in> set (rf_cu ?rf2)" for cu
      using that units_okD [OF ok] by (fastforce simp: deliver_all_def collector_ok_def split: if_splits)
    ultimately show ?thesis by (simp add: units_ok_def)
  qed
  moreover have "map cu_warp (rf_cu ?rf2) = map cu_warp (rf_cu rf)" by (rule nth_equalityI) (simp_all add: deliver_all_def)
  ultimately show ?thesis by (intro exI [of _ ?rf2]) (simp add: in_units_def)
qed

subsection \<open>New instructions\<close>

lemma map_filter_iff: "y \<in> set (List.map_filter f xs) \<longleftrightarrow> (\<exists>x \<in> set xs. f x = Some y)"
  by (induction xs) (auto split: option.split)

lemma in_concat_iff: "x \<in> set (concat qs) \<longleftrightarrow> (\<exists>b < length qs. x \<in> set (qs ! b))"
  unfolding set_concat UN_iff by (metis in_set_conv_nth)

definition append_requests :: "op_t list \<Rightarrow> op_t list list \<Rightarrow> op_t list list" where
  "append_requests ops q = map (\<lambda>b. q ! b @ filter (\<lambda>op. op_bank op = b) ops) [0..<length q]"

lemma append_requests_Cons:
  "op_bank op < length q \<Longrightarrow> append_requests ops (q[op_bank op := q ! op_bank op @ [op]]) = append_requests (op # ops) q"
  by (rule nth_equalityI) (auto simp: append_requests_def nth_list_update)

lemma append_requests_mset:
  assumes "\<And>op. op \<in> set ops \<Longrightarrow> op_bank op < length q"
  shows "mset (concat (append_requests ops q)) = mset (concat q) + mset ops"
  using assms
proof (induction ops arbitrary: q)
  case Nil
  have "append_requests [] q = q" by (rule nth_equalityI) (simp_all add: append_requests_def)
  then show ?case by simp
next
  case (Cons op ops)
  have up: "mset (concat (q[b := q ! b @ [op]])) = add_mset op (mset (concat q))" if "b < length q" for b q
    using that
  proof (induction q arbitrary: b)
    case (Cons x q)
    then show ?case by (cases b) auto
  qed simp
  have "mset (concat (append_requests ops (q[op_bank op := q ! op_bank op @ [op]]))) =
      mset (concat (q[op_bank op := q ! op_bank op @ [op]])) + mset ops"
    using Cons.prems by (intro Cons.IH) simp
  then show ?case using Cons.prems append_requests_Cons [of op q ops] up [of "op_bank op" q] by simp
qed

lemma add_requests_loop:
  assumes "\<forall>i \<in> set is. \<forall>op. src ! i = Some op \<longrightarrow> op_bank op < length (ar_queue a)"
  shows "foldM (\<lambda>i a. (case src ! i of
       None \<Rightarrow> Some a
     | Some op \<Rightarrow> do {
         q \<leftarrow> nth_opt (ar_queue a) (op_bank op);
         Some (a\<lparr>ar_queue := (ar_queue a)[op_bank op := q @ [op]]\<rparr>) })) is a =
     Some (a\<lparr>ar_queue := append_requests (List.map_filter (\<lambda>i. src ! i) is) (ar_queue a)\<rparr>)"
  using assms
proof (induction "is" arbitrary: a)
  case Nil
  have "append_requests [] (ar_queue a) = ar_queue a" by (rule nth_equalityI) (simp_all add: append_requests_def)
  then show ?case by simp
next
  case (Cons i "is")
  show ?case
  proof (cases "src ! i")
    case None
    then show ?thesis using Cons.IH [of a] Cons.prems by simp
  next
    case (Some op)
    let ?a = "a\<lparr>ar_queue := (ar_queue a)[op_bank op := ar_queue a ! op_bank op @ [op]]\<rparr>"
    have b: "op_bank op < length (ar_queue a)" using Cons.prems Some by simp
    have "append_requests (List.map_filter (\<lambda>i. src ! i) is) (ar_queue ?a) =
        append_requests (op # List.map_filter (\<lambda>i. src ! i) is) (ar_queue a)"
      using append_requests_Cons [OF b] by simp
    moreover have "a\<lparr>ar_queue := append_requests (List.map_filter (\<lambda>i. src ! i) is) (ar_queue ?a)\<rparr> =
        ?a\<lparr>ar_queue := append_requests (List.map_filter (\<lambda>i. src ! i) is) (ar_queue ?a)\<rparr>" by simp
    ultimately show ?thesis using Cons.IH [of ?a] Cons.prems Some b by simp
  qed
qed

text \<open>The requests of an instruction that enters unit \<open>k\<close>.\<close>

definition new_requests :: "opndcoll_rfu \<Rightarrow> nat \<Rightarrow> u32 \<Rightarrow> pipe_inst \<Rightarrow> op_t list" where
  "new_requests rf k wid p = List.map_filter (source_op rf k wid p) [0..<MAX_REG_OPERANDS]"

lemma source_opD: "source_op rf k wid p i = Some op \<Longrightarrow> op_owner op = Unit_of k \<and> op_operand op = i \<and>
    op_bank op = register_bank (op_register op) wid (rf_num_banks rf) (rf_bank_warp_shift rf)"
  by (auto simp: source_op_def Let_def split: if_splits)

lemma new_requests_iff: "op \<in> set (new_requests rf k wid p) \<longleftrightarrow> (\<exists>i < MAX_REG_OPERANDS. source_op rf k wid p i = Some op)"
  by (auto simp: new_requests_def map_filter_iff)

lemma new_requests_keys: "distinct (map op_key (new_requests rf k wid p))"
proof -
  have "distinct (map op_key (List.map_filter (source_op rf k wid p) is))" if "distinct is" for "is"
    using that
  proof (induction "is")
    case (Cons i "is")
    have "op_key op \<notin> op_key ` set (List.map_filter (source_op rf k wid p) is)" if "source_op rf k wid p i = Some op" for op
      using Cons.prems source_opD [OF that] by (auto simp: map_filter_iff op_key_def dest: source_opD)
    then show ?case using Cons by (simp split: option.split)
  qed simp
  then show ?thesis by (simp add: new_requests_def)
qed

text \<open>The instructions \<open>A\<close> move from the stages into the units.\<close>

definition accepted :: "stage_regs \<times> opndcoll_rfu \<Rightarrow> stage_regs \<times> opndcoll_rfu \<Rightarrow> pipe_inst multiset \<Rightarrow> bool" where
  "accepted s t A \<longleftrightarrow> in_stages (fst s) = in_stages (fst t) + A \<and> in_units (snd t) = in_units (snd s) + A"

lemma accepted_trans: "accepted s t A \<Longrightarrow> accepted t u B \<Longrightarrow> accepted s u (B + A)"
  by (simp add: accepted_def ac_simps)

lemma enter_unit_ok:
  assumes ok: "units_ok rf" and k: "k < length (rf_cu rf)" and free: "cu_free (rf_cu rf ! k)"
    and cu: "collector_ok cu" "cu_warp_id cu = wid" "cu_not_ready cu = {i. i < MAX_REG_OPERANDS \<and> source_op rf k wid p i \<noteq> None}"
  shows "units_ok (rf\<lparr>rf_cu := (rf_cu rf)[k := cu],
    rf_arbiter := (rf_arbiter rf)\<lparr>ar_queue := append_requests (new_requests rf k wid p) (ar_queue (rf_arbiter rf))\<rparr>\<rparr>)" (is "units_ok ?rf")
proof -
  let ?q = "ar_queue (rf_arbiter rf)" let ?R = "new_requests rf k wid p" let ?q' = "append_requests ?R ?q"
  have q: "queues_ok rf" and sz: "sizes_ok rf" using ok by (simp_all add: units_ok_def)
  have nr: "cu_not_ready (rf_cu rf ! k) = {}" using units_okD [OF ok k] free by (simp add: collector_ok_def)
  have n: "length ?q = unat (rf_num_banks rf)" "0 < unat (rf_num_banks rf)" using sz by (auto simp: sizes_ok_def Let_def)
  have bank: "op_bank op < length ?q" if "op \<in> set ?R" for op
    using that source_opD register_bank_less [OF n(2)] unfolding new_requests_iff n(1) by metis
  have m: "mset (concat ?q') = mset (concat ?q @ ?R)" using append_requests_mset [OF bank] by simp
  have old: "op_owner op \<noteq> Unit_of k" if in_q: "op \<in> set (concat ?q)" for op
  proof -
    obtain b where "b < length ?q" "op \<in> set (?q ! b)" using in_q unfolding in_concat_iff by blast
    then have "request_ok rf b op" by (rule request_okD [OF q])
    then show ?thesis using nr by (auto simp: request_ok_def)
  qed
  have "op_key ` set (concat ?q) \<inter> op_key ` set ?R = {}"
    using old source_opD unfolding new_requests_iff op_key_def by (fastforce simp: new_requests_iff)
  then have "distinct (map op_key (concat ?q @ ?R))"
    using q new_requests_keys [of rf k wid p] unfolding queues_ok_def map_append distinct_append set_map by blast
  then have dist: "distinct (map op_key (concat ?q'))" using m by (metis mset_map mset_eq_imp_distinct_iff)
  have sets: "set (concat ?q') = set (concat ?q) \<union> set ?R" using mset_eq_setD [OF m] by simp
  have "queues_ok ?rf"
  proof (rule queues_okI [where q = ?q'])
    show "request_ok ?rf b op" if b: "b < length ?q'" and op: "op \<in> set (?q' ! b)" for b op
    proof -
      have b': "b < length ?q" using b by (simp add: append_requests_def)
      then consider "op \<in> set (?q ! b)" | "op \<in> set ?R" "op_bank op = b" using op by (auto simp: append_requests_def)
      then show ?thesis
      proof cases
        case 1
        show ?thesis
        proof (rule request_ok_cong [OF request_okD [OF q b' 1]])
          fix l assume l: "op_operand op \<in> cu_not_ready (rf_cu rf ! l)"
          then have "l \<noteq> k" using nr by auto
          then show "op_operand op \<in> cu_not_ready (rf_cu ?rf ! l) \<and> cu_warp_id (rf_cu ?rf ! l) = cu_warp_id (rf_cu rf ! l)" using l by simp
        qed simp_all
      next
        case 2
        then obtain i where i: "i < MAX_REG_OPERANDS" "source_op rf k wid p i = Some op" by (auto simp: new_requests_iff)
        then show ?thesis using source_opD [OF i(2)] k cu(2,3) 2(2) by (simp add: request_ok_def)
      qed
    qed
    show "(Unit_of l, i) \<in> op_key ` set (concat ?q')" if l: "l < length (rf_cu ?rf)" and i: "i \<in> cu_not_ready (rf_cu ?rf ! l)" for l i
    proof (cases "l = k")
      case True
      then have "i < MAX_REG_OPERANDS" "source_op rf k wid p i \<noteq> None" using i k cu(3) by simp_all
      then obtain op where "op \<in> set ?R" "op_key op = (Unit_of k, i)" using source_opD by (force simp: new_requests_iff op_key_def)
      then show ?thesis unfolding sets using True by force
    next
      case False
      then have "(Unit_of l, i) \<in> op_key ` set (concat ?q)" using q l i unfolding queues_ok_def by simp
      then show ?thesis unfolding sets by blast
    qed
  qed (simp_all add: dist)
  moreover have "sizes_ok ?rf" using sz by (simp add: sizes_ok_def Let_def append_requests_def)
  moreover have "collector_ok c" if "c \<in> set (rf_cu ?rf)" for c
    using that set_update_subset_insert [of "rf_cu rf" k cu] ok cu(1) unfolding units_ok_def by auto
  ultimately show ?thesis by (simp add: units_ok_def)
qed

lemma map_filter_cong: "(\<And>x. x \<in> set xs \<Longrightarrow> f x = g x) \<Longrightarrow> List.map_filter f xs = List.map_filter g xs"
  by (induction xs) (simp_all split: option.split)

lemma map_filter_none: "(\<And>x. x \<in> set xs \<Longrightarrow> f x = None) \<Longrightarrow> List.map_filter f xs = []"
  by (induction xs) simp_all

lemma map_filter_append: "List.map_filter f (xs @ ys) = List.map_filter f xs @ List.map_filter f ys"
  by (induction xs) (simp_all split: option.split)

lemma offer_unit_ok:
  assumes ok: "units_ok rf" and k: "k < length (rf_cu rf)" and free: "cu_free (rf_cu rf ! k)" and r: "get_ready (regs input) = Some r"
  shows "\<exists>regs' rf1 rf2 A. collector_allocate k input output (regs, rf) = Some (True, regs', rf1) \<and>
    map_option (\<lambda>a. rf1\<lparr>rf_arbiter := a\<rparr>) (add_read_requests (cu_src (rf_cu rf1 ! k)) (rf_arbiter rf1)) = Some rf2 \<and>
    units_ok rf2 \<and> rf_in_ports rf2 = rf_in_ports rf \<and> accepted (regs, rf) (regs', rf2) A"
proof -
  let ?cu = "rf_cu rf ! k" and ?p = "regs input ! r"
  have cok: "collector_ok ?cu" by (rule units_okD [OF ok k])
  then have w: "pi_empty (cu_warp ?cu)" and nr: "cu_not_ready ?cu = {}" using free by (simp_all add: collector_ok_def)
  obtain src where m: "move_out_to (cu_warp ?cu) (regs input) = Some (?p, src)" "occupants (regs input) = add_mset ?p (occupants src)" "\<not> pi_empty ?p"
    using move_out_occupants [OF r w] by blast
  define wid :: u32 where "wid = of_nat (i_warp_id (pi_inst ?p))"
  let ?ops = "map (source_op rf k wid ?p) [0..<MAX_REG_OPERANDS]"
  define cu where "cu = ?cu\<lparr>cu_free := False, cu_output := Some output, cu_warp_id := wid, cu_warp := ?p,
    cu_src := ?ops @ drop MAX_REG_OPERANDS (cu_src ?cu), cu_not_ready := {i. i < MAX_REG_OPERANDS \<and> source_op rf k wid ?p i \<noteq> None}\<rparr>"
  let ?rf1 = "rf\<lparr>rf_cu := (rf_cu rf)[k := cu]\<rparr>"
  have nrs: "{i. i < MAX_REG_OPERANDS \<and> ?ops ! i \<noteq> None} = {i. i < MAX_REG_OPERANDS \<and> source_op rf k wid ?p i \<noteq> None}" by auto
  have alloc: "collector_allocate k input output (regs, rf) = Some (True, regs(input := src), ?rf1)"
    using k free nr r m nrs by (simp add: collector_allocate_def pi_warp_id_def Let_def wid_def cu_def)
  have len: "length (cu_src ?cu) = MAX_REG_OPERANDS * 2" "\<forall>i < MAX_REG_OPERANDS * 2. MAX_REG_OPERANDS \<le> i \<longrightarrow> cu_src ?cu ! i = None"
    using cok by (simp_all add: collector_ok_def)
  have ok_cu: "collector_ok cu" using len m(3) by (auto simp: collector_ok_def cu_def nth_append)
  let ?rf2 = "?rf1\<lparr>rf_arbiter := (rf_arbiter rf)\<lparr>ar_queue := append_requests (new_requests rf k wid ?p) (ar_queue (rf_arbiter rf))\<rparr>\<rparr>"
  have "units_ok ?rf2" using enter_unit_ok [OF ok k free ok_cu, of wid ?p] by (simp add: cu_def)
  moreover have "add_read_requests (cu_src cu) (rf_arbiter rf) =
      Some ((rf_arbiter rf)\<lparr>ar_queue := append_requests (new_requests rf k wid ?p) (ar_queue (rf_arbiter rf))\<rparr>)"
  proof -
    have n: "length (ar_queue (rf_arbiter rf)) = unat (rf_num_banks rf)" "0 < unat (rf_num_banks rf)"
      using ok by (auto simp: units_ok_def sizes_ok_def Let_def)
    have lo: "cu_src cu ! i = source_op rf k wid ?p i" if "i < MAX_REG_OPERANDS" for i
      using that by (simp add: cu_def nth_append)
    have hi: "cu_src cu ! i = None" if "MAX_REG_OPERANDS \<le> i" "i < MAX_REG_OPERANDS * 2" for i
      using that len by (simp add: cu_def nth_append)
    have "\<forall>i \<in> set [0..<MAX_REG_OPERANDS * 2]. \<forall>op. cu_src cu ! i = Some op \<longrightarrow> op_bank op < length (ar_queue (rf_arbiter rf))"
    proof (intro ballI allI impI)
      fix i op assume i: "i \<in> set [0..<MAX_REG_OPERANDS * 2]" "cu_src cu ! i = Some op"
      then have "i < MAX_REG_OPERANDS" using hi [of i] by fastforce
      then have "op_bank op = register_bank (op_register op) wid (rf_num_banks rf) (rf_bank_warp_shift rf)"
        using i(2) lo source_opD by metis
      then show "op_bank op < length (ar_queue (rf_arbiter rf))" using register_bank_less [OF n(2)] n(1) by simp
    qed
    note loop = add_requests_loop [OF this]
    have split: "[0..<MAX_REG_OPERANDS * 2] = [0..<MAX_REG_OPERANDS] @ [MAX_REG_OPERANDS..<MAX_REG_OPERANDS * 2]"
      by (metis le_add2 mult_2_right upt_add_eq_append zero_le)
    have "List.map_filter (\<lambda>i. cu_src cu ! i) [0..<MAX_REG_OPERANDS * 2] = new_requests rf k wid ?p"
    proof -
      have "List.map_filter (\<lambda>i. cu_src cu ! i) [0..<MAX_REG_OPERANDS] = new_requests rf k wid ?p"
        unfolding new_requests_def by (rule map_filter_cong) (simp add: lo)
      moreover have "List.map_filter (\<lambda>i. cu_src cu ! i) [MAX_REG_OPERANDS..<MAX_REG_OPERANDS * 2] = []"
        by (rule map_filter_none) (simp add: hi)
      ultimately show ?thesis unfolding split map_filter_append by simp
    qed
    then show ?thesis unfolding add_read_requests_def loop by simp
  qed
  moreover have "in_stages regs = in_stages (regs(input := src)) + {#?p#}"
    using in_stages_upd [of regs input src] m(2) by simp
  moreover have "in_units ?rf2 = in_units rf + {#?p#}"
    using occupants_map_upd [OF k, of cu] w m(3) by (simp add: in_units_def occupants_def cu_def)
  ultimately show ?thesis
    using alloc k
    by (intro exI [of _ "regs(input := src)"] exI [of _ ?rf1] exI [of _ ?rf2] exI [of _ "{#?p#}"]) (simp add: accepted_def)
qed

lemma accepted_none: "accepted s s {#}"
  by (simp add: accepted_def)

lemma offer_to_sets_ok:
  assumes ok: "units_ok rf" and r: "get_ready (regs input) = Some r"
  shows "\<exists>regs' rf' A. offer_to_sets js input output (regs, rf) = Some (regs', rf') \<and> units_ok rf' \<and>
    rf_in_ports rf' = rf_in_ports rf \<and> accepted (regs, rf) (regs', rf') A"
proof (induction js)
  case Nil
  then show ?case using ok accepted_none by auto
next
  case (Cons j js)
  show ?case
  proof (cases "find (\<lambda>k. cu_free (rf_cu rf ! k)) (rf_cus rf j)")
    case None
    then show ?thesis using Cons by simp
  next
    case (Some k)
    then have "k \<in> set (rf_cus rf j)" and free: "cu_free (rf_cu rf ! k)" by (auto simp: find_Some_iff)
    then have k: "k < length (rf_cu rf)" using ok by (simp add: units_ok_def sizes_ok_def)
    obtain regs' rf1 rf2 A where "collector_allocate k input output (regs, rf) = Some (True, regs', rf1)"
      "map_option (\<lambda>a. rf1\<lparr>rf_arbiter := a\<rparr>) (add_read_requests (cu_src (rf_cu rf1 ! k)) (rf_arbiter rf1)) = Some rf2"
      "units_ok rf2" "rf_in_ports rf2 = rf_in_ports rf" "accepted (regs, rf) (regs', rf2) A"
      using offer_unit_ok [where regs = regs and input = input and ?output = "output", OF ok k free r] by blast
    then show ?thesis using Some by (auto simp: Let_def)
  qed
qed

lemma offer_inputs_ok:
  assumes "units_ok rf"
  shows "\<exists>regs' rf' A. offer_inputs ios js (regs, rf) = Some (regs', rf') \<and> units_ok rf' \<and>
    rf_in_ports rf' = rf_in_ports rf \<and> accepted (regs, rf) (regs', rf') A"
proof (induction ios)
  case Nil
  then show ?case using assms accepted_none by auto
next
  case (Cons io ios)
  obtain input out where io: "io = (input, out)" by (cases io)
  show ?case
  proof (cases "has_ready (regs input)")
    case True
    then obtain r where "get_ready (regs input) = Some r" using get_ready_iff by blast
    from offer_to_sets_ok [where regs = regs and input = input, OF assms this] show ?thesis using io True by simp
  qed (use Cons io in simp)
qed

lemma allocate_cus_ok:
  assumes "units_ok rf"
  shows "\<exists>regs' rf' A. foldM allocate_cu [0..<length (rf_in_ports rf)] (regs, rf) = Some (regs', rf') \<and> units_ok rf' \<and>
    accepted (regs, rf) (regs', rf') A"
proof -
  let ?P = "\<lambda>s. units_ok (snd s) \<and> rf_in_ports (snd s) = rf_in_ports rf \<and> (\<exists>A. accepted (regs, rf) s A)"
  have "\<exists>t. foldM allocate_cu [0..<length (rf_in_ports rf)] (regs, rf) = Some t \<and> ?P t"
  proof (rule foldM_total)
    show "?P (regs, rf)" using assms accepted_none by auto
    fix p and s :: "stage_regs \<times> opndcoll_rfu"
    assume p: "p \<in> set [0..<length (rf_in_ports rf)]" and P: "?P s"
    let ?inp = "rf_in_ports rf ! p"
    obtain regs' rf' A where "offer_inputs (zip (ip_in ?inp) (ip_out ?inp)) (ip_cu_sets ?inp) (fst s, snd s) = Some (regs', rf')"
      "units_ok rf'" "rf_in_ports rf' = rf_in_ports (snd s)" "accepted (fst s, snd s) (regs', rf') A"
      using offer_inputs_ok [of "snd s"] P by blast
    then show "\<exists>t. allocate_cu p s = Some t \<and> ?P t"
      using p P accepted_trans by (cases s) (fastforce simp: allocate_cu_def)
  qed
  then show ?thesis by auto
qed

lemma process_banks_ok: "units_ok rf \<Longrightarrow> rf_ok (process_banks rf)"
  by (simp add: rf_ok_def units_ok_def process_banks_def reset_allocation_def sizes_ok_def Let_def queues_ok_def request_ok_def)

lemma step_ok:
  assumes "rf_ok rf"
  shows "\<exists>regs' rf' D A. collector_step (regs, rf) = Some (regs', rf') \<and> rf_ok rf' \<and> D \<subseteq># complete rf \<and>
    in_stages regs' + A = in_stages regs + D \<and> in_units rf' + D = in_units rf + A"
proof -
  have "units_ok rf" using assms by (simp add: rf_ok_def)
  then obtain regs1 rf1 D where 1: "dispatch_ready_cu (regs, rf) = Some (regs1, rf1)" "units_ok rf1"
    "rf_arbiter rf1 = rf_arbiter rf" "dispatched (regs, rf) (regs1, rf1) D" using dispatch_ok by blast
  then have "rf_ok rf1" using assms by (simp add: rf_ok_def)
  then obtain rf2 where 2: "allocate_reads rf1 = Some rf2" "units_ok rf2" "in_units rf2 = in_units rf1"
    using allocate_reads_ok by blast
  obtain regs3 rf3 A where 3: "foldM allocate_cu [0..<length (rf_in_ports rf2)] (regs1, rf2) = Some (regs3, rf3)" "units_ok rf3"
    "accepted (regs1, rf2) (regs3, rf3) A" using allocate_cus_ok [OF 2(2)] by blast
  have "collector_step (regs, rf) = Some (regs3, process_banks rf3)" using 1(1) 2(1) 3(1) by (simp add: collector_step_def)
  moreover have "D \<subseteq># complete rf" using 1(4) by (simp add: dispatched_def)
  moreover have "in_stages regs3 + A = in_stages regs + D" using 1(4) 3(3) by (simp add: dispatched_def accepted_def)
  moreover have "in_units (process_banks rf3) + D = in_units rf + A"
    using 1(4) 2(3) 3(3) by (simp add: dispatched_def accepted_def in_units_def process_banks_def ac_simps)
  ultimately show ?thesis using process_banks_ok [OF 3(2)] by blast
qed

subsection \<open>Writing results\<close>

lemma write_allocation_ok:
  assumes "rf_ok rf" and "bank < length (ar_allocated (rf_arbiter rf))"
  shows "rf_ok (rf\<lparr>rf_arbiter := (rf_arbiter rf)\<lparr>ar_allocated := (ar_allocated (rf_arbiter rf))[bank := WRITE_ALLOC op]\<rparr>\<rparr>)"
proof -
  have "\<not> is_read x" if "x \<in> set ((ar_allocated (rf_arbiter rf))[bank := WRITE_ALLOC op])" for x
    using that set_update_subset_insert [of "ar_allocated (rf_arbiter rf)" bank "WRITE_ALLOC op"] assms(1)
    by (auto simp: rf_ok_def)
  moreover have "units_ok rf" using assms(1) by (simp add: rf_ok_def)
  then have "units_ok (rf\<lparr>rf_arbiter := (rf_arbiter rf)\<lparr>ar_allocated := (ar_allocated (rf_arbiter rf))[bank := WRITE_ALLOC op]\<rparr>\<rparr>)"
    by (simp add: units_ok_def sizes_ok_def Let_def queues_ok_def request_ok_def)
  ultimately show ?thesis by (simp add: rf_ok_def)
qed

lemma write_banks_ok: "rf_ok rf \<Longrightarrow> \<exists>done_all rf'. write_banks inst wid regs rf = Some (done_all, rf') \<and> rf_ok rf'"
proof (induction regs arbitrary: rf)
  case (Cons reg regs)
  let ?b = "register_bank reg (of_nat wid) (rf_num_banks rf) (rf_bank_warp_shift rf)"
  have n: "length (ar_allocated (rf_arbiter rf)) = ar_num_banks (rf_arbiter rf)" "ar_num_banks (rf_arbiter rf) = unat (rf_num_banks rf)"
    "0 < unat (rf_num_banks rf)" using Cons.prems by (auto simp: rf_ok_def units_ok_def sizes_ok_def Let_def)
  then have b: "?b < length (ar_allocated (rf_arbiter rf))" using register_bank_less by simp
  show ?case
  proof (cases "is_free (ar_allocated (rf_arbiter rf) ! ?b)")
    case True
    then show ?thesis using Cons.IH [OF write_allocation_ok [OF Cons.prems b]] b n
      by (simp add: bank_idle_def allocate_bank_for_write_def allocate_bank_def Let_def)
  next
    case False
    then have "write_banks inst wid (reg # regs) rf = Some (False, rf)" using b by (simp add: bank_idle_def Let_def)
    then show ?thesis using Cons.prems by blast
  qed
qed auto

lemma collector_writeback_ok:
  "rf_ok rf \<Longrightarrow> \<not> pi_empty inst \<Longrightarrow> \<exists>done_all rf'. collector_writeback inst rf = Some (done_all, rf') \<and> rf_ok rf'"
  using write_banks_ok by (simp add: collector_writeback_def pi_warp_id_def)

subsection \<open>Runs\<close>

lemma cu_sets_ok:
  assumes "foldM (\<lambda>kind. add_cu_set blank kind (units ! kind) (outs ! kind)) [0..<n] ([], \<lambda>_. [], []) = Some (cus, sets, dus)"
  shows "(\<forall>cu \<in> set cus. cu = collector_unit_new blank) \<and> (\<forall>j. \<forall>k \<in> set (sets j). k < length cus) \<and> (\<forall>j \<ge> n. sets j = []) \<and>
    (\<forall>du \<in> set dus. du_num du = length (sets (du_set du)) \<and> du_set du < n)"
  using assms
proof (induction n arbitrary: cus sets dus)
  case (Suc n)
  obtain cus1 sets1 dus1 where 1: "foldM (\<lambda>kind. add_cu_set blank kind (units ! kind) (outs ! kind)) [0..<n] ([], \<lambda>_. [], []) = Some (cus1, sets1, dus1)"
    and 2: "add_cu_set blank n (units ! n) (outs ! n) (cus1, sets1, dus1) = Some (cus, sets, dus)"
    using Suc.prems by (auto simp: foldM_append bind_eq_Some_iff)
  note IH = Suc.IH [OF 1]
  have e: "cus = cus1 @ replicate (units ! n) (collector_unit_new blank)" "sets = sets1(n := [length cus1..<length cus1 + units ! n])"
    "dus = dus1 @ replicate (outs ! n) \<lparr>du_num = units ! n, du_set = n, du_last_cu = 0\<rparr>"
    using 2 by (simp_all add: add_cu_set_def split: if_splits)
  have "\<forall>k \<in> set (sets j). k < length cus" for j using IH by (cases "j = n") (fastforce simp: e)+
  moreover have "du_num du = length (sets (du_set du)) \<and> du_set du < Suc n" if "du \<in> set dus" for du
    using that IH by (cases "du \<in> set dus1") (auto simp: e)
  ultimately show ?case using IH by (auto simp: e)
qed simp

lemma opndcoll_new_ok:
  assumes "opndcoll_new blank c = Some rf" and "unat (oc_num_banks c) \<le> (\<Sum>kind < 4. oc_num_units c ! kind)"
  shows "rf_ok rf"
proof -
  obtain cus sets dus ports where
    f: "foldM (\<lambda>kind. add_cu_set blank kind (oc_num_units c ! kind) (oc_out_ports c ! kind)) [0..<4] ([], \<lambda>_. [], []) = Some (cus, sets, dus)"
    and i: "opndcoll_init (oc_num_banks c) (oc_warp_size c) cus sets dus ports = Some rf"
    using assms(1) by (auto simp: opndcoll_new_def bind_eq_Some_iff simp del: upt_rec_numeral)
  have rf: "rf_cu rf = cus" "rf_cus rf = sets" "rf_dispatch_units rf = dus" "rf_num_banks rf = oc_num_banks c"
    "rf_arbiter rf = \<lparr>ar_num_banks = unat (oc_num_banks c), ar_num_collectors = length cus,
       ar_allocated = replicate (unat (oc_num_banks c)) NO_ALLOC, ar_queue = replicate (unat (oc_num_banks c)) [], ar_last_cu = 0\<rparr>"
    "0 < unat (oc_num_banks c)"
    using i by (auto simp: opndcoll_init_def arbiter_init_def split: if_splits)
  note k = cu_sets_ok [OF f]
  have new: "collector_ok (collector_unit_new blank)"
    by (simp add: collector_ok_def collector_unit_new_def)
  have "length cus = (\<Sum>kind < 4. oc_num_units c ! kind)" using opndcoll_new_arbiter(1) [OF assms(1)] rf(5) by simp
  then have "sizes_ok rf" using k assms(2) rf by (simp add: sizes_ok_def)
  moreover have "\<forall>cu \<in> set (rf_cu rf). collector_ok cu" using k new rf(1) by auto
  moreover have "queues_ok rf"
  proof (rule queues_okI [where q = "replicate (unat (oc_num_banks c)) []"])
    show "(Unit_of k', i) \<in> op_key ` set (concat (replicate (unat (oc_num_banks c)) []))"
      if "k' < length (rf_cu rf)" "i \<in> cu_not_ready (rf_cu rf ! k')" for k' i
    proof -
      have "rf_cu rf ! k' = collector_unit_new blank" using k that(1) rf(1) nth_mem by blast
      then show ?thesis using that(2) by (simp add: collector_unit_new_def)
    qed
  qed (simp_all add: rf)
  ultimately show ?thesis using rf by (simp add: rf_ok_def units_ok_def)
qed

text \<open>A collector that is stepped and written to, while the rest of the core does as it pleases with the registers.\<close>

inductive collector_run :: "pipe_inst \<Rightarrow> collector_config \<Rightarrow> opndcoll_rfu \<Rightarrow> bool" for blank c where
  new: "opndcoll_new blank c = Some rf \<Longrightarrow> collector_run blank c rf"
| step: "collector_run blank c rf \<Longrightarrow> collector_step (regs, rf) = Some (regs', rf') \<Longrightarrow> collector_run blank c rf'"
| result: "collector_run blank c rf \<Longrightarrow> \<not> pi_empty inst \<Longrightarrow> collector_writeback inst rf = Some (finished, rf') \<Longrightarrow> collector_run blank c rf'"

lemma collector_run_ok:
  assumes "collector_run blank c rf" and "unat (oc_num_banks c) \<le> (\<Sum>kind < 4. oc_num_units c ! kind)"
  shows "rf_ok rf"
  using assms(1)
proof (induction rule: collector_run.induct)
  case (new rf)
  then show ?case by (rule opndcoll_new_ok [OF _ assms(2)])
next
  case (step rf regs regs' rf')
  then show ?case using step_ok [OF step.IH, of regs] by auto
next
  case (result rf inst finished rf')
  then show ?case using collector_writeback_ok [OF result.IH, of inst] by auto
qed

subsection \<open>Properties\<close>

text \<open>
  Property C5: the operand collector cannot abort, and it neither loses nor invents an instruction. With no more register
  banks than collector units, in every state of a run the next step succeeds, whatever the pipeline registers hold.
  The instructions \<open>D\<close> it moves from the units to the registers had all their operands read before the step, and the
  instructions \<open>A\<close> it takes in exchange come out of the registers unchanged.
\<close>

theorem collector_step_safe:
  assumes "collector_run blank c rf" and "unat (oc_num_banks c) \<le> (\<Sum>kind < 4. oc_num_units c ! kind)"
  shows "\<exists>regs' rf' D A. collector_step (regs, rf) = Some (regs', rf') \<and> D \<subseteq># complete rf \<and>
    in_stages regs' + A = in_stages regs + D \<and> in_units rf' + D = in_units rf + A"
  using step_ok [OF collector_run_ok [OF assms], of regs] by blast

text \<open>The default configuration takes an instruction with one source register from \<open>ID_OC_SP\<close>.\<close>

definition default_config :: collector_config where
  "default_config = demo_config\<lparr>oc_num_banks := 8\<rparr>"

definition one_source_inst :: pipe_inst where
  "one_source_inst = issue_inst 1 0 7 0 1 (blank_pipe_inst\<lparr>pi_static := (pi_static blank_pipe_inst)\<lparr>st_src := [5]\<rparr>\<rparr>)"

definition one_source_regs :: stage_regs where
  "one_source_regs = (\<lambda>st. case st of ID_OC_SP \<Rightarrow> [one_source_inst] | _ \<Rightarrow> [blank_pipe_inst])"

lemma default_config_new: "\<exists>rf. opndcoll_new blank_pipe_inst default_config = Some rf"
proof -
  have "case opndcoll_new blank_pipe_inst default_config of None \<Rightarrow> False | Some _ \<Rightarrow> True" by code_simp
  then show ?thesis by (auto split: option.splits)
qed

theorem collector_step_safe_witness:
  "\<exists>rf regs' rf' D A. opndcoll_new blank_pipe_inst default_config = Some rf \<and>
    collector_step (one_source_regs, rf) = Some (regs', rf') \<and> in_stages regs' + A = {#one_source_inst#} + D"
proof -
  obtain rf where rf: "opndcoll_new blank_pipe_inst default_config = Some rf" using default_config_new by blast
  have units: "unat (oc_num_banks default_config) \<le> (\<Sum>kind < 4. oc_num_units default_config ! kind)" by code_simp
  have "in_stages one_source_regs = {#one_source_inst#}"
    by (simp add: in_stages_def stages_def one_source_regs_def occupants_def one_source_inst_def blank_pipe_inst_def)
  then show ?thesis using collector_step_safe [OF collector_run.new [OF rf] units, of one_source_regs] rf by fastforce
qed

end
