(* ===== verification/Writeback.thy ===== *)
theory Writeback
  imports Issue_Correct Function_Unit Operand_Runs
begin

text \<open>
  The writeback stage of a core (\<open>shader_core_ctx::writeback\<close>): it drains the \<open>EX_WB\<close> registers oldest
  instruction first, writes each to the register file, releases its registers in the scoreboard and retires it from its warp. The loop is an
  instance of draining a set of slots, whose interface is the locale \<open>slot_file\<close>.
\<close>

subsection \<open>Draining a set of slots\<close>

text \<open>
  \<open>while (next = get_ready()) body(next)\<close>; the body frees the slot, so the number of slots in use is enough fuel.
\<close>

fun drain :: "('q \<Rightarrow> nat option) \<Rightarrow> (nat \<Rightarrow> 'q \<times> 's \<Rightarrow> ('q \<times> 's) option) \<Rightarrow> nat \<Rightarrow> 'q \<times> 's \<Rightarrow> ('q \<times> 's) option" where
  "drain oldest body fuel (q, s) = (case oldest q of
       None \<Rightarrow> Some (q, s)
     | Some r \<Rightarrow> (case fuel of 0 \<Rightarrow> None | Suc fuel \<Rightarrow> do { x \<leftarrow> body r (q, s); drain oldest body fuel x }))"

declare drain.simps [simp del]

locale slot_file =
  fixes oldest :: "'q \<Rightarrow> nat option" and free :: "nat \<Rightarrow> 'q \<Rightarrow> 'q" and load :: "'q \<Rightarrow> nat"
  assumes oldest_None: "oldest q = None \<longleftrightarrow> load q = 0"
    and free_load: "oldest q = Some r \<Longrightarrow> Suc (load (free r q)) = load q"
begin

text \<open>A body that frees its slot and never aborts under an invariant drains every slot.\<close>

lemma drain_total:
  assumes "P q s" and "load q \<le> fuel"
    and "\<And>q s r. P q s \<Longrightarrow> oldest q = Some r \<Longrightarrow> \<exists>s'. body r (q, s) = Some (free r q, s') \<and> P (free r q) s'"
  shows "\<exists>q' s'. drain oldest body fuel (q, s) = Some (q', s') \<and> load q' = 0 \<and> P q' s'"
  using assms(1,2)
proof (induction fuel arbitrary: q s)
  case 0
  then show ?case using oldest_None [of q] by (subst drain.simps) auto
next
  case (Suc fuel)
  show ?case
  proof (cases "oldest q")
    case None
    then show ?thesis using Suc.prems oldest_None [of q] by (subst drain.simps) auto
  next
    case (Some r)
    then obtain s' where s': "body r (q, s) = Some (free r q, s')" "P (free r q) s'"
      using assms(3) Suc.prems(1) by blast
    moreover have "load (free r q) \<le> fuel" using free_load [OF Some] Suc.prems(2) by simp
    ultimately show ?thesis using Suc.IH [of "free r q" s'] Some by (subst drain.simps) simp
  qed
qed

end

definition clear_slot :: "nat \<Rightarrow> register_set \<Rightarrow> register_set" where
  "clear_slot r regs = regs[r := pi_clear (regs ! r)]"

lemma used_clear:
  "r < length regs \<Longrightarrow> \<not> pi_empty (regs ! r) \<Longrightarrow> Suc (used (regs[r := pi_clear p])) = used regs"
proof (induction regs arbitrary: r)
  case (Cons a regs)
  then show ?case by (cases r) (auto simp: used_def)
qed simp

interpretation wb: slot_file get_ready clear_slot used
proof
  show "get_ready q = None \<longleftrightarrow> used q = 0" for q
    using get_ready_iff [of q] by (cases "get_ready q") (auto simp: has_ready_def used_def filter_empty_conv)
  show "get_ready q = Some r \<Longrightarrow> Suc (used (clear_slot r q)) = used q" for q r
    using get_readyD [of q r] by (simp add: clear_slot_def used_clear)
qed

subsection \<open>The stage\<close>

text \<open>The refusal of the operand collector to write all registers at once is ignored, as in the code.\<close>

definition retire :: "nat \<Rightarrow> register_set \<times> 'm core_state \<times> opndcoll_rfu \<Rightarrow> (register_set \<times> 'm core_state \<times> opndcoll_rfu) option" where
  "retire r = (\<lambda>(wb, s, rf). do {
     let p = wb ! r;
     (_, rf) \<leftarrow> collector_writeback p rf;
     warp_id \<leftarrow> pi_warp_id p;
     sb \<leftarrow> releaseRegisters (inst_t.truncate (pi_inst p)) (sc_scoreboard (cs_core s));
     s \<leftarrow> on_warp warp_id dec_inst_in_pipeline (s\<lparr>cs_core := (cs_core s)\<lparr>sc_scoreboard := sb\<rparr>\<rparr>);
     s \<leftarrow> (if \<not> sc_oracle_cpl (cs_core s) then on_warp warp_id (\<lambda>w. Some (tw_warp_complete w)) s else Some s);
     Some (clear_slot r wb, s, rf)
   })"

definition writeback :: "register_set \<times> 'm core_state \<times> opndcoll_rfu \<Rightarrow> (register_set \<times> 'm core_state \<times> opndcoll_rfu) option" where
  "writeback = (\<lambda>(wb, s). drain get_ready retire (length wb) (wb, s))"

text \<open>The writeback stage followed by \<open>execute\<close>, as in \<open>shader_core_ctx::cycle\<close>.\<close>

definition writeback_execute :: "exec_stage \<times> 'm core_state \<times> opndcoll_rfu \<Rightarrow> (exec_stage \<times> 'm core_state \<times> opndcoll_rfu) option" where
  "writeback_execute = (\<lambda>(x, s, rf). do {
     (wb, s, rf) \<leftarrow> writeback (ex_wb x, s, rf);
     x \<leftarrow> execute (x\<lparr>ex_wb := wb\<rparr>);
     Some (x, s, rf)
   })"

subsection \<open>What the stage does\<close>

definition busy :: "register_set \<Rightarrow> inst_t multiset" where
  "busy regs = mset (map (\<lambda>p. inst_t.truncate (pi_inst p)) (filter (\<lambda>p. \<not> pi_empty p) regs))"

definition of_warp :: "nat \<Rightarrow> register_set \<Rightarrow> nat" where
  "of_warp i regs = length (filter (\<lambda>p. \<not> pi_empty p \<and> i_warp_id (pi_inst p) = i) regs)"

lemma busy_clear:
  "r < length regs \<Longrightarrow> \<not> pi_empty (regs ! r) \<Longrightarrow>
   busy regs = add_mset (inst_t.truncate (pi_inst (regs ! r))) (busy (clear_slot r regs))"
  unfolding clear_slot_def
proof (induction regs arbitrary: r)
  case (Cons a regs)
  then show ?case by (cases r) (auto simp: busy_def)
qed simp

lemma of_warp_clear:
  "r < length regs \<Longrightarrow> \<not> pi_empty (regs ! r) \<Longrightarrow>
   of_warp i regs = of_warp i (clear_slot r regs) + (if i = i_warp_id (pi_inst (regs ! r)) then 1 else 0)"
  unfolding clear_slot_def
proof (induction regs arbitrary: r)
  case (Cons a regs)
  then show ?case by (cases r) (auto simp: of_warp_def)
qed simp

lemma busy_used: "used regs = 0 \<Longrightarrow> busy regs = {#}"
  by (simp add: used_def busy_def)

text \<open>
  The accounting that the stage relies on: the scoreboard tracks the instructions in flight, those in the
  registers among them, and every warp counts its own in its pipeline.
\<close>

definition wb_ok :: "nat \<Rightarrow> inst_t multiset \<Rightarrow> register_set \<Rightarrow> 'm core_state \<Rightarrow> bool" where
  "wb_ok n others regs s \<longleftrightarrow> length (core_warps s) = n \<and>
     (\<exists>fl. pipe_reachable n (sc_scoreboard (cs_core s), fl) \<and> mset fl = others + busy regs) \<and>
     (\<forall>i < n. of_warp i regs \<le> m_inst_in_pipeline (core_warps s ! i))"

lemma retire_ok:
  assumes ok: "wb_ok n others regs s" and rf: "rf_ok rf" and r: "get_ready regs = Some r"
  shows "\<exists>s' rf'. retire r (regs, s, rf) = Some (clear_slot r regs, s', rf') \<and> wb_ok n others (clear_slot r regs) s' \<and> rf_ok rf'"
proof -
  let ?p = "regs ! r" let ?i = "inst_t.truncate (pi_inst ?p)" let ?w = "i_warp_id (pi_inst ?p)"
  have rl: "r < length regs" "\<not> pi_empty ?p" using get_readyD [OF r] by simp_all
  obtain fl where fl: "pipe_reachable n (sc_scoreboard (cs_core s), fl)" "mset fl = others + busy regs"
    and len: "length (core_warps s) = n"
    and cnt: "\<forall>i < n. of_warp i regs \<le> m_inst_in_pipeline (core_warps s ! i)"
    using ok unfolding wb_ok_def by blast
  have wi: "i_warp_id ?i = ?w" by (simp add: truncate_inst)
  have "?i \<in># mset fl" using busy_clear [OF rl] fl(2) by simp
  then have "?i \<in> set fl" by simp
  then obtain xs ys where split: "fl = xs @ ?i # ys" by (meson split_list)
  have inv: "pipe_inv n (sc_scoreboard (cs_core s), fl)" using fl(1) by (rule pipe_reachable_inv)
  then have wn: "?w < n" using \<open>?i \<in> set fl\<close> unfolding pipe_inv_def wi [symmetric] by auto
  have "scoreboard_wf n (sc_scoreboard (cs_core s))" using inv by (simp add: pipe_inv_def)
  then obtain sb where sb: "releaseRegisters ?i (sc_scoreboard (cs_core s)) = Some sb"
    using releaseRegisters_eq [of n "sc_scoreboard (cs_core s)" ?i] wn wi by auto
  let ?s1 = "s\<lparr>cs_core := (cs_core s)\<lparr>sc_scoreboard := sb\<rparr>\<rparr>"
  have w1: "core_warps ?s1 = core_warps s" by (simp add: core_warps_def)
  have pos: "0 < m_inst_in_pipeline (core_warps s ! ?w)"
    using cnt wn of_warp_clear [OF rl, of ?w] by (metis add_gr_0 gr_zeroI le_zero_eq less_one)
  define v where "v = (core_warps s ! ?w)\<lparr>m_inst_in_pipeline := m_inst_in_pipeline (core_warps s ! ?w) - 1\<rparr>"
  let ?s2 = "upd_warps ((core_warps s)[?w := v]) ?s1"
  have s2: "on_warp ?w dec_inst_in_pipeline ?s1 = Some ?s2"
    using wn len pos w1 by (simp add: on_warp_eq dec_inst_in_pipeline_def v_def)
  define s3 where "s3 = (if sc_oracle_cpl (cs_core s) then ?s2 else upd_warps ((core_warps s)[?w := tw_warp_complete v]) ?s1)"
  have s3: "(if \<not> sc_oracle_cpl (cs_core ?s2) then on_warp ?w (\<lambda>w. Some (tw_warp_complete w)) ?s2 else Some ?s2) = Some s3"
    using wn len by (simp add: s3_def on_warp_eq)
  obtain b rf' where rf': "collector_writeback ?p rf = Some (b, rf')" "rf_ok rf'" using collector_writeback_ok [OF rf rl(2)] by blast
  have ret: "retire r (regs, s, rf) = Some (clear_slot r regs, s3, rf')"
    using rl sb s2 s3 rf'(1) by (simp add: retire_def pi_warp_id_def Let_def)
  have step: "pipe_reachable n (sb, xs @ ys)"
    using pipe_reachable.step [OF fl(1)] pipe_step.complete [OF sb] unfolding split by blast
  have "mset (xs @ ys) = others + busy (clear_slot r regs)"
    using fl(2) busy_clear [OF rl] split by simp
  moreover have "sc_scoreboard (cs_core s3) = sb" by (simp add: s3_def)
  moreover have "length (core_warps s3) = n" using len by (simp add: s3_def)
  moreover have "of_warp i (clear_slot r regs) \<le> m_inst_in_pipeline (core_warps s3 ! i)" if "i < n" for i
  proof -
    have "of_warp i regs \<le> m_inst_in_pipeline (core_warps s ! i)" using cnt that by blast
    then show ?thesis
      using of_warp_clear [OF rl, of i] that len
      by (cases "i = ?w") (auto simp: s3_def v_def tw_warp_complete_def)
  qed
  ultimately show ?thesis using ret step rf'(2) unfolding wb_ok_def by blast
qed

lemma used_le: "used regs \<le> length regs"
  by (simp add: used_def)

lemma writeback_ok:
  assumes "wb_ok n others regs s" and "rf_ok rf"
  shows "\<exists>regs' s' rf'. writeback (regs, s, rf) = Some (regs', s', rf') \<and> used regs' = 0 \<and> length regs' = length regs \<and>
    wb_ok n others regs' s' \<and> rf_ok rf'"
proof -
  let ?P = "\<lambda>q t. wb_ok n others q (fst t) \<and> rf_ok (snd t) \<and> length q = length regs"
  have "\<exists>regs' t. drain get_ready retire (length regs) (regs, s, rf) = Some (regs', t) \<and> used regs' = 0 \<and> ?P regs' t"
  proof (rule wb.drain_total)
    show "?P regs (s, rf)" using assms by simp
    show "used regs \<le> length regs" by (rule used_le)
    fix q r and t :: "'a core_state \<times> opndcoll_rfu"
    assume q: "?P q t" "get_ready q = Some r"
    then show "\<exists>t'. retire r (q, t) = Some (clear_slot r q, t') \<and> ?P (clear_slot r q) t'"
      using retire_ok [of n others q "fst t" "snd t" r] by (auto simp: clear_slot_def)
  qed
  then show ?thesis by (auto simp: writeback_def)
qed

subsection \<open>Properties\<close>


text \<open>A load waits in \<open>EX_WB\<close> while an instruction enters the arithmetic unit of the example.\<close>

definition done_load :: pipe_inst where
  "done_load = issue_inst 1 0 7 0 1 (program_inst add_info sample_load)"

lemma default_config_ok: "opndcoll_new blank_pipe_inst default_config = Some rf \<Longrightarrow> rf_ok rf"
proof (erule opndcoll_new_ok)
  show "unat (oc_num_banks default_config) \<le> (\<Sum>kind < 4. oc_num_units default_config ! kind)" by code_simp
qed


end
