(* ===== verification/Tag_Array.thy ===== *)
theory Tag_Array
  imports Cache_Config
begin

text \<open>
  The tag array of a cache (\<open>tag_array\<close> of \<open>gpgpu-sim/gpu-cache.cc\<close>): lines with a tag, a
  status and time stamps; \<open>probe\<close> looks an address up and picks a replacement candidate,
  \<open>access\<close> updates the array, \<open>fill\<close> completes a reserved line.
  The properties: \<open>probe\<close> is exact on hits and its victim is never a reserved line, is
  invalid when some way is invalid and otherwise is the least recently used (or oldest) way;
  a block is held by at most one line of its set, whatever the operations do.
  Calls of \<open>shader_cache_access_log\<close> only feed the visualizer and are left out.
\<close>

datatype cache_block_state = INVALID | RESERVED | VALID | MODIFIED
datatype cache_request_status = HIT | HIT_RESERVED | MISS | RESERVATION_FAIL

text \<open>
  \<open>sig\<close> is the only member the constructor of \<open>cache_block_t\<close> leaves uninitialised, which
  is \<open>None\<close>.
\<close>

record cache_block =
  m_tag :: u64
  m_block_addr :: u64
  m_alloc_time :: u32
  m_last_access_time :: u32
  m_fill_time :: u32
  m_status :: cache_block_state
  c_reuse :: bool
  nc_reuse :: bool
  sig :: "nat option"

definition cache_block_new :: cache_block where
  "cache_block_new = \<lparr>m_tag = 0, m_block_addr = 0, m_alloc_time = 0, m_last_access_time = 0,
     m_fill_time = 0, m_status = INVALID, c_reuse = False, nc_reuse = False, sig = None\<rparr>"

definition block_allocate :: "u64 \<Rightarrow> u64 \<Rightarrow> u32 \<Rightarrow> cache_block \<Rightarrow> cache_block" where
  "block_allocate t b time blk = blk\<lparr>m_tag := t, m_block_addr := b, m_alloc_time := time,
     m_last_access_time := time, m_fill_time := 0, m_status := RESERVED\<rparr>"

definition block_fill :: "u32 \<Rightarrow> cache_block \<Rightarrow> cache_block option" where
  "block_fill time blk = do {
     require (m_status blk = RESERVED);
     Some (blk\<lparr>m_status := VALID, m_fill_time := time\<rparr>)
   }"

record tag_array =
  m_lines :: "cache_block list"
  m_access :: u32
  m_miss :: u32
  m_pending_hit :: u32
  m_res_fail :: u32
  m_prev_snapshot_access :: u32
  m_prev_snapshot_miss :: u32
  m_prev_snapshot_pending_hit :: u32
  m_core_id :: int
  m_type_id :: int

definition tag_array_init :: "cache_block list \<Rightarrow> int \<Rightarrow> int \<Rightarrow> tag_array" where
  "tag_array_init lines core_id type_id = \<lparr>m_lines = lines, m_access = 0, m_miss = 0,
     m_pending_hit = 0, m_res_fail = 0, m_prev_snapshot_access = 0, m_prev_snapshot_miss = 0,
     m_prev_snapshot_pending_hit = 0, m_core_id = core_id, m_type_id = type_id\<rparr>"

text \<open>The array is allocated \<open>MAX_DEFAULT_CACHE_SIZE_MULTIBLIER\<close> (4) times too large.\<close>

definition tag_array_new :: "cache_config \<Rightarrow> int \<Rightarrow> int \<Rightarrow> tag_array" where
  "tag_array_new cfg core_id type_id =
     tag_array_init (replicate (4 * get_num_lines cfg) cache_block_new) core_id type_id"

subsection \<open>Probing\<close>

text \<open>
  The variables of the loop of \<open>probe\<close>. \<open>None\<close> in a line index is the sentinel
  \<open>(unsigned)-1\<close>; the timestamp starts at \<open>(unsigned)-1\<close>.
\<close>

record probe_vars =
  invalid_line :: "nat option"
  valid_line :: "nat option"
  valid_timestamp :: u32
  all_reserved :: bool

definition probe_vars_init :: probe_vars where
  "probe_vars_init =
     \<lparr>invalid_line = None, valid_line = None, valid_timestamp = - 1, all_reserved = True\<rparr>"

definition stamp :: "cache_config \<Rightarrow> cache_block \<Rightarrow> u32" where
  "stamp cfg line = (case m_replacement_policy cfg of
     LRU \<Rightarrow> m_last_access_time line | FIFO \<Rightarrow> m_alloc_time line)"

definition probe_candidate ::
    "cache_config \<Rightarrow> nat \<Rightarrow> cache_block \<Rightarrow> probe_vars \<Rightarrow> probe_vars" where
  "probe_candidate cfg index line v =
     (if m_status line = RESERVED then v
      else let v = v\<lparr>all_reserved := False\<rparr> in
        if m_status line = INVALID then v\<lparr>invalid_line := Some index\<rparr>
        else if stamp cfg line < valid_timestamp v
             then v\<lparr>valid_timestamp := stamp cfg line, valid_line := Some index\<rparr>
        else v)"

text \<open>One iteration per way; \<open>Inl\<close> is a return from inside the loop.\<close>

fun probe_loop :: "cache_config \<Rightarrow> cache_block list \<Rightarrow> u64 \<Rightarrow> nat list \<Rightarrow> probe_vars \<Rightarrow>
    (cache_request_status \<times> nat) + probe_vars" where
  "probe_loop cfg lines t [] v = Inr v"
| "probe_loop cfg lines t (index # rest) v =
     (let line = lines ! index in
      if m_tag line = t \<and> m_status line = RESERVED then Inl (HIT_RESERVED, index)
      else if m_tag line = t \<and> m_status line = VALID then Inl (HIT, index)
      else if m_tag line = t \<and> m_status line = MODIFIED then Inl (HIT, index)
      else probe_loop cfg lines t rest (probe_candidate cfg index line v))"

definition set_lines :: "cache_config \<Rightarrow> u32 \<Rightarrow> nat list" where
  "set_lines cfg i = [unat i * m_assoc cfg ..< unat i * m_assoc cfg + m_assoc cfg]"

text \<open>
  The status and the index stored through the reference \<open>idx\<close> (\<open>None\<close> when the call
  leaves it as it was). Reading past the end of the line array is undefined and is refused
  up front.
\<close>

definition probe :: "cache_config \<Rightarrow> tag_array \<Rightarrow> u64 \<Rightarrow>
    (cache_request_status \<times> nat option) option" where
  "probe cfg ta addr = do {
     i \<leftarrow> set_index cfg addr;
     require (unat i * m_assoc cfg + m_assoc cfg \<le> length (m_lines ta));
     (case probe_loop cfg (m_lines ta) (tag cfg addr) (set_lines cfg i) probe_vars_init of
        Inl (status, index) \<Rightarrow> Some (status, Some index)
      | Inr v \<Rightarrow>
          if all_reserved v then do {
            require (m_alloc_policy cfg = ON_MISS);
            Some (RESERVATION_FAIL, None)
          } else (case invalid_line v of
              Some index \<Rightarrow> Some (MISS, Some index)
            | None \<Rightarrow> (case valid_line v of
                Some index \<Rightarrow> Some (MISS, Some index)
              | None \<Rightarrow> None)))
   }"

subsection \<open>Accessing and filling\<close>

text \<open>
  The five-argument \<open>access\<close>. The result is the status, the index written through \<open>idx\<close>,
  the evicted line when \<open>wb\<close> was set, and the array.
\<close>

definition access :: "cache_config \<Rightarrow> tag_array \<Rightarrow> u64 \<Rightarrow> u32 \<Rightarrow>
    (cache_request_status \<times> nat option \<times> cache_block option \<times> tag_array) option" where
  "access cfg ta0 addr time = do {
     let ta = ta0\<lparr>m_access := m_access ta0 + 1\<rparr>;
     (status, idx) \<leftarrow> probe cfg ta addr;
     (case (status, idx) of
        (HIT_RESERVED, Some i) \<Rightarrow>
          Some (status, idx, None,
            ta\<lparr>m_pending_hit := m_pending_hit ta + 1,
               m_lines := (m_lines ta)[i := (m_lines ta ! i)\<lparr>m_last_access_time := time\<rparr>]\<rparr>)
      | (HIT, Some i) \<Rightarrow>
          Some (status, idx, None,
            ta\<lparr>m_lines := (m_lines ta)[i := (m_lines ta ! i)\<lparr>m_last_access_time := time\<rparr>]\<rparr>)
      | (MISS, Some i) \<Rightarrow>
          let ta = ta\<lparr>m_miss := m_miss ta + 1\<rparr> in
          if m_alloc_policy cfg = ON_MISS
          then Some (status, idx,
            (if m_status (m_lines ta ! i) = MODIFIED then Some (m_lines ta ! i) else None),
            ta\<lparr>m_lines := (m_lines ta)
                 [i := block_allocate (tag cfg addr) (block_addr cfg addr) time (m_lines ta ! i)]\<rparr>)
          else Some (status, idx, None, ta)
      | (RESERVATION_FAIL, _) \<Rightarrow>
          Some (status, idx, None, ta\<lparr>m_res_fail := m_res_fail ta + 1\<rparr>)
      | _ \<Rightarrow> None)
   }"

text \<open>The three-argument \<open>access\<close>, which asserts that nothing has to be written back.\<close>

definition access_no_wb :: "cache_config \<Rightarrow> tag_array \<Rightarrow> u64 \<Rightarrow> u32 \<Rightarrow>
    (cache_request_status \<times> nat option \<times> tag_array) option" where
  "access_no_wb cfg ta addr time = do {
     (status, idx, evicted, ta') \<leftarrow> access cfg ta addr time;
     require (evicted = None);
     Some (status, idx, ta')
   }"

definition fill_addr :: "cache_config \<Rightarrow> tag_array \<Rightarrow> u64 \<Rightarrow> u32 \<Rightarrow> tag_array option" where
  "fill_addr cfg ta addr time = do {
     require (m_alloc_policy cfg = ON_FILL);
     (status, idx) \<leftarrow> probe cfg ta addr;
     require (status = MISS);
     i \<leftarrow> idx;
     line \<leftarrow> block_fill time
       (block_allocate (tag cfg addr) (block_addr cfg addr) time (m_lines ta ! i));
     Some (ta\<lparr>m_lines := (m_lines ta)[i := line]\<rparr>)
   }"

definition fill_index :: "cache_config \<Rightarrow> tag_array \<Rightarrow> nat \<Rightarrow> u32 \<Rightarrow> tag_array option" where
  "fill_index cfg ta index time = do {
     require (m_alloc_policy cfg = ON_MISS);
     line \<leftarrow> nth_opt (m_lines ta) index;
     line' \<leftarrow> block_fill time line;
     Some (ta\<lparr>m_lines := (m_lines ta)[index := line']\<rparr>)
   }"

definition flush :: "cache_config \<Rightarrow> tag_array \<Rightarrow> tag_array" where
  "flush cfg ta = ta\<lparr>m_lines :=
     map (\<lambda>l. l\<lparr>m_status := INVALID\<rparr>) (take (get_num_lines cfg) (m_lines ta)) @
     drop (get_num_lines cfg) (m_lines ta)\<rparr>"

text \<open>\<open>get_block(i).m_status = s\<close>, the write through the reference \<open>get_block\<close> returns.\<close>

definition set_block_status :: "nat \<Rightarrow> cache_block_state \<Rightarrow> tag_array \<Rightarrow> tag_array option" where
  "set_block_status i s ta = do {
     line \<leftarrow> nth_opt (m_lines ta) i;
     Some (ta\<lparr>m_lines := (m_lines ta)[i := line\<lparr>m_status := s\<rparr>]\<rparr>)
   }"

subsection \<open>Window statistics\<close>

definition new_window :: "tag_array \<Rightarrow> tag_array" where
  "new_window ta = ta\<lparr>m_prev_snapshot_access := m_access ta,
     m_prev_snapshot_miss := m_miss ta, m_prev_snapshot_pending_hit := m_pending_hit ta\<rparr>"

text \<open>The numerator and the denominator of \<open>windowed_miss_rate\<close>.\<close>

definition windowed_counts :: "tag_array \<Rightarrow> u32 \<times> u32" where
  "windowed_counts ta =
     (m_miss ta - m_prev_snapshot_miss ta, m_access ta - m_prev_snapshot_access ta)"

definition get_stats :: "tag_array \<Rightarrow> u32 \<times> u32 \<times> u32 \<times> u32" where
  "get_stats ta = (m_access ta, m_miss ta, m_pending_hit ta, m_res_fail ta)"

subsection \<open>What the loop of \<open>probe\<close> computes\<close>

definition live :: "cache_block \<Rightarrow> bool" where
  "live line \<longleftrightarrow> m_status line \<noteq> INVALID"

definition holds :: "u64 \<Rightarrow> cache_block \<Rightarrow> bool" where
  "holds t line \<longleftrightarrow> m_tag line = t \<and> live line"

definition hit_status :: "cache_block \<Rightarrow> cache_request_status" where
  "hit_status line = (if m_status line = RESERVED then HIT_RESERVED else HIT)"

lemma probe_loop_eq:
  "probe_loop cfg lines t idxs v =
     (case find (\<lambda>j. holds t (lines ! j)) idxs of
        Some j \<Rightarrow> Inl (hit_status (lines ! j), j)
      | None \<Rightarrow> Inr (fold (\<lambda>j. probe_candidate cfg j (lines ! j)) idxs v))"
proof (induction idxs arbitrary: v)
  case (Cons j idxs)
  then show ?case
    by (cases "m_status (lines ! j)")
      (auto simp: holds_def live_def hit_status_def Let_def split: option.splits)
qed simp

definition candidates_ok :: "cache_config \<Rightarrow> cache_block list \<Rightarrow> nat set \<Rightarrow> probe_vars \<Rightarrow> bool" where
  "candidates_ok cfg lines S v \<longleftrightarrow>
     (all_reserved v \<longleftrightarrow> (\<forall>j \<in> S. m_status (lines ! j) = RESERVED)) \<and>
     (case invalid_line v of
        Some j \<Rightarrow> j \<in> S \<and> m_status (lines ! j) = INVALID
      | None \<Rightarrow> \<forall>j \<in> S. m_status (lines ! j) \<noteq> INVALID) \<and>
     (\<forall>k \<in> S. m_status (lines ! k) \<in> {VALID, MODIFIED} \<longrightarrow>
        valid_timestamp v \<le> stamp cfg (lines ! k)) \<and>
     (case valid_line v of
        Some j \<Rightarrow> j \<in> S \<and> m_status (lines ! j) \<in> {VALID, MODIFIED} \<and>
          stamp cfg (lines ! j) = valid_timestamp v
      | None \<Rightarrow> valid_timestamp v = - 1)"

lemma word_le_max: "w \<le> (- 1 :: u32)"
  by (rule word_order.extremum)

lemma candidates_ok_init: "candidates_ok cfg lines {} probe_vars_init"
  by (simp add: candidates_ok_def probe_vars_init_def)

lemma candidates_ok_step:
  assumes "candidates_ok cfg lines S v"
  shows "candidates_ok cfg lines (insert j S) (probe_candidate cfg j (lines ! j) v)"
proof (cases "m_status (lines ! j) = RESERVED \<or> m_status (lines ! j) = INVALID")
  case True
  with assms show ?thesis
    by (auto simp: candidates_ok_def probe_candidate_def Let_def split: option.splits)
next
  case False
  then have st: "m_status (lines ! j) \<in> {VALID, MODIFIED}"
    by (cases "m_status (lines ! j)") simp_all
  show ?thesis
  proof (cases "stamp cfg (lines ! j) < valid_timestamp v")
    case True
    with False st assms show ?thesis
      by (auto simp: candidates_ok_def probe_candidate_def Let_def split: option.splits)
  next
    case nless: False
    with False st assms show ?thesis
      by (auto simp: candidates_ok_def probe_candidate_def Let_def not_less
          split: option.splits)
  qed
qed

lemma candidates_ok_fold:
  "candidates_ok cfg lines S v \<Longrightarrow>
   candidates_ok cfg lines (S \<union> set idxs)
     (fold (\<lambda>j. probe_candidate cfg j (lines ! j)) idxs v)"
proof (induction idxs arbitrary: S v)
  case (Cons j idxs)
  from Cons.IH [OF candidates_ok_step [OF Cons.prems, of j]] show ?case
    by (simp add: Un_insert_left)
qed simp

lemma candidates_ok_all:
  "candidates_ok cfg lines (set idxs)
     (fold (\<lambda>j. probe_candidate cfg j (lines ! j)) idxs probe_vars_init)"
  using candidates_ok_fold [OF candidates_ok_init] by simp

subsection \<open>What \<open>probe\<close> returns\<close>

text \<open>The array has room for the set of the address.\<close>

definition in_set :: "cache_config \<Rightarrow> tag_array \<Rightarrow> u64 \<Rightarrow> nat \<Rightarrow> bool" where
  "in_set cfg ta addr j \<longleftrightarrow> (\<exists>i. set_index cfg addr = Some i \<and> j \<in> set (set_lines cfg i) \<and>
     unat i * m_assoc cfg + m_assoc cfg \<le> length (m_lines ta))"

definition probe_defined :: "cache_config \<Rightarrow> tag_array \<Rightarrow> u64 \<Rightarrow> bool" where
  "probe_defined cfg ta addr \<longleftrightarrow> (\<exists>i. set_index cfg addr = Some i \<and>
     unat i * m_assoc cfg + m_assoc cfg \<le> length (m_lines ta))"

lemma in_set_less: "in_set cfg ta addr j \<Longrightarrow> j < length (m_lines ta)"
  by (auto simp: in_set_def set_lines_def)

lemma probe_cases:
  assumes "probe_defined cfg ta addr"
  obtains
    (hit) j where "in_set cfg ta addr j" "holds (tag cfg addr) (m_lines ta ! j)"
      "probe cfg ta addr = Some (hit_status (m_lines ta ! j), Some j)"
  | (full) "\<And>j. in_set cfg ta addr j \<Longrightarrow> m_status (m_lines ta ! j) = RESERVED"
      "\<And>j. in_set cfg ta addr j \<Longrightarrow> \<not> holds (tag cfg addr) (m_lines ta ! j)"
      "probe cfg ta addr =
         (if m_alloc_policy cfg = ON_MISS then Some (RESERVATION_FAIL, None) else None)"
  | (invalid) j where "in_set cfg ta addr j" "m_status (m_lines ta ! j) = INVALID"
      "\<And>k. in_set cfg ta addr k \<Longrightarrow> \<not> holds (tag cfg addr) (m_lines ta ! k)"
      "probe cfg ta addr = Some (MISS, Some j)"
  | (valid) j where "in_set cfg ta addr j" "m_status (m_lines ta ! j) \<in> {VALID, MODIFIED}"
      "\<And>k. in_set cfg ta addr k \<Longrightarrow> \<not> holds (tag cfg addr) (m_lines ta ! k)"
      "\<And>k. in_set cfg ta addr k \<Longrightarrow> m_status (m_lines ta ! k) \<noteq> INVALID"
      "\<And>k. in_set cfg ta addr k \<Longrightarrow> m_status (m_lines ta ! k) \<noteq> RESERVED \<Longrightarrow>
         stamp cfg (m_lines ta ! j) \<le> stamp cfg (m_lines ta ! k)"
      "probe cfg ta addr = Some (MISS, Some j)"
  | (stuck) k where "in_set cfg ta addr k" "m_status (m_lines ta ! k) \<in> {VALID, MODIFIED}"
      "\<And>k. in_set cfg ta addr k \<Longrightarrow> \<not> holds (tag cfg addr) (m_lines ta ! k)"
      "\<And>k. in_set cfg ta addr k \<Longrightarrow> m_status (m_lines ta ! k) \<noteq> INVALID"
      "\<And>k. in_set cfg ta addr k \<Longrightarrow> m_status (m_lines ta ! k) \<noteq> RESERVED \<Longrightarrow>
         stamp cfg (m_lines ta ! k) = - 1"
      "probe cfg ta addr = None"
proof -
  obtain i where i: "set_index cfg addr = Some i"
    "unat i * m_assoc cfg + m_assoc cfg \<le> length (m_lines ta)"
    using assms by (auto simp: probe_defined_def)
  have inset: "in_set cfg ta addr j \<longleftrightarrow> j \<in> set (set_lines cfg i)" for j
    using i by (auto simp: in_set_def)
  let ?t = "tag cfg addr" and ?L = "m_lines ta"
  let ?v = "fold (\<lambda>j. probe_candidate cfg j (?L ! j)) (set_lines cfg i) probe_vars_init"
  have pr: "probe cfg ta addr =
    (case find (\<lambda>j. holds ?t (?L ! j)) (set_lines cfg i) of
       Some j \<Rightarrow> Some (hit_status (?L ! j), Some j)
     | None \<Rightarrow> if all_reserved ?v
         then (if m_alloc_policy cfg = ON_MISS then Some (RESERVATION_FAIL, None) else None)
         else (case invalid_line ?v of Some j \<Rightarrow> Some (MISS, Some j)
           | None \<Rightarrow> (case valid_line ?v of Some j \<Rightarrow> Some (MISS, Some j) | None \<Rightarrow> None)))"
    using i by (simp add: probe_def probe_loop_eq split: option.splits)
  have ok: "candidates_ok cfg ?L (set (set_lines cfg i)) ?v"
    by (rule candidates_ok_all)
  show thesis
  proof (cases "find (\<lambda>j. holds ?t (?L ! j)) (set_lines cfg i)")
    case (Some j)
    then have "in_set cfg ta addr j" and "holds ?t (?L ! j)"
      by (auto simp: find_Some_iff inset)
    then show thesis
      by (rule hit) (simp add: pr Some)
  next
    case None
    then have nohold: "\<not> holds ?t (?L ! k)" if "in_set cfg ta addr k" for k
      using that by (auto simp: find_None_iff inset)
    show thesis
    proof (cases "all_reserved ?v")
      case True
      with None ok pr nohold show thesis
        by (intro full) (auto simp: candidates_ok_def inset)
    next
      case nr: False
      show thesis
      proof (cases "invalid_line ?v")
        case (Some j)
        with None ok pr nohold nr show thesis
          by (intro invalid [of j]) (auto simp: candidates_ok_def inset)
      next
        case noinv: None
        show thesis
        proof (cases "valid_line ?v")
          case (Some j)
          have le: "stamp cfg (?L ! j) \<le> stamp cfg (?L ! k)"
            if "in_set cfg ta addr k" "m_status (?L ! k) \<noteq> RESERVED" for k
            using that ok noinv Some
            by (cases "m_status (?L ! k)") (auto simp: candidates_ok_def inset)
          from None ok pr nohold nr noinv Some le show thesis
            by (intro valid [of j]) (auto simp: candidates_ok_def inset)
        next
          case novalid: None
          obtain k where k: "k \<in> set (set_lines cfg i)" "m_status (?L ! k) \<noteq> RESERVED"
            using nr ok by (auto simp: candidates_ok_def)
          have k2: "m_status (?L ! k) \<in> {VALID, MODIFIED}"
            using k ok noinv by (cases "m_status (?L ! k)") (auto simp: candidates_ok_def)
          have top: "stamp cfg (?L ! k) = - 1"
            if "in_set cfg ta addr k" "m_status (?L ! k) \<noteq> RESERVED" for k
          proof -
            have "- 1 \<le> stamp cfg (?L ! k)"
              using that ok noinv novalid
              by (cases "m_status (?L ! k)") (auto simp: candidates_ok_def inset)
            with word_le_max show ?thesis by (rule antisym)
          qed
          from None ok pr nohold nr noinv novalid k k2 top show thesis
            by (intro stuck [of k]) (auto simp: candidates_ok_def inset)
        qed
      qed
    qed
  qed
qed

lemma probe_in_set: "probe cfg ta addr = Some (s, Some j) \<Longrightarrow> in_set cfg ta addr j"
proof -
  assume p: "probe cfg ta addr = Some (s, Some j)"
  then have "probe_defined cfg ta addr"
    by (auto simp: probe_def probe_defined_def bind_eq_Some_iff split: if_splits)
  then show "in_set cfg ta addr j"
    by (cases rule: probe_cases) (use p in \<open>auto split: if_splits\<close>)
qed

lemma probe_defined_if_Some: "probe cfg ta addr = Some r \<Longrightarrow> probe_defined cfg ta addr"
  by (auto simp: probe_def probe_defined_def bind_eq_Some_iff split: if_splits)

lemma probe_status_idx:
  assumes "probe cfg ta addr = Some (s, idx)"
  shows "(s = RESERVATION_FAIL \<longleftrightarrow> idx = None)"
  using probe_defined_if_Some [OF assms]
  by (cases rule: probe_cases) (use assms in \<open>auto simp: hit_status_def split: if_splits\<close>)

lemma probe_hit:
  assumes "probe cfg ta addr = Some (s, Some j)" and "s = HIT \<or> s = HIT_RESERVED"
  shows "holds (tag cfg addr) (m_lines ta ! j)" and "s = hit_status (m_lines ta ! j)"
  using probe_defined_if_Some [OF assms(1)]
  by (cases rule: probe_cases; use assms in \<open>auto split: if_splits\<close>)+

lemma probe_miss:
  assumes "probe cfg ta addr = Some (MISS, Some j)"
  shows "m_status (m_lines ta ! j) \<noteq> RESERVED"
    and "in_set cfg ta addr k \<Longrightarrow> \<not> holds (tag cfg addr) (m_lines ta ! k)"
  using probe_defined_if_Some [OF assms(1)]
  by (cases rule: probe_cases; use assms in \<open>auto simp: hit_status_def split: if_splits\<close>)+

text \<open>The probe depends on the line array only.\<close>

lemma probe_cong: "m_lines ta = m_lines ta' \<Longrightarrow> probe cfg ta addr = probe cfg ta' addr"
  by (simp add: probe_def)

lemma in_set_cong:
  "length (m_lines ta) = length (m_lines ta') \<Longrightarrow> in_set cfg ta addr j = in_set cfg ta' addr j"
  by (simp add: in_set_def)

text \<open>A probe after a change at one line of the set that now holds the address.\<close>

lemma probe_after_install:
  assumes "in_set cfg ta addr j" and "holds (tag cfg addr) l"
    and "\<And>k. in_set cfg ta addr k \<Longrightarrow> k \<noteq> j \<Longrightarrow> \<not> holds (tag cfg addr) (m_lines ta ! k)"
  shows "probe cfg (ta\<lparr>m_lines := (m_lines ta)[j := l]\<rparr>) addr = Some (hit_status l, Some j)"
    (is "probe cfg ?ta addr = _")
proof -
  have len: "j < length (m_lines ta)"
    using in_set_less assms(1) .
  have same: "in_set cfg ?ta addr k = in_set cfg ta addr k" for k
    by (rule in_set_cong) simp
  have at: "m_lines ?ta ! j = l" using len by simp
  have def: "probe_defined cfg ?ta addr"
    using assms(1) by (auto simp: probe_defined_def in_set_def)
  have some: "\<exists>k. in_set cfg ?ta addr k \<and> holds (tag cfg addr) (m_lines ?ta ! k)"
    using assms(1,2) at same by metis
  from def show ?thesis
  proof (cases rule: probe_cases)
    case (hit k)
    have "k = j"
    proof (rule ccontr)
      assume "k \<noteq> j"
      then have "m_lines ?ta ! k = m_lines ta ! k" by simp
      with hit(2) have "holds (tag cfg addr) (m_lines ta ! k)" by simp
      with assms(3) [OF _ \<open>k \<noteq> j\<close>] hit(1) same show False by blast
    qed
    with hit(3) at show ?thesis by simp
  next
    case full
    with some show ?thesis by blast
  next
    case (invalid k)
    with some show ?thesis by blast
  next
    case (valid k)
    with some show ?thesis by blast
  next
    case (stuck k)
    with some show ?thesis by blast
  qed
qed

subsection \<open>What \<open>access\<close> does\<close>

lemma access_cases:
  assumes "access cfg ta addr time = Some (s, idx, ev, ta')"
  obtains
    (hit) j where "s = HIT \<or> s = HIT_RESERVED" "idx = Some j"
      "probe cfg ta addr = Some (s, Some j)" "ev = None"
      "m_lines ta' = (m_lines ta)[j := (m_lines ta ! j)\<lparr>m_last_access_time := time\<rparr>]"
  | (miss) j where "s = MISS" "idx = Some j" "probe cfg ta addr = Some (MISS, Some j)"
      "m_alloc_policy cfg = ON_MISS"
      "ev = (if m_status (m_lines ta ! j) = MODIFIED then Some (m_lines ta ! j) else None)"
      "m_lines ta' = (m_lines ta)
         [j := block_allocate (tag cfg addr) (block_addr cfg addr) time (m_lines ta ! j)]"
  | (on_fill) j where "s = MISS" "idx = Some j" "probe cfg ta addr = Some (MISS, Some j)"
      "m_alloc_policy cfg = ON_FILL" "ev = None" "m_lines ta' = m_lines ta"
  | (full) "s = RESERVATION_FAIL" "idx = None"
      "probe cfg ta addr = Some (RESERVATION_FAIL, None)" "ev = None" "m_lines ta' = m_lines ta"
proof -
  let ?ta = "ta\<lparr>m_access := m_access ta + 1\<rparr>"
  obtain s0 i0 where p: "probe cfg ?ta addr = Some (s0, i0)"
    using assms by (auto simp: access_def bind_eq_Some_iff Let_def)
  have p': "probe cfg ta addr = Some (s0, i0)"
    using p probe_cong [of ta ?ta] by simp
  show thesis
  proof (cases s0)
    case HIT
    then obtain j where "i0 = Some j"
      using probe_status_idx [OF p'] by (cases i0) auto
    with HIT assms p p' show thesis
      by (intro hit [of j]) (auto simp: access_def Let_def)
  next
    case HIT_RESERVED
    then obtain j where "i0 = Some j"
      using probe_status_idx [OF p'] by (cases i0) auto
    with HIT_RESERVED assms p p' show thesis
      by (intro hit [of j]) (auto simp: access_def Let_def)
  next
    case MISS
    then obtain j where j: "i0 = Some j"
      using probe_status_idx [OF p'] by (cases i0) auto
    show thesis
    proof (cases "m_alloc_policy cfg")
      case ON_MISS
      with MISS j assms p p' show thesis
        by (intro miss [of j]) (auto simp: access_def Let_def)
    next
      case ON_FILL
      with MISS j assms p p' show thesis
        by (intro on_fill [of j]) (auto simp: access_def Let_def)
    qed
  next
    case RESERVATION_FAIL
    then have "i0 = None"
      using probe_status_idx [OF p'] by simp
    with RESERVATION_FAIL assms p p' show thesis
      by (intro full) (auto simp: access_def Let_def)
  qed
qed

text \<open>\<open>access\<close> aborts only where \<open>probe\<close> does.\<close>

lemma access_total:
  assumes "probe cfg ta addr = Some (s, idx)"
  shows "\<exists>ev ta'. access cfg ta addr time = Some (s, idx, ev, ta')"
proof -
  let ?ta = "ta\<lparr>m_access := m_access ta + 1\<rparr>"
  have "probe cfg ?ta addr = Some (s, idx)"
    using assms probe_cong [of ta ?ta] by simp
  then show ?thesis
    using probe_status_idx [OF assms]
    by (cases s; cases idx) (auto simp: access_def Let_def)
qed

lemma access_status: "access cfg ta addr time = Some (s, idx, ev, ta') \<Longrightarrow>
    probe cfg ta addr = Some (s, idx)"
  by (erule access_cases) auto

lemma access_length [frame]:
  "access cfg ta addr time = Some (s, idx, ev, ta') \<Longrightarrow> length (m_lines ta') = length (m_lines ta)"
  by (erule access_cases) simp_all

lemma access_other_lines [frame]:
  "access cfg ta addr time = Some (s, idx, ev, ta') \<Longrightarrow> idx \<noteq> Some k \<Longrightarrow>
   m_lines ta' ! k = m_lines ta ! k"
  by (erule access_cases) auto

subsection \<open>Hits and victims\<close>

text \<open>Two ways of one set never hold the same tag.\<close>

definition unique_tags :: "cache_config \<Rightarrow> cache_block list \<Rightarrow> bool" where
  "unique_tags cfg lines \<longleftrightarrow> (\<forall>i < length lines. \<forall>j < length lines.
     i div m_assoc cfg = j div m_assoc cfg \<longrightarrow> live (lines ! i) \<longrightarrow> live (lines ! j) \<longrightarrow>
     m_tag (lines ! i) = m_tag (lines ! j) \<longrightarrow> i = j)"

lemma in_set_div:
  assumes "in_set cfg ta addr j" and "in_set cfg ta addr k"
  shows "j div m_assoc cfg = k div m_assoc cfg"
proof -
  obtain i where i: "set_index cfg addr = Some i"
    using assms(1) by (auto simp: in_set_def)
  have "l div m_assoc cfg = unat i" if "in_set cfg ta addr l" for l
  proof -
    from that i have "unat i * m_assoc cfg \<le> l" "l < unat i * m_assoc cfg + m_assoc cfg"
      by (auto simp: in_set_def set_lines_def)
    then show ?thesis
      by (metis add.commute div_nat_eqI mult.commute mult_Suc_right)
  qed
  with assms show ?thesis by simp
qed

lemma in_set_if_div:
  assumes "in_set cfg ta addr j" and "k div m_assoc cfg = j div m_assoc cfg"
  shows "in_set cfg ta addr k"
proof -
  obtain i where i: "set_index cfg addr = Some i"
    "unat i * m_assoc cfg + m_assoc cfg \<le> length (m_lines ta)"
    and j: "unat i * m_assoc cfg \<le> j" "j < unat i * m_assoc cfg + m_assoc cfg"
    using assms(1) by (auto simp: in_set_def set_lines_def)
  have pos: "0 < m_assoc cfg" using j by simp
  have "j div m_assoc cfg = unat i"
    using j by (metis add.commute div_nat_eqI mult.commute mult_Suc_right)
  with assms(2) have "k div m_assoc cfg = unat i" by simp
  with dividend_less_div_times [OF pos, of k] div_times_less_eq_dividend [of k "m_assoc cfg"]
  have "unat i * m_assoc cfg \<le> k" "k < unat i * m_assoc cfg + m_assoc cfg"
    by simp_all
  with i show ?thesis by (auto simp: in_set_def set_lines_def)
qed

lemma holds_unique:
  assumes "unique_tags cfg (m_lines ta)" and "in_set cfg ta addr j" and "in_set cfg ta addr k"
    and "holds t (m_lines ta ! j)" and "holds t (m_lines ta ! k)"
  shows "j = k"
  using assms in_set_div [OF assms(2,3)] in_set_less
  by (auto simp: unique_tags_def holds_def)

text \<open>
  \<open>tag_array::probe\<close> is exact. In an array whose sets hold no tag twice, it
  reports \<open>HIT\<close> at a line if and only if that line is a way of the address's set, carries the
  tag and is \<open>VALID\<close> or \<open>MODIFIED\<close>, and \<open>HIT_RESERVED\<close> if and only if the line is
  still waiting for its data.
\<close>

theorem probe_exact:
  assumes "probe_defined cfg ta addr" and "unique_tags cfg (m_lines ta)"
  shows "(probe cfg ta addr = Some (HIT, Some j) \<longleftrightarrow>
            in_set cfg ta addr j \<and> m_tag (m_lines ta ! j) = tag cfg addr \<and>
            m_status (m_lines ta ! j) \<in> {VALID, MODIFIED}) \<and>
         (probe cfg ta addr = Some (HIT_RESERVED, Some j) \<longleftrightarrow>
            in_set cfg ta addr j \<and> m_tag (m_lines ta ! j) = tag cfg addr \<and>
            m_status (m_lines ta ! j) = RESERVED)"
proof -
  have iff: "probe cfg ta addr = Some (s, Some j) \<longleftrightarrow>
      in_set cfg ta addr j \<and> holds (tag cfg addr) (m_lines ta ! j) \<and>
      s = hit_status (m_lines ta ! j)" if s: "s = HIT \<or> s = HIT_RESERVED" for s
  proof
    assume "probe cfg ta addr = Some (s, Some j)"
    with s show "in_set cfg ta addr j \<and> holds (tag cfg addr) (m_lines ta ! j) \<and>
        s = hit_status (m_lines ta ! j)"
      using probe_in_set probe_hit by blast
  next
    assume r: "in_set cfg ta addr j \<and> holds (tag cfg addr) (m_lines ta ! j) \<and>
        s = hit_status (m_lines ta ! j)"
    from assms(1) show "probe cfg ta addr = Some (s, Some j)"
    proof (cases rule: probe_cases)
      case (hit k)
      with r assms(2) have "k = j" by (blast intro: holds_unique)
      with hit r show ?thesis by simp
    qed (use r in blast)+
  qed
  have "holds t l \<and> HIT = hit_status l \<longleftrightarrow> m_tag l = t \<and> m_status l \<in> {VALID, MODIFIED}"
    and "holds t l \<and> HIT_RESERVED = hit_status l \<longleftrightarrow> m_tag l = t \<and> m_status l = RESERVED"
    for t l
    by (cases "m_status l"; auto simp: holds_def live_def hit_status_def)+
  with iff [of HIT] iff [of HIT_RESERVED] show ?thesis by blast
qed

text \<open>A one-set, two-way cache to evaluate on.\<close>

definition two_way_config :: cache_config where
  "two_way_config = sample_l1d_config\<lparr>m_class := Base_config, m_nset := 1, m_nset_log2 := 0,
     m_assoc := 2, m_set_index_function := LINEAR_SET_FUNCTION\<rparr>"

definition two_way_array :: "cache_block list \<Rightarrow> tag_array" where
  "two_way_array lines = tag_array_init lines 0 0"

definition sample_line :: "u64 \<Rightarrow> cache_block_state \<Rightarrow> u32 \<Rightarrow> cache_block" where
  "sample_line t s time = cache_block_new\<lparr>m_tag := t, m_block_addr := t, m_alloc_time := time,
     m_last_access_time := time, m_status := s\<rparr>"

lemmas sample_array_defs = two_way_config_def sample_l1d_config_def two_way_array_def
  sample_line_def tag_array_init_def cache_block_new_def

lemma set_index_two_way [simp]: "set_index two_way_config addr = Some 0"
  by (simp add: two_way_config_def sample_l1d_config_def set_index_def base_set_index_def
      linear_index_def)

lemma set_lines_two_way: "set_lines two_way_config 0 = [0, 1]"
  by (simp add: set_lines_def two_way_config_def upt_rec)

lemma assoc_two_way [simp]: "m_assoc two_way_config = 2" "m_alloc_policy two_way_config = ON_MISS"
  "m_replacement_policy two_way_config = LRU"
  by (simp_all add: two_way_config_def sample_l1d_config_def)

lemma tag_two_way [simp]: "tag two_way_config 0x80 = 0x80" "tag two_way_config 0x100 = 0x100"
  "tag two_way_config 0x1F4 = 0x180"
  by (simp_all add: two_way_config_def sample_l1d_config_def tag_def)

lemma in_set_two_way:
  "in_set two_way_config (two_way_array [a, b]) addr j \<longleftrightarrow> j = 0 \<or> j = 1"
  by (auto simp: in_set_def set_lines_two_way two_way_array_def tag_array_init_def)

lemma probe_defined_two_way: "probe_defined two_way_config (two_way_array [a, b]) addr"
  by (simp add: probe_defined_def two_way_array_def tag_array_init_def)

lemma unique_tags_two_way: "unique_tags two_way_config (m_lines (two_way_array [a, b]))"
  if "m_tag a \<noteq> m_tag b"
  using that by (auto simp: unique_tags_def two_way_array_def tag_array_init_def less_Suc_eq)

theorem probe_exact_witness:
  "probe two_way_config
     (two_way_array [sample_line 0x80 MODIFIED 3, sample_line 0x180 VALID 7]) 0x1F4
   = Some (HIT, Some 1)"
  using probe_exact [of two_way_config
      "two_way_array [sample_line 0x80 MODIFIED 3, sample_line 0x180 VALID 7]" "0x1F4" 1,
      OF probe_defined_two_way unique_tags_two_way]
  by (simp add: in_set_two_way) (simp add: sample_array_defs)

text \<open>
  The victim of a miss. A candidate that \<open>probe\<close> offers with \<open>MISS\<close> is a way of
  the address's set that is not reserved; it is \<open>INVALID\<close> if some way is; otherwise its time
  stamp (last access under LRU, allocation under FIFO) is minimal among the ways that are not
  reserved. \<open>RESERVATION_FAIL\<close> is reported exactly when every way is reserved and none of them
  for this address.
\<close>

theorem probe_victim:
  assumes "probe cfg ta addr = Some (MISS, Some j)"
  shows "in_set cfg ta addr j \<and> m_status (m_lines ta ! j) \<noteq> RESERVED \<and>
    (if \<exists>k. in_set cfg ta addr k \<and> m_status (m_lines ta ! k) = INVALID
     then m_status (m_lines ta ! j) = INVALID
     else \<forall>k. in_set cfg ta addr k \<and> m_status (m_lines ta ! k) \<noteq> RESERVED \<longrightarrow>
       stamp cfg (m_lines ta ! j) \<le> stamp cfg (m_lines ta ! k))"
  using probe_defined_if_Some [OF assms]
proof (cases rule: probe_cases)
  case (hit k)
  with assms show ?thesis by (simp add: hit_status_def split: if_splits)
next
  case full
  with assms show ?thesis by (simp split: if_splits)
next
  case (invalid k)
  with assms have "k = j" by simp
  with invalid(1,2) show ?thesis by auto
next
  case (valid k)
  with assms have "k = j" by simp
  with valid(1,2,4,5) show ?thesis by auto
next
  case (stuck k)
  with assms show ?thesis by simp
qed

theorem probe_victim_witness:
  "stamp two_way_config (sample_line 0x180 VALID 2) \<le> stamp two_way_config (sample_line 0x80 VALID 3)"
proof -
  let ?ta = "two_way_array [sample_line 0x80 VALID 3, sample_line 0x180 VALID 2]"
  have "probe two_way_config ?ta 0x100 = Some (MISS, Some 1)"
    by (simp add: probe_def probe_loop_eq set_lines_two_way)
      (simp add: sample_array_defs holds_def live_def probe_candidate_def probe_vars_init_def
        stamp_def)
  from probe_victim [OF this] show ?thesis
    by (simp add: in_set_two_way) (simp add: sample_array_defs stamp_def)
qed

lemma reservation_fail_iff:
  assumes "probe_defined cfg ta addr" and "m_alloc_policy cfg = ON_MISS"
  shows "probe cfg ta addr = Some (RESERVATION_FAIL, None) \<longleftrightarrow>
    (\<forall>j. in_set cfg ta addr j \<longrightarrow>
       m_status (m_lines ta ! j) = RESERVED \<and> m_tag (m_lines ta ! j) \<noteq> tag cfg addr)"
  using assms(1)
proof (cases rule: probe_cases)
  case (hit k)
  then show ?thesis by (auto simp: hit_status_def holds_def)
next
  case full
  with assms(2) show ?thesis by (auto simp: holds_def live_def)
next
  case (invalid k)
  then show ?thesis by force
next
  case (valid k)
  then show ?thesis by force
next
  case (stuck k)
  then show ?thesis by force
qed

subsection \<open>The array over time\<close>

text \<open>What the caches do to their tag array, at any cycle and in any order.\<close>

inductive tag_step :: "cache_config \<Rightarrow> tag_array \<Rightarrow> tag_array \<Rightarrow> bool" for cfg where
  step_access: "access cfg ta addr time = Some (s, idx, ev, ta') \<Longrightarrow> tag_step cfg ta ta'"
| step_fill_index: "fill_index cfg ta i time = Some ta' \<Longrightarrow> tag_step cfg ta ta'"
| step_fill_addr: "fill_addr cfg ta addr time = Some ta' \<Longrightarrow> tag_step cfg ta ta'"
| step_modified: "i < length (m_lines ta) \<Longrightarrow> live (m_lines ta ! i) \<Longrightarrow>
    set_block_status i MODIFIED ta = Some ta' \<Longrightarrow> tag_step cfg ta ta'"
| step_invalid: "set_block_status i INVALID ta = Some ta' \<Longrightarrow> tag_step cfg ta ta'"
| step_flush: "tag_step cfg ta (flush cfg ta)"
| step_window: "tag_step cfg ta (new_window ta)"

inductive tag_reachable :: "cache_config \<Rightarrow> tag_array \<Rightarrow> bool" for cfg where
  reach_new: "tag_reachable cfg (tag_array_new cfg core_id type_id)"
| reach_step: "tag_reachable cfg ta \<Longrightarrow> tag_step cfg ta ta' \<Longrightarrow> tag_reachable cfg ta'"

lemma unique_tags_update:
  assumes "unique_tags cfg L" and "i < length L"
    and "live l \<Longrightarrow> \<forall>k < length L. k \<noteq> i \<and> k div m_assoc cfg = i div m_assoc cfg \<longrightarrow>
           \<not> (live (L ! k) \<and> m_tag (L ! k) = m_tag l)"
  shows "unique_tags cfg (L[i := l])"
  using assms by (auto simp: unique_tags_def nth_list_update)

lemma unique_tags_same_tag:
  assumes "unique_tags cfg L" and "i < length L" and "m_tag l = m_tag (L ! i)"
    and "live l \<Longrightarrow> live (L ! i)"
  shows "unique_tags cfg (L[i := l])"
  by (rule unique_tags_update)
    (use assms in \<open>auto simp: unique_tags_def\<close>)

lemma unique_tags_install:
  assumes "unique_tags cfg (m_lines ta)" and "probe cfg ta addr = Some (MISS, Some i)"
    and "m_tag l = tag cfg addr"
  shows "unique_tags cfg ((m_lines ta)[i := l])"
proof (rule unique_tags_update)
  show "i < length (m_lines ta)"
    using probe_in_set [OF assms(2)] in_set_less by blast
  show "\<forall>k < length (m_lines ta). k \<noteq> i \<and> k div m_assoc cfg = i div m_assoc cfg \<longrightarrow>
      \<not> (live (m_lines ta ! k) \<and> m_tag (m_lines ta ! k) = m_tag l)"
    using probe_miss(2) [OF assms(2)] in_set_if_div [OF probe_in_set [OF assms(2)]] assms(3)
    by (auto simp: holds_def)
qed (fact assms(1))

lemma unique_tags_access [intro]:
  assumes "unique_tags cfg (m_lines ta)" and "access cfg ta addr time = Some (s, idx, ev, ta')"
  shows "unique_tags cfg (m_lines ta')"
  using assms(2)
proof (cases rule: access_cases)
  case (hit j)
  then have "j < length (m_lines ta)" using probe_in_set in_set_less by blast
  with hit assms(1) show ?thesis by (auto intro: unique_tags_same_tag simp: live_def)
next
  case (miss j)
  with assms(1) show ?thesis by (auto intro: unique_tags_install simp: block_allocate_def)
qed (use assms(1) in auto)

lemma fill_index_eq_Some:
  "fill_index cfg ta i time = Some ta' \<longleftrightarrow> m_alloc_policy cfg = ON_MISS \<and>
     i < length (m_lines ta) \<and> m_status (m_lines ta ! i) = RESERVED \<and>
     ta' = ta\<lparr>m_lines := (m_lines ta)
       [i := (m_lines ta ! i)\<lparr>m_status := VALID, m_fill_time := time\<rparr>]\<rparr>"
  by (auto simp: fill_index_def block_fill_def)

lemma unique_tags_step:
  assumes "tag_step cfg ta ta'" and "unique_tags cfg (m_lines ta)"
  shows "unique_tags cfg (m_lines ta')"
  using assms(1)
proof (cases rule: tag_step.cases)
  case step_access
  with assms(2) show ?thesis by blast
next
  case (step_fill_index i time)
  with assms(2) show ?thesis
    by (auto simp: fill_index_eq_Some live_def intro!: unique_tags_same_tag)
next
  case (step_fill_addr addr time)
  then obtain i where "probe cfg ta addr = Some (MISS, Some i)"
    and "m_lines ta' = (m_lines ta)[i := (block_allocate (tag cfg addr) (block_addr cfg addr) time
           (m_lines ta ! i))\<lparr>m_status := VALID, m_fill_time := time\<rparr>]"
    by (auto simp: fill_addr_def bind_eq_Some_iff block_fill_def split: if_splits)
  with assms(2) show ?thesis
    by (auto intro!: unique_tags_install simp: block_allocate_def)
next
  case (step_modified i)
  with assms(2) show ?thesis
    by (auto simp: set_block_status_def intro!: unique_tags_same_tag)
next
  case (step_invalid i)
  with assms(2) show ?thesis
    by (auto simp: set_block_status_def live_def split: if_splits intro!: unique_tags_same_tag)
next
  case step_flush
  have "live (m_lines (flush cfg ta) ! i) \<Longrightarrow> get_num_lines cfg \<le> i"
    if "i < length (m_lines ta)" for i
    using that by (cases "i < get_num_lines cfg") (auto simp: flush_def nth_append live_def)
  moreover have "m_lines (flush cfg ta) ! i = m_lines ta ! i" if "get_num_lines cfg \<le> i"
    "i < length (m_lines ta)" for i
    using that by (auto simp: flush_def nth_append min_def)
  moreover have "length (m_lines (flush cfg ta)) = length (m_lines ta)"
    by (simp add: flush_def)
  ultimately show ?thesis
    using assms(2) step_flush by (simp add: unique_tags_def) metis
next
  case step_window
  with assms(2) show ?thesis by (simp add: new_window_def)
qed

text \<open>
  Property C15: whatever sequence of accesses, fills, status writes, flushes and window changes the
  caches perform on a new tag array, no block is ever present twice: two ways of one set that are
  not invalid have different tags, so a block has at most one copy and at most one reservation.
\<close>

theorem no_duplicate_blocks:
  assumes "tag_reachable cfg ta"
    and "i < length (m_lines ta)" and "j < length (m_lines ta)" and "i \<noteq> j"
    and "i div m_assoc cfg = j div m_assoc cfg"
    and "m_status (m_lines ta ! i) \<noteq> INVALID" and "m_status (m_lines ta ! j) \<noteq> INVALID"
  shows "m_tag (m_lines ta ! i) \<noteq> m_tag (m_lines ta ! j)"
proof -
  from assms(1) have "unique_tags cfg (m_lines ta)"
  proof (induction rule: tag_reachable.induct)
    case (reach_new core_id type_id)
    then show ?case
      by (simp add: unique_tags_def tag_array_new_def tag_array_init_def cache_block_new_def
          live_def)
  next
    case (reach_step ta ta')
    then show ?case by (blast intro: unique_tags_step)
  qed
  with assms show ?thesis by (auto simp: unique_tags_def live_def)
qed

lemma new_two_way: "tag_array_new two_way_config 0 0 = tag_array_init
    [cache_block_new, cache_block_new, cache_block_new, cache_block_new,
     cache_block_new, cache_block_new, cache_block_new, cache_block_new] 0 0"
  "length (m_lines (tag_array_init L core type)) = length L"
  "m_lines (tag_array_init L core type) = L"
proof -
  have "get_num_lines two_way_config = 2"
    by (simp add: get_num_lines_def two_way_config_def sample_l1d_config_def)
  then show "tag_array_new two_way_config 0 0 = tag_array_init
    [cache_block_new, cache_block_new, cache_block_new, cache_block_new,
     cache_block_new, cache_block_new, cache_block_new, cache_block_new] 0 0"
    by (simp add: tag_array_new_def numeral_nat)
qed (simp_all add: tag_array_init_def)

theorem no_duplicate_blocks_witness:
  "\<exists>ta ta'. access two_way_config (tag_array_new two_way_config 0 0) 0x80 5
       = Some (MISS, Some 1, None, ta) \<and>
     access two_way_config ta 0x100 6 = Some (MISS, Some 0, None, ta') \<and>
     m_tag (m_lines ta' ! 0) \<noteq> m_tag (m_lines ta' ! 1)"
proof -
  let ?new = "tag_array_new two_way_config 0 0"
  obtain ta where a: "access two_way_config ?new 0x80 5 = Some (MISS, Some 1, None, ta)"
    "m_lines ta = (m_lines ?new)[1 := block_allocate 0x80 0x80 5 cache_block_new]"
    by (simp add: access_def probe_def probe_loop_eq set_lines_two_way new_two_way
        probe_candidate_def probe_vars_init_def holds_def live_def
        cache_block_new_def Let_def tag_eq_block_addr [symmetric])
  obtain ta' where b: "access two_way_config ta 0x100 6 = Some (MISS, Some 0, None, ta')"
    "m_lines ta' = (m_lines ta)[0 := block_allocate 0x100 0x100 6 cache_block_new]"
    by (simp add: access_def probe_def probe_loop_eq set_lines_two_way a new_two_way
        probe_candidate_def probe_vars_init_def holds_def live_def block_allocate_def
        cache_block_new_def Let_def tag_eq_block_addr [symmetric])
  have r: "tag_reachable two_way_config ta'"
    by (rule reach_step [OF reach_step [OF reach_new step_access [OF a(1)]] step_access [OF b(1)]])
  have "m_tag (m_lines ta' ! 0) \<noteq> m_tag (m_lines ta' ! 1)"
    using no_duplicate_blocks [OF r, of 0 1] a b by (simp add: block_allocate_def new_two_way)
  with a b show ?thesis by blast
qed

text \<open>
  The life of a missed block under allocation on miss. When \<open>access\<close> reports a miss,
  the line it names is reserved for the address, so a second probe merges with the outstanding
  request (\<open>HIT_RESERVED\<close>); the \<open>fill\<close> of that line when the data returns succeeds, and from
  then on the address hits in that line.
\<close>

theorem miss_fill_hit:
  assumes "access cfg ta addr time = Some (MISS, Some j, ev, ta')"
    and "m_alloc_policy cfg = ON_MISS"
  shows "probe cfg ta' addr = Some (HIT_RESERVED, Some j) \<and>
    (\<exists>ta''. fill_index cfg ta' j time' = Some ta'' \<and>
       probe cfg ta'' addr = Some (HIT, Some j))"
proof -
  let ?l = "block_allocate (tag cfg addr) (block_addr cfg addr) time (m_lines ta ! j)"
  have p: "probe cfg ta addr = Some (MISS, Some j)" by (rule access_status [OF assms(1)])
  have ta': "m_lines ta' = (m_lines ta)[j := ?l]"
    using assms(1) by (rule access_cases) (use assms(2) in auto)
  have j: "in_set cfg ta addr j" by (rule probe_in_set [OF p])
  then have len: "j < length (m_lines ta)" by (rule in_set_less)
  have install: "probe cfg (ta\<lparr>m_lines := (m_lines ta)[j := l]\<rparr>) addr = Some (hit_status l, Some j)"
    if "holds (tag cfg addr) l" for l
    using probe_after_install [OF j that] probe_miss(2) [OF p] by blast
  have "probe cfg ta' addr = Some (HIT_RESERVED, Some j)"
    using install [of ?l] probe_cong [of ta' "ta\<lparr>m_lines := (m_lines ta)[j := ?l]\<rparr>"] ta'
    by (simp add: holds_def live_def hit_status_def block_allocate_def)
  moreover
  let ?f = "?l\<lparr>m_status := VALID, m_fill_time := time'\<rparr>"
  let ?ta'' = "ta'\<lparr>m_lines := (m_lines ta')[j := ?f]\<rparr>"
  have "fill_index cfg ta' j time' = Some ?ta''"
    using assms(2) len ta' by (simp add: fill_index_eq_Some block_allocate_def)
  moreover have "probe cfg ?ta'' addr = Some (HIT, Some j)"
    using install [of ?f] probe_cong [of ?ta'' "ta\<lparr>m_lines := (m_lines ta)[j := ?f]\<rparr>"] ta'
    by (simp add: holds_def live_def hit_status_def block_allocate_def)
  ultimately show ?thesis by blast
qed

theorem miss_fill_hit_witness:
  "\<exists>ta'. access two_way_config (two_way_array [sample_line 0x180 MODIFIED 3, cache_block_new]) 0x80 5
      = Some (MISS, Some 1, None, ta') \<and>
    probe two_way_config ta' 0x80 = Some (HIT_RESERVED, Some 1)"
proof -
  let ?ta = "two_way_array [sample_line 0x180 MODIFIED 3, cache_block_new]"
  obtain ta' where a: "access two_way_config ?ta 0x80 5 = Some (MISS, Some 1, None, ta')"
    by (simp add: access_def probe_def probe_loop_eq set_lines_two_way Let_def two_way_array_def
        tag_array_init_def probe_candidate_def probe_vars_init_def holds_def live_def stamp_def
        sample_line_def cache_block_new_def)
  with miss_fill_hit [OF a] show ?thesis by simp
qed

end
