(* ===== verification/Mshr.thy ===== *)
theory Mshr
  imports Sim_Prelude "HOL-Library.AList" "HOL-Library.Multiset"
begin

text \<open>
  The miss status holding registers of a cache (\<open>mshr_table\<close> of \<open>gpgpu-sim/gpu-cache.cc\<close>):
  an associative table from block addresses to the requests that wait for the block, and the
  queue of the blocks whose data has arrived. Requests are the addresses of \<open>mem_fetch\<close> objects.
  The table is shown to lose and to duplicate no request, to answer the requests of a block in
  the order they came, and never to abort while its client asks \<open>full\<close> before it adds.
\<close>

record mshr_entry =
  me_list :: "nat list"
  me_has_atomic :: bool

record mshr_table =
  m_num_entries :: nat
  m_max_merged :: nat
  m_data :: "(u64 \<times> mshr_entry) list"
  m_current_response :: "u64 list"

definition mshr_new :: "nat \<Rightarrow> nat \<Rightarrow> mshr_table" where
  "mshr_new num_entries max_merged = \<lparr>m_num_entries = num_entries, m_max_merged = max_merged,
     m_data = [], m_current_response = []\<rparr>"

definition mshr_probe :: "u64 \<Rightarrow> mshr_table \<Rightarrow> bool" where
  "mshr_probe block t \<longleftrightarrow> map_of (m_data t) block \<noteq> None"

definition mshr_full :: "u64 \<Rightarrow> mshr_table \<Rightarrow> bool" where
  "mshr_full block t = (case map_of (m_data t) block of
     Some e \<Rightarrow> m_max_merged t \<le> length (me_list e)
   | None \<Rightarrow> m_num_entries t \<le> length (m_data t))"

definition mshr_entry_new :: mshr_entry where
  "mshr_entry_new = \<lparr>me_list = [], me_has_atomic = False\<rparr>"

text \<open>\<open>m_data[block]\<close>, which creates the entry when there is none.\<close>

definition mshr_at :: "(u64 \<times> mshr_entry) list \<Rightarrow> u64 \<Rightarrow> mshr_entry" where
  "mshr_at data block = (case map_of data block of Some e \<Rightarrow> e | None \<Rightarrow> mshr_entry_new)"

definition mshr_add :: "u64 \<Rightarrow> nat \<Rightarrow> bool \<Rightarrow> mshr_table \<Rightarrow> mshr_table option" where
  "mshr_add block mf atomic t = do {
     let e = mshr_at (m_data t) block;
     let e = e\<lparr>me_list := me_list e @ [mf]\<rparr>;
     let data = AList.update block e (m_data t);
     require (length data \<le> m_num_entries t);
     require (length (me_list e) \<le> m_max_merged t);
     let e = (if atomic then e\<lparr>me_has_atomic := True\<rparr> else e);
     Some (t\<lparr>m_data := AList.update block e data\<rparr>)
   }"

definition mshr_mark_ready :: "u64 \<Rightarrow> mshr_table \<Rightarrow> (bool \<times> mshr_table) option" where
  "mshr_mark_ready block t = do {
     e \<leftarrow> map_of (m_data t) block;
     let response = m_current_response t @ [block];
     require (length response \<le> length (m_data t));
     Some (me_has_atomic e, t\<lparr>m_current_response := response\<rparr>)
   }"

definition mshr_access_ready :: "mshr_table \<Rightarrow> bool" where
  "mshr_access_ready t \<longleftrightarrow> m_current_response t \<noteq> []"

definition mshr_next_access :: "mshr_table \<Rightarrow> (nat \<times> mshr_table) option" where
  "mshr_next_access t = do {
     require (mshr_access_ready t);
     let block = hd (m_current_response t);
     let e = mshr_at (m_data t) block;
     require (me_list e \<noteq> []);
     let rest = tl (me_list e);
     Some (hd (me_list e),
       if rest = []
       then t\<lparr>m_data := AList.delete block (m_data t),
              m_current_response := tl (m_current_response t)\<rparr>
       else t\<lparr>m_data := AList.update block (e\<lparr>me_list := rest\<rparr>) (m_data t)\<rparr>)
   }"

definition check_mshr_parameters :: "nat \<Rightarrow> nat \<Rightarrow> mshr_table \<Rightarrow> unit option" where
  "check_mshr_parameters num_entries max_merged t = do {
     require (m_num_entries t = num_entries);
     require (m_max_merged t = max_merged)
   }"

subsection \<open>The table as a map from blocks to queues\<close>

text \<open>The abstraction: the requests waiting for a block, in order.\<close>

definition waiting :: "mshr_table \<Rightarrow> u64 \<Rightarrow> nat list" where
  "waiting t block = me_list (mshr_at (m_data t) block)"

definition mshr_ok :: "mshr_table \<Rightarrow> bool" where
  "mshr_ok t \<longleftrightarrow> 0 < m_max_merged t \<and> distinct (map fst (m_data t)) \<and> length (m_data t) \<le> m_num_entries t \<and>
     (\<forall>(b, e) \<in> set (m_data t). me_list e \<noteq> [] \<and> length (me_list e) \<le> m_max_merged t) \<and>
     distinct (m_current_response t) \<and>
     set (m_current_response t) \<subseteq> fst ` set (m_data t)"

lemma mshr_new_ok [simp]: "mshr_ok (mshr_new n k) \<longleftrightarrow> 0 < k"
  by (simp add: mshr_ok_def mshr_new_def)

lemma mshr_probe_iff: "mshr_probe b t \<longleftrightarrow> b \<in> fst ` set (m_data t)"
  by (simp add: mshr_probe_def map_of_eq_None_iff)

lemma mshr_probe_waiting: "mshr_ok t \<Longrightarrow> mshr_probe b t \<longleftrightarrow> waiting t b \<noteq> []"
  unfolding mshr_ok_def mshr_probe_def waiting_def mshr_at_def
  by (auto simp: mshr_entry_new_def split: option.splits dest: map_of_SomeD)

lemma map_of_update_other: "AList.update b e xs = ys \<Longrightarrow> map_of ys = (map_of xs)(b \<mapsto> e)"
  by (auto simp: update_conv')

lemma length_update:
  "length (AList.update b e xs) = (if b \<in> fst ` set xs then length xs else Suc (length xs))"
  by (induction xs) auto

lemma mshr_add_eq:
  assumes "mshr_add b mf atomic t = Some t'"
  shows "\<exists>e. t' = t\<lparr>m_data := AList.update b e (m_data t)\<rparr> \<and> me_list e = waiting t b @ [mf] \<and>
    length (me_list e) \<le> m_max_merged t \<and>
    length (AList.update b e (m_data t)) \<le> m_num_entries t"
  using assms
  by (auto simp: mshr_add_def Let_def waiting_def length_update split: if_splits)

lemma mshr_add_total:
  assumes "mshr_ok t" and "\<not> mshr_full b t"
  shows "\<exists>t'. mshr_add b mf atomic t = Some t'"
proof (cases "map_of (m_data t) b")
  case None
  with assms have "length (m_data t) < m_num_entries t" "b \<notin> fst ` set (m_data t)"
    by (auto simp: mshr_full_def map_of_eq_None_iff)
  moreover have "0 < m_max_merged t" using assms(1) by (simp add: mshr_ok_def)
  ultimately show ?thesis
    using None
    by (auto simp: mshr_add_def Let_def length_update mshr_at_def mshr_entry_new_def)
next
  case (Some e)
  then have "b \<in> fst ` set (m_data t)" by (force dest: map_of_SomeD)
  with Some assms show ?thesis
    by (auto simp: mshr_add_def Let_def length_update mshr_at_def mshr_full_def mshr_ok_def)
qed

lemma distinct_fst_update:
  "distinct (map fst xs) \<Longrightarrow> distinct (map fst (AList.update b e xs))"
  by (rule distinct_update)

lemma set_update_ball:
  "(\<forall>x \<in> set xs. P x) \<Longrightarrow> P (b, e) \<Longrightarrow> \<forall>x \<in> set (AList.update b e xs). P x"
  by (induction xs) auto

lemma mshr_add_ok:
  assumes "mshr_ok t" and "mshr_add b mf atomic t = Some t'"
  shows "mshr_ok t'"
proof -
  obtain e where t': "t' = t\<lparr>m_data := AList.update b e (m_data t)\<rparr>"
    and e: "me_list e = waiting t b @ [mf]" "length (me_list e) \<le> m_max_merged t"
    and len: "length (AList.update b e (m_data t)) \<le> m_num_entries t"
    using mshr_add_eq [OF assms(2)] by blast
  have "\<forall>(b, e) \<in> set (AList.update b e (m_data t)). me_list e \<noteq> [] \<and>
      length (me_list e) \<le> m_max_merged t"
    by (rule set_update_ball) (use assms(1) e in \<open>auto simp: mshr_ok_def\<close>)
  with assms(1) t' len show ?thesis
    by (auto simp: mshr_ok_def distinct_update dom_update)
qed

lemma mshr_add_waiting:
  assumes "mshr_add b mf atomic t = Some t'"
  shows "waiting t' = (waiting t)(b := waiting t b @ [mf])"
    and "m_current_response t' = m_current_response t"
proof -
  obtain e where t': "t' = t\<lparr>m_data := AList.update b e (m_data t)\<rparr>"
    and e: "me_list e = waiting t b @ [mf]"
    using mshr_add_eq [OF assms] by blast
  then show "waiting t' = (waiting t)(b := waiting t b @ [mf])"
    by (auto simp: fun_eq_iff waiting_def mshr_at_def update_conv')
  show "m_current_response t' = m_current_response t"
    using t' by simp
qed

lemma mshr_mark_ready_eq:
  assumes "mshr_mark_ready b t = Some (at, t')"
  shows "t' = t\<lparr>m_current_response := m_current_response t @ [b]\<rparr> \<and> mshr_probe b t"
  using assms by (auto simp: mshr_mark_ready_def bind_eq_Some_iff mshr_probe_def split: if_splits)

lemma mshr_mark_ready_waiting:
  "mshr_mark_ready b t = Some (at, t') \<Longrightarrow> waiting t' = waiting t"
  by (drule mshr_mark_ready_eq) (simp add: waiting_def fun_eq_iff)

lemma mshr_mark_ready_total:
  assumes "mshr_ok t" and "mshr_probe b t" and "b \<notin> set (m_current_response t)"
  shows "\<exists>at t'. mshr_mark_ready b t = Some (at, t')"
proof -
  obtain e where e: "map_of (m_data t) b = Some e"
    using assms(2) by (auto simp: mshr_probe_def)
  have "card (insert b (set (m_current_response t))) \<le> card (fst ` set (m_data t))"
    using assms by (intro card_mono) (auto simp: mshr_ok_def mshr_probe_iff)
  also have "\<dots> \<le> length (m_data t)"
    by (metis card_image_le card_length finite_set le_trans)
  finally have "Suc (length (m_current_response t)) \<le> length (m_data t)"
    using assms by (simp add: distinct_card mshr_ok_def)
  with e show ?thesis by (simp add: mshr_mark_ready_def)
qed

lemma mshr_mark_ready_ok:
  assumes "mshr_ok t" and "b \<notin> set (m_current_response t)"
    and "mshr_mark_ready b t = Some (at, t')"
  shows "mshr_ok t'"
  using mshr_mark_ready_eq [OF assms(3)] assms(1,2) by (auto simp: mshr_ok_def mshr_probe_iff)

lemma mshr_next_access_total:
  assumes "mshr_ok t" and "mshr_access_ready t"
  shows "\<exists>mf t'. mshr_next_access t = Some (mf, t')"
proof -
  let ?b = "hd (m_current_response t)"
  have "?b \<in> set (m_current_response t)"
    using assms(2) by (simp add: mshr_access_ready_def)
  with assms(1) have "mshr_probe ?b t" by (auto simp: mshr_ok_def mshr_probe_iff)
  with assms(1) have "waiting t ?b \<noteq> []" by (simp add: mshr_probe_waiting)
  with assms(2) show ?thesis by (simp add: mshr_next_access_def waiting_def Let_def)
qed

lemma mshr_next_access_eq:
  assumes "mshr_next_access t = Some (mf, t')"
  defines "b \<equiv> hd (m_current_response t)"
  shows "m_current_response t \<noteq> []" and "waiting t b = mf # tl (waiting t b)"
    and "tl (waiting t b) = [] \<Longrightarrow> t' = t\<lparr>m_data := AList.delete b (m_data t),
      m_current_response := tl (m_current_response t)\<rparr>"
    and "tl (waiting t b) \<noteq> [] \<Longrightarrow> t' = t\<lparr>m_data := AList.update b
      ((mshr_at (m_data t) b)\<lparr>me_list := tl (waiting t b)\<rparr>) (m_data t)\<rparr>"
  using assms(1) unfolding b_def
  by (cases "waiting t (hd (m_current_response t))";
      auto simp: mshr_next_access_def Let_def waiting_def mshr_access_ready_def split: if_splits)+

lemma mshr_next_access_waiting:
  assumes "mshr_next_access t = Some (mf, t')"
  shows "waiting t' = (waiting t)(hd (m_current_response t) := tl (waiting t (hd (m_current_response t))))"
proof (cases "tl (waiting t (hd (m_current_response t))) = []")
  case True
  from mshr_next_access_eq(3) [OF assms True] True show ?thesis
    by (auto simp: fun_eq_iff waiting_def mshr_at_def delete_conv mshr_entry_new_def
        restrict_map_def)
next
  case False
  from mshr_next_access_eq(4) [OF assms False] show ?thesis
    by (auto simp: fun_eq_iff waiting_def mshr_at_def update_conv')
qed

lemma mshr_next_access_ok:
  assumes "mshr_ok t" and "mshr_next_access t = Some (mf, t')"
  shows "mshr_ok t'"
proof -
  let ?b = "hd (m_current_response t)" and ?r = "tl (m_current_response t)"
  have cr: "m_current_response t = ?b # ?r"
    using mshr_next_access_eq(1) [OF assms(2)] by simp
  have "distinct (?b # ?r)" and sub: "set (?b # ?r) \<subseteq> fst ` set (m_data t)"
    using assms(1) unfolding mshr_ok_def cr [symmetric] by simp_all
  then have inb: "?b \<in> fst ` set (m_data t)" and nb: "?b \<notin> set ?r" and dr: "distinct ?r"
    and subr: "set ?r \<subseteq> fst ` set (m_data t)"
    by simp_all
  show ?thesis
  proof (cases "tl (waiting t ?b) = []")
    case True
    have "set ?r \<subseteq> fst ` set (AList.delete ?b (m_data t))"
    proof -
      have "fst ` set (AList.delete ?b (m_data t)) = fst ` set (m_data t) - {?b}"
        by (metis delete_keys set_map set_removeAll)
      with subr nb show ?thesis by auto
    qed
    moreover have "length (AList.delete ?b (m_data t)) \<le> m_num_entries t"
      using assms(1) length_delete_le [of ?b "m_data t"] by (auto simp: mshr_ok_def intro: order_trans)
    moreover have "set (AList.delete ?b (m_data t)) \<subseteq> set (m_data t)"
      by (auto simp: AList.delete_eq)
    ultimately show ?thesis
      using mshr_next_access_eq(3) [OF assms(2) True] assms(1) dr
      by (auto simp: mshr_ok_def distinct_delete)
  next
    case False
    let ?e = "(mshr_at (m_data t) ?b)\<lparr>me_list := tl (waiting t ?b)\<rparr>"
    have "length (waiting t ?b) \<le> m_max_merged t"
    proof -
      obtain e where "map_of (m_data t) ?b = Some e"
        using inb by (metis map_of_eq_None_iff option.exhaust)
      with assms(1) show ?thesis
        by (auto simp: mshr_ok_def waiting_def mshr_at_def dest!: map_of_SomeD)
    qed
    then have "\<forall>(b, e) \<in> set (AList.update ?b ?e (m_data t)). me_list e \<noteq> [] \<and>
        length (me_list e) \<le> m_max_merged t"
      by (intro set_update_ball) (use assms(1) False in \<open>auto simp: mshr_ok_def\<close>)
    with mshr_next_access_eq(4) [OF assms(2) False] assms(1) inb show ?thesis
      by (auto simp: mshr_ok_def distinct_update dom_update length_update)
  qed
qed

subsection \<open>The table over time\<close>

text \<open>
  A run of the table under the protocol of the caches, with the requests added so far and the
  requests answered so far, each with its block.
\<close>

inductive mshr_run :: "nat \<Rightarrow> nat \<Rightarrow> mshr_table \<Rightarrow> (u64 \<times> nat) list \<Rightarrow> (u64 \<times> nat) list \<Rightarrow> bool"
  for n k where
  run_new: "0 < k \<Longrightarrow> mshr_run n k (mshr_new n k) [] []"
| run_add: "mshr_run n k t added done \<Longrightarrow> \<not> mshr_full b t \<Longrightarrow> mshr_add b mf atomic t = Some t' \<Longrightarrow>
    mshr_run n k t' (added @ [(b, mf)]) done"
| run_ready: "mshr_run n k t added done \<Longrightarrow> b \<notin> set (m_current_response t) \<Longrightarrow>
    mshr_mark_ready b t = Some (at, t') \<Longrightarrow> mshr_run n k t' added done"
| run_next: "mshr_run n k t added done \<Longrightarrow> mshr_next_access t = Some (mf, t') \<Longrightarrow>
    mshr_run n k t' added (done @ [(hd (m_current_response t), mf)])"

definition of_block :: "u64 \<Rightarrow> (u64 \<times> nat) list \<Rightarrow> nat list" where
  "of_block b xs = map snd (filter (\<lambda>x. fst x = b) xs)"

lemma mshr_run_ok: "mshr_run n k t added done \<Longrightarrow> mshr_ok t"
  by (induction rule: mshr_run.induct)
    (auto intro: mshr_add_ok mshr_mark_ready_ok mshr_next_access_ok)

text \<open>
  Property C16: the table of outstanding misses loses no request, duplicates none and keeps their
  order. In every run in which the cache adds only when \<open>full\<close> is false and marks a block ready
  once per response, the requests added for a block are those answered for it followed by those
  still waiting; adding to a table that is not full, marking a pending block and taking the
  next access while one is ready never abort.
\<close>

theorem mshr_answers_in_order:
  assumes "mshr_run n k t added done"
  shows "of_block b added = of_block b done @ waiting t b \<and>
    (\<not> mshr_full b t \<longrightarrow> mshr_add b mf atomic t \<noteq> None) \<and>
    (mshr_probe b t \<longrightarrow> b \<notin> set (m_current_response t) \<longrightarrow> mshr_mark_ready b t \<noteq> None) \<and>
    (mshr_access_ready t \<longrightarrow> mshr_next_access t \<noteq> None)"
proof -
  note ok = mshr_run_ok [OF assms]
  from assms have "of_block b added = of_block b done @ waiting t b"
  proof (induction rule: mshr_run.induct)
    case run_new
    then show ?case by (simp add: of_block_def waiting_def mshr_at_def mshr_new_def mshr_entry_new_def)
  next
    case (run_add t added "done" c mf atomic t')
    then show ?case
      using mshr_add_waiting(1) [OF run_add.hyps(3)] by (simp add: of_block_def)
  next
    case (run_ready t added "done" c at t')
    then show ?case by (simp add: mshr_mark_ready_waiting)
  next
    case (run_next t added "done" mf t')
    then show ?case
      using mshr_next_access_eq(2) [OF run_next.hyps(2)] mshr_next_access_waiting [OF run_next.hyps(2)]
      by (auto simp: of_block_def)
  qed
  with ok show ?thesis
    using mshr_add_total [OF ok] mshr_mark_ready_total [OF ok] mshr_next_access_total [OF ok]
    by fastforce
qed

theorem mshr_answers_in_order_witness:
  "\<exists>t. mshr_run 2 4 t [(0x80, 1), (0x100, 2), (0x80, 3)] [(0x80, 1)] \<and> waiting t 0x80 = [3]"
proof -
  let ?a = "\<lambda>l. \<lparr>me_list = l, me_has_atomic = False\<rparr>"
  let ?t = "\<lambda>d r. \<lparr>m_num_entries = 2, m_max_merged = 4, m_data = d, m_current_response = r\<rparr>"
  have "mshr_run 2 4 (mshr_new 2 4) [] []" by (rule run_new) simp
  from run_add [OF this, of "0x80" 1 False "?t [(0x80, ?a [1])] []"]
  have "mshr_run 2 4 (?t [(0x80, ?a [1])] []) [(0x80, 1)] []"
    by (simp add: mshr_full_def mshr_new_def mshr_add_def mshr_at_def mshr_entry_new_def)
  from run_add [OF this, of "0x100" 2 False "?t [(0x80, ?a [1]), (0x100, ?a [2])] []"]
  have "mshr_run 2 4 (?t [(0x80, ?a [1]), (0x100, ?a [2])] []) [(0x80, 1), (0x100, 2)] []"
    by (simp add: mshr_full_def mshr_add_def mshr_at_def mshr_entry_new_def)
  from run_add [OF this, of "0x80" 3 False "?t [(0x80, ?a [1, 3]), (0x100, ?a [2])] []"]
  have "mshr_run 2 4 (?t [(0x80, ?a [1, 3]), (0x100, ?a [2])] [])
      [(0x80, 1), (0x100, 2), (0x80, 3)] []"
    by (simp add: mshr_full_def mshr_add_def mshr_at_def mshr_entry_new_def)
  from run_ready [OF this, of "0x80" False "?t [(0x80, ?a [1, 3]), (0x100, ?a [2])] [0x80]"]
  have "mshr_run 2 4 (?t [(0x80, ?a [1, 3]), (0x100, ?a [2])] [0x80])
      [(0x80, 1), (0x100, 2), (0x80, 3)] []"
    by (simp add: mshr_mark_ready_def)
  from run_next [OF this, of 1 "?t [(0x80, ?a [3]), (0x100, ?a [2])] [0x80]"]
  have r: "mshr_run 2 4 (?t [(0x80, ?a [3]), (0x100, ?a [2])] [0x80])
      [(0x80, 1), (0x100, 2), (0x80, 3)] [(0x80, 1)]"
    by (simp add: mshr_next_access_def mshr_access_ready_def mshr_at_def)
  with mshr_answers_in_order [OF r, of "0x80"] show ?thesis by (auto simp: of_block_def)
qed

end
