(* ===== verification/Data_Cache.thy ===== *)
theory Data_Cache
  imports Cache_Stats Mshr
begin

text \<open>
  The caches built on the tag array and the miss status registers: \<open>baseline_cache\<close>,
  \<open>read_only_cache\<close> and \<open>data_cache\<close> of \<open>gpgpu-sim/gpu-cache.cc\<close>, with every write-hit and
  write-miss policy. A state holds the cache and the heap of memory requests, because a request
  that missed is shared by the table of misses, the miss queue and the memory below, and the cache
  changes its size through the pointer. The events an access pushes on its caller's list are part
  of the state too.
\<close>

record extra_mf_fields =
  ex_valid :: bool
  ex_block_addr :: u64
  ex_cache_index :: nat
  ex_data_size :: u32

record cache_sys =
  cs_config :: cache_config
  cs_tags :: tag_array
  cs_mshrs :: mshr_table
  cs_miss_queue :: "nat list"
  cs_miss_queue_status :: mem_fetch_status
  cs_extra :: "nat \<Rightarrow> extra_mf_fields option"
  cs_stats :: cache_stats
  cs_bandwidth :: bandwidth_management
  cs_heap :: mf_heap
  cs_events :: "cache_event list"

text \<open>
  What an access needs besides the cache: the memory configuration, the allocator of requests,
  the access types of write-allocate reads and write-backs, and the current cycle.
\<close>

record cache_env =
  ce_memory_config :: memory_config
  ce_allocator :: mf_allocator
  ce_wr_alloc_type :: mem_access_type
  ce_wrbk_type :: mem_access_type
  ce_now :: u64

definition baseline_new :: "cache_config \<Rightarrow> int \<Rightarrow> int \<Rightarrow> mem_fetch_status \<Rightarrow> mf_heap \<Rightarrow> cache_sys option" where
  "baseline_new cfg core_id type_id status h = do {
     require (m_mshr_type cfg = ASSOC);
     Some \<lparr>cs_config = cfg, cs_tags = tag_array_new cfg core_id type_id,
       cs_mshrs = mshr_new (m_mshr_entries cfg) (m_mshr_max_merge cfg), cs_miss_queue = [],
       cs_miss_queue_status = status, cs_extra = (\<lambda>_. None), cs_stats = cache_stats_new,
       cs_bandwidth = bandwidth_new, cs_heap = h, cs_events = []\<rparr>
   }"

definition data_cache_new :: "cache_config \<Rightarrow> int \<Rightarrow> int \<Rightarrow> mem_fetch_status \<Rightarrow> mf_heap \<Rightarrow> cache_sys option" where
  "data_cache_new cfg core_id type_id status h = do {
     s \<leftarrow> baseline_new cfg core_id type_id status h;
     require (m_write_policy cfg \<noteq> READ_ONLY);
     Some s
   }"

definition update_cache_parameters :: "cache_config \<Rightarrow> cache_sys \<Rightarrow> cache_sys option" where
  "update_cache_parameters cfg s = do {
     _ \<leftarrow> check_mshr_parameters (m_mshr_entries cfg) (m_mshr_max_merge cfg) (cs_mshrs s);
     Some (s\<lparr>cs_config := cfg\<rparr>)
   }"

subsection \<open>The baseline cache\<close>

definition miss_queue_full :: "nat \<Rightarrow> cache_sys \<Rightarrow> bool" where
  "miss_queue_full num_miss s \<longleftrightarrow>
     m_miss_queue_size (cs_config s) \<le> length (cs_miss_queue s) + num_miss"

text \<open>
  \<open>cycle\<close>; \<open>port_full\<close> is \<open>m_memport->full\<close> on the size and the direction of the request at
  the head of the miss queue. The first component is the request pushed to the port.
\<close>

definition cache_cycle :: "(u32 \<Rightarrow> bool \<Rightarrow> bool) \<Rightarrow> cache_sys \<Rightarrow> (nat option \<times> cache_sys) option" where
  "cache_cycle port_full s = do {
     (sent, s) \<leftarrow> (case cs_miss_queue s of
         [] \<Rightarrow> Some (None, s)
       | p # rest \<Rightarrow> do {
           mf \<leftarrow> heap_mf (cs_heap s) p;
           Some (if \<not> port_full (mf_size mf) (get_is_write mf)
                 then (Some p, s\<lparr>cs_miss_queue := rest\<rparr>) else (None, s))
         });
     let data_port_busy = \<not> data_port_free (cs_bandwidth s);
     let fill_port_busy = \<not> fill_port_free (cs_bandwidth s);
     bw \<leftarrow> replenish_port_bandwidth (cs_bandwidth s);
     Some (sent, s\<lparr>cs_stats := sample_cache_port_utility data_port_busy fill_port_busy (cs_stats s),
       cs_bandwidth := bw\<rparr>)
   }"

definition waiting_for_fill :: "nat \<Rightarrow> cache_sys \<Rightarrow> bool" where
  "waiting_for_fill p s \<longleftrightarrow> cs_extra s p \<noteq> None"

definition cache_fill :: "nat \<Rightarrow> u32 \<Rightarrow> cache_sys \<Rightarrow> cache_sys option" where
  "cache_fill p time s = do {
     e \<leftarrow> cs_extra s p;
     require (ex_valid e);
     h \<leftarrow> set_data_size (ex_data_size e) p (cs_heap s);
     tags \<leftarrow> (case m_alloc_policy (cs_config s) of
         ON_MISS \<Rightarrow> fill_index (cs_config s) (cs_tags s) (ex_cache_index e) time
       | ON_FILL \<Rightarrow> fill_addr (cs_config s) (cs_tags s) (ex_block_addr e) time);
     (has_atomic, mshrs) \<leftarrow> mshr_mark_ready (ex_block_addr e) (cs_mshrs s);
     tags \<leftarrow> (if has_atomic then do {
         require (m_alloc_policy (cs_config s) = ON_MISS);
         set_block_status (ex_cache_index e) MODIFIED tags
       } else Some tags);
     bw \<leftarrow> use_fill_port (cs_config s) (cs_bandwidth s);
     Some (s\<lparr>cs_tags := tags, cs_mshrs := mshrs, cs_extra := (cs_extra s)(p := None),
       cs_bandwidth := bw, cs_heap := h\<rparr>)
   }"

definition cache_access_ready :: "cache_sys \<Rightarrow> bool" where
  "cache_access_ready s \<longleftrightarrow> mshr_access_ready (cs_mshrs s)"

definition cache_next_access :: "cache_sys \<Rightarrow> (nat \<times> cache_sys) option" where
  "cache_next_access s = do {
     (p, mshrs) \<leftarrow> mshr_next_access (cs_mshrs s);
     Some (p, s\<lparr>cs_mshrs := mshrs\<rparr>)
   }"

definition cache_flush :: "cache_sys \<Rightarrow> cache_sys" where
  "cache_flush s = s\<lparr>cs_tags := flush (cs_config s) (cs_tags s)\<rparr>"

text \<open>
  The access to the tag array of a miss handler, with or without write-back; the third component
  is the evicted line if \<open>wb\<close> was set, the second the index written through the reference.
\<close>

definition tags_access :: "bool \<Rightarrow> u64 \<Rightarrow> u32 \<Rightarrow> nat \<Rightarrow> cache_sys \<Rightarrow>
    (cache_request_status \<times> nat \<times> cache_block option \<times> cache_sys) option" where
  "tags_access read_only block time cache_index s =
     (if read_only then do {
        (st, idx, tags) \<leftarrow> access_no_wb (cs_config s) (cs_tags s) block time;
        Some (st, (case idx of Some i \<Rightarrow> i | None \<Rightarrow> cache_index), None, s\<lparr>cs_tags := tags\<rparr>)
      } else do {
        (st, idx, evicted, tags) \<leftarrow> access (cs_config s) (cs_tags s) block time;
        Some (st, (case idx of Some i \<Rightarrow> i | None \<Rightarrow> cache_index), evicted, s\<lparr>cs_tags := tags\<rparr>)
      })"

text \<open>\<open>send_read_request\<close>: the results are \<open>do_miss\<close>, the evicted line, and the state.\<close>

definition send_read_request :: "u64 \<Rightarrow> nat \<Rightarrow> nat \<Rightarrow> u32 \<Rightarrow> bool \<Rightarrow> bool \<Rightarrow> cache_sys \<Rightarrow>
    (bool \<times> cache_block option \<times> cache_sys) option" where
  "send_read_request block cache_index p time read_only wa s = do {
     mf \<leftarrow> heap_mf (cs_heap s) p;
     let mshr_hit = mshr_probe block (cs_mshrs s);
     let mshr_avail = \<not> mshr_full block (cs_mshrs s);
     (if mshr_hit \<and> mshr_avail then do {
        (_, _, evicted, s) \<leftarrow> tags_access read_only block time cache_index s;
        mshrs \<leftarrow> mshr_add block p (isatomic mf) (cs_mshrs s);
        Some (True, evicted, s\<lparr>cs_mshrs := mshrs\<rparr>)
      } else if \<not> mshr_hit \<and> mshr_avail \<and>
          length (cs_miss_queue s) < m_miss_queue_size (cs_config s) then do {
        (_, index, evicted, s) \<leftarrow> tags_access read_only block time cache_index s;
        mshrs \<leftarrow> mshr_add block p (isatomic mf) (cs_mshrs s);
        h \<leftarrow> set_data_size (m_line_sz (cs_config s)) p (cs_heap s);
        h \<leftarrow> set_status (cs_miss_queue_status s) (ucast time) p h;
        Some (True, evicted, s\<lparr>cs_mshrs := mshrs,
          cs_extra := (cs_extra s)(p \<mapsto> \<lparr>ex_valid = True, ex_block_addr = block,
            ex_cache_index = index, ex_data_size = mf_data_size mf\<rparr>),
          cs_miss_queue := cs_miss_queue s @ [p], cs_heap := h,
          cs_events := (if wa then cs_events s else cs_events s @ [READ_REQUEST_SENT])\<rparr>)
      } else Some (False, None, s))
   }"

subsection \<open>Writing to the memory below\<close>

definition send_write_request :: "nat \<Rightarrow> cache_event \<Rightarrow> u32 \<Rightarrow> cache_sys \<Rightarrow> cache_sys option" where
  "send_write_request p request time s = do {
     h \<leftarrow> set_status (cs_miss_queue_status s) (ucast time) p (cs_heap s);
     Some (s\<lparr>cs_events := cs_events s @ [request], cs_miss_queue := cs_miss_queue s @ [p],
       cs_heap := h\<rparr>)
   }"

definition alloc_write_back :: "cache_env \<Rightarrow> cache_block \<Rightarrow> cache_sys \<Rightarrow> (nat \<times> cache_sys) option" where
  "alloc_write_back env evicted s = do {
     (q, h) \<leftarrow> mf_alloc (ce_allocator env) (ce_memory_config env) (ce_now env)
       (m_block_addr evicted) (ce_wrbk_type env) (m_line_sz (cs_config s)) True (cs_heap s);
     Some (q, s\<lparr>cs_heap := h\<rparr>)
   }"

subsection \<open>Write hits\<close>

definition wr_hit_wb :: "u64 \<Rightarrow> nat \<Rightarrow> u32 \<Rightarrow> cache_sys \<Rightarrow> (cache_request_status \<times> cache_sys) option" where
  "wr_hit_wb addr cache_index time s = do {
     (_, index, _, s) \<leftarrow> tags_access True (block_addr (cs_config s) addr) time cache_index s;
     tags \<leftarrow> set_block_status index MODIFIED (cs_tags s);
     Some (HIT, s\<lparr>cs_tags := tags\<rparr>)
   }"

definition wr_hit_wt :: "u64 \<Rightarrow> nat \<Rightarrow> nat \<Rightarrow> u32 \<Rightarrow> cache_sys \<Rightarrow> (cache_request_status \<times> cache_sys) option" where
  "wr_hit_wt addr cache_index p time s =
     (if miss_queue_full 0 s then Some (RESERVATION_FAIL, s)
      else do {
        (_, index, _, s) \<leftarrow> tags_access True (block_addr (cs_config s) addr) time cache_index s;
        tags \<leftarrow> set_block_status index MODIFIED (cs_tags s);
        s \<leftarrow> send_write_request p WRITE_REQUEST_SENT time (s\<lparr>cs_tags := tags\<rparr>);
        Some (HIT, s)
      })"

definition wr_hit_we :: "nat \<Rightarrow> nat \<Rightarrow> u32 \<Rightarrow> cache_sys \<Rightarrow> (cache_request_status \<times> cache_sys) option" where
  "wr_hit_we cache_index p time s =
     (if miss_queue_full 0 s then Some (RESERVATION_FAIL, s)
      else do {
        s \<leftarrow> send_write_request p WRITE_REQUEST_SENT time s;
        tags \<leftarrow> set_block_status cache_index INVALID (cs_tags s);
        Some (HIT, s\<lparr>cs_tags := tags\<rparr>)
      })"

definition wr_hit_global_we_local_wb :: "u64 \<Rightarrow> nat \<Rightarrow> nat \<Rightarrow> u32 \<Rightarrow> cache_sys \<Rightarrow>
    (cache_request_status \<times> cache_sys) option" where
  "wr_hit_global_we_local_wb addr cache_index p time s = do {
     mf \<leftarrow> heap_mf (cs_heap s) p;
     (if ma_type (mf_access mf) = GLOBAL_ACC_W
      then wr_hit_we cache_index p time s
      else wr_hit_wb addr cache_index time s)
   }"

text \<open>\<open>m_wr_hit\<close>, as \<open>init\<close> sets it from the write policy.\<close>

definition wr_hit :: "u64 \<Rightarrow> nat \<Rightarrow> nat \<Rightarrow> u32 \<Rightarrow> cache_sys \<Rightarrow> (cache_request_status \<times> cache_sys) option" where
  "wr_hit addr cache_index p time s = (case m_write_policy (cs_config s) of
       READ_ONLY \<Rightarrow> None
     | WRITE_BACK \<Rightarrow> wr_hit_wb addr cache_index time s
     | WRITE_THROUGH \<Rightarrow> wr_hit_wt addr cache_index p time s
     | WRITE_EVICT \<Rightarrow> wr_hit_we cache_index p time s
     | LOCAL_WB_GLOBAL_WT \<Rightarrow> wr_hit_global_we_local_wb addr cache_index p time s)"

subsection \<open>Write misses\<close>

text \<open>The end of \<open>wr_miss_wa\<close>: the write-back of the evicted line, and the result.\<close>

definition finish_write_allocate :: "cache_env \<Rightarrow> bool \<Rightarrow> cache_block option \<Rightarrow> u32 \<Rightarrow> cache_sys \<Rightarrow>
    (cache_request_status \<times> cache_sys) option" where
  "finish_write_allocate env do_miss evicted time s =
     (if do_miss then (case evicted of
             Some line \<Rightarrow>
               if m_write_policy (cs_config s) \<noteq> WRITE_THROUGH then do {
                 (q, s) \<leftarrow> alloc_write_back env line s;
                 h \<leftarrow> set_status (cs_miss_queue_status s) (ucast time) q (cs_heap s);
                 Some (MISS, s\<lparr>cs_miss_queue := cs_miss_queue s @ [q], cs_heap := h\<rparr>)
               } else Some (MISS, s)
           | None \<Rightarrow> Some (MISS, s))
         else Some (RESERVATION_FAIL, s))"

definition wr_miss_wa :: "cache_env \<Rightarrow> u64 \<Rightarrow> nat \<Rightarrow> nat \<Rightarrow> u32 \<Rightarrow> cache_sys \<Rightarrow>
    (cache_request_status \<times> cache_sys) option" where
  "wr_miss_wa env addr cache_index p time s = do {
     let block = block_addr (cs_config s) addr;
     let mshr_hit = mshr_probe block (cs_mshrs s);
     let mshr_avail = \<not> mshr_full block (cs_mshrs s);
     (if miss_queue_full 2 s \<or> (\<not> (mshr_hit \<and> mshr_avail) \<and>
          \<not> (\<not> mshr_hit \<and> mshr_avail \<and> length (cs_miss_queue s) < m_miss_queue_size (cs_config s)))
      then Some (RESERVATION_FAIL, s)
      else do {
        s \<leftarrow> send_write_request p WRITE_REQUEST_SENT time s;
        mf \<leftarrow> heap_mf (cs_heap s) p;
        let ma = mem_access_full (ce_wr_alloc_type env) (ma_addr (mf_access mf)) (mf_data_size mf)
          False (ma_warp_mask (mf_access mf)) (ma_byte_mask (mf_access mf));
        (n, h) \<leftarrow> mem_fetch_new (ce_memory_config env) (ce_now env) ma None (mf_ctrl_size mf)
          (mf_wid mf) (mf_sid mf) (mf_tpc mf) (cs_heap s);
        (do_miss, evicted, s) \<leftarrow>
          send_read_request block cache_index n time False True (s\<lparr>cs_heap := h\<rparr>);
        finish_write_allocate env do_miss evicted time s
      })
   }"

definition wr_miss_no_wa :: "nat \<Rightarrow> u32 \<Rightarrow> cache_sys \<Rightarrow> (cache_request_status \<times> cache_sys) option" where
  "wr_miss_no_wa p time s =
     (if miss_queue_full 0 s then Some (RESERVATION_FAIL, s)
      else do {
        s \<leftarrow> send_write_request p WRITE_REQUEST_SENT time s;
        Some (MISS, s)
      })"

definition wr_miss :: "cache_env \<Rightarrow> u64 \<Rightarrow> nat \<Rightarrow> nat \<Rightarrow> u32 \<Rightarrow> cache_sys \<Rightarrow>
    (cache_request_status \<times> cache_sys) option" where
  "wr_miss env addr cache_index p time s = (case m_write_alloc_policy (cs_config s) of
       WRITE_ALLOCATE \<Rightarrow> wr_miss_wa env addr cache_index p time s
     | NO_WRITE_ALLOCATE \<Rightarrow> wr_miss_no_wa p time s)"

subsection \<open>Reads\<close>

definition rd_hit_base :: "u64 \<Rightarrow> nat \<Rightarrow> nat \<Rightarrow> u32 \<Rightarrow> cache_sys \<Rightarrow>
    (cache_request_status \<times> cache_sys) option" where
  "rd_hit_base addr cache_index p time s = do {
     mf \<leftarrow> heap_mf (cs_heap s) p;
     (_, index, _, s) \<leftarrow> tags_access True (block_addr (cs_config s) addr) time cache_index s;
     (if isatomic mf then do {
        require (ma_type (mf_access mf) = GLOBAL_ACC_R);
        tags \<leftarrow> set_block_status index MODIFIED (cs_tags s);
        Some (HIT, s\<lparr>cs_tags := tags\<rparr>)
      } else Some (HIT, s))
   }"

definition rd_miss_base :: "cache_env \<Rightarrow> u64 \<Rightarrow> nat \<Rightarrow> nat \<Rightarrow> u32 \<Rightarrow> cache_sys \<Rightarrow>
    (cache_request_status \<times> cache_sys) option" where
  "rd_miss_base env addr cache_index p time s =
     (if miss_queue_full 1 s then Some (RESERVATION_FAIL, s)
      else do {
        (do_miss, evicted, s) \<leftarrow>
          send_read_request (block_addr (cs_config s) addr) cache_index p time False False s;
        (if do_miss then (case evicted of
             Some line \<Rightarrow>
               if m_write_policy (cs_config s) \<noteq> WRITE_THROUGH then do {
                 (q, s) \<leftarrow> alloc_write_back env line s;
                 s \<leftarrow> send_write_request q WRITE_BACK_REQUEST_SENT time s;
                 Some (MISS, s)
               } else Some (MISS, s)
           | None \<Rightarrow> Some (MISS, s))
         else Some (RESERVATION_FAIL, s))
      })"

subsection \<open>The access functions\<close>

definition count_access :: "nat \<Rightarrow> cache_request_status \<Rightarrow> cache_request_status \<Rightarrow> cache_sys \<Rightarrow>
    cache_sys option" where
  "count_access p probed accessed s = do {
     mf \<leftarrow> heap_mf (cs_heap s) p;
     stats \<leftarrow> inc_stats (access_code (ma_type (mf_access mf)))
       (outcome_code (select_stats_status probed accessed)) (cs_stats s);
     Some (s\<lparr>cs_stats := stats\<rparr>)
   }"

definition process_tag_probe :: "cache_env \<Rightarrow> bool \<Rightarrow> cache_request_status \<Rightarrow> u64 \<Rightarrow> nat \<Rightarrow> nat \<Rightarrow> u32 \<Rightarrow>
    cache_sys \<Rightarrow> (cache_request_status \<times> cache_sys) option" where
  "process_tag_probe env wr probe_status addr cache_index p time s = do {
     (access_status, s) \<leftarrow>
       (if wr then
          (if probe_status = HIT then wr_hit addr cache_index p time s
           else if probe_status \<noteq> RESERVATION_FAIL then wr_miss env addr cache_index p time s
           else Some (probe_status, s))
        else
          (if probe_status = HIT then rd_hit_base addr cache_index p time s
           else if probe_status \<noteq> RESERVATION_FAIL then rd_miss_base env addr cache_index p time s
           else Some (probe_status, s)));
     mf \<leftarrow> heap_mf (cs_heap s) p;
     bw \<leftarrow> use_data_port (cs_config s) (mf_data_size mf) access_status (cs_events s) (cs_bandwidth s);
     Some (access_status, s\<lparr>cs_bandwidth := bw\<rparr>)
   }"

text \<open>The value \<open>(unsigned)-1\<close> that \<open>cache_index\<close> starts with.\<close>

definition no_index :: nat where "no_index = 4294967295"

definition data_cache_access :: "cache_env \<Rightarrow> u64 \<Rightarrow> nat \<Rightarrow> u32 \<Rightarrow> cache_sys \<Rightarrow>
    (cache_request_status \<times> cache_sys) option" where
  "data_cache_access env addr p time s = do {
     mf \<leftarrow> heap_mf (cs_heap s) p;
     require (mf_data_size mf \<le> m_line_sz (cs_config s));
     let wr = get_is_write mf;
     let block = block_addr (cs_config s) addr;
     (probe_status, idx) \<leftarrow> probe (cs_config s) (cs_tags s) block;
     (access_status, s) \<leftarrow> process_tag_probe env wr probe_status addr
       (case idx of Some i \<Rightarrow> i | None \<Rightarrow> no_index) p time s;
     s \<leftarrow> count_access p probe_status access_status s;
     Some (access_status, s)
   }"

definition read_only_cache_access :: "u64 \<Rightarrow> nat \<Rightarrow> u32 \<Rightarrow> cache_sys \<Rightarrow>
    (cache_request_status \<times> cache_sys) option" where
  "read_only_cache_access addr p time s = do {
     mf \<leftarrow> heap_mf (cs_heap s) p;
     require (mf_data_size mf \<le> m_line_sz (cs_config s));
     require (m_write_policy (cs_config s) = READ_ONLY);
     require (\<not> get_is_write mf);
     let block = block_addr (cs_config s) addr;
     (probe_status, idx) \<leftarrow> probe (cs_config s) (cs_tags s) block;
     let cache_index = (case idx of Some i \<Rightarrow> i | None \<Rightarrow> no_index);
     (cache_status, s) \<leftarrow>
       (if probe_status = HIT then do {
          (st, _, _, s) \<leftarrow> tags_access True block time cache_index s;
          Some (st, s)
        } else if probe_status \<noteq> RESERVATION_FAIL then
          (if \<not> miss_queue_full 0 s then do {
             (do_miss, _, s) \<leftarrow> send_read_request block cache_index p time True False s;
             Some (if do_miss then MISS else RESERVATION_FAIL, s)
           } else Some (RESERVATION_FAIL, s))
        else Some (RESERVATION_FAIL, s));
     s \<leftarrow> count_access p probe_status cache_status s;
     Some (cache_status, s)
   }"

definition l1_cache_access :: "cache_env \<Rightarrow> u64 \<Rightarrow> nat \<Rightarrow> u32 \<Rightarrow> cache_sys \<Rightarrow>
    (cache_request_status \<times> cache_sys) option" where
  "l1_cache_access env addr p time s = data_cache_access env addr p time s"

definition l2_cache_access :: "cache_env \<Rightarrow> u64 \<Rightarrow> nat \<Rightarrow> u32 \<Rightarrow> cache_sys \<Rightarrow>
    (cache_request_status \<times> cache_sys) option" where
  "l2_cache_access env addr p time s = data_cache_access env addr p time s"

subsection \<open>Reserved lines stay reserved\<close>

definition reserved_kept :: "tag_array \<Rightarrow> tag_array \<Rightarrow> bool" where
  "reserved_kept ta ta' \<longleftrightarrow> length (m_lines ta') = length (m_lines ta) \<and>
     (\<forall>j < length (m_lines ta). m_status (m_lines ta ! j) = RESERVED \<longrightarrow>
        m_status (m_lines ta' ! j) = RESERVED \<and> m_tag (m_lines ta' ! j) = m_tag (m_lines ta ! j))"

lemma reserved_kept_refl [simp]: "reserved_kept ta ta"
  by (simp add: reserved_kept_def)

lemma reserved_kept_trans: "reserved_kept a b \<Longrightarrow> reserved_kept b c \<Longrightarrow> reserved_kept a c"
  by (simp add: reserved_kept_def)

lemma nth_update_if: "k < length xs \<Longrightarrow> xs[i := x] ! k = (if i = k then x else xs ! k)"
  by simp

lemma reserved_kept_access:
  assumes "access cfg ta addr time = Some (s, idx, ev, ta')"
  shows "reserved_kept ta ta'"
  using assms
proof (cases rule: access_cases)
  case (hit j)
  then show ?thesis by (auto simp: reserved_kept_def nth_update_if)
next
  case (miss j)
  then show ?thesis
    using probe_miss(1) [OF miss(3)] by (auto simp: reserved_kept_def nth_update_if)
qed (simp_all add: reserved_kept_def)

lemma reserved_kept_status:
  assumes "set_block_status i st ta = Some ta'" and "m_status (m_lines ta ! i) \<noteq> RESERVED"
  shows "reserved_kept ta ta'"
  using assms by (auto simp: set_block_status_def reserved_kept_def nth_update_if split: if_splits)

lemma access_reserves:
  assumes "access cfg ta addr time = Some (s, Some j, ev, ta')" and "s = MISS \<or> s = HIT_RESERVED"
    and "m_alloc_policy cfg = ON_MISS"
  shows "j < length (m_lines ta') \<and> m_status (m_lines ta' ! j) = RESERVED \<and>
    m_tag (m_lines ta' ! j) = tag cfg addr"
proof -
  have p: "probe cfg ta addr = Some (s, Some j)" by (rule access_status [OF assms(1)])
  then have j: "j < length (m_lines ta)" using probe_in_set in_set_less by blast
  from assms(1) show ?thesis
  proof (cases rule: access_cases)
    case (hit k)
    then have k: "k = j" and s: "s = HIT_RESERVED" using assms(2) by auto
    from probe_hit [OF p] s have "holds (tag cfg addr) (m_lines ta ! j)"
      "hit_status (m_lines ta ! j) = HIT_RESERVED" by auto
    then have "m_tag (m_lines ta ! j) = tag cfg addr" "m_status (m_lines ta ! j) = RESERVED"
      by (auto simp: holds_def hit_status_def split: if_splits)
    with hit(5) k j show ?thesis by simp
  next
    case (miss k)
    with j show ?thesis by (auto simp: block_allocate_def)
  qed (use assms(3) in auto)
qed

lemma access_hit_not_reserved:
  assumes "access cfg ta addr time = Some (HIT, Some j, ev, ta')"
  shows "m_status (m_lines ta ! j) \<noteq> RESERVED" and "m_status (m_lines ta' ! j) \<noteq> RESERVED"
proof -
  have p: "probe cfg ta addr = Some (HIT, Some j)" by (rule access_status [OF assms])
  then have j: "j < length (m_lines ta)" using probe_in_set in_set_less by blast
  show n: "m_status (m_lines ta ! j) \<noteq> RESERVED"
    using probe_hit(2) [OF p] by (auto simp: hit_status_def split: if_splits)
  from assms show "m_status (m_lines ta' ! j) \<noteq> RESERVED"
    by (rule access_cases) (use n j in auto)
qed

subsection \<open>What holds of a cache between two operations\<close>

text \<open>
  A request that waits for its data names a line that is reserved for its block, its block has an
  entry in the table that is not ready yet, and no other waiting request has that block.
\<close>

definition outstanding :: "cache_sys \<Rightarrow> extra_mf_fields \<Rightarrow> bool" where
  "outstanding s e \<longleftrightarrow> ex_valid e \<and> mshr_probe (ex_block_addr e) (cs_mshrs s) \<and>
     ex_block_addr e \<notin> set (m_current_response (cs_mshrs s)) \<and>
     ex_cache_index e < length (m_lines (cs_tags s)) \<and>
     m_status (m_lines (cs_tags s) ! ex_cache_index e) = RESERVED \<and>
     m_tag (m_lines (cs_tags s) ! ex_cache_index e) = ex_block_addr e"

definition extra_ok :: "cache_sys \<Rightarrow> bool" where
  "extra_ok s \<longleftrightarrow>
     (\<forall>p e. cs_extra s p = Some e \<longrightarrow> outstanding s e \<and> heap_mf (cs_heap s) p \<noteq> None)"

definition extra_distinct :: "(nat \<Rightarrow> extra_mf_fields option) \<Rightarrow> bool" where
  "extra_distinct x \<longleftrightarrow> (\<forall>p q e f. x p = Some e \<longrightarrow> x q = Some f \<longrightarrow>
     ex_block_addr e = ex_block_addr f \<longrightarrow> p = q)"

definition cache_inv :: "cache_sys \<Rightarrow> bool" where
  "cache_inv s \<longleftrightarrow> mshr_ok (cs_mshrs s) \<and> heap_ok (cs_heap s) \<and> ports_ok (cs_bandwidth s) \<and>
     extra_ok s \<and> extra_distinct (cs_extra s) \<and>
     (\<forall>p \<in> set (cs_miss_queue s). heap_mf (cs_heap s) p \<noteq> None)"

lemma cache_inv_tags:
  assumes "cache_inv s" and "reserved_kept (cs_tags s) tags"
  shows "cache_inv (s\<lparr>cs_tags := tags\<rparr>)"
  using assms by (auto simp: cache_inv_def extra_ok_def outstanding_def reserved_kept_def)

lemma cache_inv_stats [simp]: "cache_inv (s\<lparr>cs_stats := x\<rparr>) = cache_inv s"
  by (simp add: cache_inv_def extra_ok_def outstanding_def)

lemma cache_inv_events [simp]: "cache_inv (s\<lparr>cs_events := x\<rparr>) = cache_inv s"
  by (simp add: cache_inv_def extra_ok_def outstanding_def)

lemma cache_inv_bandwidth:
  "cache_inv s \<Longrightarrow> ports_ok bw \<Longrightarrow> cache_inv (s\<lparr>cs_bandwidth := bw\<rparr>)"
  by (simp add: cache_inv_def extra_ok_def outstanding_def)

definition heap_grows :: "mf_heap \<Rightarrow> mf_heap \<Rightarrow> bool" where
  "heap_grows h h' \<longleftrightarrow> (heap_ok h \<longrightarrow> heap_ok h') \<and>
     (\<forall>p. heap_mf h p \<noteq> None \<longrightarrow> heap_mf h' p \<noteq> None)"

lemma heap_grows_trans: "heap_grows a b \<Longrightarrow> heap_grows b c \<Longrightarrow> heap_grows a c"
  by (simp add: heap_grows_def)

lemma heap_grows_update: "update_mf p f h = Some h' \<Longrightarrow> heap_grows h h'"
  using update_mf_ok [of p f h h'] update_mf_dom [of p f h h'] by (auto simp: heap_grows_def)

lemma heap_grows_new: "mem_fetch_new config now a inst c w x t h = Some (p, h') \<Longrightarrow> heap_grows h h'"
  using mem_fetch_new_ok [of config now a inst c w x t h p h'] mem_fetch_new_eq [of config now a inst c w x t h p h']
  by (auto simp: heap_grows_def)

lemma cache_inv_heap:
  "cache_inv s \<Longrightarrow> heap_grows (cs_heap s) h \<Longrightarrow> cache_inv (s\<lparr>cs_heap := h\<rparr>)"
  by (auto simp: cache_inv_def extra_ok_def outstanding_def heap_grows_def)

lemma cache_inv_push:
  "cache_inv s \<Longrightarrow> heap_mf (cs_heap s) p \<noteq> None \<Longrightarrow>
   cache_inv (s\<lparr>cs_miss_queue := cs_miss_queue s @ [p]\<rparr>)"
  by (auto simp: cache_inv_def extra_ok_def outstanding_def)

lemma mshr_add_probe:
  assumes "mshr_ok t" and "mshr_add b mf atomic t = Some t'"
  shows "mshr_probe c t' \<longleftrightarrow> c = b \<or> mshr_probe c t"
proof -
  have "mshr_probe c t' \<longleftrightarrow> waiting t' c \<noteq> []"
    by (rule mshr_probe_waiting [OF mshr_add_ok [OF assms]])
  also have "\<dots> \<longleftrightarrow> c = b \<or> waiting t c \<noteq> []"
    by (simp add: mshr_add_waiting(1) [OF assms(2)])
  finally show ?thesis by (simp add: mshr_probe_waiting [OF assms(1)])
qed

lemma cache_inv_add:
  assumes "cache_inv s" and "mshr_add b p atomic (cs_mshrs s) = Some m"
  shows "cache_inv (s\<lparr>cs_mshrs := m\<rparr>)"
proof -
  have ok: "mshr_ok (cs_mshrs s)" using assms(1) by (simp add: cache_inv_def)
  with assms show ?thesis
    using mshr_add_ok [OF ok assms(2)] mshr_add_probe [OF ok assms(2)] mshr_add_waiting(2) [OF assms(2)]
    by (auto simp: cache_inv_def extra_ok_def outstanding_def)
qed

lemma cache_inv_extraD:
  "cache_inv s \<Longrightarrow> cs_extra s p = Some e \<Longrightarrow> outstanding s e \<and> heap_mf (cs_heap s) p \<noteq> None"
  unfolding cache_inv_def extra_ok_def by blast

lemma cache_inv_distinct:
  "cache_inv s \<Longrightarrow> cs_extra s p = Some e \<Longrightarrow> cs_extra s q = Some f \<Longrightarrow>
   ex_block_addr e = ex_block_addr f \<Longrightarrow> p = q"
  unfolding cache_inv_def extra_distinct_def by blast

text \<open>A new waiting request, for a block that had no entry before.\<close>

lemma cache_inv_extra:
  assumes "cache_inv s" and "outstanding s e" and "heap_mf (cs_heap s) p \<noteq> None"
    and "cs_extra s p = None"
    and "\<And>q f. cs_extra s q = Some f \<Longrightarrow> ex_block_addr f \<noteq> ex_block_addr e"
  shows "cache_inv (s\<lparr>cs_extra := (cs_extra s)(p \<mapsto> e)\<rparr>)"
proof -
  have uniq: "q = r" if "cs_extra s q = Some f" "cs_extra s r = Some g"
      "ex_block_addr f = ex_block_addr g" for q r f g
    using assms(1) that unfolding cache_inv_def extra_distinct_def by blast
  have old: "outstanding s f \<and> heap_mf (cs_heap s) q \<noteq> None" if "cs_extra s q = Some f" for q f
    using assms(1) that unfolding cache_inv_def extra_ok_def by blast
  let ?x = "(cs_extra s)(p \<mapsto> e)"
  have new: "outstanding s f \<and> heap_mf (cs_heap s) q \<noteq> None" if "?x q = Some f" for q f
    using that old [of q f] assms(2,3) by (cases "q = p") simp_all
  have "q = r" if a: "?x q = Some f" and b: "?x r = Some g"
    and c: "ex_block_addr f = ex_block_addr g" for q r f g
  proof -
    consider "q = p" "r = p" | "q = p" "r \<noteq> p" | "q \<noteq> p" "r = p" | "q \<noteq> p" "r \<noteq> p" by blast
    then show ?thesis
    proof cases
      case 2
      with a b have "f = e" "cs_extra s r = Some g" by simp_all
      with c assms(5) show ?thesis by metis
    next
      case 3
      with a b have "g = e" "cs_extra s q = Some f" by simp_all
      with c assms(5) show ?thesis by metis
    next
      case 4
      with a b have "cs_extra s q = Some f" "cs_extra s r = Some g" by simp_all
      then show ?thesis using c by (rule uniq)
    qed simp
  qed
  then have "extra_distinct ?x" unfolding extra_distinct_def by blast
  moreover have "outstanding (s\<lparr>cs_extra := ?x\<rparr>) f = outstanding s f" for f
    by (simp add: outstanding_def)
  then have "extra_ok (s\<lparr>cs_extra := ?x\<rparr>)"
    unfolding extra_ok_def using new by (metis cache_sys.select_convs(6,9) cache_sys.surjective
      cache_sys.update_convs(6))
  ultimately show ?thesis
    using assms(1) by (simp add: cache_inv_def)
qed

subsection \<open>Every operation keeps the invariant\<close>

text \<open>The fixed part of the state, and the requests already waiting.\<close>

lemma access_no_wb_eq:
  "access_no_wb cfg ta b t = Some (st, idx, ta') \<longleftrightarrow> access cfg ta b t = Some (st, idx, None, ta')"
  by (auto simp: access_no_wb_def bind_eq_Some_iff split: if_splits)

lemma access_idx_None: "access cfg ta b t = Some (st, None, ev, ta') \<Longrightarrow> st = RESERVATION_FAIL"
  by (erule access_cases) auto

lemma tags_access_eq:
  assumes "tags_access ro b t ci s = Some (st, i, ev, s')"
  shows "\<exists>idx ev' tags. access (cs_config s) (cs_tags s) b t = Some (st, idx, ev', tags) \<and>
    s' = s\<lparr>cs_tags := tags\<rparr> \<and> (idx = Some i \<or> st = RESERVATION_FAIL)"
proof -
  obtain idx ev' tags where acc: "access (cs_config s) (cs_tags s) b t = Some (st, idx, ev', tags)"
    and s': "s' = s\<lparr>cs_tags := tags\<rparr>" and i: "i = (case idx of Some i \<Rightarrow> i | None \<Rightarrow> ci)"
    using assms
    by (auto simp: tags_access_def bind_eq_Some_iff access_no_wb_eq split: if_splits)
  moreover have "idx = Some i \<or> st = RESERVATION_FAIL"
    using acc i access_idx_None by (cases idx) auto
  ultimately show ?thesis by blast
qed

lemma cache_inv_tags_access:
  "tags_access ro b t ci s = Some (st, i, ev, s') \<Longrightarrow> cache_inv s \<Longrightarrow> cache_inv s'"
  by (drule tags_access_eq) (auto intro: cache_inv_tags reserved_kept_access)

lemma send_read_cases:
  assumes "send_read_request b ci p t ro wa s = Some (m, ev, s')"
  obtains
    (refused) "m = False" "ev = None" "s' = s"
  | (merged) st i ev' s1 mshrs mf where "m = True" "mshr_probe b (cs_mshrs s)"
      "tags_access ro b t ci s = Some (st, i, ev', s1)" "heap_mf (cs_heap s) p = Some mf"
      "mshr_add b p (isatomic mf) (cs_mshrs s) = Some mshrs" "s' = s1\<lparr>cs_mshrs := mshrs\<rparr>" "ev = ev'"
  | (sent) st i ev' s1 mshrs mf h1 h2 where "m = True" "\<not> mshr_probe b (cs_mshrs s)"
      "length (cs_miss_queue s) < m_miss_queue_size (cs_config s)"
      "tags_access ro b t ci s = Some (st, i, ev', s1)" "heap_mf (cs_heap s) p = Some mf"
      "mshr_add b p (isatomic mf) (cs_mshrs s) = Some mshrs" "ev = ev'"
      "set_data_size (m_line_sz (cs_config s)) p (cs_heap s) = Some h1"
      "set_status (cs_miss_queue_status s) (ucast t) p h1 = Some h2"
      "s' = s1\<lparr>cs_mshrs := mshrs,
          cs_extra := (cs_extra s)(p \<mapsto> \<lparr>ex_valid = True, ex_block_addr = b,
            ex_cache_index = i, ex_data_size = mf_data_size mf\<rparr>),
          cs_miss_queue := cs_miss_queue s @ [p], cs_heap := h2,
          cs_events := (if wa then cs_events s else cs_events s @ [READ_REQUEST_SENT])\<rparr>"
proof -
  obtain mf where mf: "heap_mf (cs_heap s) p = Some mf"
    using assms by (auto simp: send_read_request_def bind_eq_Some_iff)
  let ?hit = "mshr_probe b (cs_mshrs s)" and ?full = "mshr_full b (cs_mshrs s)"
  consider (merge) "?hit" "\<not> ?full"
    | (send) "\<not> ?hit" "\<not> ?full" "length (cs_miss_queue s) < m_miss_queue_size (cs_config s)"
    | (refuse) "\<not> (?hit \<and> \<not> ?full)"
        "\<not> (\<not> ?hit \<and> \<not> ?full \<and> length (cs_miss_queue s) < m_miss_queue_size (cs_config s))"
    by blast
  then show thesis
  proof cases
    case merge
    with assms mf obtain st i s1 mshrs where "tags_access ro b t ci s = Some (st, i, ev, s1)"
      "mshr_add b p (isatomic mf) (cs_mshrs s1) = Some mshrs" "s' = s1\<lparr>cs_mshrs := mshrs\<rparr>" "m = True"
      by (auto simp: send_read_request_def Let_def bind_eq_Some_iff)
    moreover from this(1) have "cs_mshrs s1 = cs_mshrs s" by (auto dest!: tags_access_eq)
    ultimately show thesis using merge mf by (intro merged) auto
  next
    case send
    with assms mf obtain st i s1 mshrs h1 h2 where
      1: "tags_access ro b t ci s = Some (st, i, ev, s1)" and
      2: "mshr_add b p (isatomic mf) (cs_mshrs s1) = Some mshrs" "m = True"
      "set_data_size (m_line_sz (cs_config s1)) p (cs_heap s1) = Some h1"
      "set_status (cs_miss_queue_status s1) (ucast t) p h1 = Some h2"
      "s' = s1\<lparr>cs_mshrs := mshrs,
          cs_extra := (cs_extra s1)(p \<mapsto> \<lparr>ex_valid = True, ex_block_addr = b,
            ex_cache_index = i, ex_data_size = mf_data_size mf\<rparr>),
          cs_miss_queue := cs_miss_queue s1 @ [p], cs_heap := h2,
          cs_events := (if wa then cs_events s1 else cs_events s1 @ [READ_REQUEST_SENT])\<rparr>"
      by (auto simp: send_read_request_def Let_def bind_eq_Some_iff)
    obtain tags where s1: "s1 = s\<lparr>cs_tags := tags\<rparr>" using 1 by (auto dest!: tags_access_eq)
    show thesis
      by (rule sent [of st i ev s1 mf mshrs h1 h2]) (use send mf 1 2 in \<open>simp_all add: s1\<close>)
  next
    case refuse
    with assms mf have "m = False" "ev = None" "s' = s"
      by (auto simp: send_read_request_def Let_def split: if_splits)
    then show thesis by (rule refused)
  qed
qed

lemma heap_grows_set [intro]:
  "set_data_size n p h = Some h' \<Longrightarrow> heap_grows h h'"
  "set_status st c p h = Some h' \<Longrightarrow> heap_grows h h'"
  by (auto simp: set_data_size_def set_status_def intro: heap_grows_update)

text \<open>
  A read request goes out for a block that the tag array missed or is still waiting for, from a
  request that is not waiting itself.
\<close>

lemma cache_inv_send_read:
  assumes "send_read_request b ci p t ro wa s = Some (m, ev, s')" and "cache_inv s"
    and "m_alloc_policy (cs_config s) = ON_MISS" and "cs_extra s p = None"
    and "probe (cs_config s) (cs_tags s) b = Some (st0, idx0)" and "st0 = MISS \<or> st0 = HIT_RESERVED"
    and "tag (cs_config s) b = b"
  shows "cache_inv s' \<and> cs_config s' = cs_config s \<and>
    length (cs_miss_queue s') \<le> Suc (length (cs_miss_queue s))"
  using assms(1)
proof (cases rule: send_read_cases)
  case (merged st i ev' s1 mshrs mf)
  obtain tags where s1: "s1 = s\<lparr>cs_tags := tags\<rparr>" using merged(3) by (auto dest!: tags_access_eq)
  have "cache_inv s1" using merged(3) assms(2) by (rule cache_inv_tags_access)
  moreover have "mshr_add b p (isatomic mf) (cs_mshrs s1) = Some mshrs" using merged(5) s1 by simp
  ultimately have "cache_inv s'" unfolding merged(6) by (rule cache_inv_add)
  then show ?thesis by (simp add: merged(6) s1)
next
  case (sent st i ev' s1 mshrs mf h1 h2)
  from tags_access_eq [OF sent(4)] obtain idx ev1 tags where
    acc: "access (cs_config s) (cs_tags s) b t = Some (st, idx, ev1, tags)"
    and s1: "s1 = s\<lparr>cs_tags := tags\<rparr>" and idx: "idx = Some i \<or> st = RESERVATION_FAIL" by blast
  have st: "st = st0" using access_status [OF acc] assms(5) by simp
  with assms(6) idx have idx: "idx = Some i" by auto
  with access_reserves [of "cs_config s" "cs_tags s" b t st i ev1 tags] acc st assms(3,6,7)
  have line: "i < length (m_lines tags)" "m_status (m_lines tags ! i) = RESERVED"
    "m_tag (m_lines tags ! i) = b" by auto
  let ?e = "\<lparr>ex_valid = True, ex_block_addr = b, ex_cache_index = i, ex_data_size = mf_data_size mf\<rparr>"
  let ?s2 = "s1\<lparr>cs_mshrs := mshrs\<rparr>"
  have ok: "mshr_ok (cs_mshrs s)" using assms(2) by (simp add: cache_inv_def)
  have "cache_inv s1" using sent(4) assms(2) by (rule cache_inv_tags_access)
  moreover have "mshr_add b p (isatomic mf) (cs_mshrs s1) = Some mshrs" using sent(6) s1 by simp
  ultimately have inv2: "cache_inv ?s2" by (rule cache_inv_add)
  have notready: "b \<notin> set (m_current_response mshrs)"
    using sent(2) ok mshr_add_waiting(2) [OF sent(6)] by (auto simp: mshr_ok_def mshr_probe_iff)
  have out: "outstanding ?s2 ?e"
    using line notready mshr_add_probe [OF ok sent(6)] by (simp add: outstanding_def s1)
  have inv3: "cache_inv (?s2\<lparr>cs_extra := (cs_extra ?s2)(p \<mapsto> ?e)\<rparr>)"
  proof (rule cache_inv_extra [OF inv2 out])
    show "heap_mf (cs_heap ?s2) p \<noteq> None" using sent(5) by (simp add: s1)
    show "cs_extra ?s2 p = None" using assms(4) by (simp add: s1)
    fix q f assume "cs_extra ?s2 q = Some f"
    then have "mshr_probe (ex_block_addr f) (cs_mshrs s)"
      using assms(2) by (auto simp: s1 cache_inv_def extra_ok_def outstanding_def)
    with sent(2) show "ex_block_addr f \<noteq> ex_block_addr ?e" by auto
  qed
  have grow: "heap_grows (cs_heap s) h2"
    using sent(8,9) by (blast intro: heap_grows_trans)
  let ?s3 = "?s2\<lparr>cs_extra := (cs_extra ?s2)(p \<mapsto> ?e)\<rparr>"
  have "cache_inv (?s3\<lparr>cs_miss_queue := cs_miss_queue ?s3 @ [p]\<rparr>)"
    by (rule cache_inv_push [OF inv3]) (simp add: s1 sent(5))
  then have "cache_inv (?s3\<lparr>cs_miss_queue := cs_miss_queue ?s3 @ [p], cs_heap := h2\<rparr>)"
    by (rule cache_inv_heap) (simp add: s1 grow)
  then have "cache_inv (?s3\<lparr>cs_miss_queue := cs_miss_queue ?s3 @ [p], cs_heap := h2,
      cs_events := (if wa then cs_events s else cs_events s @ [READ_REQUEST_SENT])\<rparr>)"
    by (simp only: cache_inv_events)
  then show ?thesis by (simp add: sent(10) s1)
qed (use assms(2) in simp)


definition cache_good :: "cache_config \<Rightarrow> cache_sys \<Rightarrow> bool" where
  "cache_good cfg s \<longleftrightarrow> cache_inv s \<and> cs_config s = cfg \<and>
     length (cs_miss_queue s) \<le> m_miss_queue_size cfg"

lemma send_write_eq:
  assumes "send_write_request p r t s = Some s'"
  shows "\<exists>h. heap_grows (cs_heap s) h \<and> heap_mf (cs_heap s) p \<noteq> None \<and>
    s' = s\<lparr>cs_events := cs_events s @ [r], cs_miss_queue := cs_miss_queue s @ [p], cs_heap := h\<rparr>"
proof -
  obtain h where h: "set_status (cs_miss_queue_status s) (ucast t) p (cs_heap s) = Some h"
    and s': "s' = s\<lparr>cs_events := cs_events s @ [r], cs_miss_queue := cs_miss_queue s @ [p], cs_heap := h\<rparr>"
    using assms by (auto simp: send_write_request_def bind_eq_Some_iff)
  from h have "heap_mf (cs_heap s) p \<noteq> None" by (auto simp: set_status_def update_mf_eq)
  with h s' show ?thesis by blast
qed

lemma cache_inv_send_write:
  assumes "send_write_request p r t s = Some s'" and "cache_inv s"
  shows "cache_inv s'"
proof -
  obtain h where h: "heap_grows (cs_heap s) h" "heap_mf (cs_heap s) p \<noteq> None"
    and s': "s' = s\<lparr>cs_events := cs_events s @ [r], cs_miss_queue := cs_miss_queue s @ [p], cs_heap := h\<rparr>"
    using send_write_eq [OF assms(1)] by blast
  let ?s1 = "s\<lparr>cs_events := cs_events s @ [r]\<rparr>"
  have "cache_inv ?s1" using assms(2) by simp
  then have "cache_inv (?s1\<lparr>cs_miss_queue := cs_miss_queue ?s1 @ [p]\<rparr>)"
    by (rule cache_inv_push) (simp add: h(2))
  then have "cache_inv (?s1\<lparr>cs_miss_queue := cs_miss_queue ?s1 @ [p], cs_heap := h\<rparr>)"
    by (rule cache_inv_heap) (simp add: h(1))
  then show ?thesis by (simp add: s')
qed

lemma send_write_frame:
  "send_write_request p r t s = Some s' \<Longrightarrow> cs_config s' = cs_config s \<and> cs_tags s' = cs_tags s \<and>
     cs_mshrs s' = cs_mshrs s \<and> cs_extra s' = cs_extra s \<and> cs_bandwidth s' = cs_bandwidth s \<and>
     cs_miss_queue s' = cs_miss_queue s @ [p] \<and> cs_miss_queue_status s' = cs_miss_queue_status s \<and>
     heap_grows (cs_heap s) (cs_heap s')"
  by (drule send_write_eq) auto

lemma hit_tags_access:
  assumes "tags_access ro b t ci s = Some (st, i, ev, s')"
    and "probe (cs_config s) (cs_tags s) b = Some (HIT, idx)"
  shows "m_status (m_lines (cs_tags s') ! i) \<noteq> RESERVED"
    and "\<exists>tags. s' = s\<lparr>cs_tags := tags\<rparr>"
proof -
  from tags_access_eq [OF assms(1)] obtain idx ev' tags where
    acc: "access (cs_config s) (cs_tags s) b t = Some (st, idx, ev', tags)"
    and s': "s' = s\<lparr>cs_tags := tags\<rparr>" and idx: "idx = Some i \<or> st = RESERVATION_FAIL" by blast
  have "st = HIT" using access_status [OF acc] assms(2) by simp
  with idx acc s' show "m_status (m_lines (cs_tags s') ! i) \<noteq> RESERVED"
    using access_hit_not_reserved(2) by auto
  from s' show "\<exists>tags. s' = s\<lparr>cs_tags := tags\<rparr>" by blast
qed

lemma cache_good_wb:
  assumes "wr_hit_wb a ci t s = Some (st, s')" and "cache_good cfg s"
    and "probe cfg (cs_tags s) (block_addr cfg a) = Some (HIT, idx)"
  shows "cache_good cfg s'"
proof -
  have cfg: "cs_config s = cfg" using assms(2) by (simp add: cache_good_def)
  obtain st1 i ev s1 tags where t: "tags_access True (block_addr cfg a) t ci s = Some (st1, i, ev, s1)"
    and b: "set_block_status i MODIFIED (cs_tags s1) = Some tags" and s': "s' = s1\<lparr>cs_tags := tags\<rparr>"
    using assms(1) cfg by (auto simp: wr_hit_wb_def bind_eq_Some_iff)
  from hit_tags_access [OF t] assms(3) cfg obtain tags1 where
    n: "m_status (m_lines (cs_tags s1) ! i) \<noteq> RESERVED" and s1: "s1 = s\<lparr>cs_tags := tags1\<rparr>" by auto
  have "cache_inv s1" using t assms(2) by (auto simp: cache_good_def intro: cache_inv_tags_access)
  then have "cache_inv s'" unfolding s' by (rule cache_inv_tags) (rule reserved_kept_status [OF b n])
  with assms(2) s' s1 show ?thesis by (simp add: cache_good_def)
qed

lemma cache_good_wt:
  assumes "wr_hit_wt a ci p t s = Some (st, s')" and "cache_good cfg s"
    and "probe cfg (cs_tags s) (block_addr cfg a) = Some (HIT, idx)"
  shows "cache_good cfg s'"
proof (cases "miss_queue_full 0 s")
  case True
  with assms(1,2) show ?thesis by (simp add: wr_hit_wt_def)
next
  case False
  have cfg: "cs_config s = cfg" using assms(2) by (simp add: cache_good_def)
  obtain st1 i ev s1 tags s2 where
    t: "tags_access True (block_addr cfg a) t ci s = Some (st1, i, ev, s1)"
    and b: "set_block_status i MODIFIED (cs_tags s1) = Some tags"
    and w: "send_write_request p WRITE_REQUEST_SENT t (s1\<lparr>cs_tags := tags\<rparr>) = Some s'"
    using assms(1) cfg False by (auto simp: wr_hit_wt_def bind_eq_Some_iff)
  have "wr_hit_wb a ci t s = Some (HIT, s1\<lparr>cs_tags := tags\<rparr>)"
    using t b cfg by (simp add: wr_hit_wb_def)
  from cache_good_wb [OF this assms(2,3)] have "cache_good cfg (s1\<lparr>cs_tags := tags\<rparr>)" .
  moreover from hit_tags_access(2) [OF t] assms(3) cfg have "cs_miss_queue s1 = cs_miss_queue s"
    by auto
  ultimately show ?thesis
    using cache_inv_send_write [OF w] send_write_frame [OF w] False cfg
    by (auto simp: cache_good_def miss_queue_full_def)
qed

lemma cache_good_we:
  assumes "wr_hit_we i p t s = Some (st, s')" and "cache_good cfg s"
    and "m_status (m_lines (cs_tags s) ! i) \<noteq> RESERVED"
  shows "cache_good cfg s'"
proof (cases "miss_queue_full 0 s")
  case True
  with assms(1,2) show ?thesis by (simp add: wr_hit_we_def)
next
  case False
  obtain s1 tags where w: "send_write_request p WRITE_REQUEST_SENT t s = Some s1"
    and b: "set_block_status i INVALID (cs_tags s1) = Some tags" and s': "s' = s1\<lparr>cs_tags := tags\<rparr>"
    using assms(1) False by (auto simp: wr_hit_we_def bind_eq_Some_iff)
  have "cache_inv s1" using cache_inv_send_write [OF w] assms(2) by (simp add: cache_good_def)
  then have "cache_inv s'" unfolding s'
    by (rule cache_inv_tags) (rule reserved_kept_status [OF b], use assms(3) send_write_frame [OF w] in simp)
  then show ?thesis
    using send_write_frame [OF w] False assms(2) s'
    by (auto simp: cache_good_def miss_queue_full_def)
qed

lemma cache_good_wr_hit:
  assumes "wr_hit a i p t s = Some (st, s')" and "cache_good cfg s"
    and "probe cfg (cs_tags s) (block_addr cfg a) = Some (HIT, Some i)"
  shows "cache_good cfg s'"
proof -
  have n: "m_status (m_lines (cs_tags s) ! i) \<noteq> RESERVED"
    using probe_hit(2) [OF assms(3)] by (auto simp: hit_status_def split: if_splits)
  have we: "wr_hit_we i p t s = Some (st, s') \<Longrightarrow> ?thesis"
    by (rule cache_good_we [OF _ assms(2) n])
  have wb: "wr_hit_wb a i t s = Some (st, s') \<Longrightarrow> ?thesis"
    by (rule cache_good_wb [OF _ assms(2,3)])
  have wt: "wr_hit_wt a i p t s = Some (st, s') \<Longrightarrow> ?thesis"
    by (rule cache_good_wt [OF _ assms(2,3)])
  from assms(1) show ?thesis
    by (auto simp: wr_hit_def wr_hit_global_we_local_wb_def bind_eq_Some_iff
        split: write_policy_t.splits if_splits intro: we wb wt)
qed

lemma cache_good_rd_hit:
  assumes "rd_hit_base a i p t s = Some (st, s')" and "cache_good cfg s"
    and "probe cfg (cs_tags s) (block_addr cfg a) = Some (HIT, idx)"
  shows "cache_good cfg s'"
proof -
  have cfg: "cs_config s = cfg" using assms(2) by (simp add: cache_good_def)
  obtain mf st1 j ev s1 where
    t: "tags_access True (block_addr cfg a) t i s = Some (st1, j, ev, s1)"
    and r: "(if isatomic mf then do {
        require (ma_type (mf_access mf) = GLOBAL_ACC_R);
        tags \<leftarrow> set_block_status j MODIFIED (cs_tags s1);
        Some (HIT, s1\<lparr>cs_tags := tags\<rparr>)
      } else Some (HIT, s1)) = Some (st, s')"
    using assms(1) cfg by (auto simp: rd_hit_base_def bind_eq_Some_iff)
  from hit_tags_access [OF t] assms(3) cfg obtain tags1 where
    n: "m_status (m_lines (cs_tags s1) ! j) \<noteq> RESERVED" and s1: "s1 = s\<lparr>cs_tags := tags1\<rparr>" by auto
  have inv: "cache_inv s1" using t assms(2) by (auto simp: cache_good_def intro: cache_inv_tags_access)
  show ?thesis
  proof (cases "isatomic mf")
    case True
    with r obtain tags where "set_block_status j MODIFIED (cs_tags s1) = Some tags"
      and s': "s' = s1\<lparr>cs_tags := tags\<rparr>"
      by (auto simp: bind_eq_Some_iff split: if_splits)
    then have "cache_inv s'"
      unfolding s' by (intro cache_inv_tags [OF inv] reserved_kept_status [OF _ n])
    with assms(2) s' s1 show ?thesis by (simp add: cache_good_def)
  next
    case False
    with r inv assms(2) s1 show ?thesis by (auto simp: cache_good_def)
  qed
qed


lemma alloc_write_back_eq:
  assumes "alloc_write_back env line s = Some (q, s')"
  shows "\<exists>h. heap_grows (cs_heap s) h \<and> heap_mf h q \<noteq> None \<and> s' = s\<lparr>cs_heap := h\<rparr>"
proof -
  obtain h where al: "mf_alloc (ce_allocator env) (ce_memory_config env) (ce_now env)
      (m_block_addr line) (ce_wrbk_type env) (m_line_sz (cs_config s)) True (cs_heap s) = Some (q, h)"
    and s': "s' = s\<lparr>cs_heap := h\<rparr>"
    using assms by (auto simp: alloc_write_back_def bind_eq_Some_iff)
  from al obtain a inst c w x t where n: "mem_fetch_new (ce_memory_config env) (ce_now env) a inst c w x t
      (cs_heap s) = Some (q, h)"
    by (auto simp: mf_alloc_def shader_alloc_def partition_alloc_def split: mf_allocator.splits)
  from mem_fetch_new_eq [OF n] heap_grows_new [OF n] s' show ?thesis by auto
qed

lemma cache_good_rd_miss:
  assumes "rd_miss_base env a i p t s = Some (st, s')" and "cache_good cfg s"
    and "m_alloc_policy cfg = ON_MISS" and "cs_extra s p = None"
    and "probe cfg (cs_tags s) (block_addr cfg a) = Some (st0, idx0)"
    and "st0 = MISS \<or> st0 = HIT_RESERVED"
  shows "cache_good cfg s'"
proof (cases "miss_queue_full 1 s")
  case True
  with assms(1,2) show ?thesis by (simp add: rd_miss_base_def)
next
  case False
  have cfg: "cs_config s = cfg" and inv: "cache_inv s" using assms(2) by (auto simp: cache_good_def)
  obtain m ev s1 where r: "send_read_request (block_addr cfg a) i p t False False s = Some (m, ev, s1)"
    using assms(1) cfg False by (auto simp: rd_miss_base_def bind_eq_Some_iff)
  have "cache_inv s1 \<and> cs_config s1 = cs_config s \<and>
      length (cs_miss_queue s1) \<le> Suc (length (cs_miss_queue s))"
    by (rule cache_inv_send_read [OF r inv])
      (use assms(3-6) cfg in \<open>auto simp: tag_eq_block_addr\<close>)
  then have inv1: "cache_inv s1" and cfg1: "cs_config s1 = cfg"
    and len: "Suc (length (cs_miss_queue s1)) \<le> m_miss_queue_size cfg"
    using cfg False by (auto simp: miss_queue_full_def)
  have good1: "cache_good cfg s1" using inv1 cfg1 len by (simp add: cache_good_def)
  show ?thesis
  proof (cases "m \<and> ev \<noteq> None \<and> m_write_policy cfg \<noteq> WRITE_THROUGH")
    case True
    then obtain line where ev: "ev = Some line" by auto
    with True assms(1) r cfg cfg1 False obtain q s2 where
      al: "alloc_write_back env line s1 = Some (q, s2)"
      and w: "send_write_request q WRITE_BACK_REQUEST_SENT t s2 = Some s'"
      by (auto simp: rd_miss_base_def bind_eq_Some_iff)
    obtain h where h: "heap_grows (cs_heap s1) h" and s2: "s2 = s1\<lparr>cs_heap := h\<rparr>"
      using alloc_write_back_eq [OF al] by blast
    have "cache_inv s2" unfolding s2 by (rule cache_inv_heap [OF inv1 h])
    from cache_inv_send_write [OF w this] send_write_frame [OF w] s2 cfg1 len
    show ?thesis by (simp add: cache_good_def)
  next
    case keep: False
    have "s' = s1"
      using assms(1) r cfg cfg1 False keep
      by (auto simp: rd_miss_base_def split: if_splits option.splits)
    with good1 show ?thesis by simp
  qed
qed

lemma cache_good_wr_miss_no_wa:
  assumes "wr_miss_no_wa p t s = Some (st, s')" and "cache_good cfg s"
  shows "cache_good cfg s'"
proof (cases "miss_queue_full 0 s")
  case True
  with assms show ?thesis by (simp add: wr_miss_no_wa_def)
next
  case False
  with assms(1) have w: "send_write_request p WRITE_REQUEST_SENT t s = Some s'"
    by (auto simp: wr_miss_no_wa_def bind_eq_Some_iff)
  from cache_inv_send_write [OF w] send_write_frame [OF w] False assms(2) show ?thesis
    by (auto simp: cache_good_def miss_queue_full_def)
qed

lemma cache_good_wr_miss_wa:
  assumes "wr_miss_wa env a i p t s = Some (st, s')" and "cache_good cfg s"
    and "m_alloc_policy cfg = ON_MISS"
    and "probe cfg (cs_tags s) (block_addr cfg a) = Some (st0, idx0)"
    and "st0 = MISS \<or> st0 = HIT_RESERVED"
  shows "cache_good cfg s'"
proof (cases "s' = s")
  case True
  with assms(2) show ?thesis by simp
next
  case False
  have cfg: "cs_config s = cfg" and inv: "cache_inv s" using assms(2) by (auto simp: cache_good_def)
  from False assms(1) have room: "\<not> miss_queue_full 2 s"
    by (auto simp: wr_miss_wa_def Let_def split: if_splits)
  from False assms(1) cfg obtain s1 and mf :: mem_fetch and ma n h m ev s2 where
    w: "send_write_request p WRITE_REQUEST_SENT t s = Some s1"
    and n: "mem_fetch_new (ce_memory_config env) (ce_now env) ma None (mf_ctrl_size mf)
          (mf_wid mf) (mf_sid mf) (mf_tpc mf) (cs_heap s1) = Some (n, h)"
    and r: "send_read_request (block_addr cfg a) i n t False True (s1\<lparr>cs_heap := h\<rparr>) = Some (m, ev, s2)"
    and k: "finish_write_allocate env m ev t s2 = Some (st, s')"
    by (auto simp: wr_miss_wa_def Let_def bind_eq_Some_iff split: if_splits)
  note f = send_write_frame [OF w]
  have inv1: "cache_inv s1" by (rule cache_inv_send_write [OF w inv])
  have inv1h: "cache_inv (s1\<lparr>cs_heap := h\<rparr>)" by (rule cache_inv_heap [OF inv1 heap_grows_new [OF n]])
  have "heap_mf (cs_heap s1) n = None"
    by (rule mem_fetch_new_fresh [OF n]) (use inv1 in \<open>simp add: cache_inv_def\<close>)
  then have fresh: "cs_extra s1 n = None"
    using cache_inv_extraD [OF inv1, of n] by (cases "cs_extra s1 n") auto
  have "cache_inv s2 \<and> cs_config s2 = cs_config (s1\<lparr>cs_heap := h\<rparr>) \<and>
      length (cs_miss_queue s2) \<le> Suc (length (cs_miss_queue (s1\<lparr>cs_heap := h\<rparr>)))"
    by (rule cache_inv_send_read [OF r inv1h])
      (use assms(3-5) cfg f fresh in \<open>auto simp: tag_eq_block_addr\<close>)
  then have inv2: "cache_inv s2" and cfg2: "cs_config s2 = cfg"
    and len: "Suc (length (cs_miss_queue s2)) \<le> m_miss_queue_size cfg"
    using cfg f room by (auto simp: miss_queue_full_def)
  show ?thesis
  proof (cases "m \<and> ev \<noteq> None \<and> m_write_policy cfg \<noteq> WRITE_THROUGH")
    case True
    then obtain line where ev: "ev = Some line" by auto
    with True k cfg2 obtain q s3 h3 where
      al: "alloc_write_back env line s2 = Some (q, s3)"
      and h3: "set_status (cs_miss_queue_status s3) (ucast t) q (cs_heap s3) = Some h3"
      and s': "s' = s3\<lparr>cs_miss_queue := cs_miss_queue s3 @ [q], cs_heap := h3\<rparr>"
      by (auto simp: finish_write_allocate_def bind_eq_Some_iff)
    obtain h4 where g: "heap_grows (cs_heap s2) h4" "heap_mf h4 q \<noteq> None" and s3: "s3 = s2\<lparr>cs_heap := h4\<rparr>"
      using alloc_write_back_eq [OF al] by blast
    have "cache_inv s3" unfolding s3 by (rule cache_inv_heap [OF inv2 g(1)])
    then have "cache_inv (s3\<lparr>cs_miss_queue := cs_miss_queue s3 @ [q]\<rparr>)"
      by (rule cache_inv_push) (simp add: s3 g(2))
    then have "cache_inv s'" unfolding s' by (rule cache_inv_heap) (use h3 in auto)
    with s' s3 cfg2 len show ?thesis by (simp add: cache_good_def)
  next
    case keep: False
    have "s' = s2" using k cfg2 keep
      by (auto simp: finish_write_allocate_def split: if_splits option.splits)
    with inv2 cfg2 len show ?thesis by (simp add: cache_good_def)
  qed
qed

text \<open>An access, for a request that is not itself waiting for data.\<close>

lemma cache_good_bandwidth:
  "cache_good cfg s \<Longrightarrow> ports_ok bw \<Longrightarrow> cache_good cfg (s\<lparr>cs_bandwidth := bw\<rparr>)"
  by (auto simp: cache_good_def intro: cache_inv_bandwidth)

lemma cache_good_access:
  assumes "data_cache_access env a p t s = Some (st, s')" and "cache_good cfg s"
    and "m_alloc_policy cfg = ON_MISS" and "cs_extra s p = None"
  shows "cache_good cfg s'"
proof -
  have cfg: "cs_config s = cfg" using assms(2) by (simp add: cache_good_def)
  obtain wr ps idx acs s1 where
    pr: "probe cfg (cs_tags s) (block_addr cfg a) = Some (ps, idx)"
    and pt: "process_tag_probe env wr ps a (case idx of Some i \<Rightarrow> i | None \<Rightarrow> no_index) p t s = Some (acs, s1)"
    and cnt: "count_access p ps acs s1 = Some s'"
    using assms(1) cfg by (auto simp: data_cache_access_def Let_def bind_eq_Some_iff split: if_splits)
  let ?i = "case idx of Some i \<Rightarrow> i | None \<Rightarrow> no_index"
  obtain s2 bw n where
    br: "(if wr then
          (if ps = HIT then wr_hit a ?i p t s
           else if ps \<noteq> RESERVATION_FAIL then wr_miss env a ?i p t s
           else Some (ps, s))
        else
          (if ps = HIT then rd_hit_base a ?i p t s
           else if ps \<noteq> RESERVATION_FAIL then rd_miss_base env a ?i p t s
           else Some (ps, s))) = Some (acs, s2)"
    and bw: "use_data_port (cs_config s2) n acs (cs_events s2) (cs_bandwidth s2) = Some bw"
    and s1: "s1 = s2\<lparr>cs_bandwidth := bw\<rparr>"
    using pt unfolding process_tag_probe_def by (auto simp: bind_eq_Some_iff)
  have "cache_good cfg s2"
  proof (cases ps)
    case HIT
    then obtain i where idx: "idx = Some i" using probe_status_idx [OF pr] by (cases idx) auto
    note hit = pr [unfolded HIT idx]
    show ?thesis
      using br HIT idx cache_good_wr_hit [OF _ assms(2) hit] cache_good_rd_hit [OF _ assms(2) hit]
      by (auto split: if_splits)
  next
    case RESERVATION_FAIL
    with br assms(2) show ?thesis by (auto split: if_splits)
  next
    case MISS
    with br pr assms cache_good_rd_miss [OF _ assms(2-4) pr] cache_good_wr_miss_no_wa [OF _ assms(2)]
      cache_good_wr_miss_wa [OF _ assms(2,3) pr]
    show ?thesis by (auto simp: wr_miss_def split: if_splits write_allocate_policy_t.splits)
  next
    case HIT_RESERVED
    with br pr assms cache_good_rd_miss [OF _ assms(2-4) pr] cache_good_wr_miss_no_wa [OF _ assms(2)]
      cache_good_wr_miss_wa [OF _ assms(2,3) pr]
    show ?thesis by (auto simp: wr_miss_def split: if_splits write_allocate_policy_t.splits)
  qed
  moreover have "ports_ok bw"
    using use_data_port_ok [OF bw] calculation by (auto simp: cache_good_def cache_inv_def)
  ultimately have "cache_good cfg s1" unfolding s1 by (rule cache_good_bandwidth)
  with cnt show ?thesis by (auto simp: count_access_def bind_eq_Some_iff cache_good_def)
qed


subsection \<open>Responses\<close>

text \<open>Reading the response: the line of the waiting request is filled, its block marked ready.\<close>

lemma cache_fill_eq:
  assumes "cache_inv s" and "m_alloc_policy (cs_config s) = ON_MISS"
    and "m_data_port_width (cs_config s) \<noteq> 0" and "cs_extra s p = Some e"
  shows "\<exists>h at mshrs tags bw. heap_grows (cs_heap s) h \<and>
    mshr_mark_ready (ex_block_addr e) (cs_mshrs s) = Some (at, mshrs) \<and>
    length (m_lines tags) = length (m_lines (cs_tags s)) \<and>
    (\<forall>j. j \<noteq> ex_cache_index e \<longrightarrow> m_lines tags ! j = m_lines (cs_tags s) ! j) \<and>
    ports_ok bw \<and>
    cache_fill p t s = Some (s\<lparr>cs_tags := tags, cs_mshrs := mshrs,
      cs_extra := (cs_extra s)(p := None), cs_bandwidth := bw, cs_heap := h\<rparr>)"
proof -
  from cache_inv_extraD [OF assms(1,4)] have o: "outstanding s e" and l: "heap_mf (cs_heap s) p \<noteq> None"
    by auto
  have ok: "mshr_ok (cs_mshrs s)" "ports_ok (cs_bandwidth s)"
    using assms(1) by (auto simp: cache_inv_def)
  let ?i = "ex_cache_index e" and ?L = "m_lines (cs_tags s)"
  let ?t1 = "(cs_tags s)\<lparr>m_lines := ?L[?i := (?L ! ?i)\<lparr>m_status := VALID, m_fill_time := t\<rparr>]\<rparr>"
  obtain h where h: "set_data_size (ex_data_size e) p (cs_heap s) = Some h"
    using l by (auto simp: set_data_size_def update_mf_def)
  have t1: "fill_index (cs_config s) (cs_tags s) ?i t = Some ?t1"
    using o assms(2) by (simp add: fill_index_eq_Some outstanding_def)
  obtain at mshrs where m: "mshr_mark_ready (ex_block_addr e) (cs_mshrs s) = Some (at, mshrs)"
    using mshr_mark_ready_total [OF ok(1), of "ex_block_addr e"] o by (auto simp: outstanding_def)
  obtain bw where bw: "use_fill_port (cs_config s) (cs_bandwidth s) = Some bw"
    using assms(3) by (simp add: use_fill_port_def)
  let ?t2 = "if at then ?t1\<lparr>m_lines := (m_lines ?t1)[?i := (m_lines ?t1 ! ?i)\<lparr>m_status := MODIFIED\<rparr>]\<rparr>
    else ?t1"
  have i: "?i < length ?L" using o by (simp add: outstanding_def)
  have "(if at then do {
         require (m_alloc_policy (cs_config s) = ON_MISS);
         set_block_status ?i MODIFIED ?t1
       } else Some ?t1) = Some ?t2"
    using assms(2) i by (simp add: set_block_status_def)
  with assms(2,4) h t1 m bw o have "cache_fill p t s = Some (s\<lparr>cs_tags := ?t2, cs_mshrs := mshrs,
      cs_extra := (cs_extra s)(p := None), cs_bandwidth := bw, cs_heap := h\<rparr>)"
    by (simp add: cache_fill_def outstanding_def)
  moreover have "length (m_lines ?t2) = length ?L" "\<forall>j. j \<noteq> ?i \<longrightarrow> m_lines ?t2 ! j = ?L ! j"
    by auto
  moreover have "ports_ok bw" by (rule use_fill_port_ok [OF bw ok(2)])
  moreover have "heap_grows (cs_heap s) h" using h by blast
  ultimately show ?thesis using m by blast
qed

lemma cache_good_fill:
  assumes "cache_fill p t s = Some s'" and "cache_good cfg s" and "m_alloc_policy cfg = ON_MISS"
    and "m_data_port_width cfg \<noteq> 0"
  shows "cache_good cfg s'"
proof -
  have cfg: "cs_config s = cfg" and inv: "cache_inv s" using assms(2) by (auto simp: cache_good_def)
  obtain e where e: "cs_extra s p = Some e"
    using assms(1) by (auto simp: cache_fill_def bind_eq_Some_iff)
  from cache_fill_eq [OF inv _ _ e, of t] assms(3,4) cfg obtain h at mshrs tags bw where
    g: "heap_grows (cs_heap s) h"
    and m: "mshr_mark_ready (ex_block_addr e) (cs_mshrs s) = Some (at, mshrs)"
    and len: "length (m_lines tags) = length (m_lines (cs_tags s))"
    and other: "\<And>j. j \<noteq> ex_cache_index e \<Longrightarrow> m_lines tags ! j = m_lines (cs_tags s) ! j"
    and pok: "ports_ok bw"
    and f: "cache_fill p t s = Some (s\<lparr>cs_tags := tags, cs_mshrs := mshrs,
      cs_extra := (cs_extra s)(p := None), cs_bandwidth := bw, cs_heap := h\<rparr>)" by auto
  let ?s = "s\<lparr>cs_tags := tags, cs_mshrs := mshrs,
      cs_extra := (cs_extra s)(p := None), cs_bandwidth := bw, cs_heap := h\<rparr>"
  have o: "outstanding s e" using cache_inv_extraD [OF inv e] by blast
  have ok: "mshr_ok (cs_mshrs s)" "ports_ok (cs_bandwidth s)"
    using inv by (auto simp: cache_inv_def)
  have mok: "mshr_ok mshrs"
    by (rule mshr_mark_ready_ok [OF ok(1) _ m]) (use o in \<open>simp add: outstanding_def\<close>)
  note ready = mshr_mark_ready_eq [OF m]
  have "outstanding ?s f \<and> heap_mf h q \<noteq> None" if q: "q \<noteq> p" "cs_extra s q = Some f" for q f
  proof -
    from cache_inv_extraD [OF inv q(2)] have of: "outstanding s f" and live: "heap_mf (cs_heap s) q \<noteq> None"
      by auto
    have nb: "ex_block_addr f \<noteq> ex_block_addr e"
      using cache_inv_distinct [OF inv q(2) e] q(1) by blast
    then have ni: "ex_cache_index f \<noteq> ex_cache_index e"
      using of o by (auto simp: outstanding_def)
    have "mshr_probe (ex_block_addr f) mshrs \<and> ex_block_addr f \<notin> set (m_current_response mshrs)"
      using of nb ready by (auto simp: outstanding_def mshr_probe_def)
    with of ni len other live g show ?thesis by (simp add: outstanding_def heap_grows_def)
  qed
  then have "extra_ok ?s" by (simp add: extra_ok_def)
  moreover have "extra_distinct ((cs_extra s)(p := None))"
    using inv by (auto simp: cache_inv_def extra_distinct_def split: if_splits)
  ultimately have "cache_inv ?s"
    using inv mok pok g by (auto simp: cache_inv_def heap_grows_def)
  with f assms(1,2) show ?thesis by (auto simp: cache_good_def)
qed

lemma cache_good_next:
  assumes "cache_next_access s = Some (p, s')" and "cache_good cfg s"
  shows "cache_good cfg s'"
proof -
  have inv: "cache_inv s" using assms(2) by (simp add: cache_good_def)
  obtain mshrs where n: "mshr_next_access (cs_mshrs s) = Some (p, mshrs)" and s': "s' = s\<lparr>cs_mshrs := mshrs\<rparr>"
    using assms(1) by (auto simp: cache_next_access_def bind_eq_Some_iff)
  have ok: "mshr_ok (cs_mshrs s)" using inv by (simp add: cache_inv_def)
  have ok': "mshr_ok mshrs" by (rule mshr_next_access_ok [OF ok n])
  let ?cr = "m_current_response (cs_mshrs s)"
  have cr: "?cr \<noteq> []" by (rule mshr_next_access_eq(1) [OF n])
  have sub: "set (m_current_response mshrs) \<subseteq> set ?cr"
    using mshr_next_access_eq(3,4) [OF n] cr
    by (cases "tl (waiting (cs_mshrs s) (hd ?cr)) = []") (auto dest: list.set_sel(2))
  have "outstanding s' e" if "outstanding s e" for e
  proof -
    have "ex_block_addr e \<noteq> hd ?cr" using that cr by (auto simp: outstanding_def)
    then have "waiting mshrs (ex_block_addr e) = waiting (cs_mshrs s) (ex_block_addr e)"
      by (simp add: mshr_next_access_waiting [OF n])
    with that sub s' show ?thesis
      by (auto simp: outstanding_def mshr_probe_waiting [OF ok] mshr_probe_waiting [OF ok'])
  qed
  then have "extra_ok s'" using inv s' by (auto simp: cache_inv_def extra_ok_def)
  with inv ok' s' have "cache_inv s'" by (simp add: cache_inv_def)
  with assms(2) s' show ?thesis by (simp add: cache_good_def)
qed

lemma cache_cycle_total:
  assumes "cache_good cfg s"
  shows "\<exists>r s'. cache_cycle full s = Some (r, s') \<and> cache_good cfg s'"
proof -
  have inv: "cache_inv s" using assms by (simp add: cache_good_def)
  have pok: "ports_ok (cs_bandwidth s)" using inv by (simp add: cache_inv_def)
  obtain bw where bw: "replenish_port_bandwidth (cs_bandwidth s) = Some bw" "ports_ok bw"
    using replenish_eq [OF pok] by (auto simp: ports_ok_def)
  obtain r q where q: "(case cs_miss_queue s of
         [] \<Rightarrow> Some (None, s)
       | p # rest \<Rightarrow> do {
           mf \<leftarrow> heap_mf (cs_heap s) p;
           Some (if \<not> full (mf_size mf) (get_is_write mf)
                 then (Some p, s\<lparr>cs_miss_queue := rest\<rparr>) else (None, s))
         }) = Some (r, s\<lparr>cs_miss_queue := q\<rparr>)"
    and sub: "set q \<subseteq> set (cs_miss_queue s)" "length q \<le> length (cs_miss_queue s)"
  proof (cases "cs_miss_queue s")
    case Nil
    then show thesis using that [of None "[]"] by simp
  next
    case (Cons p rest)
    with inv obtain mf where "heap_mf (cs_heap s) p = Some mf" by (auto simp: cache_inv_def)
    with Cons show thesis
      using that [of "Some p" rest] that [of None "p # rest"]
      by (cases "full (mf_size mf) (get_is_write mf)") auto
  qed
  let ?s1 = "s\<lparr>cs_miss_queue := q\<rparr>"
  have "cache_inv ?s1"
    using inv sub(1) by (auto simp: cache_inv_def extra_ok_def outstanding_def)
  then have "cache_inv (?s1\<lparr>cs_stats := x, cs_bandwidth := bw\<rparr>)" for x
    using cache_inv_bandwidth [of "?s1\<lparr>cs_stats := x\<rparr>" bw] bw(2) by simp
  with assms sub(2) have "cache_good cfg (?s1\<lparr>cs_stats := x, cs_bandwidth := bw\<rparr>)" for x
    by (simp add: cache_good_def)
  with q bw(1) show ?thesis by (simp add: cache_cycle_def Let_def)
qed

subsection \<open>The cache over time\<close>

text \<open>
  The steps of a data cache and of its clients: accesses by requests that are not waiting in it,
  responses for waiting requests, popping answered requests, cycles, and the clients' own
  allocations and event lists.
\<close>

inductive cache_step :: "cache_env \<Rightarrow> cache_sys \<Rightarrow> cache_sys \<Rightarrow> bool" for env where
  step_access: "data_cache_access env a p t s = Some (st, s') \<Longrightarrow> cs_extra s p = None \<Longrightarrow>
    cache_step env s s'"
| step_fill: "cache_fill p t s = Some s' \<Longrightarrow> cache_step env s s'"
| step_next: "cache_next_access s = Some (p, s') \<Longrightarrow> cache_step env s s'"
| step_cycle: "cache_cycle full s = Some (r, s') \<Longrightarrow> cache_step env s s'"
| step_heap: "heap_grows (cs_heap s) h \<Longrightarrow> cache_step env s (s\<lparr>cs_heap := h\<rparr>)"
| step_events: "cache_step env s (s\<lparr>cs_events := ev\<rparr>)"

inductive cache_reachable :: "cache_env \<Rightarrow> cache_config \<Rightarrow> cache_sys \<Rightarrow> bool" for env cfg where
  reach_new: "data_cache_new cfg core_id type_id st h = Some s \<Longrightarrow> heap_ok h \<Longrightarrow>
    cache_reachable env cfg s"
| reach_step: "cache_reachable env cfg s \<Longrightarrow> cache_step env s s' \<Longrightarrow> cache_reachable env cfg s'"

definition data_config_ok :: "cache_config \<Rightarrow> bool" where
  "data_config_ok cfg \<longleftrightarrow> m_alloc_policy cfg = ON_MISS \<and> m_data_port_width cfg \<noteq> 0 \<and>
     0 < m_mshr_max_merge cfg"

lemma cache_reachable_good:
  assumes "cache_reachable env cfg s" and "data_config_ok cfg"
  shows "cache_good cfg s"
  using assms(1)
proof (induction rule: cache_reachable.induct)
  case (reach_new core_id type_id st h s)
  then have "s = \<lparr>cs_config = cfg, cs_tags = tag_array_new cfg core_id type_id,
       cs_mshrs = mshr_new (m_mshr_entries cfg) (m_mshr_max_merge cfg), cs_miss_queue = [],
       cs_miss_queue_status = st, cs_extra = (\<lambda>_. None), cs_stats = cache_stats_new,
       cs_bandwidth = bandwidth_new, cs_heap = h, cs_events = []\<rparr>"
    by (auto simp: data_cache_new_def baseline_new_def split: if_splits)
  with reach_new(2) assms(2) show ?case
    by (simp add: cache_good_def cache_inv_def data_config_ok_def extra_ok_def extra_distinct_def
        ports_ok_def bandwidth_new_def)
next
  case (reach_step s s')
  note g = reach_step.IH
  have ok: "m_alloc_policy cfg = ON_MISS" "m_data_port_width cfg \<noteq> 0"
    using assms(2) by (simp_all add: data_config_ok_def)
  from reach_step.hyps(2) show ?case
  proof (cases rule: cache_step.cases)
    case (step_access a p t st)
    then show ?thesis using g ok by (blast intro: cache_good_access)
  next
    case (step_fill p t)
    then show ?thesis using g ok by (blast intro: cache_good_fill)
  next
    case (step_next p)
    then show ?thesis using g by (blast intro: cache_good_next)
  next
    case (step_cycle full r)
    then show ?thesis using cache_cycle_total [OF g, of full] by auto
  next
    case (step_heap h)
    with g show ?thesis by (auto simp: cache_good_def intro: cache_inv_heap)
  next
    case (step_events ev)
    with g show ?thesis by (simp add: cache_good_def)
  qed
qed



subsection \<open>A refused access changes nothing\<close>

lemma send_read_no_refusal:
  assumes "send_read_request b ci p t ro wa s = Some (m, ev, s')"
    and "mshr_probe b (cs_mshrs s) \<and> \<not> mshr_full b (cs_mshrs s) \<or>
      \<not> mshr_probe b (cs_mshrs s) \<and> \<not> mshr_full b (cs_mshrs s) \<and>
      length (cs_miss_queue s) < m_miss_queue_size (cs_config s)"
  shows m
  using assms by (auto simp: send_read_request_def Let_def bind_eq_Some_iff)

lemma wr_miss_wa_refused:
  assumes "wr_miss_wa env a i p t s = Some (RESERVATION_FAIL, s')"
  shows "s' = s"
proof (rule ccontr)
  assume neq: "s' \<noteq> s"
  let ?b = "block_addr (cs_config s) a"
  from neq assms have room: "\<not> miss_queue_full 2 s"
    "mshr_probe ?b (cs_mshrs s) \<and> \<not> mshr_full ?b (cs_mshrs s) \<or>
     \<not> mshr_probe ?b (cs_mshrs s) \<and> \<not> mshr_full ?b (cs_mshrs s)"
    by (auto simp: wr_miss_wa_def Let_def split: if_splits)
  from neq assms obtain s1 and mf :: mem_fetch and ma n h m ev s2 where
    w: "send_write_request p WRITE_REQUEST_SENT t s = Some s1"
    and r: "send_read_request ?b i n t False True (s1\<lparr>cs_heap := h\<rparr>) = Some (m, ev, s2)"
    and k: "finish_write_allocate env m ev t s2 = Some (RESERVATION_FAIL, s')"
    by (auto simp: wr_miss_wa_def Let_def bind_eq_Some_iff split: if_splits)
  have m using send_read_no_refusal [OF r] room send_write_frame [OF w]
    by (auto simp: miss_queue_full_def)
  with k show False
    by (auto simp: finish_write_allocate_def bind_eq_Some_iff split: option.splits if_splits)
qed

lemma rd_miss_refused:
  assumes "rd_miss_base env a i p t s = Some (RESERVATION_FAIL, s')"
  shows "s' = s"
proof (cases "miss_queue_full 1 s")
  case True
  with assms show ?thesis by (simp add: rd_miss_base_def)
next
  case False
  then obtain m ev s1 where
    r: "send_read_request (block_addr (cs_config s) a) i p t False False s = Some (m, ev, s1)"
    using assms by (auto simp: rd_miss_base_def bind_eq_Some_iff)
  with False assms have "\<not> m \<and> s' = s1"
    by (auto simp: rd_miss_base_def bind_eq_Some_iff split: option.splits if_splits)
  with r show ?thesis by (auto elim: send_read_cases)
qed

lemma wr_hit_refused:
  assumes "wr_hit a i p t s = Some (RESERVATION_FAIL, s')"
  shows "s' = s"
  using assms
  by (auto simp: wr_hit_def wr_hit_wb_def wr_hit_wt_def wr_hit_we_def wr_hit_global_we_local_wb_def
      bind_eq_Some_iff split: write_policy_t.splits if_splits)

lemma rd_hit_not_refused: "rd_hit_base a i p t s \<noteq> Some (RESERVATION_FAIL, s')"
  by (auto simp: rd_hit_base_def bind_eq_Some_iff split: if_splits)

text \<open>
  A refused access can be retried. When \<open>data_cache::access\<close> answers
  \<open>RESERVATION_FAIL\<close>, under every write policy, it has changed nothing but the statistics: the
  tags, the table of misses, the miss queue, the waiting requests, the ports, the requests
  themselves and the event list are as before. In particular a write miss with write-allocate
  sends none of its up to three requests unless it can send all of them.
\<close>

theorem refused_access_no_effect:
  assumes "data_cache_access env a p t s = Some (RESERVATION_FAIL, s')"
  shows "\<exists>stats. s' = s\<lparr>cs_stats := stats\<rparr>"
proof -
  obtain wr ps idx s1 where
    pt: "process_tag_probe env wr ps a (case idx of Some i \<Rightarrow> i | None \<Rightarrow> no_index) p t s
      = Some (RESERVATION_FAIL, s1)"
    and cnt: "count_access p ps RESERVATION_FAIL s1 = Some s'"
    using assms by (auto simp: data_cache_access_def Let_def bind_eq_Some_iff split: if_splits)
  let ?i = "case idx of Some i \<Rightarrow> i | None \<Rightarrow> no_index"
  obtain s2 bw n where
    br: "(if wr then
          (if ps = HIT then wr_hit a ?i p t s
           else if ps \<noteq> RESERVATION_FAIL then wr_miss env a ?i p t s
           else Some (ps, s))
        else
          (if ps = HIT then rd_hit_base a ?i p t s
           else if ps \<noteq> RESERVATION_FAIL then rd_miss_base env a ?i p t s
           else Some (ps, s))) = Some (RESERVATION_FAIL, s2)"
    and bw: "use_data_port (cs_config s2) n RESERVATION_FAIL (cs_events s2) (cs_bandwidth s2) = Some bw"
    and s1: "s1 = s2\<lparr>cs_bandwidth := bw\<rparr>"
    using pt unfolding process_tag_probe_def by (auto simp: bind_eq_Some_iff)
  have "wr_miss env a ?i p t s = Some (RESERVATION_FAIL, s2) \<Longrightarrow> s2 = s"
    using wr_miss_wa_refused [of env a ?i p t s s2]
    by (auto simp: wr_miss_def wr_miss_no_wa_def bind_eq_Some_iff
        split: write_allocate_policy_t.splits if_splits)
  then have "s2 = s"
    using br wr_hit_refused [of a ?i p t s s2] rd_miss_refused [of env a ?i p t s s2]
      rd_hit_not_refused [of a ?i p t s s2]
    by (auto split: if_splits)
  moreover have "bw = cs_bandwidth s2" using bw by (simp add: use_data_port_def)
  ultimately show ?thesis
    using cnt s1 by (auto simp: count_access_def bind_eq_Some_iff)
qed


subsection \<open>Merging into an answered entry\<close>

text \<open>
  A read that misses in the tags but still finds an entry in the table of misses
  leaves a line reserved for good. This happens when the block's data has arrived and its line has
  been invalidated again (by a write-evict hit or a flush) before all merged requests were popped.
  The read is accepted and its line reserved, but no request is sent to memory and no waiting
  request names the line, so no response will ever fill it.
\<close>

theorem late_merge_strands_line:
  assumes "cache_reachable env cfg s" and "data_config_ok cfg"
    and "probe cfg (cs_tags s) (block_addr cfg a) = Some (MISS, Some j)"
    and "m_status (m_lines (cs_tags s) ! j) \<noteq> MODIFIED"
    and "mshr_probe (block_addr cfg a) (cs_mshrs s)" and "\<not> mshr_full (block_addr cfg a) (cs_mshrs s)"
    and "\<not> miss_queue_full 1 s" and "heap_mf (cs_heap s) p = Some mf"
  shows "\<exists>s'. rd_miss_base env a j p t s = Some (MISS, s') \<and>
    m_status (m_lines (cs_tags s') ! j) = RESERVED \<and>
    cs_miss_queue s' = cs_miss_queue s \<and> cs_extra s' = cs_extra s \<and> cs_events s' = cs_events s \<and>
    (\<forall>q e. cs_extra s' q = Some e \<longrightarrow> ex_cache_index e \<noteq> j)"
proof -
  have good: "cache_good cfg s" by (rule cache_reachable_good [OF assms(1,2)])
  then have cfg: "cs_config s = cfg" and inv: "cache_inv s" and ok: "mshr_ok (cs_mshrs s)"
    by (auto simp: cache_good_def cache_inv_def)
  have on_miss: "m_alloc_policy cfg = ON_MISS" using assms(2) by (simp add: data_config_ok_def)
  let ?b = "block_addr cfg a"
  obtain ev tags where acc: "access cfg (cs_tags s) ?b t = Some (MISS, Some j, ev, tags)"
    using access_total [OF assms(3)] by blast
  have ev: "ev = None"
    using acc by (rule access_cases) (use assms(4) on_miss in auto)
  have res: "m_status (m_lines tags ! j) = RESERVED"
    using access_reserves [OF acc] on_miss by simp
  obtain mshrs where add: "mshr_add ?b p (isatomic mf) (cs_mshrs s) = Some mshrs"
    using mshr_add_total [OF ok assms(6)] by blast
  let ?s = "s\<lparr>cs_tags := tags, cs_mshrs := mshrs\<rparr>"
  have "send_read_request ?b j p t False False s = Some (True, None, ?s)"
    using acc ev add assms(5,6,8) cfg
    by (simp add: send_read_request_def tags_access_def)
  then have "rd_miss_base env a j p t s = Some (MISS, ?s)"
    using assms(7) cfg by (simp add: rd_miss_base_def)
  moreover have "ex_cache_index e \<noteq> j" if "cs_extra s q = Some e" for q e
    using cache_inv_extraD [OF inv that] probe_miss(1) [OF assms(3)] by (auto simp: outstanding_def)
  ultimately show ?thesis using res by auto
qed

end
