(* ===== verification/Delay_Queue.thy ===== *)
theory Delay_Queue
  imports Sim_Prelude
begin

text \<open>
  \<open>fifo_pipeline\<close> of \<open>gpgpu-sim/delayqueue.h\<close>: a queue that delays what is pushed by keeping
  a minimal length of empty slots. The linked list of \<open>fifo_data\<close> is a list with the head
  first, a slot without data is \<open>None\<close>. The interface its users rely on, a first-in-first-out
  line, is the locale \<open>delay_line\<close>.
\<close>

record 'a fifo_pipeline =
  fp_min_len :: nat
  fp_max_len :: nat
  fp_length :: nat
  fp_n_element :: u32
  fp_slots :: "'a option list"

definition fp_push :: "'a option \<Rightarrow> 'a fifo_pipeline \<Rightarrow> 'a fifo_pipeline option" where
  "fp_push data q = do {
     require (fp_length q < fp_max_len q);
     Some (if fp_slots q \<noteq> [] then
         (if last (fp_slots q) \<noteq> None \<or> fp_length q < fp_min_len q
          then q\<lparr>fp_slots := fp_slots q @ [data], fp_length := fp_length q + 1,
                 fp_n_element := fp_n_element q + 1\<rparr>
          else q\<lparr>fp_slots := butlast (fp_slots q) @ [data]\<rparr>)
       else q\<lparr>fp_slots := [data], fp_length := fp_length q + 1, fp_n_element := fp_n_element q + 1\<rparr>) }"

definition fp_new :: "nat \<Rightarrow> nat \<Rightarrow> 'a fifo_pipeline option" where
  "fp_new minlen maxlen = do {
     require (maxlen \<noteq> 0);
     foldM (\<lambda>_. fp_push None) [0..<minlen]
       \<lparr>fp_min_len = minlen, fp_max_len = maxlen, fp_length = 0, fp_n_element = 0, fp_slots = []\<rparr> }"

text \<open>Slots without data that keep the minimal length are not counted as elements.\<close>

definition fp_pad :: "'a fifo_pipeline \<Rightarrow> 'a fifo_pipeline option" where
  "fp_pad q = do {
     q \<leftarrow> fp_push None q;
     Some (q\<lparr>fp_n_element := fp_n_element q - 1\<rparr>) }"

definition fp_pop :: "'a fifo_pipeline \<Rightarrow> ('a option \<times> 'a fifo_pipeline) option" where
  "fp_pop q = (case fp_slots q of
       [] \<Rightarrow> Some (None, q)
     | data # slots \<Rightarrow> do {
         let q = q\<lparr>fp_slots := slots, fp_length := fp_length q - 1\<rparr>;
         require (fp_length q = 0 \<longrightarrow> fp_slots q = []);
         let q = q\<lparr>fp_n_element := fp_n_element q - 1\<rparr>;
         q \<leftarrow> (if fp_min_len q \<noteq> 0 \<and> fp_length q < fp_min_len q then fp_pad q else Some q);
         Some (data, q) })"

definition fp_top :: "'a fifo_pipeline \<Rightarrow> 'a option" where
  "fp_top q = (case fp_slots q of [] \<Rightarrow> None | data # _ \<Rightarrow> data)"

text \<open>
  \<open>while (m_length < m_min_len) push(NULL)\<close> and \<open>while (m_length > m_min_len && !m_tail->m_data)\<close>
  of \<open>set_min_length\<close>; every round of the first appends a slot and every round of the second drops one, so the
  difference of the lengths is enough fuel.
\<close>

fun fp_grow :: "nat \<Rightarrow> 'a fifo_pipeline \<Rightarrow> 'a fifo_pipeline option" where
  "fp_grow fuel q =
     (if fp_length q < fp_min_len q then
        (case fuel of
           0 \<Rightarrow> None
         | Suc fuel \<Rightarrow> do { q \<leftarrow> fp_pad q; fp_grow fuel q })
      else Some q)"

declare fp_grow.simps [simp del]

fun fp_trim :: "nat \<Rightarrow> 'a fifo_pipeline \<Rightarrow> 'a fifo_pipeline option" where
  "fp_trim fuel q =
     (if fp_length q > fp_min_len q then do {
        require (fp_slots q \<noteq> []);
        if last (fp_slots q) = None then
          (case fuel of
             0 \<Rightarrow> None
           | Suc fuel \<Rightarrow> do {
               q \<leftarrow> (if length (fp_slots q) = 1 then map_option snd (fp_pop q)
                     else Some (q\<lparr>fp_slots := butlast (fp_slots q), fp_length := fp_length q - 1\<rparr>));
               fp_trim fuel q })
        else Some q }
      else Some q)"

declare fp_trim.simps [simp del]

definition fp_set_min_length :: "nat \<Rightarrow> 'a fifo_pipeline \<Rightarrow> 'a fifo_pipeline option" where
  "fp_set_min_length new_min_len q =
     (if new_min_len = fp_min_len q then Some q
      else if new_min_len > fp_min_len q then
        fp_grow (new_min_len - fp_length q) (q\<lparr>fp_min_len := new_min_len\<rparr>)
      else do {
        require (fp_slots q \<noteq> []);
        fp_trim (fp_length q - new_min_len) (q\<lparr>fp_min_len := new_min_len\<rparr>) })"

definition fp_full :: "'a fifo_pipeline \<Rightarrow> bool" where
  "fp_full q \<longleftrightarrow> fp_max_len q \<noteq> 0 \<and> fp_length q \<ge> fp_max_len q"

definition fp_empty :: "'a fifo_pipeline \<Rightarrow> bool" where
  "fp_empty q \<longleftrightarrow> fp_slots q = []"

subsection \<open>Invariant and contents\<close>

definition fp_ok :: "'a fifo_pipeline \<Rightarrow> bool" where
  "fp_ok q \<longleftrightarrow> fp_length q = length (fp_slots q) \<and> fp_min_len q \<le> fp_length q \<and>
     fp_length q \<le> fp_max_len q \<and> 0 < fp_max_len q"

definition items :: "'a fifo_pipeline \<Rightarrow> 'a list" where
  "items q = map the (filter (\<lambda>d. d \<noteq> None) (fp_slots q))"

lemma items_push:
  assumes "fp_push d q = Some q'"
  shows "items q' = items q @ (case d of None \<Rightarrow> [] | Some x \<Rightarrow> [x])"
proof (cases "fp_slots q" rule: rev_cases)
  case Nil
  then show ?thesis using assms by (auto simp: fp_push_def items_def split: if_splits option.splits)
next
  case (snoc es e)
  then show ?thesis using assms
    by (cases e; cases d) (auto simp: fp_push_def items_def split: if_splits)
qed

lemma push_ok:
  assumes "fp_ok q" and "\<not> fp_full q"
  shows "\<exists>q'. fp_push d q = Some q' \<and> fp_ok q' \<and> fp_min_len q' = fp_min_len q \<and> fp_max_len q' = fp_max_len q"
  using assms by (auto simp: fp_push_def fp_ok_def fp_full_def)

lemma pad_eq:
  assumes "fp_length q = length (fp_slots q)" and "fp_length q < fp_min_len q" and "fp_min_len q \<le> fp_max_len q"
  shows "fp_pad q = Some (q\<lparr>fp_slots := fp_slots q @ [None], fp_length := fp_length q + 1\<rparr>)"
  using assms by (auto simp: fp_pad_def fp_push_def)

lemma pop_ok:
  assumes "fp_ok q"
  shows "\<exists>d q'. fp_pop q = Some (d, q') \<and> fp_ok q' \<and> fp_min_len q' = fp_min_len q \<and> fp_max_len q' = fp_max_len q \<and>
    items q = (case d of None \<Rightarrow> [] | Some x \<Rightarrow> [x]) @ items q' \<and>
    (fp_slots q \<noteq> [] \<longrightarrow> d = hd (fp_slots q) \<and>
      fp_slots q' = tl (fp_slots q) @ (if fp_length q = fp_min_len q then [None] else [])) \<and>
    (fp_slots q = [] \<longrightarrow> d = None \<and> q' = q) \<and> (0 < fp_min_len q \<longrightarrow> fp_length q' \<le> fp_length q) \<and>
    (fp_min_len q < fp_max_len q \<or> fp_slots q = [] \<longrightarrow> \<not> fp_full q')"
proof (cases "fp_slots q")
  case Nil
  then show ?thesis using assms by (simp add: fp_pop_def fp_ok_def fp_full_def)
next
  case (Cons e es)
  let ?q = "q\<lparr>fp_slots := es, fp_length := fp_length q - 1, fp_n_element := fp_n_element q - 1\<rparr>"
  show ?thesis
  proof (cases "fp_length q = fp_min_len q")
    case True
    then have "fp_length ?q < fp_min_len ?q" using assms Cons by (simp add: fp_ok_def)
    with pad_eq [of ?q] have
      "fp_pad ?q = Some (?q\<lparr>fp_slots := es @ [None], fp_length := fp_length q - 1 + 1\<rparr>)"
      using assms Cons by (auto simp: fp_ok_def)
    then show ?thesis
      using assms Cons True by (auto simp: fp_pop_def fp_ok_def items_def fp_full_def split: option.split)
  next
    case False
    then show ?thesis
      using assms Cons by (auto simp: fp_pop_def fp_ok_def items_def fp_full_def split: option.split)
  qed
qed

lemma grow_ok:
  assumes "fp_length q = length (fp_slots q)" and "fp_length q \<le> fp_max_len q" and "fp_min_len q \<le> fp_max_len q"
    and "0 < fp_max_len q" and "fp_min_len q - fp_length q \<le> fuel"
  shows "\<exists>q'. fp_grow fuel q = Some q' \<and> fp_ok q' \<and> items q' = items q \<and>
    fp_min_len q' = fp_min_len q \<and> fp_max_len q' = fp_max_len q"
  using assms
proof (induction fuel arbitrary: q)
  case 0
  then show ?case by (subst fp_grow.simps) (auto simp: fp_ok_def)
next
  case (Suc fuel)
  show ?case
  proof (cases "fp_length q < fp_min_len q")
    case True
    let ?q = "q\<lparr>fp_slots := fp_slots q @ [None], fp_length := fp_length q + 1\<rparr>"
    have "fp_min_len ?q - fp_length ?q \<le> fuel" using Suc.prems(5) by simp
    then obtain q' where "fp_grow fuel ?q = Some q'" "fp_ok q'" "items q' = items ?q"
        "fp_min_len q' = fp_min_len q" "fp_max_len q' = fp_max_len q"
      using Suc.IH [of ?q] Suc.prems True by auto
    moreover have "items ?q = items q" by (simp add: items_def)
    ultimately show ?thesis
      using True pad_eq [of q] Suc.prems by (subst fp_grow.simps) simp
  next
    case False
    with Suc.prems show ?thesis by (subst fp_grow.simps) (simp add: fp_ok_def)
  qed
qed

lemma items_butlast: "fp_slots q \<noteq> [] \<Longrightarrow> last (fp_slots q) = None \<Longrightarrow>
    items (q\<lparr>fp_slots := butlast (fp_slots q), fp_length := n\<rparr>) = items q"
  by (cases "fp_slots q" rule: rev_cases) (auto simp: items_def)

lemma trim_ok:
  assumes "fp_ok q" and "fp_length q - fp_min_len q \<le> fuel"
  shows "\<exists>q'. fp_trim fuel q = Some q' \<and> fp_ok q' \<and> items q' = items q \<and>
    fp_min_len q' = fp_min_len q \<and> fp_max_len q' = fp_max_len q"
  using assms
proof (induction fuel arbitrary: q)
  case 0
  then show ?case by (subst fp_trim.simps) auto
next
  case (Suc fuel)
  show ?case
  proof (cases "fp_length q > fp_min_len q \<and> last (fp_slots q) = None")
    case True
    then have ne: "fp_slots q \<noteq> []" and lst: "last (fp_slots q) = None" and long: "fp_length q > fp_min_len q"
      using Suc.prems(1) by (auto simp: fp_ok_def)
    have "\<exists>q1. (if length (fp_slots q) = 1 then map_option snd (fp_pop q)
          else Some (q\<lparr>fp_slots := butlast (fp_slots q), fp_length := fp_length q - 1\<rparr>)) = Some q1 \<and>
        fp_ok q1 \<and> items q1 = items q \<and> fp_length q1 = fp_length q - 1 \<and>
        fp_min_len q1 = fp_min_len q \<and> fp_max_len q1 = fp_max_len q"
    proof (cases "length (fp_slots q) = 1")
      case True
      then have "fp_slots q = [None]"
        using lst by (cases "fp_slots q") auto
      then show ?thesis
        using long Suc.prems(1) by (auto simp: fp_pop_def fp_ok_def items_def)
    next
      case False
      then show ?thesis
        using long lst Suc.prems(1) ne items_butlast by (auto simp: fp_ok_def)
    qed
    then obtain q1 where q1: "(if length (fp_slots q) = 1 then map_option snd (fp_pop q)
          else Some (q\<lparr>fp_slots := butlast (fp_slots q), fp_length := fp_length q - 1\<rparr>)) = Some q1"
        "fp_ok q1" "items q1 = items q" "fp_length q1 = fp_length q - 1"
        "fp_min_len q1 = fp_min_len q" "fp_max_len q1 = fp_max_len q"
      by blast
    moreover have "fp_length q1 - fp_min_len q1 \<le> fuel"
      using q1(4,5) Suc.prems(2) by linarith
    ultimately obtain q' where "fp_trim fuel q1 = Some q'" "fp_ok q'" "items q' = items q1"
        "fp_min_len q' = fp_min_len q1" "fp_max_len q' = fp_max_len q1"
      using Suc.IH [of q1] by blast
    with True ne q1 show ?thesis
      by (subst fp_trim.simps) simp
  next
    case False
    with Suc.prems show ?thesis
      by (subst fp_trim.simps) (auto simp: fp_ok_def)
  qed
qed

lemma set_min_length_ok:
  assumes "fp_ok q" and "m \<le> fp_max_len q"
  shows "\<exists>q'. fp_set_min_length m q = Some q' \<and> fp_ok q' \<and> items q' = items q \<and>
    fp_min_len q' = m \<and> fp_max_len q' = fp_max_len q"
proof -
  let ?q = "q\<lparr>fp_min_len := m\<rparr>"
  have same: "items ?q = items q" by (simp add: items_def)
  consider "m = fp_min_len q" | "m > fp_min_len q" | "m < fp_min_len q" by linarith
  then show ?thesis
  proof cases
    case 1
    with assms show ?thesis by (simp add: fp_set_min_length_def)
  next
    case 2
    then show ?thesis
      using assms grow_ok [of ?q "m - fp_length q"] same by (simp add: fp_set_min_length_def fp_ok_def)
  next
    case 3
    moreover from this have "fp_ok ?q" "fp_slots q \<noteq> []"
      using assms(1) by (auto simp: fp_ok_def)
    ultimately show ?thesis
      using trim_ok [of ?q "fp_length q - m"] same by (simp add: fp_set_min_length_def)
  qed
qed

subsection \<open>A first-in-first-out line\<close>

text \<open>What the owner of a line does with it.\<close>

datatype 'a line_op = Push 'a | Pop | Tune nat

fun line_run :: "('a option \<Rightarrow> 'q \<Rightarrow> 'q option) \<Rightarrow> ('q \<Rightarrow> ('a option \<times> 'q) option) \<Rightarrow> (nat \<Rightarrow> 'q \<Rightarrow> 'q option) \<Rightarrow>
    'a line_op list \<Rightarrow> 'q \<Rightarrow> ('a list \<times> 'q) option" where
  "line_run push pop tune [] q = Some ([], q)"
| "line_run push pop tune (Push d # ops) q = do { q \<leftarrow> push (Some d) q; line_run push pop tune ops q }"
| "line_run push pop tune (Tune n # ops) q = do { q \<leftarrow> tune n q; line_run push pop tune ops q }"
| "line_run push pop tune (Pop # ops) q = do {
     (d, q) \<leftarrow> pop q;
     (out, q) \<leftarrow> line_run push pop tune ops q;
     Some ((case d of None \<Rightarrow> [] | Some x \<Rightarrow> [x]) @ out, q) }"

fun pushed :: "'a line_op list \<Rightarrow> 'a list" where
  "pushed [] = []"
| "pushed (Push d # ops) = d # pushed ops"
| "pushed (_ # ops) = pushed ops"

locale delay_line =
  fixes valid :: "'q \<Rightarrow> bool"
    and contents :: "'q \<Rightarrow> 'a list"
    and push :: "'a option \<Rightarrow> 'q \<Rightarrow> 'q option"
    and pop :: "'q \<Rightarrow> ('a option \<times> 'q) option"
    and tune :: "nat \<Rightarrow> 'q \<Rightarrow> 'q option"
  assumes push_law: "valid q \<Longrightarrow> push (Some d) q = Some q' \<Longrightarrow> valid q' \<and> contents q' = contents q @ [d]"
    and pop_law: "valid q \<Longrightarrow> pop q = Some (r, q') \<Longrightarrow>
      valid q' \<and> contents q = (case r of None \<Rightarrow> [] | Some x \<Rightarrow> [x]) @ contents q'"
    and tune_law: "valid q \<Longrightarrow> tune n q = Some q' \<Longrightarrow> valid q' \<and> contents q' = contents q"
begin

lemma line_run_fifo:
  "valid q \<Longrightarrow> line_run push pop tune ops q = Some (out, q') \<Longrightarrow>
    valid q' \<and> contents q @ pushed ops = out @ contents q'"
proof (induction ops arbitrary: q out)
  case (Cons op ops)
  show ?case
  proof (cases op)
    case (Push d)
    with Cons.prems obtain q1 where "push (Some d) q = Some q1" "line_run push pop tune ops q1 = Some (out, q')"
      by (auto simp: bind_eq_Some_iff)
    with push_law [OF Cons.prems(1)] Cons.IH [of q1 out] Push show ?thesis by auto
  next
    case Pop
    with Cons.prems obtain r q1 out1 where "pop q = Some (r, q1)" "line_run push pop tune ops q1 = Some (out1, q')"
        "out = (case r of None \<Rightarrow> [] | Some x \<Rightarrow> [x]) @ out1"
      by (auto simp: bind_eq_Some_iff)
    with pop_law [OF Cons.prems(1)] Cons.IH [of q1 out1] Pop show ?thesis by auto
  next
    case (Tune n)
    with Cons.prems obtain q1 where "tune n q = Some q1" "line_run push pop tune ops q1 = Some (out, q')"
      by (auto simp: bind_eq_Some_iff)
    with tune_law [OF Cons.prems(1)] Cons.IH [of q1 out] Tune show ?thesis by auto
  qed
qed auto

end

lemma push_room: "fp_ok q \<Longrightarrow> fp_push d q = Some q' \<Longrightarrow> \<not> fp_full q"
  by (auto simp: fp_push_def fp_full_def)

lemma pad_room:
  "fp_pad q = Some q' \<Longrightarrow> fp_length q < fp_max_len q \<and> fp_length q' \<le> fp_max_len q' \<and>
    fp_min_len q' = fp_min_len q \<and> fp_max_len q' = fp_max_len q"
  by (auto simp: fp_pad_def fp_push_def bind_eq_Some_iff split: if_splits)

lemma grow_fits: "fp_grow fuel q = Some q' \<Longrightarrow> fp_length q \<le> fp_max_len q \<Longrightarrow> fp_min_len q \<le> fp_max_len q"
proof (induction fuel arbitrary: q)
  case 0
  then show ?case by (subst (asm) fp_grow.simps) (auto split: if_splits)
next
  case (Suc fuel)
  show ?case
  proof (cases "fp_length q < fp_min_len q")
    case True
    with Suc.prems(1) obtain q1 where "fp_pad q = Some q1" "fp_grow fuel q1 = Some q'"
      by (subst (asm) fp_grow.simps) (auto simp: bind_eq_Some_iff)
    then show ?thesis using Suc.IH [of q1] pad_room [of q q1] by auto
  next
    case False
    with Suc.prems(2) show ?thesis by simp
  qed
qed

lemma set_min_length_fits:
  assumes "fp_ok q" and "fp_set_min_length m q = Some q'"
  shows "m \<le> fp_max_len q"
proof (cases "m > fp_min_len q")
  case True
  then have "fp_grow (m - fp_length q) (q\<lparr>fp_min_len := m\<rparr>) = Some q'"
    using assms(2) by (simp add: fp_set_min_length_def)
  from grow_fits [OF this] assms(1) show ?thesis by (simp add: fp_ok_def)
next
  case False
  with assms(1) show ?thesis by (simp add: fp_ok_def)
qed

interpretation fifo: delay_line fp_ok items fp_push fp_pop fp_set_min_length
proof
  fix q q' :: "'a fifo_pipeline" and d
  assume "fp_ok q" and "fp_push (Some d) q = Some q'"
  then show "fp_ok q' \<and> items q' = items q @ [d]"
    using push_ok [of q "Some d"] push_room items_push by fastforce
next
  fix q q' :: "'a fifo_pipeline" and r
  assume "fp_ok q" and "fp_pop q = Some (r, q')"
  then show "fp_ok q' \<and> items q = (case r of None \<Rightarrow> [] | Some x \<Rightarrow> [x]) @ items q'"
    using pop_ok [of q] by auto
next
  fix q q' :: "'a fifo_pipeline" and n
  assume "fp_ok q" and "fp_set_min_length n q = Some q'"
  then show "fp_ok q' \<and> items q' = items q"
    using set_min_length_ok [of q n] set_min_length_fits by fastforce
qed

abbreviation fp_run :: "'a line_op list \<Rightarrow> 'a fifo_pipeline \<Rightarrow> ('a list \<times> 'a fifo_pipeline) option" where
  "fp_run \<equiv> line_run fp_push fp_pop fp_set_min_length"

text \<open>The constructor fills the pipe with empty slots up to its minimal length.\<close>

lemma new_slots:
  assumes "m \<le> maxlen" and "0 < maxlen" and "k \<le> m"
  shows "foldM (\<lambda>_. fp_push None) [0..<k]
      \<lparr>fp_min_len = m, fp_max_len = maxlen, fp_length = 0, fp_n_element = 0, fp_slots = []\<rparr> =
    Some \<lparr>fp_min_len = m, fp_max_len = maxlen, fp_length = k, fp_n_element = of_nat k, fp_slots = replicate k None\<rparr>"
  using assms(3)
proof (induction k)
  case (Suc k)
  then show ?case
    using assms(1,2) by (auto simp: foldM_append fp_push_def replicate_append_same)
qed simp

lemma new_ok:
  assumes "m \<le> maxlen" and "0 < maxlen"
  shows "\<exists>q. fp_new m maxlen = Some q \<and> fp_ok q \<and> items q = [] \<and> fp_min_len q = m \<and> fp_max_len q = maxlen"
  using new_slots [OF assms order_refl] assms by (auto simp: fp_new_def fp_ok_def items_def)

text \<open>
  A pipeline keeps the order of its data and loses and duplicates none, whatever its
  owner does: with the data it held before, what was pushed is what was popped followed by what
  it still holds. In particular the empty slots that implement the delay and the
  changes of the minimal length never drop data.
\<close>

theorem pipeline_is_fifo:
  assumes "fp_ok q" and "fp_run ops q = Some (out, q')"
  shows "fp_ok q' \<and> items q @ pushed ops = out @ items q'"
  using assms by (rule fifo.line_run_fifo)

subsection \<open>Delay\<close>

abbreviation items_of :: "'a option list \<Rightarrow> 'a list" where
  "items_of xs \<equiv> map the (filter (\<lambda>d. d \<noteq> None) xs)"

text \<open>A push leaves every slot up to one with data alone.\<close>

lemma push_keeps_prefix:
  assumes "fp_push d q = Some q'" and "i < length (fp_slots q)" and "fp_slots q ! i \<noteq> None"
  shows "take (Suc i) (fp_slots q') = take (Suc i) (fp_slots q)"
proof (cases "fp_slots q" rule: rev_cases)
  case Nil
  with assms(2) show ?thesis by simp
next
  case (snoc es e)
  show ?thesis
  proof (cases "i < length es")
    case True
    with assms(1) show ?thesis by (auto simp: snoc fp_push_def split: if_splits)
  next
    case False
    then have "i = length es" using assms(2) snoc by simp
    with assms snoc show ?thesis by (auto simp: fp_push_def split: if_splits)
  qed
qed

lemma pushed_slot:
  assumes "fp_ok q" and "fp_push (Some d) q = Some q'"
  shows "\<exists>i. i < length (fp_slots q') \<and> fp_slots q' ! i = Some d \<and> fp_min_len q \<le> Suc i \<and>
    items_of (take i (fp_slots q')) = items q"
proof (cases "fp_slots q" rule: rev_cases)
  case Nil
  with assms show ?thesis by (auto simp: fp_push_def fp_ok_def items_def)
next
  case (snoc es e)
  show ?thesis
  proof (cases "e \<noteq> None \<or> fp_length q < fp_min_len q")
    case True
    with assms snoc have "fp_slots q' = fp_slots q @ [Some d]"
      by (auto simp: fp_push_def split: if_splits)
    then show ?thesis
      using assms(1) by (intro exI [of _ "length (fp_slots q)"]) (auto simp: fp_ok_def items_def)
  next
    case False
    with assms snoc have "fp_slots q' = es @ [Some d]"
      by (auto simp: fp_push_def split: if_splits)
    then show ?thesis
      using assms(1) snoc False by (intro exI [of _ "length es"]) (auto simp: fp_ok_def items_def)
  qed
qed

fun pops :: "'a line_op list \<Rightarrow> nat" where
  "pops [] = 0"
| "pops (Pop # ops) = Suc (pops ops)"
| "pops (_ # ops) = pops ops"

definition untuned :: "'a line_op list \<Rightarrow> bool" where
  "untuned ops \<longleftrightarrow> (\<forall>op \<in> set ops. \<forall>n. op \<noteq> Tune n)"

lemma slot_waits:
  assumes "fp_run ops q = Some (out, q')" and "fp_ok q" and "untuned ops"
    and "i < length (fp_slots q)" and "fp_slots q ! i \<noteq> None" and "pops ops \<le> i"
  shows "\<exists>rest. items_of (take i (fp_slots q)) = out @ rest"
  using assms
proof (induction ops arbitrary: q out i)
  case (Cons op ops)
  show ?case
  proof (cases op)
    case (Push d)
    with Cons.prems(1) obtain q1 where q1: "fp_push (Some d) q = Some q1" "fp_run ops q1 = Some (out, q')"
      by (auto simp: bind_eq_Some_iff)
    have same: "take (Suc i) (fp_slots q1) = take (Suc i) (fp_slots q)"
      by (rule push_keeps_prefix [OF q1(1) Cons.prems(4,5)])
    then have "length (take (Suc i) (fp_slots q1)) = Suc i" using Cons.prems(4) by simp
    then have i: "i < length (fp_slots q1)" by simp
    have "fp_slots q1 ! i = fp_slots q ! i" and "take i (fp_slots q1) = take i (fp_slots q)"
      using arg_cong [OF same, of "\<lambda>xs. xs ! i"] arg_cong [OF same, of "take i"] by simp_all
    moreover have "fp_ok q1" using fifo.push_law [OF Cons.prems(2) q1(1)] by simp
    ultimately show ?thesis
      using Cons.IH [OF q1(2) _ _ i] Cons.prems Push by (auto simp: untuned_def)
  next
    case Pop
    with Cons.prems(1) obtain r q1 out1 where q1: "fp_pop q = Some (r, q1)" "fp_run ops q1 = Some (out1, q')"
        "out = (case r of None \<Rightarrow> [] | Some x \<Rightarrow> [x]) @ out1"
      by (auto simp: bind_eq_Some_iff)
    obtain e es where q: "fp_slots q = e # es" using Cons.prems(4) by (cases "fp_slots q") auto
    obtain j where j: "i = Suc j" using Cons.prems(6) Pop by (cases i) auto
    have r: "r = e" and q1s: "fp_slots q1 = es @ (if fp_length q = fp_min_len q then [None] else [])" "fp_ok q1"
      using pop_ok [OF Cons.prems(2)] q1(1) q by auto
    have "j < length es" using Cons.prems(4) by (simp add: q j)
    then have "fp_slots q1 ! j = fp_slots q ! i" and "take j (fp_slots q1) = take j es" and "j < length (fp_slots q1)"
      by (auto simp: q1s q j nth_append)
    then show ?thesis
      using Cons.IH [OF q1(2) q1s(2), of j] Cons.prems Pop q1(3)
      by (cases e) (auto simp: untuned_def q j r)
  next
    case (Tune n)
    with Cons.prems(3) show ?thesis by (simp add: untuned_def)
  qed
qed simp

text \<open>
  Data is delayed by the minimal length. While it is popped fewer times than its
  minimal length, a pipeline gives back only what it held before the push, however much
  else is pushed meanwhile.
\<close>

theorem pipeline_delays:
  assumes "fp_ok q" and "fp_push (Some d) q = Some q1" and "fp_run ops q1 = Some (out, q2)"
    and "untuned ops" and "pops ops < fp_min_len q"
  shows "\<exists>rest. items q = out @ rest"
proof -
  obtain i where i: "i < length (fp_slots q1)" "fp_slots q1 ! i = Some d" "fp_min_len q \<le> Suc i"
      "items_of (take i (fp_slots q1)) = items q"
    using pushed_slot [OF assms(1,2)] by blast
  moreover have "fp_ok q1" using fifo.push_law [OF assms(1,2)] by simp
  ultimately show ?thesis
    using slot_waits [OF assms(3) _ assms(4), of i] assms(5) by auto
qed

definition demo_pipe :: "nat fifo_pipeline" where
  "demo_pipe = \<lparr>fp_min_len = 2, fp_max_len = 3, fp_length = 2, fp_n_element = 2, fp_slots = [Some 7, None]\<rparr>"

theorem pipeline_is_fifo_witness:
  "\<exists>q'. fp_run [Push 8, Pop, Tune 1, Push 9, Pop] demo_pipe = Some ([7, 8], q') \<and> items demo_pipe @ [8, 9] = [7, 8] @ items q'"
proof -
  have "fp_ok demo_pipe" by (simp add: fp_ok_def demo_pipe_def)
  moreover have "map_option fst (fp_run [Push 8, Pop, Tune 1, Push 9, Pop] demo_pipe) = Some [7, 8]" by code_simp
  then obtain q' where "fp_run [Push 8, Pop, Tune 1, Push 9, Pop] demo_pipe = Some ([7, 8], q')" by auto
  ultimately show ?thesis using pipeline_is_fifo [of demo_pipe] by fastforce
qed

theorem pipeline_delays_witness:
  "\<exists>q1 q2 rest. fp_push (Some 8) demo_pipe = Some q1 \<and> fp_run [Pop] q1 = Some ([7], q2) \<and> items demo_pipe = [7] @ rest"
proof -
  have ok: "fp_ok demo_pipe" and min: "pops [Pop :: nat line_op] < fp_min_len demo_pipe" and "untuned [Pop :: nat line_op]"
    by (simp_all add: fp_ok_def demo_pipe_def untuned_def)
  have "map_option fst (do { q \<leftarrow> fp_push (Some 8) demo_pipe; fp_run [Pop] q }) = Some [7]" by code_simp
  then obtain q1 q2 where "fp_push (Some 8) demo_pipe = Some q1" "fp_run [Pop] q1 = Some ([7], q2)"
    by (auto simp: bind_eq_Some_iff)
  with pipeline_delays [OF ok _ _ \<open>untuned _\<close> min] show ?thesis by blast
qed

end
