(* ===== verification/Dram.thy ===== *)
theory Dram
  imports Mem_Fetch Delay_Queue
begin

text \<open>
  The DRAM controller: \<open>dram_t\<close> (\<open>gpgpu-sim/dram.cc\<close>, \<open>dram.h\<close>), its first-ready
  first-come-first-served scheduler (\<open>dram_sched.cc\<close>) and the timing parameters that
  \<open>memory_config::init\<close> derives (\<open>gpu-sim.h\<close>). A \<open>dram_req_t\<close> is shared between its bank and the
  data queue, so requests to the DRAM live in a heap of their own and are referred to by address.
  \<open>memory_stats_t\<close> is left out. The command a cycle issues is part of its result,
  where the code only keeps the flag \<open>issued\<close> and prints the command when it is verified.
\<close>

subsection \<open>Configuration\<close>

datatype dram_ctrl_t = DRAM_FIFO | DRAM_FRFCFS

record dram_config =
  scheduler_type :: dram_ctrl_t
  sched_queue_size :: nat
  return_queue_size :: nat
  gpgpu_memlatency_stat :: bool
  nbk :: nat
  nbkgrp :: nat
  bk_tag_length :: nat
  tCCD :: u32
  tRRD :: u32
  tRCD :: u32
  tRCDWR :: u32
  tRAS :: u32
  tRP :: u32
  tRC :: u32
  tCDLR :: u32
  tWR :: u32
  tCCDL :: u32
  tRTPL :: u32
  tRTW :: u32
  tWTR :: u32
  tWTP :: u32
  CL :: u32
  WL :: u32
  BL :: u32
  busW :: u32
  n_mem_per_ctrlr :: u32
  data_command_freq_ratio :: u32
  dram_atom_size :: u32
  m_n_mem :: u32
  m_n_sub_partition_per_memory_channel :: u32
  m_n_mem_sub_partition :: u32

definition burst_cycles :: "dram_config \<Rightarrow> u32" where
  "burst_cycles c = BL c div data_command_freq_ratio c"

text \<open>\<open>for (i = 0; nbkt > 0; i++) nbkt = nbkt >> 1\<close>\<close>

fun tag_length_loop :: "nat \<Rightarrow> nat" where
  "tag_length_loop nbkt = (if nbkt > 0 then Suc (tag_length_loop (nbkt div 2)) else 0)"

declare tag_length_loop.simps [simp del]

definition dram_init :: "dram_config \<Rightarrow> dram_config option" where
  "dram_init c = do {
     require (nbkgrp c \<noteq> 0 \<and> data_command_freq_ratio c \<noteq> 0);
     require (m_n_sub_partition_per_memory_channel c > 0);
     require (nbk c mod unat (m_n_sub_partition_per_memory_channel c) = 0);
     Some (c\<lparr>bk_tag_length := tag_length_loop (nbk c div nbkgrp c),
       tRCDWR := tRCD c - (WL c + 1),
       tRTW := CL c + burst_cycles c + 2 - WL c,
       tWTR := WL c + burst_cycles c + tCDLR c,
       tWTP := WL c + burst_cycles c + tWR c,
       dram_atom_size := BL c * busW c * n_mem_per_ctrlr c,
       m_n_mem_sub_partition := m_n_mem c * m_n_sub_partition_per_memory_channel c\<rparr>) }"

subsection \<open>State\<close>

record dram_req =
  dr_row :: u32
  dr_col :: u32
  dr_bk :: u32
  dr_nbytes :: u32
  dr_txbytes :: u32
  dr_dqbytes :: u32
  dr_timestamp :: u32
  dr_write :: bool
  dr_addr :: u64
  dr_insertion_time :: u32
  dr_data :: nat

record bankgrp_t =
  CCDLc :: u32
  RTPLc :: u32

record bank_t =
  RCDc :: u32
  RCDWRc :: u32
  RASc :: u32
  RPc :: u32
  RCc :: u32
  WTPc :: u32
  RTPc :: u32
  bk_active :: bool
  curr_row :: u32
  bk_mrq :: "nat option"
  n_access :: u32
  n_idle :: u32
  bkgrpindex :: nat

record dram_counters =
  n_cmd :: u32
  n_activity :: u32
  n_nop :: u32
  n_act :: u32
  n_pre :: u32
  n_req :: u32
  ave_mrqs :: u32
  bwutil :: u32

text \<open>
  The scheduler: the requests of every bank, newest first, and for every bank and row the
  requests to it, newest first; \<open>m_last_row\<close> points to the bin that is being served.
\<close>

record frfcfs_scheduler =
  m_num_pending :: u32
  m_queue :: "nat list list"
  m_bins :: "(u32 \<Rightarrow> nat list option) list"
  m_last_row :: "u32 option list"
  curr_row_service_time :: "u32 list"
  row_service_timestamp :: "u32 list"

record dram_t =
  dram_id :: u32
  bkgrp :: "bankgrp_t list"
  banks :: "bank_t list"
  prio :: nat
  RRDc :: u32
  CCDc :: u32
  RTWc :: u32
  WTRc :: u32
  rw_write :: bool
  rwq :: "nat fifo_pipeline"
  mrqq :: "nat fifo_pipeline"
  returnq :: "nat fifo_pipeline"
  frfcfs :: "frfcfs_scheduler option"
  n_rd :: u32
  n_wr :: u32
  max_mrqs_temp :: u32
  max_mrqs :: u32
  total :: dram_counters
  partial :: dram_counters
  reqs :: "nat \<Rightarrow> dram_req option"
  next_req :: nat

definition bank_new :: "dram_config \<Rightarrow> nat \<Rightarrow> bank_t" where
  "bank_new c i = \<lparr>RCDc = 0, RCDWRc = 0, RASc = 0, RPc = 0, RCc = 0, WTPc = 0, RTPc = 0,
     bk_active = False, curr_row = 0, bk_mrq = None, n_access = 0, n_idle = 0,
     bkgrpindex = i div (nbk c div nbkgrp c)\<rparr>"

definition frfcfs_new :: "dram_config \<Rightarrow> frfcfs_scheduler" where
  "frfcfs_new c = \<lparr>m_num_pending = 0, m_queue = replicate (nbk c) [], m_bins = replicate (nbk c) (\<lambda>_. None),
     m_last_row = replicate (nbk c) None, curr_row_service_time = replicate (nbk c) 0,
     row_service_timestamp = replicate (nbk c) 0\<rparr>"

definition counters_new :: dram_counters where
  "counters_new = \<lparr>n_cmd = 0, n_activity = 0, n_nop = 0, n_act = 0, n_pre = 0, n_req = 0, ave_mrqs = 0, bwutil = 0\<rparr>"

definition dram_new :: "dram_config \<Rightarrow> u32 \<Rightarrow> dram_t option" where
  "dram_new c partition_id = do {
     require (nbkgrp c \<noteq> 0 \<and> nbk c \<noteq> 0 \<and> nbk c div nbkgrp c \<noteq> 0);
     q1 \<leftarrow> fp_new (unat (CL c)) (unat (CL c + 1));
     q2 \<leftarrow> fp_new 0 2;
     q3 \<leftarrow> fp_new 0 (if return_queue_size c = 0 then 1024 else return_queue_size c);
     Some \<lparr>dram_id = partition_id, bkgrp = replicate (nbkgrp c) \<lparr>CCDLc = 0, RTPLc = 0\<rparr>,
       banks = map (bank_new c) [0..<nbk c], prio = 0, RRDc = 0, CCDc = 0, RTWc = 0, WTRc = 0,
       rw_write = False, rwq = q1, mrqq = q2, returnq = q3,
       frfcfs = (if scheduler_type c = DRAM_FRFCFS then Some (frfcfs_new c) else None),
       n_rd = 0, n_wr = 0, max_mrqs_temp = 0, max_mrqs = 0, total = counters_new, partial = counters_new,
       reqs = (\<lambda>_. None), next_req = 0\<rparr> }"

subsection \<open>Queues\<close>

text \<open>\<open>que_length\<close>; the scheduler is dereferenced only when it is the first-ready one.\<close>

definition que_length :: "dram_config \<Rightarrow> dram_t \<Rightarrow> u32 option" where
  "que_length c d = (if scheduler_type c = DRAM_FRFCFS then map_option m_num_pending (frfcfs d)
     else Some (of_nat (fp_length (mrqq d))))"

definition dram_full :: "dram_config \<Rightarrow> dram_t \<Rightarrow> bool option" where
  "dram_full c d =
     (if scheduler_type c = DRAM_FRFCFS then
        (if sched_queue_size c = 0 then Some False
         else map_option (\<lambda>s. unat (m_num_pending s) \<ge> sched_queue_size c) (frfcfs d))
      else Some (fp_full (mrqq d)))"

definition queue_limit :: "dram_config \<Rightarrow> nat" where
  "queue_limit c = sched_queue_size c"

definition returnq_full :: "dram_t \<Rightarrow> bool" where
  "returnq_full d = fp_full (returnq d)"

definition dram_req_new :: "u64 \<Rightarrow> u64 \<Rightarrow> nat \<Rightarrow> mem_fetch \<Rightarrow> dram_req" where
  "dram_req_new tot_cycle sim_cycle p mf =
     \<lparr>dr_row = row (mf_raw_addr mf), dr_col = col (mf_raw_addr mf), dr_bk = bk (mf_raw_addr mf),
      dr_nbytes = mf_data_size mf, dr_txbytes = 0, dr_dqbytes = 0,
      dr_timestamp = ucast (tot_cycle + sim_cycle), dr_write = get_is_write mf,
      dr_addr = ma_addr (mf_access mf), dr_insertion_time = ucast sim_cycle, dr_data = p\<rparr>"

definition count :: "(dram_counters \<Rightarrow> dram_counters) \<Rightarrow> dram_t \<Rightarrow> dram_t" where
  "count f d = d\<lparr>total := f (total d), partial := f (partial d)\<rparr>"

definition dram_push :: "dram_config \<Rightarrow> u64 \<Rightarrow> u64 \<Rightarrow> nat \<Rightarrow> dram_t \<times> mf_heap \<Rightarrow> (dram_t \<times> mf_heap) option" where
  "dram_push c tot_cycle sim_cycle p = (\<lambda>(d, h). do {
     mf \<leftarrow> heap_mf h p;
     require (dram_id d = chip (mf_raw_addr mf));
     let d = d\<lparr>reqs := (reqs d)(next_req d \<mapsto> dram_req_new tot_cycle sim_cycle p mf), next_req := next_req d + 1\<rparr>;
     h \<leftarrow> set_status IN_PARTITION_MC_INTERFACE_QUEUE (sim_cycle + tot_cycle) p h;
     q \<leftarrow> fp_push (Some (next_req d - 1)) (mrqq d);
     let d = count (\<lambda>k. k\<lparr>n_req := n_req k + 1\<rparr>) (d\<lparr>mrqq := q\<rparr>);
     n \<leftarrow> que_length c d;
     Some (d\<lparr>max_mrqs_temp := (if n > max_mrqs_temp d then n else max_mrqs_temp d)\<rparr>, h) })"

text \<open>A field of a request of the DRAM, and the status of its \<open>mem_fetch\<close>.\<close>

definition req_status :: "mem_fetch_status \<Rightarrow> u64 \<Rightarrow> nat \<Rightarrow> dram_t \<Rightarrow> mf_heap \<Rightarrow> mf_heap option" where
  "req_status s now r d h = do { req \<leftarrow> reqs d r; set_status s now (dr_data req) h }"

definition update_req :: "nat \<Rightarrow> (dram_req \<Rightarrow> dram_req) \<Rightarrow> dram_t \<Rightarrow> dram_t option" where
  "update_req r f d = do { req \<leftarrow> reqs d r; Some (d\<lparr>reqs := (reqs d)(r \<mapsto> f req)\<rparr>) }"

definition update_bank :: "nat \<Rightarrow> (bank_t \<Rightarrow> bank_t) \<Rightarrow> dram_t \<Rightarrow> dram_t option" where
  "update_bank b f d = do { x \<leftarrow> nth_opt (banks d) b; Some (d\<lparr>banks := (banks d)[b := f x]\<rparr>) }"

definition update_group :: "nat \<Rightarrow> (bankgrp_t \<Rightarrow> bankgrp_t) \<Rightarrow> dram_t \<Rightarrow> dram_t option" where
  "update_group g f d = do { x \<leftarrow> nth_opt (bkgrp d) g; Some (d\<lparr>bkgrp := (bkgrp d)[g := f x]\<rparr>) }"

subsection \<open>Schedulers\<close>

definition scheduler_fifo :: "u64 \<Rightarrow> dram_t \<times> mf_heap \<Rightarrow> (dram_t \<times> mf_heap) option" where
  "scheduler_fifo now = (\<lambda>(d, h).
     if fp_empty (mrqq d) then Some (d, h)
     else do {
       r \<leftarrow> fp_top (mrqq d);
       h \<leftarrow> req_status IN_PARTITION_MC_BANK_ARB_QUEUE now r d h;
       req \<leftarrow> reqs d r;
       x \<leftarrow> nth_opt (banks d) (unat (dr_bk req));
       if bk_mrq x = None then do {
         (r, q) \<leftarrow> fp_pop (mrqq d);
         d \<leftarrow> update_bank (unat (dr_bk req)) (\<lambda>x. x\<lparr>bk_mrq := r\<rparr>) (d\<lparr>mrqq := q\<rparr>);
         Some (d, h) }
       else Some (d, h) })"

definition add_req :: "nat \<Rightarrow> dram_req \<Rightarrow> frfcfs_scheduler \<Rightarrow> frfcfs_scheduler option" where
  "add_req r req s = (let b = unat (dr_bk req) in do {
     queue \<leftarrow> nth_opt (m_queue s) b;
     bins \<leftarrow> nth_opt (m_bins s) b;
     let bin = (case bins (dr_row req) of None \<Rightarrow> [] | Some rs \<Rightarrow> rs);
     Some (s\<lparr>m_num_pending := m_num_pending s + 1, m_queue := (m_queue s)[b := r # queue],
       m_bins := (m_bins s)[b := bins(dr_row req \<mapsto> r # bin)]\<rparr>) })"

definition data_collection :: "u64 \<Rightarrow> nat \<Rightarrow> frfcfs_scheduler \<Rightarrow> frfcfs_scheduler option" where
  "data_collection sim_cycle b s = do {
     t \<leftarrow> update_opt (curr_row_service_time s) b 0;
     ts \<leftarrow> update_opt (row_service_timestamp s) b (ucast sim_cycle);
     Some (s\<lparr>curr_row_service_time := t, row_service_timestamp := ts\<rparr>) }"

text \<open>\<open>schedule\<close>: \<open>None\<close> inside the result if the bank has nothing to do.\<close>

definition schedule_row :: "u64 \<Rightarrow> (nat \<Rightarrow> dram_req option) \<Rightarrow> nat \<Rightarrow> u32 \<Rightarrow> frfcfs_scheduler \<Rightarrow>
    (u32 option \<times> frfcfs_scheduler) option" where
  "schedule_row sim_cycle rq b cur s = do {
     last_line \<leftarrow> nth_opt (m_last_row s) b;
     case last_line of
       Some line \<Rightarrow> Some (Some line, s)
     | None \<Rightarrow> do {
         queue \<leftarrow> nth_opt (m_queue s) b;
         if queue = [] then Some (None, s)
         else do {
           bins \<leftarrow> nth_opt (m_bins s) b;
           case bins cur of
             None \<Rightarrow> do {
               req \<leftarrow> rq (last queue);
               require (bins (dr_row req) \<noteq> None);
               s \<leftarrow> data_collection sim_cycle b (s\<lparr>m_last_row := (m_last_row s)[b := Some (dr_row req)]\<rparr>);
               Some (Some (dr_row req), s) }
           | Some _ \<Rightarrow> Some (Some cur, s\<lparr>m_last_row := (m_last_row s)[b := Some cur]\<rparr>) } } }"

definition schedule :: "u64 \<Rightarrow> (nat \<Rightarrow> dram_req option) \<Rightarrow> nat \<Rightarrow> u32 \<Rightarrow> frfcfs_scheduler \<Rightarrow>
    (nat option \<times> frfcfs_scheduler) option" where
  "schedule sim_cycle rq b cur s = do {
     (r, s) \<leftarrow> schedule_row sim_cycle rq b cur s;
     case r of
       None \<Rightarrow> Some (None, s)
     | Some line \<Rightarrow> do {
         bins \<leftarrow> nth_opt (m_bins s) b;
         queue \<leftarrow> nth_opt (m_queue s) b;
         bin \<leftarrow> bins line;
         require (bin \<noteq> []);
         let next = last bin;
         req \<leftarrow> rq next;
         let s = s\<lparr>m_queue := (m_queue s)[b := remove1 next queue]\<rparr>;
         let s = (if butlast bin = []
           then s\<lparr>m_bins := (m_bins s)[b := bins(dr_row req := None)], m_last_row := (m_last_row s)[b := None]\<rparr>
           else s\<lparr>m_bins := (m_bins s)[b := bins(line \<mapsto> butlast bin)]\<rparr>);
         require (m_num_pending s \<noteq> 0);
         Some (Some next, s\<lparr>m_num_pending := m_num_pending s - 1\<rparr>) } }"

text \<open>The loop of \<open>scheduler_frfcfs\<close> that moves requests to the scheduler; it pops one per round.\<close>

fun fill_scheduler :: "nat \<Rightarrow> dram_config \<Rightarrow> u64 \<Rightarrow> dram_t \<times> mf_heap \<Rightarrow> (dram_t \<times> mf_heap) option" where
  "fill_scheduler fuel c now (d, h) = do {
     s \<leftarrow> frfcfs d;
     if \<not> fp_empty (mrqq d) \<and> (sched_queue_size c = 0 \<or> unat (m_num_pending s) < sched_queue_size c) then
       (case fuel of
          0 \<Rightarrow> None
        | Suc fuel \<Rightarrow> do {
            (r, q) \<leftarrow> fp_pop (mrqq d);
            r \<leftarrow> r;
            req \<leftarrow> reqs d r;
            h \<leftarrow> req_status IN_PARTITION_MC_INPUT_QUEUE now r d h;
            s \<leftarrow> add_req r req s;
            fill_scheduler fuel c now (d\<lparr>mrqq := q, frfcfs := Some s\<rparr>, h) })
     else Some (d, h) }"

declare fill_scheduler.simps [simp del]

text \<open>The banks are asked in turn; the loop ends with the first request that is found.\<close>

fun offer_banks :: "dram_config \<Rightarrow> u64 \<Rightarrow> u64 \<Rightarrow> nat list \<Rightarrow> dram_t \<times> mf_heap \<Rightarrow> (dram_t \<times> mf_heap) option" where
  "offer_banks c tot_cycle sim_cycle [] (d, h) = Some (d, h)"
| "offer_banks c tot_cycle sim_cycle (i # is) (d, h) = (let b = (i + prio d) mod nbk c in do {
     x \<leftarrow> nth_opt (banks d) b;
     if bk_mrq x \<noteq> None then offer_banks c tot_cycle sim_cycle is (d, h)
     else do {
       s \<leftarrow> frfcfs d;
       (r, s) \<leftarrow> schedule sim_cycle (reqs d) b (curr_row x) s;
       let d = d\<lparr>frfcfs := Some s\<rparr>;
       case r of
         None \<Rightarrow> offer_banks c tot_cycle sim_cycle is (d, h)
       | Some r \<Rightarrow> do {
           h \<leftarrow> req_status IN_PARTITION_MC_BANK_ARB_QUEUE (sim_cycle + tot_cycle) r d h;
           d \<leftarrow> update_bank b (\<lambda>x. x\<lparr>bk_mrq := Some r\<rparr>) (d\<lparr>prio := (prio d + 1) mod nbk c\<rparr>);
           d \<leftarrow> (if gpgpu_memlatency_stat c
             then update_req r (\<lambda>q. q\<lparr>dr_timestamp := ucast (tot_cycle + sim_cycle)\<rparr>) d
             else Some d);
           Some (d, h) } } })"

definition scheduler_frfcfs :: "dram_config \<Rightarrow> u64 \<Rightarrow> u64 \<Rightarrow> dram_t \<times> mf_heap \<Rightarrow> (dram_t \<times> mf_heap) option" where
  "scheduler_frfcfs c tot_cycle sim_cycle = (\<lambda>(d, h). do {
     (d, h) \<leftarrow> fill_scheduler (fp_length (mrqq d)) c (sim_cycle + tot_cycle) (d, h);
     offer_banks c tot_cycle sim_cycle [0..<nbk c] (d, h) })"

subsection \<open>A cycle\<close>

text \<open>
  One burst leaves the data queue. A finished write back is deleted; its address and \<open>mem_fetch\<close> are handed
  to \<open>set_done\<close> of the partition, other requests become replies and enter the return queue.
\<close>

definition data_burst :: "dram_config \<Rightarrow> u64 \<Rightarrow> dram_t \<times> mf_heap \<Rightarrow>
    ((nat \<times> mem_fetch) option \<times> dram_t \<times> mf_heap) option" where
  "data_burst c now = (\<lambda>(d, h).
     if fp_full (returnq d) then Some (None, d, h)
     else do {
       (r, q) \<leftarrow> fp_pop (rwq d);
       let d = d\<lparr>rwq := q\<rparr>;
       case r of
         None \<Rightarrow> Some (None, d, h)
       | Some r \<Rightarrow> do {
           d \<leftarrow> update_req r (\<lambda>q. q\<lparr>dr_dqbytes := dr_dqbytes q + dram_atom_size c\<rparr>) d;
           req \<leftarrow> reqs d r;
           if dr_dqbytes req \<ge> dr_nbytes req then do {
             let p = dr_data req;
             h \<leftarrow> set_status IN_PARTITION_MC_RETURNQ now p h;
             mf \<leftarrow> heap_mf h p;
             let d' = d\<lparr>reqs := (reqs d)(r := None)\<rparr>;
             if ma_type (mf_access mf) \<noteq> L1_WRBK_ACC \<and> ma_type (mf_access mf) \<noteq> L2_WRBK_ACC then do {
               mf' \<leftarrow> set_reply mf;
               q \<leftarrow> fp_push (Some p) (returnq d');
               Some (None, d'\<lparr>returnq := q\<rparr>, h\<lparr>heap_mf := (heap_mf h)(p \<mapsto> mf')\<rparr>) }
             else Some (Some (p, mf), d', h\<lparr>heap_mf := (heap_mf h)(p := None)\<rparr>) }
           else Some (None, d, h) } })"

definition sample_queue :: "dram_config \<Rightarrow> dram_t \<Rightarrow> dram_t option" where
  "sample_queue c d = do {
     n \<leftarrow> que_length c d;
     Some (count (\<lambda>k. k\<lparr>ave_mrqs := ave_mrqs k + n\<rparr>) (d\<lparr>max_mrqs := (if n > max_mrqs d then n else max_mrqs d)\<rparr>)) }"

text \<open>A command with its bank and, except for a precharge, its row.\<close>

datatype dram_cmd = RD nat u32 | WR nat u32 | ACT nat u32 | PRE nat

type_synonym issue_state = "dram_t \<times> mf_heap \<times> dram_cmd option \<times> nat"

definition group_of :: "dram_config \<Rightarrow> nat \<Rightarrow> nat" where
  "group_of c j = j div 2 ^ bk_tag_length c"

definition start_timers :: "dram_config \<Rightarrow> nat \<Rightarrow> bool \<Rightarrow> dram_t \<Rightarrow> dram_t option" where
  "start_timers c j wr d = do {
     d \<leftarrow> update_group (group_of c j) (\<lambda>g. g\<lparr>CCDLc := tCCDL c\<rparr>) (d\<lparr>CCDc := tCCD c\<rparr>);
     if wr then do {
       d \<leftarrow> update_bank j (\<lambda>x. x\<lparr>WTPc := tWTP c\<rparr>) (d\<lparr>WTRc := tWTR c\<rparr>);
       Some (d\<lparr>n_wr := n_wr d + 1\<rparr>) }
     else do {
       d \<leftarrow> update_bank j (\<lambda>x. x\<lparr>RTPc := burst_cycles c, n_access := n_access x + 1\<rparr>) (d\<lparr>RTWc := tRTW c\<rparr>);
       d \<leftarrow> update_group (group_of c j) (\<lambda>g. g\<lparr>RTPLc := tRTPL c\<rparr>) d;
       Some (d\<lparr>n_rd := n_rd d + 1\<rparr>) } }"

definition issue_column :: "dram_config \<Rightarrow> nat \<Rightarrow> nat \<Rightarrow> bool \<Rightarrow> dram_t \<Rightarrow> dram_t option" where
  "issue_column c j r wr d = do {
     q \<leftarrow> (if rw_write d \<noteq> wr then fp_set_min_length (unat (if wr then WL c else CL c)) (rwq d) else Some (rwq d));
     q \<leftarrow> fp_push (Some r) q;
     d \<leftarrow> update_req r (\<lambda>q. q\<lparr>dr_txbytes := dr_txbytes q + dram_atom_size c\<rparr>) (d\<lparr>rw_write := wr, rwq := q\<rparr>);
     d \<leftarrow> start_timers c j wr d;
     let d = count (\<lambda>k. k\<lparr>bwutil := bwutil k + burst_cycles c\<rparr>) d;
     req \<leftarrow> reqs d r;
     if \<not> dr_txbytes req < dr_nbytes req then update_bank j (\<lambda>x. x\<lparr>bk_mrq := None\<rparr>) d else Some d }"

definition issue_activate :: "dram_config \<Rightarrow> nat \<Rightarrow> dram_req \<Rightarrow> dram_t \<Rightarrow> dram_t option" where
  "issue_activate c j req d = do {
     d \<leftarrow> update_bank j (\<lambda>x. x\<lparr>curr_row := dr_row req, bk_active := True, RCDc := tRCD c,
       RCDWRc := tRCDWR c, RASc := tRAS c, RCc := tRC c\<rparr>) (d\<lparr>RRDc := tRRD c\<rparr>);
     Some (count (\<lambda>k. k\<lparr>n_act := n_act k + 1\<rparr>) (d\<lparr>prio := (j + 1) mod nbk c\<rparr>)) }"

definition issue_precharge :: "dram_config \<Rightarrow> nat \<Rightarrow> dram_t \<Rightarrow> dram_t option" where
  "issue_precharge c j d = do {
     d \<leftarrow> update_bank j (\<lambda>x. x\<lparr>bk_active := False, RPc := tRP c\<rparr>) d;
     Some (count (\<lambda>k. k\<lparr>n_pre := n_pre k + 1\<rparr>) (d\<lparr>prio := (j + 1) mod nbk c\<rparr>)) }"

text \<open>The test of a bank without a request for activity.\<close>

definition bank_quiet :: "bank_t \<Rightarrow> dram_t \<Rightarrow> bool" where
  "bank_quiet x d \<longleftrightarrow> CCDc d = 0 \<and> RRDc d = 0 \<and> RTWc d = 0 \<and> WTRc d = 0 \<and> RCDc x = 0 \<and> RASc x = 0 \<and>
     RCc x = 0 \<and> RPc x = 0 \<and> RCDWRc x = 0"

definition bank_step :: "dram_config \<Rightarrow> u64 \<Rightarrow> nat \<Rightarrow> issue_state \<Rightarrow> issue_state option" where
  "bank_step c now i = (\<lambda>(d, h, issued, k). (let j = (i + prio d) mod nbk c in do {
     x \<leftarrow> nth_opt (banks d) j;
     case bk_mrq x of
       Some r \<Rightarrow> do {
         g \<leftarrow> nth_opt (bkgrp d) (group_of c j);
         req \<leftarrow> reqs d r;
         h \<leftarrow> req_status IN_PARTITION_DRAM now r d h;
         if issued = None \<and> CCDc d = 0 \<and> RCDc x = 0 \<and> CCDLc g = 0 \<and> curr_row x = dr_row req \<and>
            \<not> dr_write req \<and> WTRc d = 0 \<and> bk_active x \<and> \<not> fp_full (rwq d) then do {
           d \<leftarrow> issue_column c j r False d;
           Some (d, h, Some (RD j (dr_row req)), k) }
         else if issued = None \<and> CCDc d = 0 \<and> RCDWRc x = 0 \<and> CCDLc g = 0 \<and> curr_row x = dr_row req \<and>
            dr_write req \<and> RTWc d = 0 \<and> bk_active x \<and> \<not> fp_full (rwq d) then do {
           d \<leftarrow> issue_column c j r True d;
           Some (d, h, Some (WR j (dr_row req)), k) }
         else if issued = None \<and> RRDc d = 0 \<and> \<not> bk_active x \<and> RPc x = 0 \<and> RCc x = 0 then do {
           d \<leftarrow> issue_activate c j req d;
           Some (d, h, Some (ACT j (dr_row req)), k) }
         else if issued = None \<and> curr_row x \<noteq> dr_row req \<and> bk_active x \<and> RASc x = 0 \<and> WTPc x = 0 \<and>
            RTPc x = 0 \<and> RTPLc g = 0 then do {
           d \<leftarrow> issue_precharge c j d;
           Some (d, h, Some (PRE j), k) }
         else Some (d, h, issued, k) }
     | None \<Rightarrow> do {
         let k = (if bank_quiet x d then k - 1 else k);
         d \<leftarrow> update_bank j (\<lambda>x. x\<lparr>n_idle := n_idle x + 1\<rparr>) d;
         Some (d, h, issued, k) } }))"

definition dec2zero :: "u32 \<Rightarrow> u32" where
  "dec2zero x = (if x \<noteq> 0 then x - 1 else 0)"

definition tick_bank :: "bank_t \<Rightarrow> bank_t" where
  "tick_bank x = x\<lparr>RCDc := dec2zero (RCDc x), RCDWRc := dec2zero (RCDWRc x), RASc := dec2zero (RASc x),
     RPc := dec2zero (RPc x), RCc := dec2zero (RCc x), WTPc := dec2zero (WTPc x), RTPc := dec2zero (RTPc x)\<rparr>"

definition tick_group :: "bankgrp_t \<Rightarrow> bankgrp_t" where
  "tick_group g = g\<lparr>CCDLc := dec2zero (CCDLc g), RTPLc := dec2zero (RTPLc g)\<rparr>"

definition tick :: "dram_t \<Rightarrow> dram_t" where
  "tick d = d\<lparr>RRDc := dec2zero (RRDc d), CCDc := dec2zero (CCDc d), RTWc := dec2zero (RTWc d),
     WTRc := dec2zero (WTRc d), banks := map tick_bank (banks d), bkgrp := map tick_group (bkgrp d)\<rparr>"

definition dram_cycle :: "dram_config \<Rightarrow> u64 \<Rightarrow> u64 \<Rightarrow> dram_t \<times> mf_heap \<Rightarrow>
    (dram_cmd option \<times> (nat \<times> mem_fetch) option \<times> dram_t \<times> mf_heap) option" where
  "dram_cycle c tot_cycle sim_cycle s = (let now = sim_cycle + tot_cycle in do {
     (done, d, h) \<leftarrow> data_burst c now s;
     (d, h) \<leftarrow> (case scheduler_type c of
         DRAM_FIFO \<Rightarrow> scheduler_fifo now (d, h)
       | DRAM_FRFCFS \<Rightarrow> scheduler_frfcfs c tot_cycle sim_cycle (d, h));
     d \<leftarrow> sample_queue c d;
     (d, h, issued, k) \<leftarrow> foldM (bank_step c now) [0..<nbk c] (d, h, None, nbk c);
     let d = (if issued = None then count (\<lambda>n. n\<lparr>n_nop := n_nop n + 1\<rparr>) d else d);
     let d = (if k \<noteq> 0 then count (\<lambda>n. n\<lparr>n_activity := n_activity n + 1\<rparr>) d else d);
     let d = count (\<lambda>n. n\<lparr>n_cmd := n_cmd n + 1\<rparr>) d;
     Some (issued, done, tick d, h) })"

definition return_queue_pop :: "dram_t \<Rightarrow> (nat option \<times> dram_t) option" where
  "return_queue_pop d = do {
     (p, q) \<leftarrow> fp_pop (returnq d);
     Some (p, d\<lparr>returnq := q\<rparr>) }"

definition return_queue_top :: "dram_t \<Rightarrow> nat option" where
  "return_queue_top d = fp_top (returnq d)"

end
