(* ===== verification/Memory_Partition.thy ===== *)
theory Memory_Partition
  imports Data_Cache Dram
begin

text \<open>
  A memory partition (\<open>gpgpu-sim/l2cache.cc\<close>, \<open>l2cache.h\<close>): \<open>memory_sub_partition\<close> with its four queues, the
  delay of its raster units and its L2 cache, and \<open>memory_partition_unit\<close>, which shares a DRAM controller
  between the sub partitions and arbitrates with credits. The parts share one heap of requests, which an
  operation of the L2 cache is given and gives back. Statistics and printing are left out, as is the
  effect of an atomic on the functional memory, which \<open>pop\<close> triggers.
\<close>

subsection \<open>Configuration\<close>

text \<open>
  \<open>pc_l2\<close> is \<open>None\<close> if the L2 cache is disabled. \<open>pc_queues\<close> are the lengths that \<open>sscanf\<close> reads from
  \<open>gpgpu_L2_queue_config\<close>, in the order of the string.
\<close>

record partition_config =
  pc_dram :: dram_config
  pc_l2 :: "cache_config option"
  pc_texture_only :: bool
  pc_queues :: "nat \<times> nat \<times> nat \<times> nat"
  pc_rop_latency :: u32
  pc_dram_latency :: u32
  pc_memory :: memory_config

definition n_subs :: "partition_config \<Rightarrow> nat" where
  "n_subs c = unat (m_n_sub_partition_per_memory_channel (pc_dram c))"

definition l2_env :: "partition_config \<Rightarrow> u64 \<Rightarrow> cache_env" where
  "l2_env c now = \<lparr>ce_memory_config = pc_memory c, ce_allocator = Partition_allocator,
     ce_wr_alloc_type = L2_WR_ALLOC_R, ce_wrbk_type = L2_WRBK_ACC, ce_now = now\<rparr>"

subsection \<open>Arbitration with credits\<close>

text \<open>\<open>arbitration_metadata\<close>: every sub partition has a private credit, the others are shared.\<close>

record arbitration =
  m_last_borrower :: nat
  m_shared_credit_limit :: int
  m_private_credit_limit :: int
  m_private_credit :: "int list"
  m_shared_credit :: int

text \<open>The limit is computed in \<open>unsigned\<close> and stored in an \<open>int\<close>.\<close>

definition shared_limit :: "dram_config \<Rightarrow> int" where
  "shared_limit c =
     (if sched_queue_size c = 0 \<or> return_queue_size c = 0 then 0
      else sint (of_nat (sched_queue_size c) + of_nat (return_queue_size c)
        - (m_n_sub_partition_per_memory_channel c - 1)))"

definition arbitration_new :: "partition_config \<Rightarrow> arbitration option" where
  "arbitration_new c = do {
     require (0 \<le> shared_limit (pc_dram c));
     Some \<lparr>m_last_borrower = n_subs c - 1, m_shared_credit_limit = shared_limit (pc_dram c),
       m_private_credit_limit = 1, m_private_credit = replicate (n_subs c) 0, m_shared_credit = 0\<rparr> }"

definition has_shared :: "arbitration \<Rightarrow> bool" where
  "has_shared a \<longleftrightarrow> m_shared_credit_limit a = 0 \<or> m_shared_credit a < m_shared_credit_limit a"

definition has_credits :: "nat \<Rightarrow> arbitration \<Rightarrow> bool option" where
  "has_credits spid a = do {
     p \<leftarrow> nth_opt (m_private_credit a) spid;
     Some (p < m_private_credit_limit a \<or> has_shared a) }"

definition borrow_credit :: "nat \<Rightarrow> arbitration \<Rightarrow> arbitration option" where
  "borrow_credit spid a = do {
     p \<leftarrow> nth_opt (m_private_credit a) spid;
     a \<leftarrow> (if p < m_private_credit_limit a then Some (a\<lparr>m_private_credit := (m_private_credit a)[spid := p + 1]\<rparr>)
       else if has_shared a then Some (a\<lparr>m_shared_credit := m_shared_credit a + 1\<rparr>)
       else None);
     Some (a\<lparr>m_last_borrower := spid\<rparr>) }"

definition return_credit :: "nat \<Rightarrow> arbitration \<Rightarrow> arbitration option" where
  "return_credit spid a = do {
     p \<leftarrow> nth_opt (m_private_credit a) spid;
     let a = (if p > 0 then a\<lparr>m_private_credit := (m_private_credit a)[spid := p - 1]\<rparr>
       else a\<lparr>m_shared_credit := m_shared_credit a - 1\<rparr>);
     require (m_shared_credit a \<ge> 0);
     Some a }"

subsection \<open>Sub partitions\<close>

record memory_sub_partition =
  msp_id :: u32
  msp_L2cache :: "cache_sys option"
  msp_rop :: "(u64 \<times> nat) list"
  msp_icnt_L2_queue :: "nat fifo_pipeline"
  msp_L2_dram_queue :: "nat fifo_pipeline"
  msp_dram_L2_queue :: "nat fifo_pipeline"
  msp_L2_icnt_queue :: "nat fifo_pipeline"
  msp_request_tracker :: "nat set"

type_synonym sub_state = "memory_sub_partition \<times> mf_heap"

definition sub_partition_new :: "partition_config \<Rightarrow> u32 \<Rightarrow> memory_sub_partition option" where
  "sub_partition_new c i = do {
     require (i < m_n_mem_sub_partition (pc_dram c));
     l2 \<leftarrow> (case pc_l2 c of
         None \<Rightarrow> Some None
       | Some cfg \<Rightarrow> map_option Some (data_cache_new cfg (-1) (-1) IN_PARTITION_L2_MISS_QUEUE heap_empty));
     let (icnt_L2, L2_dram, dram_L2, L2_icnt) = pc_queues c;
     q1 \<leftarrow> fp_new 0 icnt_L2;
     q2 \<leftarrow> fp_new 0 L2_dram;
     q3 \<leftarrow> fp_new 0 dram_L2;
     q4 \<leftarrow> fp_new 0 L2_icnt;
     Some \<lparr>msp_id = i, msp_L2cache = l2, msp_rop = [], msp_icnt_L2_queue = q1, msp_L2_dram_queue = q2,
       msp_dram_L2_queue = q3, msp_L2_icnt_queue = q4, msp_request_tracker = {}\<rparr> }"

text \<open>A call of a method of \<open>m_L2cache\<close>, on the heap that all parts share.\<close>

definition on_L2 :: "(cache_sys \<Rightarrow> ('r \<times> cache_sys) option) \<Rightarrow> sub_state \<Rightarrow> ('r \<times> sub_state) option" where
  "on_L2 f = (\<lambda>(s, h). do {
     l2 \<leftarrow> msp_L2cache s;
     (r, l2) \<leftarrow> f (l2\<lparr>cs_heap := h\<rparr>);
     Some (r, s\<lparr>msp_L2cache := Some l2\<rparr>, cs_heap l2) })"

definition mf_delete :: "nat \<Rightarrow> mf_heap \<Rightarrow> mf_heap" where
  "mf_delete p h = h\<lparr>heap_mf := (heap_mf h)(p := None)\<rparr>"

definition untrack :: "nat \<Rightarrow> memory_sub_partition \<Rightarrow> memory_sub_partition" where
  "untrack p s = s\<lparr>msp_request_tracker := msp_request_tracker s - {p}\<rparr>"

text \<open>A request becomes a reply and goes to the interconnect.\<close>

definition reply_to_icnt :: "u64 \<Rightarrow> nat \<Rightarrow> sub_state \<Rightarrow> sub_state option" where
  "reply_to_icnt now p = (\<lambda>(s, h). do {
     mf \<leftarrow> heap_mf h p;
     mf \<leftarrow> set_reply mf;
     h \<leftarrow> set_status IN_PARTITION_L2_TO_ICNT_QUEUE now p (h\<lparr>heap_mf := (heap_mf h)(p \<mapsto> mf)\<rparr>);
     q \<leftarrow> fp_push (Some p) (msp_L2_icnt_queue s);
     Some (s\<lparr>msp_L2_icnt_queue := q\<rparr>, h) })"

subsection \<open>A cycle of a sub partition\<close>

text \<open>An answered request of the L2 cache leaves it; the read of a write allocation ends here.\<close>

definition L2_responses :: "u64 \<Rightarrow> sub_state \<Rightarrow> sub_state option" where
  "L2_responses now = (\<lambda>(s, h). (case msp_L2cache s of
       None \<Rightarrow> Some (s, h)
     | Some l2 \<Rightarrow>
         if cache_access_ready l2 \<and> \<not> fp_full (msp_L2_icnt_queue s) then do {
           (p, s, h) \<leftarrow> on_L2 cache_next_access (s, h);
           mf \<leftarrow> heap_mf h p;
           (if ma_type (mf_access mf) \<noteq> L2_WR_ALLOC_R then reply_to_icnt now p (s, h)
            else Some (untrack p s, mf_delete p h)) }
         else Some (s, h)))"

text \<open>A reply of the DRAM fills the L2 cache or passes it by.\<close>

definition from_dram :: "u64 \<Rightarrow> sub_state \<Rightarrow> sub_state option" where
  "from_dram now = (\<lambda>(s, h).
     if fp_empty (msp_dram_L2_queue s) then Some (s, h)
     else do {
       p \<leftarrow> fp_top (msp_dram_L2_queue s);
       let waiting = (case msp_L2cache s of None \<Rightarrow> False | Some l2 \<Rightarrow> waiting_for_fill p l2);
       let port_free = (case msp_L2cache s of None \<Rightarrow> False | Some l2 \<Rightarrow> fill_port_free (cs_bandwidth l2));
       (if waiting then
          (if port_free then do {
             h \<leftarrow> set_status IN_PARTITION_L2_FILL_QUEUE now p h;
             (_, s, h) \<leftarrow> on_L2 (\<lambda>l2. map_option (Pair ()) (cache_fill p (ucast now) l2)) (s, h);
             (_, q) \<leftarrow> fp_pop (msp_dram_L2_queue s);
             Some (s\<lparr>msp_dram_L2_queue := q\<rparr>, h) }
           else Some (s, h))
        else if \<not> fp_full (msp_L2_icnt_queue s) then do {
          h \<leftarrow> set_status IN_PARTITION_L2_TO_ICNT_QUEUE now p h;
          q \<leftarrow> fp_push (Some p) (msp_L2_icnt_queue s);
          (_, q') \<leftarrow> fp_pop (msp_dram_L2_queue s);
          Some (s\<lparr>msp_L2_icnt_queue := q, msp_dram_L2_queue := q'\<rparr>, h) }
        else Some (s, h)) })"

text \<open>The cycle of the L2 cache, whose port is \<open>L2interface\<close>: the queue to the DRAM.\<close>

definition L2_cycle :: "sub_state \<Rightarrow> sub_state option" where
  "L2_cycle = (\<lambda>(s, h).
     if msp_L2cache s = None then Some (s, h)
     else do {
       (sent, s, h) \<leftarrow> on_L2 (cache_cycle (\<lambda>_ _. fp_full (msp_L2_dram_queue s))) (s, h);
       (case sent of
          None \<Rightarrow> Some (s, h)
        | Some p \<Rightarrow> do {
            h \<leftarrow> set_status IN_PARTITION_L2_TO_DRAM_QUEUE 0 p h;
            q \<leftarrow> fp_push (Some p) (msp_L2_dram_queue s);
            Some (s\<lparr>msp_L2_dram_queue := q\<rparr>, h) }) })"

definition drop_request :: "memory_sub_partition \<Rightarrow> memory_sub_partition option" where
  "drop_request s = do {
     (_, q) \<leftarrow> fp_pop (msp_icnt_L2_queue s);
     Some (s\<lparr>msp_icnt_L2_queue := q\<rparr>) }"

text \<open>What happens to a request after the L2 cache was asked.\<close>

definition L2_outcome :: "u64 \<Rightarrow> nat \<Rightarrow> cache_request_status \<Rightarrow> cache_event list \<Rightarrow> sub_state \<Rightarrow> sub_state option" where
  "L2_outcome now p status events = (\<lambda>(s, h).
     if status = HIT then
       (if \<not> was_write_sent events then do {
          require (\<not> was_read_sent events);
          mf \<leftarrow> heap_mf h p;
          (s, h) \<leftarrow> (if ma_type (mf_access mf) = L1_WRBK_ACC then Some (untrack p s, mf_delete p h)
            else reply_to_icnt now p (s, h));
          s \<leftarrow> drop_request s;
          Some (s, h) }
        else do { s \<leftarrow> drop_request s; Some (s, h) })
     else if status \<noteq> RESERVATION_FAIL then do { s \<leftarrow> drop_request s; Some (s, h) }
     else do {
       require (\<not> was_write_sent events);
       require (\<not> was_read_sent events);
       Some (s, h) })"

definition ask_L2 :: "partition_config \<Rightarrow> u64 \<Rightarrow> nat \<Rightarrow> mem_fetch \<Rightarrow> sub_state \<Rightarrow> sub_state option" where
  "ask_L2 c now p mf x = do {
     ((status, events), x) \<leftarrow> on_L2 (\<lambda>l2. do {
         (st, l2) \<leftarrow> l2_cache_access (l2_env c now) (ma_addr (mf_access mf)) p (ucast now) (l2\<lparr>cs_events := []\<rparr>);
         Some ((st, cs_events l2), l2) }) x;
     L2_outcome now p status events x }"

text \<open>A request that is not for the L2 cache goes to the DRAM.\<close>

definition pass_to_dram :: "u64 \<Rightarrow> nat \<Rightarrow> sub_state \<Rightarrow> sub_state option" where
  "pass_to_dram now p = (\<lambda>(s, h). do {
     h \<leftarrow> set_status IN_PARTITION_L2_TO_DRAM_QUEUE now p h;
     q \<leftarrow> fp_push (Some p) (msp_L2_dram_queue s);
     s \<leftarrow> drop_request (s\<lparr>msp_L2_dram_queue := q\<rparr>);
     Some (s, h) })"

text \<open>The request at the head of the queue from the interconnect is offered to the L2 cache or passed on.\<close>

definition to_L2 :: "partition_config \<Rightarrow> u64 \<Rightarrow> sub_state \<Rightarrow> sub_state option" where
  "to_L2 c now = (\<lambda>(s, h).
     if fp_full (msp_L2_dram_queue s) \<or> fp_empty (msp_icnt_L2_queue s) then Some (s, h)
     else do {
       p \<leftarrow> fp_top (msp_icnt_L2_queue s);
       mf \<leftarrow> heap_mf h p;
       (case msp_L2cache s of
          Some l2 \<Rightarrow>
            (if pc_texture_only c \<longrightarrow> istexture mf then
               (if \<not> fp_full (msp_L2_icnt_queue s) \<and> data_port_free (cs_bandwidth l2) then ask_L2 c now p mf (s, h)
                else Some (s, h))
             else pass_to_dram now p (s, h))
        | None \<Rightarrow> pass_to_dram now p (s, h)) })"

text \<open>The delay queue; \<open>cycle\<close> is an \<open>unsigned\<close>, the cycle a request is ready at an \<open>unsigned long long\<close>.\<close>

definition rop_step :: "u64 \<Rightarrow> u32 \<Rightarrow> sub_state \<Rightarrow> sub_state option" where
  "rop_step now cycle = (\<lambda>(s, h). (case msp_rop s of
       [] \<Rightarrow> Some (s, h)
     | (ready_cycle, p) # rest \<Rightarrow>
         if ready_cycle \<le> ucast cycle \<and> \<not> fp_full (msp_icnt_L2_queue s) then do {
           q \<leftarrow> fp_push (Some p) (msp_icnt_L2_queue s);
           h \<leftarrow> set_status IN_PARTITION_ICNT_TO_L2_QUEUE now p h;
           Some (s\<lparr>msp_rop := rest, msp_icnt_L2_queue := q\<rparr>, h) }
         else Some (s, h)))"

definition sub_cache_cycle :: "partition_config \<Rightarrow> u64 \<Rightarrow> u32 \<Rightarrow> sub_state \<Rightarrow> sub_state option" where
  "sub_cache_cycle c now cycle x = do {
     x \<leftarrow> L2_responses now x;
     x \<leftarrow> from_dram now x;
     x \<leftarrow> L2_cycle x;
     x \<leftarrow> to_L2 c now x;
     rop_step now cycle x }"

subsection \<open>The interconnect's side\<close>

definition sub_full :: "memory_sub_partition \<Rightarrow> bool" where
  "sub_full s = fp_full (msp_icnt_L2_queue s)"

definition sub_push :: "partition_config \<Rightarrow> u64 \<Rightarrow> u64 \<Rightarrow> nat option \<Rightarrow> sub_state \<Rightarrow> sub_state option" where
  "sub_push c now cycle req = (\<lambda>(s, h). (case req of
       None \<Rightarrow> Some (s, h)
     | Some p \<Rightarrow> do {
         let s = s\<lparr>msp_request_tracker := insert p (msp_request_tracker s)\<rparr>;
         mf \<leftarrow> heap_mf h p;
         (if istexture mf then do {
            q \<leftarrow> fp_push (Some p) (msp_icnt_L2_queue s);
            h \<leftarrow> set_status IN_PARTITION_ICNT_TO_L2_QUEUE now p h;
            Some (s\<lparr>msp_icnt_L2_queue := q\<rparr>, h) }
          else do {
            h \<leftarrow> set_status IN_PARTITION_ROP_DELAY now p h;
            Some (s\<lparr>msp_rop := msp_rop s @ [(cycle + ucast (pc_rop_latency c), p)]\<rparr>, h) }) }))"

definition is_write_back :: "mem_fetch \<Rightarrow> bool" where
  "is_write_back mf \<longleftrightarrow> ma_type (mf_access mf) = L2_WRBK_ACC \<or> ma_type (mf_access mf) = L1_WRBK_ACC"

definition sub_pop :: "sub_state \<Rightarrow> (nat option \<times> sub_state) option" where
  "sub_pop = (\<lambda>(s, h). do {
     (r, q) \<leftarrow> fp_pop (msp_L2_icnt_queue s);
     let s = s\<lparr>msp_L2_icnt_queue := q\<rparr>;
     (case r of
        None \<Rightarrow> Some (None, s, h)
      | Some p \<Rightarrow> do {
          mf \<leftarrow> heap_mf h p;
          let s = untrack p s;
          (if is_write_back mf then Some (None, s, mf_delete p h) else Some (Some p, s, h)) }) })"

definition sub_top :: "sub_state \<Rightarrow> (nat option \<times> sub_state) option" where
  "sub_top = (\<lambda>(s, h). (case fp_top (msp_L2_icnt_queue s) of
       None \<Rightarrow> Some (None, s, h)
     | Some p \<Rightarrow> do {
         mf \<leftarrow> heap_mf h p;
         (if is_write_back mf then do {
            (_, q) \<leftarrow> fp_pop (msp_L2_icnt_queue s);
            Some (None, untrack p (s\<lparr>msp_L2_icnt_queue := q\<rparr>), mf_delete p h) }
          else Some (Some p, s, h)) }))"

definition sub_flushL2 :: "memory_sub_partition \<Rightarrow> memory_sub_partition" where
  "sub_flushL2 s = s\<lparr>msp_L2cache := map_option cache_flush (msp_L2cache s)\<rparr>"

definition sub_busy :: "memory_sub_partition \<Rightarrow> bool" where
  "sub_busy s \<longleftrightarrow> msp_request_tracker s \<noteq> {}"

subsection \<open>The partition\<close>

record memory_partition_unit =
  mp_id :: u32
  mp_subs :: "memory_sub_partition list"
  mp_dram :: dram_t
  mp_arbitration :: arbitration
  mp_latency_queue :: "(u64 \<times> nat) list"

type_synonym partition_state = "memory_partition_unit \<times> mf_heap"

definition partition_new :: "partition_config \<Rightarrow> u32 \<Rightarrow> memory_partition_unit option" where
  "partition_new c partition_id = do {
     a \<leftarrow> arbitration_new c;
     d \<leftarrow> dram_new (pc_dram c) partition_id;
     subs \<leftarrow> foldM (\<lambda>p ss. do {
         s \<leftarrow> sub_partition_new c (partition_id * m_n_sub_partition_per_memory_channel (pc_dram c) + of_nat p);
         Some (ss @ [s]) }) [0..<n_subs c] [];
     Some \<lparr>mp_id = partition_id, mp_subs = subs, mp_dram = d, mp_arbitration = a, mp_latency_queue = []\<rparr> }"

definition partition_busy :: "memory_partition_unit \<Rightarrow> bool" where
  "partition_busy m \<longleftrightarrow> (\<exists>s \<in> set (mp_subs m). sub_busy s)"

text \<open>An operation of a sub partition.\<close>

definition on_sub :: "nat \<Rightarrow> (sub_state \<Rightarrow> sub_state option) \<Rightarrow> partition_state \<Rightarrow> partition_state option" where
  "on_sub i f = (\<lambda>(m, h). do {
     s \<leftarrow> nth_opt (mp_subs m) i;
     (s, h) \<leftarrow> f (s, h);
     Some (m\<lparr>mp_subs := (mp_subs m)[i := s]\<rparr>, h) })"

definition partition_cache_cycle :: "partition_config \<Rightarrow> u64 \<Rightarrow> u32 \<Rightarrow> partition_state \<Rightarrow> partition_state option" where
  "partition_cache_cycle c now cycle x = foldM (\<lambda>p. on_sub p (sub_cache_cycle c now cycle)) [0..<n_subs c] x"

definition global_sub_partition_id_to_local_id :: "partition_config \<Rightarrow> memory_partition_unit \<Rightarrow> u32 \<Rightarrow> int" where
  "global_sub_partition_id_to_local_id c m g =
     sint (g - mp_id m * m_n_sub_partition_per_memory_channel (pc_dram c))"

text \<open>The sub partition a request belongs to, with the assertion on its number.\<close>

definition home_of :: "partition_config \<Rightarrow> memory_partition_unit \<Rightarrow> mem_fetch \<Rightarrow> nat option" where
  "home_of c m mf = (let g = sub_partition (mf_raw_addr mf); i = global_sub_partition_id_to_local_id c m g in do {
     require (0 \<le> i);
     s \<leftarrow> nth_opt (mp_subs m) (nat i);
     require (msp_id s = g);
     Some (nat i) })"

definition can_issue_to_dram :: "nat \<Rightarrow> memory_partition_unit \<Rightarrow> bool option" where
  "can_issue_to_dram spid m = do {
     s \<leftarrow> nth_opt (mp_subs m) spid;
     credits \<leftarrow> has_credits spid (mp_arbitration m);
     Some (credits \<and> \<not> fp_full (msp_dram_L2_queue s)) }"

text \<open>\<open>memory_partition_unit::set_done\<close>, called by the DRAM for a write-back that it then deletes.\<close>

definition partition_set_done :: "partition_config \<Rightarrow> nat \<Rightarrow> mem_fetch \<Rightarrow> memory_partition_unit \<Rightarrow>
    memory_partition_unit option" where
  "partition_set_done c p mf m = do {
     i \<leftarrow> home_of c m mf;
     a \<leftarrow> (if is_write_back mf then return_credit i (mp_arbitration m) else Some (mp_arbitration m));
     Some (m\<lparr>mp_arbitration := a, mp_subs := (mp_subs m)[i := untrack p (mp_subs m ! i)]\<rparr>) }"

subsection \<open>A cycle of the DRAM clock\<close>

text \<open>The reply at the head of the return queue goes to its sub partition.\<close>

definition return_to_L2 :: "partition_config \<Rightarrow> u64 \<Rightarrow> partition_state \<Rightarrow> partition_state option" where
  "return_to_L2 c now = (\<lambda>(m, h). (case return_queue_top (mp_dram m) of
       None \<Rightarrow> do {
         (_, d) \<leftarrow> return_queue_pop (mp_dram m);
         Some (m\<lparr>mp_dram := d\<rparr>, h) }
     | Some p \<Rightarrow> do {
         mf \<leftarrow> heap_mf h p;
         i \<leftarrow> home_of c m mf;
         (if fp_full (msp_dram_L2_queue (mp_subs m ! i)) then Some (m, h)
          else do {
            (m, h) \<leftarrow> (if ma_type (mf_access mf) = L1_WRBK_ACC
              then Some (m\<lparr>mp_subs := (mp_subs m)[i := untrack p (mp_subs m ! i)]\<rparr>, mf_delete p h)
              else do {
                q \<leftarrow> fp_push (Some p) (msp_dram_L2_queue (mp_subs m ! i));
                h \<leftarrow> set_status IN_PARTITION_DRAM_TO_L2_QUEUE now p h;
                a \<leftarrow> return_credit i (mp_arbitration m);
                Some (m\<lparr>mp_subs := (mp_subs m)[i := (mp_subs m ! i)\<lparr>msp_dram_L2_queue := q\<rparr>], mp_arbitration := a\<rparr>, h) });
            (_, d) \<leftarrow> return_queue_pop (mp_dram m);
            Some (m\<lparr>mp_dram := d\<rparr>, h) }) }))"

text \<open>\<open>m_dram->cycle()\<close> with the call back for a finished write-back, which the controller makes first.\<close>

definition cycle_dram :: "partition_config \<Rightarrow> u64 \<Rightarrow> u64 \<Rightarrow> partition_state \<Rightarrow> partition_state option" where
  "cycle_dram c tot_cycle sim_cycle = (\<lambda>(m, h). do {
     (cmd, fin, d, h) \<leftarrow> dram_cycle (pc_dram c) tot_cycle sim_cycle (mp_dram m, h);
     m \<leftarrow> (case fin of None \<Rightarrow> Some m | Some (p, mf) \<Rightarrow> partition_set_done c p mf m);
     Some (m\<lparr>mp_dram := d\<rparr>, h) })"

text \<open>The loop over the sub partitions, from the one after the last borrower, up to the one that may issue.\<close>

fun pick_sub :: "nat list \<Rightarrow> memory_partition_unit \<Rightarrow> nat option option" where
  "pick_sub [] m = Some None"
| "pick_sub (p # ps) m = (let spid = (p + m_last_borrower (mp_arbitration m) + 1) mod length (mp_subs m) in do {
     s \<leftarrow> nth_opt (mp_subs m) spid;
     ready \<leftarrow> (if fp_empty (msp_L2_dram_queue s) then Some False else can_issue_to_dram spid m);
     (if ready then Some (Some spid) else pick_sub ps m) })"

definition enter_latency_queue :: "partition_config \<Rightarrow> u64 \<Rightarrow> nat \<Rightarrow> partition_state \<Rightarrow> partition_state option" where
  "enter_latency_queue c now spid = (\<lambda>(m, h). do {
     s \<leftarrow> nth_opt (mp_subs m) spid;
     p \<leftarrow> fp_top (msp_L2_dram_queue s);
     (_, q) \<leftarrow> fp_pop (msp_L2_dram_queue s);
     h \<leftarrow> set_status IN_PARTITION_DRAM_LATENCY_QUEUE now p h;
     a \<leftarrow> borrow_credit spid (mp_arbitration m);
     Some (m\<lparr>mp_subs := (mp_subs m)[spid := s\<lparr>msp_L2_dram_queue := q\<rparr>], mp_arbitration := a,
       mp_latency_queue := mp_latency_queue m @ [(now + ucast (pc_dram_latency c), p)]\<rparr>, h) })"

definition arbitrate :: "partition_config \<Rightarrow> u64 \<Rightarrow> partition_state \<Rightarrow> partition_state option" where
  "arbitrate c now = (\<lambda>(m, h). do {
     full \<leftarrow> dram_full (pc_dram c) (mp_dram m);
     (if full then Some (m, h)
      else do {
        r \<leftarrow> pick_sub [0..<n_subs c] m;
        (case r of None \<Rightarrow> Some (m, h) | Some spid \<Rightarrow> enter_latency_queue c now spid (m, h)) }) })"

definition leave_latency_queue :: "partition_config \<Rightarrow> u64 \<Rightarrow> u64 \<Rightarrow> partition_state \<Rightarrow> partition_state option" where
  "leave_latency_queue c tot_cycle sim_cycle = (\<lambda>(m, h). (case mp_latency_queue m of
       [] \<Rightarrow> Some (m, h)
     | (ready_cycle, p) # rest \<Rightarrow>
         if sim_cycle + tot_cycle < ready_cycle then Some (m, h)
         else do {
           full \<leftarrow> dram_full (pc_dram c) (mp_dram m);
           (if full then Some (m, h)
            else do {
              (d, h) \<leftarrow> dram_push (pc_dram c) tot_cycle sim_cycle p (mp_dram m, h);
              Some (m\<lparr>mp_dram := d, mp_latency_queue := rest\<rparr>, h) }) }))"

definition partition_dram_cycle :: "partition_config \<Rightarrow> u64 \<Rightarrow> u64 \<Rightarrow> partition_state \<Rightarrow> partition_state option" where
  "partition_dram_cycle c tot_cycle sim_cycle x = do {
     x \<leftarrow> return_to_L2 c (sim_cycle + tot_cycle) x;
     x \<leftarrow> cycle_dram c tot_cycle sim_cycle x;
     x \<leftarrow> arbitrate c (sim_cycle + tot_cycle) x;
     leave_latency_queue c tot_cycle sim_cycle x }"

end
