(* ===== verification/Dram_Timing.thy ===== *)
theory Dram_Timing
  imports Dram
begin

text \<open>
  What the command stream of the DRAM controller obeys: the row protocol of the banks, as a
  refinement of an automaton of open rows, and the timing parameters, as a bound on the distance
  of every pair of commands. Both rest on the view of the controller that decides on
  commands, which the queues and schedulers leave alone.
\<close>

subsection \<open>The view of the controller that decides on commands\<close>

definition strip :: "bank_t \<Rightarrow> bank_t" where
  "strip x = x\<lparr>bk_mrq := None, n_access := 0, n_idle := 0\<rparr>"

type_synonym core_view = "u32 \<times> u32 \<times> u32 \<times> u32 \<times> bankgrp_t list \<times> bank_t list"

definition core_view :: "dram_t \<Rightarrow> core_view" where
  "core_view d = (RRDc d, CCDc d, RTWc d, WTRc d, bkgrp d, map strip (banks d))"

lemma strip_fields [simp]:
  "RCDc (strip x) = RCDc x" "RCDWRc (strip x) = RCDWRc x" "RASc (strip x) = RASc x" "RPc (strip x) = RPc x"
  "RCc (strip x) = RCc x" "WTPc (strip x) = WTPc x" "RTPc (strip x) = RTPc x" "bk_active (strip x) = bk_active x"
  "curr_row (strip x) = curr_row x"
  by (simp_all add: strip_def)

lemma core_view_count [simp]: "core_view (count f d) = core_view d"
  by (simp add: core_view_def count_def)

lemma core_view_update [simp]:
  "core_view (d\<lparr>reqs := q\<rparr>) = core_view d" "core_view (d\<lparr>rwq := w\<rparr>) = core_view d"
  "core_view (d\<lparr>mrqq := w\<rparr>) = core_view d" "core_view (d\<lparr>returnq := w\<rparr>) = core_view d"
  "core_view (d\<lparr>frfcfs := s\<rparr>) = core_view d" "core_view (d\<lparr>prio := n\<rparr>) = core_view d"
  "core_view (d\<lparr>max_mrqs := u\<rparr>) = core_view d" "core_view (d\<lparr>max_mrqs_temp := u\<rparr>) = core_view d"
  "core_view (d\<lparr>next_req := n\<rparr>) = core_view d" "core_view (d\<lparr>rw_write := b\<rparr>) = core_view d"
  "core_view (d\<lparr>n_rd := u\<rparr>) = core_view d" "core_view (d\<lparr>n_wr := u\<rparr>) = core_view d"
  by (simp_all add: core_view_def)

lemma update_bank_view:
  assumes "update_bank b f d = Some d'" and "\<And>x. strip (f x) = strip x"
  shows "core_view d' = core_view d"
proof -
  have "(map strip (banks d))[b := strip (banks d ! b)] = map strip (banks d)"
    by (metis list_update_id map_update)
  with assms show ?thesis
    by (auto simp: update_bank_def core_view_def map_update split: if_splits)
qed

lemma update_req_view: "update_req r f d = Some d' \<Longrightarrow> core_view d' = core_view d"
  by (auto simp: update_req_def bind_eq_Some_iff)

lemma data_burst_view:
  assumes "data_burst c now (d, h) = Some (m, d', h')"
  shows "core_view d' = core_view d"
proof (cases "fp_full (returnq d)")
  case True
  with assms show ?thesis by (simp add: data_burst_def)
next
  case False
  with assms obtain r q where pop: "fp_pop (rwq d) = Some (r, q)"
    by (auto simp: data_burst_def bind_eq_Some_iff)
  show ?thesis
  proof (cases r)
    case None
    with assms False pop show ?thesis by (auto simp: data_burst_def)
  next
    case (Some r')
    with assms False pop obtain d1
      where d1: "update_req r' (\<lambda>q. q\<lparr>dr_dqbytes := dr_dqbytes q + dram_atom_size c\<rparr>) (d\<lparr>rwq := q\<rparr>) = Some d1"
        and d': "d' = d1 \<or> (\<exists>rs. d' = d1\<lparr>reqs := rs\<rparr>) \<or> (\<exists>rs q. d' = d1\<lparr>reqs := rs, returnq := q\<rparr>)"
      by (auto simp: data_burst_def bind_eq_Some_iff Let_def split: if_splits)
    have "core_view d1 = core_view d" using update_req_view [OF d1] by simp
    with d' show ?thesis by auto
  qed
qed

lemma scheduler_fifo_view:
  assumes "scheduler_fifo now (d, h) = Some (d', h')"
  shows "core_view d' = core_view d"
proof -
  have "d' = d \<or> (\<exists>b r q. update_bank b (\<lambda>x. x\<lparr>bk_mrq := r\<rparr>) (d\<lparr>mrqq := q\<rparr>) = Some d')"
    using assms by (auto simp: scheduler_fifo_def bind_eq_Some_iff split: if_splits)
  then show ?thesis
    using update_bank_view [of _ "\<lambda>x. x\<lparr>bk_mrq := r\<rparr>" for r] by (fastforce simp: strip_def)
qed

lemma fill_scheduler_view: "fill_scheduler fuel c now (d, h) = Some (d', h') \<Longrightarrow> core_view d' = core_view d"
proof (induction fuel arbitrary: d h)
  case 0
  then show ?case by (subst (asm) fill_scheduler.simps) (auto simp: bind_eq_Some_iff split: if_splits)
next
  case (Suc fuel)
  show ?case
  proof (cases "d' = d")
    case False
    with Suc.prems obtain q s h1 where
      "fill_scheduler fuel c now (d\<lparr>mrqq := q, frfcfs := Some s\<rparr>, h1) = Some (d', h')"
      by (subst (asm) fill_scheduler.simps) (auto simp: bind_eq_Some_iff split: if_splits)
    from Suc.IH [OF this] show ?thesis by simp
  qed simp
qed

lemma offer_banks_view: "offer_banks c tot sim is (d, h) = Some (d', h') \<Longrightarrow> core_view d' = core_view d"
proof (induction "is" arbitrary: d h)
  case (Cons i "is")
  let ?b = "(i + prio d) mod nbk c"
  from Cons.prems obtain x where "nth_opt (banks d) ?b = Some x"
    by (auto simp: Let_def split: if_splits)
  show ?case
  proof (cases "offer_banks c tot sim is (d, h) = Some (d', h')")
    case True
    then show ?thesis by (rule Cons.IH)
  next
    case False
    with Cons.prems obtain s0 r s where
      r: "schedule sim (reqs d) ?b (curr_row (banks d ! ?b)) s0 = Some (r, s)" "frfcfs d = Some s0"
      by (auto simp: Let_def bind_eq_Some_iff split: if_splits)
    show ?thesis
    proof (cases r)
      case None
      with Cons.prems False r have "offer_banks c tot sim is (d\<lparr>frfcfs := Some s\<rparr>, h) = Some (d', h')"
        by (auto simp: Let_def split: if_splits)
      from Cons.IH [OF this] show ?thesis by simp
    next
      case (Some r)
      with Cons.prems False \<open>schedule _ _ _ _ _ = _\<close> \<open>frfcfs d = _\<close> obtain d1
        where d1: "update_bank ?b (\<lambda>x. x\<lparr>bk_mrq := Some r\<rparr>) (d\<lparr>frfcfs := Some s, prio := (prio d + 1) mod nbk c\<rparr>) = Some d1"
          and d': "(if gpgpu_memlatency_stat c then update_req r (\<lambda>q. q\<lparr>dr_timestamp := ucast (tot + sim)\<rparr>) d1
            else Some d1) = Some d'"
        by (auto simp: Let_def bind_eq_Some_iff split: if_splits)
      have "core_view d1 = core_view d"
        using update_bank_view [OF d1] by (simp add: strip_def)
      with d' show ?thesis by (auto dest: update_req_view split: if_splits)
    qed
  qed
qed simp

lemma scheduler_frfcfs_view: "scheduler_frfcfs c tot sim (d, h) = Some (d', h') \<Longrightarrow> core_view d' = core_view d"
  by (auto simp: scheduler_frfcfs_def bind_eq_Some_iff dest!: fill_scheduler_view offer_banks_view)

lemma sample_queue_view: "sample_queue c d = Some d' \<Longrightarrow> core_view d' = core_view d"
  by (auto simp: sample_queue_def bind_eq_Some_iff)

subsection \<open>The effect of a command on the view\<close>

fun cmd_bank :: "dram_cmd \<Rightarrow> nat" where
  "cmd_bank (RD j r) = j"
| "cmd_bank (WR j r) = j"
| "cmd_bank (ACT j r) = j"
| "cmd_bank (PRE j) = j"

fun cmd_effect :: "dram_config \<Rightarrow> dram_cmd \<Rightarrow> core_view \<Rightarrow> core_view" where
  "cmd_effect c (RD j r) (rrd, ccd, rtw, wtr, gs, bs) = (let g = group_of c j in
     (rrd, tCCD c, tRTW c, wtr, gs[g := (gs ! g)\<lparr>CCDLc := tCCDL c, RTPLc := tRTPL c\<rparr>],
      bs[j := (bs ! j)\<lparr>RTPc := burst_cycles c\<rparr>]))"
| "cmd_effect c (WR j r) (rrd, ccd, rtw, wtr, gs, bs) = (let g = group_of c j in
     (rrd, tCCD c, rtw, tWTR c, gs[g := (gs ! g)\<lparr>CCDLc := tCCDL c\<rparr>], bs[j := (bs ! j)\<lparr>WTPc := tWTP c\<rparr>]))"
| "cmd_effect c (ACT j r) (rrd, ccd, rtw, wtr, gs, bs) =
     (tRRD c, ccd, rtw, wtr, gs, bs[j := (bs ! j)\<lparr>curr_row := r, bk_active := True, RCDc := tRCD c,
        RCDWRc := tRCDWR c, RASc := tRAS c, RCc := tRC c\<rparr>])"
| "cmd_effect c (PRE j) (rrd, ccd, rtw, wtr, gs, bs) =
     (rrd, ccd, rtw, wtr, gs, bs[j := (bs ! j)\<lparr>bk_active := False, RPc := tRP c\<rparr>])"

text \<open>The counters that hold a command back.\<close>

fun blocks :: "dram_config \<Rightarrow> core_view \<Rightarrow> dram_cmd \<Rightarrow> nat" where
  "blocks c (rrd, ccd, rtw, wtr, gs, bs) (RD j r) =
     max (max (unat ccd) (unat wtr)) (max (unat (RCDc (bs ! j))) (unat (CCDLc (gs ! group_of c j))))"
| "blocks c (rrd, ccd, rtw, wtr, gs, bs) (WR j r) =
     max (max (unat ccd) (unat rtw)) (max (unat (RCDWRc (bs ! j))) (unat (CCDLc (gs ! group_of c j))))"
| "blocks c (rrd, ccd, rtw, wtr, gs, bs) (ACT j r) =
     max (unat rrd) (max (unat (RPc (bs ! j))) (unat (RCc (bs ! j))))"
| "blocks c (rrd, ccd, rtw, wtr, gs, bs) (PRE j) =
     max (max (unat (RASc (bs ! j))) (unat (WTPc (bs ! j)))) (max (unat (RTPc (bs ! j))) (unat (RTPLc (gs ! group_of c j))))"

fun row_ready :: "core_view \<Rightarrow> dram_cmd \<Rightarrow> bool" where
  "row_ready (rrd, ccd, rtw, wtr, gs, bs) (RD j r) \<longleftrightarrow> bk_active (bs ! j) \<and> curr_row (bs ! j) = r"
| "row_ready (rrd, ccd, rtw, wtr, gs, bs) (WR j r) \<longleftrightarrow> bk_active (bs ! j) \<and> curr_row (bs ! j) = r"
| "row_ready (rrd, ccd, rtw, wtr, gs, bs) (ACT j r) \<longleftrightarrow> \<not> bk_active (bs ! j)"
| "row_ready (rrd, ccd, rtw, wtr, gs, bs) (PRE j) \<longleftrightarrow> bk_active (bs ! j)"

definition legal :: "dram_config \<Rightarrow> core_view \<Rightarrow> dram_cmd \<Rightarrow> bool" where
  "legal c v e \<longleftrightarrow> cmd_bank e < length (snd (snd (snd (snd (snd v))))) \<and>
     group_of c (cmd_bank e) < length (fst (snd (snd (snd (snd v))))) \<and> blocks c v e = 0 \<and> row_ready v e"

lemma update_group_view:
  "update_group g f d = Some d' \<Longrightarrow> g < length (bkgrp d) \<and>
    core_view d' = (RRDc d, CCDc d, RTWc d, WTRc d, (bkgrp d)[g := f (bkgrp d ! g)], map strip (banks d))"
  by (auto simp: update_group_def core_view_def split: if_splits)

lemma update_bank_effect:
  assumes "update_bank b f d = Some d'" and "\<And>x. strip (f x) = f' (strip x)"
  shows "b < length (banks d) \<and> core_view d' = (RRDc d, CCDc d, RTWc d, WTRc d, bkgrp d,
    (map strip (banks d))[b := f' (strip (banks d ! b))])"
  using assms by (auto simp: update_bank_def core_view_def map_update split: if_splits)

lemma core_view_eq:
  "core_view d = (rrd, ccd, rtw, wtr, gs, bs) \<longleftrightarrow> rrd = RRDc d \<and> ccd = CCDc d \<and> rtw = RTWc d \<and> wtr = WTRc d \<and>
    gs = bkgrp d \<and> bs = map strip (banks d)"
  by (auto simp: core_view_def)

lemma issue_activate_view:
  assumes "issue_activate c j req d = Some d'"
  shows "core_view d' = cmd_effect c (ACT j (dr_row req)) (core_view d)"
proof -
  let ?f = "\<lambda>x. x\<lparr>curr_row := dr_row req, bk_active := True, RCDc := tRCD c, RCDWRc := tRCDWR c,
    RASc := tRAS c, RCc := tRC c\<rparr>"
  obtain d1 where d1: "update_bank j ?f (d\<lparr>RRDc := tRRD c\<rparr>) = Some d1"
    and d': "d' = count (\<lambda>k. k\<lparr>n_act := n_act k + 1\<rparr>) (d1\<lparr>prio := (j + 1) mod nbk c\<rparr>)"
    using assms by (auto simp: issue_activate_def bind_eq_Some_iff)
  have "strip (?f x) = ?f (strip x)" for x by (simp add: strip_def)
  from update_bank_effect [OF d1 this] show ?thesis by (simp add: d') (simp add: core_view_def)
qed

lemma issue_precharge_view:
  assumes "issue_precharge c j d = Some d'"
  shows "core_view d' = cmd_effect c (PRE j) (core_view d)"
proof -
  let ?f = "\<lambda>x. x\<lparr>bk_active := False, RPc := tRP c\<rparr>"
  obtain d1 where d1: "update_bank j ?f d = Some d1"
    and d': "d' = count (\<lambda>k. k\<lparr>n_pre := n_pre k + 1\<rparr>) (d1\<lparr>prio := (j + 1) mod nbk c\<rparr>)"
    using assms by (auto simp: issue_precharge_def bind_eq_Some_iff)
  have "strip (?f x) = ?f (strip x)" for x by (simp add: strip_def)
  from update_bank_effect [OF d1 this] show ?thesis by (simp add: d') (simp add: core_view_def)
qed

lemma start_timers_view:
  assumes "start_timers c j wr d = Some d'"
  shows "core_view d' = cmd_effect c (if wr then WR j line else RD j line) (core_view d)"
proof -
  let ?g = "group_of c j"
  obtain d1 where d1: "update_group ?g (\<lambda>g. g\<lparr>CCDLc := tCCDL c\<rparr>) (d\<lparr>CCDc := tCCD c\<rparr>) = Some d1"
    using assms by (auto simp: start_timers_def bind_eq_Some_iff)
  note v1 = update_group_view [OF d1, unfolded core_view_eq]
  show ?thesis
  proof (cases wr)
    case True
    with assms d1 obtain d2 where d2: "update_bank j (\<lambda>x. x\<lparr>WTPc := tWTP c\<rparr>) (d1\<lparr>WTRc := tWTR c\<rparr>) = Some d2"
      and "d' = d2\<lparr>n_wr := n_wr d2 + 1\<rparr>"
      by (auto simp: start_timers_def bind_eq_Some_iff)
    moreover have "strip (x\<lparr>WTPc := tWTP c\<rparr>) = (strip x)\<lparr>WTPc := tWTP c\<rparr>" for x by (simp add: strip_def)
    note update_bank_effect [OF d2 this]
    ultimately show ?thesis
      using v1 True by (simp add: core_view_eq) (simp add: core_view_def Let_def)
  next
    case False
    with assms d1 obtain d2 d3 where d2: "update_bank j (\<lambda>x. x\<lparr>RTPc := burst_cycles c, n_access := n_access x + 1\<rparr>)
        (d1\<lparr>RTWc := tRTW c\<rparr>) = Some d2"
      and d3: "update_group ?g (\<lambda>g. g\<lparr>RTPLc := tRTPL c\<rparr>) d2 = Some d3" and "d' = d3\<lparr>n_rd := n_rd d3 + 1\<rparr>"
      by (auto simp: start_timers_def bind_eq_Some_iff)
    moreover have "strip (x\<lparr>RTPc := burst_cycles c, n_access := n_access x + 1\<rparr>) = (strip x)\<lparr>RTPc := burst_cycles c\<rparr>" for x
      by (simp add: strip_def)
    from update_bank_effect [OF d2 this] have
      "RRDc d2 = RRDc d" "CCDc d2 = tCCD c" "RTWc d2 = tRTW c" "WTRc d2 = WTRc d" "?g < length (bkgrp d)"
      "bkgrp d2 = (bkgrp d)[?g := (bkgrp d ! ?g)\<lparr>CCDLc := tCCDL c\<rparr>]"
      "map strip (banks d2) = (map strip (banks d))[j := (map strip (banks d) ! j)\<lparr>RTPc := burst_cycles c\<rparr>]"
      using v1 by (auto simp: core_view_eq)
    ultimately show ?thesis
      using update_group_view [OF d3] False by (simp add: core_view_def Let_def)
  qed
qed

lemma issue_column_view:
  assumes "issue_column c j r wr d = Some d'"
  shows "core_view d' = cmd_effect c (if wr then WR j line else RD j line) (core_view d)"
proof -
  obtain q d1 d2 and req :: dram_req where d1: "update_req r (\<lambda>q. q\<lparr>dr_txbytes := dr_txbytes q + dram_atom_size c\<rparr>)
      (d\<lparr>rw_write := wr, rwq := q\<rparr>) = Some d1"
    and d2: "start_timers c j wr d1 = Some d2"
    and d': "(if \<not> dr_txbytes req < dr_nbytes req then update_bank j (\<lambda>x. x\<lparr>bk_mrq := None\<rparr>)
        (count (\<lambda>k. k\<lparr>bwutil := bwutil k + burst_cycles c\<rparr>) d2)
      else Some (count (\<lambda>k. k\<lparr>bwutil := bwutil k + burst_cycles c\<rparr>) d2)) = Some d'"
    using assms unfolding issue_column_def bind_eq_Some_iff Let_def by blast
  have "core_view d' = core_view d2"
    using d' update_bank_view [of j "\<lambda>x. x\<lparr>bk_mrq := None\<rparr>"] by (auto simp: strip_def split: if_splits)
  also have "\<dots> = cmd_effect c (if wr then WR j line else RD j line) (core_view d1)"
    by (rule start_timers_view [OF d2])
  also have "core_view d1 = core_view d"
    using update_req_view [OF d1] by simp
  finally show ?thesis .
qed

subsection \<open>One command per cycle\<close>

text \<open>The loop over the banks: until a command is issued the view is untouched, then it is its effect.\<close>

definition issued_ok :: "dram_config \<Rightarrow> core_view \<Rightarrow> issue_state \<Rightarrow> bool" where
  "issued_ok c v = (\<lambda>(d, h, issued, k). case issued of
     None \<Rightarrow> core_view d = v
   | Some e \<Rightarrow> legal c v e \<and> core_view d = cmd_effect c e v)"

lemma update_bank_length: "update_bank b f d = Some d' \<Longrightarrow> b < length (banks d)"
  by (auto simp: update_bank_def split: if_splits)

lemma core_view_lengths:
  "core_view d = core_view d' \<Longrightarrow> length (banks d) = length (banks d')"
  by (simp add: core_view_def) (metis length_map)

lemma bank_step_issued:
  assumes "bank_step c now i (d, h, issued, k) = Some st" and "issued_ok c v (d, h, issued, k)"
  shows "issued_ok c v st"
proof -
  let ?j = "(i + prio d) mod nbk c"
  from assms(1) have j: "?j < length (banks d)"
    by (auto simp: bank_step_def Let_def split: if_splits)
  let ?x = "banks d ! ?j"
  show ?thesis
  proof (cases "bk_mrq ?x")
    case None
    with assms(1) j obtain d1 k1 where d1: "update_bank ?j (\<lambda>x. x\<lparr>n_idle := n_idle x + 1\<rparr>) d = Some d1"
      and st: "st = (d1, h, issued, k1)"
      by (auto simp: bank_step_def Let_def bind_eq_Some_iff)
    have "core_view d1 = core_view d"
      using update_bank_view [OF d1] by (simp add: strip_def)
    with assms(2) show ?thesis by (cases issued) (simp_all add: issued_ok_def st)
  next
    case (Some r)
    let ?g = "bkgrp d ! group_of c ?j"
    from assms(1) j Some have g: "group_of c ?j < length (bkgrp d)"
      by (auto simp: bank_step_def Let_def split: if_splits)
    from assms(1) j Some g obtain req :: dram_req where req: "reqs d r = Some req"
      by (cases "reqs d r") (auto simp: bank_step_def Let_def)
    from assms(1) j Some g req obtain h1 where h1: "req_status IN_PARTITION_DRAM now r d h = Some h1"
      by (cases "req_status IN_PARTITION_DRAM now r d h") (auto simp: bank_step_def Let_def)
    have view: "core_view d = (RRDc d, CCDc d, RTWc d, WTRc d, bkgrp d, map strip (banks d))"
      by (simp add: core_view_def)
    show ?thesis
    proof (cases issued)
      case (Some e)
      with assms(1) j \<open>bk_mrq ?x = Some r\<close> g req h1 have "st = (d, h1, issued, k)"
        by (simp add: bank_step_def Let_def)
      with assms(2) show ?thesis by (simp add: issued_ok_def)
    next
      case None
      with assms(2) have v: "v = core_view d" by (simp add: issued_ok_def)
      have pick: "issued_ok c v (d1, h1, Some e, k)" if "core_view d1 = cmd_effect c e v" "legal c v e" for d1 e
        using that by (simp add: issued_ok_def)
      let ?rd = "CCDc d = 0 \<and> RCDc ?x = 0 \<and> CCDLc ?g = 0 \<and> curr_row ?x = dr_row req \<and>
        \<not> dr_write req \<and> WTRc d = 0 \<and> bk_active ?x \<and> \<not> fp_full (rwq d)"
      let ?wr = "CCDc d = 0 \<and> RCDWRc ?x = 0 \<and> CCDLc ?g = 0 \<and> curr_row ?x = dr_row req \<and>
        dr_write req \<and> RTWc d = 0 \<and> bk_active ?x \<and> \<not> fp_full (rwq d)"
      let ?act = "RRDc d = 0 \<and> \<not> bk_active ?x \<and> RPc ?x = 0 \<and> RCc ?x = 0"
      let ?pre = "curr_row ?x \<noteq> dr_row req \<and> bk_active ?x \<and> RASc ?x = 0 \<and> WTPc ?x = 0 \<and>
        RTPc ?x = 0 \<and> RTPLc ?g = 0"
      have step: "bank_step c now i (d, h, None, k) =
          (if ?rd then issue_column c ?j r False d \<bind> (\<lambda>d. Some (d, h1, Some (RD ?j (dr_row req)), k))
           else if ?wr then issue_column c ?j r True d \<bind> (\<lambda>d. Some (d, h1, Some (WR ?j (dr_row req)), k))
           else if ?act then issue_activate c ?j req d \<bind> (\<lambda>d. Some (d, h1, Some (ACT ?j (dr_row req)), k))
           else if ?pre then issue_precharge c ?j d \<bind> (\<lambda>d. Some (d, h1, Some (PRE ?j), k))
           else Some (d, h1, None, k))"
        using j \<open>bk_mrq ?x = Some r\<close> g req h1 by (simp add: bank_step_def Let_def)
      note st' = assms(1) [unfolded None step]
      consider ?rd | "\<not> ?rd" ?wr | "\<not> ?rd" "\<not> ?wr" ?act | "\<not> ?rd" "\<not> ?wr" "\<not> ?act" ?pre
        | "\<not> ?rd" "\<not> ?wr" "\<not> ?act" "\<not> ?pre" by argo
      then show ?thesis
      proof cases
        case 1
        obtain d1 where d1: "issue_column c ?j r False d = Some d1"
          and st: "st = (d1, h1, Some (RD ?j (dr_row req)), k)"
          using st' [unfolded if_P [OF 1]] by (auto simp: bind_eq_Some_iff)
        have "legal c v (RD ?j (dr_row req))" using 1 j g by (simp add: v legal_def view)
        with pick issue_column_view [OF d1, where line = "dr_row req"] show ?thesis by (simp add: st v)
      next
        case 2
        obtain d1 where d1: "issue_column c ?j r True d = Some d1"
          and st: "st = (d1, h1, Some (WR ?j (dr_row req)), k)"
          using st' [unfolded if_not_P [OF 2(1)] if_P [OF 2(2)]] by (auto simp: bind_eq_Some_iff)
        have "legal c v (WR ?j (dr_row req))" using 2 j g by (simp add: v legal_def view)
        with pick issue_column_view [OF d1, where line = "dr_row req"] show ?thesis by (simp add: st v)
      next
        case 3
        obtain d1 where d1: "issue_activate c ?j req d = Some d1"
          and st: "st = (d1, h1, Some (ACT ?j (dr_row req)), k)"
          using st' [unfolded if_not_P [OF 3(1)] if_not_P [OF 3(2)] if_P [OF 3(3)]] by (auto simp: bind_eq_Some_iff)
        have "legal c v (ACT ?j (dr_row req))" using 3 j g by (simp add: v legal_def view)
        with pick issue_activate_view [OF d1] show ?thesis by (simp add: st v)
      next
        case 4
        obtain d1 where d1: "issue_precharge c ?j d = Some d1"
          and st: "st = (d1, h1, Some (PRE ?j), k)"
          using st' [unfolded if_not_P [OF 4(1)] if_not_P [OF 4(2)] if_not_P [OF 4(3)] if_P [OF 4(4)]] by (auto simp: bind_eq_Some_iff)
        have "legal c v (PRE ?j)" using 4 j g by (simp add: v legal_def view)
        with pick issue_precharge_view [OF d1] show ?thesis by (simp add: st v)
      next
        case 5
        have "st = (d, h1, None, k)"
          using st' [unfolded if_not_P [OF 5(1)] if_not_P [OF 5(2)] if_not_P [OF 5(3)] if_not_P [OF 5(4)]] by simp
        then show ?thesis by (simp add: v issued_ok_def)
      qed
    qed
  qed
qed

lemma banks_issued:
  assumes "foldM (bank_step c now) is (d, h, None, k) = Some (d', h', issued, k')"
  shows "issued_ok c (core_view d) (d', h', issued, k')"
proof (rule foldM_invariant [OF assms, where P = "issued_ok c (core_view d)"])
  show "issued_ok c (core_view d) (d, h, None, k)" by (simp add: issued_ok_def)
  show "issued_ok c (core_view d) s'" if "issued_ok c (core_view d) s" "bank_step c now i s = Some s'" for i s s'
    using bank_step_issued that by (cases s) blast
qed

fun tick_view :: "core_view \<Rightarrow> core_view" where
  "tick_view (rrd, ccd, rtw, wtr, gs, bs) = (dec2zero rrd, dec2zero ccd, dec2zero rtw, dec2zero wtr,
     map tick_group gs, map tick_bank bs)"

lemma tick_core_view: "core_view (tick d) = tick_view (core_view d)"
  by (simp add: tick_def core_view_def tick_bank_def strip_def)

text \<open>A cycle: the command it issues is legal before it, and the view after it is its effect, one tick later.\<close>

lemma dram_cycle_view:
  assumes "dram_cycle c tot sim (d, h) = Some (cmd, fin, d', h')"
  shows "(case cmd of None \<Rightarrow> core_view d' = tick_view (core_view d)
    | Some e \<Rightarrow> legal c (core_view d) e \<and> core_view d' = tick_view (cmd_effect c e (core_view d)))"
proof -
  let ?now = "sim + tot"
  obtain d1 h1 d2 h2 d3 d4 k where
    d1: "data_burst c ?now (d, h) = Some (fin, d1, h1)"
    and d2: "(case scheduler_type c of DRAM_FIFO \<Rightarrow> scheduler_fifo ?now (d1, h1)
       | DRAM_FRFCFS \<Rightarrow> scheduler_frfcfs c tot sim (d1, h1)) = Some (d2, h2)"
    and d3: "sample_queue c d2 = Some d3"
    and d4: "foldM (bank_step c ?now) [0..<nbk c] (d3, h2, None, nbk c) = Some (d4, h', cmd, k)"
    and d': "core_view d' = tick_view (core_view d4)"
    using assms by (auto simp: dram_cycle_def Let_def bind_eq_Some_iff tick_core_view split: if_splits)
  have "core_view d2 = core_view d1"
    using d2 by (cases "scheduler_type c") (auto dest: scheduler_fifo_view scheduler_frfcfs_view)
  with data_burst_view [OF d1] sample_queue_view [OF d3] have "core_view d3 = core_view d" by simp
  with banks_issued [OF d4] d' show ?thesis
    by (cases cmd) (simp_all add: issued_ok_def)
qed

subsection \<open>The row protocol\<close>

definition open_rows :: "dram_t \<Rightarrow> nat \<Rightarrow> u32 option" where
  "open_rows d j = (if j < length (banks d) \<and> bk_active (banks d ! j) then Some (curr_row (banks d ! j)) else None)"

text \<open>
  The protocol of a DRAM as an automaton over the open row of every bank: a row is activated only in
  a bank without an open row, a column is read or written only in the open row, and
  a precharge closes the open row.
\<close>

inductive row_step :: "(nat \<Rightarrow> u32 option) \<Rightarrow> dram_cmd option \<Rightarrow> (nat \<Rightarrow> u32 option) \<Rightarrow> bool" where
  nop: "row_step rows None rows"
| column_read: "rows j = Some r \<Longrightarrow> row_step rows (Some (RD j r)) rows"
| column_write: "rows j = Some r \<Longrightarrow> row_step rows (Some (WR j r)) rows"
| activate: "rows j = None \<Longrightarrow> row_step rows (Some (ACT j r)) (rows(j := Some r))"
| precharge: "rows j = Some r \<Longrightarrow> row_step rows (Some (PRE j)) (rows(j := None))"

inductive_simps row_step_simps [simp]:
  "row_step rows None rows'"
  "row_step rows (Some (RD j r)) rows'"
  "row_step rows (Some (WR j r)) rows'"
  "row_step rows (Some (ACT j r)) rows'"
  "row_step rows (Some (PRE j)) rows'"

definition view_rows :: "core_view \<Rightarrow> nat \<Rightarrow> u32 option" where
  "view_rows = (\<lambda>(rrd, ccd, rtw, wtr, gs, bs) j.
     if j < length bs \<and> bk_active (bs ! j) then Some (curr_row (bs ! j)) else None)"

lemma open_rows_view: "open_rows d = view_rows (core_view d)"
  by (rule ext) (simp add: open_rows_def view_rows_def core_view_def)

lemma view_rows_tick: "view_rows (tick_view v) = view_rows v"
  by (cases v) (auto simp: view_rows_def tick_bank_def fun_eq_iff)

lemma legal_row_step: "legal c v e \<Longrightarrow> row_step (view_rows v) (Some e) (view_rows (cmd_effect c e v))"
  by (cases v; cases e)
    (auto simp: legal_def view_rows_def Let_def fun_eq_iff nth_list_update split: if_splits)

subsection \<open>The distance of commands\<close>

text \<open>Every counter is at most the parameter that it is started with.\<close>

definition group_ok :: "dram_config \<Rightarrow> bankgrp_t \<Rightarrow> bool" where
  "group_ok c g \<longleftrightarrow> CCDLc g \<le> tCCDL c \<and> RTPLc g \<le> tRTPL c"

definition bank_ok :: "dram_config \<Rightarrow> bank_t \<Rightarrow> bool" where
  "bank_ok c x \<longleftrightarrow> RCDc x \<le> tRCD c \<and> RCDWRc x \<le> tRCDWR c \<and> RASc x \<le> tRAS c \<and> RPc x \<le> tRP c \<and>
     RCc x \<le> tRC c \<and> WTPc x \<le> tWTP c \<and> RTPc x \<le> burst_cycles c"

fun counters_ok :: "dram_config \<Rightarrow> core_view \<Rightarrow> bool" where
  "counters_ok c (rrd, ccd, rtw, wtr, gs, bs) \<longleftrightarrow> rrd \<le> tRRD c \<and> ccd \<le> tCCD c \<and> rtw \<le> tRTW c \<and>
     wtr \<le> tWTR c \<and> list_all (group_ok c) gs \<and> list_all (bank_ok c) bs"

text \<open>The distance that the timing parameters demand of a command and a later one.\<close>

fun min_gap :: "dram_config \<Rightarrow> dram_cmd \<Rightarrow> dram_cmd \<Rightarrow> nat" where
  "min_gap c (ACT i r) (RD j s) = (if i = j then unat (tRCD c) else 0)"
| "min_gap c (ACT i r) (WR j s) = (if i = j then unat (tRCDWR c) else 0)"
| "min_gap c (ACT i r) (PRE j) = (if i = j then unat (tRAS c) else 0)"
| "min_gap c (ACT i r) (ACT j s) = max (unat (tRRD c)) (if i = j then unat (tRC c) else 0)"
| "min_gap c (PRE i) (ACT j s) = (if i = j then unat (tRP c) else 0)"
| "min_gap c (PRE i) l = 0"
| "min_gap c (RD i r) (RD j s) = max (unat (tCCD c)) (if group_of c i = group_of c j then unat (tCCDL c) else 0)"
| "min_gap c (WR i r) (WR j s) = max (unat (tCCD c)) (if group_of c i = group_of c j then unat (tCCDL c) else 0)"
| "min_gap c (RD i r) (WR j s) = max (unat (tRTW c)) (max (unat (tCCD c)) (if group_of c i = group_of c j then unat (tCCDL c) else 0))"
| "min_gap c (WR i r) (RD j s) = max (unat (tWTR c)) (max (unat (tCCD c)) (if group_of c i = group_of c j then unat (tCCDL c) else 0))"
| "min_gap c (RD i r) (PRE j) = max (if i = j then unat (burst_cycles c) else 0)
     (if group_of c i = group_of c j then unat (tRTPL c) else 0)"
| "min_gap c (WR i r) (PRE j) = (if i = j then unat (tWTP c) else 0)"
| "min_gap c (RD i r) (ACT j s) = 0"
| "min_gap c (WR i r) (ACT j s) = 0"

fun in_range :: "dram_config \<Rightarrow> core_view \<Rightarrow> dram_cmd \<Rightarrow> bool" where
  "in_range c (rrd, ccd, rtw, wtr, gs, bs) l \<longleftrightarrow> cmd_bank l < length bs \<and> group_of c (cmd_bank l) < length gs"

lemma legal_in_range: "legal c v l \<Longrightarrow> in_range c v l"
  by (cases v) (simp add: legal_def)

lemma in_range_tick [simp]: "in_range c (tick_view v) l = in_range c v l"
  by (cases v) simp

lemma in_range_effect [simp]: "in_range c (cmd_effect c e v) l = in_range c v l"
  by (cases v; cases e) (simp_all add: Let_def)

lemma unat_dec2zero: "unat (dec2zero x) = unat x - 1"
  by (auto simp: dec2zero_def unat_minus_one)

lemma dec2zero_le: "x \<le> (t :: u32) \<Longrightarrow> dec2zero x \<le> t"
  by (simp add: word_le_nat_alt unat_dec2zero)

lemma counters_ok_tick: "counters_ok c v \<Longrightarrow> counters_ok c (tick_view v)"
  by (cases v) (auto simp: list_all_iff group_ok_def bank_ok_def tick_group_def tick_bank_def dec2zero_le)

lemma list_all_update: "list_all P xs \<Longrightarrow> (i < length xs \<Longrightarrow> P x) \<Longrightarrow> list_all P (xs[i := x])"
  by (cases "i < length xs") (auto simp: list_all_length nth_list_update)

lemma counters_ok_effect:
  assumes "counters_ok c v" shows "counters_ok c (cmd_effect c e v)"
proof (cases v)
  case (fields rrd ccd rtw wtr gs bs)
  have "group_ok c (gs ! g)" if "g < length gs" for g
    using assms that by (simp add: fields list_all_length)
  moreover have "bank_ok c (bs ! j)" if "j < length bs" for j
    using assms that by (simp add: fields list_all_length)
  ultimately show ?thesis using assms unfolding fields
    by (cases e) (auto simp: Let_def group_ok_def bank_ok_def intro!: list_all_update)
qed

text \<open>A tick shortens every wait by at most one; a command shortens none, and starts its own.\<close>

lemma blocks_tick: "in_range c v l \<Longrightarrow> blocks c v l \<le> Suc (blocks c (tick_view v) l)"
  by (cases v; cases l) (auto simp: unat_dec2zero tick_group_def tick_bank_def)

definition group_le :: "bankgrp_t \<Rightarrow> bankgrp_t \<Rightarrow> bool" where
  "group_le g g' \<longleftrightarrow> CCDLc g \<le> CCDLc g' \<and> RTPLc g \<le> RTPLc g'"

definition bank_le :: "bank_t \<Rightarrow> bank_t \<Rightarrow> bool" where
  "bank_le x x' \<longleftrightarrow> RCDc x \<le> RCDc x' \<and> RCDWRc x \<le> RCDWRc x' \<and> RASc x \<le> RASc x' \<and> RPc x \<le> RPc x' \<and>
     RCc x \<le> RCc x' \<and> WTPc x \<le> WTPc x' \<and> RTPc x \<le> RTPc x'"

fun view_le :: "core_view \<Rightarrow> core_view \<Rightarrow> bool" where
  "view_le (rrd, ccd, rtw, wtr, gs, bs) (rrd', ccd', rtw', wtr', gs', bs') \<longleftrightarrow>
     rrd \<le> rrd' \<and> ccd \<le> ccd' \<and> rtw \<le> rtw' \<and> wtr \<le> wtr' \<and> list_all2 group_le gs gs' \<and> list_all2 bank_le bs bs'"

lemma le_refl [simp]: "group_le g g" "bank_le x x" "list_all2 group_le gs gs" "list_all2 bank_le bs bs"
  by (simp_all add: group_le_def bank_le_def list_all2_refl)

lemma list_all2_update_right:
  "(i < length xs \<Longrightarrow> R (xs ! i) y) \<Longrightarrow> (\<And>x. R x x) \<Longrightarrow> list_all2 R xs (xs[i := y])"
  by (auto simp: list_all2_conv_all_nth) (metis nth_list_update_eq nth_list_update_neq)

lemma effect_le: "counters_ok c v \<Longrightarrow> view_le v (cmd_effect c e v)"
  by (cases v; cases e)
    (auto simp: Let_def list_all_length group_ok_def bank_ok_def group_le_def bank_le_def
      intro!: list_all2_update_right)

lemma blocks_mono:
  assumes "view_le v w" and "in_range c v l"
  shows "blocks c v l \<le> blocks c w l"
proof (cases v)
  case v: (fields rrd ccd rtw wtr gs bs)
  show ?thesis
  proof (cases w)
    case w: (fields rrd' ccd' rtw' wtr' gs' bs')
    have "group_le (gs ! group_of c (cmd_bank l)) (gs' ! group_of c (cmd_bank l))"
      "bank_le (bs ! cmd_bank l) (bs' ! cmd_bank l)"
      using assms by (auto simp: v w list_all2_conv_all_nth)
    with assms(1) show ?thesis
      by (cases l) (auto simp: v w group_le_def bank_le_def word_le_nat_alt intro!: max.mono)
  qed
qed

lemma blocks_effect: "counters_ok c v \<Longrightarrow> in_range c v l \<Longrightarrow> blocks c v l \<le> blocks c (cmd_effect c e v) l"
  by (rule blocks_mono [OF effect_le])

lemma gap_effect:
  assumes "in_range c v e" and "in_range c v l"
  shows "min_gap c e l \<le> blocks c (cmd_effect c e v) l"
  using assms by (cases v; cases e; cases l) (auto simp: Let_def nth_list_update le_max_iff_disj)

subsection \<open>Bank groups\<close>

lemma tag_length_loop_power: "tag_length_loop (2 ^ k) = Suc k"
  by (induction k) (simp_all add: tag_length_loop.simps)

text \<open>
  With \<open>2 ^ k\<close> banks to a group \<open>memory_config::init\<close> counts \<open>k + 1\<close> tag
  bits, so the controller takes the banks of two neighbouring groups for one group: its index is half
  the \<open>bkgrpindex\<close> that the constructor gives the bank, and the upper half of the groups is never used.
\<close>

theorem bank_groups_shared_in_pairs:
  assumes "dram_init c0 = Some c" and "nbk c = 2 ^ k * nbkgrp c"
  shows "group_of c j = bkgrpindex (bank_new c j) div 2"
proof -
  have "nbk c = nbk c0" "nbkgrp c = nbkgrp c0" "nbkgrp c0 \<noteq> 0"
    "bk_tag_length c = tag_length_loop (nbk c0 div nbkgrp c0)"
    using assms(1) by (auto simp: dram_init_def split: if_splits)
  with assms(2) have "bk_tag_length c = Suc k" "nbk c div nbkgrp c = 2 ^ k"
    by (simp_all add: tag_length_loop_power)
  then show ?thesis by (simp add: group_of_def bank_new_def mult.commute flip: div_mult2_eq)
qed

subsection \<open>Runs\<close>

text \<open>
  A run of the controller: the partition pushes requests and pops replies in any order between
  cycles, and the rest of the simulator may change the \<open>mem_fetch\<close> heap in between. The commands
  are collected by cycle.
\<close>

inductive dram_run :: "dram_config \<Rightarrow> dram_t \<Rightarrow> dram_cmd option list \<Rightarrow> bool" for c where
  start: "dram_new c pid = Some d \<Longrightarrow> dram_run c d []"
| push: "dram_run c d tr \<Longrightarrow> dram_push c tot sim p (d, h) = Some (d', h') \<Longrightarrow> dram_run c d' tr"
| pop: "dram_run c d tr \<Longrightarrow> return_queue_pop d = Some (p, d') \<Longrightarrow> dram_run c d' tr"
| cycle: "dram_run c d tr \<Longrightarrow> dram_cycle c tot sim (d, h) = Some (cmd, fin, d', h') \<Longrightarrow> dram_run c d' (tr @ [cmd])"

lemma dram_push_view: "dram_push c tot sim p (d, h) = Some (d', h') \<Longrightarrow> core_view d' = core_view d"
  unfolding dram_push_def Let_def split_conv bind_eq_Some_iff by (auto simp only: option.inject prod.inject core_view_count core_view_update)

lemma return_queue_pop_view: "return_queue_pop d = Some (p, d') \<Longrightarrow> core_view d' = core_view d"
  by (auto simp: return_queue_pop_def bind_eq_Some_iff)

definition effect_opt :: "dram_config \<Rightarrow> dram_cmd option \<Rightarrow> core_view \<Rightarrow> core_view" where
  "effect_opt c cmd v = (case cmd of None \<Rightarrow> v | Some e \<Rightarrow> cmd_effect c e v)"

definition spaced :: "dram_config \<Rightarrow> dram_cmd option list \<Rightarrow> bool" where
  "spaced c tr \<longleftrightarrow> (\<forall>j<length tr. \<forall>i<j. \<forall>e l. tr ! i = Some e \<longrightarrow> tr ! j = Some l \<longrightarrow> min_gap c e l \<le> j - i)"

definition waits :: "dram_config \<Rightarrow> dram_cmd option list \<Rightarrow> core_view \<Rightarrow> bool" where
  "waits c tr v \<longleftrightarrow> (\<forall>i<length tr. \<forall>e l. tr ! i = Some e \<longrightarrow> in_range c v l \<longrightarrow>
     min_gap c e l \<le> length tr - i + blocks c v l)"

lemma effect_opt_ok:
  "counters_ok c v \<Longrightarrow> counters_ok c (effect_opt c cmd v)"
  "counters_ok c v \<Longrightarrow> in_range c v l \<Longrightarrow> blocks c v l \<le> blocks c (effect_opt c cmd v) l"
  "in_range c (effect_opt c cmd v) l = in_range c v l"
  by (simp_all add: effect_opt_def counters_ok_effect blocks_effect split: option.split)

lemma waits_step:
  assumes "counters_ok c v" and "waits c tr v" and "\<And>e. cmd = Some e \<Longrightarrow> legal c v e"
  shows "waits c (tr @ [cmd]) (tick_view (effect_opt c cmd v))"
  unfolding waits_def
proof (intro allI impI)
  fix i e l
  assume i: "i < length (tr @ [cmd])" and e: "(tr @ [cmd]) ! i = Some e"
    and "in_range c (tick_view (effect_opt c cmd v)) l"
  let ?w = "effect_opt c cmd v"
  have l: "in_range c v l" "in_range c ?w l" using \<open>in_range c (tick_view _) l\<close> by (simp_all add: effect_opt_ok(3))
  note t = blocks_tick [OF l(2)]
  show "min_gap c e l \<le> length (tr @ [cmd]) - i + blocks c (tick_view ?w) l"
  proof (cases "i < length tr")
    case True
    with e have "tr ! i = Some e" by (simp add: nth_append)
    with assms(2) True l have "min_gap c e l \<le> length tr - i + blocks c v l" by (simp add: waits_def)
    with effect_opt_ok(2) [OF assms(1) l(1), of cmd] t True show ?thesis by simp
  next
    case False
    with i e have "i = length tr" "cmd = Some e" by (simp_all add: nth_append split: if_splits)
    with gap_effect [OF legal_in_range [OF assms(3)] l(1)] t show ?thesis by (simp add: effect_opt_def)
  qed
qed

lemma spaced_step:
  assumes "spaced c tr" and "waits c tr v" and "\<And>e. cmd = Some e \<Longrightarrow> legal c v e"
  shows "spaced c (tr @ [cmd])"
  unfolding spaced_def
proof (intro allI impI)
  fix j i e l
  assume "j < length (tr @ [cmd])" "i < j" and e: "(tr @ [cmd]) ! i = Some e" and l: "(tr @ [cmd]) ! j = Some l"
  then consider "j < length tr" | "j = length tr" by (auto simp: less_Suc_eq)
  then show "min_gap c e l \<le> j - i"
  proof cases
    case 1
    with assms(1) \<open>i < j\<close> e l show ?thesis by (simp add: spaced_def nth_append)
  next
    case 2
    with l have "legal c v l" by (intro assms(3)) simp
    moreover from this have "blocks c v l = 0" by (simp add: legal_def)
    moreover have "tr ! i = Some e" using e 2 \<open>i < j\<close> by (simp add: nth_append)
    ultimately show ?thesis
      using assms(2) 2 \<open>i < j\<close> legal_in_range [of c v l] unfolding waits_def by fastforce
  qed
qed

lemma dram_new_counters: "dram_new c pid = Some d \<Longrightarrow> counters_ok c (core_view d)"
  by (auto simp: dram_new_def bind_eq_Some_iff core_view_def list_all_iff group_ok_def bank_ok_def bank_new_def
      split: if_splits)

lemma dram_run_spaced:
  "dram_run c d tr \<Longrightarrow> counters_ok c (core_view d) \<and> waits c tr (core_view d) \<and> spaced c tr"
proof (induction rule: dram_run.induct)
  case (start pid d)
  then show ?case using dram_new_counters by (simp add: waits_def spaced_def)
next
  case (push d tr tot sim p h d' h')
  then show ?case using dram_push_view by metis
next
  case (pop d tr p d')
  then show ?case using return_queue_pop_view by metis
next
  case (cycle d tr tot sim h cmd fin d' h')
  have v: "core_view d' = tick_view (effect_opt c cmd (core_view d))"
    and legal: "\<And>e. cmd = Some e \<Longrightarrow> legal c (core_view d) e"
    using dram_cycle_view [OF cycle.hyps(2)] by (auto simp: effect_opt_def split: option.splits)
  from cycle.IH waits_step [OF _ _ legal] spaced_step [OF _ _ legal] show ?case
    unfolding v by (auto intro: counters_ok_tick effect_opt_ok(1))
qed

text \<open>
  Property C6 (safety): every pair of commands that the controller ever issues is at
  least as far apart as the timing parameters demand, whatever is pushed and popped in between.
\<close>

theorem dram_timing_respected:
  assumes "dram_run c d tr" and "i < j" and "j < length tr" and "tr ! i = Some e" and "tr ! j = Some l"
  shows "min_gap c e l \<le> j - i"
  using dram_run_spaced [OF assms(1)] assms(2-) by (simp add: spaced_def)

text \<open>
  Property C29 (refinement): every cycle is a step of the automaton of open rows: no column
  access without its row, no activation of an open bank, no precharge of a closed one.
\<close>

theorem dram_row_protocol:
  assumes "dram_cycle c tot sim (d, h) = Some (cmd, fin, d', h')"
  shows "row_step (open_rows d) cmd (open_rows d')"
  using dram_cycle_view [OF assms] legal_row_step
  by (auto simp: open_rows_view view_rows_tick split: option.splits)

subsection \<open>A run\<close>

text \<open>Cycles without pushes and pops; a run of a controller with four banks that reads two rows of one bank.\<close>

fun dram_cycles :: "dram_config \<Rightarrow> nat \<Rightarrow> dram_t \<times> mf_heap \<Rightarrow> (dram_cmd option list \<times> dram_t \<times> mf_heap) option" where
  "dram_cycles c 0 s = Some ([], s)"
| "dram_cycles c (Suc n) s = do {
     (cmd, fin, s) \<leftarrow> dram_cycle c 0 0 s;
     (tr, s) \<leftarrow> dram_cycles c n s;
     Some (cmd # tr, s) }"

lemma dram_cycles_run:
  "dram_run c d tr0 \<Longrightarrow> dram_cycles c n (d, h) = Some (tr, d', h') \<Longrightarrow> dram_run c d' (tr0 @ tr)"
proof (induction n arbitrary: d h tr0 tr)
  case (Suc n)
  then obtain cmd fin d1 h1 tr1 where cyc: "dram_cycle c 0 0 (d, h) = Some (cmd, fin, d1, h1)"
    and rest: "dram_cycles c n (d1, h1) = Some (tr1, d', h')" and tr: "tr = cmd # tr1"
    by (auto simp: bind_eq_Some_iff)
  from Suc.IH [OF dram_run.cycle [OF Suc.prems(1) cyc] rest] show ?case by (simp add: tr)
qed simp

definition demo_dram :: dram_config where
  "demo_dram = \<lparr>scheduler_type = DRAM_FRFCFS, sched_queue_size = 4, return_queue_size = 4,
     gpgpu_memlatency_stat = False, nbk = 4, nbkgrp = 2, bk_tag_length = 2, tCCD = 1, tRRD = 2, tRCD = 3,
     tRCDWR = 2, tRAS = 5, tRP = 2, tRC = 7, tCDLR = 1, tWR = 2, tCCDL = 1, tRTPL = 1, tRTW = 2, tWTR = 2,
     tWTP = 3, CL = 2, WL = 1, BL = 4, busW = 4, n_mem_per_ctrlr = 1, data_command_freq_ratio = 2,
     dram_atom_size = 16, m_n_mem = 1, m_n_sub_partition_per_memory_channel = 1, m_n_mem_sub_partition = 1\<rparr>"

definition demo_request :: "u32 \<Rightarrow> mem_fetch" where
  "demo_request r = \<lparr>mf_request_uid = 1, mf_sid = 0, mf_tpc = 0, mf_wid = 0, mf_status = MEM_FETCH_INITIALIZED,
     mf_status_change = 0, mf_access = mem_access_new GLOBAL_ACC_R 0 16 False, mf_data_size = 16, mf_ctrl_size = 8,
     mf_partition_addr = 0, mf_raw_addr = \<lparr>chip = 0, bk = 1, row = r, col = 0, burst = 0, sub_partition = 0\<rparr>,
     mf_type = READ_REQUEST, mf_timestamp = 0, mf_timestamp2 = 0, mf_inst = None, mf_icnt_flit_size = 32\<rparr>"

definition demo_requests :: mf_heap where
  "demo_requests = heap_empty\<lparr>heap_mf := (\<lambda>p. if p < 2 then Some (demo_request (of_nat p + 7)) else None), heap_next := 2\<rparr>"

definition demo_run :: "(dram_t \<times> mf_heap \<times> dram_t \<times> mf_heap \<times> dram_t \<times> mf_heap \<times> dram_cmd option list \<times> dram_t \<times> mf_heap) option" where
  "demo_run = do {
     d0 \<leftarrow> dram_new demo_dram 0;
     (d1, h1) \<leftarrow> dram_push demo_dram 0 0 0 (d0, demo_requests);
     (d2, h2) \<leftarrow> dram_push demo_dram 0 0 1 (d1, h1);
     (tr, d3, h3) \<leftarrow> dram_cycles demo_dram 12 (d2, h2);
     Some (d0, demo_requests, d1, h1, d2, h2, tr, d3, h3) }"

abbreviation demo_trace :: "dram_cmd option list" where
  "demo_trace \<equiv> [Some (ACT 1 7), None, None, Some (RD 1 7), None, Some (PRE 1), None, Some (ACT 1 8), None, None, Some (RD 1 8), None]"

lemma demo_run_trace: "map_option (\<lambda>(d0, h0, d1, h1, d2, h2, tr, d3, h3). tr) demo_run = Some demo_trace"
  by code_simp

theorem bank_groups_shared_in_pairs_witness:
  "map_option (\<lambda>c. (group_of c 12, bkgrpindex (bank_new c 12))) (dram_init (demo_dram\<lparr>nbk := 16, nbkgrp := 4\<rparr>)) = Some (1, 3)"
proof -
  obtain c where c: "dram_init (demo_dram\<lparr>nbk := 16, nbkgrp := 4\<rparr>) = Some c"
    by (simp add: dram_init_def demo_dram_def)
  then have "nbk c = 16" "nbkgrp c = 4" by (auto simp: dram_init_def demo_dram_def)
  moreover from this have "group_of c 12 = bkgrpindex (bank_new c 12) div 2"
    by (intro bank_groups_shared_in_pairs [OF c, of 2]) simp
  ultimately show ?thesis by (simp add: c bank_new_def)
qed

theorem dram_timing_respected_witness:
  "min_gap demo_dram (ACT 1 7) (RD 1 8) \<le> 10 \<and> min_gap demo_dram (ACT 1 7) (ACT 1 8) = 7"
proof -
  obtain d0 h0 d1 h1 d2 h2 d3 h3 where new: "dram_new demo_dram 0 = Some d0"
    and p1: "dram_push demo_dram 0 0 0 (d0, h0) = Some (d1, h1)"
    and p2: "dram_push demo_dram 0 0 1 (d1, h1) = Some (d2, h2)"
    and cyc: "dram_cycles demo_dram 12 (d2, h2) = Some (demo_trace, d3, h3)"
    using demo_run_trace unfolding demo_run_def by (auto simp: bind_eq_Some_iff)
  have run: "dram_run demo_dram d3 ([] @ demo_trace)"
    by (rule dram_cycles_run [OF dram_run.push [OF dram_run.push [OF dram_run.start [OF new] p1] p2] cyc])
  from dram_timing_respected [OF run, of 0 10 "ACT 1 7" "RD 1 8"] show ?thesis
    by (simp add: demo_dram_def)
qed

theorem dram_row_protocol_witness:
  "\<exists>d. open_rows d 1 = None \<and> row_step (open_rows d) (Some (ACT 1 7)) ((open_rows d)(1 := Some 7))"
proof -
  have "map_option (\<lambda>(d0, h0, d1, h1, d2, h2, tr, d3, h3). case dram_cycle demo_dram 0 0 (d2, h2) of
      Some (cmd, fin, d', h') \<Rightarrow> (cmd, open_rows d2 1) | None \<Rightarrow> (None, None)) demo_run = Some (Some (ACT 1 7), None)"
    by code_simp
  then obtain d2 h2 fin d' h' where cyc: "dram_cycle demo_dram 0 0 (d2, h2) = Some (Some (ACT 1 7), fin, d', h')"
    and rows: "open_rows d2 1 = None"
    by (auto split: option.splits)
  from dram_row_protocol [OF cyc] have "row_step (open_rows d2) (Some (ACT 1 7)) ((open_rows d2)(1 := Some 7))"
    by simp
  with rows show ?thesis by blast
qed

end
