(* ===== verification/Dram_Conserve.thy ===== *)
theory Dram_Conserve
  imports Dram_Timing "HOL-Library.Multiset"
begin

text \<open>
  What the DRAM controller does with the requests themselves: none is lost, none is answered twice, and its
  input queue of two entries never overflows. The requests in the controller are those of its heap
  \<open>reqs\<close>; a reply waits in the return queue.
\<close>

subsection \<open>A view of the requests\<close>

text \<open>
  The decoded address and the type of the requests of a heap: what decides where a request belongs and whether it is
  answered. No part of the memory system changes them.
\<close>

definition raws :: "mf_heap \<Rightarrow> nat \<Rightarrow> (addrdec_t \<times> mem_access_type) option" where
  "raws h p = map_option (\<lambda>mf. (mf_raw_addr mf, ma_type (mf_access mf))) (heap_mf h p)"

definition answered :: "mem_access_type \<Rightarrow> bool" where
  "answered t \<longleftrightarrow> t \<noteq> L1_WRBK_ACC \<and> t \<noteq> L2_WRBK_ACC"

definition replies_ok :: "mf_heap \<Rightarrow> dram_t \<Rightarrow> bool" where
  "replies_ok h d \<longleftrightarrow> (\<forall>q \<in> set (items (returnq d)). \<exists>a t. raws h q = Some (a, t) \<and> answered t)"

definition dram_data :: "dram_t \<Rightarrow> nat \<Rightarrow> nat option" where
  "dram_data d r = map_option dr_data (reqs d r)"

type_synonym req_view = "(nat \<Rightarrow> nat option) \<times> nat \<times> nat fifo_pipeline"

definition req_view :: "dram_t \<Rightarrow> req_view" where
  "req_view d = (dram_data d, next_req d, returnq d)"

lemma req_view_fields [simp]:
  "req_view (d\<lparr>rwq := w\<rparr>) = req_view d" "req_view (d\<lparr>mrqq := w\<rparr>) = req_view d"
  "req_view (d\<lparr>frfcfs := f\<rparr>) = req_view d" "req_view (d\<lparr>prio := n\<rparr>) = req_view d"
  "req_view (d\<lparr>banks := b\<rparr>) = req_view d" "req_view (d\<lparr>bkgrp := g\<rparr>) = req_view d"
  "req_view (d\<lparr>rw_write := x\<rparr>) = req_view d" "req_view (d\<lparr>RRDc := y\<rparr>) = req_view d"
  "req_view (d\<lparr>CCDc := y\<rparr>) = req_view d" "req_view (d\<lparr>RTWc := y\<rparr>) = req_view d"
  "req_view (d\<lparr>WTRc := y\<rparr>) = req_view d" "req_view (d\<lparr>n_rd := y\<rparr>) = req_view d"
  "req_view (d\<lparr>n_wr := y\<rparr>) = req_view d" "req_view (d\<lparr>max_mrqs := y\<rparr>) = req_view d"
  "req_view (d\<lparr>max_mrqs_temp := y\<rparr>) = req_view d" "req_view (Dram.count g' d) = req_view d"
  "req_view (tick d) = req_view d"
  by (simp_all add: req_view_def dram_data_def fun_eq_iff Dram.count_def tick_def)

lemma set_status_raws [frame]: "set_status st now p h = Some h' \<Longrightarrow> raws h' = raws h"
  by (auto simp: set_status_def update_mf_eq raws_def fun_eq_iff)

lemma req_status_raws [frame]: "req_status st now r d h = Some h' \<Longrightarrow> raws h' = raws h"
  by (auto simp: req_status_def bind_eq_Some_iff dest: set_status_raws)

lemma update_bank_reqs: "update_bank b f d = Some d' \<Longrightarrow> req_view d' = req_view d \<and> mrqq d' = mrqq d \<and> frfcfs d' = frfcfs d"
  by (auto simp: update_bank_def split: if_splits)

lemma update_group_reqs: "update_group g f d = Some d' \<Longrightarrow> req_view d' = req_view d \<and> mrqq d' = mrqq d \<and> frfcfs d' = frfcfs d"
  by (auto simp: update_group_def split: if_splits)

lemma update_req_reqs:
  "update_req r f d = Some d' \<Longrightarrow> (\<And>q. dr_data (f q) = dr_data q) \<Longrightarrow> req_view d' = req_view d \<and> mrqq d' = mrqq d \<and> frfcfs d' = frfcfs d"
  by (auto simp: update_req_def bind_eq_Some_iff req_view_def dram_data_def fun_eq_iff)

subsection \<open>The schedulers\<close>

lemma scheduler_fifo_reqs:
  assumes "scheduler_fifo now (d, h) = Some (d', h')"
  shows "req_view d' = req_view d \<and> raws h' = raws h"
proof -
  have "raws h' = raws h" using assms
    by (auto simp: scheduler_fifo_def bind_eq_Some_iff split: if_splits dest: req_status_raws)
  moreover have "d' = d \<or> (\<exists>b f q. update_bank b f (d\<lparr>mrqq := q\<rparr>) = Some d')"
    using assms by (auto simp: scheduler_fifo_def bind_eq_Some_iff split: if_splits)
  ultimately show ?thesis by (auto dest!: update_bank_reqs)
qed

lemma fill_scheduler_step:
  assumes "fill_scheduler fuel c now (d, h) = Some (d', h')"
  obtains (stop) "d' = d" "h' = h" "\<And>s. frfcfs d = Some s \<Longrightarrow>
      fp_empty (mrqq d) \<or> sched_queue_size c \<noteq> 0 \<and> sched_queue_size c \<le> unat (m_num_pending s)"
  | (more) fuel' r q s h1 where "fuel = Suc fuel'" "fp_pop (mrqq d) = Some (Some r, q)" "raws h1 = raws h"
      "fill_scheduler fuel' c now (d\<lparr>mrqq := q, frfcfs := Some s\<rparr>, h1) = Some (d', h')"
proof -
  from assms obtain s where s: "frfcfs d = Some s"
    by (subst (asm) fill_scheduler.simps) (auto simp: bind_eq_Some_iff)
  show ?thesis
  proof (cases "\<not> fp_empty (mrqq d) \<and> (sched_queue_size c = 0 \<or> unat (m_num_pending s) < sched_queue_size c)")
    case True
    with assms s show ?thesis
      by (subst (asm) fill_scheduler.simps)
        (auto simp: bind_eq_Some_iff split: nat.splits dest!: req_status_raws intro: more)
  next
    case False
    then have "d' = d" "h' = h" using assms s by (subst (asm) fill_scheduler.simps, auto)+
    then show ?thesis using False s by (intro stop) auto
  qed
qed

lemma fill_scheduler_reqs:
  "fill_scheduler fuel c now (d, h) = Some (d', h') \<Longrightarrow> req_view d' = req_view d \<and> raws h' = raws h"
proof (induction fuel arbitrary: d h)
  case 0
  then show ?case by (cases rule: fill_scheduler_step) auto
next
  case (Suc fuel)
  from Suc.prems show ?case
  proof (cases rule: fill_scheduler_step)
    case (more fuel' r q s h1)
    then show ?thesis using Suc.IH [of "d\<lparr>mrqq := q, frfcfs := Some s\<rparr>" h1] by simp
  qed simp
qed

lemma offer_banks_reqs:
  "offer_banks c tot sim is (d, h) = Some (d', h') \<Longrightarrow>
    req_view d' = req_view d \<and> raws h' = raws h \<and> mrqq d' = mrqq d \<and> (frfcfs d' = None \<longleftrightarrow> frfcfs d = None)"
proof (induction "is" arbitrary: d h)
  case (Cons i "is")
  let ?b = "(i + prio d) mod nbk c"
  show ?case
  proof (cases "offer_banks c tot sim is (d, h) = Some (d', h')")
    case True
    then show ?thesis by (rule Cons.IH)
  next
    case False
    with Cons.prems obtain s0 r s where
      r: "schedule sim (reqs d) ?b (curr_row (banks d ! ?b)) s0 = Some (r, s)" "frfcfs d = Some s0"
      by (auto simp: Let_def bind_eq_Some_iff split: if_splits)
    show ?thesis
    proof (cases r)
      case None
      with Cons.prems False r have "offer_banks c tot sim is (d\<lparr>frfcfs := Some s\<rparr>, h) = Some (d', h')"
        by (auto simp: Let_def split: if_splits)
      from Cons.IH [OF this] show ?thesis using r by simp
    next
      case (Some r)
      with Cons.prems False \<open>schedule _ _ _ _ _ = _\<close> \<open>frfcfs d = _\<close> obtain d1
        where d1: "update_bank ?b (\<lambda>x. x\<lparr>bk_mrq := Some r\<rparr>) (d\<lparr>frfcfs := Some s, prio := (prio d + 1) mod nbk c\<rparr>) = Some d1"
          and d': "(if gpgpu_memlatency_stat c then update_req r (\<lambda>q. q\<lparr>dr_timestamp := ucast (tot + sim)\<rparr>) d1
            else Some d1) = Some d'"
          and h': "req_status IN_PARTITION_MC_BANK_ARB_QUEUE (sim + tot) r (d\<lparr>frfcfs := Some s\<rparr>) h = Some h'"
        by (auto simp: Let_def bind_eq_Some_iff split: if_splits)
      have "req_view d' = req_view d1 \<and> mrqq d' = mrqq d1 \<and> frfcfs d' = frfcfs d1"
        using d' update_req_reqs [of r _ d1 d'] by (auto split: if_splits)
      with update_bank_reqs [OF d1] req_status_raws [OF h'] show ?thesis
        using \<open>frfcfs d = _\<close> by simp
    qed
  qed
qed simp

lemma scheduler_frfcfs_reqs:
  "scheduler_frfcfs c tot sim (d, h) = Some (d', h') \<Longrightarrow> req_view d' = req_view d \<and> raws h' = raws h"
  by (auto simp: scheduler_frfcfs_def bind_eq_Some_iff dest!: fill_scheduler_reqs offer_banks_reqs)

subsection \<open>The banks\<close>

lemma start_timers_reqs: "start_timers c j wr d = Some d' \<Longrightarrow> req_view d' = req_view d \<and> mrqq d' = mrqq d \<and> frfcfs d' = frfcfs d"
  by (auto simp: start_timers_def bind_eq_Some_iff split: if_splits dest!: update_bank_reqs update_group_reqs)

lemma issue_column_reqs:
  assumes "issue_column c j r wr d = Some d'"
  shows "req_view d' = req_view d \<and> mrqq d' = mrqq d \<and> frfcfs d' = frfcfs d"
proof -
  obtain q d1 d2 and req :: dram_req where
    d1: "update_req r (\<lambda>q. q\<lparr>dr_txbytes := dr_txbytes q + dram_atom_size c\<rparr>) (d\<lparr>rw_write := wr, rwq := q\<rparr>) = Some d1"
    and d2: "start_timers c j wr d1 = Some d2"
    and d3: "(if \<not> dr_txbytes req < dr_nbytes req
      then update_bank j (\<lambda>x. x\<lparr>bk_mrq := None\<rparr>) (Dram.count (\<lambda>k. k\<lparr>bwutil := bwutil k + burst_cycles c\<rparr>) d2)
      else Some (Dram.count (\<lambda>k. k\<lparr>bwutil := bwutil k + burst_cycles c\<rparr>) d2)) = Some d'"
    using assms unfolding issue_column_def Let_def bind_eq_Some_iff by blast
  have "req_view d1 = req_view d \<and> mrqq d1 = mrqq d \<and> frfcfs d1 = frfcfs d" using update_req_reqs [OF d1] by simp
  with start_timers_reqs [OF d2] d3 show ?thesis
    by (auto simp: Dram.count_def req_view_def dram_data_def fun_eq_iff split: if_splits dest!: update_bank_reqs)
qed

lemma issue_activate_reqs: "issue_activate c j req d = Some d' \<Longrightarrow> req_view d' = req_view d \<and> mrqq d' = mrqq d \<and> frfcfs d' = frfcfs d"
  by (auto simp: issue_activate_def bind_eq_Some_iff dest!: update_bank_reqs) (simp_all add: Dram.count_def)

lemma issue_precharge_reqs: "issue_precharge c j d = Some d' \<Longrightarrow> req_view d' = req_view d \<and> mrqq d' = mrqq d \<and> frfcfs d' = frfcfs d"
  by (auto simp: issue_precharge_def bind_eq_Some_iff dest!: update_bank_reqs) (simp_all add: Dram.count_def)

lemma bank_step_reqs:
  assumes "bank_step c now i (d, h, issued, k) = Some (d', h', issued', k')"
  shows "req_view d' = req_view d \<and> raws h' = raws h \<and> mrqq d' = mrqq d \<and> frfcfs d' = frfcfs d"
proof -
  let ?j = "(i + prio d) mod nbk c"
  have j: "?j < length (banks d)" using assms by (auto simp: bank_step_def Let_def split: if_splits)
  show ?thesis
  proof (cases "bk_mrq (banks d ! ?j)")
    case None
    with assms j have "\<exists>f. update_bank ?j f d = Some d' \<and> h' = h"
      by (auto simp: bank_step_def Let_def bind_eq_Some_iff)
    then show ?thesis by (auto dest!: update_bank_reqs)
  next
    case (Some r)
    with assms j have h: "\<exists>g. req_status IN_PARTITION_DRAM now r d g = Some h' \<and> g = h"
      by (auto simp: bank_step_def Let_def bind_eq_Some_iff split: if_splits)
    from assms j Some have "d' = d \<or> (\<exists>wr. issue_column c ?j r wr d = Some d') \<or>
        (\<exists>req. issue_activate c ?j req d = Some d') \<or> issue_precharge c ?j d = Some d'"
      by (auto simp: bank_step_def Let_def bind_eq_Some_iff split: if_splits)
    then show ?thesis using h
      by (auto dest: req_status_raws issue_column_reqs issue_activate_reqs issue_precharge_reqs)
  qed
qed

lemma banks_reqs:
  assumes "foldM (bank_step c now) is (d, h, issued, k) = Some (d', h', issued', k')"
  shows "req_view d' = req_view d \<and> raws h' = raws h \<and> mrqq d' = mrqq d \<and> frfcfs d' = frfcfs d"
proof -
  have "case (d', h', issued', k') of (e, g, _) \<Rightarrow> req_view e = req_view d \<and> raws g = raws h \<and> mrqq e = mrqq d \<and>
      frfcfs e = frfcfs d"
    by (rule foldM_invariant [OF assms]) (auto dest: bank_step_reqs)
  then show ?thesis by simp
qed

subsection \<open>The requests in the controller\<close>

text \<open>The \<open>mem_fetch\<close> objects that the controller works on and those it has answered, by their address.\<close>

definition held :: "dram_t \<Rightarrow> nat multiset" where
  "held d = image_mset (\<lambda>r. the (dram_data d r)) (mset_set (dom (dram_data d)))"

definition in_dram :: "dram_t \<Rightarrow> nat multiset" where
  "in_dram d = held d + mset (items (returnq d))"

definition reqs_ok :: "dram_t \<Rightarrow> bool" where
  "reqs_ok d \<longleftrightarrow> finite (dom (dram_data d)) \<and> (\<forall>r \<in> dom (dram_data d). r < next_req d) \<and>
     fp_ok (returnq d) \<and> fp_min_len (returnq d) = 0"

lemma req_view_eq:
  "req_view d = req_view d' \<longleftrightarrow> dram_data d = dram_data d' \<and> next_req d = next_req d' \<and> returnq d = returnq d'"
  by (simp add: req_view_def)

lemma req_view_in_dram: "req_view d' = req_view d \<Longrightarrow> in_dram d' = in_dram d \<and> reqs_ok d' = reqs_ok d"
  by (simp add: req_view_eq in_dram_def held_def reqs_ok_def)

lemma held_add:
  assumes "finite (dom f)" and "r \<notin> dom f"
  shows "image_mset (\<lambda>x. the ((f(r \<mapsto> p)) x)) (mset_set (dom (f(r \<mapsto> p)))) =
    add_mset p (image_mset (\<lambda>x. the (f x)) (mset_set (dom f)))"
proof -
  have "image_mset (\<lambda>x. the ((f(r \<mapsto> p)) x)) (mset_set (dom f)) = image_mset (\<lambda>x. the (f x)) (mset_set (dom f))"
    using assms by (intro image_mset_cong) auto
  with assms show ?thesis by simp
qed

lemma held_remove:
  assumes "finite (dom f)" and "f r = Some p"
  shows "image_mset (\<lambda>x. the (f x)) (mset_set (dom f)) =
    add_mset p (image_mset (\<lambda>x. the ((f(r := None)) x)) (mset_set (dom (f(r := None)))))"
proof -
  have "f = (f(r := None))(r \<mapsto> p)" using assms(2) by auto
  moreover have "finite (dom (f(r := None)))" "r \<notin> dom (f(r := None))" using assms(1) by auto
  ultimately show ?thesis using held_add [of "f(r := None)" r p] by simp
qed

lemma drop_req_held:
  assumes "reqs_ok d" and "dram_data d r = Some p" and "dram_data d' = (dram_data d)(r := None)"
  shows "held d = add_mset p (held d')"
  using held_remove [of "dram_data d" r p] assms by (simp add: held_def reqs_ok_def)

text \<open>What a burst does: nothing to the requests, an answer, or the end of a write-back.\<close>

lemma data_burst_reqs:
  assumes "data_burst c now (d, h) = Some (fin, d', h')" and "reqs_ok d"
  shows "reqs_ok d' \<and> mrqq d' = mrqq d \<and> frfcfs d' = frfcfs d \<and>
    (case fin of
       None \<Rightarrow> in_dram d' = in_dram d \<and> raws h' = raws h \<and> (replies_ok h d \<longrightarrow> replies_ok h' d')
     | Some (p, mf) \<Rightarrow> in_dram d = add_mset p (in_dram d') \<and> raws h' = (raws h)(p := None) \<and>
         raws h p = Some (mf_raw_addr mf, ma_type (mf_access mf)) \<and> \<not> answered (ma_type (mf_access mf)) \<and> returnq d' = returnq d)"
proof (cases "fp_full (returnq d)")
  case True
  with assms show ?thesis by (auto simp: data_burst_def)
next
  case room: False
  with assms(1) obtain r q where pop: "fp_pop (rwq d) = Some (r, q)"
    by (auto simp: data_burst_def bind_eq_Some_iff)
  show ?thesis
  proof (cases r)
    case None
    with assms room pop have "d' = d\<lparr>rwq := q\<rparr>" "fin = None" "h' = h" by (auto simp: data_burst_def)
    then show ?thesis using assms(2) req_view_in_dram [of d' d] by (simp add: replies_ok_def)
  next
    case r: (Some r)
    with assms(1) room pop obtain d1 req
      where d1: "update_req r (\<lambda>q. q\<lparr>dr_dqbytes := dr_dqbytes q + dram_atom_size c\<rparr>) (d\<lparr>rwq := q\<rparr>) = Some d1"
        and req: "reqs d1 r = Some req"
        and body: "(if dr_dqbytes req \<ge> dr_nbytes req then do {
             let p = dr_data req;
             h \<leftarrow> set_status IN_PARTITION_MC_RETURNQ now p h;
             mf \<leftarrow> heap_mf h p;
             let d' = d1\<lparr>reqs := (reqs d1)(r := None)\<rparr>;
             if ma_type (mf_access mf) \<noteq> L1_WRBK_ACC \<and> ma_type (mf_access mf) \<noteq> L2_WRBK_ACC then do {
               mf' \<leftarrow> set_reply mf;
               q \<leftarrow> fp_push (Some p) (returnq d');
               Some (None, d'\<lparr>returnq := q\<rparr>, h\<lparr>heap_mf := (heap_mf h)(p \<mapsto> mf')\<rparr>) }
             else Some (Some (p, mf), d', h\<lparr>heap_mf := (heap_mf h)(p := None)\<rparr>) }
           else Some (None, d1, h)) = Some (fin, d', h')"
      by (auto simp: data_burst_def bind_eq_Some_iff)
    have v: "req_view d1 = req_view d" "mrqq d1 = mrqq d" using update_req_reqs [OF d1] by simp_all
    have f: "frfcfs d1 = frfcfs d" using d1 by (auto simp: update_req_def bind_eq_Some_iff)
    have ok: "reqs_ok d1" "in_dram d1 = in_dram d" using req_view_in_dram [OF v(1)] assms(2) by simp_all
    show ?thesis
    proof (cases "dr_dqbytes req \<ge> dr_nbytes req")
      case False
      with body have "d' = d1" "fin = None" "h' = h" by auto
      then show ?thesis using ok v f by (simp add: req_view_eq replies_ok_def)
    next
      case True
      define p where "p = dr_data req"
      let ?d = "d1\<lparr>reqs := (reqs d1)(r := None)\<rparr>"
      have data: "dram_data d1 r = Some p" using req by (simp add: dram_data_def p_def)
      have gone: "dram_data ?d = (dram_data d1)(r := None)" by (auto simp: dram_data_def fun_eq_iff)
      have held: "held d1 = add_mset p (held ?d)" by (rule drop_req_held [OF ok(1) data gone])
      have dom: "dom (dram_data ?d) \<subseteq> dom (dram_data d1)" unfolding gone by auto
      then have ok': "finite (dom (dram_data ?d))" "\<forall>x \<in> dom (dram_data ?d). x < next_req ?d"
        using ok(1) by (auto simp: reqs_ok_def intro: finite_subset)
      from body True obtain h1 mf where h1: "set_status IN_PARTITION_MC_RETURNQ now p h = Some h1"
          and mf: "heap_mf h1 p = Some mf"
          and rest: "(if ma_type (mf_access mf) \<noteq> L1_WRBK_ACC \<and> ma_type (mf_access mf) \<noteq> L2_WRBK_ACC then do {
               mf' \<leftarrow> set_reply mf;
               q \<leftarrow> fp_push (Some p) (returnq ?d);
               Some (None, ?d\<lparr>returnq := q\<rparr>, h1\<lparr>heap_mf := (heap_mf h1)(p \<mapsto> mf')\<rparr>) }
             else Some (Some (p, mf), ?d, h1\<lparr>heap_mf := (heap_mf h1)(p := None)\<rparr>)) = Some (fin, d', h')"
        unfolding Let_def p_def [symmetric] by (auto simp only: bind_eq_Some_iff if_True)
      have raw: "raws h1 = raws h" and rawp: "raws h1 p = Some (mf_raw_addr mf, ma_type (mf_access mf))"
      proof -
        show "raws h1 = raws h" by (rule set_status_raws [OF h1])
        show "raws h1 p = Some (mf_raw_addr mf, ma_type (mf_access mf))" using mf by (simp add: raws_def)
      qed
      show ?thesis
      proof (cases "ma_type (mf_access mf) \<noteq> L1_WRBK_ACC \<and> ma_type (mf_access mf) \<noteq> L2_WRBK_ACC")
        case True
        with rest obtain mf' q' where mf': "set_reply mf = Some mf'" and q': "fp_push (Some p) (returnq ?d) = Some q'"
          and d': "fin = None" "d' = ?d\<lparr>returnq := q'\<rparr>" "h' = h1\<lparr>heap_mf := (heap_mf h1)(p \<mapsto> mf')\<rparr>"
          by (auto simp: bind_eq_Some_iff)
        have "mf_raw_addr mf' = mf_raw_addr mf" "mf_access mf' = mf_access mf" using mf' by (auto simp: set_reply_def split: if_splits)
        then have "raws h' = (raws h1)(p := raws h1 p)" using mf unfolding d' by (auto simp: raws_def)
        then have "raws h' = raws h" by (simp add: raw)
        moreover have q: "fp_ok (returnq d1)" "fp_min_len (returnq d1) = 0" using ok(1) by (simp_all add: reqs_ok_def)
        have "fp_ok q'" "fp_min_len q' = 0"
          using push_ok [OF q(1), of "Some p"] push_room [OF q(1)] q' q(2) by auto
        moreover have "items q' = items (returnq d1) @ [p]" using items_push [OF q'] by simp
        moreover have "replies_ok h d \<longrightarrow> replies_ok h' d'"
          using items_push [OF q'] rawp True v(1) \<open>raws h' = raws h\<close> unfolding d'(2)
          by (auto simp: replies_ok_def answered_def raw req_view_eq)
        moreover have "held d' = held ?d" "dom (dram_data d') = dom (dram_data ?d)" "next_req d' = next_req ?d"
          unfolding d' by (simp_all add: held_def dram_data_def dom_def)
        ultimately show ?thesis using held ok ok' v f unfolding d'
          by (simp add: in_dram_def reqs_ok_def)
      next
        case False
        then have d': "fin = Some (p, mf)" "d' = ?d" "h' = h1\<lparr>heap_mf := (heap_mf h1)(p := None)\<rparr>"
          using rest by auto
        have "raws h' = (raws h)(p := None)" unfolding raw [symmetric] d' by (auto simp: raws_def fun_eq_iff)
        moreover have "in_dram d1 = add_mset p (in_dram d')" using held unfolding d' by (simp add: in_dram_def)
        moreover have "reqs_ok d'" using ok(1) ok' unfolding d' by (simp add: reqs_ok_def)
        ultimately show ?thesis using ok rawp raw False v f unfolding d' by (auto simp: answered_def req_view_eq)
      qed
    qed
  qed
qed

subsection \<open>Whole cycles\<close>

text \<open>The parts of a cycle, without its counters.\<close>

lemma dram_cycleE:
  assumes "dram_cycle c tot sim (d, h) = Some (cmd, fin, d', h')"
  obtains d1 h1 d2 h2 d3 h3 k where "data_burst c (sim + tot) (d, h) = Some (fin, d1, h1)"
    "(case scheduler_type c of DRAM_FIFO \<Rightarrow> scheduler_fifo (sim + tot) (d1, h1)
      | DRAM_FRFCFS \<Rightarrow> scheduler_frfcfs c tot sim (d1, h1)) = Some (d2, h2)"
    "foldM (bank_step c (sim + tot)) [0..<nbk c] (d3, h2, None, nbk c) = Some (h3, h', cmd, k)"
    "req_view d3 = req_view d2" "mrqq d3 = mrqq d2" "frfcfs d3 = frfcfs d2"
    "req_view d' = req_view h3" "mrqq d' = mrqq h3" "frfcfs d' = frfcfs h3"
proof -
  obtain d1 h1 d2 h2 d3 e k where s: "data_burst c (sim + tot) (d, h) = Some (fin, d1, h1)"
    "(case scheduler_type c of DRAM_FIFO \<Rightarrow> scheduler_fifo (sim + tot) (d1, h1)
      | DRAM_FRFCFS \<Rightarrow> scheduler_frfcfs c tot sim (d1, h1)) = Some (d2, h2)"
    "sample_queue c d2 = Some d3"
    "foldM (bank_step c (sim + tot)) [0..<nbk c] (d3, h2, None, nbk c) = Some (e, h', cmd, k)"
    and d': "\<exists>f g x y. d' = tick (Dram.count f (if x then Dram.count g (if y then Dram.count (\<lambda>n. n\<lparr>n_nop := n_nop n + 1\<rparr>) e else e)
        else (if y then Dram.count (\<lambda>n. n\<lparr>n_nop := n_nop n + 1\<rparr>) e else e)))"
    using assms unfolding dram_cycle_def Let_def bind_eq_Some_iff split_paired_Ex prod.case by blast
  have "req_view d3 = req_view d2" "mrqq d3 = mrqq d2" "frfcfs d3 = frfcfs d2"
    using s(3) by (auto simp: sample_queue_def bind_eq_Some_iff) (simp_all add: Dram.count_def)
  moreover have "req_view d' = req_view e" "mrqq d' = mrqq e" "frfcfs d' = frfcfs e"
    using d' by (auto simp: tick_def Dram.count_def req_view_def dram_data_def fun_eq_iff)
  ultimately show ?thesis using s that by blast
qed

lemma dram_cycle_reqs:
  assumes "dram_cycle c tot sim (d, h) = Some (cmd, fin, d', h')" and "reqs_ok d"
  shows "reqs_ok d' \<and>
    (case fin of
       None \<Rightarrow> in_dram d' = in_dram d \<and> raws h' = raws h \<and> (replies_ok h d \<longrightarrow> replies_ok h' d')
     | Some (p, mf) \<Rightarrow> in_dram d = add_mset p (in_dram d') \<and> raws h' = (raws h)(p := None) \<and>
         raws h p = Some (mf_raw_addr mf, ma_type (mf_access mf)) \<and> \<not> answered (ma_type (mf_access mf)) \<and> returnq d' = returnq d)"
  using assms(1)
proof (cases rule: dram_cycleE)
  case (1 d1 h1 d2 h2 d3 e k)
  have "req_view d2 = req_view d1 \<and> raws h2 = raws h1"
    using 1(2) by (cases "scheduler_type c") (auto dest: scheduler_fifo_reqs scheduler_frfcfs_reqs)
  with 1 banks_reqs [OF 1(3)] have "req_view d' = req_view d1" "raws h' = raws h1" by simp_all
  with data_burst_reqs [OF 1(1) assms(2)] req_view_in_dram [of d' d1] show ?thesis
    by (auto simp: req_view_eq replies_ok_def split: option.splits)
qed

subsection \<open>The input queue\<close>

text \<open>
  The queue of two entries in front of the scheduler. \<open>dram_t::full\<close> only looks at the first-ready scheduler, so
  what keeps the queue from overflowing is that a cycle moves a request on whenever there is room for it.
\<close>

definition input_ok :: "dram_config \<Rightarrow> dram_t \<Rightarrow> bool" where
  "input_ok c d \<longleftrightarrow> fp_ok (mrqq d) \<and> fp_min_len (mrqq d) = 0 \<and> fp_max_len (mrqq d) = 2 \<and>
     (scheduler_type c = DRAM_FRFCFS \<longrightarrow> frfcfs d \<noteq> None \<and> (fp_length (mrqq d) = 2 \<longrightarrow> dram_full c d = Some False))"

lemma pop_shortens:
  assumes "fp_ok q" and "fp_min_len q = 0" and "fp_pop q = Some (r, q')"
  shows "fp_ok q' \<and> fp_min_len q' = 0 \<and> fp_max_len q' = fp_max_len q \<and> fp_length q' = fp_length q - 1"
proof (cases "fp_slots q")
  case Nil
  then show ?thesis using pop_ok [OF assms(1)] assms by (auto simp: fp_ok_def)
next
  case (Cons x xs)
  then show ?thesis using pop_ok [OF assms(1)] assms by (auto simp: fp_ok_def)
qed

lemma fill_shortens:
  "fill_scheduler fuel c now (d, h) = Some (d', h') \<Longrightarrow> fp_ok (mrqq d) \<Longrightarrow> fp_min_len (mrqq d) = 0 \<Longrightarrow>
    fp_ok (mrqq d') \<and> fp_min_len (mrqq d') = 0 \<and> fp_max_len (mrqq d') = fp_max_len (mrqq d) \<and>
    fp_length (mrqq d') \<le> fp_length (mrqq d) \<and> (frfcfs d \<noteq> None \<longrightarrow> frfcfs d' \<noteq> None)"
proof (induction fuel arbitrary: d h)
  case 0
  then show ?case by (cases rule: fill_scheduler_step) auto
next
  case (Suc fuel)
  from Suc.prems(1) show ?case
  proof (cases rule: fill_scheduler_step)
    case (more fuel' r q s h1)
    then show ?thesis
      using Suc.IH [of "d\<lparr>mrqq := q, frfcfs := Some s\<rparr>" h1] pop_shortens [OF Suc.prems(2,3) more(2)] by auto
  qed (use Suc.prems in simp)
qed

lemma fill_makes_room:
  assumes "fill_scheduler fuel c now (d, h) = Some (d', h')" and "input_ok c d" and "scheduler_type c = DRAM_FRFCFS"
  shows "fp_ok (mrqq d') \<and> fp_min_len (mrqq d') = 0 \<and> fp_max_len (mrqq d') = 2 \<and> fp_length (mrqq d') \<le> 1 \<and>
    frfcfs d' \<noteq> None"
  using assms(1)
proof (cases rule: fill_scheduler_step)
  case stop
  have "fp_length (mrqq d) \<le> 2" using assms(2) by (simp add: input_ok_def fp_ok_def)
  moreover have "fp_length (mrqq d) \<noteq> 2"
  proof
    assume two: "fp_length (mrqq d) = 2"
    then have "\<not> fp_empty (mrqq d)" using assms(2) by (auto simp: input_ok_def fp_ok_def fp_empty_def)
    moreover have "dram_full c d = Some False" using two assms by (simp add: input_ok_def)
    ultimately show False using stop(3) assms(1,3)
      by (subst (asm) fill_scheduler.simps) (auto simp: dram_full_def bind_eq_Some_iff split: if_splits)
  qed
  ultimately show ?thesis using stop(1) assms(2,3) by (simp add: input_ok_def)
next
  case (more fuel' r q s h1)
  have m: "fp_ok (mrqq d)" "fp_min_len (mrqq d) = 0" "fp_max_len (mrqq d) = 2" "fp_length (mrqq d) \<le> 2"
    using assms(2) by (auto simp: input_ok_def fp_ok_def)
  from fill_shortens [OF more(4)] pop_shortens [OF m(1,2) more(2)] m show ?thesis by auto
qed

lemma cycle_makes_room:
  assumes "dram_cycle c tot sim (d, h) = Some (cmd, fin, d', h')" and "reqs_ok d" and "input_ok c d"
  shows "input_ok c d' \<and> (dram_full c d' = Some False \<longrightarrow> fp_length (mrqq d') \<le> 1)"
  using assms(1)
proof (cases rule: dram_cycleE)
  case (1 d1 h1 d2 h2 d3 e k)
  have "mrqq d1 = mrqq d" "frfcfs d1 = frfcfs d" using data_burst_reqs [OF 1(1) assms(2)] by simp_all
  then have "dram_full c d1 = dram_full c d" by (simp add: dram_full_def)
  with \<open>mrqq d1 = mrqq d\<close> \<open>frfcfs d1 = frfcfs d\<close> have i1: "input_ok c d1"
    using assms(3) by (simp add: input_ok_def)
  have m: "mrqq d' = mrqq d2" "frfcfs d' = frfcfs d2" using 1 banks_reqs [OF 1(3)] by simp_all
  show ?thesis
  proof (cases "scheduler_type c")
    case DRAM_FRFCFS
    then obtain f hf where f: "fill_scheduler (fp_length (mrqq d1)) c (sim + tot) (d1, h1) = Some (f, hf)"
        "offer_banks c tot sim [0..<nbk c] (f, hf) = Some (d2, h2)"
      using 1(2) by (auto simp: scheduler_frfcfs_def bind_eq_Some_iff)
    with fill_makes_room [OF f(1) i1 DRAM_FRFCFS] offer_banks_reqs [OF f(2)] m show ?thesis
      by (auto simp: input_ok_def)
  next
    case DRAM_FIFO
    then have s: "scheduler_fifo (sim + tot) (d1, h1) = Some (d2, h2)" using 1(2) by simp
    have "mrqq d2 = mrqq d1 \<or> (\<exists>r. fp_pop (mrqq d1) = Some (r, mrqq d2))"
      using s by (auto simp: scheduler_fifo_def bind_eq_Some_iff split: if_splits dest!: update_bank_reqs)
    moreover have q: "fp_ok (mrqq d1)" "fp_min_len (mrqq d1) = 0" "fp_max_len (mrqq d1) = 2"
      using i1 by (simp_all add: input_ok_def)
    ultimately have "fp_ok (mrqq d2)" "fp_min_len (mrqq d2) = 0" "fp_max_len (mrqq d2) = 2"
      using pop_shortens [OF q(1,2)] by auto
    then show ?thesis using m DRAM_FIFO by (auto simp: input_ok_def dram_full_def fp_full_def)
  qed
qed

lemma dram_pushE:
  assumes "dram_push c tot sim p (d, h) = Some (d', h')"
  obtains q mf where "fp_push (Some (next_req d)) (mrqq d) = Some q" "heap_mf h p = Some mf" "raws h' = raws h"
    "dram_data d' = (dram_data d)(next_req d \<mapsto> p)" "next_req d' = Suc (next_req d)" "mrqq d' = q"
    "returnq d' = returnq d" "frfcfs d' = frfcfs d"
proof -
  from assms obtain mf q n where a: "heap_mf h p = Some mf" "set_status IN_PARTITION_MC_INTERFACE_QUEUE (sim + tot) p h = Some h'"
      "fp_push (Some (next_req d)) (mrqq d) = Some q"
    and d': "d' = (Dram.count (\<lambda>k. k\<lparr>n_req := n_req k + 1\<rparr>) (d\<lparr>reqs := (reqs d)(next_req d \<mapsto> dram_req_new tot sim p mf),
      next_req := next_req d + 1, mrqq := q\<rparr>))\<lparr>max_mrqs_temp := n\<rparr>"
    unfolding dram_push_def Let_def prod.case bind_eq_Some_iff by (auto simp: Dram.count_def)
  show ?thesis
  proof (rule that [OF a(3,1) set_status_raws [OF a(2)]])
    show "dram_data d' = (dram_data d)(next_req d \<mapsto> p)"
      unfolding d' by (auto simp: dram_data_def Dram.count_def fun_eq_iff dram_req_new_def)
  qed (simp_all add: d' Dram.count_def)
qed

lemma dram_push_reqs:
  assumes "dram_push c tot sim p (d, h) = Some (d', h')" and "reqs_ok d"
  shows "reqs_ok d' \<and> in_dram d' = add_mset p (in_dram d) \<and> raws h' = raws h"
  using assms(1)
proof (cases rule: dram_pushE)
  case (1 q mf)
  have "next_req d \<notin> dom (dram_data d)" "finite (dom (dram_data d))" using assms(2) by (auto simp: reqs_ok_def)
  with 1 held_add [of "dram_data d" "next_req d" p] assms(2) show ?thesis
    by (auto simp: reqs_ok_def in_dram_def held_def less_Suc_eq)
qed

lemma return_pop_reqs:
  assumes "return_queue_pop d = Some (r, d')" and "reqs_ok d"
  shows "reqs_ok d' \<and> in_dram d = (case r of None \<Rightarrow> {#} | Some p \<Rightarrow> {#p#}) + in_dram d' \<and> mrqq d' = mrqq d \<and>
    frfcfs d' = frfcfs d"
proof -
  obtain q where q: "fp_pop (returnq d) = Some (r, q)" "d' = d\<lparr>returnq := q\<rparr>"
    using assms(1) by (auto simp: return_queue_pop_def bind_eq_Some_iff)
  have ok: "fp_ok (returnq d)" "fp_min_len (returnq d) = 0" using assms(2) by (simp_all add: reqs_ok_def)
  have "items (returnq d) = (case r of None \<Rightarrow> [] | Some x \<Rightarrow> [x]) @ items q"
    using pop_ok [OF ok(1)] q(1) by auto
  moreover have "held d' = held d" "dom (dram_data d') = dom (dram_data d)"
    unfolding q(2) by (simp_all add: held_def dram_data_def dom_def)
  ultimately show ?thesis using pop_shortens [OF ok q(1)] assms(2) unfolding q(2)
    by (auto simp: reqs_ok_def in_dram_def split: option.splits)
qed

lemma return_top_pop: "return_queue_pop d = Some (r, d') \<Longrightarrow> return_queue_top d = r"
  by (cases "fp_slots (returnq d)")
    (auto simp: return_queue_top_def return_queue_pop_def fp_top_def fp_pop_def Let_def bind_eq_Some_iff split: if_splits)

subsection \<open>Runs\<close>

lemma dram_new_ok:
  assumes "dram_new c pid = Some d"
  shows "reqs_ok d \<and> input_ok c d \<and> in_dram d = {#}"
proof -
  obtain q2 q3 where q: "fp_new 0 2 = Some q2" "fp_new 0 (if return_queue_size c = 0 then 1024 else return_queue_size c) = Some q3"
    and d: "mrqq d = q2" "returnq d = q3" "reqs d = (\<lambda>_. None)" "scheduler_type c = DRAM_FRFCFS \<longrightarrow> frfcfs d \<noteq> None"
    using assms unfolding dram_new_def bind_eq_Some_iff by auto
  have "dram_data d = (\<lambda>_. None)" using d(3) by (auto simp: dram_data_def)
  moreover have "fp_ok q2" "fp_min_len q2 = 0" "fp_max_len q2 = 2" "fp_length q2 = 0"
    "fp_ok q3" "fp_min_len q3 = 0" "items q3 = []"
    using q by (auto simp: fp_new_def fp_ok_def items_def split: if_splits)
  ultimately show ?thesis using d by (simp add: reqs_ok_def input_ok_def in_dram_def held_def)
qed

text \<open>
  What a partition does with its controller: a cycle, after it perhaps a push, if the controller is not full, and
  pops of the return queue. The requests that were pushed and those that left are collected.
\<close>

inductive req_run :: "dram_config \<Rightarrow> dram_t \<Rightarrow> nat multiset \<Rightarrow> nat multiset \<Rightarrow> bool" for c where
  start: "dram_new c pid = Some d \<Longrightarrow> req_run c d {#} {#}"
| pop: "req_run c d ins outs \<Longrightarrow> return_queue_pop d = Some (r, d') \<Longrightarrow>
    req_run c d' ins (outs + (case r of None \<Rightarrow> {#} | Some p \<Rightarrow> {#p#}))"
| cycle: "req_run c d ins outs \<Longrightarrow> dram_cycle c tot sim (d, h) = Some (cmd, fin, d', h') \<Longrightarrow>
    req_run c d' ins (outs + (case fin of None \<Rightarrow> {#} | Some (p, mf) \<Rightarrow> {#p#}))"
| cycle_push: "req_run c d ins outs \<Longrightarrow> dram_cycle c tot sim (d, h) = Some (cmd, fin, d', h') \<Longrightarrow>
    dram_full c d' = Some False \<Longrightarrow> dram_push c tot' sim' p (d', h') = Some (d2, h2) \<Longrightarrow>
    req_run c d2 (add_mset p ins) (outs + (case fin of None \<Rightarrow> {#} | Some (p, mf) \<Rightarrow> {#p#}))"

lemma push_input_ok:
  assumes "dram_push c tot sim p (d, h) = Some (d', h')" and "dram_full c d = Some False" and "input_ok c d"
  shows "input_ok c d'"
  using assms(1)
proof (cases rule: dram_pushE)
  case (1 q mf)
  have m: "fp_ok (mrqq d)" "fp_min_len (mrqq d) = 0" "fp_max_len (mrqq d) = 2" using assms(3) by (simp_all add: input_ok_def)
  have "fp_ok q" "fp_min_len q = 0" "fp_max_len q = 2"
    using push_ok [OF m(1) push_room [OF m(1) 1(1)], of "Some (next_req d)"] 1(1) m by auto
  then show ?thesis using 1 assms(2,3) by (auto simp: input_ok_def dram_full_def)
qed

lemma req_run_ok: "req_run c d ins outs \<Longrightarrow> reqs_ok d \<and> input_ok c d \<and> ins = outs + in_dram d"
proof (induction rule: req_run.induct)
  case (start pid d)
  then show ?case using dram_new_ok by simp
next
  case (pop d ins outs r d')
  then show ?case using return_pop_reqs [of d r d'] by (auto simp: input_ok_def dram_full_def ac_simps)
next
  case (cycle d ins outs tot sim h cmd fin d' h')
  then show ?case
    using dram_cycle_reqs [OF cycle.hyps(2)] cycle_makes_room [OF cycle.hyps(2)] by (cases fin) (auto split: prod.splits)
next
  case (cycle_push d ins outs tot sim h cmd fin d' h' tot' sim' p d2 h2)
  have "reqs_ok d' \<and> input_ok c d' \<and> ins = outs + (case fin of None \<Rightarrow> {#} | Some (p, mf) \<Rightarrow> {#p#}) + in_dram d'"
    using dram_cycle_reqs [OF cycle_push.hyps(2)] cycle_makes_room [OF cycle_push.hyps(2)] cycle_push.IH
    by (cases fin) (auto split: prod.splits)
  then show ?case using dram_push_reqs [OF cycle_push.hyps(4)] push_input_ok [OF cycle_push.hyps(4,3)] by auto
qed

subsection \<open>Properties\<close>

text \<open>
  Property C28: the input queue of the controller never overflows, although \<open>full\<close> ignores it: with at most two
  entries, and with a full queue only if the scheduler has room, a cycle keeps this so, and after it a request
  can be pushed whenever \<open>full\<close> allows it, which restores the invariant.
\<close>

theorem dram_input_never_overflows:
  assumes "dram_cycle c tot sim (d, h) = Some (cmd, fin, d', h')" and "reqs_ok d" and "input_ok c d"
  shows "input_ok c d' \<and> (dram_full c d' = Some False \<longrightarrow> heap_mf h' p = Some mf \<longrightarrow>
    dram_id d' = chip (mf_raw_addr mf) \<longrightarrow>
    (\<exists>d2 h2. dram_push c tot sim p (d', h') = Some (d2, h2) \<and> input_ok c d2))"
proof -
  note room = cycle_makes_room [OF assms]
  moreover have "\<exists>d2 h2. dram_push c tot sim p (d', h') = Some (d2, h2) \<and> input_ok c d2"
    if full: "dram_full c d' = Some False" and p: "heap_mf h' p = Some mf" "dram_id d' = chip (mf_raw_addr mf)"
  proof -
    have q: "fp_ok (mrqq d')" "fp_min_len (mrqq d') = 0" "fp_max_len (mrqq d') = 2" "fp_length (mrqq d') \<le> 1"
      using room full by (simp_all add: input_ok_def)
    obtain q' where q': "fp_push (Some (next_req d')) (mrqq d') = Some q'" "fp_ok q'" "fp_min_len q' = 0" "fp_max_len q' = 2"
      using push_ok [OF q(1), of "Some (next_req d')"] q by (auto simp: fp_full_def)
    obtain s where "scheduler_type c = DRAM_FRFCFS \<longrightarrow> frfcfs d' = Some s"
      using room by (auto simp: input_ok_def)
    then have "\<exists>d2 h2. dram_push c tot sim p (d', h') = Some (d2, h2)"
      using p q' full by (auto simp: dram_push_def set_status_def update_mf_def bind_eq_Some_iff que_length_def Dram.count_def Let_def)
    then obtain d2 h2 where d2: "dram_push c tot sim p (d', h') = Some (d2, h2)" by blast
    have "input_ok c d2" using push_input_ok [OF d2 full] room by blast
    with d2 show ?thesis by blast
  qed
  ultimately show ?thesis by blast
qed


subsection \<open>A run\<close>

theorem dram_input_never_overflows_witness:
  "\<exists>d d' h' d2 h2 cmd fin. dram_new demo_dram 0 = Some d \<and>
    dram_cycle demo_dram 0 0 (d, demo_requests) = Some (cmd, fin, d', h') \<and>
    dram_push demo_dram 0 0 1 (d', h') = Some (d2, h2) \<and> input_ok demo_dram d2"
proof -
  have "map_option (\<lambda>d. map_option (\<lambda>(cmd, fin, d', h'). (dram_full demo_dram d', dram_id d',
      map_option (\<lambda>mf. chip (mf_raw_addr mf)) (heap_mf h' 1))) (dram_cycle demo_dram 0 0 (d, demo_requests))) (dram_new demo_dram 0) =
    Some (Some (Some False, 0, Some 0))" by code_simp
  then obtain d cmd fin d' h' mf where d: "dram_new demo_dram 0 = Some d"
    and c: "dram_cycle demo_dram 0 0 (d, demo_requests) = Some (cmd, fin, d', h')"
    and p: "dram_full demo_dram d' = Some False" "heap_mf h' 1 = Some mf" "dram_id d' = chip (mf_raw_addr mf)"
    by auto
  from dram_new_ok [OF d] dram_input_never_overflows [OF c, of 1 mf] p c d show ?thesis by blast
qed


end
