(* ===== verification/Sub_Partition_Runs.thy ===== *)
theory Sub_Partition_Runs
  imports Memory_Partition Dram_Conserve
begin

text \<open>
  What the operations of a memory sub partition leave alone: the addresses and types of the requests that stay alive
  (\<open>kept\<close>), and, once the clock needs more than 32 bits, the delay queue.
\<close>

subsection \<open>The heap\<close>

text \<open>
  Operations on the heap keep the address and type of the requests that stay alive; new requests get new addresses.
\<close>

definition kept :: "mf_heap \<Rightarrow> mf_heap \<Rightarrow> bool" where
  "kept h h' \<longleftrightarrow> heap_next h \<le> heap_next h' \<and>
     (\<forall>p < heap_next h. heap_mf h' p \<noteq> None \<longrightarrow> raws h' p = raws h p)"

lemma kept_refl [simp]: "kept h h"
  by (simp add: kept_def)

lemma kept_trans: "kept a b \<Longrightarrow> kept b d \<Longrightarrow> kept a d"
  unfolding kept_def
  by (metis (mono_tags, lifting) raws_def option.map_disc_iff order_less_le_trans order_trans)

lemma kept_update: "update_mf p f h = Some h' \<Longrightarrow> (\<And>m. mf_raw_addr (f m) = mf_raw_addr m \<and> mf_access (f m) = mf_access m) \<Longrightarrow> kept h h'"
  by (auto simp: update_mf_eq kept_def raws_def split: if_splits)

lemma kept_status: "set_status st now p h = Some h' \<Longrightarrow> kept h h'"
  unfolding set_status_def by (erule kept_update) simp

lemma kept_data_size: "set_data_size n p h = Some h' \<Longrightarrow> kept h h'"
  unfolding set_data_size_def by (erule kept_update) simp

lemma kept_new: "mem_fetch_new cfg now a i x w s t h = Some (p, h') \<Longrightarrow> kept h h'"
  by (drule mem_fetch_new_eq) (auto simp: kept_def raws_def)

lemma kept_delete: "kept h (mf_delete p h)"
  by (auto simp: kept_def mf_delete_def raws_def)

lemma kept_alloc: "mf_alloc al cfg now a ty n w h = Some (p, h') \<Longrightarrow> kept h h'"
  by (auto simp: mf_alloc_def shader_alloc_def partition_alloc_def split: mf_allocator.splits if_splits dest: kept_new)

lemma tags_access_heap: "tags_access ro b t i s = Some (st, idx, ev, s') \<Longrightarrow> cs_heap s' = cs_heap s"
  by (auto simp: tags_access_def bind_eq_Some_iff split: if_splits)

lemma kept_send_read:
  assumes "send_read_request b i p t ro wa s = Some (x, ev, s')"
  shows "kept (cs_heap s) (cs_heap s')"
  using assms
proof (cases rule: send_read_cases)
  case (merged st j ev' s1 mshrs mf)
  then show ?thesis by (simp add: tags_access_heap)
next
  case (sent st j ev' s1 mshrs mf h1 h2)
  then show ?thesis using kept_trans [OF kept_data_size kept_status] by simp
qed simp

lemma kept_send_write: "send_write_request p e t s = Some s' \<Longrightarrow> kept (cs_heap s) (cs_heap s')"
  by (auto simp: send_write_request_def bind_eq_Some_iff dest: kept_status)

lemma kept_write_back: "alloc_write_back env l s = Some (q, s') \<Longrightarrow> kept (cs_heap s) (cs_heap s')"
  by (auto simp: alloc_write_back_def bind_eq_Some_iff dest: kept_alloc)

lemma kept_hit_wb: "wr_hit_wb a i t s = Some (st, s') \<Longrightarrow> kept (cs_heap s) (cs_heap s')"
  by (auto simp: wr_hit_wb_def bind_eq_Some_iff dest!: tags_access_heap)

lemma kept_hit_we: "wr_hit_we i p t s = Some (st, s') \<Longrightarrow> kept (cs_heap s) (cs_heap s')"
  by (auto simp: wr_hit_we_def bind_eq_Some_iff split: if_splits dest!: kept_send_write)

lemma kept_hit_wt: "wr_hit_wt a i p t s = Some (st, s') \<Longrightarrow> kept (cs_heap s) (cs_heap s')"
  by (auto simp: wr_hit_wt_def bind_eq_Some_iff split: if_splits dest!: kept_send_write tags_access_heap)

lemma kept_wr_hit: "wr_hit a i p t s = Some (st, s') \<Longrightarrow> kept (cs_heap s) (cs_heap s')"
  by (auto simp: wr_hit_def wr_hit_global_we_local_wb_def bind_eq_Some_iff split: write_policy_t.splits if_splits
      dest: kept_hit_wb kept_hit_we kept_hit_wt)

lemma kept_finish:
  assumes "finish_write_allocate env dm ev t s = Some (st, s')"
  shows "kept (cs_heap s) (cs_heap s')"
proof -
  have "s' = s \<or> (\<exists>l q s1 x. alloc_write_back env l s = Some (q, s1) \<and> set_status x (ucast t) q (cs_heap s1) = Some (cs_heap s'))"
    using assms by (auto simp: finish_write_allocate_def bind_eq_Some_iff split: if_splits option.splits)
  then show ?thesis using kept_trans kept_write_back kept_status by (elim disjE exE conjE) (simp, blast)
qed

lemma kept_wr_miss: "wr_miss env a i p t s = Some (st, s') \<Longrightarrow> kept (cs_heap s) (cs_heap s')"
proof (cases "m_write_alloc_policy (cs_config s)")
  case NO_WRITE_ALLOCATE
  moreover assume "wr_miss env a i p t s = Some (st, s')"
  ultimately show ?thesis
    by (auto simp: wr_miss_def wr_miss_no_wa_def bind_eq_Some_iff split: if_splits dest: kept_send_write)
next
  case WRITE_ALLOCATE
  moreover assume "wr_miss env a i p t s = Some (st, s')"
  ultimately have wa: "wr_miss_wa env a i p t s = Some (st, s')" by (simp add: wr_miss_def)
  show ?thesis
  proof (cases "s' = s")
    case False
    with wa obtain s1 ma n x w sid tpc h dm ev s2 where "send_write_request p WRITE_REQUEST_SENT t s = Some s1"
      "mem_fetch_new (ce_memory_config env) (ce_now env) ma None x w sid tpc (cs_heap s1) = Some (n, h)"
      "send_read_request (block_addr (cs_config s) a) i n t False True (s1\<lparr>cs_heap := h\<rparr>) = Some (dm, ev, s2)"
      "finish_write_allocate env dm ev t s2 = Some (st, s')"
      by (auto simp: wr_miss_wa_def bind_eq_Some_iff Let_def split: if_splits)
    then have "kept (cs_heap s) (cs_heap s1)" "kept (cs_heap s1) h" "kept h (cs_heap s2)" "kept (cs_heap s2) (cs_heap s')"
      by (auto dest: kept_send_write kept_new kept_send_read kept_finish)
    then show ?thesis by (blast intro: kept_trans)
  qed simp
qed

lemma kept_rd_miss:
  assumes "rd_miss_base env a i p t s = Some (st, s')"
  shows "kept (cs_heap s) (cs_heap s')"
proof (cases "miss_queue_full 1 s")
  case True
  with assms show ?thesis by (simp add: rd_miss_base_def)
next
  case False
  with assms obtain m ev s1 where r: "send_read_request (block_addr (cs_config s) a) i p t False False s = Some (m, ev, s1)"
    by (auto simp: rd_miss_base_def bind_eq_Some_iff)
  show ?thesis
  proof (cases "s' = s1")
    case True
    then show ?thesis using kept_send_read [OF r] by simp
  next
    case other: False
    with assms False r obtain l q s2 where "alloc_write_back env l s1 = Some (q, s2)"
      "send_write_request q WRITE_BACK_REQUEST_SENT t s2 = Some s'"
      by (auto simp: rd_miss_base_def bind_eq_Some_iff split: if_splits option.splits)
    then show ?thesis by (blast intro: kept_trans [OF kept_trans [OF kept_send_read [OF r]]] kept_write_back kept_send_write)
  qed
qed

lemma kept_rd_hit: "rd_hit_base a i p t s = Some (st, s') \<Longrightarrow> kept (cs_heap s) (cs_heap s')"
  by (auto simp: rd_hit_base_def bind_eq_Some_iff split: if_splits dest!: tags_access_heap)

lemma kept_access:
  assumes "data_cache_access env a p t s = Some (st, s')"
  shows "kept (cs_heap s) (cs_heap s')"
proof -
  obtain wr ps i st1 s1 where pr: "process_tag_probe env wr ps a i p t s = Some (st1, s1)" and c: "count_access p ps st1 s1 = Some s'"
    using assms by (auto simp: data_cache_access_def bind_eq_Some_iff Let_def split: if_splits)
  have "kept (cs_heap s) (cs_heap s1)" using pr
    by (auto simp: process_tag_probe_def bind_eq_Some_iff split: if_splits
        dest: kept_wr_hit kept_wr_miss kept_rd_hit kept_rd_miss)
  then show ?thesis using c by (auto simp: count_access_def bind_eq_Some_iff)
qed

subsection \<open>The operations of a sub partition\<close>

definition keeps :: "(sub_state \<Rightarrow> sub_state option) \<Rightarrow> bool" where
  "keeps f \<longleftrightarrow> (\<forall>s h s' h'. f (s, h) = Some (s', h') \<longrightarrow> msp_id s' = msp_id s \<and> kept h h')"

lemma keepsD: "keeps f \<Longrightarrow> f (s, h) = Some (s', h') \<Longrightarrow> msp_id s' = msp_id s \<and> kept h h'"
  by (simp add: keeps_def)

lemma keeps_seq:
  assumes "keeps f" and "keeps g"
  shows "keeps (\<lambda>x. do { y \<leftarrow> f x; g y })"
  unfolding keeps_def
proof (intro allI impI)
  fix s h s' h'
  assume "(do { y \<leftarrow> f (s, h); g y }) = Some (s', h')"
  then obtain s1 h1 where "f (s, h) = Some (s1, h1)" "g (s1, h1) = Some (s', h')" by (auto simp: bind_eq_Some_iff)
  then show "msp_id s' = msp_id s \<and> kept h h'" using keepsD [OF assms(1)] keepsD [OF assms(2)] kept_trans by metis
qed

lemma on_L2_kept:
  assumes "on_L2 f (s, h) = Some (r, s', h')" and "\<And>l r l'. f l = Some (r, l') \<Longrightarrow> kept (cs_heap l) (cs_heap l')"
  shows "msp_id s' = msp_id s \<and> kept h h'"
  using assms(1) assms(2) [of "l\<lparr>cs_heap := h\<rparr>" for l] by (auto simp: on_L2_def bind_eq_Some_iff)

lemma reply_kept:
  assumes "reply_to_icnt now p (s, h) = Some (s', h')"
  shows "msp_id s' = msp_id s \<and> kept h h'"
proof -
  obtain mf mf' where mf: "heap_mf h p = Some mf" and mf': "set_reply mf = Some mf'"
    and st: "set_status IN_PARTITION_L2_TO_ICNT_QUEUE now p (h\<lparr>heap_mf := (heap_mf h)(p \<mapsto> mf')\<rparr>) = Some h'"
    and s': "msp_id s' = msp_id s"
    using assms by (auto simp: reply_to_icnt_def bind_eq_Some_iff)
  have "mf_raw_addr mf' = mf_raw_addr mf \<and> mf_access mf' = mf_access mf" using mf' by (auto simp: set_reply_def split: if_splits)
  then have "kept h (h\<lparr>heap_mf := (heap_mf h)(p \<mapsto> mf')\<rparr>)" using mf by (auto simp: kept_def raws_def)
  then show ?thesis using s' kept_trans kept_status [OF st] by blast
qed

lemma keeps_responses: "keeps (L2_responses now)"
  unfolding keeps_def
proof (intro allI impI)
  fix s h s' h'
  assume a: "L2_responses now (s, h) = Some (s', h')"
  show "msp_id s' = msp_id s \<and> kept h h'"
  proof (cases "s' = s \<and> h' = h")
    case False
    with a obtain p s1 h1 where n: "on_L2 cache_next_access (s, h) = Some (p, s1, h1)"
      and r: "reply_to_icnt now p (s1, h1) = Some (s', h') \<or> s' = untrack p s1 \<and> h' = mf_delete p h1"
      by (auto simp: L2_responses_def bind_eq_Some_iff split: option.splits if_splits)
    have "msp_id s1 = msp_id s \<and> kept h h1"
      by (rule on_L2_kept [OF n]) (auto simp: cache_next_access_def bind_eq_Some_iff)
    moreover have "msp_id s' = msp_id s1 \<and> kept h1 h'"
      using r reply_kept by (auto simp: untrack_def kept_delete split: if_splits)
    ultimately show ?thesis using kept_trans by metis
  qed simp
qed

lemma kept_fill: "cache_fill p t l = Some l' \<Longrightarrow> kept (cs_heap l) (cs_heap l')"
  by (auto simp: cache_fill_def bind_eq_Some_iff split: if_splits dest: kept_data_size)

lemma keeps_from_dram: "keeps (from_dram now)"
  unfolding keeps_def
proof (intro allI impI)
  fix s h s' h'
  assume a: "from_dram now (s, h) = Some (s', h')"
  show "msp_id s' = msp_id s \<and> kept h h'"
  proof (cases "s' = s \<and> h' = h")
    case False
    with a obtain p h1 st where p: "set_status st now p h = Some h1"
      and r: "(msp_id s' = msp_id s \<and> h' = h1) \<or> (\<exists>s1. on_L2 (\<lambda>l2. map_option (Pair ()) (cache_fill p (ucast now) l2)) (s, h1) = Some ((), s1, h') \<and>
        msp_id s' = msp_id s1)"
      by (auto simp: from_dram_def Let_def bind_eq_Some_iff split: if_splits)
    from r have "msp_id s' = msp_id s \<and> kept h1 h'"
    proof
      assume "\<exists>s1. on_L2 (\<lambda>l2. map_option (Pair ()) (cache_fill p (ucast now) l2)) (s, h1) = Some ((), s1, h') \<and>
        msp_id s' = msp_id s1"
      then obtain s1 where "on_L2 (\<lambda>l2. map_option (Pair ()) (cache_fill p (ucast now) l2)) (s, h1) = Some ((), s1, h')"
        "msp_id s' = msp_id s1" by blast
      with on_L2_kept [OF this(1)] show ?thesis by (auto dest: kept_fill)
    qed simp
    then show ?thesis using kept_trans kept_status [OF p] by blast
  qed simp
qed

lemma keeps_L2_cycle: "keeps L2_cycle"
  unfolding keeps_def
proof (intro allI impI)
  fix s h s' h'
  assume a: "L2_cycle (s, h) = Some (s', h')"
  show "msp_id s' = msp_id s \<and> kept h h'"
  proof (cases "msp_L2cache s")
    case (Some l)
    with a obtain r s1 h1 where n: "on_L2 (cache_cycle (\<lambda>_ _. fp_full (msp_L2_dram_queue s))) (s, h) = Some (r, s1, h1)"
      and r: "msp_id s' = msp_id s1" "kept h1 h'"
      by (auto simp: L2_cycle_def bind_eq_Some_iff split: option.splits dest!: kept_status)
    have "msp_id s1 = msp_id s \<and> kept h h1"
      by (rule on_L2_kept [OF n]) (auto simp: cache_cycle_def Let_def bind_eq_Some_iff split: list.splits if_splits)
    then show ?thesis using r kept_trans by metis
  qed (use a in \<open>simp add: L2_cycle_def\<close>)
qed

lemma drop_request_id: "drop_request s = Some s' \<Longrightarrow> msp_id s' = msp_id s"
  by (auto simp: drop_request_def bind_eq_Some_iff)

lemma outcome_kept:
  assumes "L2_outcome now p st ev (s, h) = Some (s', h')"
  shows "msp_id s' = msp_id s \<and> kept h h'"
proof -
  have "\<exists>s1. ((s1, h') = (s, h) \<or> (s1, h') = (untrack p s, mf_delete p h) \<or> reply_to_icnt now p (s, h) = Some (s1, h')) \<and>
      (s' = s1 \<or> drop_request s1 = Some s')"
    using assms by (auto simp: L2_outcome_def bind_eq_Some_iff split: if_splits)
  then show ?thesis by (auto dest!: drop_request_id reply_kept simp: untrack_def kept_delete)
qed

lemma ask_L2_kept:
  assumes "ask_L2 c now p mf (s, h) = Some (s', h')"
  shows "msp_id s' = msp_id s \<and> kept h h'"
proof -
  from assms obtain r ev s1 h1 where acc: "on_L2 (\<lambda>l2. do {
      (st, l2) \<leftarrow> l2_cache_access (l2_env c now) (ma_addr (mf_access mf)) p (ucast now) (l2\<lparr>cs_events := []\<rparr>);
      Some ((st, cs_events l2), l2) }) (s, h) = Some ((r, ev), s1, h1)"
    and out: "L2_outcome now p r ev (s1, h1) = Some (s', h')"
    unfolding ask_L2_def bind_eq_Some_iff split_paired_Ex prod.case by blast
  have "msp_id s1 = msp_id s \<and> kept h h1"
    by (rule on_L2_kept [OF acc]) (auto simp: l2_cache_access_def bind_eq_Some_iff dest!: kept_access)
  with outcome_kept [OF out] kept_trans show ?thesis by metis
qed

lemma keeps_to_L2: "keeps (to_L2 c now)"
  unfolding keeps_def
proof (intro allI impI)
  fix s h s' h'
  assume a: "to_L2 c now (s, h) = Some (s', h')"
  have "(s', h') = (s, h) \<or> (\<exists>p mf. ask_L2 c now p mf (s, h) = Some (s', h')) \<or> (\<exists>p. pass_to_dram now p (s, h) = Some (s', h'))"
    using a by (auto simp: to_L2_def bind_eq_Some_iff split: if_splits option.splits)
  then show "msp_id s' = msp_id s \<and> kept h h'"
    by (auto simp: pass_to_dram_def bind_eq_Some_iff dest!: ask_L2_kept kept_status drop_request_id)
qed

lemma keeps_rop: "keeps (rop_step now cycle)"
  by (auto simp: keeps_def rop_step_def bind_eq_Some_iff split: list.splits if_splits dest: kept_status)

lemma keeps_cache_cycle: "keeps (sub_cache_cycle c now cycle)"
  unfolding sub_cache_cycle_def [abs_def]
  by (intro keeps_seq keeps_responses keeps_from_dram keeps_L2_cycle keeps_to_L2 keeps_rop)

lemma keeps_push: "keeps (sub_push c now cycle req)"
  by (auto simp: keeps_def sub_push_def bind_eq_Some_iff Let_def split: option.splits if_splits dest: kept_status)

lemma keeps_pop: "keeps (\<lambda>x. map_option snd (sub_pop x))"
  by (auto simp: keeps_def sub_pop_def bind_eq_Some_iff Let_def untrack_def kept_delete split: option.splits if_splits)

lemma keeps_top: "keeps (\<lambda>x. map_option snd (sub_top x))"
  by (auto simp: keeps_def sub_top_def bind_eq_Some_iff Let_def untrack_def kept_delete split: option.splits if_splits)

subsection \<open>The delay queue\<close>

lemma on_L2_rop: "on_L2 f (s, h) = Some (r, s', h') \<Longrightarrow> msp_rop s' = msp_rop s"
  by (auto simp: on_L2_def bind_eq_Some_iff)

lemma reply_rop: "reply_to_icnt now p (s, h) = Some (s', h') \<Longrightarrow> msp_rop s' = msp_rop s"
  by (auto simp: reply_to_icnt_def bind_eq_Some_iff)

lemma drop_rop: "drop_request s = Some s' \<Longrightarrow> msp_rop s' = msp_rop s"
  by (auto simp: drop_request_def bind_eq_Some_iff)

lemma responses_rop: "L2_responses now (s, h) = Some (s', h') \<Longrightarrow> msp_rop s' = msp_rop s"
  by (auto simp: L2_responses_def untrack_def bind_eq_Some_iff split: option.splits if_splits dest!: reply_rop on_L2_rop)

lemma from_dram_rop: "from_dram now (s, h) = Some (s', h') \<Longrightarrow> msp_rop s' = msp_rop s"
  by (auto simp: from_dram_def Let_def bind_eq_Some_iff split: if_splits dest!: on_L2_rop)

lemma L2_cycle_rop: "L2_cycle (s, h) = Some (s', h') \<Longrightarrow> msp_rop s' = msp_rop s"
  by (auto simp: L2_cycle_def bind_eq_Some_iff split: if_splits option.splits dest!: on_L2_rop)

lemma outcome_rop: "L2_outcome now p st ev (s, h) = Some (s', h') \<Longrightarrow> msp_rop s' = msp_rop s"
  by (auto simp: L2_outcome_def untrack_def bind_eq_Some_iff split: if_splits dest!: drop_rop reply_rop)

lemma ask_L2_rop:
  assumes "ask_L2 c now p mf (s, h) = Some (s', h')"
  shows "msp_rop s' = msp_rop s"
proof -
  from assms obtain f r ev s1 h1 where "on_L2 f (s, h) = Some ((r, ev), s1, h1)" "L2_outcome now p r ev (s1, h1) = Some (s', h')"
    unfolding ask_L2_def bind_eq_Some_iff split_paired_Ex prod.case by blast
  then show ?thesis using on_L2_rop outcome_rop by metis
qed

lemma to_L2_rop: "to_L2 c now (s, h) = Some (s', h') \<Longrightarrow> msp_rop s' = msp_rop s"
  by (auto simp: to_L2_def pass_to_dram_def bind_eq_Some_iff split: if_splits option.splits dest!: ask_L2_rop drop_rop)

lemma cache_cycle_rop:
  assumes "sub_cache_cycle c now cycle (s, h) = Some (s', h')" and "msp_rop s = (ready, p) # rest"
    and "2 ^ 32 \<le> unat ready"
  shows "msp_rop s' = msp_rop s"
proof -
  obtain s1 h1 s2 h2 s3 h3 s4 h4 where st: "L2_responses now (s, h) = Some (s1, h1)" "from_dram now (s1, h1) = Some (s2, h2)"
    "L2_cycle (s2, h2) = Some (s3, h3)" "to_L2 c now (s3, h3) = Some (s4, h4)" "rop_step now cycle (s4, h4) = Some (s', h')"
    using assms(1) by (auto simp: sub_cache_cycle_def bind_eq_Some_iff)
  have "msp_rop s4 = (ready, p) # rest"
    using responses_rop [OF st(1)] from_dram_rop [OF st(2)] L2_cycle_rop [OF st(3)] to_L2_rop [OF st(4)] assms(2) by simp
  moreover have "\<not> ready \<le> ucast cycle"
    using assms(3) unat_u32_less [of cycle] by (simp add: word_le_nat_alt)
  ultimately show ?thesis using st(5) assms(2) by (simp add: rop_step_def)
qed

text \<open>Whatever happens to a sub partition and its heap.\<close>

inductive sub_steps :: "partition_config \<Rightarrow> sub_state \<Rightarrow> sub_state \<Rightarrow> bool" for c x where
  none: "sub_steps c x x"
| cycle: "sub_steps c x (s, h) \<Longrightarrow> sub_cache_cycle c now cyc (s, h) = Some (s', h') \<Longrightarrow> sub_steps c x (s', h')"
| push: "sub_steps c x (s, h) \<Longrightarrow> sub_push c now ready req (s, h) = Some (s', h') \<Longrightarrow> sub_steps c x (s', h')"
| pop: "sub_steps c x (s, h) \<Longrightarrow> sub_pop (s, h) = Some (r, s', h') \<Longrightarrow> sub_steps c x (s', h')"
| top: "sub_steps c x (s, h) \<Longrightarrow> sub_top (s, h) = Some (r, s', h') \<Longrightarrow> sub_steps c x (s', h')"
| rest: "sub_steps c x (s, h) \<Longrightarrow> sub_steps c x (s, h')"

lemma rop_stuck:
  assumes "sub_steps c x y" and "msp_rop (fst x) = (ready, p) # rest" and "2 ^ 32 \<le> unat ready"
  shows "\<exists>rest'. msp_rop (fst y) = (ready, p) # rest'"
  using assms(1)
proof (induction rule: sub_steps.induct)
  case none
  then show ?case using assms(2) by simp
next
  case (cycle s h now cyc s' h')
  then show ?case using cache_cycle_rop assms(3) by (metis fst_conv)
next
  case (push s h now r req s' h')
  then show ?case by (auto simp: sub_push_def Let_def bind_eq_Some_iff split: option.splits if_splits)
next
  case (pop s h r s' h')
  then show ?case by (auto simp: sub_pop_def Let_def bind_eq_Some_iff untrack_def split: option.splits if_splits)
next
  case (top s h r s' h')
  then show ?case by (auto simp: sub_top_def bind_eq_Some_iff untrack_def split: option.splits if_splits)
qed simp

subsection \<open>Properties\<close>

text \<open>
  Property C26: after \<open>2 ^ 32\<close> cycles the delay queue never moves again. \<open>push\<close> stores the cycle a request is ready in 64 bits, but \<open>cache_cycle\<close>
  is handed the current cycle in 32, so the request stays at the head of the queue for ever, whatever the
  sub partition does, and everything behind it with it.
\<close>

theorem rop_queue_stuck_after_wrap:
  assumes "sub_push c now cyc (Some p) (s, h) = Some (s1, h1)" and "heap_mf h p = Some mf" and "\<not> istexture mf"
    and "msp_rop s = []" and "2 ^ 32 \<le> unat cyc" and "unat cyc + unat (pc_rop_latency c) < 2 ^ 64"
    and "sub_steps c (s1, h1) (s', h')"
  shows "\<exists>rest. msp_rop s' = (cyc + ucast (pc_rop_latency c), p) # rest"
proof -
  have "msp_rop s1 = [(cyc + ucast (pc_rop_latency c), p)]"
    using assms(1-4) by (auto simp: sub_push_def bind_eq_Some_iff Let_def)
  moreover have "2 ^ 32 \<le> unat (cyc + ucast (pc_rop_latency c))"
    using assms(5,6) by (subst unat_add_lem [THEN iffD1]) (simp_all add: )
  ultimately show ?thesis using rop_stuck [OF assms(7)] by simp
qed

subsection \<open>An example\<close>

text \<open>A partition without an L2 cache.\<close>

definition demo_partition :: partition_config where
  "demo_partition = \<lparr>pc_dram = demo_dram\<lparr>nbk := 1, nbkgrp := 1\<rparr>, pc_l2 = None, pc_texture_only = False, pc_queues = (4, 4, 4, 4),
     pc_rop_latency = 0, pc_dram_latency = 10, pc_memory = \<lparr>mc_address_mapping = column_only, mc_icnt_flit_size = 32\<rparr>\<rparr>"

lemma demo_late:
  "map_option (\<lambda>s. map_option (\<lambda>(s1, h1). (msp_rop s = [], sub_cache_cycle demo_partition 4294967296 0 (s1, h1) = None))
    (sub_push demo_partition 4294967296 4294967296 (Some 0) (s, demo_requests))) (sub_partition_new demo_partition 0) =
    Some (Some (True, False))"
  by code_simp

theorem rop_queue_stuck_after_wrap_witness:
  "\<exists>s s1 h1 s2 h2 rest. sub_partition_new demo_partition 0 = Some s \<and>
    sub_push demo_partition 4294967296 4294967296 (Some 0) (s, demo_requests) = Some (s1, h1) \<and>
    sub_cache_cycle demo_partition 4294967296 0 (s1, h1) = Some (s2, h2) \<and> msp_rop s2 = (4294967296, 0) # rest"
proof -
  obtain s s1 h1 s2 h2 where s: "sub_partition_new demo_partition 0 = Some s" "msp_rop s = []"
    and p: "sub_push demo_partition 4294967296 4294967296 (Some 0) (s, demo_requests) = Some (s1, h1)"
    and c: "sub_cache_cycle demo_partition 4294967296 0 (s1, h1) = Some (s2, h2)"
    using demo_late by auto
  have st: "sub_steps demo_partition (s1, h1) (s2, h2)" by (rule sub_steps.cycle [OF sub_steps.none c])
  have "heap_mf demo_requests 0 = Some (demo_request 7)" by (simp add: demo_requests_def heap_empty_def)
  from rop_queue_stuck_after_wrap [OF p this _ s(2) _ _ st] have "\<exists>rest. msp_rop s2 = (4294967296, 0) # rest"
    by (simp add: demo_partition_def demo_request_def istexture_def)
  with s p c show ?thesis by blast
qed

end
