(* ===== verification/Partition_Credits.thy ===== *)
theory Partition_Credits
  imports Sub_Partition_Runs
begin

text \<open>
  The arbitration of a memory partition: credits are never lost, never run out for a sub partition that has
  nothing in flight, and bound what is in flight; the choice between the sub partitions is fair. The interface
  between the partition and its arbitration is the locale \<open>credit_bank\<close>.
\<close>

subsection \<open>A bank of credits\<close>

text \<open>
  \<open>ok a L\<close>: the bank \<open>a\<close> accounts for \<open>L i\<close> loans of every customer \<open>i < n\<close>. A granted loan succeeds, an existing one can always be
  returned, and a customer without a loan is granted one.
\<close>

locale credit_bank =
  fixes ok :: "nat \<Rightarrow> int \<Rightarrow> 'a \<Rightarrow> (nat \<Rightarrow> nat) \<Rightarrow> bool"
    and grants :: "nat \<Rightarrow> 'a \<Rightarrow> bool option"
    and borrow :: "nat \<Rightarrow> 'a \<Rightarrow> 'a option"
    and give_back :: "nat \<Rightarrow> 'a \<Rightarrow> 'a option"
  assumes borrow_law: "ok n l a L \<Longrightarrow> i < n \<Longrightarrow> grants i a = Some True \<Longrightarrow>
      \<exists>a'. borrow i a = Some a' \<and> ok n l a' (L(i := Suc (L i)))"
    and return_law: "ok n l a L \<Longrightarrow> i < n \<Longrightarrow> 0 < L i \<Longrightarrow> \<exists>a'. give_back i a = Some a' \<and> ok n l a' (L(i := L i - 1))"
    and idle_law: "ok n l a L \<Longrightarrow> i < n \<Longrightarrow> L i = 0 \<Longrightarrow> grants i a = Some True"
    and bound_law: "ok n l a L \<Longrightarrow> l \<noteq> 0 \<Longrightarrow> int (sum L {..<n}) \<le> int n + l"
begin

lemma borrowed: "ok n l a L \<Longrightarrow> i < n \<Longrightarrow> grants i a = Some True \<Longrightarrow> borrow i a = Some a' \<Longrightarrow>
    ok n l a' (L(i := Suc (L i)))"
  using borrow_law by fastforce

lemma returned: "ok n l a L \<Longrightarrow> i < n \<Longrightarrow> 0 < L i \<Longrightarrow> give_back i a = Some a' \<Longrightarrow> ok n l a' (L(i := L i - 1))"
  using return_law by fastforce

text \<open>Returning a loan makes room for another of the same customer.\<close>

lemma last_loan:
  assumes "ok n l a L" and "i < n" and "L i = 1"
  shows "\<exists>a'. give_back i a = Some a' \<and> grants i a' = Some True"
  using return_law [OF assms(1,2)] idle_law [of n l _ "L(i := L i - 1)" i] assms by fastforce

end

definition account_ok :: "nat \<Rightarrow> int \<Rightarrow> arbitration \<Rightarrow> (nat \<Rightarrow> nat) \<Rightarrow> bool" where
  "account_ok n l a L \<longleftrightarrow> length (m_private_credit a) = n \<and> m_private_credit_limit a = 1 \<and>
     m_shared_credit_limit a = l \<and> (l \<noteq> 0 \<longrightarrow> m_shared_credit a \<le> l) \<and>
     (\<forall>i<n. 0 \<le> m_private_credit a ! i \<and> m_private_credit a ! i \<le> 1 \<and> m_private_credit a ! i \<le> int (L i)) \<and>
     m_shared_credit a = (\<Sum>i<n. int (L i) - m_private_credit a ! i)"

lemma sum_change:
  fixes f g :: "nat \<Rightarrow> int"
  assumes "i < n" and "\<And>j. j < n \<Longrightarrow> j \<noteq> i \<Longrightarrow> g j = f j"
  shows "sum g {..<n} = sum f {..<n} + (g i - f i)"
proof -
  have "sum g {..<n} = g i + sum g ({..<n} - {i})" "sum f {..<n} = f i + sum f ({..<n} - {i})"
    using assms(1) by (simp_all add: sum.remove)
  moreover have "sum g ({..<n} - {i}) = sum f ({..<n} - {i})" using assms(2) by (intro sum.cong) auto
  ultimately show ?thesis by simp
qed

interpretation arb: credit_bank account_ok has_credits borrow_credit return_credit
proof
  fix n l a L i
  assume ok: "account_ok n l a L" and i: "i < n"
  let ?p = "m_private_credit a"
  have len: "length ?p = n" and lim: "m_private_credit_limit a = 1" "m_shared_credit_limit a = l"
    and pi: "0 \<le> ?p ! i" "?p ! i \<le> 1" "?p ! i \<le> int (L i)" using ok i by (simp_all add: account_ok_def)
  have shared: "m_shared_credit a = (\<Sum>i<n. int (L i) - ?p ! i)" using ok by (simp add: account_ok_def)
  have each: "0 \<le> int (L j) - ?p ! j" if "j < n" for j using ok that by (simp add: account_ok_def)
  {
    assume g: "has_credits i a = Some True"
    show "\<exists>a'. borrow_credit i a = Some a' \<and> account_ok n l a' (L(i := Suc (L i)))"
    proof (cases "?p ! i < 1")
      case True
      then have "(\<Sum>j<n. int ((L(i := Suc (L i))) j) - (?p[i := ?p ! i + 1]) ! j) = m_shared_credit a"
        unfolding shared using i len by (intro sum.cong) (auto simp: nth_list_update)
      with True ok i len lim show ?thesis
        by (auto simp: borrow_credit_def account_ok_def nth_list_update)
    next
      case False
      have "(\<Sum>j<n. int ((L(i := Suc (L i))) j) - ?p ! j) = m_shared_credit a + 1"
        unfolding shared using sum_change [OF i, of "\<lambda>j. int ((L(i := Suc (L i))) j) - ?p ! j" "\<lambda>j. int (L j) - ?p ! j"] by simp
      with False ok i len lim g show ?thesis
        by (auto simp: borrow_credit_def account_ok_def has_credits_def has_shared_def)
    qed
  next
    assume pos: "0 < L i"
    show "\<exists>a'. return_credit i a = Some a' \<and> account_ok n l a' (L(i := L i - 1))"
    proof (cases "0 < ?p ! i")
      case True
      then have "(\<Sum>j<n. int ((L(i := L i - 1)) j) - (?p[i := ?p ! i - 1]) ! j) = m_shared_credit a"
        unfolding shared using i len pos by (intro sum.cong) (auto simp: nth_list_update)
      moreover have "0 \<le> m_shared_credit a" unfolding shared by (rule sum_nonneg) (use each in auto)
      ultimately show ?thesis using True ok i len lim pos
        by (auto simp: return_credit_def account_ok_def nth_list_update)
    next
      case False
      have eq: "(\<Sum>j<n. int ((L(i := L i - 1)) j) - ?p ! j) = m_shared_credit a - 1"
        unfolding shared using sum_change [OF i, of "\<lambda>j. int ((L(i := L i - 1)) j) - ?p ! j" "\<lambda>j. int (L j) - ?p ! j"] pos
        by (simp add: of_nat_diff)
      moreover have "0 \<le> (\<Sum>j<n. int ((L(i := L i - 1)) j) - ?p ! j)"
        by (rule sum_nonneg) (use each False pos pi in auto)
      ultimately show ?thesis using False ok i len lim pos pi
        by (auto simp: return_credit_def account_ok_def)
    qed
  next
    assume "L i = 0"
    then show "has_credits i a = Some True" using pi len lim i by (simp add: has_credits_def)
  }
next
  fix n l a L
  assume ok: "account_ok n l a L" and l: "l \<noteq> 0"
  have "int (sum L {..<n}) = m_shared_credit a + (\<Sum>i<n. m_private_credit a ! i)"
    using ok by (simp add: account_ok_def sum_subtractf)
  also have "(\<Sum>i<n. m_private_credit a ! i) \<le> (\<Sum>i<n. 1)"
    by (rule sum_mono) (use ok in \<open>auto simp: account_ok_def\<close>)
  finally show "int (sum L {..<n}) \<le> int n + l" using ok l by (simp add: account_ok_def)
qed

subsection \<open>What is in flight\<close>

definition in_flight :: "memory_partition_unit \<Rightarrow> nat multiset" where
  "in_flight m = mset (map snd (mp_latency_queue m)) + in_dram (mp_dram m)"

definition home :: "partition_config \<Rightarrow> memory_partition_unit \<Rightarrow> mf_heap \<Rightarrow> nat \<Rightarrow> nat option" where
  "home c m h p = (case heap_mf h p of None \<Rightarrow> None | Some mf \<Rightarrow> home_of c m mf)"

definition same_subs :: "memory_partition_unit \<Rightarrow> memory_partition_unit \<Rightarrow> bool" where
  "same_subs m m' \<longleftrightarrow> mp_id m' = mp_id m \<and> map msp_id (mp_subs m') = map msp_id (mp_subs m)"

lemma same_subs_length: "same_subs m m' \<Longrightarrow> length (mp_subs m') = length (mp_subs m)"
  by (metis same_subs_def length_map)

lemma home_of_less: "home_of c m mf = Some i \<Longrightarrow> i < length (mp_subs m)"
  by (auto simp: home_of_def Let_def split: if_splits)

lemma home_less: "home c m h p = Some i \<Longrightarrow> i < length (mp_subs m)"
  by (auto simp: home_def home_of_less split: option.splits)

lemma home_of_same:
  assumes "same_subs m m'" and "mf_raw_addr mf' = mf_raw_addr mf"
  shows "home_of c m' mf' = home_of c m mf"
proof -
  have "msp_id (mp_subs m' ! i) = msp_id (mp_subs m ! i)" if "i < length (mp_subs m)" for i
  proof -
    have "map msp_id (mp_subs m') ! i = map msp_id (mp_subs m) ! i"
      using assms(1) unfolding same_subs_def by (elim conjE) (simp only:)
    then show ?thesis using that same_subs_length [OF assms(1)] by simp
  qed
  note ids = this
  have id: "mp_id m' = mp_id m" using assms(1) by (simp add: same_subs_def)
  let ?i = "nat (global_sub_partition_id_to_local_id c m (sub_partition (mf_raw_addr mf)))"
  show ?thesis
  proof (cases "?i < length (mp_subs m)")
    case True
    then show ?thesis using ids [OF True]
      by (simp add: home_of_def Let_def global_sub_partition_id_to_local_id_def id assms(2) same_subs_length [OF assms(1)])
  next
    case False
    then show ?thesis
      by (simp add: home_of_def Let_def global_sub_partition_id_to_local_id_def id assms(2) same_subs_length [OF assms(1)])
  qed
qed

lemma home_same:
  assumes "same_subs m m'" and "raws h' p = raws h p"
  shows "home c m' h' p = home c m h p"
proof (cases "heap_mf h p")
  case None
  then show ?thesis using assms(2) by (simp add: home_def raws_def)
next
  case (Some mf)
  then obtain mf' where "heap_mf h' p = Some mf'" "mf_raw_addr mf' = mf_raw_addr mf"
    using assms(2) by (auto simp: raws_def)
  with Some home_of_same [OF assms(1)] show ?thesis by (simp add: home_def)
qed

text \<open>The loans of the sub partitions: their requests in flight.\<close>

definition loans :: "(nat \<Rightarrow> nat option) \<Rightarrow> nat multiset \<Rightarrow> nat \<Rightarrow> nat" where
  "loans H M i = size (filter_mset (\<lambda>p. H p = Some i) M)"

lemma loans_add: "H p = Some i \<Longrightarrow> loans H (add_mset p M) = (loans H M)(i := Suc (loans H M i))"
  by (auto simp: loans_def fun_eq_iff)

lemma loans_cong:
  assumes "\<And>p. p \<in># M \<Longrightarrow> H' p = H p"
  shows "loans H' M = loans H M"
proof -
  have "filter_mset (\<lambda>p. H' p = Some i) M = filter_mset (\<lambda>p. H p = Some i) M" for i
    using assms by (intro filter_mset_cong) auto
  then show ?thesis by (simp add: loans_def fun_eq_iff)
qed

lemma sum_bump:
  fixes f :: "nat \<Rightarrow> nat"
  assumes "i < n"
  shows "sum (f(i := Suc (f i))) {..<n} = Suc (sum f {..<n})"
proof -
  have "sum (f(i := Suc (f i))) ({..<n} - {i}) = sum f ({..<n} - {i})" by (intro sum.cong) auto
  then show ?thesis using assms by (simp add: sum.remove [of "{..<n}" i])
qed

lemma loans_total:
  assumes "\<And>p. p \<in># M \<Longrightarrow> \<exists>i<n. H p = Some i"
  shows "sum (loans H M) {..<n} = size M"
  using assms
proof (induction M)
  case (add p M)
  then obtain i where i: "i < n" "H p = Some i" by auto
  have "sum (loans H (add_mset p M)) {..<n} = sum (loans H M) {..<n} + 1"
    unfolding loans_add [where H = H and p = p and i = i, OF i(2)] using sum_bump [OF i(1)] by simp
  with add show ?case by simp
qed (simp add: loans_def)

text \<open>The books of a partition balance.\<close>

definition books :: "partition_config \<Rightarrow> memory_partition_unit \<Rightarrow> mf_heap \<Rightarrow> bool" where
  "books c m h \<longleftrightarrow> reqs_ok (mp_dram m) \<and> replies_ok h (mp_dram m) \<and> length (mp_subs m) = n_subs c \<and>
     (\<forall>p. Multiset.count (in_flight m) p \<le> 1) \<and> (\<forall>p \<in># in_flight m. home c m h p \<noteq> None) \<and>
     account_ok (n_subs c) (shared_limit (pc_dram c)) (mp_arbitration m) (loans (home c m h) (in_flight m))"

text \<open>
  The requests that wait for the DRAM in a sub partition belong to it and are not in flight: what the
  interconnect, which routes by the same decoded address, and the single ownership of requests provide.
\<close>

definition well_routed :: "partition_config \<Rightarrow> memory_partition_unit \<Rightarrow> mf_heap \<Rightarrow> bool" where
  "well_routed c m h \<longleftrightarrow> (\<forall>i < length (mp_subs m). \<forall>p \<in> set (items (msp_L2_dram_queue (mp_subs m ! i))).
     home c m h p = Some i \<and> p \<notin># in_flight m)"

definition same_waiting :: "memory_partition_unit \<Rightarrow> memory_partition_unit \<Rightarrow> bool" where
  "same_waiting m m' \<longleftrightarrow> map msp_L2_dram_queue (mp_subs m') = map msp_L2_dram_queue (mp_subs m)"

text \<open>Steps that move requests within what is in flight, let one return its credit, or take a new one in.\<close>

lemma books_move:
  assumes "books c m h" and "same_subs m m'" and "in_flight m' = in_flight m" and "reqs_ok (mp_dram m')"
    and "replies_ok h' (mp_dram m')" and "mp_arbitration m' = mp_arbitration m"
    and "\<And>p. p \<in># in_flight m \<Longrightarrow> raws h' p = raws h p"
  shows "books c m' h'"
proof -
  have "loans (home c m' h') (in_flight m) = loans (home c m h) (in_flight m)"
    by (rule loans_cong) (rule home_same [OF assms(2,7)])
  moreover have "home c m' h' p = home c m h p" if "p \<in># in_flight m" for p by (rule home_same [OF assms(2) assms(7) [OF that]])
  ultimately show ?thesis using assms same_subs_length [OF assms(2)] by (simp add: books_def)
qed

lemma books_leave:
  assumes "books c m h" and "same_subs m m'" and "in_flight m = add_mset p (in_flight m')" and "reqs_ok (mp_dram m')"
    and "replies_ok h' (mp_dram m')" and "home c m h p = Some i"
    and "return_credit i (mp_arbitration m) = Some (mp_arbitration m')"
    and "\<And>q. q \<noteq> p \<Longrightarrow> raws h' q = raws h q"
  shows "books c m' h'"
proof -
  have once: "Multiset.count (in_flight m') q \<le> 1" "p \<notin># in_flight m'" for q
  proof -
    have "Multiset.count (add_mset p (in_flight m')) q \<le> 1" for q using assms(1,3) by (metis books_def)
    from this [of q] this [of p] show "Multiset.count (in_flight m') q \<le> 1" "p \<notin># in_flight m'"
      by (auto simp: not_in_iff split: if_splits)
  qed
  have same: "home c m' h' q = home c m h q" if "q \<in># in_flight m'" for q
    using that once(2) by (intro home_same [OF assms(2) assms(8)]) auto
  have i: "i < n_subs c" using home_less [OF assms(6)] assms(1) by (simp add: books_def)
  let ?L = "loans (home c m h) (in_flight m')"
  have "loans (home c m h) (in_flight m) = ?L(i := Suc (?L i))" unfolding assms(3) by (rule loans_add [where H = "home c m h" and p = p and i = i, OF assms(6)])
  then have "account_ok (n_subs c) (shared_limit (pc_dram c)) (mp_arbitration m) (?L(i := Suc (?L i)))"
    using assms(1) by (simp add: books_def)
  from arb.returned [OF this i _ assms(7)] have
    "account_ok (n_subs c) (shared_limit (pc_dram c)) (mp_arbitration m') ?L" by simp
  moreover have "loans (home c m' h') (in_flight m') = ?L" by (rule loans_cong) (rule same)
  ultimately show ?thesis using assms once same same_subs_length [OF assms(2)] by (auto simp: books_def)
qed

lemma books_enter:
  assumes "books c m h" and "same_subs m m'" and "in_flight m' = add_mset p (in_flight m)" and "mp_dram m' = mp_dram m"
    and "home c m h p = Some i" and "p \<notin># in_flight m" and "has_credits i (mp_arbitration m) = Some True"
    and "borrow_credit i (mp_arbitration m) = Some (mp_arbitration m')" and "raws h' = raws h"
  shows "books c m' h'"
proof -
  have same: "home c m' h' = home c m h" using home_same [OF assms(2), of h' _ h c] assms(9) by (simp add: fun_eq_iff)
  have i: "i < n_subs c" using home_less [OF assms(5)] assms(1) by (simp add: books_def)
  let ?L = "loans (home c m h) (in_flight m)"
  have "account_ok (n_subs c) (shared_limit (pc_dram c)) (mp_arbitration m) ?L" using assms(1) by (simp add: books_def)
  from arb.borrowed [OF this i assms(7,8)] have
    "account_ok (n_subs c) (shared_limit (pc_dram c)) (mp_arbitration m') (loans (home c m h) (in_flight m'))"
    unfolding assms(3) loans_add [where H = "home c m h" and p = p and i = i, OF assms(5)] .
  moreover have "Multiset.count (in_flight m') q \<le> 1" for q
    using assms(1,3,6) by (auto simp: books_def not_in_iff)
  moreover have "replies_ok h' (mp_dram m')" using assms(1,4,9) by (simp add: books_def replies_ok_def)
  ultimately show ?thesis using assms same same_subs_length [OF assms(2)] by (auto simp: books_def)
qed

lemma pop_items:
  assumes "return_queue_pop d = Some (r, d')" and "reqs_ok d"
  shows "items (returnq d) = (case r of None \<Rightarrow> [] | Some p \<Rightarrow> [p]) @ items (returnq d')"
  using assms pop_ok [of "returnq d"] by (auto simp: return_queue_pop_def bind_eq_Some_iff reqs_ok_def)

subsection \<open>The parts of a cycle\<close>

lemma same_subs_refl [simp]: "same_subs m m" "same_waiting m m"
  by (simp_all add: same_subs_def same_waiting_def)

lemma same_subs_upd:
  assumes "i < length (mp_subs m)" and "msp_id s = msp_id (mp_subs m ! i)"
    and "msp_L2_dram_queue s = msp_L2_dram_queue (mp_subs m ! i)"
  shows "same_subs m (m\<lparr>mp_subs := (mp_subs m)[i := s]\<rparr>)" "same_waiting m (m\<lparr>mp_subs := (mp_subs m)[i := s]\<rparr>)"
  using assms by (auto simp: same_subs_def same_waiting_def map_update list_update_id
      intro: list_update_same_conv [THEN iffD2])

lemma well_routed_move:
  assumes "well_routed c m h" and "same_subs m m'" and "same_waiting m m'"
    and "\<And>p. p \<in># in_flight m' \<Longrightarrow> p \<in># in_flight m"
    and "\<And>p. p \<notin># in_flight m \<Longrightarrow> raws h' p = raws h p"
  shows "well_routed c m' h'"
  unfolding well_routed_def
proof (intro allI impI ballI)
  fix i p
  assume i: "i < length (mp_subs m')" and p: "p \<in> set (items (msp_L2_dram_queue (mp_subs m' ! i)))"
  have len: "length (mp_subs m') = length (mp_subs m)" by (rule same_subs_length [OF assms(2)])
  have "map msp_L2_dram_queue (mp_subs m') ! i = map msp_L2_dram_queue (mp_subs m) ! i"
    using assms(3) unfolding same_waiting_def by (simp only:)
  then have "msp_L2_dram_queue (mp_subs m' ! i) = msp_L2_dram_queue (mp_subs m ! i)" using i len by simp
  then have "home c m h p = Some i" "p \<notin># in_flight m" using assms(1) i p len by (auto simp: well_routed_def)
  then show "home c m' h' p = Some i \<and> p \<notin># in_flight m'"
    using home_same [OF assms(2) assms(5)] assms(4) by auto
qed

lemma return_to_L2_cases:
  assumes "return_to_L2 c now (m, h) = Some (m', h')"
  obtains (none) d where "return_queue_pop (mp_dram m) = Some (None, d)" "m' = m\<lparr>mp_dram := d\<rparr>" "h' = h"
  | (stay) "m' = m" "h' = h"
  | (dead) p d mf where "return_queue_pop (mp_dram m) = Some (Some p, d)" "heap_mf h p = Some mf"
      "ma_type (mf_access mf) = L1_WRBK_ACC"
  | (reply) p d mf i q a where "return_queue_pop (mp_dram m) = Some (Some p, d)" "heap_mf h p = Some mf"
      "home_of c m mf = Some i" "return_credit i (mp_arbitration m) = Some a" "raws h' = raws h"
      "m' = m\<lparr>mp_subs := (mp_subs m)[i := (mp_subs m ! i)\<lparr>msp_dram_L2_queue := q\<rparr>], mp_arbitration := a, mp_dram := d\<rparr>"
proof (cases "return_queue_top (mp_dram m)")
  case None
  then obtain r d where d: "return_queue_pop (mp_dram m) = Some (r, d)" "m' = m\<lparr>mp_dram := d\<rparr>" "h' = h"
    using assms by (auto simp: return_to_L2_def bind_eq_Some_iff)
  with None return_top_pop [OF d(1)] none show ?thesis by simp
next
  case (Some p)
  then obtain mf i where mf: "heap_mf h p = Some mf" and i: "home_of c m mf = Some i"
    using assms by (auto simp: return_to_L2_def bind_eq_Some_iff)
  show ?thesis
  proof (cases "fp_full (msp_dram_L2_queue (mp_subs m ! i))")
    case True
    then show ?thesis using assms Some mf i stay by (auto simp: return_to_L2_def)
  next
    case room: False
    have top: "r = Some p" if "return_queue_pop (mp_dram m) = Some (r, d)" for r d
      using return_top_pop [OF that] Some by simp
    show ?thesis
    proof (cases "ma_type (mf_access mf) = L1_WRBK_ACC")
      case True
      then show ?thesis using assms Some mf i room top dead by (auto simp: return_to_L2_def bind_eq_Some_iff)
    next
      case False
      then obtain q a r d where a: "return_credit i (mp_arbitration m) = Some a"
        and s: "set_status IN_PARTITION_DRAM_TO_L2_QUEUE now p h = Some h'"
        and d: "return_queue_pop (mp_dram m) = Some (r, d)"
        and m': "m' = m\<lparr>mp_subs := (mp_subs m)[i := (mp_subs m ! i)\<lparr>msp_dram_L2_queue := q\<rparr>], mp_arbitration := a, mp_dram := d\<rparr>"
        using assms Some mf i room by (auto simp: return_to_L2_def bind_eq_Some_iff)
      show ?thesis by (rule reply [OF d [unfolded top [OF d]] mf i a set_status_raws [OF s] m'])
    qed
  qed
qed

lemma return_to_L2_books:
  assumes "return_to_L2 c now (m, h) = Some (m', h')" and "books c m h" and "well_routed c m h"
  shows "books c m' h' \<and> well_routed c m' h'"
proof -
  have ok: "reqs_ok (mp_dram m)" "replies_ok h (mp_dram m)" using assms(2) by (simp_all add: books_def)
  from assms(1) show ?thesis
  proof (cases rule: return_to_L2_cases)
    case (none d)
    have d: "reqs_ok d" "in_dram d = in_dram (mp_dram m)" "items (returnq d) = items (returnq (mp_dram m))"
      using return_pop_reqs [OF none(1) ok(1)] pop_items [OF none(1) ok(1)] by simp_all
    have f: "in_flight m' = in_flight m" using none d by (simp add: in_flight_def)
    have s: "same_subs m m'" "same_waiting m m'" using none by (simp_all add: same_subs_def same_waiting_def)
    show ?thesis
      using books_move [OF assms(2) s(1) f] well_routed_move [OF assms(3) s] none d ok f by (simp add: replies_ok_def)
  next
    case stay
    then show ?thesis using assms by simp
  next
    case (dead p d mf)
    have "p \<in> set (items (returnq (mp_dram m)))" using pop_items [OF dead(1) ok(1)] by simp
    then show ?thesis using ok(2) dead by (auto simp: replies_ok_def raws_def answered_def)
  next
    case (reply p d mf i q a)
    have i: "i < length (mp_subs m)" by (rule home_of_less [OF reply(3)])
    have d: "reqs_ok d" "in_dram (mp_dram m) = add_mset p (in_dram d)" "items (returnq (mp_dram m)) = p # items (returnq d)"
      using return_pop_reqs [OF reply(1) ok(1)] pop_items [OF reply(1) ok(1)] by simp_all
    have f: "in_flight m = add_mset p (in_flight m')" using reply d by (simp add: in_flight_def)
    have s: "same_subs m m'" "same_waiting m m'"
      using same_subs_upd [OF i, of "(mp_subs m ! i)\<lparr>msp_dram_L2_queue := q\<rparr>"] unfolding reply(6)
      by (simp_all add: same_subs_def same_waiting_def)
    have r: "replies_ok h' (mp_dram m')" using ok(2) d(3) reply by (simp add: replies_ok_def)
    have "home c m h p = Some i" using reply(2,3) by (simp add: home_def)
    from books_leave [OF assms(2) s(1) f _ r this] well_routed_move [OF assms(3) s] reply d f show ?thesis by simp
  qed
qed

lemma cycle_dram_books:
  assumes "cycle_dram c tot sim (m, h) = Some (m', h')" and "books c m h" and "well_routed c m h"
  shows "books c m' h' \<and> well_routed c m' h'"
proof -
  obtain cmd fin d m1 where cyc: "dram_cycle (pc_dram c) tot sim (mp_dram m, h) = Some (cmd, fin, d, h')"
    and fini: "(case fin of None \<Rightarrow> Some m | Some (p, mf) \<Rightarrow> partition_set_done c p mf m) = Some m1"
    and m': "m' = m1\<lparr>mp_dram := d\<rparr>"
    using assms(1) by (auto simp: cycle_dram_def bind_eq_Some_iff)
  have ok: "reqs_ok (mp_dram m)" "replies_ok h (mp_dram m)" using assms(2) by (simp_all add: books_def)
  note reqs = dram_cycle_reqs [OF cyc ok(1)]
  show ?thesis
  proof (cases fin)
    case None
    then have d: "reqs_ok d" "in_dram d = in_dram (mp_dram m)" "raws h' = raws h" "replies_ok h' d" and m: "m1 = m"
      using reqs ok(2) fini by auto
    have f: "in_flight m' = in_flight m" unfolding m' m by (simp add: in_flight_def d)
    have s: "same_subs m m'" "same_waiting m m'" unfolding m' m by (simp_all add: same_subs_def same_waiting_def)
    show ?thesis
      using books_move [OF assms(2) s(1) f] well_routed_move [OF assms(3) s] d f unfolding m' m by simp
  next
    case (Some pmf)
    then obtain p mf where fin: "fin = Some (p, mf)" by (cases pmf) auto
    then have d: "reqs_ok d" "in_dram (mp_dram m) = add_mset p (in_dram d)" "raws h' = (raws h)(p := None)"
        "raws h p = Some (mf_raw_addr mf, ma_type (mf_access mf))" "\<not> answered (ma_type (mf_access mf))"
        "returnq d = returnq (mp_dram m)"
      using reqs by auto
    have "is_write_back mf" using d(5) by (auto simp: answered_def is_write_back_def)
    with fini fin obtain i a where i: "home_of c m mf = Some i" and a: "return_credit i (mp_arbitration m) = Some a"
      and m1: "m1 = m\<lparr>mp_arbitration := a, mp_subs := (mp_subs m)[i := untrack p (mp_subs m ! i)]\<rparr>"
      by (auto simp: partition_set_done_def bind_eq_Some_iff)
    have f: "in_flight m = add_mset p (in_flight m')" unfolding m' m1 by (simp add: in_flight_def d(2))
    have s: "same_subs m m'" "same_waiting m m'"
      using same_subs_upd [OF home_of_less [OF i], of "untrack p (mp_subs m ! i)"] unfolding m' m1
      by (simp_all add: same_subs_def same_waiting_def untrack_def)
    obtain mf0 where mf0: "heap_mf h p = Some mf0" "mf_raw_addr mf0 = mf_raw_addr mf" using d(4) by (auto simp: raws_def)
    then have home: "home c m h p = Some i" using i home_of_same [OF same_subs_refl(1), of mf0 mf c m] by (simp add: home_def)
    have "replies_ok h' d"
      using ok(2) d(3-6) by (auto simp: replies_ok_def)
    then have r: "replies_ok h' (mp_dram m')" unfolding m' by simp
    have "mp_arbitration m' = a" "mp_dram m' = d" unfolding m' m1 by simp_all
    then show ?thesis
      using books_leave [OF assms(2) s(1) f _ r home] well_routed_move [OF assms(3) s] d a f by auto
  qed
qed

lemma pick_sub_grants:
  "pick_sub ps m = Some (Some i) \<Longrightarrow> i < length (mp_subs m) \<and> \<not> fp_empty (msp_L2_dram_queue (mp_subs m ! i)) \<and>
    can_issue_to_dram i m = Some True"
  by (induction ps) (auto simp: Let_def bind_eq_Some_iff split: if_splits)

lemma top_in_items: "fp_top q = Some p \<Longrightarrow> p \<in> set (items q)"
  by (cases "fp_slots q") (auto simp: fp_top_def items_def)

lemma arbitrate_books:
  assumes "arbitrate c now (m, h) = Some (m', h')" and "books c m h" and "well_routed c m h"
  shows "books c m' h'"
proof (cases "m' = m \<and> h' = h")
  case True
  then show ?thesis using assms(2) by simp
next
  case False
  then obtain i where pick: "pick_sub [0..<n_subs c] m = Some (Some i)"
    and enter: "enter_latency_queue c now i (m, h) = Some (m', h')"
    using assms(1) by (auto simp: arbitrate_def bind_eq_Some_iff split: if_splits option.splits)
  note i = pick_sub_grants [OF pick]
  then have grant: "has_credits i (mp_arbitration m) = Some True"
    by (auto simp: can_issue_to_dram_def bind_eq_Some_iff)
  from enter conjunct1 [OF i] obtain p q a where p: "fp_top (msp_L2_dram_queue (mp_subs m ! i)) = Some p"
    and s: "set_status IN_PARTITION_DRAM_LATENCY_QUEUE now p h = Some h'"
    and a: "borrow_credit i (mp_arbitration m) = Some a"
    and m': "m' = m\<lparr>mp_subs := (mp_subs m)[i := (mp_subs m ! i)\<lparr>msp_L2_dram_queue := q\<rparr>], mp_arbitration := a,
       mp_latency_queue := mp_latency_queue m @ [(now + ucast (pc_dram_latency c), p)]\<rparr>"
    by (auto simp: enter_latency_queue_def bind_eq_Some_iff)
  have p': "home c m h p = Some i" "p \<notin># in_flight m"
    using assms(3) i top_in_items [OF p] by (auto simp: well_routed_def)
  have "map msp_id ((mp_subs m)[i := (mp_subs m ! i)\<lparr>msp_L2_dram_queue := q\<rparr>]) = map msp_id (mp_subs m)"
    using i by (simp add: map_update list_update_same_conv)
  then have s2: "same_subs m m'" unfolding m' by (simp add: same_subs_def)
  have f: "in_flight m' = add_mset p (in_flight m)" unfolding m' by (simp add: in_flight_def)
  have am: "mp_arbitration m' = a" and dm: "mp_dram m' = mp_dram m" unfolding m' by simp_all
  show ?thesis
    by (rule books_enter [OF assms(2) s2 f dm p' grant]) (simp_all add: a am set_status_raws [OF s])
qed

lemma leave_latency_books:
  assumes "leave_latency_queue c tot sim (m, h) = Some (m', h')" and "books c m h"
  shows "books c m' h'"
proof (cases "m' = m \<and> h' = h")
  case True
  then show ?thesis using assms(2) by simp
next
  case False
  then obtain t p rest d where l: "mp_latency_queue m = (t, p) # rest"
    and d: "dram_push (pc_dram c) tot sim p (mp_dram m, h) = Some (d, h')"
    and m': "m' = m\<lparr>mp_dram := d, mp_latency_queue := rest\<rparr>"
    using assms(1) by (auto simp: leave_latency_queue_def bind_eq_Some_iff split: if_splits list.splits)
  have ok: "reqs_ok (mp_dram m)" "replies_ok h (mp_dram m)" using assms(2) by (simp_all add: books_def)
  note push = dram_push_reqs [OF d ok(1)]
  have "returnq d = returnq (mp_dram m)" using d by (cases rule: dram_pushE) simp
  then have r: "replies_ok h' (mp_dram m')" using ok(2) push unfolding m' by (simp add: replies_ok_def)
  have f: "in_flight m' = in_flight m" using push unfolding m' by (simp add: in_flight_def l)
  have s: "same_subs m m'" unfolding m' by (simp add: same_subs_def)
  show ?thesis using books_move [OF assms(2) s f _ r] push unfolding m' by simp
qed

lemma dram_cycle_books:
  assumes "partition_dram_cycle c tot sim (m, h) = Some (m', h')" and "books c m h" and "well_routed c m h"
  shows "books c m' h'"
proof -
  obtain m1 h1 m2 h2 m3 h3 where s: "return_to_L2 c (sim + tot) (m, h) = Some (m1, h1)"
    "cycle_dram c tot sim (m1, h1) = Some (m2, h2)" "arbitrate c (sim + tot) (m2, h2) = Some (m3, h3)"
    "leave_latency_queue c tot sim (m3, h3) = Some (m', h')"
    using assms(1) by (auto simp: partition_dram_cycle_def bind_eq_Some_iff)
  have "books c m1 h1 \<and> well_routed c m1 h1" by (rule return_to_L2_books [OF s(1) assms(2,3)])
  then have "books c m2 h2 \<and> well_routed c m2 h2" using cycle_dram_books [OF s(2)] by blast
  then have "books c m3 h3" using arbitrate_books [OF s(3)] by blast
  then show ?thesis by (rule leave_latency_books [OF s(4)])
qed

subsection \<open>The rest of the partition\<close>

definition alive :: "memory_partition_unit \<Rightarrow> mf_heap \<Rightarrow> mf_heap \<Rightarrow> bool" where
  "alive m h h' \<longleftrightarrow> (\<forall>p \<in># in_flight m. p < heap_next h \<and> heap_mf h' p \<noteq> None)"

lemma undisturbed:
  assumes "books c m h" and "kept h h'" and "alive m h h'" and "same_subs m m'" and "mp_dram m' = mp_dram m"
    and "mp_arbitration m' = mp_arbitration m" and "mp_latency_queue m' = mp_latency_queue m"
  shows "books c m' h'"
proof -
  have raw: "raws h' p = raws h p" if "p \<in># in_flight m" for p using assms(2,3) that by (auto simp: kept_def alive_def)
  have "p \<in># in_flight m" if "p \<in> set (items (returnq (mp_dram m)))" for p using that by (simp add: in_flight_def in_dram_def)
  then have "replies_ok h' (mp_dram m')" using assms(1,5) raw by (auto simp: books_def replies_ok_def)
  moreover have "in_flight m' = in_flight m" using assms(5,7) by (simp add: in_flight_def)
  ultimately show ?thesis using books_move [OF assms(1,4)] assms(1,5,6) raw by (simp add: books_def)
qed

lemma on_sub_books:
  assumes "on_sub i f (m, h) = Some (m', h')" and "keeps f" and "alive m h h'" and "books c m h"
  shows "books c m' h'"
proof -
  obtain s' where f: "f (mp_subs m ! i, h) = Some (s', h')" and i: "i < length (mp_subs m)"
    and m': "m' = m\<lparr>mp_subs := (mp_subs m)[i := s']\<rparr>"
    using assms(1) by (auto simp: on_sub_def bind_eq_Some_iff split: if_splits)
  have k: "msp_id s' = msp_id (mp_subs m ! i)" "kept h h'" using keepsD [OF assms(2) f] by simp_all
  have "map msp_id ((mp_subs m)[i := s']) = map msp_id (mp_subs m)" using i k(1) by (simp add: map_update list_update_same_conv)
  then have "same_subs m m'" unfolding m' by (simp add: same_subs_def)
  from undisturbed [OF assms(4) k(2) assms(3) this] show ?thesis unfolding m' by simp
qed

lemma shared_limit_eq:
  assumes "sched_queue_size (pc_dram c) \<noteq> 0" and "return_queue_size (pc_dram c) \<noteq> 0"
    and "0 < n_subs c" and "n_subs c \<le> sched_queue_size (pc_dram c) + return_queue_size (pc_dram c)"
    and "sched_queue_size (pc_dram c) + return_queue_size (pc_dram c) < 2 ^ 31"
  shows "shared_limit (pc_dram c) = int (sched_queue_size (pc_dram c)) + int (return_queue_size (pc_dram c)) - (int (n_subs c) - 1)"
proof -
  let ?q = "sched_queue_size (pc_dram c) + return_queue_size (pc_dram c)" and ?n = "m_n_sub_partition_per_memory_channel (pc_dram c)"
  have eq: "(of_nat ?q :: u32) - (?n - 1) = of_nat (?q - (n_subs c - 1))"
    using assms(3,4) by (simp add: n_subs_def of_nat_diff)
  have "sint (of_nat (?q - (n_subs c - 1)) :: u32) = int (?q - (n_subs c - 1))"
    using assms(5) by (simp add: signed_of_nat signed_take_bit_int_eq_self)
  then show ?thesis using assms unfolding shared_limit_def eq [unfolded of_nat_add] by (simp add: eq of_nat_diff)
qed

subsection \<open>Runs of a partition\<close>

text \<open>
  The DRAM cycles, whose waiting requests are well routed; the operations of its sub partitions; and what the
  rest of the GPU does to the heap of requests. Nothing in flight to the DRAM may be freed in between.
\<close>

inductive partition_run :: "partition_config \<Rightarrow> memory_partition_unit \<Rightarrow> mf_heap \<Rightarrow> bool" for c where
  new: "partition_new c pid = Some m \<Longrightarrow> partition_run c m h"
| dram: "partition_run c m h \<Longrightarrow> well_routed c m h \<Longrightarrow> partition_dram_cycle c tot sim (m, h) = Some (m', h') \<Longrightarrow>
    partition_run c m' h'"
| cache: "partition_run c m h \<Longrightarrow> on_sub i (sub_cache_cycle c now cyc) (m, h) = Some (m', h') \<Longrightarrow> alive m h h' \<Longrightarrow>
    partition_run c m' h'"
| push: "partition_run c m h \<Longrightarrow> on_sub i (sub_push c now ready req) (m, h) = Some (m', h') \<Longrightarrow> alive m h h' \<Longrightarrow>
    partition_run c m' h'"
| pop: "partition_run c m h \<Longrightarrow> on_sub i (\<lambda>x. map_option snd (sub_pop x)) (m, h) = Some (m', h') \<Longrightarrow> alive m h h' \<Longrightarrow>
    partition_run c m' h'"
| top: "partition_run c m h \<Longrightarrow> on_sub i (\<lambda>x. map_option snd (sub_top x)) (m, h) = Some (m', h') \<Longrightarrow> alive m h h' \<Longrightarrow>
    partition_run c m' h'"
| rest: "partition_run c m h \<Longrightarrow> kept h h' \<Longrightarrow> alive m h h' \<Longrightarrow> partition_run c m h'"

lemma subs_new:
  "foldM (\<lambda>p ss. do { s \<leftarrow> f p; Some (ss @ [s]) }) ps acc = Some ss \<Longrightarrow> length ss = length acc + length ps"
  by (induction ps arbitrary: acc) (auto simp: bind_eq_Some_iff)

lemma partition_new_books:
  assumes "partition_new c pid = Some m"
  shows "books c m h"
proof -
  obtain a d subs where a: "arbitration_new c = Some a" and d: "dram_new (pc_dram c) pid = Some d"
    and subs: "foldM (\<lambda>p ss. do {
         s \<leftarrow> sub_partition_new c (pid * m_n_sub_partition_per_memory_channel (pc_dram c) + of_nat p);
         Some (ss @ [s]) }) [0..<n_subs c] [] = Some subs"
    and m: "m = \<lparr>mp_id = pid, mp_subs = subs, mp_dram = d, mp_arbitration = a, mp_latency_queue = []\<rparr>"
    using assms by (auto simp: partition_new_def bind_eq_Some_iff)
  have "in_flight m = {#}" "reqs_ok d" "items (returnq d) = []"
    using dram_new_ok [OF d] unfolding m by (auto simp: in_flight_def in_dram_def)
  moreover have "account_ok (n_subs c) (shared_limit (pc_dram c)) a (\<lambda>_. 0)"
    using a by (auto simp: arbitration_new_def account_ok_def split: if_splits)
  moreover have "loans (home c m h) {#} = (\<lambda>_. 0)" by (simp add: loans_def fun_eq_iff)
  moreover have "length subs = n_subs c" using subs_new [OF subs] by simp
  ultimately show ?thesis unfolding m by (simp add: books_def replies_ok_def)
qed

lemma run_books: "partition_run c m h \<Longrightarrow> books c m h"
proof (induction rule: partition_run.induct)
  case (new pid m h)
  then show ?case by (rule partition_new_books)
next
  case (dram m h tot sim m' h')
  then show ?case using dram_cycle_books [OF dram.hyps(3)] by simp
next
  case (rest m h h')
  show ?case by (rule undisturbed [OF rest.IH rest.hyps(2,3)]) simp_all
next
  case (cache m h i now cyc m' h')
  show ?case by (rule on_sub_books [OF cache.hyps(2) keeps_cache_cycle cache.hyps(3) cache.IH])
next
  case (push m h i now ready req m' h')
  show ?case by (rule on_sub_books [OF push.hyps(2) keeps_push push.hyps(3) push.IH])
next
  case (pop m h i m' h')
  show ?case by (rule on_sub_books [OF pop.hyps(2) keeps_pop pop.hyps(3) pop.IH])
next
  case (top m h i m' h')
  show ?case by (rule on_sub_books [OF top.hyps(2) keeps_top top.hyps(3) top.IH])
qed

subsection \<open>Fairness of the choice\<close>

definition ready_sub :: "nat \<Rightarrow> memory_partition_unit \<Rightarrow> bool" where
  "ready_sub i m \<longleftrightarrow> i < length (mp_subs m) \<and> \<not> fp_empty (msp_L2_dram_queue (mp_subs m ! i)) \<and>
     can_issue_to_dram i m = Some True"

text \<open>How many sub partitions are asked before \<open>i\<close>.\<close>

definition turn :: "nat \<Rightarrow> memory_partition_unit \<Rightarrow> nat" where
  "turn i m = (i + (length (mp_subs m) - 1 - m_last_borrower (mp_arbitration m))) mod length (mp_subs m)"

lemma turn_eq:
  fixes p l n :: nat
  assumes "p < n" and "l < n"
  shows "((p + l + 1) mod n + (n - 1 - l)) mod n = p"
proof (cases "p + l + 1 < n")
  case True
  then have "(p + l + 1) mod n + (n - 1 - l) = p + n" using assms by simp
  then show ?thesis using assms(1) by simp
next
  case False
  then have "(p + l + 1) mod n = p + l + 1 - n" using assms by (simp add: mod_if)
  then have "(p + l + 1) mod n + (n - 1 - l) = p" using False assms by simp
  then show ?thesis using assms(1) by simp
qed

lemma mod_shift: "(d + x mod n + 1) mod n = (d + x + 1) mod n" for d :: nat
  using mod_add_left_eq [of x n "d + 1"] by (simp add: ac_simps)

lemma turn_inverse:
  fixes i l n :: nat
  assumes "i < n" and "l < n"
  shows "((i + (n - 1 - l)) mod n + l + 1) mod n = i"
proof (cases "i + (n - 1 - l) < n")
  case True
  then show ?thesis using assms by simp
next
  case False
  then have "(i + (n - 1 - l)) mod n = i - l - 1" using assms by (simp add: mod_if)
  then show ?thesis using False assms by simp
qed

lemma pick_sub_first:
  assumes "pick_sub ps m = Some r" and "p \<in> set ps" and "sorted_wrt (<) ps"
    and "ready_sub ((p + m_last_borrower (mp_arbitration m) + 1) mod length (mp_subs m)) m"
  shows "\<exists>q \<le> p. r = Some ((q + m_last_borrower (mp_arbitration m) + 1) mod length (mp_subs m)) \<and> q \<in> set ps"
  using assms
proof (induction ps)
  case (Cons a ps)
  let ?s = "(a + m_last_borrower (mp_arbitration m) + 1) mod length (mp_subs m)"
  show ?case
  proof (cases "r = Some ?s")
    case True
    then show ?thesis using Cons.prems(2,3) by (intro exI [of _ a]) auto
  next
    case False
    with Cons.prems(1) have rest: "pick_sub ps m = Some r" and "\<not> ready_sub ?s m"
      by (auto simp: Let_def ready_sub_def bind_eq_Some_iff split: if_splits)
    then have "p \<in> set ps" using Cons.prems(2,4) by auto
    with Cons.IH [OF rest] Cons.prems(3,4) show ?thesis by auto
  qed
qed simp

lemma borrow_last: "borrow_credit i a = Some a' \<Longrightarrow> m_last_borrower a' = i"
  by (auto simp: borrow_credit_def bind_eq_Some_iff split: if_splits)

subsection \<open>Properties\<close>

text \<open>
  Property C4: the credits of a partition are in one-to-one correspondence with its requests between the L2 queues
  and the return from the DRAM. In every reachable state each request in flight belongs to a sub partition, which can
  return a credit for it without failing the assertion of \<open>return_credit\<close>, and a sub partition that has none in flight
  is always granted one, so no sub partition can be starved by the others of its last credit.
\<close>

theorem credits_match_requests:
  assumes "partition_run c m h"
  shows "(\<forall>p \<in># in_flight m. \<exists>mf i a. heap_mf h p = Some mf \<and> home_of c m mf = Some i \<and>
      return_credit i (mp_arbitration m) = Some a) \<and>
    (\<forall>i < n_subs c. (\<forall>p \<in># in_flight m. home c m h p \<noteq> Some i) \<longrightarrow> has_credits i (mp_arbitration m) = Some True)"
proof (intro conjI ballI allI impI)
  note b = run_books [OF assms]
  have acc: "account_ok (n_subs c) (shared_limit (pc_dram c)) (mp_arbitration m) (loans (home c m h) (in_flight m))"
    using b by (simp add: books_def)
  {
    fix p
    assume p: "p \<in># in_flight m"
    then have "home c m h p \<noteq> None" using b by (simp add: books_def)
    then obtain mf i where i: "heap_mf h p = Some mf" "home_of c m mf = Some i"
      by (auto simp: home_def split: option.splits)
    then have "home c m h p = Some i" by (simp add: home_def)
    with p have "p \<in># filter_mset (\<lambda>p. home c m h p = Some i) (in_flight m)" by simp
    then have "0 < loans (home c m h) (in_flight m) i" unfolding loans_def nonempty_has_size [symmetric] by force
    moreover have "i < n_subs c" using home_of_less [OF i(2)] b by (simp add: books_def)
    ultimately show "\<exists>mf i a. heap_mf h p = Some mf \<and> home_of c m mf = Some i \<and> return_credit i (mp_arbitration m) = Some a"
      using arb.return_law [OF acc] i by blast
  next
    fix i
    assume "i < n_subs c" and "\<forall>p \<in># in_flight m. home c m h p \<noteq> Some i"
    moreover from this(2) have "loans (home c m h) (in_flight m) i = 0" by (simp add: loans_def filter_mset_eq_conv)
    ultimately show "has_credits i (mp_arbitration m) = Some True" using arb.idle_law [OF acc] by blast
  }
qed

text \<open>
  Property C27: the credits bound the requests in flight by the lengths of the scheduler queue and the return queue of the DRAM,
  plus one. The bound needs the sum of the lengths to reach the number of sub partitions: with one less the
  computed limit is 0, which the code takes for no limit.
\<close>

theorem requests_in_flight_bounded:
  assumes "partition_run c m h" and "sched_queue_size (pc_dram c) \<noteq> 0" and "return_queue_size (pc_dram c) \<noteq> 0"
    and "0 < n_subs c" and "n_subs c \<le> sched_queue_size (pc_dram c) + return_queue_size (pc_dram c)"
    and "sched_queue_size (pc_dram c) + return_queue_size (pc_dram c) < 2 ^ 31"
  shows "size (in_flight m) \<le> sched_queue_size (pc_dram c) + return_queue_size (pc_dram c) + 1"
proof -
  note b = run_books [OF assms(1)]
  let ?s = "sched_queue_size (pc_dram c)" and ?r = "return_queue_size (pc_dram c)"
  have lim: "shared_limit (pc_dram c) = int ?s + int ?r - (int (n_subs c) - 1)"
    using shared_limit_eq [OF assms(2-6)] .
  have "\<exists>i < n_subs c. home c m h p = Some i" if "p \<in># in_flight m" for p
    using b that home_less [of c m h p] by (auto simp: books_def)
  then have total: "sum (loans (home c m h) (in_flight m)) {..<n_subs c} = size (in_flight m)" by (rule loans_total)
  have "int (sum (loans (home c m h) (in_flight m)) {..<n_subs c}) \<le> int (n_subs c) + shared_limit (pc_dram c)"
    by (rule arb.bound_law) (use b lim assms(4,5) in \<open>auto simp: books_def\<close>)
  then show ?thesis unfolding total lim using assms(4) by linarith
qed

text \<open>
  Property C21: the choice between the sub partitions is fair. Whenever the DRAM takes a request, a sub partition that could
  have sent one either sent it or has moved closer to the front, so it waits for fewer than as many
  requests as there are sub partitions.
\<close>

theorem arbitration_is_fair:
  assumes "arbitrate c now (m, h) = Some (m', h')" and "dram_full (pc_dram c) (mp_dram m) = Some False" and "ready_sub i m"
    and "length (mp_subs m) = n_subs c" and "m_last_borrower (mp_arbitration m) < n_subs c"
  shows "m_last_borrower (mp_arbitration m') < n_subs c \<and> length (mp_latency_queue m') = Suc (length (mp_latency_queue m)) \<and>
    (m_last_borrower (mp_arbitration m') = i \<or> turn i m' < turn i m)"
proof -
  let ?n = "n_subs c" and ?l = "m_last_borrower (mp_arbitration m)"
  have i: "i < ?n" using assms(3,4) by (simp add: ready_sub_def)
  then have t: "turn i m < ?n" "(turn i m + ?l + 1) mod ?n = i"
    using turn_inverse [OF i assms(5)] by (simp_all add: turn_def assms(4))
  obtain r where r: "pick_sub [0..<?n] m = Some r"
    and e: "(case r of None \<Rightarrow> Some (m, h) | Some j \<Rightarrow> enter_latency_queue c now j (m, h)) = Some (m', h')"
    using assms(1,2) by (auto simp: arbitrate_def bind_eq_Some_iff)
  obtain q where q: "q \<le> turn i m" "r = Some ((q + ?l + 1) mod ?n)"
    using pick_sub_first [OF r, of "turn i m"] t assms(3,4) by auto
  define j where "j = (q + ?l + 1) mod ?n"
  have j: "j < ?n" using i by (simp add: j_def)
  from e q have e: "enter_latency_queue c now j (m, h) = Some (m', h')" by (simp add: j_def)
  then obtain a where "borrow_credit j (mp_arbitration m) = Some a" "mp_arbitration m' = a"
    "length (mp_subs m') = length (mp_subs m)" "length (mp_latency_queue m') = Suc (length (mp_latency_queue m))"
    by (auto simp: enter_latency_queue_def bind_eq_Some_iff split: if_splits)
  then have last: "m_last_borrower (mp_arbitration m') = j" "length (mp_subs m') = ?n"
      "length (mp_latency_queue m') = Suc (length (mp_latency_queue m))" using borrow_last assms(4) by auto
  have "turn i m' < turn i m" if "j \<noteq> i"
  proof -
    have "q < turn i m" using q(1) t(2) that by (auto simp: j_def le_less)
    define d where "d = turn i m - q - 1"
    then have d: "d < ?n" "turn i m = q + d + 1" using t(1) \<open>q < turn i m\<close> by auto
    have "(d + j + 1) mod ?n = (d + (q + ?l + 1) + 1) mod ?n" unfolding j_def by (rule mod_shift)
    also have "\<dots> = i" using t(2) by (simp add: d(2) ac_simps)
    finally have "turn i m' = d" using turn_eq [OF d(1) j] last by (simp add: turn_def)
    then show ?thesis using d(2) by simp
  qed
  then show ?thesis using last j by auto
qed

subsection \<open>An example\<close>

text \<open>A partition without an L2 cache: a read arrives, passes the delay queue and enters the DRAM's latency queue.\<close>

definition demo_arrival :: "(memory_partition_unit \<times> partition_state \<times> partition_state \<times> partition_state) option" where
  "demo_arrival = do {
     m \<leftarrow> partition_new demo_partition 0;
     x \<leftarrow> on_sub 0 (sub_push demo_partition 0 0 (Some 0)) (m, demo_requests);
     y \<leftarrow> on_sub 0 (sub_cache_cycle demo_partition 0 0) x;
     z \<leftarrow> on_sub 0 (sub_cache_cycle demo_partition 0 0) y;
     Some (m, x, y, z) }"

lemma demo_arrives:
  "map_option (\<lambda>(m0, x, y, m, h). ((items (msp_L2_dram_queue (mp_subs m ! 0)), length (mp_subs m), home demo_partition m h 0,
      dram_full (pc_dram demo_partition) (mp_dram m), can_issue_to_dram 0 m, m_last_borrower (mp_arbitration m), fp_empty (msp_L2_dram_queue (mp_subs m ! 0))),
      arbitrate demo_partition 0 (m, h) = None,
      map_option (\<lambda>(m, h). mp_latency_queue m) (partition_dram_cycle demo_partition 0 0 (m, h)))) demo_arrival =
    Some (([0], 1, Some 0, Some False, Some True, 0, False), False, Some [(10, 0)])"
  by code_simp

lemma on_sub_in_flight: "on_sub i f (m, h) = Some (m', h') \<Longrightarrow> in_flight m' = in_flight m"
  by (auto simp: on_sub_def bind_eq_Some_iff in_flight_def split: if_splits)

lemma partition_new_empty: "partition_new c pid = Some m \<Longrightarrow> in_flight m = {#}"
  using dram_new_ok [of "pc_dram c" pid] by (auto simp: partition_new_def bind_eq_Some_iff in_flight_def)

lemma demo_run:
  obtains m h m' h' where "partition_run demo_partition m h" "partition_run demo_partition m' h'"
    "partition_dram_cycle demo_partition 0 0 (m, h) = Some (m', h')" "mp_latency_queue m' = [(10, 0)]"
    "ready_sub 0 m" "length (mp_subs m) = n_subs demo_partition" "m_last_borrower (mp_arbitration m) < n_subs demo_partition"
    "dram_full (pc_dram demo_partition) (mp_dram m) = Some False" "arbitrate demo_partition 0 (m, h) \<noteq> None"
proof -
  from demo_arrives obtain m0 m1 h1 m2 h2 m h where a: "demo_arrival = Some (m0, (m1, h1), (m2, h2), (m, h))"
    and w: "items (msp_L2_dram_queue (mp_subs m ! 0)) = [0]" "length (mp_subs m) = 1" "home demo_partition m h 0 = Some 0"
      "dram_full (pc_dram demo_partition) (mp_dram m) = Some False" "can_issue_to_dram 0 m = Some True" "m_last_borrower (mp_arbitration m) = 0"
      "\<not> fp_empty (msp_L2_dram_queue (mp_subs m ! 0))"
    by auto
  from a have s: "partition_new demo_partition 0 = Some m0"
    "on_sub 0 (sub_push demo_partition 0 0 (Some 0)) (m0, demo_requests) = Some (m1, h1)"
    "on_sub 0 (sub_cache_cycle demo_partition 0 0) (m1, h1) = Some (m2, h2)"
    "on_sub 0 (sub_cache_cycle demo_partition 0 0) (m2, h2) = Some (m, h)"
    by (auto simp: demo_arrival_def bind_eq_Some_iff)
  have e: "in_flight m0 = {#}" "in_flight m1 = {#}" "in_flight m2 = {#}" "in_flight m = {#}"
    using partition_new_empty [OF s(1)] on_sub_in_flight [OF s(2)] on_sub_in_flight [OF s(3)] on_sub_in_flight [OF s(4)] by simp_all
  have r: "partition_run demo_partition m h"
    by (rule partition_run.cache [OF partition_run.cache [OF partition_run.push [OF partition_run.new [OF s(1)] s(2)] s(3)] s(4)])
      (simp_all add: alive_def e)
  obtain m' h' where d: "partition_dram_cycle demo_partition 0 0 (m, h) = Some (m', h')" "mp_latency_queue m' = [(10, 0)]"
    using demo_arrives unfolding a by auto
  have "well_routed demo_partition m h" using w by (simp add: well_routed_def e)
  from partition_run.dram [OF r this d(1)] have r': "partition_run demo_partition m' h'" .
  have n: "n_subs demo_partition = 1"
    by (simp add: n_subs_def demo_partition_def demo_dram_def)
  have "arbitrate demo_partition 0 (m, h) \<noteq> None" using demo_arrives unfolding a by auto
  then show ?thesis using that [OF r r' d] w n by (simp add: ready_sub_def)
qed

lemma demo_after: "\<exists>m h. partition_run demo_partition m h \<and> mp_latency_queue m = [(10, 0)]"
  by (rule demo_run) (intro exI conjI)

lemma demo_before: "\<exists>m h. partition_run demo_partition m h \<and> ready_sub 0 m \<and> length (mp_subs m) = n_subs demo_partition \<and>
    m_last_borrower (mp_arbitration m) < n_subs demo_partition \<and> dram_full (pc_dram demo_partition) (mp_dram m) = Some False \<and>
    arbitrate demo_partition 0 (m, h) \<noteq> None"
  by (rule demo_run) (intro exI conjI)

theorem credits_match_requests_witness:
  "\<exists>m h mf i a. partition_run demo_partition m h \<and> mp_latency_queue m = [(10, 0)] \<and> heap_mf h 0 = Some mf \<and>
    home_of demo_partition m mf = Some i \<and> return_credit i (mp_arbitration m) = Some a"
proof -
  obtain m h where r: "partition_run demo_partition m h" and l: "mp_latency_queue m = [(10, 0)]" using demo_after by auto
  have "0 \<in># in_flight m" by (simp add: in_flight_def l)
  with credits_match_requests [OF r] r l show ?thesis by blast
qed

theorem requests_in_flight_bounded_witness:
  "\<exists>m h. partition_run demo_partition m h \<and> mp_latency_queue m = [(10, 0)] \<and> size (in_flight m) \<le> 9"
proof -
  obtain m h where r: "partition_run demo_partition m h" and l: "mp_latency_queue m = [(10, 0)]" using demo_after by auto
  from requests_in_flight_bounded [OF r] r l show ?thesis
    by (auto simp: n_subs_def demo_partition_def demo_dram_def)
qed

theorem arbitration_is_fair_witness:
  "\<exists>m h m' h'. partition_run demo_partition m h \<and> ready_sub 0 m \<and> arbitrate demo_partition 0 (m, h) = Some (m', h') \<and>
    m_last_borrower (mp_arbitration m') = 0 \<and> length (mp_latency_queue m') = Suc (length (mp_latency_queue m))"
proof -
  obtain m h where m: "partition_run demo_partition m h" "ready_sub 0 m" "length (mp_subs m) = n_subs demo_partition"
      "m_last_borrower (mp_arbitration m) < n_subs demo_partition" "dram_full (pc_dram demo_partition) (mp_dram m) = Some False"
      "arbitrate demo_partition 0 (m, h) \<noteq> None" using demo_before by auto
  then obtain m' h' where a: "arbitrate demo_partition 0 (m, h) = Some (m', h')" by auto
  have "n_subs demo_partition = 1" by (simp add: n_subs_def demo_partition_def demo_dram_def)
  with arbitration_is_fair [OF a m(5,2,3,4)] m a show ?thesis by auto
qed

end
