(* ===== verification/Cacp.thy ===== *)
theory Cacp
  imports Data_Cache Float_Value
begin

text \<open>
  The criticality-aware cache prioritization of \<open>CACP.cc\<close>: the classification of warps as critical,
  the tag array with its signature tables (\<open>tag_array_CACP\<close>) and the L1 cache built on it
  (\<open>l1_cache_cacp\<close>). The properties: the signature tables stay two-bit counters and the search for a
  victim ends; the victim lies in the predicted half of the set; and none of it decides which line
  the cache replaces, because the access that follows the probe asks the plain tag array again.
\<close>

subsection \<open>Which warps are critical\<close>

fun fp_neg :: "fp \<Rightarrow> fp" where
  "fp_neg (Fin x) = Fin (- x)"
| "fp_neg (Inf a) = Inf (\<not> a)"
| "fp_neg NaN = NaN"

text \<open>Division; a zero divisor is a positive zero here, the difference of equal numbers.\<close>

fun fp_div :: "nat \<Rightarrow> fp \<Rightarrow> fp \<Rightarrow> fp" where
  "fp_div p (Fin x) (Fin y) =
     (if y = 0 then (if x = 0 then NaN else Inf (0 < x)) else Fin (rnd p (x / y)))"
| "fp_div p (Fin x) (Inf b) = Fin 0"
| "fp_div p (Inf a) (Fin y) = Inf (a \<longleftrightarrow> 0 \<le> y)"
| "fp_div p x y = NaN"

text \<open>The literals \<open>-1.0*(0xFFFFFFFF)\<close> and \<open>1.0*(0xFFFFFFF)\<close>, converted to \<open>float\<close>.\<close>

definition crit_max_init :: fp where "crit_max_init = fp_round 24 (Fin (- 4294967295))"
definition crit_min_init :: fp where "crit_min_init = fp_round 24 (Fin 268435455)"

definition crit_max :: "fp list \<Rightarrow> fp" where
  "crit_max cpls = foldl (\<lambda>m c. if fp_less m c then c else m) crit_max_init cpls"

definition crit_min :: "fp list \<Rightarrow> fp" where
  "crit_min cpls = foldl (\<lambda>m c. if fp_less c m then c else m) crit_min_init cpls"

definition is_critical :: "fp \<Rightarrow> fp \<Rightarrow> fp \<Rightarrow> bool" where
  "is_critical lo hi c \<longleftrightarrow> fp_less (Fin (1 / 2))
     (fp_div 24 (fp_add 24 c (fp_neg lo)) (fp_add 24 hi (fp_neg lo)))"

text \<open>\<open>calc_warp_criticality\<close> over the counters of the core's warps: their \<open>criticality\<close> flags.\<close>

definition calc_warp_criticality :: "fp list \<Rightarrow> bool list" where
  "calc_warp_criticality cpls = map (is_critical (crit_min cpls) (crit_max cpls)) cpls"

definition get_warp_critical :: "nat \<Rightarrow> fp list \<Rightarrow> bool option" where
  "get_warp_critical warpid cpls = nth_opt (calc_warp_criticality cpls) warpid"

subsection \<open>The tag array with signatures\<close>

text \<open>
  \<open>CCBP\<close> predicts by signature whether a block will be used by critical warps, \<open>SHiP\<close> holds its
  re-reference interval. The base object is a member here.
\<close>

record tag_array_CACP =
  ca_base :: tag_array
  CCBP :: "int list"
  SHiP :: "int list"

text \<open>
  \<open>sig\<close> is not initialised: \<open>garbage i\<close> is what the memory of line \<open>i\<close> held, \<open>None\<close> for a number that
  is no index at all.
\<close>

definition tag_array_CACP_new :: "(nat \<Rightarrow> nat option) \<Rightarrow> cache_config \<Rightarrow> int \<Rightarrow> int \<Rightarrow> tag_array_CACP" where
  "tag_array_CACP_new garbage cfg core_id type_id =
     (let ta = tag_array_new cfg core_id type_id in
      \<lparr>ca_base = ta\<lparr>m_lines := map (\<lambda>i. (m_lines ta ! i)\<lparr>sig := garbage i\<rparr>) [0..<length (m_lines ta)]\<rparr>,
       CCBP = replicate 256 1, SHiP = replicate 256 3\<rparr>)"

definition update_line :: "nat \<Rightarrow> (cache_block \<Rightarrow> cache_block) \<Rightarrow> tag_array_CACP \<Rightarrow> tag_array_CACP option" where
  "update_line idx f ta = do {
     line \<leftarrow> nth_opt (m_lines (ca_base ta)) idx;
     Some (ta\<lparr>ca_base := (ca_base ta)\<lparr>m_lines := (m_lines (ca_base ta))[idx := f line]\<rparr>\<rparr>)
   }"

definition line_sig :: "nat \<Rightarrow> tag_array_CACP \<Rightarrow> nat option" where
  "line_sig idx ta = do { line \<leftarrow> nth_opt (m_lines (ca_base ta)) idx; sig line }"

definition cacp_hit_stats :: "bool \<Rightarrow> nat \<Rightarrow> tag_array_CACP \<Rightarrow> tag_array_CACP option" where
  "cacp_hit_stats critical idx ta =
     update_line idx (if critical then (\<lambda>l. l\<lparr>c_reuse := True\<rparr>) else (\<lambda>l. l\<lparr>nc_reuse := True\<rparr>)) ta"

text \<open>\<open>if (T[s] != 3) T[s]++\<close> and \<open>if (T[s] != 0) T[s]--\<close>.\<close>

definition count_up :: "nat \<Rightarrow> int list \<Rightarrow> int list option" where
  "count_up s t = do { v \<leftarrow> nth_opt t s; Some (if v \<noteq> 3 then t[s := v + 1] else t) }"

definition count_down :: "nat \<Rightarrow> int list \<Rightarrow> int list option" where
  "count_down s t = do { v \<leftarrow> nth_opt t s; Some (if v \<noteq> 0 then t[s := v - 1] else t) }"

definition cacp_hit :: "bool \<Rightarrow> nat \<Rightarrow> tag_array_CACP \<Rightarrow> tag_array_CACP option" where
  "cacp_hit critical idx ta = do {
     signature \<leftarrow> line_sig idx ta;
     ta \<leftarrow> update_line idx (if critical then (\<lambda>l. l\<lparr>c_reuse := True\<rparr>) else (\<lambda>l. l\<lparr>nc_reuse := True\<rparr>)) ta;
     ccbp \<leftarrow> (if critical then count_up signature (CCBP ta) else Some (CCBP ta));
     ship \<leftarrow> count_up signature (SHiP ta);
     Some (ta\<lparr>CCBP := ccbp, SHiP := ship\<rparr>)
   }"

definition PARTITION_PCT :: nat where "PARTITION_PCT = 50"

definition cacp_eviction :: "cache_config \<Rightarrow> nat \<Rightarrow> nat \<Rightarrow> tag_array_CACP \<Rightarrow> tag_array_CACP option" where
  "cacp_eviction cfg idx set_idx ta = do {
     evicted \<leftarrow> nth_opt (m_lines (ca_base ta)) idx;
     signature \<leftarrow> sig evicted;
     (if \<not> c_reuse evicted \<and> nc_reuse evicted \<and>
         idx - set_idx * m_assoc cfg < m_assoc cfg * PARTITION_PCT div 100 then do {
        ccbp \<leftarrow> count_down signature (CCBP ta);
        Some (ta\<lparr>CCBP := ccbp\<rparr>)
      } else if \<not> c_reuse evicted \<and> \<not> nc_reuse evicted then do {
        ship \<leftarrow> count_down signature (SHiP ta);
        Some (ta\<lparr>SHiP := ship\<rparr>)
      } else Some ta)
   }"

subsection \<open>Probing with a prediction\<close>

text \<open>The search for a hit; \<open>None\<close> when no way holds the tag.\<close>

fun cacp_hit_loop :: "cache_block list \<Rightarrow> u64 \<Rightarrow> nat list \<Rightarrow> (cache_request_status \<times> nat) option" where
  "cacp_hit_loop lines t [] = None"
| "cacp_hit_loop lines t (index # rest) =
     (let line = lines ! index in
      if m_tag line = t \<and> m_status line = RESERVED then Some (HIT_RESERVED, index)
      else if m_tag line = t \<and> m_status line = VALID then Some (HIT, index)
      else if m_tag line = t \<and> m_status line = MODIFIED then Some (HIT, index)
      else cacp_hit_loop lines t rest)"

text \<open>
  One pass of the loop over the ways of the partition: the last way that is invalid or whose
  signature has interval 3, and whether all of them were reserved.
\<close>

definition victim_step :: "cache_block list \<Rightarrow> int list \<Rightarrow> nat \<Rightarrow> nat option \<times> bool \<Rightarrow> (nat option \<times> bool) option" where
  "victim_step lines ship index v = do {
     line \<leftarrow> nth_opt lines index;
     s \<leftarrow> sig line;
     rrpv \<leftarrow> nth_opt ship s;
     require (rrpv \<le> 3);
     Some (if m_status line = RESERVED then v
           else (if m_status line = INVALID \<or> rrpv = 3 then Some index else fst v, False))
   }"

definition victim_pass :: "cache_block list \<Rightarrow> int list \<Rightarrow> nat list \<Rightarrow> (nat option \<times> bool) option" where
  "victim_pass lines ship ways = foldM (victim_step lines ship) ways (None, True)"

definition age_step :: "cache_block list \<Rightarrow> nat \<Rightarrow> int list \<Rightarrow> int list option" where
  "age_step lines index ship = do {
     line \<leftarrow> nth_opt lines index;
     s \<leftarrow> sig line;
     rrpv \<leftarrow> nth_opt ship s;
     Some (ship[s := rrpv + (if rrpv = 3 then 0 else 1)])
   }"

text \<open>
  The whole loop: a pass that finds no victim although some way is not reserved raises the intervals
  of all ways and starts again. The result is the victim, if there is one, and the intervals.
\<close>

partial_function (option) find_victim :: "cache_block list \<Rightarrow> nat list \<Rightarrow> int list \<Rightarrow> (nat option \<times> int list) option" where
  "find_victim lines ways ship = do {
     (found, all_res) \<leftarrow> victim_pass lines ship ways;
     (case found of
        Some index \<Rightarrow> Some (Some index, ship)
      | None \<Rightarrow> if all_res then Some (None, ship)
                else do { ship' \<leftarrow> foldM (age_step lines) ways ship; find_victim lines ways ship' })
   }"

declare find_victim.simps [code]

record probe_flags =
  critical_eviction :: bool
  zero_reuse :: bool
  correct_prediction :: bool

definition signature_of :: "u64 \<Rightarrow> u32 \<Rightarrow> nat" where
  "signature_of addr pc = unat ((addr AND 255) XOR ucast (pc AND 255))"

definition partition_ways :: "cache_config \<Rightarrow> nat \<Rightarrow> bool \<Rightarrow> nat list" where
  "partition_ways cfg base predicted = (let half = m_assoc cfg * PARTITION_PCT div 100 in
     if predicted then [base ..< base + half] else [base + half ..< base + m_assoc cfg])"

text \<open>The end of the probe, when \<open>idx\<close> has been chosen as the victim.\<close>

definition take_victim :: "cache_config \<Rightarrow> nat \<Rightarrow> nat \<Rightarrow> nat \<Rightarrow> bool \<Rightarrow> tag_array_CACP \<Rightarrow>
    ((bool \<times> bool) \<times> tag_array_CACP) option" where
  "take_victim cfg set_idx idx signature critical ta = do {
     ship \<leftarrow> update_opt (SHiP ta) signature 2;
     ta \<leftarrow> update_line idx (\<lambda>l. l\<lparr>sig := Some signature\<rparr>) (ta\<lparr>SHiP := ship\<rparr>);
     line \<leftarrow> nth_opt (m_lines (ca_base ta)) idx;
     (if m_status line \<noteq> INVALID then do {
        ta \<leftarrow> cacp_eviction cfg idx set_idx ta;
        Some ((critical, critical \<and> \<not> c_reuse line \<and> \<not> nc_reuse line), ta)
      } else Some ((False, False), ta))
   }"

definition cacp_probe :: "cache_config \<Rightarrow> u64 \<Rightarrow> bool \<Rightarrow> u32 \<Rightarrow> tag_array_CACP \<Rightarrow>
    (cache_request_status \<times> nat option \<times> probe_flags \<times> tag_array_CACP) option" where
  "cacp_probe cfg addr critical pc ta = do {
     let signature = signature_of addr pc;
     i \<leftarrow> set_index cfg addr;
     require (unat i * m_assoc cfg + m_assoc cfg \<le> length (m_lines (ca_base ta)));
     (case cacp_hit_loop (m_lines (ca_base ta)) (tag cfg addr) (set_lines cfg i) of
        Some (status, idx) \<Rightarrow> do {
          ta \<leftarrow> cacp_hit critical idx ta;
          s \<leftarrow> line_sig idx ta;
          ship \<leftarrow> update_opt (SHiP ta) s 0;
          Some (status, Some idx, \<lparr>critical_eviction = False, zero_reuse = False, correct_prediction = False\<rparr>,
            ta\<lparr>SHiP := ship\<rparr>)
        }
      | None \<Rightarrow> do {
          c \<leftarrow> nth_opt (CCBP ta) signature;
          let predicted = (2 \<le> c);
          let correct = (predicted \<longleftrightarrow> critical);
          (victim, ship) \<leftarrow> find_victim (m_lines (ca_base ta))
            (partition_ways cfg (unat i * m_assoc cfg) predicted) (SHiP ta);
          let ta = ta\<lparr>SHiP := ship\<rparr>;
          (case victim of
             None \<Rightarrow> do {
               require (m_alloc_policy cfg = ON_MISS);
               Some (RESERVATION_FAIL, None,
                 \<lparr>critical_eviction = False, zero_reuse = False, correct_prediction = correct\<rparr>, ta)
             }
           | Some idx \<Rightarrow> do {
               ((ce, zr), ta) \<leftarrow> take_victim cfg (unat i) idx signature critical ta;
               Some (MISS, Some idx,
                 \<lparr>critical_eviction = ce, zero_reuse = zr, correct_prediction = correct\<rparr>, ta)
             })
        })
   }"

text \<open>\<open>probe_normal\<close> repeats the loop of the base class and keeps the reuse bits.\<close>

definition probe_normal :: "cache_config \<Rightarrow> u64 \<Rightarrow> bool \<Rightarrow> tag_array_CACP \<Rightarrow>
    (cache_request_status \<times> nat option \<times> probe_flags \<times> tag_array_CACP) option" where
  "probe_normal cfg addr critical ta = do {
     i \<leftarrow> set_index cfg addr;
     let lines = m_lines (ca_base ta);
     require (unat i * m_assoc cfg + m_assoc cfg \<le> length lines);
     (case probe_loop cfg lines (tag cfg addr) (set_lines cfg i) probe_vars_init of
        Inl (status, idx) \<Rightarrow> do {
          ta \<leftarrow> cacp_hit_stats critical idx ta;
          Some (status, Some idx, \<lparr>critical_eviction = False, zero_reuse = False, correct_prediction = False\<rparr>, ta)
        }
      | Inr v \<Rightarrow>
          if all_reserved v then do {
            require (m_alloc_policy cfg = ON_MISS);
            Some (RESERVATION_FAIL, None,
              \<lparr>critical_eviction = False, zero_reuse = False, correct_prediction = False\<rparr>, ta)
          } else do {
            idx \<leftarrow> (case invalid_line v of Some index \<Rightarrow> Some index | None \<Rightarrow> valid_line v);
            let line = lines ! idx;
            let evict = (m_status line \<noteq> INVALID \<and> critical);
            Some (MISS, Some idx, \<lparr>critical_eviction = evict,
              zero_reuse = (evict \<and> \<not> c_reuse line \<and> \<not> nc_reuse line), correct_prediction = False\<rparr>, ta)
          })
   }"

subsection \<open>The L1 cache with prioritization\<close>

record cache_cacp_stats =
  dj_total_crit_access :: u32
  dj_total_crit_hit :: u32
  dj_total_hit :: u32
  dj_total_access :: u32
  dj_zero_reuses :: u32
  dj_critical_evictions :: u32
  dj_CCBP_correct :: u32

definition cacp_stats_new :: cache_cacp_stats where
  "cacp_stats_new = \<lparr>dj_total_crit_access = 0, dj_total_crit_hit = 0, dj_total_hit = 0,
     dj_total_access = 0, dj_zero_reuses = 0, dj_critical_evictions = 0, dj_CCBP_correct = 0\<rparr>"

definition dj_record_stats :: "bool \<Rightarrow> cache_request_status \<Rightarrow> bool \<Rightarrow> bool \<Rightarrow> bool \<Rightarrow>
    cache_cacp_stats \<Rightarrow> cache_cacp_stats" where
  "dj_record_stats critical status crit_eviction no_reuse correct st0 = (
     let st = (if critical
       then st0\<lparr>dj_total_crit_hit := dj_total_crit_hit st0 + (if status = HIT then 1 else 0),
                dj_total_crit_access := dj_total_crit_access st0 + 1\<rparr>
       else st0);
         st = st\<lparr>dj_total_hit := dj_total_hit st + (if status = HIT then 1 else 0),
                dj_total_access := dj_total_access st + 1\<rparr>;
         st = (if crit_eviction
       then st\<lparr>dj_zero_reuses := dj_zero_reuses st + (if no_reuse then 1 else 0),
               dj_critical_evictions := dj_critical_evictions st + 1\<rparr>
       else st)
     in if correct then st\<lparr>dj_CCBP_correct := dj_CCBP_correct st + 1\<rparr> else st)"

record l1_cache_cacp =
  l1_sys :: cache_sys
  l1_CCBP :: "int list"
  l1_SHiP :: "int list"
  m_cacp_stats :: cache_cacp_stats
  m_real_cacp :: bool

definition l1_tag_array :: "l1_cache_cacp \<Rightarrow> tag_array_CACP" where
  "l1_tag_array c = \<lparr>ca_base = cs_tags (l1_sys c), CCBP = l1_CCBP c, SHiP = l1_SHiP c\<rparr>"

definition set_l1_tag_array :: "tag_array_CACP \<Rightarrow> l1_cache_cacp \<Rightarrow> l1_cache_cacp" where
  "set_l1_tag_array ta c = c\<lparr>l1_sys := (l1_sys c)\<lparr>cs_tags := ca_base ta\<rparr>,
     l1_CCBP := CCBP ta, l1_SHiP := SHiP ta\<rparr>"

definition l1_cache_cacp_new :: "tag_array_CACP \<Rightarrow> bool \<Rightarrow> cache_sys \<Rightarrow> l1_cache_cacp" where
  "l1_cache_cacp_new ta real_cacp s = set_l1_tag_array ta
     \<lparr>l1_sys = s, l1_CCBP = [], l1_SHiP = [], m_cacp_stats = cacp_stats_new, m_real_cacp = real_cacp\<rparr>"

text \<open>\<open>critical\<close> is the request's \<open>req_criticality\<close>; \<open>get_pc\<close> is \<open>(address_type)-1\<close> for an empty instruction.\<close>

definition request_pc :: "mem_fetch \<Rightarrow> u32" where
  "request_pc mf = (case mf_inst mf of None \<Rightarrow> - 1 | Some inst \<Rightarrow> i_pc inst)"

definition l1_cache_cacp_access :: "cache_env \<Rightarrow> u64 \<Rightarrow> nat \<Rightarrow> bool \<Rightarrow> u32 \<Rightarrow> l1_cache_cacp \<Rightarrow>
    (cache_request_status \<times> l1_cache_cacp) option" where
  "l1_cache_cacp_access env addr p critical time c = do {
     mf \<leftarrow> heap_mf (cs_heap (l1_sys c)) p;
     let cfg = cs_config (l1_sys c);
     require (mf_data_size mf \<le> m_line_sz cfg);
     let wr = get_is_write mf;
     let block = block_addr cfg addr;
     (probe_status, idx, flags, ta) \<leftarrow>
       (if m_real_cacp c then cacp_probe cfg block critical (request_pc mf) (l1_tag_array c)
        else probe_normal cfg block critical (l1_tag_array c));
     let c = set_l1_tag_array ta c;
     (access_status, s) \<leftarrow> process_tag_probe env wr probe_status addr
       (case idx of Some i \<Rightarrow> i | None \<Rightarrow> no_index) p time (l1_sys c);
     s \<leftarrow> count_access p probe_status access_status s;
     Some (access_status, c\<lparr>l1_sys := s, m_cacp_stats := dj_record_stats critical probe_status
       (critical_eviction flags) (zero_reuse flags) (correct_prediction flags) (m_cacp_stats c)\<rparr>)
   }"

subsection \<open>What the caches see of a line\<close>

text \<open>The lines without the members only the prioritization reads.\<close>

definition plain_line :: "cache_block \<Rightarrow> cache_block" where
  "plain_line l = l\<lparr>c_reuse := False, nc_reuse := False, sig := None\<rparr>"

definition plain_tags :: "tag_array \<Rightarrow> tag_array" where
  "plain_tags ta = ta\<lparr>m_lines := map plain_line (m_lines ta)\<rparr>"

definition plain :: "cache_sys \<Rightarrow> cache_sys" where
  "plain s = s\<lparr>cs_tags := plain_tags (cs_tags s)\<rparr>"

lemma plain_line_simps [simp]:
  "m_tag (plain_line l) = m_tag l" "m_block_addr (plain_line l) = m_block_addr l"
  "m_alloc_time (plain_line l) = m_alloc_time l"
  "m_last_access_time (plain_line l) = m_last_access_time l" "m_status (plain_line l) = m_status l"
  "stamp cfg (plain_line l) = stamp cfg l"
  by (simp_all add: plain_line_def stamp_def split: replacement_policy_t.split)

lemma plain_line_updates:
  "plain_line (l\<lparr>m_last_access_time := t\<rparr>) = (plain_line l)\<lparr>m_last_access_time := t\<rparr>"
  "plain_line (l\<lparr>m_status := st\<rparr>) = (plain_line l)\<lparr>m_status := st\<rparr>"
  "plain_line (block_allocate tg b t l) = block_allocate tg b t (plain_line l)"
  by (simp_all add: plain_line_def block_allocate_def)

lemma plain_tags_simps [simp]:
  "m_lines (plain_tags ta) = map plain_line (m_lines ta)" "m_access (plain_tags ta) = m_access ta"
  "m_miss (plain_tags ta) = m_miss ta" "m_pending_hit (plain_tags ta) = m_pending_hit ta"
  "m_res_fail (plain_tags ta) = m_res_fail ta"
  by (simp_all add: plain_tags_def)

lemma plain_simps [simp]:
  "cs_config (plain s) = cs_config s" "cs_tags (plain s) = plain_tags (cs_tags s)"
  "cs_mshrs (plain s) = cs_mshrs s" "cs_miss_queue (plain s) = cs_miss_queue s"
  "cs_miss_queue_status (plain s) = cs_miss_queue_status s" "cs_extra (plain s) = cs_extra s"
  "cs_stats (plain s) = cs_stats s" "cs_bandwidth (plain s) = cs_bandwidth s"
  "cs_heap (plain s) = cs_heap s" "cs_events (plain s) = cs_events s"
  by (simp_all add: plain_def)

lemma probe_candidate_plain: "probe_candidate cfg j (plain_line l) v = probe_candidate cfg j l v"
  by (simp add: probe_candidate_def Let_def)

lemma probe_loop_plain:
  "\<forall>j \<in> set ws. j < length lines \<Longrightarrow>
   probe_loop cfg (map plain_line lines) t ws v = probe_loop cfg lines t ws v"
  by (induction ws arbitrary: v) (simp_all add: Let_def probe_candidate_plain)

lemma probe_plain [simp]: "probe cfg (plain_tags ta) a = probe cfg ta a"
  unfolding probe_def
  by (cases "set_index cfg a") (auto simp: probe_loop_plain set_lines_def)

lemma map_plain_update:
  "i < length xs \<Longrightarrow> (map plain_line xs)[i := plain_line y] = map plain_line (xs[i := y])"
  by (simp add: map_update)

text \<open>An operation on the lines, on plain lines.\<close>

definition on_result :: "cache_request_status \<times> cache_sys \<Rightarrow> cache_request_status \<times> cache_sys" where
  "on_result = (\<lambda>(st, s). (st, plain s))"

lemma probe_index_less: "probe cfg ta a = Some (st, Some i) \<Longrightarrow> i < length (m_lines ta)"
  by (blast dest: probe_in_set in_set_less)

lemma access_plain:
  "access cfg (plain_tags ta) a time =
     map_option (\<lambda>(st, idx, ev, ta'). (st, idx, map_option plain_line ev, plain_tags ta')) (access cfg ta a time)"
proof -
  have p: "probe cfg (ta\<lparr>m_access := x\<rparr>) a = probe cfg ta a" for x
    by (rule probe_cong) simp
  have q: "probe cfg (ta\<lparr>m_lines := map plain_line (m_lines ta), m_access := x\<rparr>) a = probe cfg ta a" for x
    using probe_cong [of "ta\<lparr>m_lines := map plain_line (m_lines ta), m_access := x\<rparr>" "plain_tags ta" cfg a]
    by simp
  show ?thesis
  proof (cases "probe cfg ta a")
    case (Some r)
    obtain st idx where r: "r = (st, idx)" by (cases r)
    show ?thesis
    proof (cases idx)
      case None
      with Some r show ?thesis
        by (cases st) (simp_all add: access_def Let_def p q plain_tags_def)
    next
      case (Some i)
      with \<open>probe cfg ta a = Some r\<close> r have i: "i < length (m_lines ta)" by (simp add: probe_index_less)
      with \<open>probe cfg ta a = Some r\<close> r Some show ?thesis
        by (cases st) (simp_all add: access_def Let_def p q plain_tags_def map_update plain_line_updates)
    qed
  qed (simp add: access_def Let_def p q plain_tags_def)
qed

text \<open>Pushing a map through a bind, so that both sides of a simulation step have the same shape.\<close>

lemma map_option_bind_eq: "map_option g (Option.bind m f) = Option.bind m (\<lambda>x. map_option g (f x))"
  by (cases m) simp_all

lemma bind_map_option_eq: "Option.bind (map_option g m) f = Option.bind m (\<lambda>x. f (g x))"
  by (cases m) simp_all

lemmas push_map = map_option_bind_eq bind_map_option_eq

lemma plain_updates:
  "plain (s\<lparr>cs_tags := ta\<rparr>) = (plain s)\<lparr>cs_tags := plain_tags ta\<rparr>"
  "plain (s\<lparr>cs_mshrs := m\<rparr>) = (plain s)\<lparr>cs_mshrs := m\<rparr>"
  "plain (s\<lparr>cs_miss_queue := q\<rparr>) = (plain s)\<lparr>cs_miss_queue := q\<rparr>"
  "plain (s\<lparr>cs_extra := e\<rparr>) = (plain s)\<lparr>cs_extra := e\<rparr>"
  "plain (s\<lparr>cs_stats := st\<rparr>) = (plain s)\<lparr>cs_stats := st\<rparr>"
  "plain (s\<lparr>cs_bandwidth := bw\<rparr>) = (plain s)\<lparr>cs_bandwidth := bw\<rparr>"
  "plain (s\<lparr>cs_heap := h\<rparr>) = (plain s)\<lparr>cs_heap := h\<rparr>"
  "plain (s\<lparr>cs_events := ev\<rparr>) = (plain s)\<lparr>cs_events := ev\<rparr>"
  by (simp_all add: plain_def)

lemma set_block_status_plain:
  "set_block_status i st (plain_tags ta) = map_option plain_tags (set_block_status i st ta)"
  by (auto simp: set_block_status_def plain_tags_def map_update plain_line_updates nth_opt_def)

lemma access_no_wb_plain:
  "access_no_wb cfg (plain_tags ta) a time =
     map_option (\<lambda>(st, idx, ta'). (st, idx, plain_tags ta')) (access_no_wb cfg ta a time)"
  by (cases "access cfg ta a time") (auto simp: access_no_wb_def access_plain require_def)

lemma tags_access_plain:
  "tags_access ro b time ci (plain s) =
     map_option (\<lambda>(st, idx, ev, s'). (st, idx, map_option plain_line ev, plain s')) (tags_access ro b time ci s)"
  by (cases "access (cs_config s) (cs_tags s) b time"; cases "access_no_wb (cs_config s) (cs_tags s) b time")
    (auto simp: tags_access_def access_no_wb_plain access_plain plain_updates)

lemma send_read_request_plain:
  "send_read_request b ci p time ro wa (plain s) =
     map_option (\<lambda>(m, ev, s'). (m, map_option plain_line ev, plain s')) (send_read_request b ci p time ro wa s)"
  by (cases "tags_access ro b time ci s")
    (auto simp: send_read_request_def tags_access_plain push_map Let_def plain_updates
        split: prod.splits intro!: Option.bind_cong)

lemma send_write_request_plain:
  "send_write_request p ev time (plain s) = map_option plain (send_write_request p ev time s)"
  by (simp add: send_write_request_def push_map plain_updates)

lemma alloc_write_back_plain:
  "alloc_write_back env (plain_line l) (plain s) = map_option (\<lambda>(q, s'). (q, plain s')) (alloc_write_back env l s)"
  by (auto simp: alloc_write_back_def push_map plain_updates intro!: Option.bind_cong)

lemmas plain_steps = tags_access_plain send_read_request_plain send_write_request_plain
  alloc_write_back_plain set_block_status_plain push_map plain_updates Let_def

lemma wr_hit_plain: "wr_hit addr ci p time (plain s) = map_option on_result (wr_hit addr ci p time s)"
proof -
  have wb: "wr_hit_wb addr ci time (plain s) = map_option on_result (wr_hit_wb addr ci time s)"
    by (auto simp: wr_hit_wb_def on_result_def plain_steps intro!: Option.bind_cong)
  have wt: "wr_hit_wt addr ci p time (plain s) = map_option on_result (wr_hit_wt addr ci p time s)"
    by (auto simp: wr_hit_wt_def on_result_def plain_steps miss_queue_full_def
        simp flip: plain_updates intro!: Option.bind_cong)
  have we: "wr_hit_we ci p time (plain s) = map_option on_result (wr_hit_we ci p time s)"
    by (auto simp: wr_hit_we_def on_result_def plain_steps miss_queue_full_def intro!: Option.bind_cong)
  show ?thesis
    by (auto simp: wr_hit_def wr_hit_global_we_local_wb_def wb wt we push_map
        split: write_policy_t.split intro!: Option.bind_cong)
qed

lemma finish_write_allocate_plain:
  "finish_write_allocate env m (map_option plain_line ev) time (plain s) =
     map_option on_result (finish_write_allocate env m ev time s)"
  by (cases ev) (auto simp: finish_write_allocate_def on_result_def plain_steps intro!: Option.bind_cong)

lemma wr_miss_plain: "wr_miss env addr ci p time (plain s) = map_option on_result (wr_miss env addr ci p time s)"
proof -
  have wa: "wr_miss_wa env addr ci p time (plain s) = map_option on_result (wr_miss_wa env addr ci p time s)"
    by (auto simp: wr_miss_wa_def miss_queue_full_def plain_steps on_result_def finish_write_allocate_plain
        [unfolded on_result_def] simp flip: plain_updates intro!: Option.bind_cong)
  have "wr_miss_no_wa p time (plain s) = map_option on_result (wr_miss_no_wa p time s)"
    by (auto simp: wr_miss_no_wa_def miss_queue_full_def plain_steps on_result_def intro!: Option.bind_cong)
  with wa show ?thesis by (simp add: wr_miss_def split: write_allocate_policy_t.split)
qed

lemma rd_hit_plain: "rd_hit_base addr ci p time (plain s) = map_option on_result (rd_hit_base addr ci p time s)"
  by (auto simp: rd_hit_base_def on_result_def plain_steps intro!: Option.bind_cong)

lemma rd_miss_plain: "rd_miss_base env addr ci p time (plain s) = map_option on_result (rd_miss_base env addr ci p time s)"
  by (auto simp: rd_miss_base_def miss_queue_full_def on_result_def plain_steps
      split: option.splits intro!: Option.bind_cong)

lemma process_tag_probe_plain:
  "process_tag_probe env wr st addr ci p time (plain s) =
     map_option on_result (process_tag_probe env wr st addr ci p time s)"
  by (auto simp: process_tag_probe_def wr_hit_plain wr_miss_plain rd_hit_plain rd_miss_plain push_map
      on_result_def plain_updates intro!: Option.bind_cong)

lemma count_access_plain:
  "count_access p st ac (plain s) = map_option plain (count_access p st ac s)"
  by (auto simp: count_access_def push_map plain_updates intro!: Option.bind_cong)

text \<open>The index a miss passes on is overwritten by the array's own choice.\<close>

lemma tags_access_index:
  assumes "probe (cs_config s) (cs_tags s) b = Some (st, Some j)"
  shows "tags_access ro b time ci s = tags_access ro b time ci' s"
proof -
  have "probe (cs_config s) (cs_tags s\<lparr>m_access := x\<rparr>) b = Some (st, Some j)" for x
    using assms probe_cong [of "cs_tags s\<lparr>m_access := x\<rparr>" "cs_tags s"] by simp
  then show ?thesis
    by (cases st) (simp_all add: tags_access_def access_no_wb_def access_def Let_def)
qed

lemma send_read_request_index:
  assumes "probe (cs_config s) (cs_tags s) b = Some (st, Some j)"
  shows "send_read_request b ci p time ro wa s = send_read_request b ci' p time ro wa s"
  unfolding send_read_request_def by (simp only: tags_access_index [OF assms, of ro time ci ci'])

lemma process_tag_probe_index:
  assumes "probe (cs_config s) (cs_tags s) (block_addr (cs_config s) addr) = Some (st, Some j)"
    and "st \<noteq> HIT"
  shows "process_tag_probe env wr st addr ci p time s = process_tag_probe env wr st addr ci' p time s"
proof -
  have "wr_miss_wa env addr ci p time s = wr_miss_wa env addr ci' p time s"
    using assms(1)
    by (auto simp: wr_miss_wa_def Let_def send_write_request_def bind_eq_Some_iff
        intro!: Option.bind_cong send_read_request_index)
  then have "wr_miss env addr ci p time s = wr_miss env addr ci' p time s"
    by (simp add: wr_miss_def split: write_allocate_policy_t.split)
  moreover have "rd_miss_base env addr ci p time s = rd_miss_base env addr ci' p time s"
    using send_read_request_index [OF assms(1), of ci p time False False ci']
    by (simp add: rd_miss_base_def)
  ultimately show ?thesis using assms(2) by (simp add: process_tag_probe_def)
qed

subsection \<open>The search for a victim\<close>

definition counters_ok :: "int list \<Rightarrow> bool" where
  "counters_ok t \<longleftrightarrow> (\<forall>v \<in> set t. 0 \<le> v \<and> v \<le> 3)"

definition sigs_ok :: "cache_block list \<Rightarrow> nat \<Rightarrow> nat list \<Rightarrow> bool" where
  "sigs_ok lines n ws \<longleftrightarrow> (\<forall>j \<in> set ws. j < length lines \<and> (\<exists>s < n. sig (lines ! j) = Some s))"

lemma counters_okD: "counters_ok t \<Longrightarrow> i < length t \<Longrightarrow> 0 \<le> t ! i \<and> t ! i \<le> 3"
  by (simp add: counters_ok_def)

lemma counters_ok_update: "counters_ok t \<Longrightarrow> 0 \<le> v \<Longrightarrow> v \<le> 3 \<Longrightarrow> counters_ok (t[i := v])"
  by (auto simp: counters_ok_def dest!: subsetD [OF set_update_subset_insert])

lemma victim_fold_cases:
  assumes "foldM (victim_step lines ship) ws (f, a) = Some (f', a')"
  shows "a' \<longleftrightarrow> a \<and> (\<forall>j \<in> set ws. m_status (lines ! j) = RESERVED)"
    and "f' = Some k \<Longrightarrow> f = Some k \<or> k \<in> set ws \<and> m_status (lines ! k) \<noteq> RESERVED"
    and "f' = None \<Longrightarrow> f = None \<and> (\<forall>j \<in> set ws. m_status (lines ! j) \<noteq> RESERVED \<longrightarrow>
           (\<exists>s. sig (lines ! j) = Some s \<and> s < length ship \<and> ship ! s \<noteq> 3))"
proof -
  have "(a' \<longleftrightarrow> a \<and> (\<forall>j \<in> set ws. m_status (lines ! j) = RESERVED)) \<and>
     (f' = Some k \<longrightarrow> f = Some k \<or> k \<in> set ws \<and> m_status (lines ! k) \<noteq> RESERVED) \<and>
     (f' = None \<longrightarrow> f = None \<and> (\<forall>j \<in> set ws. m_status (lines ! j) \<noteq> RESERVED \<longrightarrow>
           (\<exists>s. sig (lines ! j) = Some s \<and> s < length ship \<and> ship ! s \<noteq> 3)))"
    using assms
  proof (induction ws arbitrary: f a)
    case (Cons j ws)
    obtain f1 a1 where s: "victim_step lines ship j (f, a) = Some (f1, a1)"
      and r: "foldM (victim_step lines ship) ws (f1, a1) = Some (f', a')"
      using Cons.prems by (auto simp: bind_eq_Some_iff)
    have "(a1 \<longleftrightarrow> a \<and> m_status (lines ! j) = RESERVED) \<and>
        (f1 = Some k \<longrightarrow> f = Some k \<or> k = j \<and> m_status (lines ! j) \<noteq> RESERVED) \<and>
        (f1 = None \<longrightarrow> f = None \<and> (m_status (lines ! j) \<noteq> RESERVED \<longrightarrow>
           (\<exists>s. sig (lines ! j) = Some s \<and> s < length ship \<and> ship ! s \<noteq> 3)))"
      using s by (auto simp: victim_step_def bind_eq_Some_iff split: if_splits)
    with Cons.IH [OF r] show ?case by auto
  qed simp
  then show "a' \<longleftrightarrow> a \<and> (\<forall>j \<in> set ws. m_status (lines ! j) = RESERVED)"
    and "f' = Some k \<Longrightarrow> f = Some k \<or> k \<in> set ws \<and> m_status (lines ! k) \<noteq> RESERVED"
    and "f' = None \<Longrightarrow> f = None \<and> (\<forall>j \<in> set ws. m_status (lines ! j) \<noteq> RESERVED \<longrightarrow>
           (\<exists>s. sig (lines ! j) = Some s \<and> s < length ship \<and> ship ! s \<noteq> 3))"
    by auto
qed

lemma victim_pass_total:
  "sigs_ok lines (length ship) ws \<Longrightarrow> counters_ok ship \<Longrightarrow> \<exists>r. foldM (victim_step lines ship) ws v = Some r"
  using foldM_total [of "\<lambda>_. True" v ws "victim_step lines ship"]
  by (force simp: victim_step_def sigs_ok_def counters_okD)

text \<open>Ageing only raises intervals, and every interval of a way that is below 3.\<close>

lemma age_step_facts:
  assumes "age_step lines j ship = Some ship'"
  shows "length ship' = length ship"
    and "s < length ship \<Longrightarrow> ship ! s \<le> ship' ! s"
    and "counters_ok ship \<Longrightarrow> counters_ok ship'"
    and "sig (lines ! j) = Some s \<Longrightarrow> ship ! s \<noteq> 3 \<Longrightarrow> ship ! s < ship' ! s"
    and "sig (lines ! j) \<noteq> Some s \<Longrightarrow> ship' ! s = ship ! s"
proof -
  obtain t where t: "sig (lines ! j) = Some t" "t < length ship"
      "ship' = ship[t := ship ! t + (if ship ! t = 3 then 0 else 1)]"
    using assms by (auto simp: age_step_def bind_eq_Some_iff split: if_split_asm)
  from t show "length ship' = length ship" "sig (lines ! j) = Some s \<Longrightarrow> ship ! s \<noteq> 3 \<Longrightarrow> ship ! s < ship' ! s"
      "sig (lines ! j) \<noteq> Some s \<Longrightarrow> ship' ! s = ship ! s" by auto
  from t show "s < length ship \<Longrightarrow> ship ! s \<le> ship' ! s" by (cases "s = t") auto
  show "counters_ok ship \<Longrightarrow> counters_ok ship'"
    using t counters_okD [of ship t] by (auto intro!: counters_ok_update)
qed

lemma age_facts:
  assumes "foldM (age_step lines) ws ship = Some ship'"
  shows "length ship' = length ship"
    and "s < length ship \<Longrightarrow> ship ! s \<le> ship' ! s"
    and "counters_ok ship \<Longrightarrow> counters_ok ship'"
    and "j \<in> set ws \<Longrightarrow> sig (lines ! j) = Some s \<Longrightarrow> s < length ship \<Longrightarrow> ship ! s < 3 \<Longrightarrow> ship ! s < ship' ! s"
proof -
  have "length ship' = length ship \<and> (s < length ship \<longrightarrow> ship ! s \<le> ship' ! s) \<and>
      (counters_ok ship \<longrightarrow> counters_ok ship') \<and>
      (j \<in> set ws \<longrightarrow> sig (lines ! j) = Some s \<longrightarrow> s < length ship \<longrightarrow> ship ! s < 3 \<longrightarrow> ship ! s < ship' ! s)"
    using assms
  proof (induction ws arbitrary: ship)
    case (Cons k ws)
    obtain ship1 where s: "age_step lines k ship = Some ship1" and r: "foldM (age_step lines) ws ship1 = Some ship'"
      using Cons.prems by (auto simp: bind_eq_Some_iff)
    note f = age_step_facts [OF s]
    show ?case
      using Cons.IH [OF r] f(1) f(2) [of s] f(3) f(4) [of s]
      by (cases "ship ! s = ship1 ! s") auto
  qed simp
  then show "length ship' = length ship" "s < length ship \<Longrightarrow> ship ! s \<le> ship' ! s"
      "counters_ok ship \<Longrightarrow> counters_ok ship'"
      "j \<in> set ws \<Longrightarrow> sig (lines ! j) = Some s \<Longrightarrow> s < length ship \<Longrightarrow> ship ! s < 3 \<Longrightarrow> ship ! s < ship' ! s"
    by auto
qed

lemma age_total:
  "sigs_ok lines (length ship) ws \<Longrightarrow> \<exists>ship'. foldM (age_step lines) ws ship = Some ship'"
  using foldM_total [of "\<lambda>t. length t = length ship" ship ws "age_step lines"]
  by (force simp: age_step_def sigs_ok_def)

lemma find_victim_total:
  assumes "sigs_ok lines (length ship) ws" and "counters_ok ship"
  shows "\<exists>r. find_victim lines ws ship = Some r"
proof -
  obtain f a where p: "victim_pass lines ship ws = Some (f, a)"
    using victim_pass_total [OF assms, of "(None, True)"] unfolding victim_pass_def by auto
  show ?thesis
  proof (cases "f = None \<and> \<not> a")
    case False
    then show ?thesis by (subst find_victim.simps) (auto simp: p split: option.splits)
  next
    case True
    note c = victim_fold_cases [OF p [unfolded victim_pass_def]]
    from True c(1) obtain j where j: "j \<in> set ws" "m_status (lines ! j) \<noteq> RESERVED" by blast
    with True c(3) obtain s where s: "sig (lines ! j) = Some s" "s < length ship" "ship ! s \<noteq> 3" by blast
    show ?thesis using assms s j(1)
    proof (induction "nat (3 - ship ! s)" arbitrary: ship f a rule: less_induct)
      case (less ship)
      obtain f a where p: "victim_pass lines ship ws = Some (f, a)"
        using victim_pass_total [OF less.prems(1,2), of "(None, True)"] unfolding victim_pass_def by auto
      obtain ship' where a: "foldM (age_step lines) ws ship = Some ship'"
        using age_total [OF less.prems(1)] by blast
      note g = age_facts [OF a]
      have lt: "ship ! s < 3" using counters_okD [OF less.prems(2,4)] less.prems(5) by simp
      then have up: "ship ! s < ship' ! s" using g(4) less.prems(3,4,6) by blast
      have "\<exists>r. find_victim lines ws ship' = Some r"
      proof (cases "ship' ! s = 3")
        case False
        then show ?thesis
          using less.hyps [of ship'] up lt g less.prems by simp
      next
        case True
        obtain f' a' where p': "victim_pass lines ship' ws = Some (f', a')"
          using victim_pass_total [of lines ship' ws "(None, True)"] g(1,3) less.prems(1,2)
          unfolding victim_pass_def by auto
        note c' = victim_fold_cases [OF p' [unfolded victim_pass_def]]
        have "f' \<noteq> None" using c'(3) True less.prems(3,6) j(2) by force
        then show ?thesis by (subst find_victim.simps) (auto simp: p' split: option.splits)
      qed
      then show ?case by (subst find_victim.simps) (auto simp: p a split: option.splits)
    qed
  qed
qed

lemma find_victim_cases:
  assumes "find_victim lines ws ship = Some (r, ship')"
  shows "(case r of Some j \<Rightarrow> j \<in> set ws \<and> m_status (lines ! j) \<noteq> RESERVED
            | None \<Rightarrow> \<forall>j \<in> set ws. m_status (lines ! j) = RESERVED) \<and>
         length ship' = length ship \<and> (counters_ok ship \<longrightarrow> counters_ok ship') \<and>
         (\<forall>s < length ship. ship ! s \<le> ship' ! s)"
proof -
  have "\<forall>r' t. y = (r', t) \<longrightarrow>
      (case r' of Some j \<Rightarrow> j \<in> set ws \<and> m_status (lines ! j) \<noteq> RESERVED
        | None \<Rightarrow> \<forall>j \<in> set ws. m_status (lines ! j) = RESERVED) \<and>
      length t = length ship \<and> (counters_ok ship \<longrightarrow> counters_ok t) \<and>
      (\<forall>s < length ship. ship ! s \<le> t ! s)" if "find_victim lines ws ship = Some y" for y
    using that
  proof (induction rule: find_victim.raw_induct [rotated, consumes 1])
    case (1 rec lines ws ship y)
    obtain f a where p: "victim_pass lines ship ws = Some (f, a)"
      using 1(2) by (auto simp: bind_eq_Some_iff)
    note c = victim_fold_cases [OF p [unfolded victim_pass_def]]
    show ?case
    proof (cases f)
      case (Some j)
      with 1(2) p c(2) [of j] show ?thesis by auto
    next
      case None
      show ?thesis
      proof (cases a)
        case True
        with 1(2) p None c(1) show ?thesis by auto
      next
        case False
        with 1(2) p None obtain t where t: "foldM (age_step lines) ws ship = Some t" "rec lines ws t = Some y"
          by (auto simp: bind_eq_Some_iff)
        obtain r' t' where y: "y = (r', t')" by (cases y)
        have "ship ! s \<le> t' ! s" if "s < length ship" for s
          using 1(1) [OF t(2)] age_facts(2) [OF t(1) that] age_facts(1) [OF t(1)] that y
          by (auto intro: order_trans)
        with 1(1) [OF t(2)] age_facts(1,3) [OF t(1)] y show ?thesis by simp
      qed
    qed
  qed
  with assms show ?thesis by blast
qed

subsection \<open>What the predicting probe does\<close>

definition cacp_wf :: "tag_array_CACP \<Rightarrow> bool" where
  "cacp_wf ta \<longleftrightarrow> length (CCBP ta) = 256 \<and> length (SHiP ta) = 256 \<and> counters_ok (CCBP ta) \<and>
     counters_ok (SHiP ta) \<and> (\<forall>l \<in> set (m_lines (ca_base ta)). \<exists>s < 256. sig l = Some s)"

lemma signature_less: "signature_of addr pc < 256"
proof -
  have a: "w AND 255 = take_bit 8 w" for w :: "'b::len word"
    by (simp add: take_bit_eq_mask mask_numeral)
  have w: "(addr AND 255) XOR ucast (pc AND 255) = take_bit 8 ((addr AND 255) XOR ucast (pc AND 255))"
    unfolding a by (simp only: take_bit_xor unsigned_take_bit_eq take_bit_take_bit min.idem)
  have e: "take_bit 8 (signature_of addr pc) = signature_of addr pc"
    unfolding signature_of_def
    by (rule trans [OF unsigned_take_bit_eq [symmetric] arg_cong [OF w [symmetric], of unat]])
  have "take_bit 8 (signature_of addr pc) < 2 ^ 8" by (rule take_bit_nat_less_exp)
  then show ?thesis unfolding e by simp
qed

lemma probe_loop_hit_loop:
  "probe_loop cfg lines t ws v = (case cacp_hit_loop lines t ws of Some r \<Rightarrow> Inl r
     | None \<Rightarrow> Inr (fold (\<lambda>j. probe_candidate cfg j (lines ! j)) ws v))"
  by (induction ws arbitrary: v) (auto simp: Let_def split: option.split)

lemma hit_loop_in: "cacp_hit_loop lines t ws = Some (st, j) \<Longrightarrow> j \<in> set ws \<and> st \<in> {HIT, HIT_RESERVED}"
  by (induction ws) (auto simp: Let_def split: if_splits)

text \<open>With room for the set, the plain probe hits exactly where the predicting probe does.\<close>

lemma probe_hit_loop:
  assumes "set_index cfg addr = Some i" and "unat i * m_assoc cfg + m_assoc cfg \<le> length (m_lines ta)"
  shows "cacp_hit_loop (m_lines ta) (tag cfg addr) (set_lines cfg i) = Some (st, j) \<Longrightarrow>
           probe cfg ta addr = Some (st, Some j)"
    and "cacp_hit_loop (m_lines ta) (tag cfg addr) (set_lines cfg i) = None \<Longrightarrow>
           probe cfg ta addr = Some (st', idx) \<Longrightarrow> st' \<in> {MISS, RESERVATION_FAIL}"
    and "cacp_hit_loop (m_lines ta) (tag cfg addr) (set_lines cfg i) = None \<Longrightarrow>
           probe cfg ta addr = Some (st', idx) \<Longrightarrow> k \<in> set (set_lines cfg i) \<Longrightarrow>
           m_status (m_lines ta ! k) \<noteq> RESERVED \<Longrightarrow> st' = MISS \<and> (\<exists>j. idx = Some j)"
  using candidates_ok_all [of cfg "m_lines ta" "set_lines cfg i"]
  by (auto simp: probe_def assms probe_loop_hit_loop candidates_ok_def split: if_splits option.splits)

lemma update_line_facts:
  assumes "update_line idx f ta = Some ta'"
  shows "idx < length (m_lines (ca_base ta))"
    and "ta' = ta\<lparr>ca_base := (ca_base ta)\<lparr>m_lines := (m_lines (ca_base ta))[idx := f (m_lines (ca_base ta) ! idx)]\<rparr>\<rparr>"
  using assms by (auto simp: update_line_def split: if_splits)

lemma update_line_plain:
  "update_line idx f ta = Some ta' \<Longrightarrow> (\<And>l. plain_line (f l) = plain_line l) \<Longrightarrow>
   plain_tags (ca_base ta') = plain_tags (ca_base ta)"
proof -
  assume u: "update_line idx f ta = Some ta'" and f: "\<And>l. plain_line (f l) = plain_line l"
  have "map plain_line (xs[idx := f (xs ! idx)]) = map plain_line xs" for xs
    using f by (metis list_update_id map_update)
  with update_line_facts(2) [OF u] show ?thesis by (simp add: plain_tags_def)
qed

lemma plain_line_reuse [simp]:
  "plain_line (l\<lparr>c_reuse := b\<rparr>) = plain_line l" "plain_line (l\<lparr>nc_reuse := b\<rparr>) = plain_line l"
  "plain_line (l\<lparr>sig := s\<rparr>) = plain_line l"
  by (simp_all add: plain_line_def)

lemma cacp_hit_facts:
  assumes "cacp_hit critical idx ta = Some ta'"
  shows "plain_tags (ca_base ta') = plain_tags (ca_base ta)"
    and "cacp_wf ta \<Longrightarrow> cacp_wf ta'"
proof -
  obtain s ta1 ccbp ship f where s: "line_sig idx ta = Some s" and u: "update_line idx f ta = Some ta1"
    and f: "f = (if critical then (\<lambda>l. l\<lparr>c_reuse := True\<rparr>) else (\<lambda>l. l\<lparr>nc_reuse := True\<rparr>))"
    and c: "(if critical then count_up s (CCBP ta1) else Some (CCBP ta1)) = Some ccbp"
    and h: "count_up s (SHiP ta1) = Some ship" and ta': "ta' = ta1\<lparr>CCBP := ccbp, SHiP := ship\<rparr>"
    using assms unfolding cacp_hit_def by (auto simp: bind_eq_Some_iff)
  have fp: "plain_line (f l) = plain_line l" "sig (f l) = sig l" for l by (simp_all add: f)
  show "plain_tags (ca_base ta') = plain_tags (ca_base ta)"
    using update_line_plain [OF u fp(1)] ta' by simp
  show "cacp_wf ta'" if w: "cacp_wf ta"
  proof -
    have up: "length t' = length t \<and> counters_ok t'" if "count_up s t = Some t'" "counters_ok t" for t t'
      using that counters_okD [OF that(2), of s]
      by (auto simp: count_up_def bind_eq_Some_iff counters_ok_update split: if_splits)
    note v = update_line_facts [OF u]
    have "\<forall>l \<in> set (m_lines (ca_base ta1)). \<exists>s < 256. sig l = Some s"
      using w v fp(2) by (auto simp: cacp_wf_def dest!: subsetD [OF set_update_subset_insert])
    moreover have "length ccbp = 256 \<and> counters_ok ccbp"
      using c up [of "CCBP ta1" ccbp] w v(2) by (auto simp: cacp_wf_def split: if_splits)
    ultimately show ?thesis using up [OF h] w v(2) ta' by (simp add: cacp_wf_def)
  qed
qed

lemma cacp_wf_sig:
  "cacp_wf ta \<Longrightarrow> idx < length (m_lines (ca_base ta)) \<Longrightarrow> \<exists>s < 256. sig (m_lines (ca_base ta) ! idx) = Some s"
  unfolding cacp_wf_def by (blast intro: nth_mem)

lemma cacp_hit_total:
  assumes "cacp_wf ta" and "idx < length (m_lines (ca_base ta))"
  shows "\<exists>ta'. cacp_hit critical idx ta = Some ta'"
proof -
  obtain s where s: "s < 256" "sig (m_lines (ca_base ta) ! idx) = Some s"
    using cacp_wf_sig [OF assms] by blast
  with assms show ?thesis
    by (auto simp: cacp_hit_def line_sig_def update_line_def count_up_def cacp_wf_def)
qed

lemma cacp_eviction_facts:
  assumes "cacp_eviction cfg idx si ta = Some ta'" and "sig (m_lines (ca_base ta) ! idx) = Some s"
  shows "ca_base ta' = ca_base ta" and "cacp_wf ta \<Longrightarrow> cacp_wf ta'"
    and "t \<noteq> s \<Longrightarrow> CCBP ta' ! t = CCBP ta ! t \<and> SHiP ta' ! t = SHiP ta ! t"
proof -
  have down: "length x' = length x \<and> (counters_ok x \<longrightarrow> counters_ok x') \<and> (t \<noteq> s \<longrightarrow> x' ! t = x ! t)"
    if "count_down s x = Some x'" for x x'
    using that counters_okD [of x s]
    by (auto simp: count_down_def counters_ok_update split: if_splits)
  consider (a) ccbp where "count_down s (CCBP ta) = Some ccbp" "ta' = ta\<lparr>CCBP := ccbp\<rparr>"
    | (b) ship where "count_down s (SHiP ta) = Some ship" "ta' = ta\<lparr>SHiP := ship\<rparr>" | (c) "ta' = ta"
  proof -
    define up where "up = (\<lambda>x. ta\<lparr>CCBP := x\<rparr>)"
    define us where "us = (\<lambda>x. ta\<lparr>SHiP := x\<rparr>)"
    obtain A B where "(if A then do { x \<leftarrow> count_down s (CCBP ta); Some (up x) }
        else if B then do { x \<leftarrow> count_down s (SHiP ta); Some (us x) } else Some ta) = Some ta'"
      using assms unfolding cacp_eviction_def up_def us_def bind_nth_opt
      by (cases "idx < length (m_lines (ca_base ta))")
        (simp_all only: if_True if_False option.distinct Option.bind.simps)
    then have "(\<exists>x. count_down s (CCBP ta) = Some x \<and> ta' = up x) \<or>
        (\<exists>x. count_down s (SHiP ta) = Some x \<and> ta' = us x) \<or> ta' = ta"
      by (auto simp: bind_eq_Some_iff split: if_split_asm)
    then show thesis using that unfolding up_def us_def by blast
  qed
  then have "ca_base ta' = ca_base ta \<and> (cacp_wf ta \<longrightarrow> cacp_wf ta') \<and>
      (t \<noteq> s \<longrightarrow> CCBP ta' ! t = CCBP ta ! t \<and> SHiP ta' ! t = SHiP ta ! t)"
  proof cases
    case a
    with down [OF a(1)] show ?thesis by (auto simp: cacp_wf_def)
  next
    case b
    with down [OF b(1)] show ?thesis by (auto simp: cacp_wf_def)
  qed simp
  then show "ca_base ta' = ca_base ta" "cacp_wf ta \<Longrightarrow> cacp_wf ta'"
    "t \<noteq> s \<Longrightarrow> CCBP ta' ! t = CCBP ta ! t \<and> SHiP ta' ! t = SHiP ta ! t" by auto
qed

lemma take_victim_facts:
  assumes "take_victim cfg si idx s critical ta = Some (fl, ta')"
  shows "plain_tags (ca_base ta') = plain_tags (ca_base ta)"
    and "cacp_wf ta \<Longrightarrow> s < 256 \<Longrightarrow> cacp_wf ta'"
    and "t \<noteq> s \<Longrightarrow> CCBP ta' ! t = CCBP ta ! t \<and> SHiP ta' ! t = SHiP ta ! t"
proof -
  obtain ta1 where sh: "s < length (SHiP ta)"
    and u: "update_line idx (\<lambda>l. l\<lparr>sig := Some s\<rparr>) (ta\<lparr>SHiP := (SHiP ta)[s := 2]\<rparr>) = Some ta1"
    and r: "ta' = ta1 \<or> cacp_eviction cfg idx si ta1 = Some ta'"
    using assms by (auto simp: take_victim_def bind_eq_Some_iff split: if_splits)
  note v = update_line_facts [OF u]
  have g: "sig (m_lines (ca_base ta1) ! idx) = Some s" using v by simp
  have p: "plain_tags (ca_base ta1) = plain_tags (ca_base ta)"
    using update_line_plain [OF u] by simp
  have w: "cacp_wf ta1" if "cacp_wf ta" "s < 256"
    using that v by (auto simp: cacp_wf_def counters_ok_update dest!: subsetD [OF set_update_subset_insert])
  have n: "CCBP ta1 ! t = CCBP ta ! t \<and> SHiP ta1 ! t = SHiP ta ! t" if "t \<noteq> s"
    using that v by simp
  show "plain_tags (ca_base ta') = plain_tags (ca_base ta)" "cacp_wf ta \<Longrightarrow> s < 256 \<Longrightarrow> cacp_wf ta'"
    "t \<noteq> s \<Longrightarrow> CCBP ta' ! t = CCBP ta ! t \<and> SHiP ta' ! t = SHiP ta ! t"
    using r cacp_eviction_facts [OF _ g] p w n by auto
qed

lemma take_victim_total:
  assumes "cacp_wf ta" and "idx < length (m_lines (ca_base ta))" and "s < 256"
  shows "\<exists>r. take_victim cfg si idx s critical ta = Some r"
  using assms
  by (auto simp: take_victim_def update_line_def cacp_eviction_def count_down_def cacp_wf_def)

text \<open>The half of the set the incoming signature is predicted to belong to.\<close>

definition predicted_ways :: "cache_config \<Rightarrow> u64 \<Rightarrow> u32 \<Rightarrow> tag_array_CACP \<Rightarrow> nat \<Rightarrow> nat list" where
  "predicted_ways cfg addr pc ta i =
     partition_ways cfg (i * m_assoc cfg) (2 \<le> CCBP ta ! signature_of addr pc)"

lemma cacp_probe_cases:
  assumes "cacp_probe cfg addr critical pc ta = Some (st, idx, fl, ta')"
  obtains
    (hit) i j ta1 s where "set_index cfg addr = Some i"
      "unat i * m_assoc cfg + m_assoc cfg \<le> length (m_lines (ca_base ta))"
      "cacp_hit_loop (m_lines (ca_base ta)) (tag cfg addr) (set_lines cfg i) = Some (st, j)" "idx = Some j"
      "cacp_hit critical j ta = Some ta1" "line_sig j ta1 = Some s" "ta' = ta1\<lparr>SHiP := (SHiP ta1)[s := 0]\<rparr>"
  | (miss) i j ship fl' where "set_index cfg addr = Some i"
      "unat i * m_assoc cfg + m_assoc cfg \<le> length (m_lines (ca_base ta))"
      "cacp_hit_loop (m_lines (ca_base ta)) (tag cfg addr) (set_lines cfg i) = None"
      "find_victim (m_lines (ca_base ta)) (predicted_ways cfg addr pc ta (unat i)) (SHiP ta) = Some (Some j, ship)"
      "take_victim cfg (unat i) j (signature_of addr pc) critical (ta\<lparr>SHiP := ship\<rparr>) = Some (fl', ta')"
      "st = MISS" "idx = Some j"
  | (refused) i ship where "set_index cfg addr = Some i"
      "unat i * m_assoc cfg + m_assoc cfg \<le> length (m_lines (ca_base ta))"
      "cacp_hit_loop (m_lines (ca_base ta)) (tag cfg addr) (set_lines cfg i) = None"
      "find_victim (m_lines (ca_base ta)) (predicted_ways cfg addr pc ta (unat i)) (SHiP ta) = Some (None, ship)"
      "st = RESERVATION_FAIL" "idx = None" "ta' = ta\<lparr>SHiP := ship\<rparr>"
proof -
  obtain i where i: "set_index cfg addr = Some i"
      "unat i * m_assoc cfg + m_assoc cfg \<le> length (m_lines (ca_base ta))"
    using assms by (auto simp: cacp_probe_def Let_def bind_eq_Some_iff split: if_split_asm)
  show ?thesis
  proof (cases "cacp_hit_loop (m_lines (ca_base ta)) (tag cfg addr) (set_lines cfg i)")
    case (Some r)
    then show ?thesis using assms i that(1)
      by (cases r) (auto simp: cacp_probe_def Let_def bind_eq_Some_iff split: if_split_asm)
  next
    case None
    then obtain victim ship where f: "find_victim (m_lines (ca_base ta))
        (predicted_ways cfg addr pc ta (unat i)) (SHiP ta) = Some (victim, ship)"
      using assms i
      by (auto simp: cacp_probe_def predicted_ways_def Let_def bind_eq_Some_iff split: if_split_asm)
    show ?thesis
    proof (cases victim)
      case (Some j)
      with None f assms i show ?thesis
        using that(2) by (auto simp: cacp_probe_def predicted_ways_def Let_def bind_eq_Some_iff split: if_split_asm)
    next
      case v: None
      with None f assms i show ?thesis
        using that(3) by (auto simp: cacp_probe_def predicted_ways_def Let_def bind_eq_Some_iff split: if_split_asm)
    qed
  qed
qed

lemma predicted_ways_in_set:
  "j \<in> set (predicted_ways cfg addr pc ta (unat i)) \<Longrightarrow> j \<in> set (set_lines cfg i)"
  by (auto simp: predicted_ways_def partition_ways_def set_lines_def PARTITION_PCT_def Let_def split: if_splits)

lemma cacp_probe_plain:
  "cacp_probe cfg addr critical pc ta = Some (st, idx, fl, ta') \<Longrightarrow>
   plain_tags (ca_base ta') = plain_tags (ca_base ta)"
  by (erule cacp_probe_cases) (auto simp: cacp_hit_facts(1) dest!: take_victim_facts(1))

lemma cacp_probe_wf:
  assumes "cacp_probe cfg addr critical pc ta = Some (st, idx, fl, ta')" and w: "cacp_wf ta"
  shows "cacp_wf ta'"
  using assms(1)
proof (cases rule: cacp_probe_cases)
  case (hit i j ta1 s)
  with cacp_hit_facts(2) [OF hit(5) w] show ?thesis by (auto simp: cacp_wf_def counters_ok_update)
next
  case (miss i j ship fl')
  have "cacp_wf (ta\<lparr>SHiP := ship\<rparr>)"
    using w find_victim_cases [OF miss(4)] by (simp add: cacp_wf_def)
  then show ?thesis by (rule take_victim_facts(2) [OF miss(5) _ signature_less])
next
  case (refused i ship)
  with w find_victim_cases [OF refused(4)] show ?thesis by (simp add: cacp_wf_def)
qed

subsection \<open>The properties\<close>

lemma cacp_probe_total:
  assumes "cacp_wf ta" and "probe_defined cfg (ca_base ta) addr" and "m_alloc_policy cfg = ON_MISS"
  shows "\<exists>st idx fl ta'. cacp_probe cfg addr critical pc ta = Some (st, idx, fl, ta') \<and> cacp_wf ta'"
proof -
  obtain i where i: "set_index cfg addr = Some i"
      "unat i * m_assoc cfg + m_assoc cfg \<le> length (m_lines (ca_base ta))"
    using assms(2) by (auto simp: probe_defined_def)
  have "\<exists>r. cacp_probe cfg addr critical pc ta = Some r"
  proof (cases "cacp_hit_loop (m_lines (ca_base ta)) (tag cfg addr) (set_lines cfg i)")
    case (Some r)
    obtain st j where r: "r = (st, j)" by (cases r)
    have "j < length (m_lines (ca_base ta))"
      using hit_loop_in [OF Some [unfolded r]] i(2) by (auto simp: set_lines_def)
    then obtain ta1 where h: "cacp_hit critical j ta = Some ta1" using cacp_hit_total [OF assms(1)] by blast
    have w: "cacp_wf ta1" by (rule cacp_hit_facts(2) [OF h assms(1)])
    have "length (m_lines (ca_base ta1)) = length (m_lines (ca_base ta))"
      using arg_cong [OF cacp_hit_facts(1) [OF h], of "\<lambda>t. length (m_lines t)"] by simp
    with \<open>j < _\<close> cacp_wf_sig [OF w] obtain s where "s < 256" "line_sig j ta1 = Some s"
      by (auto simp: line_sig_def)
    with i Some r h w show ?thesis by (simp add: cacp_probe_def cacp_wf_def)
  next
    case None
    have s: "sigs_ok (m_lines (ca_base ta)) (length (SHiP ta)) (predicted_ways cfg addr pc ta (unat i))"
      using assms(1) i(2) cacp_wf_sig [OF assms(1)] unfolding sigs_ok_def
      by (auto simp: cacp_wf_def set_lines_def dest!: predicted_ways_in_set)
    obtain v ship where f: "find_victim (m_lines (ca_base ta)) (predicted_ways cfg addr pc ta (unat i))
        (SHiP ta) = Some (v, ship)"
      using find_victim_total [OF s] assms(1) by (auto simp: cacp_wf_def)
    have w: "cacp_wf (ta\<lparr>SHiP := ship\<rparr>)" using assms(1) find_victim_cases [OF f] by (simp add: cacp_wf_def)
    have sg: "signature_of addr pc < length (CCBP ta)"
      using assms(1) signature_less [of addr pc] by (simp add: cacp_wf_def)
    show ?thesis
    proof (cases v)
      case v: None
      with None f i sg assms(3) show ?thesis by (simp add: cacp_probe_def Let_def predicted_ways_def)
    next
      case (Some j)
      have "j < length (m_lines (ca_base ta))"
        using find_victim_cases [OF f] Some s by (auto simp: sigs_ok_def)
      then have "j < length (m_lines (ca_base (ta\<lparr>SHiP := ship\<rparr>)))" by simp
      from take_victim_total [OF w this signature_less] obtain r
        where "take_victim cfg (unat i) j (signature_of addr pc) critical (ta\<lparr>SHiP := ship\<rparr>) = Some r"
        by blast
      moreover obtain fl' ta' where "r = (fl', ta')" by (cases r)
      ultimately have "take_victim cfg (unat i) j (signature_of addr pc) critical (ta\<lparr>SHiP := ship\<rparr>) = Some (fl', ta')"
        by simp
      with None f i sg Some show ?thesis by (cases fl') (simp add: cacp_probe_def Let_def predicted_ways_def)
    qed
  qed
  then show ?thesis using cacp_probe_wf [OF _ assms(1)] by (metis prod_cases4)
qed

text \<open>
  Property C37: the predicting probe always answers. In a well-formed array (two-bit counters,
  signatures below 256) the search for a victim, which starts over as long as no way of the predicted
  half has interval 3, comes to an end, no assertion fails, and the array stays well-formed.
\<close>

theorem cacp_probe_answers:
  assumes "cacp_wf ta" and "probe_defined cfg (ca_base ta) addr" and "m_alloc_policy cfg = ON_MISS"
  shows "\<exists>st idx fl ta'. cacp_probe cfg addr critical pc ta = Some (st, idx, fl, ta') \<and> cacp_wf ta'"
  using assms by (rule cacp_probe_total)

lemma cacp_probe_in_partition:
  assumes "cacp_probe cfg addr critical pc ta = Some (st, idx, fl, ta')"
    and "set_index cfg addr = Some i" and "probe cfg (ca_base ta) addr = Some (pst, pidx)"
  shows "(st \<in> {HIT, HIT_RESERVED} \<longleftrightarrow> pst \<in> {HIT, HIT_RESERVED}) \<and>
    (case st of
       MISS \<Rightarrow> \<exists>j. idx = Some j \<and> j \<in> set (predicted_ways cfg addr pc ta (unat i)) \<and>
         m_status (m_lines (ca_base ta) ! j) \<noteq> RESERVED \<and> pst = MISS
     | RESERVATION_FAIL \<Rightarrow> idx = None \<and>
         (\<forall>j \<in> set (predicted_ways cfg addr pc ta (unat i)). m_status (m_lines (ca_base ta) ! j) = RESERVED)
     | _ \<Rightarrow> pst = st \<and> pidx = idx)"
  using assms(1)
proof (cases rule: cacp_probe_cases)
  case (hit i' j ta1 s)
  with assms(2,3) probe_hit_loop(1) [OF hit(1,2,3)] hit_loop_in [OF hit(3)]
  show ?thesis by auto
next
  case (miss i' j ship fl')
  have j: "j \<in> set (predicted_ways cfg addr pc ta (unat i))" "m_status (m_lines (ca_base ta) ! j) \<noteq> RESERVED"
    using find_victim_cases [OF miss(4)] miss(1) assms(2) by auto
  have "i' = i" using miss(1) assms(2) by simp
  with predicted_ways_in_set [OF j(1)] j(2) have "pst = MISS"
    using probe_hit_loop(3) [OF miss(1,2,3) assms(3)] by blast
  with miss j show ?thesis by auto
next
  case (refused i' ship)
  with find_victim_cases [OF refused(4)] probe_hit_loop(2) [OF refused(1,2,3) assms(3)] assms(2)
  show ?thesis by auto
qed

text \<open>
  Where the predicting probe looks. It hits exactly where the plain probe does. On a miss
  its victim is a way of the half the incoming signature is predicted for, and never a reserved one;
  the prediction counts as correct when it matches the criticality of the request. It refuses when
  that half is reserved altogether, whatever the other half holds.
\<close>

theorem cacp_victim_in_partition:
  assumes "cacp_probe cfg addr critical pc ta = Some (st, idx, fl, ta')"
    and "set_index cfg addr = Some i" and "probe cfg (ca_base ta) addr = Some (pst, pidx)"
  shows "(st \<in> {HIT, HIT_RESERVED} \<longleftrightarrow> pst \<in> {HIT, HIT_RESERVED}) \<and>
    (case st of
       MISS \<Rightarrow> \<exists>j. idx = Some j \<and> j \<in> set (predicted_ways cfg addr pc ta (unat i)) \<and>
         m_status (m_lines (ca_base ta) ! j) \<noteq> RESERVED \<and> pst = MISS
     | RESERVATION_FAIL \<Rightarrow> idx = None \<and>
         (\<forall>j \<in> set (predicted_ways cfg addr pc ta (unat i)). m_status (m_lines (ca_base ta) ! j) = RESERVED)
     | _ \<Rightarrow> pst = st \<and> pidx = idx)"
  using assms by (rule cacp_probe_in_partition)

lemma probe_normal_is_probe:
  assumes "probe_normal cfg addr critical ta = Some (st, idx, fl, ta')"
  shows "probe cfg (ca_base ta) addr = Some (st, idx)" and "plain_tags (ca_base ta') = plain_tags (ca_base ta)"
proof -
  obtain i where i: "set_index cfg addr = Some i"
      "unat i * m_assoc cfg + m_assoc cfg \<le> length (m_lines (ca_base ta))"
    using assms by (auto simp: probe_normal_def Let_def bind_eq_Some_iff split: if_split_asm)
  let ?l = "probe_loop cfg (m_lines (ca_base ta)) (tag cfg addr) (set_lines cfg i) probe_vars_init"
  have "probe cfg (ca_base ta) addr = Some (st, idx) \<and> plain_tags (ca_base ta') = plain_tags (ca_base ta)"
  proof (cases ?l)
    case (Inl r)
    obtain s j where r: "r = (s, j)" by (cases r)
    with assms i Inl have "cacp_hit_stats critical j ta = Some ta'" "st = s" "idx = Some j"
      by (auto simp: probe_normal_def Let_def bind_eq_Some_iff)
    then have "plain_tags (ca_base ta') = plain_tags (ca_base ta)"
      by (auto simp: cacp_hit_stats_def dest!: update_line_plain split: if_split_asm)
    with i Inl r \<open>st = s\<close> \<open>idx = Some j\<close> show ?thesis by (simp add: probe_def)
  next
    case (Inr v)
    show ?thesis
    proof (cases "all_reserved v")
      case True
      with assms i Inr show ?thesis
        by (auto simp: probe_normal_def probe_def Let_def split: if_split_asm)
    next
      case False
      obtain k where k: "(case invalid_line v of Some index \<Rightarrow> Some index | None \<Rightarrow> valid_line v) = Some k"
        and r: "st = MISS" "idx = Some k" "ta' = ta"
        using assms i Inr False by (auto simp: probe_normal_def Let_def bind_eq_Some_iff)
      from k i Inr False have "probe cfg (ca_base ta) addr = Some (MISS, Some k)"
        by (cases "invalid_line v") (simp_all add: probe_def)
      with r show ?thesis by simp
    qed
  qed
  then show "probe cfg (ca_base ta) addr = Some (st, idx)"
    "plain_tags (ca_base ta') = plain_tags (ca_base ta)" by auto
qed

text \<open>The rest of an access, run from the state after the probe, agrees with the plain access.\<close>

lemma access_rest_plain:
  assumes "process_tag_probe env wr st addr ci p time s = Some (ac, s1)" and "count_access p st ac s1 = Some s2"
    and "plain s = plain t"
    and "probe (cs_config t) (cs_tags t) (block_addr (cs_config t) addr) = Some (st, idx)"
    and "st \<noteq> MISS \<Longrightarrow> ci = (case idx of Some i \<Rightarrow> i | None \<Rightarrow> no_index)" and "st = MISS \<Longrightarrow> idx \<noteq> None"
  shows "\<exists>t1 t2. process_tag_probe env wr st addr (case idx of Some i \<Rightarrow> i | None \<Rightarrow> no_index) p time t = Some (ac, t1) \<and>
    count_access p st ac t1 = Some t2 \<and> plain t2 = plain s2"
proof -
  have "map_option on_result (process_tag_probe env wr st addr ci p time t) = Some (ac, plain s1)"
    using process_tag_probe_plain [of env wr st addr ci p time s] process_tag_probe_plain [of env wr st addr ci p time t]
      assms(1,3) by (simp add: on_result_def)
  then obtain t1 where t1: "process_tag_probe env wr st addr ci p time t = Some (ac, t1)" "plain t1 = plain s1"
    by (auto simp: on_result_def)
  have "map_option plain (count_access p st ac t1) = Some (plain s2)"
    using count_access_plain [of p st ac s1] count_access_plain [of p st ac t1] t1(2) assms(2) by simp
  then obtain t2 where t2: "count_access p st ac t1 = Some t2" "plain t2 = plain s2" by auto
  have "process_tag_probe env wr st addr (case idx of Some i \<Rightarrow> i | None \<Rightarrow> no_index) p time t = Some (ac, t1)"
  proof (cases "st = MISS")
    case True
    then obtain j where "idx = Some j" using assms(6) by auto
    with process_tag_probe_index [of t addr st j env wr ci p time j] assms(4) True t1(1) show ?thesis by simp
  qed (use t1(1) assms(5) in simp)
  with t2 show ?thesis by blast
qed

text \<open>
  Property C7: the prioritization does not decide what is replaced. Whatever the tables predict, an
  access of the L1 cache returns the same status and leaves the same cache (lines, misses, queue,
  statistics, requests) as the plain data cache, except for the reuse bits and signatures only the
  prioritization reads: the victim its probe chose is not the line the access that follows
  allocates. The only visible effect is a refusal when the predicted half of the set is reserved.
\<close>

theorem cacp_choice_is_inert:
  assumes acc: "l1_cache_cacp_access env addr p critical time c = Some (st, c')"
    and pr: "probe (cs_config (l1_sys c)) (cs_tags (l1_sys c)) (block_addr (cs_config (l1_sys c)) addr) \<noteq> None"
  shows "(\<exists>s'. data_cache_access env addr p time (l1_sys c) = Some (st, s') \<and> plain (l1_sys c') = plain s') \<or>
    (m_real_cacp c \<and> st = RESERVATION_FAIL \<and>
     (\<exists>mf i. heap_mf (cs_heap (l1_sys c)) p = Some mf \<and>
       set_index (cs_config (l1_sys c)) (block_addr (cs_config (l1_sys c)) addr) = Some i \<and>
       (\<forall>j \<in> set (predicted_ways (cs_config (l1_sys c)) (block_addr (cs_config (l1_sys c)) addr)
            (request_pc mf) (l1_tag_array c) (unat i)).
          m_status (m_lines (cs_tags (l1_sys c)) ! j) = RESERVED)))"
proof -
  let ?s = "l1_sys c" and ?cfg = "cs_config (l1_sys c)"
  let ?b = "block_addr ?cfg addr"
  obtain mf ps idx fl ta s1 s2 where mf: "heap_mf (cs_heap ?s) p = Some mf" "mf_data_size mf \<le> m_line_sz ?cfg"
    and R: "(if m_real_cacp c then cacp_probe ?cfg ?b critical (request_pc mf) (l1_tag_array c)
        else probe_normal ?cfg ?b critical (l1_tag_array c)) = Some (ps, idx, fl, ta)"
    and P: "process_tag_probe env (get_is_write mf) ps addr (case idx of Some i \<Rightarrow> i | None \<Rightarrow> no_index) p time
        (?s\<lparr>cs_tags := ca_base ta\<rparr>) = Some (st, s1)"
    and C: "count_access p ps st s1 = Some s2" and c': "l1_sys c' = s2"
    using acc by (auto simp: l1_cache_cacp_access_def Let_def set_l1_tag_array_def bind_eq_Some_iff split: if_split_asm)
  have base: "ca_base (l1_tag_array c) = cs_tags ?s" by (simp add: l1_tag_array_def)
  have "plain_tags (ca_base ta) = plain_tags (cs_tags ?s)"
    using R cacp_probe_plain probe_normal_is_probe(2) base by (auto split: if_split_asm)
  then have pl: "plain (?s\<lparr>cs_tags := ca_base ta\<rparr>) = plain ?s" by (simp add: plain_def)
  obtain pst pidx where q: "probe ?cfg (cs_tags ?s) ?b = Some (pst, pidx)" using pr by auto
  have same: "\<exists>s'. data_cache_access env addr p time ?s = Some (st, s') \<and> plain (l1_sys c') = plain s'"
    if "pst = ps" "ps \<noteq> MISS \<Longrightarrow> pidx = idx"
  proof -
    have "ps = MISS \<Longrightarrow> pidx \<noteq> None" using q that(1) probe_status_idx [OF q] by auto
    with access_rest_plain [OF P C pl, of pidx] q that obtain t1 t2 where
      "process_tag_probe env (get_is_write mf) ps addr (case pidx of Some i \<Rightarrow> i | None \<Rightarrow> no_index) p time ?s = Some (st, t1)"
      "count_access p ps st t1 = Some t2" "plain t2 = plain s2" by auto
    with mf q that(1) c' show ?thesis by (simp add: data_cache_access_def Let_def)
  qed
  show ?thesis
  proof (cases "m_real_cacp c")
    case False
    with R have "probe_normal ?cfg ?b critical (l1_tag_array c) = Some (ps, idx, fl, ta)" by simp
    from probe_normal_is_probe(1) [OF this] q base same show ?thesis by simp
  next
    case True
    with R have R': "cacp_probe ?cfg ?b critical (request_pc mf) (l1_tag_array c) = Some (ps, idx, fl, ta)" by simp
    obtain i where i: "set_index ?cfg ?b = Some i"
      using probe_defined_if_Some [OF q] by (auto simp: probe_defined_def)
    note v = cacp_probe_in_partition [OF R' i, unfolded base, OF q]
    show ?thesis
    proof (cases "ps = RESERVATION_FAIL")
      case False
      with v have "pst = ps" "ps \<noteq> MISS \<Longrightarrow> pidx = idx" by (auto split: cache_request_status.splits)
      with same show ?thesis by blast
    next
      case F: True
      have "st = RESERVATION_FAIL" using P F by (auto simp: process_tag_probe_def bind_eq_Some_iff split: if_split_asm)
      with True F v i mf show ?thesis by auto
    qed
  qed
qed

text \<open>
  The tables never learn from the block that is replaced. The probe overwrites the
  victim's signature before \<open>cacp_eviction\<close> reads it, so on a miss no prediction and no interval of
  another signature than the incoming one is lowered, and the prediction of every other signature
  stays as it was.
\<close>

theorem eviction_trains_incoming_signature:
  assumes "cacp_probe cfg addr critical pc ta = Some (MISS, idx, fl, ta')" and "t \<noteq> signature_of addr pc"
    and "t < length (SHiP ta)"
  shows "CCBP ta' ! t = CCBP ta ! t \<and> SHiP ta ! t \<le> SHiP ta' ! t"
  using assms(1)
proof (cases rule: cacp_probe_cases)
  case (hit i j ta1 s)
  with hit_loop_in [OF hit(3)] show ?thesis by simp
next
  case (miss i j ship fl')
  from take_victim_facts(3) [OF miss(5) assms(2)] find_victim_cases [OF miss(4)] assms(3)
  show ?thesis by simp
next
  case (refused i ship)
  then show ?thesis by simp
qed

text \<open>
  In a fresh array a signature that is no index of the tables, in the half the first miss searches,
  makes that miss read outside the table.
\<close>

lemma foldM_None: "x \<in> set xs \<Longrightarrow> (\<And>s. f x s = None) \<Longrightarrow> foldM f xs s = None"
  by (induction xs arbitrary: s) (auto split: Option.bind_splits)

lemma first_miss_reads_garbage:
  assumes "set_index cfg addr = Some i"
    and "j \<in> set (predicted_ways cfg addr pc (tag_array_CACP_new garbage cfg core type) (unat i))"
    and "garbage j = Some s" and "256 \<le> s"
  shows "cacp_probe cfg addr critical pc (tag_array_CACP_new garbage cfg core type) = None"
proof -
  let ?ta = "tag_array_CACP_new garbage cfg core type"
  let ?lines = "m_lines (ca_base ?ta)"
  have n: "length ?lines = 4 * get_num_lines cfg"
    by (simp add: tag_array_CACP_new_def Let_def tag_array_new_def tag_array_init_def)
  have l: "m_status (?lines ! k) = INVALID" "sig (?lines ! k) = garbage k" if "k < length ?lines" for k
    using that by (simp_all add: tag_array_CACP_new_def Let_def tag_array_new_def tag_array_init_def cache_block_new_def)
  show ?thesis
  proof (cases "unat i * m_assoc cfg + m_assoc cfg \<le> length ?lines")
    case True
    have b: "k < length ?lines" if "k \<in> set (set_lines cfg i)" for k
      using that True by (simp add: set_lines_def)
    have "cacp_hit_loop ?lines t ws = None" if "\<forall>k \<in> set ws. k < length ?lines" for t ws
      using that by (induction ws) (simp_all add: l)
    then have h: "cacp_hit_loop ?lines (tag cfg addr) (set_lines cfg i) = None" using b by blast
    have "victim_step ?lines (SHiP ?ta) j v = None" for v
      using l(2) [OF b [OF predicted_ways_in_set [OF assms(2)]]] assms(3,4)
      by (simp add: victim_step_def tag_array_CACP_new_def Let_def)
    then have "victim_pass ?lines (SHiP ?ta) (predicted_ways cfg addr pc ?ta (unat i)) = None"
      unfolding victim_pass_def using assms(2) by (blast intro: foldM_None)
    then have "find_victim ?lines (predicted_ways cfg addr pc ?ta (unat i)) (SHiP ?ta) = None"
      by (subst find_victim.simps) simp
    with assms(1) True h show ?thesis by (simp add: cacp_probe_def Let_def predicted_ways_def)
  qed (simp add: cacp_probe_def assms(1) Let_def)
qed

text \<open>Memory that happens to be zero makes the fresh array well-formed.\<close>

lemma tag_array_CACP_new_wf: "(\<And>i. garbage i = Some 0) \<Longrightarrow> cacp_wf (tag_array_CACP_new garbage cfg core type)"
  by (auto simp: cacp_wf_def tag_array_CACP_new_def Let_def counters_ok_def tag_array_new_def tag_array_init_def)

subsection \<open>The classification\<close>

lemma floorlog_inits: "floorlog 2 (4294967295 :: nat) = 32" "floorlog 2 (268435455 :: nat) = 28" "floorlog 2 (Suc 0) = 1"
  by (simp_all add: compute_floorlog)

lemma crit_init: "crit_max_init = Fin (- 4294967296)" "crit_min_init = Fin 268435456"
proof -
  have m: "magnitude 4294967295 (Suc 0) = 31" "magnitude 268435455 (Suc 0) = 27"
    by (simp_all add: magnitude_def floorlog_inits Let_def)
  have "\<lfloor>- 4294967295 / 256 :: rat\<rfloor> = - 16777216" "\<lfloor>268435455 / 16 :: rat\<rfloor> = 16777215"
    by (simp_all add: floor_eq_iff)
  then show "crit_max_init = Fin (- 4294967296)" "crit_min_init = Fin 268435456"
    using quotient_of_int [of "- 4294967295"] quotient_of_int [of 268435455]
    by (simp_all add: crit_max_init_def crit_min_init_def rnd_def m scale_def round_half_even_def Let_def)
qed

lemma crit_max_fold:
  "foldl (\<lambda>m c. if fp_less m c then c else m) (Fin a) (map Fin xs) = Fin (foldl max a xs)"
  by (induction xs arbitrary: a) (auto simp: max_def)

lemma crit_min_fold:
  "foldl (\<lambda>m c. if fp_less c m then c else m) (Fin a) (map Fin xs) = Fin (foldl min a xs)"
  by (induction xs arbitrary: a) (auto simp: min_def)

lemma foldl_max_eq: "foldl max a xs = Max (insert a (set xs))"
  and foldl_min_eq: "foldl min a xs = Min (insert a (set xs))"
  for xs :: "'b::linorder list"
proof -
  have a: "max (max x y) z = max x (max y z)" "min (min x y) z = min x (min y z)" for x y z :: 'b
    by (simp_all add: max.assoc min.assoc)
  show "foldl max a xs = Max (insert a (set xs))"
    by (induction xs arbitrary: a) (auto simp: a(1) Max_insert2, metis List.finite_set Max.singleton Max_insert a(1))
  show "foldl min a xs = Min (insert a (set xs))"
    by (induction xs arbitrary: a) (auto simp: a(2), metis List.finite_set Min.singleton Min_insert a(2))
qed

text \<open>
  The extremes of the classification. For counters within the initial bounds, the
  warps with the largest counter are critical exactly if some warp has a smaller one, and the warps
  with the smallest counter never are.
\<close>

theorem criticality_extremes:
  assumes "cpls = map Fin xs" and "\<forall>x \<in> set xs. - 4294967296 \<le> x \<and> x \<le> 268435456" and "i < length xs"
  shows "(xs ! i = Max (set xs) \<longrightarrow> get_warp_critical i cpls = Some (Min (set xs) \<noteq> Max (set xs))) \<and>
    (xs ! i = Min (set xs) \<longrightarrow> get_warp_critical i cpls = Some False)"
proof -
  let ?M = "Max (set xs)" and ?m = "Min (set xs)"
  have ne: "set xs \<noteq> {}" using assms(3) by auto
  have "- 4294967296 \<le> ?M" "?m \<le> 268435456" using assms(2) ne Max_in [of "set xs"] Min_in [of "set xs"] by auto
  then have "crit_max cpls = Fin ?M" "crit_min cpls = Fin ?m"
    using Max_insert [OF List.finite_set ne] Min_insert [OF List.finite_set ne]
    by (simp_all add: crit_max_def crit_min_def crit_init crit_max_fold crit_min_fold assms(1)
        foldl_max_eq foldl_min_eq)
  then have f: "get_warp_critical i cpls = Some (is_critical (Fin ?m) (Fin ?M) (Fin (xs ! i)))"
    using assms(1,3) by (simp add: get_warp_critical_def calc_warp_criticality_def nth_opt_def)
  have "?m \<le> ?M" using ne by (simp add: Min_le [OF _ Max_in])
  have "is_critical (Fin ?m) (Fin ?M) (Fin ?M) \<longleftrightarrow> ?m \<noteq> ?M"
  proof (cases "?m = ?M")
    case False
    with \<open>?m \<le> ?M\<close> have "0 < rnd 24 (?M - ?m)" by (intro rnd_pos) simp
    with False show ?thesis by (simp add: is_critical_def)
  qed (simp add: is_critical_def)
  moreover have "\<not> is_critical (Fin ?m) (Fin ?M) (Fin ?m)" by (simp add: is_critical_def)
  ultimately show ?thesis using f by auto
qed

end
