(* ===== verification/Data_Cache_Runs.thy ===== *)
theory Data_Cache_Runs
  imports Data_Cache
begin

text \<open>
  Concrete runs of a two-way data cache: a read of block \<open>0x80\<close> that misses, its response, and a
  global write that evicts the block again before the answered read is popped. They show that the
  hypotheses of the theorems about \<open>Data_Cache\<close> occur in states the cache reaches.
\<close>

definition sample_mf :: "mem_access_type \<Rightarrow> bool \<Rightarrow> mem_fetch" where
  "sample_mf type wr = \<lparr>mf_request_uid = 1, mf_sid = 0, mf_tpc = 0, mf_wid = 0,
     mf_status = MEM_FETCH_INITIALIZED, mf_status_change = 0,
     mf_access = mem_access_new type 0x80 32 wr, mf_data_size = 32, mf_ctrl_size = 8,
     mf_partition_addr = 0x80,
     mf_raw_addr = \<lparr>chip = 0, bk = 0, row = 0, col = 0, burst = 0, sub_partition = 0\<rparr>,
     mf_type = (if wr then WRITE_REQUEST else READ_REQUEST), mf_timestamp = 0, mf_timestamp2 = 0,
     mf_inst = None, mf_icnt_flit_size = 32\<rparr>"

definition sample_heap :: mf_heap where
  "sample_heap = \<lparr>heap_mf = (\<lambda>_. None)(0 \<mapsto> sample_mf GLOBAL_ACC_R False,
       1 \<mapsto> sample_mf GLOBAL_ACC_R False, 2 \<mapsto> sample_mf GLOBAL_ACC_W True),
     heap_next = 3, next_mf_request_uid = 4\<rparr>"

definition sample_env :: cache_env where
  "sample_env = \<lparr>ce_memory_config = \<lparr>mc_address_mapping = column_only, mc_icnt_flit_size = 32\<rparr>,
     ce_allocator = Shader_allocator 0 0, ce_wr_alloc_type = L1_WR_ALLOC_R,
     ce_wrbk_type = L1_WRBK_ACC, ce_now = 0\<rparr>"

lemma data_config_two_way: "data_config_ok two_way_config"
  by (simp add: data_config_ok_def two_way_config_def sample_l1d_config_def)

lemma two_way_params [simp]:
  "m_miss_queue_size two_way_config = 8" "m_line_sz two_way_config = 128"
  "m_data_port_width two_way_config = 128" "m_write_policy two_way_config = LOCAL_WB_GLOBAL_WT"
  "m_mshr_entries two_way_config = 32" "m_mshr_max_merge two_way_config = 8"
  "m_mshr_type two_way_config = ASSOC"
  by (simp_all add: two_way_config_def sample_l1d_config_def)

lemma block_two_way [simp]: "block_addr two_way_config 0x80 = 0x80"
  by (simp add: tag_eq_block_addr [symmetric])

lemma sample_heap_simps [simp]:
  "heap_mf sample_heap 0 = Some (sample_mf GLOBAL_ACC_R False)"
  "heap_mf sample_heap (Suc 0) = Some (sample_mf GLOBAL_ACC_R False)"
  "heap_mf sample_heap 2 = Some (sample_mf GLOBAL_ACC_W True)"
  by (simp_all add: sample_heap_def)

lemma heap_ok_sample: "heap_ok sample_heap"
  by (simp add: heap_ok_def sample_heap_def)

lemma access_by_process:
  assumes "heap_mf (cs_heap s) p = Some mf" and "mf_data_size mf \<le> m_line_sz (cs_config s)"
    and "probe (cs_config s) (cs_tags s) (block_addr (cs_config s) a) = Some (ps, Some i)"
    and "process_tag_probe env (get_is_write mf) ps a i p t s = Some (acs, s1)"
    and "heap_mf (cs_heap s1) p = Some mf1" and "stats_ok (cs_stats s1)"
  shows "\<exists>st. data_cache_access env a p t s = Some (acs, s1\<lparr>cs_stats := st\<rparr>) \<and> stats_ok st"
proof -
  obtain st where "inc_stats (access_code (ma_type (mf_access mf1)))
      (outcome_code (select_stats_status ps acs)) (cs_stats s1) = Some st" "stats_ok st"
    using inc_stats_total [OF assms(6)] by blast
  with assms show ?thesis
    by (auto simp: data_cache_access_def count_access_def)
qed

definition fresh_lines :: "cache_block list" where
  "fresh_lines = [cache_block_new, cache_block_new, cache_block_new, cache_block_new,
     cache_block_new, cache_block_new, cache_block_new, cache_block_new]"

definition cache0 :: cache_sys where
  "cache0 = \<lparr>cs_config = two_way_config, cs_tags = tag_array_init fresh_lines 0 0,
     cs_mshrs = mshr_new 32 8, cs_miss_queue = [], cs_miss_queue_status = IN_L1D_MISS_QUEUE,
     cs_extra = (\<lambda>_. None), cs_stats = cache_stats_new, cs_bandwidth = bandwidth_new,
     cs_heap = sample_heap, cs_events = []\<rparr>"

lemma cache0_new: "data_cache_new two_way_config 0 0 IN_L1D_MISS_QUEUE sample_heap = Some cache0"
  by (simp add: data_cache_new_def baseline_new_def cache0_def fresh_lines_def new_two_way)

lemma cache0_reachable: "cache_reachable sample_env two_way_config cache0"
  by (rule cache_reachable.reach_new [OF cache0_new heap_ok_sample])

lemmas probe_eval = probe_def probe_loop_eq set_lines_two_way new_two_way
  probe_candidate_def probe_vars_init_def holds_def live_def

definition line_reserved :: cache_block where
  "line_reserved = block_allocate 0x80 0x80 1 cache_block_new"

lemma probe_cache0: "probe two_way_config (tag_array_init fresh_lines 0 0) 0x80 = Some (MISS, Some 1)"
  by (simp add: probe_eval fresh_lines_def cache_block_new_def)

definition lines1 :: "cache_block list" where
  "lines1 = fresh_lines[1 := line_reserved]"

definition mshr1 :: mshr_table where
  "mshr1 = \<lparr>m_num_entries = 32, m_max_merged = 8,
     m_data = [(0x80, \<lparr>me_list = [0], me_has_atomic = False\<rparr>)], m_current_response = []\<rparr>"

definition extra1 :: extra_mf_fields where
  "extra1 = \<lparr>ex_valid = True, ex_block_addr = 0x80, ex_cache_index = 1, ex_data_size = 32\<rparr>"

lemma access_cache0:
  "\<exists>ta. access two_way_config (tag_array_init fresh_lines 0 0) 0x80 1 = Some (MISS, Some 1, None, ta) \<and>
     m_lines ta = lines1"
  by (simp add: access_def probe_eval fresh_lines_def cache_block_new_def lines1_def
      line_reserved_def tag_eq_block_addr [symmetric])

lemma isatomic_sample [simp]: "isatomic (sample_mf ty wr) = False"
  by (simp add: isatomic_def sample_mf_def)

lemma sample_mf_simps [simp]: "mf_data_size (sample_mf ty wr) = 32"
  "get_is_write (sample_mf ty wr) = wr" "ma_type (mf_access (sample_mf ty wr)) = ty"
  by (simp_all add: sample_mf_def get_is_write_def mem_access_new_def)

lemma rd_miss_cache0:
  "\<exists>s. rd_miss_base sample_env 0x80 1 0 1 cache0 = Some (MISS, s) \<and>
     cs_config s = two_way_config \<and> m_lines (cs_tags s) = lines1 \<and> cs_mshrs s = mshr1 \<and>
     cs_miss_queue s = [0] \<and> cs_extra s = [0 \<mapsto> extra1] \<and> cs_stats s = cache_stats_new \<and>
     cs_bandwidth s = bandwidth_new \<and> cs_events s = [READ_REQUEST_SENT] \<and>
     heap_mf (cs_heap s) 0 \<noteq> None \<and> heap_mf (cs_heap s) 1 = heap_mf sample_heap 1 \<and>
     heap_mf (cs_heap s) 2 = heap_mf sample_heap 2"
proof -
  obtain ta where a: "access two_way_config (tag_array_init fresh_lines 0 0) 0x80 1
      = Some (MISS, Some 1, None, ta)" "m_lines ta = lines1"
    using access_cache0 by blast
  obtain h1 h2 where "set_data_size 128 0 sample_heap = Some h1" 
   "set_status IN_L1D_MISS_QUEUE 1 0 h1 = Some h2" and "heap_mf h2 0 \<noteq> None" "heap_mf h2 1 = heap_mf sample_heap 1"
     "heap_mf h2 2 = heap_mf sample_heap 2"
    by (simp add: set_data_size_def set_status_def update_mf_def)
  then show ?thesis
    using a by (simp add: rd_miss_base_def miss_queue_full_def cache0_def send_read_request_def mshr_probe_def
       mshr_full_def mshr_new_def tags_access_def mshr_add_def mshr_at_def mshr_entry_new_def
       mshr1_def extra1_def Let_def)
qed

text \<open>The cache after the read: its request waits, its line is reserved.\<close>

lemma after_read:
  "\<exists>s. cache_reachable sample_env two_way_config s \<and>
     cs_config s = two_way_config \<and> m_lines (cs_tags s) = lines1 \<and> cs_mshrs s = mshr1 \<and>
     cs_miss_queue s = [0] \<and> cs_extra s = [0 \<mapsto> extra1] \<and> stats_ok (cs_stats s) \<and>
     heap_mf (cs_heap s) 0 \<noteq> None \<and> heap_mf (cs_heap s) 1 = heap_mf sample_heap 1 \<and>
     heap_mf (cs_heap s) 2 = heap_mf sample_heap 2"
proof -
  obtain s mf where m: "rd_miss_base sample_env 0x80 1 0 1 cache0 = Some (MISS, s)"
     "cs_config s = two_way_config" "m_lines (cs_tags s) = lines1" "cs_mshrs s = mshr1"
     "cs_miss_queue s = [0]" "cs_extra s = [0 \<mapsto> extra1]" "cs_stats s = cache_stats_new"
     "cs_bandwidth s = bandwidth_new" "cs_events s = [READ_REQUEST_SENT]"
     "heap_mf (cs_heap s) 0 = Some mf" "heap_mf (cs_heap s) 1 = heap_mf sample_heap 1"
     "heap_mf (cs_heap s) 2 = heap_mf sample_heap 2"
    using rd_miss_cache0 by blast
  have pt: "process_tag_probe sample_env False MISS 0x80 1 0 1 cache0 = Some (MISS, s)"
    using m by (simp add: process_tag_probe_def use_data_port_def was_writeback_sent_def)
  obtain st where a: "data_cache_access sample_env 0x80 0 1 cache0 = Some (MISS, s\<lparr>cs_stats := st\<rparr>)"
    "stats_ok st"
    using access_by_process [OF _ _ _ _ m(10), of cache0 "sample_mf GLOBAL_ACC_R False" "0x80" MISS 1
        sample_env 1 MISS] pt m(7) probe_cache0
    by (auto simp: cache0_def)
  have "cache_step sample_env cache0 (s\<lparr>cs_stats := st\<rparr>)"
    by (rule step_access [OF a(1)]) (simp add: cache0_def)
  with cache0_reachable have "cache_reachable sample_env two_way_config (s\<lparr>cs_stats := st\<rparr>)"
    by (rule cache_reachable.reach_step)
  then show ?thesis using m a(2) by (intro exI [of _ "s\<lparr>cs_stats := st\<rparr>"]) simp
qed


definition line_filled :: cache_block where
  "line_filled = line_reserved\<lparr>m_status := VALID, m_fill_time := 5\<rparr>"

definition mshr2 :: mshr_table where
  "mshr2 = mshr1\<lparr>m_current_response := [0x80]\<rparr>"

text \<open>The cache after the response, before the answered read is popped.\<close>

lemma after_fill:
  "\<exists>s. cache_reachable sample_env two_way_config s \<and>
     cs_config s = two_way_config \<and> m_lines (cs_tags s) = fresh_lines[1 := line_filled] \<and>
     cs_mshrs s = mshr2 \<and> cs_miss_queue s = [0] \<and> cs_extra s = (\<lambda>_. None) \<and>
     stats_ok (cs_stats s) \<and> heap_mf (cs_heap s) 0 \<noteq> None \<and>
     heap_mf (cs_heap s) 1 = heap_mf sample_heap 1 \<and> heap_mf (cs_heap s) 2 = heap_mf sample_heap 2"
proof -
  obtain s mf where s: "cache_reachable sample_env two_way_config s"
     "cs_config s = two_way_config" "m_lines (cs_tags s) = lines1" "cs_mshrs s = mshr1"
     "cs_miss_queue s = [0]" "cs_extra s = [0 \<mapsto> extra1]" "stats_ok (cs_stats s)"
     "heap_mf (cs_heap s) 0 = Some mf" "heap_mf (cs_heap s) 1 = heap_mf sample_heap 1"
     "heap_mf (cs_heap s) 2 = heap_mf sample_heap 2"
    using after_read by blast
  obtain h where h: "set_data_size 32 0 (cs_heap s) = Some h" "heap_mf h 0 \<noteq> None"
     "heap_mf h 1 = heap_mf sample_heap 1" "heap_mf h 2 = heap_mf sample_heap 2"
    using s(8-10) by (simp add: set_data_size_def update_mf_def)
  obtain tags where tags: "fill_index two_way_config (cs_tags s) 1 5 = Some tags"
     "m_lines tags = fresh_lines[1 := line_filled]"
    using s(3) by (simp add: fill_index_def lines1_def fresh_lines_def line_reserved_def
        block_fill_def block_allocate_def line_filled_def nth_opt_def)
  obtain s' where s': "cache_fill 0 5 s = Some s'" "cs_config s' = two_way_config"
     "m_lines (cs_tags s') = fresh_lines[1 := line_filled]"
     "cs_mshrs s' = mshr2" "cs_miss_queue s' = [0]" "cs_extra s' = (\<lambda>_. None)"
     "stats_ok (cs_stats s')" "heap_mf (cs_heap s') 0 \<noteq> None"
     "heap_mf (cs_heap s') 1 = heap_mf sample_heap 1" "heap_mf (cs_heap s') 2 = heap_mf sample_heap 2"
    using s h tags by (simp add: cache_fill_def extra1_def mshr_mark_ready_def mshr1_def mshr2_def
        use_fill_port_def)
  from cache_reachable.reach_step [OF s(1) step_fill [OF s'(1)]] s' show ?thesis by blast
qed

definition line_evicted :: cache_block where
  "line_evicted = line_filled\<lparr>m_status := INVALID\<rparr>"

lemma probe_filled:
  assumes "m_lines ta = fresh_lines[1 := line_filled]"
  shows "probe two_way_config ta 0x80 = Some (HIT, Some 1)"
  using assms by (simp add: probe_eval fresh_lines_def cache_block_new_def line_filled_def
      line_reserved_def block_allocate_def hit_status_def)

text \<open>The cache after the write that evicts the block again.\<close>

lemma after_evict:
  "\<exists>s. cache_reachable sample_env two_way_config s \<and>
     cs_config s = two_way_config \<and> m_lines (cs_tags s) = fresh_lines[1 := line_evicted] \<and>
     cs_mshrs s = mshr2 \<and> cs_miss_queue s = [0, 2] \<and> heap_mf (cs_heap s) 1 = heap_mf sample_heap 1"
proof -
  obtain s mf where s: "cache_reachable sample_env two_way_config s"
     "cs_config s = two_way_config" "m_lines (cs_tags s) = fresh_lines[1 := line_filled]"
     "cs_mshrs s = mshr2" "cs_miss_queue s = [0]" "cs_extra s = (\<lambda>_. None)"
     "stats_ok (cs_stats s)" "heap_mf (cs_heap s) 0 = Some mf"
     "heap_mf (cs_heap s) 1 = heap_mf sample_heap 1" "heap_mf (cs_heap s) 2 = heap_mf sample_heap 2"
    using after_fill by blast
  obtain h mf2 where h: "set_status (cs_miss_queue_status s) 7 2 (cs_heap s) = Some h"
     "heap_mf h 2 = Some mf2" "heap_mf h 1 = heap_mf sample_heap 1"
    using s(8-10) by (simp add: set_status_def update_mf_def)
  obtain tags where tags: "set_block_status 1 INVALID (cs_tags s) = Some tags"
     "m_lines tags = fresh_lines[1 := line_evicted]"
    using s(3) by (simp add: set_block_status_def fresh_lines_def line_evicted_def)
  obtain s1 where s1: "wr_hit 0x80 1 2 7 s = Some (HIT, s1)" "cs_config s1 = two_way_config"
     "m_lines (cs_tags s1) = fresh_lines[1 := line_evicted]"
     "cs_mshrs s1 = mshr2" "cs_miss_queue s1 = [0, 2]" "stats_ok (cs_stats s1)"
     "heap_mf (cs_heap s1) 2 = Some mf2" "heap_mf (cs_heap s1) 1 = heap_mf sample_heap 1"
    using s h tags by (simp add: wr_hit_def wr_hit_global_we_local_wb_def wr_hit_we_def
        miss_queue_full_def send_write_request_def)
  obtain bw where pt: "process_tag_probe sample_env True HIT 0x80 1 2 7 s
      = Some (HIT, s1\<lparr>cs_bandwidth := bw\<rparr>)"
    using s1 by (simp add: process_tag_probe_def use_data_port_def Let_def)
  obtain st where a: "data_cache_access sample_env 0x80 2 7 s
      = Some (HIT, s1\<lparr>cs_bandwidth := bw, cs_stats := st\<rparr>)"
    using access_by_process [of s 2 "sample_mf GLOBAL_ACC_W True" "0x80" HIT 1 sample_env 7 HIT
        "s1\<lparr>cs_bandwidth := bw\<rparr>" mf2] pt s s1 probe_filled [OF s(3)]
    by auto
  have "cache_step sample_env s (s1\<lparr>cs_bandwidth := bw, cs_stats := st\<rparr>)"
    by (rule step_access [OF a]) (simp add: s(6))
  with s(1) have "cache_reachable sample_env two_way_config (s1\<lparr>cs_bandwidth := bw, cs_stats := st\<rparr>)"
    by (rule cache_reachable.reach_step)
  then show ?thesis using s1 by (intro exI [of _ "s1\<lparr>cs_bandwidth := bw, cs_stats := st\<rparr>"]) simp
qed

theorem late_merge_strands_line_witness:
  "\<exists>s j s'. cache_reachable sample_env two_way_config s \<and>
     rd_miss_base sample_env 0x80 j 1 9 s = Some (MISS, s') \<and>
     m_status (m_lines (cs_tags s') ! j) = RESERVED \<and> cs_miss_queue s' = [0, 2]"
proof -
  obtain s where s: "cache_reachable sample_env two_way_config s"
     "cs_config s = two_way_config" "m_lines (cs_tags s) = fresh_lines[1 := line_evicted]"
     "cs_mshrs s = mshr2" "cs_miss_queue s = [0, 2]" "heap_mf (cs_heap s) 1 = heap_mf sample_heap 1"
    using after_evict by blast
  have p: "probe two_way_config (cs_tags s) 0x80 = Some (MISS, Some 1)"
    using s(3) by (simp add: probe_eval fresh_lines_def cache_block_new_def line_evicted_def)
  have "m_status (m_lines (cs_tags s) ! 1) \<noteq> MODIFIED"
    using s(3) by (simp add: fresh_lines_def line_evicted_def)
  moreover have "mshr_probe 0x80 (cs_mshrs s)" "\<not> mshr_full 0x80 (cs_mshrs s)"
    using s(4) by (simp_all add: mshr2_def mshr1_def mshr_probe_def mshr_full_def)
  moreover have "\<not> miss_queue_full 1 s" using s(2,5) by (simp add: miss_queue_full_def)
  moreover have "heap_mf (cs_heap s) 1 = Some (sample_mf GLOBAL_ACC_R False)"
    using s(6) by simp
  ultimately obtain s' where "rd_miss_base sample_env 0x80 1 1 9 s = Some (MISS, s')"
     "m_status (m_lines (cs_tags s') ! 1) = RESERVED" "cs_miss_queue s' = cs_miss_queue s"
    using late_merge_strands_line [OF s(1) data_config_two_way, of "0x80" 1 1 "sample_mf GLOBAL_ACC_R False" 9]
      p by auto
  with s(1,5) show ?thesis by auto
qed

theorem refused_access_no_effect_witness:
  "\<exists>s s' stats. data_cache_access sample_env 0x80 0 1 s = Some (RESERVATION_FAIL, s') \<and>
     s' = s\<lparr>cs_stats := stats\<rparr> \<and> length (cs_miss_queue s) = 8"
proof -
  let ?s = "cache0\<lparr>cs_miss_queue := replicate 8 2\<rparr>"
  have "rd_miss_base sample_env 0x80 1 0 1 ?s = Some (RESERVATION_FAIL, ?s)"
    by (simp add: rd_miss_base_def miss_queue_full_def cache0_def)
  then have pt: "process_tag_probe sample_env False MISS 0x80 1 0 1 ?s = Some (RESERVATION_FAIL, ?s)"
    by (simp add: process_tag_probe_def use_data_port_def cache0_def)
  obtain st where a: "data_cache_access sample_env 0x80 0 1 ?s
      = Some (RESERVATION_FAIL, ?s\<lparr>cs_stats := st\<rparr>)"
    using access_by_process [of ?s 0 "sample_mf GLOBAL_ACC_R False" "0x80" MISS 1 sample_env 1
        RESERVATION_FAIL ?s "sample_mf GLOBAL_ACC_R False"] pt probe_cache0
    by (auto simp: cache0_def)
  from refused_access_no_effect [OF a] obtain st2 where
    b: "?s\<lparr>cs_stats := st\<rparr> = ?s\<lparr>cs_stats := st2\<rparr>" by blast
  show ?thesis
    by (rule exI [of _ ?s], rule exI [of _ "?s\<lparr>cs_stats := st\<rparr>"], rule exI [of _ st2])
      (use a b in simp)
qed

end
