(* ===== verification/Cacp_Runs.thy ===== *)
theory Cacp_Runs
  imports Cacp Data_Cache_Runs
begin

text \<open>
  Concrete arrays for the theorems of \<open>Cacp\<close>: a fresh array whose memory was zero, a full set whose
  signatures differ from the incoming one, and an L1 cache at its first read.
\<close>

definition fresh_cacp :: tag_array_CACP where
  "fresh_cacp = tag_array_CACP_new (\<lambda>_. Some 0) two_way_config 0 0"

lemma fresh_cacp_wf: "cacp_wf fresh_cacp"
  unfolding fresh_cacp_def by (rule tag_array_CACP_new_wf) simp

lemma fresh_cacp_lines: "m_lines (ca_base fresh_cacp) = map (\<lambda>l. l\<lparr>sig := Some 0\<rparr>) fresh_lines"
  by (simp add: fresh_cacp_def tag_array_CACP_new_def Let_def new_two_way fresh_lines_def tag_array_init_def
      upt_rec numeral_nat)

lemma signature_80 [simp]: "signature_of 0x80 0 = 128" "signature_of 0x80 (- 1) = 127"
  by (simp_all add: signature_of_def)

lemmas cacp_eval = cacp_probe_def Let_def set_lines_two_way take_victim_def update_line_def
  cacp_eviction_def count_down_def nth_opt_def update_opt_def partition_ways_def PARTITION_PCT_def
  victim_pass_def victim_step_def

lemma find_victim_found:
  "victim_pass lines ship ws = Some (Some k, a) \<Longrightarrow> find_victim lines ws ship = Some (Some k, ship)"
  by (subst find_victim.simps) simp

lemma probe_fresh_cacp:
  assumes "pc = 0 \<or> pc = (- 1)"
  shows "\<exists>fl ta'. cacp_probe two_way_config 0x80 critical pc fresh_cacp = Some (MISS, Some 1, fl, ta')"
proof -
  have t: "CCBP fresh_cacp = replicate 256 1" "SHiP fresh_cacp = replicate 256 3"
    by (simp_all add: fresh_cacp_def tag_array_CACP_new_def Let_def)
  have f: "find_victim (m_lines (ca_base fresh_cacp)) [Suc 0] (replicate 256 3) = Some (Some 1, replicate 256 3)"
    by (rule find_victim_found [where a = False])
      (simp add: cacp_eval fresh_cacp_lines fresh_lines_def cache_block_new_def)
  show ?thesis
    using f assms by (auto simp: cacp_eval t fresh_cacp_lines fresh_lines_def cache_block_new_def)
qed

theorem cacp_probe_answers_witness:
  "\<exists>st idx fl ta'. cacp_probe two_way_config 0x80 True 0 fresh_cacp = Some (st, idx, fl, ta') \<and> cacp_wf ta'"
  by (rule cacp_probe_answers [OF fresh_cacp_wf])
    (simp_all add: probe_defined_def fresh_cacp_lines fresh_lines_def)

lemma plain_probe_fresh: "probe two_way_config (ca_base fresh_cacp) 0x80 = Some (MISS, Some 1)"
  by (simp add: probe_eval fresh_cacp_lines fresh_lines_def cache_block_new_def)

theorem cacp_victim_in_partition_witness:
  "\<exists>fl ta' j. cacp_probe two_way_config 0x80 True 0 fresh_cacp = Some (MISS, Some j, fl, ta') \<and>
     j \<in> set (predicted_ways two_way_config 0x80 0 fresh_cacp 0)"
proof -
  obtain fl ta' where r: "cacp_probe two_way_config 0x80 True 0 fresh_cacp = Some (MISS, Some 1, fl, ta')"
    using probe_fresh_cacp by blast
  from cacp_victim_in_partition [OF r set_index_two_way plain_probe_fresh] r show ?thesis by auto
qed

text \<open>A full set: way 0 was used by non-critical warps only and has signature 5.\<close>

definition full_cacp :: tag_array_CACP where
  "full_cacp = \<lparr>ca_base = two_way_array [(sample_line 0x180 VALID 3)\<lparr>sig := Some 5, nc_reuse := True\<rparr>,
       (sample_line 0x280 VALID 2)\<lparr>sig := Some 6\<rparr>],
     CCBP = (replicate 256 1)[5 := 2, 128 := 2], SHiP = replicate 256 3\<rparr>"

theorem eviction_trains_incoming_signature_witness:
  "\<exists>fl ta'. cacp_probe two_way_config 0x80 True 0 full_cacp = Some (MISS, Some 0, fl, ta') \<and>
     CCBP ta' ! 5 = 2 \<and> CCBP ta' ! 128 = 1"
proof -
  have f: "find_victim (m_lines (ca_base full_cacp)) [0] (replicate 256 3) = Some (Some 0, replicate 256 3)"
    by (rule find_victim_found [where a = False])
      (simp add: cacp_eval full_cacp_def sample_array_defs)
  then obtain fl ta' where r: "cacp_probe two_way_config 0x80 True 0 full_cacp = Some (MISS, Some 0, fl, ta')"
    and c: "CCBP ta' ! 128 = 1"
    by (simp add: cacp_eval full_cacp_def two_way_array_def tag_array_init_def sample_line_def cache_block_new_def)
  have "CCBP ta' ! 5 = CCBP full_cacp ! 5"
    using eviction_trains_incoming_signature [OF r, of 5] by (simp add: full_cacp_def)
  with r c show ?thesis by (simp add: full_cacp_def)
qed

theorem criticality_extremes_witness:
  "get_warp_critical 0 (map Fin [7, 3]) = Some True \<and> get_warp_critical 1 (map Fin [7, 3]) = Some False"
  using criticality_extremes [OF refl, of "[7, 3]" 0] criticality_extremes [OF refl, of "[7, 3]" 1] by simp

text \<open>The L1 cache at its first read, with prioritization.\<close>

definition l1_first :: l1_cache_cacp where
  "l1_first = l1_cache_cacp_new fresh_cacp True cache0"

lemma l1_first_simps [simp]:
  "l1_sys l1_first = cache0\<lparr>cs_tags := ca_base fresh_cacp\<rparr>" "l1_tag_array l1_first = fresh_cacp"
  "m_real_cacp l1_first"
  by (simp_all add: l1_first_def l1_cache_cacp_new_def set_l1_tag_array_def l1_tag_array_def)

lemma request_pc_sample [simp]: "request_pc (sample_mf ty wr) = - 1"
  by (simp add: request_pc_def sample_mf_def)

lemma plain_fresh_cacp: "plain_tags (ca_base fresh_cacp) = plain_tags (cs_tags cache0)"
  by (simp add: fresh_cacp_def tag_array_CACP_new_def Let_def new_two_way plain_tags_def cache0_def
      fresh_lines_def tag_array_init_def upt_rec numeral_nat)

text \<open>Any cache that looks like the fresh one runs the miss to its end.\<close>

lemma first_read_runs:
  assumes "plain t = plain cache0"
  shows "\<exists>s1 s2. process_tag_probe sample_env False MISS 0x80 1 0 1 t = Some (MISS, s1) \<and>
    count_access 0 MISS MISS s1 = Some s2"
proof -
  obtain s mf where m: "rd_miss_base sample_env 0x80 1 0 1 cache0 = Some (MISS, s)"
     "cs_config s = two_way_config" "cs_stats s = cache_stats_new" "cs_bandwidth s = bandwidth_new"
     "cs_events s = [READ_REQUEST_SENT]" "heap_mf (cs_heap s) 0 = Some mf"
    using rd_miss_cache0 by blast
  have "process_tag_probe sample_env False MISS 0x80 1 0 1 cache0 = Some (MISS, s)"
    using m by (simp add: process_tag_probe_def use_data_port_def was_writeback_sent_def)
  with process_tag_probe_plain [of sample_env False MISS "0x80" 1 0 1 t]
    process_tag_probe_plain [of sample_env False MISS "0x80" 1 0 1 cache0] assms
  obtain s1 where s1: "process_tag_probe sample_env False MISS 0x80 1 0 1 t = Some (MISS, s1)" "plain s1 = plain s"
    by (auto simp: on_result_def)
  have "stats_ok (cs_stats s)" by (simp add: m(3))
  then obtain st where "inc_stats (access_code (ma_type (mf_access mf)))
      (outcome_code (select_stats_status MISS MISS)) (cs_stats s) = Some st"
    using inc_stats_total by blast
  then obtain s2 where "count_access 0 MISS MISS s = Some s2"
    using m(6) by (simp add: count_access_def)
  then obtain s2' where "count_access 0 MISS MISS s1 = Some s2'"
    using count_access_plain [of 0 MISS MISS s] count_access_plain [of 0 MISS MISS s1] s1(2)
    by (cases "count_access 0 MISS MISS s1") auto
  with s1(1) show ?thesis by blast
qed

theorem cacp_choice_is_inert_witness:
  "\<exists>st c' s'. l1_cache_cacp_access sample_env 0x80 0 True 1 l1_first = Some (st, c') \<and>
     data_cache_access sample_env 0x80 0 1 (l1_sys l1_first) = Some (st, s') \<and> plain (l1_sys c') = plain s'"
proof -
  obtain fl ta where r: "cacp_probe two_way_config 0x80 True (- 1) fresh_cacp = Some (MISS, Some 1, fl, ta)"
    using probe_fresh_cacp by blast
  have "plain (cache0\<lparr>cs_tags := ca_base ta\<rparr>) = plain cache0"
    using cacp_probe_plain [OF r] plain_fresh_cacp by (simp add: plain_def)
  from first_read_runs [OF this] obtain s1 s2 where
    "process_tag_probe sample_env False MISS 0x80 1 0 1 (cache0\<lparr>cs_tags := ca_base ta\<rparr>) = Some (MISS, s1)"
    "count_access 0 MISS MISS s1 = Some s2" by blast
  moreover have "cs_config cache0 = two_way_config" "cs_heap cache0 = sample_heap" by (simp_all add: cache0_def)
  ultimately obtain c' where a: "l1_cache_cacp_access sample_env 0x80 0 True 1 l1_first = Some (MISS, c')"
    using r by (simp add: l1_cache_cacp_access_def set_l1_tag_array_def Let_def)
  have "probe (cs_config (l1_sys l1_first)) (cs_tags (l1_sys l1_first)) 0x80 \<noteq> None"
    using plain_probe_fresh by (simp add: cache0_def)
  with cacp_choice_is_inert [OF a] show ?thesis using a by (auto simp: cache0_def)
qed

end
