(* ===== verification/Coalesce_Correct.thy ===== *)
theory Coalesce_Correct
  imports Coalesce
begin

unbundle bit_operations_syntax

text \<open>
  Correctness of the accesses a warp instruction generates: what the table of transactions
  records, the reduction of a transaction to an aligned block, the accesses of plain and atomic
  instructions of global and local memory, and the cycles of a shared memory access.
\<close>

subsection \<open>Facts on maps, bit sets and segments\<close>

lemma map_of_omap_put [simp]: "map_of (omap_put k v m) = (map_of m)(k \<mapsto> v)"
  by (induction k v m rule: omap_put.induct) (auto simp: fun_upd_twist)

lemma keys_omap_put [simp]: "fst ` set (omap_put k v m) = insert k (fst ` set m)"
  by (induction k v m rule: omap_put.induct) auto

lemma sorted_omap_put:
  "sorted_wrt (<) (map fst m) \<Longrightarrow> sorted_wrt (<) (map fst (omap_put k v m))"
proof (induction k v m rule: omap_put.induct)
  case (2 k v k' v' m)
  have "set (map fst (omap_put k v m)) = insert k (set (map fst m))"
    by simp
  with 2 show ?case by (auto simp: not_less)
qed simp

lemma sorted_map_of:
  "sorted_wrt (<) (map fst m) \<Longrightarrow> (k, v) \<in> set m \<longleftrightarrow> map_of m k = Some v"
  for m :: "('k::linorder \<times> 'v) list"
  by (metis map_of_eq_Some_iff strict_sorted_iff)

lemma omap_get_put [simp]: "omap_get d k (omap_put k' v m) = (if k = k' then v else omap_get d k m)"
  by (simp add: omap_get_def)

lemma omap_get_Nil [simp]: "omap_get d k [] = d"
  by (simp add: omap_get_def)

lemma bitset_set_run:
  fixes b :: "'a::len word"
  assumes "idx + n \<le> LENGTH('a)"
  shows "\<exists>b'. foldM (\<lambda>i b. bitset_set (idx + i) b) [0..<n] b = Some b' \<and>
    (\<forall>k. bit b' k \<longleftrightarrow> bit b k \<or> idx \<le> k \<and> k < idx + n)"
  using assms
proof (induction n)
  case (Suc n)
  then obtain b' where "foldM (\<lambda>i b. bitset_set (idx + i) b) [0..<n] b = Some b'"
    and b': "\<And>k. bit b' k \<longleftrightarrow> bit b k \<or> idx \<le> k \<and> k < idx + n"
    by auto
  moreover have "bit (Bit_Operations.set_bit (idx + n) b') k \<longleftrightarrow> bit b k \<or> idx \<le> k \<and> k < idx + Suc n" for k
    using b' [of k] Suc.prems by (cases "k = idx + n") (simp_all add: bit_set_bit_iff, linarith)
  ultimately show ?case
    using Suc.prems by (simp add: foldM_append bitset_set_def)
qed auto

lemma foldM_concat: "foldM (\<lambda>x. foldM f (g x)) xs s = foldM f (concat (map g xs)) s"
proof (induction xs arbitrary: s)
  case (Cons x xs)
  then have "foldM (\<lambda>x. foldM f (g x)) xs = foldM f (concat (map g xs))" by (rule ext)
  then show ?case by (simp add: foldM_append)
qed simp

lemma all_less_4: "(\<forall>c<4. P c) \<longleftrightarrow> P 0 \<and> P 1 \<and> P 2 \<and> P (3::nat)"
proof -
  have "(\<forall>c<4. P c) \<longleftrightarrow> (\<forall>c \<in> set [0..<4]. P c)" by (simp add: Ball_def)
  also have "\<dots> \<longleftrightarrow> P 0 \<and> P 1 \<and> P 2 \<and> P 3" by (simp add: upt_rec numeral_2_eq_2 numeral_3_eq_3)
  finally show ?thesis .
qed

lemma ex_less_4: "(\<exists>c<4. P c) \<longleftrightarrow> P 0 \<or> P 1 \<or> P 2 \<or> P (3::nat)"
  using all_less_4 [of "\<lambda>c. \<not> P c"] by blast

lemma chunks_nonempty: "q \<noteq> 0 \<longleftrightarrow> bit q 0 \<or> bit q 1 \<or> bit q 2 \<or> bit q 3" for q :: "4 word"
proof -
  have "q \<noteq> 0 \<longleftrightarrow> (\<exists>c<4. bit q c)"
    by (auto simp: bit_eq_iff)
  then show ?thesis by (simp add: ex_less_4)
qed

text \<open>A mask with a power of two rounds down to a multiple of it.\<close>

lemma and_not_mask:
  fixes a :: u64
  assumes "seg = 2 ^ k" and "k < 64"
  shows "unat (a AND NOT (seg - 1)) = unat a - unat a mod 2 ^ k"
proof -
  let ?m = "seg - 1"
  have m: "?m = mask k"
    using assms by (simp add: mask_eq_exp_minus_1)
  have "a = (a AND ?m) OR (a AND NOT ?m)" and "(a AND ?m) AND (a AND NOT ?m) = 0"
    by (rule bit_word_eqI; auto simp: bit_simps)+
  then have "unat a = unat (a AND ?m) + unat (a AND NOT ?m)"
    by (metis unat_or_disjoint)
  then show ?thesis
    by (simp add: m take_bit_eq_mask [symmetric] unat_take_mod)
qed

lemma unat_add_small: "unat a + n < 18446744073709551616 \<Longrightarrow> unat (a + of_nat n) = unat a + n"
  for a :: u64
  by (simp add: unat_word_ariths unat_of_nat)

text \<open>
  The reduction: the result is an aligned block of 32, 64 or 128 bytes that holds every chunk
  that is used, and both halves of a block of more than 32 bytes are used.
\<close>

definition chunk_base :: "u64 \<Rightarrow> nat \<Rightarrow> nat" where
  "chunk_base addr c = unat addr - unat addr mod 128 + 32 * c"

definition reduced :: "u64 \<Rightarrow> 4 word \<Rightarrow> u64 \<Rightarrow> u32 \<Rightarrow> bool" where
  "reduced addr q addr' n \<longleftrightarrow> unat n \<in> {32, 64, 128} \<and> unat n dvd unat addr' \<and>
     (\<forall>c<4. bit q c \<longrightarrow> unat addr' \<le> chunk_base addr c \<and>
        chunk_base addr c + 32 \<le> unat addr' + unat n) \<and>
     (unat n \<noteq> 32 \<longrightarrow>
        (\<exists>c<4. bit q c \<and> chunk_base addr c < unat addr' + unat n div 2) \<and>
        (\<exists>c<4. bit q c \<and> unat addr' + unat n div 2 \<le> chunk_base addr c))"

lemma reduce_segment_32:
  assumes "32 dvd unat addr" and "q \<noteq> 0"
    and "\<forall>c<4. bit q c \<longrightarrow> unat addr mod 128 = 32 * c"
  shows "reduce_segment q addr 32 = Some (addr, 32) \<and> reduced addr q addr 32"
proof -
  have "unat (addr AND 31) = unat addr mod 2 ^ 5"
    using unat_take_mod [of 5 addr] by (simp add: take_bit_eq_mask mask_eq_exp_minus_1)
  then have "addr AND 31 = 0"
    using assms(1) by (simp add: unat_eq_0 [symmetric] dvd_eq_mod_eq_0)
  then show ?thesis
    using assms by (simp add: reduce_segment_def reduced_def all_less_4 chunk_base_def)
qed


lemma reduce_segment_64:
  assumes "64 dvd unat addr" and "unat addr < 4294967296" and "q \<noteq> 0"
    and "\<forall>c<4. bit q c \<longrightarrow> unat addr mod 128 \<le> 32 * c \<and> 32 * c < unat addr mod 128 + 64"
  shows "\<exists>addr' n. reduce_segment q addr 64 = Some (addr', n) \<and> reduced addr q addr' n"
proof -
  have "unat (addr AND 63) = unat addr mod 2 ^ 6"
    using unat_take_mod [of 6 addr] by (simp add: take_bit_eq_mask mask_eq_exp_minus_1)
  then have low: "addr AND 63 = 0"
    using assms(1) by (simp add: unat_eq_0 [symmetric] dvd_eq_mod_eq_0)
  have add: "unat (addr + 32) = unat addr + 32"
    using unat_add_small [of addr 32] assms(2) by simp
  have "32 dvd unat addr"
    by (rule dvd_trans [OF _ assms(1)]) simp
  obtain m where "unat addr = 64 * m"
    using assms(1) by (rule dvdE)
  then have "unat addr mod 128 = 64 * (m mod 2)"
    using mult_mod_right [of 64 m 2] by simp
  then have "unat addr mod 128 = 0 \<or> unat addr mod 128 = 64"
    by (cases "even m") (simp_all add: odd_iff_mod_2_eq_one)
  then show ?thesis
  proof
    assume even: "unat addr mod 128 = 0"
    then have "addr mod 128 = 0"
      by (simp add: word_unat_eq_iff unat_mod)
    then show ?thesis
      using assms even low add \<open>32 dvd unat addr\<close>
      by (cases "bit q 0"; cases "bit q 1")
        (simp_all add: reduce_segment_def reduced_def all_less_4 ex_less_4 chunk_base_def chunks_nonempty)
  next
    assume odd: "unat addr mod 128 = 64"
    then have "addr mod 128 = 64"
      by (simp add: word_unat_eq_iff unat_mod)
    moreover have "32 dvd unat addr + 32"
      using \<open>32 dvd unat addr\<close> by simp
    moreover have "unat addr \<ge> 64"
      using odd mod_less_eq_dividend [of "unat addr" 128] by simp
    ultimately show ?thesis
      using assms odd low add
      by (cases "bit q 2"; cases "bit q 3")
        (simp_all add: reduce_segment_def reduced_def all_less_4 ex_less_4 chunk_base_def chunks_nonempty)
  qed
qed

lemma reduce_segment_128:
  assumes "128 dvd unat addr" and "unat addr < 4294967296" and "q \<noteq> 0"
  shows "\<exists>addr' n. reduce_segment q addr 128 = Some (addr', n) \<and> reduced addr q addr' n"
proof -
  have "unat (addr AND 127) = unat addr mod 2 ^ 7"
    using unat_take_mod [of 7 addr] by (simp add: take_bit_eq_mask mask_eq_exp_minus_1)
  then have low: "addr AND 127 = 0"
    using assms(1) by (simp add: unat_eq_0 [symmetric] dvd_eq_mod_eq_0)
  have add: "unat (addr + 32) = unat addr + 32" "unat (addr + 64) = unat addr + 64"
    "unat (addr + 64 + 32) = unat addr + 96"
    using unat_add_small [of addr 32] unat_add_small [of addr 64] unat_add_small [of addr 96] assms(2)
    by (simp_all add: add.assoc)
  have "32 dvd unat addr" "64 dvd unat addr" "32 dvd unat addr + 32" "64 dvd unat addr + 64"
    "32 dvd unat addr + 96"
    using dvd_trans [OF _ assms(1), of 32] dvd_trans [OF _ assms(1), of 64] by simp_all
  then show ?thesis
    using assms low add
    by (cases "bit q 0"; cases "bit q 1"; cases "bit q 2"; cases "bit q 3")
      (simp_all add: reduce_segment_def reduced_def all_less_4 ex_less_4 chunk_base_def chunks_nonempty)
qed

subsection \<open>What a table of transactions records\<close>

abbreviation byte_idx :: "u64 \<Rightarrow> nat" where "byte_idx a \<equiv> unat (a AND 127)"

lemma byte_idx_eq: "byte_idx a = unat a mod 128"
  using unat_take_mod [of 7 a] by (simp add: take_bit_eq_mask mask_eq_exp_minus_1)

definition block_of :: "u32 \<Rightarrow> u64 \<Rightarrow> u64" where
  "block_of seg a = ucast (line_size_based_tag_func a (ucast seg))"

definition describes :: "nat \<Rightarrow> (nat \<times> u64) set \<Rightarrow> transaction_info \<Rightarrow> bool" where
  "describes n S info \<longleftrightarrow>
     (\<forall>t. bit (tr_active info) t \<longleftrightarrow> t \<in> fst ` S) \<and>
     (\<forall>c. bit (tr_chunks info) c \<longleftrightarrow> c \<in> (\<lambda>r. byte_idx (snd r) div 32) ` S) \<and>
     (\<forall>k. bit (tr_bytes info) k \<longleftrightarrow> (\<exists>r \<in> S. byte_idx (snd r) \<le> k \<and> k < byte_idx (snd r) + n))"

lemma describes_new: "describes n {} transaction_info_new"
  by (simp add: describes_def transaction_info_new_def)

lemma describes_insert:
  assumes "describes n S info" and "thread < 32" and "byte_idx addr + n \<le> 128"
  shows "\<exists>info'. mark_thread thread addr n info = Some info' \<and> describes n (insert (thread, addr) S) info'"
proof -
  obtain b where b: "foldM (\<lambda>i b. bitset_set (byte_idx addr + i) b) [0..<n] (tr_bytes info) = Some b"
    and bits: "\<And>k. bit b k \<longleftrightarrow> bit (tr_bytes info) k \<or> byte_idx addr \<le> k \<and> k < byte_idx addr + n"
    using bitset_set_run [where b = "tr_bytes info" and idx = "byte_idx addr" and n = n] assms(3) by auto
  have "byte_idx addr div 32 < 4"
    using byte_idx_eq [of addr] by (simp add: less_mult_imp_div_less)
  with assms b bits show ?thesis
    by (auto simp: mark_thread_def Let_def bitset_set_def describes_def bit_set_bit_iff)
qed

definition recorded :: "u32 \<Rightarrow> nat \<Rightarrow> (nat \<times> u64) set \<Rightarrow> transactions \<Rightarrow> bool" where
  "recorded seg n R txs \<longleftrightarrow> sorted_wrt (<) (map fst txs) \<and> fst ` set txs = block_of seg ` snd ` R \<and>
     (\<forall>k. describes n {r \<in> R. block_of seg (snd r) = k} (omap_get transaction_info_new k txs))"

lemma recorded_Nil: "recorded seg n {} []"
  by (simp add: recorded_def describes_new)

text \<open>An access fits its segment: it does not cross the end of the segment or of 128 bytes.\<close>

definition fits :: "u32 \<Rightarrow> nat \<Rightarrow> u64 \<Rightarrow> bool" where
  "fits seg n a \<longleftrightarrow> byte_idx a + n \<le> 128 \<and>
     line_size_based_tag_func a (ucast seg) = line_size_based_tag_func (a + of_nat n - 1) (ucast seg)"

lemma recorded_insert:
  assumes R: "recorded seg n R txs" and "thread < 32" and "fits seg n addr"
  shows "\<exists>txs'. coalesce_access seg n thread addr txs = Some txs' \<and>
    recorded seg n (insert (thread, addr) R) txs'"
proof -
  let ?k = "block_of seg addr"
  let ?S = "\<lambda>R k. {r \<in> R. block_of seg (snd r) = k}"
  have D: "describes n (?S R k) (omap_get transaction_info_new k txs)" for k
    using R by (simp add: recorded_def)
  obtain info where info: "mark_thread thread addr n (omap_get transaction_info_new ?k txs) = Some info"
    and new: "describes n (insert (thread, addr) (?S R ?k)) info"
    using describes_insert [OF D [of ?k], of thread addr] assms(2,3) by (auto simp: fits_def)
  have "?S (insert (thread, addr) R) ?k = insert (thread, addr) (?S R ?k)"
    and "k \<noteq> ?k \<Longrightarrow> ?S (insert (thread, addr) R) k = ?S R k" for k
    by auto
  with new D have "describes n (?S (insert (thread, addr) R) k)
      (omap_get transaction_info_new k (omap_put ?k info txs))" for k
    by simp
  moreover have "coalesce_access seg n thread addr txs = Some (omap_put ?k info txs)"
    using info assms(3) by (simp add: coalesce_access_def Let_def block_of_def fits_def)
  ultimately show ?thesis
    using R by (auto simp: recorded_def sorted_omap_put)
qed

lemma recorded_foldM:
  assumes "recorded seg n R txs" and "\<forall>(t, a) \<in> set rs. t < 32 \<and> fits seg n a"
  shows "\<exists>txs'. foldM (\<lambda>(t, a). coalesce_access seg n t a) rs txs = Some txs' \<and>
    recorded seg n (R \<union> set rs) txs'"
  using assms
proof (induction rs arbitrary: R txs)
  case (Cons r rs)
  obtain t a where r: "r = (t, a)" by (cases r)
  obtain txs' where "coalesce_access seg n t a txs = Some txs'" and "recorded seg n (insert (t, a) R) txs'"
    using recorded_insert [OF Cons.prems(1), of t a] Cons.prems(2) by (auto simp: r)
  with Cons.IH [of "insert (t, a) R" txs'] Cons.prems(2) show ?case
    by (simp add: r)
qed simp

subsection \<open>Segments and natural alignment\<close>

lemma add_below_div:
  fixes x d n :: nat
  assumes "n dvd d" and "n dvd x" and "m < n"
  shows "(x + m) div d = x div d"
proof -
  obtain e y where "d = n * e" and "x = n * y"
    using assms(1,2) by (auto elim!: dvdE)
  with assms(3) show ?thesis
    by (simp add: div_mult2_eq)
qed

definition segment_bits :: "nat \<Rightarrow> nat" where
  "segment_bits data_size = (if data_size = 1 then 5 else if data_size = 2 then 6 else 7)"

definition coalescable :: "nat \<Rightarrow> bool" where
  "coalescable data_size \<longleftrightarrow> data_size \<in> {1, 2, 4, 8, 16}"

lemma segment_size_bits:
  assumes "coalescable ds"
  shows "segment_size_of ds = 2 ^ segment_bits ds" and "ucast (segment_size_of ds) = (2 ^ segment_bits ds :: u64)"
  using assms by (auto simp: coalescable_def segment_size_of_def segment_bits_def)

lemma segment_size_minus_1:
  "coalescable ds \<Longrightarrow> (ucast (segment_size_of ds) - 1 :: u64) = 2 ^ segment_bits ds - 1"
  by (simp only: segment_size_bits(2))

lemma segment_bits_cases: "segment_bits ds = 5 \<or> segment_bits ds = 6 \<or> segment_bits ds = 7"
  by (simp add: segment_bits_def)

lemma aligned_fits:
  assumes ds: "coalescable ds" and n: "n dvd ds" "0 < n" and a: "unat a mod n = 0"
  shows "fits (segment_size_of ds) n a"
proof -
  define k where "k = segment_bits ds"
  have "ds dvd 16"
    using ds by (auto simp: coalescable_def)
  with n(1) have n16: "n dvd 16" by (rule dvd_trans)
  have na: "n dvd unat a" using a by (simp add: dvd_eq_mod_eq_0)
  have k: "k < 64" and "(16::nat) dvd 2 ^ k"
    using segment_bits_cases [of ds] by (auto simp: k_def)
  then have nk: "n dvd 2 ^ k"
    using n16 by (metis dvd_trans)
  have "n dvd 128" and "n dvd 18446744073709551616"
    by (rule dvd_trans [OF n16]; simp)+
  have m: "n - 1 < n" using n(2) by simp
  have "(unat a + (n - 1)) div 18446744073709551616 = 0"
    using add_below_div [OF \<open>n dvd 18446744073709551616\<close> na m] unat_u64_less [of a] by simp
  then have "unat a + (n - 1) < 18446744073709551616"
    by (simp add: div_eq_0_iff)
  then have last: "unat (a + of_nat n - 1) = unat a + (n - 1)"
    using unat_add_small [of a "n - 1"] n(2) by (simp add: of_nat_diff add_diff_eq)
  have "(unat a + (n - 1)) div 2 ^ k = unat a div 2 ^ k"
    by (rule add_below_div [OF nk na m])
  then have "unat (a AND NOT (2 ^ k - 1)) = unat ((a + of_nat n - 1) AND NOT (2 ^ k - 1))"
    using and_not_mask [of "2 ^ k" k] k by (simp only: last minus_mod_eq_mult_div)
  then have same: "a AND NOT (2 ^ k - 1) = (a + of_nat n - 1) AND NOT (2 ^ k - 1)"
    by (simp only: word_unat_eq_iff)
  have "n dvd byte_idx a"
    using na \<open>n dvd 128\<close> by (simp add: byte_idx_eq dvd_mod)
  moreover have "byte_idx a < 128" by (simp add: byte_idx_eq)
  ultimately have "byte_idx a + n \<le> 128"
    using \<open>n dvd 128\<close> dvd_imp_le [of n "128 - byte_idx a"] dvd_diff_nat [of n 128 "byte_idx a"] by simp
  with same show ?thesis
    by (simp only: fits_def line_size_based_tag_func_def segment_size_minus_1 [OF ds] k_def simp_thms)
qed

text \<open>The position of an access within its segment and within 128 bytes.\<close>

abbreviation low32 :: "u64 \<Rightarrow> nat" where "low32 a \<equiv> unat a mod 4294967296"

lemma segment_position:
  fixes a :: u64
  assumes "coalescable ds"
  defines "k \<equiv> segment_bits ds" and "b \<equiv> unat (block_of (segment_size_of ds) a)"
  shows "low32 a = b + unat a mod 2 ^ k" and "2 ^ k dvd b" and "b < 4294967296"
    and "byte_idx a = b mod 128 + unat a mod 2 ^ k"
proof -
  have k: "k = 5 \<or> k = 6 \<or> k = 7"
    using segment_bits_cases by (simp add: k_def)
  have b: "b = 2 ^ k * (unat a div 2 ^ k) mod 4294967296"
    using k and_not_mask [of "2 ^ k" k a]
    by (auto simp: b_def block_of_def line_size_based_tag_func_def segment_size_bits [OF assms(1)]
        unat_ucast_u32 minus_mod_eq_mult_div simp flip: k_def)
  have p: "4294967296 = 2 ^ k * (2 ^ (32 - k) :: nat)" "128 = 2 ^ k * (2 ^ (7 - k) :: nat)"
    using k by auto
  then have b': "b = 2 ^ k * (unat a div 2 ^ k mod 2 ^ (32 - k))"
    using b by (metis mult_mod_right)
  then show "2 ^ k dvd b" by simp
  show low: "low32 a = b + unat a mod 2 ^ k"
    unfolding b' p(1) by (rule mod_mult2_eq)
  then show "b < 4294967296" by (metis b mod_less_divisor zero_less_numeral)
  have "byte_idx a = (b + unat a mod 2 ^ k) mod 128"
    using low by (simp add: byte_idx_eq flip: low) (simp add: mod_mod_cancel)
  moreover have "(b + unat a mod 2 ^ k) mod 128 = b mod 128 + unat a mod 2 ^ k"
    using \<open>2 ^ k dvd b\<close> unfolding p(2) by (auto elim!: dvdE simp: mod_mult2_eq)
  ultimately show "byte_idx a = b mod 128 + unat a mod 2 ^ k" by simp
qed

text \<open>The 32 bytes of the chunk an access is counted in hold all of it.\<close>

lemma chunk_of_access:
  assumes ds: "coalescable ds" and n: "n dvd ds" "0 < n" and a: "unat a mod n = 0"
  defines "b \<equiv> block_of (segment_size_of ds) a" and "c \<equiv> byte_idx a div 32"
  shows "chunk_base b c \<le> low32 a" and "low32 a + n \<le> chunk_base b c + 32" and "c < 4"
    and "unat b mod 128 \<le> 32 * c" and "32 * c < unat b mod 128 + 2 ^ segment_bits ds"
proof -
  note pos = segment_position [OF ds, of a, folded b_def]
  have low: "low32 a = unat b - unat b mod 128 + byte_idx a"
    using pos(1,4) mod_less_eq_dividend [of "unat b" 128] by simp
  have c: "32 * c \<le> byte_idx a" "byte_idx a < 32 * c + 32"
    by (simp_all add: c_def)
  show "chunk_base b c \<le> low32 a"
    using c(1) by (simp add: low chunk_base_def)
  have "ds dvd 16" using ds by (auto simp: coalescable_def)
  with n(1) have n16: "n dvd 16" by (rule dvd_trans)
  have n32: "n dvd 32" and n128: "n dvd 128" by (rule dvd_trans [OF n16]; simp)+
  have "n dvd unat a" using a by (simp add: dvd_eq_mod_eq_0)
  with n128 have "n dvd byte_idx a"
    unfolding byte_idx_eq by (simp add: dvd_mod)
  then have "n dvd 32 * c + 32 - byte_idx a"
    using n32 by (simp add: dvd_diff_nat)
  then have "n \<le> 32 * c + 32 - byte_idx a"
    using c(2) by (simp add: dvd_imp_le)
  then show "low32 a + n \<le> chunk_base b c + 32"
    using c(2) by (simp add: low chunk_base_def)
  show "c < 4"
    by (simp add: c_def byte_idx_eq less_mult_imp_div_less)
  have k: "(32::nat) dvd 2 ^ segment_bits ds" "(2::nat) ^ segment_bits ds dvd 128"
    using segment_bits_cases [of ds] by auto
  have "2 ^ segment_bits ds dvd unat b mod 128"
    using pos(2) k(2) by (simp add: dvd_mod)
  then have "32 dvd unat b mod 128"
    using k(1) dvd_trans by blast
  then obtain e where e: "unat b mod 128 = 32 * e" by (rule dvdE)
  then have "c = e + (unat a mod 2 ^ segment_bits ds) div 32"
    using pos(4) by (simp add: c_def)
  moreover have "32 * ((unat a mod 2 ^ segment_bits ds) div 32) < 2 ^ segment_bits ds"
    by (rule le_less_trans [OF _ mod_less_divisor [of _ "unat a"]]) simp_all
  ultimately show "unat b mod 128 \<le> 32 * c" and "32 * c < unat b mod 128 + 2 ^ segment_bits ds"
    by (simp_all add: e)
qed

subsection \<open>The accesses a transaction is sent as\<close>

definition serves :: "nat \<Rightarrow> nat \<times> u64 \<Rightarrow> mem_access_t \<Rightarrow> bool" where
  "serves n r m \<longleftrightarrow> bit (ma_warp_mask m) (fst r) \<and>
     unat (ma_addr m) \<le> low32 (snd r) \<and> low32 (snd r) + n \<le> unat (ma_addr m) + unat (ma_req_size m) \<and>
     (\<forall>i<n. bit (ma_byte_mask m) (byte_idx (snd r) + i))"

definition half_point :: "mem_access_t \<Rightarrow> nat" where
  "half_point m = unat (ma_addr m) + unat (ma_req_size m) div 2"

text \<open>
  An access is justified by a set of requests: it is an aligned block of 32, 64 or 128 bytes,
  its lanes and bytes are those of requests it serves, and it is no larger than they need.
\<close>

definition justified :: "nat \<Rightarrow> (nat \<times> u64) set \<Rightarrow> mem_access_t \<Rightarrow> bool" where
  "justified n R m \<longleftrightarrow> unat (ma_req_size m) \<in> {32, 64, 128} \<and> unat (ma_req_size m) dvd unat (ma_addr m) \<and>
     (\<forall>t. bit (ma_warp_mask m) t \<longrightarrow> (\<exists>r \<in> R. fst r = t \<and> serves n r m)) \<and>
     (\<forall>k. bit (ma_byte_mask m) k \<longrightarrow>
        (\<exists>r \<in> R. serves n r m \<and> byte_idx (snd r) \<le> k \<and> k < byte_idx (snd r) + n)) \<and>
     (unat (ma_req_size m) \<noteq> 32 \<longrightarrow>
        (\<exists>r \<in> R. serves n r m \<and> low32 (snd r) < half_point m) \<and>
        (\<exists>r \<in> R. serves n r m \<and> half_point m \<le> low32 (snd r)))"

lemma justified_mono: "justified n S m \<Longrightarrow> S \<subseteq> R \<Longrightarrow> justified n R m"
  unfolding justified_def by (elim conjE, intro conjI) (assumption | meson subsetD)+

lemma reduce_segment_ok:
  assumes ds: "coalescable ds" and n: "n dvd ds" "0 < n"
    and S: "S \<noteq> {}" "\<forall>r \<in> S. unat (snd r) mod n = 0 \<and> block_of (segment_size_of ds) (snd r) = b"
    and q: "\<forall>c. bit q c \<longleftrightarrow> c \<in> (\<lambda>r. byte_idx (snd r) div 32) ` S"
  shows "\<exists>b' k. reduce_segment q b (segment_size_of ds) = Some (b', k) \<and> reduced b q b' k"
proof -
  obtain r0 where r0: "r0 \<in> S" using S(1) by blast
  then have "bit q (byte_idx (snd r0) div 32)" using q by blast
  then have "q \<noteq> 0" by auto
  note pos = segment_position [OF ds, of "snd r0"]
  have b: "2 ^ segment_bits ds dvd unat b" "unat b < 4294967296"
    using pos(2,3) S(2) r0 by auto
  have chunk: "\<forall>c<4. bit q c \<longrightarrow> unat b mod 128 \<le> 32 * c \<and> 32 * c < unat b mod 128 + 2 ^ segment_bits ds"
    using q S(2) chunk_of_access(4,5) [OF ds n] by fastforce
  consider "segment_bits ds = 5" | "segment_bits ds = 6" | "segment_bits ds = 7"
    using segment_bits_cases by blast
  then show ?thesis
  proof cases
    case 1
    then have "32 dvd unat b" using b by simp
    moreover then have "32 dvd unat b mod 128" by (simp add: dvd_mod)
    then have "\<forall>c<4. bit q c \<longrightarrow> unat b mod 128 = 32 * c"
      using chunk 1 by (auto elim!: dvdE)
    ultimately show ?thesis
      using reduce_segment_32 \<open>q \<noteq> 0\<close> 1 by (auto simp: segment_size_bits(1) [OF ds])
  next
    case 2
    then show ?thesis
      using reduce_segment_64 [of b q] b chunk \<open>q \<noteq> 0\<close> by (simp add: segment_size_bits(1) [OF ds])
  next
    case 3
    then show ?thesis
      using reduce_segment_128 [of b q] b \<open>q \<noteq> 0\<close> by (simp add: segment_size_bits(1) [OF ds])
  qed
qed

lemma transaction_sent:
  assumes ds: "coalescable ds" and n: "n dvd ds" "0 < n"
    and S: "S \<noteq> {}" "\<forall>r \<in> S. unat (snd r) mod n = 0 \<and> block_of (segment_size_of ds) (snd r) = b"
    and info: "describes n S info"
  shows "\<exists>m. (\<forall>q. memory_coalescing_arch_13_reduce_and_send wr type info b (segment_size_of ds) q = Some (q @ [m])) \<and>
    ma_write m = wr \<and> ma_type m = type \<and> (\<forall>r \<in> S. serves n r m) \<and> justified n S m"
proof -
  let ?c = "\<lambda>r. byte_idx (snd r) div 32"
  have q: "\<forall>c. bit (tr_chunks info) c \<longleftrightarrow> c \<in> ?c ` S"
    using info by (simp add: describes_def)
  obtain b' k where send: "reduce_segment (tr_chunks info) b (segment_size_of ds) = Some (b', k)"
    and red: "reduced b (tr_chunks info) b' k"
    using reduce_segment_ok [OF ds n S q] by blast
  define m where "m = mem_access_full type b' k wr (tr_active info) (tr_bytes info)"
  have m: "ma_addr m = b'" "ma_req_size m = k" "ma_warp_mask m = tr_active info"
    "ma_byte_mask m = tr_bytes info" "ma_write m = wr" "ma_type m = type"
    by (simp_all add: m_def mem_access_full_def)
  have bits: "bit (tr_active info) t \<longleftrightarrow> t \<in> fst ` S"
    "bit (tr_bytes info) i \<longleftrightarrow> (\<exists>r \<in> S. byte_idx (snd r) \<le> i \<and> i < byte_idx (snd r) + n)" for t i
    using info by (simp_all add: describes_def)
  have chunk: "chunk_base b (?c r) \<le> low32 (snd r)" "low32 (snd r) + n \<le> chunk_base b (?c r) + 32"
    "?c r < 4" if "r \<in> S" for r
    using chunk_of_access(1-3) [OF ds n, of "snd r"] S(2) that by auto
  have within: "unat b' \<le> chunk_base b (?c r) \<and> chunk_base b (?c r) + 32 \<le> unat b' + unat k" if "r \<in> S" for r
    using red q chunk(3) [OF that] that by (simp add: reduced_def)
  have serves: "serves n r m" if "r \<in> S" for r
  proof -
    have "bit (tr_active info) (fst r)" using that bits(1) by blast
    moreover have "\<forall>i<n. bit (tr_bytes info) (byte_idx (snd r) + i)"
      using that bits(2) by force
    ultimately show ?thesis
      using within [OF that] chunk(1,2) [OF that] by (simp add: serves_def m)
  qed
  have size_dvd: "unat k \<in> {32, 64, 128}" "unat k dvd unat b'"
    using red by (simp_all add: reduced_def)
  have halves: "unat k \<noteq> 32 \<longrightarrow> (\<exists>r \<in> S. low32 (snd r) < half_point m) \<and> (\<exists>r \<in> S. half_point m \<le> low32 (snd r))"
  proof
    assume "unat k \<noteq> 32"
    then have k: "unat k = 64 \<or> unat k = 128" using size_dvd(1) by simp
    from red \<open>unat k \<noteq> 32\<close> obtain c1 c2 where c: "bit (tr_chunks info) c1" "chunk_base b c1 < half_point m"
        "bit (tr_chunks info) c2" "half_point m \<le> chunk_base b c2"
      by (auto simp: reduced_def half_point_def m)
    then obtain r1 r2 where r: "r1 \<in> S" "c1 = ?c r1" "r2 \<in> S" "c2 = ?c r2"
      using q by blast
    have d32: "32 dvd unat b'" using k size_dvd(2) dvd_trans [of 32 "unat k" "unat b'"] by auto
    have "32 dvd unat b - unat b mod 128"
      by (simp add: minus_mod_eq_mult_div)
    then have "32 dvd chunk_base b c1"
      unfolding chunk_base_def by (intro dvd_add) simp_all
    moreover have "32 dvd half_point m"
      using k d32 by (auto simp: half_point_def m)
    ultimately have "chunk_base b c1 + 32 \<le> half_point m"
      using c(2) by (auto elim!: dvdE)
    then show "(\<exists>r \<in> S. low32 (snd r) < half_point m) \<and> (\<exists>r \<in> S. half_point m \<le> low32 (snd r))"
    proof (intro conjI bexI)
      show "low32 (snd r1) < half_point m"
        using \<open>chunk_base b c1 + 32 \<le> half_point m\<close> chunk(2) [OF r(1)] r(2) n(2) by simp
      show "half_point m \<le> low32 (snd r2)"
        using chunk(1) [OF r(3)] r(4) c(4) by simp
    qed (use r in simp_all)
  qed
  have "justified n S m"
    unfolding justified_def m
  proof (intro conjI)
    show "\<forall>t. bit (tr_active info) t \<longrightarrow> (\<exists>r \<in> S. fst r = t \<and> serves n r m)"
      using serves bits(1) by (metis imageE)
    show "\<forall>i. bit (tr_bytes info) i \<longrightarrow>
        (\<exists>r \<in> S. serves n r m \<and> byte_idx (snd r) \<le> i \<and> i < byte_idx (snd r) + n)"
      using serves bits(2) by blast
  qed (use size_dvd halves serves in blast)+
  moreover have "\<forall>q. memory_coalescing_arch_13_reduce_and_send wr type info b (segment_size_of ds) q = Some (q @ [m])"
    using send by (simp add: memory_coalescing_arch_13_reduce_and_send_def m_def)
  ultimately show ?thesis using serves m by blast
qed

text \<open>A loop that appends to a queue, and what each round appends.\<close>

lemma foldM_appends:
  assumes "\<And>x. x \<in> set xs \<Longrightarrow> \<exists>ms. (\<forall>q. f x q = Some (q @ ms)) \<and> P x ms"
  shows "\<exists>mss. (\<forall>q. foldM f xs q = Some (q @ concat mss)) \<and> list_all2 P xs mss"
  using assms
proof (induction xs)
  case (Cons x xs)
  obtain ms where ms: "\<forall>q. f x q = Some (q @ ms)" "P x ms"
    using Cons.prems [of x] by auto
  obtain mss where mss: "\<forall>q. foldM f xs q = Some (q @ concat mss)" "list_all2 P xs mss"
    using Cons.IH Cons.prems by auto
  have "(\<forall>q. foldM f (x # xs) q = Some (q @ concat (ms # mss))) \<and> list_all2 P (x # xs) (ms # mss)"
    using ms mss by simp
  then show ?case by blast
qed (auto intro: exI [of _ "[]"])

lemma list_all2_concat:
  assumes "list_all2 P xs mss"
  shows "\<And>x. x \<in> set xs \<Longrightarrow> \<exists>ms. P x ms \<and> set ms \<subseteq> set (concat mss)"
    and "\<And>m. m \<in> set (concat mss) \<Longrightarrow> \<exists>x \<in> set xs. \<exists>ms. P x ms \<and> m \<in> set ms"
proof -
  show "\<exists>ms. P x ms \<and> set ms \<subseteq> set (concat mss)" if "x \<in> set xs" for x
    using assms that
  proof (induction rule: list_all2_induct)
    case (Cons y ys ms mss)
    then consider "x = y" | "x \<in> set ys" by auto
    then show ?case
    proof cases
      case 1
      with Cons.hyps(1) show ?thesis by auto
    next
      case 2
      with Cons.IH obtain ms' where "P x ms'" "set ms' \<subseteq> set (concat mss)" by blast
      then have "P x ms' \<and> set ms' \<subseteq> set (concat (ms # mss))" by auto
      then show ?thesis by blast
    qed
  qed simp
  show "\<exists>x \<in> set xs. \<exists>ms. P x ms \<and> m \<in> set ms" if "m \<in> set (concat mss)" for m
    using assms that
  proof (induction rule: list_all2_induct)
    case (Cons y ys ms mss)
    then show ?case by (cases "m \<in> set ms") auto
  qed simp
qed

text \<open>The accesses sent for a set of requests.\<close>

definition sent_for :: "bool \<Rightarrow> mem_access_type \<Rightarrow> nat \<Rightarrow> (nat \<times> u64) set \<Rightarrow> mem_access_t list \<Rightarrow> bool" where
  "sent_for wr type n R ms \<longleftrightarrow>
     (\<forall>m \<in> set ms. ma_write m = wr \<and> ma_type m = type \<and> justified n R m) \<and>
     (\<forall>r \<in> R. \<exists>m \<in> set ms. serves n r m)"

lemma sent_for_concat:
  assumes "list_all2 (\<lambda>x. sent_for wr type n (R x)) xs mss"
  shows "sent_for wr type n (\<Union>x \<in> set xs. R x) (concat mss)"
  unfolding sent_for_def
proof (intro conjI ballI)
  fix r assume "r \<in> (\<Union>x \<in> set xs. R x)"
  then obtain x where "x \<in> set xs" "r \<in> R x" by blast
  with list_all2_concat(1) [OF assms] show "\<exists>m \<in> set (concat mss). serves n r m"
    unfolding sent_for_def by (meson subsetD)
next
  fix m assume "m \<in> set (concat mss)"
  with list_all2_concat(2) [OF assms] obtain x ms where x: "x \<in> set xs" "sent_for wr type n (R x) ms" "m \<in> set ms"
    by blast
  then show "ma_write m = wr" "ma_type m = type" "justified n (\<Union>x \<in> set xs. R x) m"
    by (auto simp: sent_for_def intro: justified_mono)
qed

lemma transactions_sent:
  assumes ds: "coalescable ds" and n: "n dvd ds" "0 < n"
    and R: "\<forall>r \<in> R. unat (snd r) mod n = 0"
    and txs: "recorded (segment_size_of ds) n R txs"
  shows "\<exists>ms. (\<forall>q. foldM (\<lambda>(addr, info). memory_coalescing_arch_13_reduce_and_send wr type info addr
      (segment_size_of ds)) txs q = Some (q @ ms)) \<and> sent_for wr type n R ms"
proof -
  let ?S = "\<lambda>k. {r \<in> R. block_of (segment_size_of ds) (snd r) = k}"
  let ?f = "\<lambda>(addr, info). memory_coalescing_arch_13_reduce_and_send wr type info addr (segment_size_of ds)"
  let ?P = "\<lambda>x. sent_for wr type n (?S (fst x))"
  have "\<exists>ms. (\<forall>q. ?f x q = Some (q @ ms)) \<and> ?P x ms" if "x \<in> set txs" for x
  proof -
    obtain k info where x: "x = (k, info)" by (cases x)
    have "map_of txs k = Some info"
      using that txs by (simp add: x recorded_def sorted_map_of [symmetric])
    then have "describes n (?S k) info"
      using txs by (auto simp: recorded_def omap_get_def dest!: spec [of _ k])
    moreover have "k \<in> block_of (segment_size_of ds) ` snd ` R"
      using that txs by (force simp: x recorded_def)
    then have "?S k \<noteq> {}" by force
    moreover have "\<forall>r \<in> ?S k. unat (snd r) mod n = 0 \<and> block_of (segment_size_of ds) (snd r) = k"
      using R by simp
    ultimately obtain m where "\<forall>q. memory_coalescing_arch_13_reduce_and_send wr type info k
          (segment_size_of ds) q = Some (q @ [m])"
        and "ma_write m = wr" "ma_type m = type" "\<forall>r \<in> ?S k. serves n r m" "justified n (?S k) m"
      using transaction_sent [OF ds n, of "?S k" k info wr type] by blast
    then have "(\<forall>q. ?f x q = Some (q @ [m])) \<and> ?P x [m]"
      by (simp add: sent_for_def x)
    then show ?thesis by blast
  qed
  then obtain mss where mss: "\<forall>q. foldM ?f txs q = Some (q @ concat mss)" "list_all2 ?P txs mss"
    using foldM_appends [of txs ?f ?P] by blast
  have keys: "fst ` set txs = block_of (segment_size_of ds) ` snd ` R"
    using txs by (simp add: recorded_def)
  have "(\<Union>x \<in> set txs. ?S (fst x)) = (\<Union>k \<in> fst ` set txs. ?S k)" by simp
  also have "\<dots> = R" unfolding keys by blast
  finally have "(\<Union>x \<in> set txs. ?S (fst x)) = R" .
  with sent_for_concat [OF mss(2)] mss(1) show ?thesis by auto
qed

subsection \<open>A warp instruction\<close>

text \<open>
  The instructions the rules are made for: a warp that its parts divide, the address arrays in
  place, no active lane outside the warp, and naturally aligned addresses.
\<close>

definition piece_bytes :: "warp_mem_inst \<Rightarrow> nat" where
  "piece_bytes w = fst (coalesce_pieces (i_space w) (i_data_size w))"

definition piece_count :: "warp_mem_inst \<Rightarrow> nat" where
  "piece_count w = snd (coalesce_pieces (i_space w) (i_data_size w))"

definition warp_wf :: "core_config \<Rightarrow> warp_mem_inst \<Rightarrow> bool" where
  "warp_wf c w \<longleftrightarrow> cc_warp_size c \<le> 32 \<and> w_per_scalar_thread_valid w \<and>
     length (w_memreqaddr w) = cc_warp_size c \<and>
     (\<forall>l \<in> set (w_memreqaddr w). length l = MAX_ACCESSES_PER_INSN_PER_THREAD) \<and>
     (\<forall>t<32. bit (w_active_mask w) t \<longrightarrow> t < cc_warp_size c)"

definition aligned :: "core_config \<Rightarrow> warp_mem_inst \<Rightarrow> bool" where
  "aligned c w \<longleftrightarrow> coalescable (i_data_size w) \<and>
     (\<forall>t<cc_warp_size c. bit (w_active_mask w) t \<longrightarrow>
        (\<forall>a<piece_count w. unat (w_memreqaddr w ! t ! a) mod piece_bytes w = 0))"

definition lane_requests :: "warp_mem_inst \<Rightarrow> nat \<Rightarrow> (nat \<times> u64) list" where
  "lane_requests w t =
     (if bit (w_active_mask w) t then map (\<lambda>a. (t, w_memreqaddr w ! t ! a)) [0..<piece_count w] else [])"

definition warp_requests :: "core_config \<Rightarrow> warp_mem_inst \<Rightarrow> (nat \<times> u64) set" where
  "warp_requests c w = (\<Union>t \<in> {..<cc_warp_size c}. set (lane_requests w t))"

lemma pieces_ok:
  assumes "coalescable (i_data_size w)"
  shows "piece_bytes w dvd i_data_size w" "0 < piece_bytes w" "piece_count w \<le> MAX_ACCESSES_PER_INSN_PER_THREAD"
    "piece_bytes w * piece_count w = i_data_size w"
  using assms
  by (auto simp: coalescable_def piece_bytes_def piece_count_def coalesce_pieces_def
      MAX_ACCESSES_PER_INSN_PER_THREAD_def)

lemma foldM_Nil: "foldM f [] = Some"
  by (rule ext) simp

lemma foldM_cong: "(\<And>x s. x \<in> set xs \<Longrightarrow> f x s = g x s) \<Longrightarrow> foldM f xs s = foldM g xs s"
proof (induction xs arbitrary: s)
  case (Cons x xs)
  then have "foldM f xs = foldM g xs" by (intro ext) simp
  with Cons.prems [of x] show ?case by simp
qed simp

lemma foldM_map: "foldM f (map g xs) s = foldM (\<lambda>x. f (g x)) xs s"
proof (induction xs arbitrary: s)
  case (Cons x xs)
  then have "foldM f (map g xs) = foldM (\<lambda>x. f (g x)) xs" by (rule ext)
  then show ?case by simp
qed simp

lemma coalesce_thread_eq:
  assumes wf: "warp_wf c w" and ds: "coalescable (i_data_size w)" and t: "t < cc_warp_size c"
  shows "coalesce_thread w t txs =
    foldM (\<lambda>(t, a). coalesce_access (segment_size_of (i_data_size w)) (piece_bytes w) t a) (lane_requests w t) txs"
proof -
  have "t < 32" and len: "t < length (w_memreqaddr w)" "length (w_memreqaddr w ! t) = MAX_ACCESSES_PER_INSN_PER_THREAD"
    using wf t by (auto simp: warp_wf_def)
  have act: "active w t = Some (bit (w_active_mask w) t)"
    using \<open>t < 32\<close> by (simp add: active_def bitset_test_def)
  have pieces: "coalesce_pieces (i_space w) (i_data_size w) = (piece_bytes w, piece_count w)"
    by (simp add: piece_bytes_def piece_count_def)
  have "foldM (\<lambda>a txs. do { addr \<leftarrow> nth_opt (w_memreqaddr w ! t) a;
        coalesce_access (segment_size_of (i_data_size w)) (piece_bytes w) t addr txs }) [0..<piece_count w] txs =
      foldM (\<lambda>a. coalesce_access (segment_size_of (i_data_size w)) (piece_bytes w) t (w_memreqaddr w ! t ! a))
        [0..<piece_count w] txs"
    using len(2) pieces_ok(3) [OF ds] by (intro foldM_cong) simp
  then show ?thesis
    using act len pieces_ok(3) [OF ds]
    by (cases "bit (w_active_mask w) t")
      (simp_all add: coalesce_thread_def lane_requests_def foldM_map pieces Let_def)
qed

lemma lane_request_ok:
  assumes "warp_wf c w" and "aligned c w" and "t < cc_warp_size c" and "r \<in> set (lane_requests w t)"
  shows "fst r < 32" and "unat (snd r) mod piece_bytes w = 0"
  using assms by (auto simp: warp_wf_def aligned_def lane_requests_def split: if_splits)

lemma subwarp_sent:
  assumes wf: "warp_wf c w" and al: "aligned c w" and sub: "(sub + 1) * sz \<le> cc_warp_size c"
  shows "\<exists>ms. (\<forall>q. coalesce_subwarp wr type sz w sub q = Some (q @ ms)) \<and>
    sent_for wr type (piece_bytes w) (\<Union>t \<in> {sub * sz..<(sub + 1) * sz}. set (lane_requests w t)) ms"
proof -
  have ds: "coalescable (i_data_size w)" using al by (simp add: aligned_def)
  let ?ts = "[sub * sz..<(sub + 1) * sz]"
  let ?rs = "concat (map (lane_requests w) ?ts)"
  have t: "t < cc_warp_size c" if "t \<in> set ?ts" for t
    using that sub by simp
  have ok: "fst r < 32 \<and> unat (snd r) mod piece_bytes w = 0" if r: "r \<in> set ?rs" for r
  proof -
    obtain t where "t \<in> set ?ts" "r \<in> set (lane_requests w t)"
      using r by auto
    with lane_request_ok [OF wf al t] show ?thesis by blast
  qed
  let ?g = "\<lambda>(t, a). coalesce_access (segment_size_of (i_data_size w)) (piece_bytes w) t a"
  have "foldM (coalesce_thread w) ?ts [] = foldM (\<lambda>t. foldM ?g (lane_requests w t)) ?ts []"
    using coalesce_thread_eq [OF wf ds t] by (intro foldM_cong)
  then have run: "foldM (coalesce_thread w) ?ts [] = foldM ?g ?rs []"
    by (simp only: foldM_concat)
  have "\<forall>(t, a) \<in> set ?rs. t < 32 \<and> fits (segment_size_of (i_data_size w)) (piece_bytes w) a"
    using ok aligned_fits [OF ds pieces_ok(1,2) [OF ds]] by (metis (no_types, lifting) case_prodI2 fst_conv snd_conv)
  from recorded_foldM [OF recorded_Nil this] obtain txs where txs: "foldM (coalesce_thread w) ?ts [] = Some txs"
      "recorded (segment_size_of (i_data_size w)) (piece_bytes w) (set ?rs) txs"
    unfolding run by (simp only: Un_empty_left) blast
  have "\<forall>r \<in> set ?rs. unat (snd r) mod piece_bytes w = 0" using ok by blast
  from transactions_sent [OF ds pieces_ok(1,2) [OF ds] this txs(2), of wr type] show ?thesis
    using txs(1) by (simp add: coalesce_subwarp_def)
qed

lemma warp_parts:
  assumes "p dvd ws" and "p \<noteq> (0::nat)"
  shows "(\<Union>sub \<in> set [0..<p]. {sub * (ws div p)..<(sub + 1) * (ws div p)}) = {..<ws}"
    and "sub < p \<Longrightarrow> (sub + 1) * (ws div p) \<le> ws"
proof -
  obtain z where ws: "ws = p * z" using assms(1) by (rule dvdE)
  have z: "ws div p = z" using assms(2) by (simp add: ws)
  have up: "(sub + 1) * z \<le> p * z" if "sub < p" for sub
    using that by (intro mult_right_mono) auto
  then show "sub < p \<Longrightarrow> (sub + 1) * (ws div p) \<le> ws" by (simp add: z ws)
  show "(\<Union>sub \<in> set [0..<p]. {sub * (ws div p)..<(sub + 1) * (ws div p)}) = {..<ws}"
  proof (intro equalityI subsetI)
    fix t assume "t \<in> {..<ws}"
    then have "t < p * z" by (simp add: ws)
    then have "0 < z" by (cases z) auto
    have "t div z < p" using \<open>t < p * z\<close> by (simp add: less_mult_imp_div_less)
    moreover have "t div z * z \<le> t \<and> t < (t div z + 1) * z"
      using \<open>0 < z\<close> dividend_less_div_times [of z t] by (simp add: add.commute)
    ultimately show "t \<in> (\<Union>sub \<in> set [0..<p]. {sub * (ws div p)..<(sub + 1) * (ws div p)})"
      unfolding z by (intro UN_I [of "t div z"]) auto
  next
    fix t assume "t \<in> (\<Union>sub \<in> set [0..<p]. {sub * (ws div p)..<(sub + 1) * (ws div p)})"
    then obtain sub where "sub < p" "t < (sub + 1) * z" unfolding z by auto
    with up show "t \<in> {..<ws}" by (simp add: ws less_le_trans)
  qed
qed

lemma arch_13_sent:
  assumes wf: "warp_wf c w" and al: "aligned c w"
    and p: "cc_mem_warp_parts c \<noteq> 0" "cc_mem_warp_parts c dvd cc_warp_size c"
  shows "\<exists>ms. memory_coalescing_arch_13 c wr type w = Some (w\<lparr>w_accessq := w_accessq w @ ms\<rparr>) \<and>
    sent_for wr type (piece_bytes w) (warp_requests c w) ms"
proof -
  let ?p = "cc_mem_warp_parts c"
  let ?z = "cc_warp_size c div ?p"
  let ?R = "\<lambda>sub. \<Union>t \<in> {sub * ?z..<(sub + 1) * ?z}. set (lane_requests w t)"
  note parts = warp_parts [OF p(2,1)]
  have "\<exists>ms. (\<forall>q. coalesce_subwarp wr type ?z w sub q = Some (q @ ms)) \<and>
      sent_for wr type (piece_bytes w) (?R sub) ms" if "sub \<in> set [0..<?p]" for sub
    using subwarp_sent [OF wf al parts(2)] that by simp
  then obtain mss
    where mss: "\<forall>q. foldM (coalesce_subwarp wr type ?z w) [0..<?p] q = Some (q @ concat mss)"
      and sent: "list_all2 (\<lambda>sub. sent_for wr type (piece_bytes w) (?R sub)) [0..<?p] mss"
    using foldM_appends [of "[0..<?p]" "coalesce_subwarp wr type ?z w"
        "\<lambda>sub. sent_for wr type (piece_bytes w) (?R sub)"] by blast
  have "(\<Union>sub \<in> set [0..<?p]. ?R sub) =
      (\<Union>t \<in> (\<Union>sub \<in> set [0..<?p]. {sub * ?z..<(sub + 1) * ?z}). set (lane_requests w t))"
    by blast
  also have "\<dots> = warp_requests c w"
    unfolding parts(1) warp_requests_def ..
  finally have "(\<Union>sub \<in> set [0..<?p]. ?R sub) = warp_requests c w" .
  with sent_for_concat [OF sent] have "sent_for wr type (piece_bytes w) (warp_requests c w) (concat mss)"
    by simp
  then show ?thesis
    using mss p(1) by (auto simp: memory_coalescing_arch_13_def)
qed

text \<open>An instruction whose accesses are still to be generated.\<close>

definition mem_ready :: "warp_mem_inst \<Rightarrow> bool" where
  "mem_ready w \<longleftrightarrow> \<not> w_empty w \<and> \<not> w_mem_accesses_created w \<and>
     (i_op w = LOAD_OP \<or> i_op w = STORE_OP) \<and> w_active_mask w \<noteq> 0"

abbreviation is_write :: "warp_mem_inst \<Rightarrow> bool" where
  "is_write w \<equiv> is_store (inst_t.truncate w)"

lemma ready_load_or_store: "mem_ready w \<Longrightarrow> is_load (inst_t.truncate w) \<or> is_store (inst_t.truncate w)"
  by (auto simp: mem_ready_def is_load_def is_store_def inst_t.defs)

lemma generate_global_or_local:
  assumes ready: "mem_ready w" and "w_per_scalar_thread_valid w" and "cc_coalesce_arch c = 13"
    and space: "i_space w \<in> {global_space, local_space, param_space_local}"
  shows "generate_mem_accesses c w = map_option (\<lambda>w. w\<lparr>w_mem_accesses_created := True\<rparr>)
    ((if w_isatomic w then memory_coalescing_arch_13_atomic else memory_coalescing_arch_13)
       c (is_write w) (access_type_of (i_space w) (is_write w)) w)"
proof -
  have [simp]: "i_op w \<noteq> MEMORY_BARRIER_OP" "\<not> w_empty w" "\<not> w_mem_accesses_created w" "w_active_mask w \<noteq> 0"
    "i_op w = LOAD_OP \<or> i_op w = STORE_OP"
    using ready by (auto simp: mem_ready_def)
  show ?thesis
    using assms(2,3) space ready_load_or_store [OF ready]
    by (auto simp: generate_mem_accesses_def Let_def map_option_case split: Option.bind_splits)
qed

subsection \<open>Transactions of atomics\<close>

text \<open>Requests that touch pairwise different bytes of their block.\<close>

definition apart :: "nat \<Rightarrow> (nat \<times> u64) set \<Rightarrow> bool" where
  "apart n S \<longleftrightarrow> (\<forall>r \<in> S. \<forall>r' \<in> S. r \<noteq> r' \<longrightarrow>
     byte_idx (snd r) + n \<le> byte_idx (snd r') \<or> byte_idx (snd r') + n \<le> byte_idx (snd r))"

lemma test_bytes_run:
  fixes b :: byte_mask_t
  assumes "end_bit < 128"
  shows "foldM (\<lambda>i found. if found then Some True else bitset_test i b) [start..<Suc end_bit] f =
    Some (f \<or> (\<exists>i. start \<le> i \<and> i \<le> end_bit \<and> bit b i))"
proof -
  have "foldM (\<lambda>i found. if found then Some True else bitset_test i b) is f = Some (f \<or> (\<exists>i \<in> set is. bit b i))"
    if "\<forall>i \<in> set is. i < 128" for "is"
    using that by (induction "is" arbitrary: f) (auto simp: bitset_test_def)
  moreover have "set [start..<Suc end_bit] = {i. start \<le> i \<and> i \<le> end_bit}"
    by auto
  ultimately show ?thesis
    using assms by (simp del: upt_Suc)
qed

lemma test_bytes_access:
  assumes "byte_idx a + n \<le> 128" and "0 < n"
  shows "test_bytes info (ucast (a AND 127)) (ucast (a AND 127) + of_nat n - 1) =
    Some (\<exists>i. byte_idx a \<le> i \<and> i < byte_idx a + n \<and> bit (tr_bytes info) i)"
proof -
  have lo: "unat (ucast (a AND 127) :: u32) = byte_idx a"
    using assms(1) by (simp add: unat_ucast_u32)
  obtain m where m: "n = Suc m" using assms(2) gr0_conv_Suc by blast
  have "unat (ucast (a AND 127) + of_nat m :: u32) = byte_idx a + m"
    using assms by (simp add: m unat_word_ariths unat_of_nat lo)
  then have hi: "unat (ucast (a AND 127) + of_nat n - 1 :: u32) = byte_idx a + (n - 1)"
    by (simp add: m add.assoc [symmetric])
  have "i \<le> byte_idx a + (n - 1) \<longleftrightarrow> i < byte_idx a + n" for i
    using assms(2) by linarith
  then show ?thesis
    unfolding test_bytes_def lo hi using assms by (subst test_bytes_run) auto
qed

lemma mark_atomic_eq:
  assumes "\<not> (\<exists>i. byte_idx a \<le> i \<and> i < byte_idx a + n \<and> bit (tr_bytes info) i)" and "byte_idx a + n \<le> 128"
  shows "mark_atomic t a n info = mark_thread t a n info"
proof -
  have "foldM (\<lambda>i b. do { t \<leftarrow> bitset_test (byte_idx a + i) b; require (\<not> t);
        bitset_set (byte_idx a + i) b }) [0..<m] (tr_bytes info) =
      foldM (\<lambda>i b. bitset_set (byte_idx a + i) b) [0..<m] (tr_bytes info)" if "m \<le> n" for m
    using that
  proof (induction m)
    case (Suc m)
    then obtain b where b: "foldM (\<lambda>i b. bitset_set (byte_idx a + i) b) [0..<m] (tr_bytes info) = Some b"
        "\<forall>k. bit b k \<longleftrightarrow> bit (tr_bytes info) k \<or> byte_idx a \<le> k \<and> k < byte_idx a + m"
      using bitset_set_run [where b = "tr_bytes info" and idx = "byte_idx a" and n = m] assms(2) by auto
    then have "\<not> bit b (byte_idx a + m)"
      using assms(1) Suc.prems by auto
    then show ?case
      using Suc assms(2) b(1) by (simp add: foldM_append foldM_Nil bitset_test_def)
  qed simp
  from this [of n] show ?thesis
    by (simp add: mark_atomic_def mark_thread_def Let_def)
qed

text \<open>The requests in a list of transactions of one block.\<close>

definition grouped :: "nat \<Rightarrow> (nat \<times> u64) set list \<Rightarrow> transaction_info list \<Rightarrow> bool" where
  "grouped n parts infos \<longleftrightarrow>
     list_all2 (\<lambda>P info. describes n P info \<and> P \<noteq> {} \<and> apart n P) parts infos \<and>
     sorted_wrt (\<lambda>P Q. P \<inter> Q = {}) parts"

lemma place_atomic_grouped:
  assumes "grouped n parts infos" and "(t, a) \<notin> \<Union> (set parts)" and "t < 32"
    and "byte_idx a + n \<le> 128" and "0 < n"
  shows "\<exists>parts' infos'. place_atomic t a n infos = Some infos' \<and> grouped n parts' infos' \<and>
    \<Union> (set parts') = insert (t, a) (\<Union> (set parts))"
  using assms(1,2)
proof (induction infos arbitrary: parts)
  case Nil
  obtain info where info: "mark_thread t a n transaction_info_new = Some info" "describes n {(t, a)} info"
    using describes_insert [OF describes_new assms(3,4)] by blast
  moreover have "mark_atomic t a n transaction_info_new = mark_thread t a n transaction_info_new"
    using assms(4) by (intro mark_atomic_eq) (simp_all add: transaction_info_new_def)
  ultimately have "place_atomic t a n [] = Some [info]" and "grouped n [{(t, a)}] [info]"
    by (simp_all add: grouped_def apart_def)
  moreover have "parts = []" using Nil by (simp add: grouped_def)
  ultimately show ?case by force
next
  case (Cons it infos)
  from Cons.prems(1) obtain P ps where parts: "parts = P # ps"
    by (auto simp: grouped_def list_all2_Cons2)
  with Cons.prems have P: "describes n P it" "P \<noteq> {}" "apart n P" and disj: "\<forall>Q \<in> set ps. P \<inter> Q = {}"
    and ps: "grouped n ps infos" "(t, a) \<notin> \<Union> (set ps)" "(t, a) \<notin> P"
    by (auto simp: grouped_def)
  let ?hit = "\<exists>i. byte_idx a \<le> i \<and> i < byte_idx a + n \<and> bit (tr_bytes it) i"
  have test: "test_bytes it (ucast (a AND 127)) (ucast (a AND 127) + of_nat n - 1) = Some ?hit"
    by (rule test_bytes_access [OF assms(4,5)])
  show ?case
  proof (cases ?hit)
    case True
    obtain ps' infos' where rest: "place_atomic t a n infos = Some infos'" "grouped n ps' infos'"
        and un: "\<Union> (set ps') = insert (t, a) (\<Union> (set ps))"
      using Cons.IH [OF ps(1,2)] by blast
    have "P \<inter> \<Union> (set ps) = {}" using disj by blast
    then have "P \<inter> \<Union> (set ps') = {}" using ps(3) by (simp add: un)
    then have "\<forall>Q \<in> set ps'. P \<inter> Q = {}" by blast
    moreover have "\<Union> (set (P # ps')) = insert (t, a) (\<Union> (set parts))"
      using un by (simp add: parts insert_commute Un_insert_right)
    ultimately have "place_atomic t a n (it # infos) = Some (it # infos') \<and> grouped n (P # ps') (it # infos') \<and>
        \<Union> (set (P # ps')) = insert (t, a) (\<Union> (set parts))"
      using True P test rest by (simp add: grouped_def)
    then show ?thesis by blast
  next
    case False
    obtain info where info: "mark_thread t a n it = Some info" "describes n (insert (t, a) P) info"
      using describes_insert [OF P(1) assms(3,4)] by blast
    have "byte_idx (snd r) + n \<le> byte_idx a \<or> byte_idx a + n \<le> byte_idx (snd r)" if "r \<in> P" for r
    proof -
      have "\<forall>k. byte_idx (snd r) \<le> k \<and> k < byte_idx (snd r) + n \<longrightarrow> bit (tr_bytes it) k"
        using P(1) that unfolding describes_def by blast
      with False assms(5) show ?thesis
        by (metis add.commute less_add_same_cancel1 linorder_le_cases not_less order.refl)
    qed
    then have "apart n (insert (t, a) P)"
      using P(3) unfolding apart_def by auto
    then have "grouped n (insert (t, a) P # ps) (info # infos)"
      using info(2) ps disj Cons.prems(1) by (auto simp: grouped_def parts)
    moreover have "place_atomic t a n (it # infos) = Some (info # infos)"
      using False test info(1) mark_atomic_eq [OF False assms(4)] by simp
    moreover have "\<Union> (set (insert (t, a) P # ps)) = insert (t, a) (\<Union> (set parts))"
      by (simp add: parts)
    ultimately show ?thesis by blast
  qed
qed

definition atomic_recorded :: "u32 \<Rightarrow> nat \<Rightarrow> (nat \<times> u64) set \<Rightarrow> atomic_transactions \<Rightarrow> bool" where
  "atomic_recorded seg n R txs \<longleftrightarrow> sorted_wrt (<) (map fst txs) \<and> fst ` set txs = block_of seg ` snd ` R \<and>
     (\<forall>k. \<exists>parts. grouped n parts (omap_get [] k txs) \<and>
        \<Union> (set parts) = {r \<in> R. block_of seg (snd r) = k})"

lemma atomic_recorded_Nil: "atomic_recorded seg n {} []"
  by (simp add: atomic_recorded_def grouped_def)

lemma atomic_recorded_insert:
  assumes R: "atomic_recorded seg n R txs" and new: "(t, a) \<notin> R" and "t < 32" and "0 < n"
    and "fits seg n a"
  shows "\<exists>infos. place_atomic t a n (omap_get [] (block_of seg a) txs) = Some infos \<and>
    atomic_recorded seg n (insert (t, a) R) (omap_put (block_of seg a) infos txs)"
proof -
  let ?k = "block_of seg a"
  let ?S = "\<lambda>R k. {r \<in> R. block_of seg (snd r) = k}"
  have D: "\<exists>parts. grouped n parts (omap_get [] k txs) \<and> \<Union> (set parts) = ?S R k" for k
    using R by (simp add: atomic_recorded_def)
  obtain parts where parts: "grouped n parts (omap_get [] ?k txs)" "\<Union> (set parts) = ?S R ?k"
    using D by blast
  have "(t, a) \<notin> \<Union> (set parts)" using new by (simp add: parts(2))
  moreover have "byte_idx a + n \<le> 128" using assms(5) by (simp add: fits_def)
  ultimately obtain parts' infos
    where infos: "place_atomic t a n (omap_get [] ?k txs) = Some infos" "grouped n parts' infos"
      and "\<Union> (set parts') = insert (t, a) (\<Union> (set parts))"
    using place_atomic_grouped [OF parts(1) _ assms(3) _ assms(4)] by blast
  then have un: "\<Union> (set parts') = insert (t, a) (?S R ?k)"
    by (simp only: parts(2))
  have same: "?S (insert (t, a) R) ?k = insert (t, a) (?S R ?k)"
    and other: "k \<noteq> ?k \<Longrightarrow> ?S (insert (t, a) R) k = ?S R k" for k
    by auto
  have "\<exists>parts. grouped n parts (omap_get [] k (omap_put ?k infos txs)) \<and>
      \<Union> (set parts) = ?S (insert (t, a) R) k" for k
  proof (cases "k = ?k")
    case True
    then show ?thesis using infos(2) un same by auto
  next
    case False
    then show ?thesis using D [of k] other [OF False] by simp
  qed
  then have "atomic_recorded seg n (insert (t, a) R) (omap_put ?k infos txs)"
    using R by (simp add: atomic_recorded_def sorted_omap_put)
  with infos(1) show ?thesis by blast
qed

lemma atomic_thread_recorded:
  assumes wf: "warp_wf c w" and al: "aligned c w" and g: "i_space w = global_space"
    and t: "t < cc_warp_size c" and R: "atomic_recorded (segment_size_of (i_data_size w)) (i_data_size w) R txs"
    and fresh: "t \<notin> fst ` R"
  shows "\<exists>txs'. atomic_thread w t txs = Some txs' \<and>
    atomic_recorded (segment_size_of (i_data_size w)) (i_data_size w) (R \<union> set (lane_requests w t)) txs'"
proof -
  let ?n = "i_data_size w" and ?seg = "segment_size_of (i_data_size w)"
  let ?a = "w_memreqaddr w ! t ! 0"
  have ds: "coalescable ?n" using al by (simp add: aligned_def)
  have pieces: "piece_bytes w = ?n" "piece_count w = 1"
    using g by (simp_all add: piece_bytes_def piece_count_def coalesce_pieces_def)
  have "t < 32" and len: "t < length (w_memreqaddr w)" "0 < length (w_memreqaddr w ! t)"
    using wf t by (auto simp: warp_wf_def MAX_ACCESSES_PER_INSN_PER_THREAD_def)
  have act: "active w t = Some (bit (w_active_mask w) t)"
    using \<open>t < 32\<close> by (simp add: active_def bitset_test_def)
  show ?thesis
  proof (cases "bit (w_active_mask w) t")
    case True
    have reqs: "lane_requests w t = [(t, ?a)]"
      using True by (simp add: lane_requests_def pieces)
    then have "unat ?a mod ?n = 0"
      using lane_request_ok(2) [OF wf al t, of "(t, ?a)"] by (simp add: pieces)
    then have fit: "fits ?seg ?n ?a"
      using aligned_fits [OF ds] pieces_ok(2) [OF ds] by (simp add: pieces)
    have "(t, ?a) \<notin> R" using fresh by force
    from atomic_recorded_insert [OF R this \<open>t < 32\<close> _ fit] obtain infos
      where "place_atomic t ?a ?n (omap_get [] (block_of ?seg ?a) txs) = Some infos"
        and "atomic_recorded ?seg ?n (insert (t, ?a) R) (omap_put (block_of ?seg ?a) infos txs)"
      using pieces_ok(2) [OF ds] by (auto simp: pieces)
    moreover have "line_size_based_tag_func (?a + of_nat ?n - 1) (ucast ?seg) =
        line_size_based_tag_func ?a (ucast ?seg)"
      using fit by (simp add: fits_def)
    ultimately show ?thesis
      using act True len by (simp add: atomic_thread_def Let_def reqs flip: block_of_def)
  next
    case False
    then show ?thesis
      using act R by (simp add: atomic_thread_def lane_requests_def)
  qed
qed

lemma fst_lane_requests: "fst ` set (lane_requests w t) \<subseteq> {t}"
  by (auto simp: lane_requests_def)

lemma atomic_threads_recorded:
  assumes wf: "warp_wf c w" and al: "aligned c w" and g: "i_space w = global_space"
    and ts: "distinct ts" "\<forall>t \<in> set ts. t < cc_warp_size c"
  shows "\<exists>txs. foldM (atomic_thread w) ts [] = Some txs \<and>
    atomic_recorded (segment_size_of (i_data_size w)) (i_data_size w) (\<Union>t \<in> set ts. set (lane_requests w t)) txs"
  using ts
proof (induction ts rule: rev_induct)
  case Nil
  then show ?case by (simp add: atomic_recorded_Nil)
next
  case (snoc t ts)
  let ?R = "\<Union>t \<in> set ts. set (lane_requests w t)"
  obtain txs where txs: "foldM (atomic_thread w) ts [] = Some txs"
      "atomic_recorded (segment_size_of (i_data_size w)) (i_data_size w) ?R txs"
    using snoc by auto
  have "t \<notin> fst ` ?R"
    using snoc.prems(1) fst_lane_requests by fastforce
  from atomic_thread_recorded [OF wf al g _ txs(2) this] snoc.prems(2) show ?case
    using txs(1) by (auto simp: foldM_append Un_commute)
qed

text \<open>The accesses sent for a set of requests, each request in exactly one of them.\<close>

definition exactly :: "bool \<Rightarrow> mem_access_type \<Rightarrow> nat \<Rightarrow> (nat \<times> u64) set \<Rightarrow> mem_access_t list \<Rightarrow> bool" where
  "exactly wr type n R ms \<longleftrightarrow> (\<exists>parts. \<Union> (set parts) = R \<and> sorted_wrt (\<lambda>P Q. P \<inter> Q = {}) parts \<and>
     list_all2 (\<lambda>P m. ma_write m = wr \<and> ma_type m = type \<and> (\<forall>r \<in> P. serves n r m) \<and>
       justified n P m \<and> apart n P) parts ms)"

lemma exactly_append:
  assumes "exactly wr type n R ms" and "exactly wr type n Q ns" and "R \<inter> Q = {}"
  shows "exactly wr type n (R \<union> Q) (ms @ ns)"
proof -
  obtain ps qs where "\<Union> (set ps) = R" "sorted_wrt (\<lambda>P Q. P \<inter> Q = {}) ps"
      "list_all2 (\<lambda>P m. ma_write m = wr \<and> ma_type m = type \<and> (\<forall>r \<in> P. serves n r m) \<and>
       justified n P m \<and> apart n P) ps ms"
      "\<Union> (set qs) = Q" "sorted_wrt (\<lambda>P Q. P \<inter> Q = {}) qs"
      "list_all2 (\<lambda>P m. ma_write m = wr \<and> ma_type m = type \<and> (\<forall>r \<in> P. serves n r m) \<and>
       justified n P m \<and> apart n P) qs ns"
    using assms(1,2) unfolding exactly_def by blast
  with assms(3) show ?thesis
    unfolding exactly_def by (intro exI [of _ "ps @ qs"]) (auto simp: sorted_wrt_append intro: list_all2_appendI)
qed

lemma exactly_concat:
  assumes "list_all2 (\<lambda>x. exactly wr type n (R x)) xs mss"
    and "distinct xs" and "\<And>x y. x \<in> set xs \<Longrightarrow> y \<in> set xs \<Longrightarrow> x \<noteq> y \<Longrightarrow> R x \<inter> R y = {}"
  shows "exactly wr type n (\<Union>x \<in> set xs. R x) (concat mss)"
  using assms
proof (induction rule: list_all2_induct)
  case Nil
  then show ?case by (auto simp: exactly_def)
next
  case (Cons x xs ms mss)
  have "exactly wr type n (\<Union>x \<in> set xs. R x) (concat mss)"
    using Cons.IH Cons.prems by auto
  moreover have "R x \<inter> (\<Union>x \<in> set xs. R x) = {}"
    using Cons.prems by fastforce
  ultimately show ?case
    using exactly_append Cons.hyps(1) by simp
qed

lemma exactly_single:
  "\<lbrakk>\<forall>r \<in> P. serves n r m; justified n P m; apart n P; ma_write m = wr; ma_type m = type\<rbrakk>
    \<Longrightarrow> exactly wr type n P [m]"
  unfolding exactly_def by (intro exI [of _ "[P]"]) simp

text \<open>What the partition says of the accesses themselves.\<close>

lemma exactly_sent_for:
  assumes "exactly wr type n R ms"
  shows "sent_for wr type n R ms"
proof -
  obtain parts where parts: "\<Union> (set parts) = R"
      "list_all2 (\<lambda>P m. ma_write m = wr \<and> ma_type m = type \<and> (\<forall>r \<in> P. serves n r m) \<and>
       justified n P m \<and> apart n P) parts ms"
    using assms unfolding exactly_def by blast
  have "list_all2 (\<lambda>P ms. sent_for wr type n P ms) parts (map (\<lambda>m. [m]) ms)"
    using parts(2) by (auto simp: list_all2_conv_all_nth sent_for_def)
  from sent_for_concat [OF this] show ?thesis
    by (simp add: parts(1))
qed

lemma exactly_disjoint:
  assumes "exactly wr type n R ms" and inj: "inj_on fst R"
  shows "sorted_wrt (\<lambda>m m'. \<forall>t. \<not> (bit (ma_warp_mask m) t \<and> bit (ma_warp_mask m') t)) ms"
    and "\<forall>m \<in> set ms. apart n {r \<in> R. bit (ma_warp_mask m) (fst r)}"
proof -
  obtain parts where un: "\<Union> (set parts) = R" and disj: "sorted_wrt (\<lambda>P Q. P \<inter> Q = {}) parts"
    and all: "list_all2 (\<lambda>P m. ma_write m = wr \<and> ma_type m = type \<and> (\<forall>r \<in> P. serves n r m) \<and>
       justified n P m \<and> apart n P) parts ms"
    using assms(1) unfolding exactly_def by blast
  have lanes: "bit (ma_warp_mask (ms ! i)) t \<Longrightarrow> \<exists>r \<in> parts ! i. fst r = t" if "i < length ms" for i t
    using all that by (auto simp: list_all2_conv_all_nth justified_def)
  have len: "length parts = length ms" using all by (rule list_all2_lengthD)
  have R: "r \<in> R" if "i < length ms" "r \<in> parts ! i" for i r
    using that un len by (metis UnionI nth_mem)
  show "sorted_wrt (\<lambda>m m'. \<forall>t. \<not> (bit (ma_warp_mask m) t \<and> bit (ma_warp_mask m') t)) ms"
    unfolding sorted_wrt_iff_nth_less
  proof (intro allI impI notI)
    fix i j t assume ij: "i < j" "j < length ms"
      and "bit (ma_warp_mask (ms ! i)) t \<and> bit (ma_warp_mask (ms ! j)) t"
    then obtain r r' where "r \<in> parts ! i" "r' \<in> parts ! j" "fst r = t" "fst r' = t"
      using lanes [of i t] lanes [of j t] by auto
    moreover from this have "r = r'"
      using inj_onD [OF inj, of r r'] R [of i r] R [of j r'] ij by auto
    ultimately show False
      using disj ij len unfolding sorted_wrt_iff_nth_less by (metis IntI empty_iff)
  qed
  show "\<forall>m \<in> set ms. apart n {r \<in> R. bit (ma_warp_mask m) (fst r)}"
  proof
    fix m assume "m \<in> set ms"
    then obtain i where i: "i < length ms" "m = ms ! i" by (auto simp: in_set_conv_nth)
    have "r \<in> parts ! i" if r: "r \<in> R" "bit (ma_warp_mask m) (fst r)" for r
    proof -
      obtain r' where "r' \<in> parts ! i" "fst r' = fst r"
        using lanes [OF i(1), of "fst r"] r(2) by (auto simp: i(2))
      moreover from this have "r' = r"
        using inj_onD [OF inj] R [OF i(1)] r(1) by blast
      ultimately show ?thesis by simp
    qed
    moreover have "apart n (parts ! i)"
      using all i by (auto simp: list_all2_conv_all_nth)
    ultimately show "apart n {r \<in> R. bit (ma_warp_mask m) (fst r)}"
      unfolding apart_def by blast
  qed
qed

lemma group_sent:
  assumes ds: "coalescable n"
    and S: "\<forall>r \<in> \<Union> (set parts). unat (snd r) mod n = 0 \<and> block_of (segment_size_of n) (snd r) = b"
    and g: "grouped n parts infos"
  shows "\<exists>ms. (\<forall>q. foldM (\<lambda>info. memory_coalescing_arch_13_reduce_and_send wr type info b
      (segment_size_of n)) infos q = Some (q @ ms)) \<and> exactly wr type n (\<Union> (set parts)) ms"
  using S g
proof (induction infos arbitrary: parts)
  case Nil
  then show ?case by (auto simp: grouped_def exactly_def)
next
  case (Cons info infos)
  from Cons.prems(2) obtain P ps where parts: "parts = P # ps"
    by (auto simp: grouped_def list_all2_Cons2)
  with Cons.prems(2) have P: "describes n P info" "P \<noteq> {}" "apart n P" and disj: "\<forall>Q \<in> set ps. P \<inter> Q = {}"
    and ps: "grouped n ps infos"
    by (auto simp: grouped_def)
  have "0 < n" using ds by (auto simp: coalescable_def)
  have "\<forall>r \<in> P. unat (snd r) mod n = 0 \<and> block_of (segment_size_of n) (snd r) = b"
    using Cons.prems(1) by (simp add: parts)
  from transaction_sent [OF ds dvd_refl \<open>0 < n\<close> P(2) this P(1), of wr type] obtain m
    where m: "\<forall>q. memory_coalescing_arch_13_reduce_and_send wr type info b (segment_size_of n) q = Some (q @ [m])"
      and head: "exactly wr type n P [m]"
    using exactly_single P(3) by blast
  obtain ms where ms: "\<forall>q. foldM (\<lambda>info. memory_coalescing_arch_13_reduce_and_send wr type info b
      (segment_size_of n)) infos q = Some (q @ ms)"
    and tail: "exactly wr type n (\<Union> (set ps)) ms"
    using Cons.IH [OF _ ps] Cons.prems(1) by (auto simp: parts)
  have "P \<inter> \<Union> (set ps) = {}" using disj by blast
  from exactly_append [OF head tail this] have "exactly wr type n (\<Union> (set parts)) ([m] @ ms)"
    by (simp add: parts)
  moreover have "\<forall>q. foldM (\<lambda>info. memory_coalescing_arch_13_reduce_and_send wr type info b
      (segment_size_of n)) (info # infos) q = Some (q @ [m] @ ms)"
    using m ms by simp
  ultimately show ?case by blast
qed

lemma atomic_transactions_sent:
  assumes ds: "coalescable n" and R: "\<forall>r \<in> R. unat (snd r) mod n = 0"
    and txs: "atomic_recorded (segment_size_of n) n R txs"
  shows "\<exists>ms. (\<forall>q. foldM (\<lambda>(addr, infos). foldM (\<lambda>info. memory_coalescing_arch_13_reduce_and_send wr type info addr
      (segment_size_of n)) infos) txs q = Some (q @ ms)) \<and> exactly wr type n R ms"
proof -
  let ?S = "\<lambda>k. {r \<in> R. block_of (segment_size_of n) (snd r) = k}"
  let ?f = "\<lambda>(addr, infos). foldM (\<lambda>info. memory_coalescing_arch_13_reduce_and_send wr type info addr
      (segment_size_of n)) infos"
  let ?P = "\<lambda>x. exactly wr type n (?S (fst x))"
  have sorted: "sorted_wrt (<) (map fst txs)" using txs by (simp add: atomic_recorded_def)
  have "\<exists>ms. (\<forall>q. ?f x q = Some (q @ ms)) \<and> ?P x ms" if x: "x \<in> set txs" for x
  proof -
    have "map_of txs (fst x) = Some (snd x)"
      using x by (simp add: sorted_map_of [OF sorted, symmetric])
    then have "omap_get [] (fst x) txs = snd x" by (simp add: omap_get_def)
    then obtain parts where parts: "grouped n parts (snd x)" "\<Union> (set parts) = ?S (fst x)"
      using txs unfolding atomic_recorded_def by metis
    have "\<forall>r \<in> \<Union> (set parts). unat (snd r) mod n = 0 \<and> block_of (segment_size_of n) (snd r) = fst x"
      using R unfolding parts(2) by simp
    from group_sent [OF ds this parts(1), of wr type] show ?thesis
      by (simp add: parts(2) split_beta)
  qed
  then obtain mss where mss: "\<forall>q. foldM ?f txs q = Some (q @ concat mss)" "list_all2 ?P txs mss"
    using foldM_appends [of txs ?f ?P] by blast
  have "distinct txs"
    using sorted by (metis distinct_map strict_sorted_iff)
  moreover have "?S (fst x) \<inter> ?S (fst y) = {}" if "x \<in> set txs" "y \<in> set txs" "x \<noteq> y" for x y
  proof -
    have "fst x \<noteq> fst y"
      using that sorted by (metis eq_key_imp_eq_value prod.collapse strict_sorted_iff)
    then show ?thesis by auto
  qed
  ultimately have sent: "exactly wr type n (\<Union>x \<in> set txs. ?S (fst x)) (concat mss)"
    by (rule exactly_concat [OF mss(2)])
  have keys: "fst ` set txs = block_of (segment_size_of n) ` snd ` R"
    using txs by (simp add: atomic_recorded_def)
  have "(\<Union>x \<in> set txs. ?S (fst x)) = (\<Union>k \<in> fst ` set txs. ?S k)" by simp
  also have "\<dots> = R" unfolding keys by blast
  finally have "exactly wr type n R (concat mss)" using sent by simp
  with mss(1) show ?thesis by blast
qed

lemma atomic_subwarp_sent:
  assumes wf: "warp_wf c w" and al: "aligned c w" and g: "i_space w = global_space"
    and sub: "(sub + 1) * sz \<le> cc_warp_size c"
  shows "\<exists>ms. (\<forall>q. atomic_subwarp wr type sz w sub q = Some (q @ ms)) \<and>
    exactly wr type (i_data_size w) (\<Union>t \<in> {sub * sz..<(sub + 1) * sz}. set (lane_requests w t)) ms"
proof -
  let ?ts = "[sub * sz..<(sub + 1) * sz]"
  let ?R = "\<Union>t \<in> {sub * sz..<(sub + 1) * sz}. set (lane_requests w t)"
  have ds: "coalescable (i_data_size w)" using al by (simp add: aligned_def)
  have n: "piece_bytes w = i_data_size w"
    using g by (simp add: piece_bytes_def coalesce_pieces_def)
  have ts: "\<forall>t \<in> set ?ts. t < cc_warp_size c" using sub by auto
  obtain txs where txs: "foldM (atomic_thread w) ?ts [] = Some txs"
      "atomic_recorded (segment_size_of (i_data_size w)) (i_data_size w) ?R txs"
    using atomic_threads_recorded [OF wf al g distinct_upt ts] by auto
  have "unat (snd r) mod i_data_size w = 0" if r: "r \<in> ?R" for r
  proof -
    obtain t where "t \<in> set ?ts" "r \<in> set (lane_requests w t)" using r by auto
    with lane_request_ok(2) [OF wf al] ts show ?thesis unfolding n by blast
  qed
  then have "\<forall>r \<in> ?R. unat (snd r) mod i_data_size w = 0" by blast
  from atomic_transactions_sent [OF ds this txs(2), of wr type] show ?thesis
    using txs(1) by (simp add: atomic_subwarp_def mult.commute)
qed

lemma arch_13_atomic_sent:
  assumes wf: "warp_wf c w" and al: "aligned c w" and g: "i_space w = global_space"
    and even: "2 dvd cc_warp_size c"
  shows "\<exists>ms. memory_coalescing_arch_13_atomic c wr type w = Some (w\<lparr>w_accessq := w_accessq w @ ms\<rparr>) \<and>
    exactly wr type (i_data_size w) (warp_requests c w) ms"
proof -
  let ?z = "cc_warp_size c div 2"
  let ?R = "\<lambda>sub. \<Union>t \<in> {sub * ?z..<(sub + 1) * ?z}. set (lane_requests w t)"
  note parts = warp_parts [OF even zero_neq_numeral [symmetric]]
  have "\<exists>ms. (\<forall>q. atomic_subwarp wr type ?z w sub q = Some (q @ ms)) \<and>
      exactly wr type (i_data_size w) (?R sub) ms" if "sub \<in> set [0..<2]" for sub
    using atomic_subwarp_sent [OF wf al g parts(2)] that by simp
  then obtain mss
    where mss: "\<forall>q. foldM (atomic_subwarp wr type ?z w) [0..<2] q = Some (q @ concat mss)"
      and sent: "list_all2 (\<lambda>sub. exactly wr type (i_data_size w) (?R sub)) [0..<2] mss"
    using foldM_appends [of "[0..<2]" "atomic_subwarp wr type ?z w"
        "\<lambda>sub. exactly wr type (i_data_size w) (?R sub)"] by blast
  have "?R i \<inter> ?R j = {}" if "i \<noteq> j" for i j
  proof -
    have "{i * ?z..<(i + 1) * ?z} \<inter> {j * ?z..<(j + 1) * ?z} = {}"
    proof -
      have "t div ?z = i" if "t \<in> {i * ?z..<(i + 1) * ?z}" for i t
        using that by (intro div_nat_eqI) (auto simp: mult.commute)
      with \<open>i \<noteq> j\<close> show ?thesis by blast
    qed
    moreover have "fst r \<in> {i * ?z..<(i + 1) * ?z}" if "r \<in> ?R i" for i r
      using that fst_lane_requests by fastforce
    ultimately show ?thesis by blast
  qed
  from exactly_concat [OF sent distinct_upt this]
  have "exactly wr type (i_data_size w) (\<Union>sub \<in> set [0..<2]. ?R sub) (concat mss)" .
  also have "(\<Union>sub \<in> set [0..<2]. ?R sub) =
      (\<Union>t \<in> (\<Union>sub \<in> set [0..<2]. {sub * ?z..<(sub + 1) * ?z}). set (lane_requests w t))"
    by blast
  also have "\<dots> = warp_requests c w"
    unfolding parts(1) warp_requests_def ..
  finally show ?thesis
    using mss g by (auto simp: memory_coalescing_arch_13_atomic_def)
qed

subsection \<open>Cycles of a shared memory access\<close>

lemma omap_get_less:
  fixes m :: "('k::linorder \<times> 'v) list"
  assumes "\<forall>k' \<in> fst ` set m. k < k'"
  shows "omap_get d k m = d"
proof -
  have "k \<notin> fst ` set m" using assms by auto
  then have "map_of m k = None" by (simp add: map_of_eq_None_iff)
  then show ?thesis by (simp add: omap_get_def)
qed

lemma sum_omap_put:
  fixes h :: "'v \<Rightarrow> nat"
  assumes "sorted_wrt (<) (map fst m)" and "h d = 0"
  shows "sum_list (map (h \<circ> snd) (omap_put k v m)) + h (omap_get d k m) = sum_list (map (h \<circ> snd) m) + h v"
  using assms
proof (induction k v m rule: omap_put.induct)
  case (1 k v)
  then show ?case by simp
next
  case (2 k v k' v' m)
  show ?case
  proof (cases "k < k'")
    case True
    then have "omap_get d k ((k', v') # m) = d"
      using 2 by (intro omap_get_less) auto
    then show ?thesis using True 2 by simp
  next
    case False
    then show ?thesis
      using 2 by (cases "k = k'") (auto simp: omap_get_def)
  qed
qed

abbreviation accesses_of :: "(u64 \<times> nat) list \<Rightarrow> nat" where
  "accesses_of words \<equiv> sum_list (map snd words)"

text \<open>The table of the banks after \<open>n\<close> accesses.\<close>

definition banks_count :: "nat \<Rightarrow> bank_accs \<Rightarrow> bool" where
  "banks_count n accs \<longleftrightarrow> sorted_wrt (<) (map fst accs) \<and>
     sum_list (map (accesses_of \<circ> snd) accs) = n \<and>
     (\<forall>(b, words) \<in> set accs. words \<noteq> [] \<and> sorted_wrt (<) (map fst words) \<and> (\<forall>(u, k) \<in> set words. 0 < k))"

lemma set_omap_put: "set (omap_put k v m) \<subseteq> insert (k, v) (set m)"
  by (induction k v m rule: omap_put.induct) auto

lemma omap_get_in: "omap_get d k m = d \<or> (k, omap_get d k m) \<in> set m"
  by (auto simp: omap_get_def split: option.splits dest: map_of_SomeD)

lemma banks_count_put:
  fixes bank :: u32
  assumes "banks_count n accs"
  defines "words \<equiv> omap_get [] bank accs"
  shows "banks_count (Suc n) (omap_put bank (omap_put u (omap_get 0 u words + 1) words) accs)"
proof -
  have words: "sorted_wrt (<) (map fst words)" "\<forall>(u, k) \<in> set words. 0 < k"
    using omap_get_in [of "[]" bank accs] assms(1) by (auto simp: banks_count_def words_def)
  let ?new = "omap_put u (omap_get 0 u words + 1) words"
  have "accesses_of ?new = Suc (accesses_of words)"
    using sum_omap_put [OF words(1), of id 0 u "omap_get 0 u words + 1"] by simp
  moreover have "sum_list (map (accesses_of \<circ> snd) (omap_put bank ?new accs)) + accesses_of words = n + accesses_of ?new"
    using sum_omap_put [of accs accesses_of "[]" bank ?new] assms(1) by (simp add: banks_count_def words_def)
  ultimately have "sum_list (map (accesses_of \<circ> snd) (omap_put bank ?new accs)) = Suc n" by simp
  moreover have "u \<in> fst ` set ?new" by simp
  then have "?new \<noteq> []" by force
  have "\<forall>(u, k) \<in> set ?new. 0 < k"
    using words(2) set_omap_put [of u "omap_get 0 u words + 1" words] by fastforce
  with \<open>?new \<noteq> []\<close> words(1)
  have new: "?new \<noteq> [] \<and> sorted_wrt (<) (map fst ?new) \<and> (\<forall>(u, k) \<in> set ?new. 0 < k)"
    by (simp add: sorted_omap_put)
  have "\<forall>(b, words) \<in> insert (bank, ?new) (set accs). words \<noteq> [] \<and> sorted_wrt (<) (map fst words) \<and>
      (\<forall>(u, k) \<in> set words. 0 < k)"
    using assms(1) new by (simp add: banks_count_def)
  then have "\<forall>(b, words) \<in> set (omap_put bank ?new accs). words \<noteq> [] \<and> sorted_wrt (<) (map fst words) \<and>
      (\<forall>(u, k) \<in> set words. 0 < k)"
    using set_omap_put [of bank ?new accs] by (meson subsetD)
  ultimately show ?thesis
    using assms(1) by (simp add: banks_count_def sorted_omap_put)
qed

lemma banks_of_lanes:
  assumes wf: "warp_wf c w" and "cc_num_shmem_bank c \<noteq> 0"
    and "\<forall>t \<in> set ts. t < cc_warp_size c"
  shows "\<exists>accs. foldM (bank_thread c w) ts [] = Some accs \<and>
    banks_count (length (filter (\<lambda>t. bit (w_active_mask w) t) ts)) accs"
  using assms(3)
proof (induction ts rule: rev_induct)
  case Nil
  then show ?case by (simp add: banks_count_def)
next
  case (snoc t ts)
  then obtain accs where accs: "foldM (bank_thread c w) ts [] = Some accs"
      "banks_count (length (filter (\<lambda>t. bit (w_active_mask w) t) ts)) accs"
    by auto
  have "t < 32" and len: "t < length (w_memreqaddr w)" "0 < length (w_memreqaddr w ! t)"
    using wf snoc.prems by (auto simp: warp_wf_def MAX_ACCESSES_PER_INSN_PER_THREAD_def)
  then have act: "active w t = Some (bit (w_active_mask w) t)"
    by (simp add: active_def bitset_test_def)
  have "\<exists>accs'. bank_thread c w t accs = Some accs' \<and>
      banks_count (length (filter (\<lambda>t. bit (w_active_mask w) t) (ts @ [t]))) accs'"
    using act len assms(2) accs(2) banks_count_put [OF accs(2)]
    by (cases "bit (w_active_mask w) t") (simp_all add: bank_thread_def shmem_bank_func_def Let_def)
  then show ?case
    using accs(1) by (auto simp: foldM_append foldM_Nil)
qed

text \<open>Every bank of the table takes at least one cycle and at most one per access.\<close>

lemma bank_bounds:
  assumes "banks_count n accs" and "(b, words) \<in> set accs"
  shows "1 \<le> length words" and "length words \<le> accesses_of words" and "accesses_of words \<le> n"
proof -
  have words: "words \<noteq> []" "\<forall>(u, k) \<in> set words. 0 < k" and n: "sum_list (map (accesses_of \<circ> snd) accs) = n"
    using assms by (auto simp: banks_count_def)
  show "1 \<le> length words" using words(1) by (cases words) auto
  show "length words \<le> accesses_of words"
    using words(2) by (induction words) auto
  have "accesses_of words \<in> set (map (accesses_of \<circ> snd) accs)"
    using assms(2) by force
  then show "accesses_of words \<le> n"
    using member_le_sum_list n by blast
qed

lemma find_broadcast_count:
  "find_broadcast accs = Some (bank, u) \<Longrightarrow> \<exists>words k. (bank, words) \<in> set accs \<and> (u, k) \<in> set words \<and> 1 < k"
proof (induction accs)
  case (Cons x accs)
  obtain b words where x: "x = (b, words)" by (cases x)
  show ?case
  proof (cases "find (\<lambda>(u, n). 1 < n) words")
    case None
    with Cons show ?thesis by (auto simp: x)
  next
    case (Some p)
    then have "p \<in> set words \<and> (case p of (u, n) \<Rightarrow> 1 < n)"
      by (metis (mono_tags, lifting) find_Some_iff nth_mem)
    with Some Cons.prems show ?thesis by (cases p) (auto simp: x)
  qed
qed simp

text \<open>With limited broadcast: the bank of the broadcast saves all but one access to its word.\<close>

lemma bank_step_bounds:
  assumes acc: "banks_count n accs" and b: "(bank, words) \<in> set accs" and m: "m \<le> n"
  shows "\<exists>m'. bank_step (find_broadcast accs) (bank, words) m = Some m' \<and> m \<le> m' \<and> 1 \<le> m' \<and> m' \<le> n"
proof -
  have sum: "1 \<le> accesses_of words" "accesses_of words \<le> n"
    using bank_bounds [OF acc b] by simp_all
  have sorted: "sorted_wrt (<) (map fst accs)" "sorted_wrt (<) (map fst words)"
    using acc b by (auto simp: banks_count_def)
  have "1 < k \<and> k \<le> accesses_of words" if k: "map_of words u = Some k" and f: "find_broadcast accs = Some (bank, u)" for u k
  proof -
    have "(u, k) \<in> set words" using k by (rule map_of_SomeD)
    then have "k \<le> accesses_of words" by (force intro: member_le_sum_list)
    moreover obtain words' k' where "(bank, words') \<in> set accs" "(u, k') \<in> set words'" "1 < k'"
      using find_broadcast_count [OF f] by blast
    moreover from this have "words' = words" "k' = k"
      using b sorted k by (auto simp: sorted_map_of)
    ultimately show ?thesis by simp
  qed
  with sum m show ?thesis
    by (force simp: bank_step_def Let_def split: option.split)
qed

lemma limited_broadcast_bounds:
  assumes acc: "banks_count n accs"
  shows "\<exists>m. foldM (bank_step (find_broadcast accs)) accs 0 = Some m \<and> m \<le> n \<and> (0 < n \<longrightarrow> 0 < m)"
proof -
  let ?f = "bank_step (find_broadcast accs)"
  have "\<exists>m. foldM ?f bs m0 = Some m \<and> m \<le> n \<and> m0 \<le> m \<and> (bs \<noteq> [] \<longrightarrow> 1 \<le> m)"
    if "set bs \<subseteq> set accs" "m0 \<le> n" for bs m0
    using that
  proof (induction bs arbitrary: m0)
    case (Cons b bs)
    obtain bank words where b: "b = (bank, words)" by (cases b)
    obtain m1 where m1: "?f b m0 = Some m1" "m0 \<le> m1" "1 \<le> m1" "m1 \<le> n"
      using bank_step_bounds [OF acc _ Cons.prems(2), of bank words] Cons.prems(1) by (auto simp: b)
    obtain m where "foldM ?f bs m1 = Some m" "m \<le> n" "m1 \<le> m"
      using Cons.IH [OF _ m1(4)] Cons.prems(1) by auto
    with m1 show ?case by auto
  qed simp
  from this [OF subset_refl, of 0] show ?thesis
    using acc by (auto simp: banks_count_def)
qed

lemma full_broadcast_bounds:
  assumes acc: "banks_count n accs"
  shows "fold (\<lambda>(bank, words) m. max m (length words)) accs 0 \<le> n"
    and "0 < n \<longrightarrow> 0 < fold (\<lambda>(bank, words) m. max m (length words)) accs 0"
proof -
  let ?F = "\<lambda>bs m. fold (\<lambda>(bank, words) m. max m (length words)) bs (m::nat)"
  have up: "?F bs m \<le> n" if "set bs \<subseteq> set accs" "m \<le> n" for bs m
    using that
  proof (induction bs arbitrary: m)
    case (Cons b bs)
    obtain bank words where b: "b = (bank, words)" by (cases b)
    have "length words \<le> n"
      using bank_bounds [OF acc, of bank words] Cons.prems(1) by (simp add: b)
    then show ?case using Cons by (simp add: b)
  qed simp
  show "?F accs 0 \<le> n" by (rule up) simp_all
  have low: "m \<le> ?F bs m" for bs and m :: nat
    by (induction bs arbitrary: m) (auto intro: order.trans [OF max.cobounded1])
  show "0 < n \<longrightarrow> 0 < ?F accs 0"
  proof
    assume "0 < n"
    then obtain bank words bs where a: "accs = (bank, words) # bs"
      using acc by (cases accs) (auto simp: banks_count_def)
    have "0 < length words" using bank_bounds(1) [OF acc, of bank words] by (simp add: a Suc_le_eq del: length_greater_0_conv)
    then show "0 < ?F accs 0"
      using less_le_trans [OF _ low [of "length words" bs]] by (simp add: a)
  qed
qed

lemma shared_subwarp_bounds:
  assumes wf: "warp_wf c w" and "cc_num_shmem_bank c \<noteq> 0" and sub: "(sub + 1) * sz \<le> cc_warp_size c"
  defines "k \<equiv> length (filter (\<lambda>t. bit (w_active_mask w) t) [sub * sz..<(sub + 1) * sz])"
  shows "\<exists>m. (\<forall>total. shared_subwarp c sz w sub total = Some (total + m)) \<and> m \<le> k \<and> (0 < k \<longrightarrow> 0 < m)"
proof -
  have "\<forall>t \<in> set [sub * sz..<(sub + 1) * sz]. t < cc_warp_size c" using sub by auto
  then obtain accs where accs: "foldM (bank_thread c w) [sub * sz..<(sub + 1) * sz] [] = Some accs"
      "banks_count k accs"
    using banks_of_lanes [OF wf assms(2)] unfolding k_def by blast
  show ?thesis
  proof (cases "cc_shmem_limited_broadcast c")
    case True
    then show ?thesis
      using accs(1) limited_broadcast_bounds [OF accs(2)] by (auto simp: shared_subwarp_def)
  next
    case False
    then show ?thesis
      using accs(1) full_broadcast_bounds [OF accs(2)] by (auto simp: shared_subwarp_def)
  qed
qed

definition active_lanes :: "core_config \<Rightarrow> warp_mem_inst \<Rightarrow> nat list" where
  "active_lanes c w = filter (\<lambda>t. bit (w_active_mask w) t) [0..<cc_warp_size c]"

lemma shared_subwarps_bounds:
  assumes wf: "warp_wf c w" and banks: "cc_num_shmem_bank c \<noteq> 0" and "p * sz \<le> cc_warp_size c"
  defines "k \<equiv> \<lambda>n. length (filter (\<lambda>t. bit (w_active_mask w) t) [0..<n])"
  shows "\<exists>m. foldM (shared_subwarp c sz w) [0..<p] 0 = Some m \<and> m \<le> k (p * sz) \<and> (0 < k (p * sz) \<longrightarrow> 0 < m)"
  using assms(3)
proof (induction p)
  case (Suc p)
  then obtain m where m: "foldM (shared_subwarp c sz w) [0..<p] 0 = Some m" "m \<le> k (p * sz)"
      "0 < k (p * sz) \<longrightarrow> 0 < m"
    by auto
  let ?k = "length (filter (\<lambda>t. bit (w_active_mask w) t) [p * sz..<(p + 1) * sz])"
  have "[0..<Suc p * sz] = [0..<p * sz] @ [p * sz..<(p + 1) * sz]"
    using upt_add_eq_append [of 0 "p * sz" sz] by (simp add: add.commute)
  then have k: "k (Suc p * sz) = k (p * sz) + ?k" by (simp add: k_def)
  obtain m' where "\<forall>total. shared_subwarp c sz w p total = Some (total + m')" "m' \<le> ?k" "0 < ?k \<longrightarrow> 0 < m'"
    using shared_subwarp_bounds [OF wf banks, of p sz] Suc.prems by auto
  with m show ?case
    unfolding k by (auto simp: foldM_append foldM_Nil)
qed (simp add: k_def)

lemma mem_ready_active:
  assumes "mem_ready w" and "warp_wf c w"
  shows "0 < length (active_lanes c w)" and "length (active_lanes c w) \<le> cc_warp_size c"
proof -
  from assms(1) have "w_active_mask w \<noteq> 0" by (simp add: mem_ready_def)
  then obtain t where "t < 32" "bit (w_active_mask w) t" by (auto simp: bit_eq_iff)
  with assms(2) have "t \<in> set (active_lanes c w)" by (simp add: active_lanes_def warp_wf_def)
  then show "0 < length (active_lanes c w)" by (rule length_pos_if_in_set)
  show "length (active_lanes c w) \<le> cc_warp_size c"
    using length_filter_le [of _ "[0..<cc_warp_size c]"] by (simp add: active_lanes_def)
qed

text \<open>
  Property C14: a load or store of global or local memory that is not atomic never aborts the
  simulation if its addresses are naturally aligned. It appends accesses of its own type and
  direction to the queue of the instruction such that every piece of every active lane is served by
  an access that holds all its bytes, names its lane and marks its bytes; every access
  is an aligned block of 32, 64 or 128 bytes, marks only lanes and bytes of pieces it serves, and
  is larger than 32 bytes only if both of its halves are needed. Addresses count
  modulo \<open>2^32\<close>, to which the block addresses are truncated.
\<close>

theorem coalesced_accesses_cover:
  assumes "mem_ready w" and "warp_wf c w" and "aligned c w" and "cc_coalesce_arch c = 13"
    and "i_space w \<in> {global_space, local_space, param_space_local}" and "\<not> w_isatomic w"
    and "cc_mem_warp_parts c \<noteq> 0" and "cc_mem_warp_parts c dvd cc_warp_size c"
  shows "\<exists>ms. generate_mem_accesses c w =
      Some (w\<lparr>w_accessq := w_accessq w @ ms, w_mem_accesses_created := True\<rparr>) \<and>
    sent_for (is_write w) (access_type_of (i_space w) (is_write w)) (piece_bytes w) (warp_requests c w) ms"
proof -
  have "w_per_scalar_thread_valid w" using assms(2) by (simp add: warp_wf_def)
  from generate_global_or_local [OF assms(1) this assms(4,5)] assms(6) show ?thesis
    using arch_13_sent [OF assms(2,3,7,8), of "is_write w" "access_type_of (i_space w) (is_write w)"] by auto
qed

text \<open>
  The accesses of an atomic serve every active lane in exactly one access (the lanes
  of different accesses are disjoint), and within an access the lanes touch
  pairwise different bytes, so atomics on one word are never merged.
\<close>

theorem atomics_never_merge:
  assumes "mem_ready w" and "warp_wf c w" and "aligned c w" and "cc_coalesce_arch c = 13"
    and "i_space w = global_space" and "w_isatomic w" and "2 dvd cc_warp_size c"
  shows "\<exists>ms. generate_mem_accesses c w =
      Some (w\<lparr>w_accessq := w_accessq w @ ms, w_mem_accesses_created := True\<rparr>) \<and>
    sent_for (is_write w) (access_type_of (i_space w) (is_write w)) (i_data_size w) (warp_requests c w) ms \<and>
    sorted_wrt (\<lambda>m m'. \<forall>t. \<not> (bit (ma_warp_mask m) t \<and> bit (ma_warp_mask m') t)) ms \<and>
    (\<forall>m \<in> set ms. apart (i_data_size w) {r \<in> warp_requests c w. bit (ma_warp_mask m) (fst r)})"
proof -
  have "w_per_scalar_thread_valid w" using assms(2) by (simp add: warp_wf_def)
  note generate = generate_global_or_local [OF assms(1) this assms(4)]
  have "inj_on fst (warp_requests c w)"
    using assms(5) by (auto simp: inj_on_def warp_requests_def lane_requests_def piece_count_def
        coalesce_pieces_def split: if_splits)
  then show ?thesis
    using generate assms(5,6) exactly_sent_for exactly_disjoint
      arch_13_atomic_sent [OF assms(2,3,5,7), of "is_write w" "access_type_of (i_space w) (is_write w)"]
    by fastforce
qed

text \<open>
  A load or store of shared memory never fails its assertions, and its initiation
  interval becomes at least one cycle and at most the number of its active lanes, with and without
  limited broadcast.
\<close>

theorem shared_cycles_bounded:
  assumes "mem_ready w" and "warp_wf c w" and "i_space w = shared_space" and "cc_num_shmem_bank c \<noteq> 0"
    and "cc_mem_warp_parts c \<noteq> 0" and "cc_mem_warp_parts c dvd cc_warp_size c"
  shows "\<exists>n. generate_mem_accesses c w = Some (w\<lparr>w_cycles := n, w_mem_accesses_created := True\<rparr>) \<and>
    1 \<le> n \<and> n \<le> length (active_lanes c w)"
proof -
  let ?p = "cc_mem_warp_parts c"
  have "?p * (cc_warp_size c div ?p) = cc_warp_size c"
    using assms(6) by simp
  then obtain m where m: "foldM (shared_subwarp c (cc_warp_size c div ?p) w) [0..<?p] 0 = Some m"
      "m \<le> length (active_lanes c w)" "0 < length (active_lanes c w) \<longrightarrow> 0 < m"
    using shared_subwarps_bounds [OF assms(2,4), of ?p "cc_warp_size c div ?p"] by (auto simp: active_lanes_def)
  then have "0 < m" "m \<le> cc_warp_size c"
    using mem_ready_active [OF assms(1,2)] by simp_all
  then have "shared_accesses c w = Some (w\<lparr>w_cycles := m\<rparr>)"
    using m(1) assms(5) by (simp add: shared_accesses_def)
  then have "generate_mem_accesses c w = Some (w\<lparr>w_cycles := m, w_mem_accesses_created := True\<rparr>)"
    using assms(1-3) ready_load_or_store [OF assms(1)]
    by (auto simp: generate_mem_accesses_def Let_def mem_ready_def warp_wf_def)
  with m(2) \<open>0 < m\<close> show ?thesis by auto
qed

subsection \<open>Witnesses\<close>

text \<open>A warp of four lanes in two parts; one lane is inactive.\<close>

definition demo_core :: core_config where
  "demo_core = \<lparr>cc_warp_size = 4, cc_coalesce_arch = 13, cc_shmem_limited_broadcast = False,
     cc_num_shmem_bank = 16, cc_mem_warp_parts = 2, cc_cache_texl1_linesize = 128,
     cc_cache_constl1_linesize = 64\<rparr>"

definition demo_access :: "memory_space_t \<Rightarrow> bool \<Rightarrow> u64 list \<Rightarrow> warp_mem_inst" where
  "demo_access space atom addrs =
     \<lparr>i_pc = 0x100, i_isize = 8, i_op = LOAD_OP, i_memory_op = no_memory_op, i_out = [1, 0, 0, 0],
      i_in = [2, 0, 0, 0], i_pred = 0, i_ar1 = 0, i_ar2 = 0, i_space = space, i_data_size = 4,
      i_warp_id = 0, w_isatomic = atom, w_empty = False, w_mem_accesses_created = False,
      w_active_mask = 7, w_per_scalar_thread_valid = True,
      w_memreqaddr = map (\<lambda>a. [a, 0, 0, 0, 0, 0, 0, 0]) addrs, w_accessq = [], w_cycles = 1\<rparr>"

abbreviation demo_load :: warp_mem_inst where
  "demo_load \<equiv> demo_access global_space False [0x1000, 0x1044, 0x2020, 0]"

abbreviation demo_atomic :: warp_mem_inst where
  "demo_atomic \<equiv> demo_access global_space True [0x1000, 0x1000, 0x2020, 0]"

abbreviation demo_shared :: warp_mem_inst where
  "demo_shared \<equiv> demo_access shared_space False [0x1000, 0x1040, 0x1040, 0]"

lemma demo_hyps:
  "mem_ready (demo_access space atom addrs)"
  "length addrs = 4 \<Longrightarrow> warp_wf demo_core (demo_access space atom addrs)"
proof -
  show "mem_ready (demo_access space atom addrs)"
    by (simp add: mem_ready_def demo_access_def)
  have "t < 4" if "bit (7 :: u32) t" for t
    using that by (cases "t < 4") (auto simp: not_less bit_numeral_rec(2) dest!: bit_imp_le_length le_Suc_ex)
  then show "length addrs = 4 \<Longrightarrow> warp_wf demo_core (demo_access space atom addrs)"
    by (auto simp: warp_wf_def demo_access_def demo_core_def MAX_ACCESSES_PER_INSN_PER_THREAD_def)
qed

lemma demo_aligned: "aligned demo_core demo_load" "aligned demo_core demo_atomic"
  by (simp_all add: aligned_def coalescable_def demo_core_def demo_access_def piece_count_def
      piece_bytes_def coalesce_pieces_def all_less_4 nth_Cons')

lemma demo_fields [simp]:
  "i_space (demo_access space atom addrs) = space" "w_isatomic (demo_access space atom addrs) = atom"
  "w_accessq (demo_access space atom addrs) = []" "i_data_size (demo_access space atom addrs) = 4"
  "is_write (demo_access space atom addrs) = False"
  "cc_coalesce_arch demo_core = 13" "cc_warp_size demo_core = 4" "cc_mem_warp_parts demo_core = 2"
  "cc_num_shmem_bank demo_core = 16"
  by (simp_all add: demo_access_def demo_core_def is_store_def inst_t.defs)

theorem coalesced_accesses_cover_witness:
  "(\<exists>ms. generate_mem_accesses demo_core demo_load =
      Some (demo_load\<lparr>w_accessq := ms, w_mem_accesses_created := True\<rparr>) \<and>
    sent_for False GLOBAL_ACC_R 4 (warp_requests demo_core demo_load) ms) \<and>
   map_option (\<lambda>w. map (\<lambda>m. (ma_addr m, ma_req_size m, ma_warp_mask m)) (w_accessq w))
     (generate_mem_accesses demo_core demo_load) =
     Some [(0x1000, 128, 3), (0x2020, 32, 4)]"
proof
  have "piece_bytes demo_load = 4" "access_type_of global_space False = GLOBAL_ACC_R"
    by (simp_all add: piece_bytes_def coalesce_pieces_def access_type_of_def)
  then show "\<exists>ms. generate_mem_accesses demo_core demo_load =
      Some (demo_load\<lparr>w_accessq := ms, w_mem_accesses_created := True\<rparr>) \<and>
    sent_for False GLOBAL_ACC_R 4 (warp_requests demo_core demo_load) ms"
    using coalesced_accesses_cover [of demo_load demo_core] demo_hyps demo_aligned(1) by simp
qed code_simp

theorem atomics_never_merge_witness:
  "(\<exists>ms. generate_mem_accesses demo_core demo_atomic =
      Some (demo_atomic\<lparr>w_accessq := ms, w_mem_accesses_created := True\<rparr>) \<and>
    sorted_wrt (\<lambda>m m'. \<forall>t. \<not> (bit (ma_warp_mask m) t \<and> bit (ma_warp_mask m') t)) ms) \<and>
   map_option (\<lambda>w. map (\<lambda>m. (ma_addr m, ma_req_size m, ma_warp_mask m)) (w_accessq w))
     (generate_mem_accesses demo_core demo_atomic) =
     Some [(0x1000, 32, 1), (0x1000, 32, 2), (0x2020, 32, 4)]"
proof
  show "\<exists>ms. generate_mem_accesses demo_core demo_atomic =
      Some (demo_atomic\<lparr>w_accessq := ms, w_mem_accesses_created := True\<rparr>) \<and>
    sorted_wrt (\<lambda>m m'. \<forall>t. \<not> (bit (ma_warp_mask m) t \<and> bit (ma_warp_mask m') t)) ms"
    using atomics_never_merge [of demo_atomic demo_core] demo_hyps demo_aligned(2) by auto
qed code_simp

theorem shared_cycles_bounded_witness:
  "(\<exists>n. generate_mem_accesses demo_core demo_shared =
      Some (demo_shared\<lparr>w_cycles := n, w_mem_accesses_created := True\<rparr>) \<and>
    1 \<le> n \<and> n \<le> length (active_lanes demo_core demo_shared)) \<and>
   map_option w_cycles (generate_mem_accesses demo_core demo_shared) = Some 3"
proof
  show "\<exists>n. generate_mem_accesses demo_core demo_shared =
      Some (demo_shared\<lparr>w_cycles := n, w_mem_accesses_created := True\<rparr>) \<and>
    1 \<le> n \<and> n \<le> length (active_lanes demo_core demo_shared)"
    using shared_cycles_bounded [of demo_shared demo_core] demo_hyps by simp
qed code_simp

end
