(* ===== verification/Frfcfs.thy ===== *)
theory Frfcfs
  imports Dram
begin

text \<open>
  What the first-ready first-come-first-served scheduler of \<open>dram_sched.cc\<close> promises:
  its bins are the queue of the bank sorted by row, a request is served from the row
  that is being served, else from the open row, else from the row of the oldest request, and within a
  row in the order of arrival.
\<close>

definition row_of :: "(nat \<Rightarrow> dram_req option) \<Rightarrow> nat \<Rightarrow> u32" where
  "row_of rq r = dr_row (the (rq r))"

definition in_row :: "(nat \<Rightarrow> dram_req option) \<Rightarrow> u32 \<Rightarrow> nat list \<Rightarrow> nat list" where
  "in_row rq line rs = filter (\<lambda>r. row_of rq r = line) rs"

text \<open>The bins of a bank, and the whole scheduler.\<close>

definition bank_sched_ok :: "(nat \<Rightarrow> dram_req option) \<Rightarrow> nat list \<Rightarrow> (u32 \<Rightarrow> nat list option) \<Rightarrow> u32 option \<Rightarrow> bool" where
  "bank_sched_ok rq queue bins last_line \<longleftrightarrow> distinct queue \<and> (\<forall>r\<in>set queue. rq r \<noteq> None) \<and>
     (\<forall>line. bins line = (if in_row rq line queue = [] then None else Some (in_row rq line queue))) \<and>
     (\<forall>line. last_line = Some line \<longrightarrow> in_row rq line queue \<noteq> [])"

definition sched_ok :: "(nat \<Rightarrow> dram_req option) \<Rightarrow> nat \<Rightarrow> frfcfs_scheduler \<Rightarrow> bool" where
  "sched_ok rq n s \<longleftrightarrow> length (m_queue s) = n \<and> length (m_bins s) = n \<and> length (m_last_row s) = n \<and>
     length (curr_row_service_time s) = n \<and> length (row_service_timestamp s) = n \<and>
     unat (m_num_pending s) = sum_list (map length (m_queue s)) \<and>
     (\<forall>b<n. bank_sched_ok rq (m_queue s ! b) (m_bins s ! b) (m_last_row s ! b))"

text \<open>The specification of the choice: the row to serve, and its oldest request.\<close>

definition serve_row :: "(nat \<Rightarrow> dram_req option) \<Rightarrow> nat list \<Rightarrow> u32 option \<Rightarrow> u32 \<Rightarrow> u32" where
  "serve_row rq queue last_line cur = (case last_line of Some line \<Rightarrow> line
     | None \<Rightarrow> if in_row rq cur queue \<noteq> [] then cur else row_of rq (last queue))"

lemma in_row_simps [simp]:
  "in_row rq line [] = []"
  "in_row rq line (r # rs) = (if row_of rq r = line then r # in_row rq line rs else in_row rq line rs)"
  "set (in_row rq line rs) = {r \<in> set rs. row_of rq r = line}"
  by (simp_all add: in_row_def)

lemma in_row_last: "rs \<noteq> [] \<Longrightarrow> in_row rq (row_of rq (last rs)) rs \<noteq> []"
  by (auto simp: in_row_def filter_empty_conv intro!: bexI [of _ "last rs"])

lemma in_row_remove1:
  "distinct rs \<Longrightarrow> in_row rq line (remove1 r rs) = remove1 r (in_row rq line rs)"
  by (induction rs) (auto simp: in_row_def filter_id_conv remove1_idem)

lemma remove1_last: "distinct xs \<Longrightarrow> xs \<noteq> [] \<Longrightarrow> remove1 (last xs) xs = butlast xs"
  by (induction xs) auto

lemma frfcfs_new_ok: "sched_ok rq (nbk c) (frfcfs_new c)"
  by (simp add: sched_ok_def frfcfs_new_def bank_sched_ok_def sum_list_replicate)

text \<open>A new request is the newest of its bank and of its row.\<close>

lemma add_req_ok:
  assumes ok: "sched_ok rq n s" and req: "rq r = Some req" and b: "unat (dr_bk req) < n"
    and new: "r \<notin> set (m_queue s ! unat (dr_bk req))"
    and small: "Suc (sum_list (map length (m_queue s))) < 2 ^ 32"
  obtains s' where "add_req r req s = Some s'" and "sched_ok rq n s'"
    and "m_queue s' = (m_queue s)[unat (dr_bk req) := r # m_queue s ! unat (dr_bk req)]"
proof -
  let ?b = "unat (dr_bk req)"
  let ?q = "m_queue s ! ?b"
  have bank: "bank_sched_ok rq ?q (m_bins s ! ?b) (m_last_row s ! ?b)"
    and len: "?b < length (m_queue s)" "?b < length (m_bins s)"
    using ok b by (auto simp: sched_ok_def)
  have row: "row_of rq r = dr_row req" by (simp add: row_of_def req)
  let ?bins = "(m_bins s ! ?b)(dr_row req \<mapsto> r # in_row rq (dr_row req) ?q)"
  have bin: "(case (m_bins s ! ?b) (dr_row req) of None \<Rightarrow> [] | Some rs \<Rightarrow> rs) = in_row rq (dr_row req) ?q"
    using bank by (simp add: bank_sched_ok_def)
  let ?s = "s\<lparr>m_num_pending := m_num_pending s + 1, m_queue := (m_queue s)[?b := r # ?q], m_bins := (m_bins s)[?b := ?bins]\<rparr>"
  have "add_req r req s = Some ?s"
    using len by (simp add: add_req_def Let_def bin)
  moreover have "bank_sched_ok rq (r # ?q) ?bins (m_last_row s ! ?b)"
    using bank new req row by (auto simp: bank_sched_ok_def)
  moreover have "unat (m_num_pending s + 1) = Suc (sum_list (map length (m_queue s)))"
    using ok small by (simp add: sched_ok_def unat_word_ariths)
  moreover have "sum_list (map length ((m_queue s)[?b := r # ?q])) = Suc (sum_list (map length (m_queue s)))"
    using len by (simp add: map_update sum_list_update)
  ultimately have "sched_ok rq n ?s"
    using ok len by (auto simp: sched_ok_def nth_list_update)
  with \<open>add_req r req s = Some ?s\<close> that show ?thesis by auto
qed

text \<open>The choice of the row, then of the request.\<close>

lemma serve_row_nonempty:
  "bank_sched_ok rq queue bins last_line \<Longrightarrow> queue \<noteq> [] \<Longrightarrow> in_row rq (serve_row rq queue last_line cur) queue \<noteq> []"
  by (auto simp: bank_sched_ok_def serve_row_def in_row_last split: option.split)

lemma schedule_row_ok:
  assumes ok: "sched_ok rq n s" and b: "b < n" and ne: "m_queue s ! b \<noteq> []"
  obtains s' where "schedule_row sim rq b cur s = Some (Some (serve_row rq (m_queue s ! b) (m_last_row s ! b) cur), s')"
    and "sched_ok rq n s'" and "m_queue s' = m_queue s" and "m_bins s' = m_bins s" and "m_num_pending s' = m_num_pending s"
    and "m_last_row s' = (m_last_row s)[b := Some (serve_row rq (m_queue s ! b) (m_last_row s ! b) cur)]"
proof -
  let ?q = "m_queue s ! b" and ?bins = "m_bins s ! b"
  let ?line = "serve_row rq ?q (m_last_row s ! b) cur"
  have bank: "bank_sched_ok rq ?q ?bins (m_last_row s ! b)"
    and len: "b < length (m_queue s)" "b < length (m_bins s)" "b < length (m_last_row s)"
      "b < length (curr_row_service_time s)" "b < length (row_service_timestamp s)"
    using ok b by (auto simp: sched_ok_def)
  have bins: "?bins line = (if in_row rq line ?q = [] then None else Some (in_row rq line ?q))" for line
    using bank by (simp add: bank_sched_ok_def)
  let ?s = "s\<lparr>m_last_row := (m_last_row s)[b := Some ?line]\<rparr>"
  have keep: "sched_ok rq n (s\<lparr>m_last_row := (m_last_row s)[b := Some ?line], curr_row_service_time := t, row_service_timestamp := ts\<rparr>)"
    if "length t = n" "length ts = n" for t ts
  proof -
    have "bank_sched_ok rq ?q ?bins (Some ?line)"
      using bank serve_row_nonempty [OF bank ne] by (simp add: bank_sched_ok_def)
    with ok that len(3) have "\<forall>i<n. bank_sched_ok rq (m_queue s ! i) (m_bins s ! i) ((m_last_row s)[b := Some ?line] ! i)"
      by (simp add: sched_ok_def nth_list_update)
    with ok that show ?thesis by (simp add: sched_ok_def)
  qed
  show thesis
  proof (cases "m_last_row s ! b")
    case (Some line)
    then have "?line = line" "(m_last_row s)[b := Some line] = m_last_row s"
      by (simp_all add: serve_row_def) (metis list_update_id)
    with Some ok len that [of s] show thesis by (simp add: schedule_row_def)
  next
    case None
    show thesis
    proof (cases "in_row rq cur ?q = []")
      case False
      with None have "?line = cur" by (simp add: serve_row_def)
      with None False len ne bins have "schedule_row sim rq b cur s = Some (Some ?line, ?s)"
        by (simp add: schedule_row_def)
      with keep [of "curr_row_service_time s" "row_service_timestamp s"] ok that [of ?s] show thesis
        by (simp add: sched_ok_def)
    next
      case True
      obtain req where req: "rq (last ?q) = Some req"
        using bank ne by (fastforce simp: bank_sched_ok_def)
      with None True have line: "?line = dr_row req" by (simp add: serve_row_def row_of_def)
      have "?bins (dr_row req) \<noteq> None"
        using serve_row_nonempty [OF bank ne, of cur] bins by (simp add: line)
      let ?s' = "?s\<lparr>curr_row_service_time := (curr_row_service_time s)[b := 0],
        row_service_timestamp := (row_service_timestamp s)[b := ucast sim]\<rparr>"
      have "schedule_row sim rq b cur s = Some (Some ?line, ?s')"
        using None True len ne bins [of cur] req line \<open>?bins (dr_row req) \<noteq> None\<close>
        by (simp add: schedule_row_def data_collection_def)
      with keep [of "(curr_row_service_time s)[b := 0]" "(row_service_timestamp s)[b := ucast sim]"] ok that [of ?s']
      show thesis by (simp add: sched_ok_def)
    qed
  qed
qed

lemma schedule_empty:
  assumes "sched_ok rq n s" and "b < n" and "m_queue s ! b = []"
  shows "schedule sim rq b cur s = Some (None, s)"
proof -
  have "bank_sched_ok rq [] (m_bins s ! b) (m_last_row s ! b)" "b < length (m_queue s)" "b < length (m_last_row s)"
    using assms by (auto simp: sched_ok_def)
  then show ?thesis
    using assms(3) by (cases "m_last_row s ! b") (auto simp: schedule_def schedule_row_def bank_sched_ok_def)
qed

lemma sum_length_remove:
  assumes "b < length qs" and "r \<in> set (qs ! b)"
  shows "Suc (sum_list (map length (qs[b := remove1 r (qs ! b)]))) = sum_list (map length qs)"
proof -
  obtain m where m: "length (qs ! b) = Suc m" using assms(2) by (cases "qs ! b") auto
  have "Suc m \<le> sum_list (map length qs)" using assms(1) by (simp add: member_le_sum_list flip: m)
  with assms m show ?thesis by (simp add: map_update sum_list_update length_remove1)
qed

lemma schedule_pick:
  assumes ok: "sched_ok rq n s" and b: "b < n" and ne: "m_queue s ! b \<noteq> []"
    and line: "line = serve_row rq (m_queue s ! b) (m_last_row s ! b) cur"
    and r: "r = last (in_row rq line (m_queue s ! b))"
  obtains s' where "schedule sim rq b cur s = Some (Some r, s')" and "sched_ok rq n s'"
    and "m_queue s' = (m_queue s)[b := remove1 r (m_queue s ! b)]"
    and "m_last_row s' = (m_last_row s)[b := if in_row rq line (remove1 r (m_queue s ! b)) = [] then None else Some line]"
proof -
  let ?q = "m_queue s ! b" and ?bins = "m_bins s ! b"
  have bank: "bank_sched_ok rq ?q ?bins (m_last_row s ! b)"
    and len: "b < length (m_queue s)" "b < length (m_bins s)" "b < length (m_last_row s)"
    using ok b by (auto simp: sched_ok_def)
  obtain s1 where s1: "schedule_row sim rq b cur s = Some (Some line, s1)" and ok1: "sched_ok rq n s1"
    and frame: "m_queue s1 = m_queue s" "m_bins s1 = m_bins s" "m_num_pending s1 = m_num_pending s"
      "m_last_row s1 = (m_last_row s)[b := Some line]"
    using schedule_row_ok [OF ok b ne] unfolding line by metis
  let ?bin = "in_row rq line ?q"
  have bin: "?bin \<noteq> []" using serve_row_nonempty [OF bank ne] by (simp add: line)
  then have "r \<in> set ?bin" unfolding r by (rule last_in_set)
  then have mem: "r \<in> set ?q" and row: "row_of rq r = line" by auto
  obtain req where req: "rq r = Some req" using bank mem by (auto simp: bank_sched_ok_def)
  have "distinct ?q" using bank by (simp add: bank_sched_ok_def)
  then have "distinct ?bin" by (simp add: in_row_def)
  have bl: "butlast ?bin = in_row rq line (remove1 r ?q)"
    unfolding in_row_remove1 [OF \<open>distinct ?q\<close>] r remove1_last [OF \<open>distinct ?bin\<close> bin] ..
  let ?done = "in_row rq line (remove1 r ?q) = []"
  let ?bins' = "?bins(line := if ?done then None else Some (in_row rq line (remove1 r ?q)))"
  let ?last = "if ?done then None else Some line"
  have un: "unat (m_num_pending s) = Suc (sum_list (map length ((m_queue s)[b := remove1 r ?q])))"
    using ok sum_length_remove [OF len(1) mem] by (simp add: sched_ok_def)
  then have pend: "m_num_pending s \<noteq> 0" by (metis nat.distinct(1) unsigned_0)
  then have sum: "unat (m_num_pending s - 1) = sum_list (map length ((m_queue s)[b := remove1 r ?q]))"
    using un by (simp add: unat_minus_one)
  let ?s = "s1\<lparr>m_queue := (m_queue s)[b := remove1 r ?q], m_bins := (m_bins s)[b := ?bins'],
    m_last_row := (m_last_row s)[b := ?last], m_num_pending := m_num_pending s - 1\<rparr>"
  have line': "dr_row req = line" using row req by (simp add: row_of_def)
  have sched: "schedule sim rq b cur s = Some (Some r, ?s)"
    using len bin bank req pend line' r unfolding schedule_def s1
    by (simp add: frame bl Let_def bank_sched_ok_def)
  have other: "in_row rq l (remove1 r ?q) = in_row rq l ?q" if "l \<noteq> line" for l
    using that row \<open>distinct ?q\<close> by (simp add: in_row_remove1 remove1_idem)
  have "bank_sched_ok rq (remove1 r ?q) ?bins' ?last"
    using bank other set_remove1_subset [of r ?q] by (auto simp: bank_sched_ok_def)
  with ok1 len sum have "sched_ok rq n ?s"
    by (auto simp: sched_ok_def frame nth_list_update)
  with sched that [of ?s] show thesis by simp
qed

text \<open>
  Property C33 (functional): for a bank with requests, \<open>schedule\<close> answers the oldest
  request of the row being served, else of the open row, else of the row of the oldest request; it leaves
  the queue and its bin, the row stays in service while it has requests, and the bins stay
  the queue sorted by row. For a bank without requests nothing changes.
\<close>

theorem frfcfs_first_ready:
  assumes "sched_ok rq n s" and "b < n"
  shows "if m_queue s ! b = [] then schedule sim rq b cur s = Some (None, s)
    else (let line = serve_row rq (m_queue s ! b) (m_last_row s ! b) cur;
              r = last (in_row rq line (m_queue s ! b));
              rest = remove1 r (m_queue s ! b)
          in \<exists>s'. schedule sim rq b cur s = Some (Some r, s') \<and> sched_ok rq n s' \<and> r \<in> set (m_queue s ! b) \<and>
            m_queue s' = (m_queue s)[b := rest] \<and>
            m_last_row s' = (m_last_row s)[b := if in_row rq line rest = [] then None else Some line])"
proof (cases "m_queue s ! b = []")
  case True
  with assms schedule_empty show ?thesis by simp
next
  case False
  have "bank_sched_ok rq (m_queue s ! b) (m_bins s ! b) (m_last_row s ! b)" using assms by (simp add: sched_ok_def)
  from last_in_set [OF serve_row_nonempty [OF this False, of cur]]
  have "last (in_row rq (serve_row rq (m_queue s ! b) (m_last_row s ! b) cur) (m_queue s ! b)) \<in> set (m_queue s ! b)"
    by simp
  with schedule_pick [OF assms False refl refl] False show ?thesis
    unfolding Let_def by (metis (no_types, lifting))
qed

subsection \<open>A scheduler at work\<close>

definition demo_reqs :: "nat \<Rightarrow> dram_req option" where
  "demo_reqs r = (if r < 3 then Some \<lparr>dr_row = (if r = 1 then 9 else 7), dr_col = 0, dr_bk = 0, dr_nbytes = 32,
     dr_txbytes = 0, dr_dqbytes = 0, dr_timestamp = 0, dr_write = False, dr_addr = 0, dr_insertion_time = 0,
     dr_data = r\<rparr> else None)"

definition demo_sched :: frfcfs_scheduler where
  "demo_sched = \<lparr>m_num_pending = 3, m_queue = [[2, 1, 0]], m_bins = [Map.empty(7 \<mapsto> [2, 0], 9 \<mapsto> [1])],
     m_last_row = [None], curr_row_service_time = [0], row_service_timestamp = [0]\<rparr>"

lemma demo_sched_ok: "sched_ok demo_reqs 1 demo_sched"
  by (simp add: sched_ok_def demo_sched_def bank_sched_ok_def demo_reqs_def in_row_def row_of_def)

text \<open>The open row 9 goes before the older request of row 7.\<close>

theorem frfcfs_first_ready_witness:
  "\<exists>s'. schedule 5 demo_reqs 0 9 demo_sched = Some (Some 1, s') \<and> m_queue s' = [[2, 0]] \<and> m_last_row s' = [None]"
  using frfcfs_first_ready [OF demo_sched_ok, of 0 5 9]
  by (auto simp: demo_sched_def demo_reqs_def serve_row_def in_row_def row_of_def Let_def)

end
