(* ===== verification/Memory_Space.thy ===== *)
theory Memory_Space
  imports Sim_Prelude
begin

unbundle bit_operations_syntax

text \<open>
  The sparse memories of the functional simulator: \<open>mem_storage\<close> and \<open>memory_space_impl\<close>
  (\<open>cuda-sim/memory.h\<close>, \<open>memory.cc\<close>). The block size, a template parameter, is the first field. An
  address has 32 bits and a length 64, and the arithmetic is written in the width C++ gives it. The
  hash map of the blocks is a map, \<open>hit_watchpoint\<close> is the list of the watchpoints
  that are hit. A read can end in the exception \<open>throw 1\<close> of \<open>read_single_block\<close>, and both
  directions in the assertion of \<open>mem_storage\<close>.
\<close>

type_synonym u8 = "8 word"

datatype mem_error = Thrown | Assertion

type_synonym 'a mem_result = "mem_error + 'a"

fun mem_bind :: "'a mem_result \<Rightarrow> ('a \<Rightarrow> 'b mem_result) \<Rightarrow> 'b mem_result" where
  "mem_bind (Inl e) f = Inl e"
| "mem_bind (Inr x) f = f x"

lemma mem_bind_Inr: "mem_bind m f = Inr y \<longleftrightarrow> (\<exists>x. m = Inr x \<and> f x = Inr y)"
  by (cases m) auto

subsection \<open>A block\<close>

definition storage_new :: "u32 \<Rightarrow> u8 list" where
  "storage_new bsize = replicate (unat bsize) 0"

definition storage_write :: "u32 \<Rightarrow> u32 \<Rightarrow> u8 list \<Rightarrow> u8 list \<Rightarrow> u8 list mem_result" where
  "storage_write bsize offset data blk =
     (if (ucast offset :: u64) + of_nat (length data) \<le> ucast bsize
      then Inr (take (unat offset) blk @ data @ drop (unat offset + length data) blk)
      else Inl Assertion)"

definition storage_read :: "u32 \<Rightarrow> u32 \<Rightarrow> u64 \<Rightarrow> u8 list \<Rightarrow> u8 list mem_result" where
  "storage_read bsize offset len blk =
     (if (ucast offset :: u64) + len \<le> ucast bsize then Inr (take (unat len) (drop (unat offset) blk))
      else Inl Assertion)"

subsection \<open>The memory\<close>

record memory_space_impl =
  m_bsize :: u32
  m_log2_block_size :: nat
  m_data :: "u32 \<Rightarrow> u8 list option"
  m_watchpoints :: "(u32 \<times> u32) list"

text \<open>The loop of the constructor over the bits of the block size; it insists that exactly one is set.\<close>

fun log2_loop :: "u32 \<Rightarrow> nat \<Rightarrow> nat list \<Rightarrow> nat option \<Rightarrow> nat option option" where
  "log2_loop bsize n [] found = Some found"
| "log2_loop bsize n (m # ms) found =
     (if bit bsize m then (if found = None then log2_loop bsize n ms (Some m) else None)
      else log2_loop bsize n ms found)"

definition memory_space_new :: "u32 \<Rightarrow> memory_space_impl option" where
  "memory_space_new bsize = do {
     found \<leftarrow> log2_loop bsize 0 [0..<32] None;
     n \<leftarrow> found;
     Some \<lparr>m_bsize = bsize, m_log2_block_size = n, m_data = (\<lambda>_. None), m_watchpoints = []\<rparr> }"

definition page_of :: "memory_space_impl \<Rightarrow> u32 \<Rightarrow> u32" where
  "page_of m addr = drop_bit (m_log2_block_size m) addr"

definition offset_of :: "memory_space_impl \<Rightarrow> u32 \<Rightarrow> u32" where
  "offset_of m addr = and addr (m_bsize m - 1)"

text \<open>\<open>(addr + length) <= (index + 1) * BSIZE\<close>: the sum has 64 bits, the product 32.\<close>

definition in_block :: "memory_space_impl \<Rightarrow> u32 \<Rightarrow> u32 \<Rightarrow> u64 \<Rightarrow> bool" where
  "in_block m index addr len \<longleftrightarrow> ucast addr + len \<le> ucast ((index + 1) * m_bsize m)"

text \<open>The bytes of the next block access of the slow route.\<close>

definition tx_bytes :: "memory_space_impl \<Rightarrow> u32 \<Rightarrow> u32 \<Rightarrow> u32" where
  "tx_bytes m addr remain = (let access_limit = offset_of m addr + remain
     in (if access_limit > m_bsize m then m_bsize m else access_limit) - offset_of m addr)"

definition write_block :: "u32 \<Rightarrow> u32 \<Rightarrow> u8 list \<Rightarrow> memory_space_impl \<Rightarrow> memory_space_impl mem_result" where
  "write_block page offset data m = mem_bind
     (storage_write (m_bsize m) offset data (case m_data m page of None \<Rightarrow> storage_new (m_bsize m) | Some blk \<Rightarrow> blk))
     (\<lambda>blk. Inr (m\<lparr>m_data := (m_data m)(page \<mapsto> blk)\<rparr>))"

text \<open>The slow routes; the fuel counts block accesses, each of at least one byte.\<close>

fun write_loop :: "nat \<Rightarrow> u32 \<Rightarrow> u32 \<Rightarrow> u8 list \<Rightarrow> memory_space_impl \<Rightarrow> memory_space_impl mem_result option" where
  "write_loop fuel addr remain data m =
     (if remain = 0 then Some (Inr m)
      else (case fuel of 0 \<Rightarrow> None
        | Suc fuel \<Rightarrow> (let tx = tx_bytes m addr remain in
            case write_block (page_of m addr) (offset_of m addr) (take (unat tx) data) m of
              Inl e \<Rightarrow> Some (Inl e)
            | Inr m' \<Rightarrow> write_loop fuel (addr + tx) (remain - tx) (drop (unat tx) data) m')))"

declare write_loop.simps [simp del]

definition watch_hits :: "u32 \<Rightarrow> u64 \<Rightarrow> (u32 \<times> u32) list \<Rightarrow> u32 list" where
  "watch_hits addr len ws = map fst (filter (\<lambda>(i, wa).
     addr \<le> wa \<and> (ucast addr :: u64) + len > ucast wa \<or> addr > wa \<and> addr < wa + 4) ws)"

definition mem_write :: "u32 \<Rightarrow> u8 list \<Rightarrow> memory_space_impl \<Rightarrow> (u32 list \<times> memory_space_impl) mem_result option" where
  "mem_write addr data m = (let len = of_nat (length data) in do {
     r \<leftarrow> (if in_block m (page_of m addr) addr len
       then Some (write_block (page_of m addr) (offset_of m addr) data m)
       else write_loop (length data) addr (ucast len) data m);
     Some (mem_bind r (\<lambda>m. Inr (watch_hits addr len (m_watchpoints m), m))) })"

definition read_single_block :: "memory_space_impl \<Rightarrow> u32 \<Rightarrow> u32 \<Rightarrow> u64 \<Rightarrow> u8 list mem_result" where
  "read_single_block m blk_idx addr len =
     (if \<not> in_block m blk_idx addr len then Inl Thrown
      else case m_data m blk_idx of
        None \<Rightarrow> Inr (replicate (unat len) 0)
      | Some blk \<Rightarrow> storage_read (m_bsize m) (offset_of m addr) len blk)"

fun read_loop :: "nat \<Rightarrow> memory_space_impl \<Rightarrow> u32 \<Rightarrow> u32 \<Rightarrow> u8 list mem_result option" where
  "read_loop fuel m addr remain =
     (if remain = 0 then Some (Inr [])
      else (case fuel of 0 \<Rightarrow> None
        | Suc fuel \<Rightarrow> (let tx = tx_bytes m addr remain in
            case read_single_block m (page_of m addr) addr (ucast tx) of
              Inl e \<Rightarrow> Some (Inl e)
            | Inr data \<Rightarrow> map_option (\<lambda>r. mem_bind r (\<lambda>rest. Inr (data @ rest)))
                (read_loop fuel m (addr + tx) (remain - tx)))))"

declare read_loop.simps [simp del]

definition mem_read :: "memory_space_impl \<Rightarrow> u32 \<Rightarrow> u64 \<Rightarrow> u8 list mem_result option" where
  "mem_read m addr len =
     (if in_block m (page_of m addr) addr len then Some (read_single_block m (page_of m addr) addr len)
      else read_loop (unat len) m addr (ucast len))"

fun insert_watch :: "u32 \<Rightarrow> u32 \<Rightarrow> (u32 \<times> u32) list \<Rightarrow> (u32 \<times> u32) list" where
  "insert_watch i wa [] = [(i, wa)]"
| "insert_watch i wa ((j, wb) # ws) =
     (if i < j then (i, wa) # (j, wb) # ws
      else if i = j then (i, wa) # ws
      else (j, wb) # insert_watch i wa ws)"

definition set_watch :: "u32 \<Rightarrow> u32 \<Rightarrow> memory_space_impl \<Rightarrow> memory_space_impl" where
  "set_watch addr watchpoint m = m\<lparr>m_watchpoints := insert_watch watchpoint addr (m_watchpoints m)\<rparr>"

subsection \<open>Addresses, pages and offsets\<close>

definition mem_ok :: "memory_space_impl \<Rightarrow> bool" where
  "mem_ok m \<longleftrightarrow> m_log2_block_size m < 32 \<and> m_bsize m = 2 ^ m_log2_block_size m \<and>
     (\<forall>page blk. m_data m page = Some blk \<longrightarrow> length blk = unat (m_bsize m))"

lemma bsize_nat:
  assumes "mem_ok m" shows "unat (m_bsize m) = 2 ^ m_log2_block_size m"
proof -
  have "(2::nat) ^ m_log2_block_size m < 2 ^ 32"
    using assms by (intro power_strict_increasing) (simp_all add: mem_ok_def)
  with unat_of_nat [where ?'a = 32, of "2 ^ m_log2_block_size m"] assms show ?thesis
    by (simp add: mem_ok_def)
qed

lemma bsize_le: "mem_ok m \<Longrightarrow> unat (m_bsize m) \<le> 2 ^ 31"
  by (simp only: bsize_nat) (rule power_increasing, simp_all add: mem_ok_def)

lemma page_nat: "unat (page_of m a) = unat a div 2 ^ m_log2_block_size m"
  by (simp add: page_of_def unat_drop_div)

lemma offset_nat:
  assumes "mem_ok m" shows "unat (offset_of m a) = unat a mod 2 ^ m_log2_block_size m"
proof -
  have "m_bsize m - 1 = mask (m_log2_block_size m)"
    using assms by (simp add: mem_ok_def mask_eq_exp_minus_1)
  then show ?thesis
    by (simp add: offset_of_def unat_take_mod flip: take_bit_eq_mask)
qed

lemma offset_less: "mem_ok m \<Longrightarrow> unat (offset_of m a) < unat (m_bsize m)"
  by (simp add: offset_nat bsize_nat)

lemma addr_split:
  "mem_ok m \<Longrightarrow> unat a = unat (page_of m a) * unat (m_bsize m) + unat (offset_of m a)"
  by (simp add: page_nat offset_nat bsize_nat div_mult_mod_eq)

lemma block_count:
  assumes "mem_ok m" shows "2 ^ 32 = 2 ^ (32 - m_log2_block_size m) * unat (m_bsize m)"
proof -
  have "(2::nat) ^ 32 = 2 ^ (32 - m_log2_block_size m) * 2 ^ m_log2_block_size m"
    using assms by (simp add: mem_ok_def flip: power_add)
  then show ?thesis unfolding bsize_nat [OF assms] .
qed

text \<open>The last block of the address space: the end of it does not fit into 32 bits.\<close>

definition last_block :: "memory_space_impl \<Rightarrow> nat" where
  "last_block m = 2 ^ 32 - unat (m_bsize m)"

lemma pages_end:
  assumes "mem_ok m"
  shows "(unat (page_of m a) + 1) * unat (m_bsize m) \<le> 2 ^ 32"
    and "(unat (page_of m a) + 1) * unat (m_bsize m) = 2 ^ 32 \<longleftrightarrow> unat a \<ge> last_block m"
proof -
  let ?k = "m_log2_block_size m"
  have k: "(2::nat) ^ 32 = 2 ^ (32 - ?k) * 2 ^ ?k"
    using block_count [OF assms] bsize_nat [OF assms] by simp
  have "unat (page_of m a) < 2 ^ (32 - ?k)"
    using unat_u32_less [of a] k by (simp add: page_nat div_less_iff_less_mult)
  then have "unat (page_of m a) + 1 \<le> 2 ^ (32 - ?k)" by simp
  then show le: "(unat (page_of m a) + 1) * unat (m_bsize m) \<le> 2 ^ 32"
    unfolding k bsize_nat [OF assms] by (rule mult_right_mono) simp
  have "unat (page_of m a) * unat (m_bsize m) + unat (m_bsize m) = 2 ^ 32 \<longleftrightarrow>
      unat (page_of m a) * unat (m_bsize m) + unat (offset_of m a) \<ge> 2 ^ 32 - unat (m_bsize m)"
  proof
    assume *: "unat (page_of m a) * unat (m_bsize m) + unat (offset_of m a) \<ge> 2 ^ 32 - unat (m_bsize m)"
    have "2 ^ (32 - ?k) * unat (m_bsize m) < (unat (page_of m a) + 2) * unat (m_bsize m)"
      using * offset_less [OF assms, of a] unfolding bsize_nat [OF assms] k by (simp add: add_mult_distrib)
    then have "2 ^ (32 - ?k) < unat (page_of m a) + 2" by (rule mult_right_less_imp_less) simp
    with \<open>unat (page_of m a) < _\<close> have "unat (page_of m a) + 1 = 2 ^ (32 - ?k)" by simp
    then have "(unat (page_of m a) + 1) * unat (m_bsize m) = 2 ^ 32"
      by (simp only: k bsize_nat [OF assms])
    then show "unat (page_of m a) * unat (m_bsize m) + unat (m_bsize m) = 2 ^ 32" by simp
  qed simp
  then show "(unat (page_of m a) + 1) * unat (m_bsize m) = 2 ^ 32 \<longleftrightarrow> unat a \<ge> last_block m"
    using addr_split [OF assms, of a] by (simp add: last_block_def add.commute)
qed

lemma in_block_nat:
  assumes "mem_ok m" and "unat a + unat len < 2 ^ 64"
  shows "in_block m (page_of m a) a len \<longleftrightarrow>
    (if unat a \<ge> last_block m then unat a + unat len = 0
     else unat (offset_of m a) + unat len \<le> unat (m_bsize m))"
proof -
  let ?e = "(unat (page_of m a) + 1) * unat (m_bsize m)"
  have "unat (ucast a + len :: u64) = unat a + unat len"
    using assms(2) by (simp add: unat_word_ariths)
  moreover have "unat ((page_of m a + 1) * m_bsize m) = ?e mod 2 ^ 32"
    by (simp add: unat_word_ariths mod_simps)
  ultimately have "in_block m (page_of m a) a len \<longleftrightarrow> unat a + unat len \<le> ?e mod 2 ^ 32"
    by (simp add: in_block_def word_le_nat_alt)
  moreover have "?e mod 2 ^ 32 = (if unat a \<ge> last_block m then 0 else ?e)"
    using pages_end [OF assms(1), of a] by (auto simp: le_less)
  ultimately show ?thesis
    using addr_split [OF assms(1), of a] by simp
qed

lemma tx_bytes_nat:
  assumes "mem_ok m" and "unat remain \<le> 2 ^ 31"
  shows "unat (tx_bytes m a remain) = min (unat (m_bsize m) - unat (offset_of m a)) (unat remain)"
proof -
  have o: "unat (offset_of m a) < unat (m_bsize m)" and b: "unat (m_bsize m) \<le> 2 ^ 31"
    using offset_less bsize_le assms(1) by auto
  then have s: "unat (offset_of m a + remain) = unat (offset_of m a) + unat remain"
    using assms(2) by (simp add: unat_word_ariths)
  show ?thesis
  proof (cases "offset_of m a + remain > m_bsize m")
    case True
    with o show ?thesis
      using s by (simp add: tx_bytes_def unat_sub word_less_nat_alt word_le_nat_alt)
  next
    case False
    then show ?thesis using s by (simp add: tx_bytes_def word_less_nat_alt)
  qed
qed

subsection \<open>The flat memory\<close>

definition byte_at :: "memory_space_impl \<Rightarrow> u32 \<Rightarrow> u8" where
  "byte_at m a = (case m_data m (page_of m a) of None \<Rightarrow> 0 | Some blk \<Rightarrow> blk ! unat (offset_of m a))"

definition bytes_at :: "memory_space_impl \<Rightarrow> u32 \<Rightarrow> nat \<Rightarrow> u8 list" where
  "bytes_at m a n = map (\<lambda>i. byte_at m (a + of_nat i)) [0..<n]"

definition same_shape :: "memory_space_impl \<Rightarrow> memory_space_impl \<Rightarrow> bool" where
  "same_shape m m' \<longleftrightarrow> m_bsize m' = m_bsize m \<and> m_log2_block_size m' = m_log2_block_size m \<and>
     m_watchpoints m' = m_watchpoints m"

lemma same_shape_simps:
  "same_shape m m' \<Longrightarrow> page_of m' a = page_of m a" "same_shape m m' \<Longrightarrow> offset_of m' a = offset_of m a"
  "same_shape m m' \<Longrightarrow> last_block m' = last_block m"
  by (simp_all add: same_shape_def page_of_def offset_of_def last_block_def)

lemma update_shape [simp]:
  "page_of (m\<lparr>m_data := d\<rparr>) a = page_of m a" "offset_of (m\<lparr>m_data := d\<rparr>) a = offset_of m a"
  by (simp_all add: page_of_def offset_of_def)

lemma same_shape_trans: "same_shape m m' \<Longrightarrow> same_shape m' m'' \<Longrightarrow> same_shape m m''"
  by (simp add: same_shape_def)

text \<open>\<open>n\<close> bytes from \<open>a\<close> on replaced.\<close>

definition patched :: "memory_space_impl \<Rightarrow> u32 \<Rightarrow> u8 list \<Rightarrow> u32 \<Rightarrow> u8" where
  "patched m a data x = (if unat a \<le> unat x \<and> unat x < unat a + length data then data ! (unat x - unat a) else byte_at m x)"

lemma unat_plus_small: "unat a + n < 2 ^ 32 \<Longrightarrow> unat (a + of_nat n) = unat a + n" for a :: u32
  by (simp add: unat_word_ariths unat_of_nat)

lemma ucast_minus_nat: "unat y \<le> unat x \<Longrightarrow> unat (x - y) = unat x - unat y" for x y :: u32
  by (simp add: unat_sub word_le_nat_alt)

text \<open>Two addresses whose first block holds the second.\<close>

lemma same_page:
  assumes "mem_ok m" and "unat a \<le> unat x" and "unat (offset_of m a) + (unat x - unat a) < unat (m_bsize m)"
  shows "page_of m x = page_of m a" and "unat (offset_of m x) = unat (offset_of m a) + (unat x - unat a)"
proof -
  let ?B = "unat (m_bsize m)"
  have x: "unat x = unat (page_of m a) * ?B + (unat (offset_of m a) + (unat x - unat a))"
    using addr_split [OF assms(1), of a] assms(2) by linarith
  have "unat (page_of m x) = unat x div ?B" "unat (offset_of m x) = unat x mod ?B"
    by (simp_all add: page_nat offset_nat bsize_nat assms(1))
  moreover have "(unat (page_of m a) * ?B + r) div ?B = unat (page_of m a)" "(unat (page_of m a) * ?B + r) mod ?B = r"
    if "r < ?B" for r using that by simp_all
  ultimately have "unat (page_of m x) = unat (page_of m a)"
    and "unat (offset_of m x) = unat (offset_of m a) + (unat x - unat a)"
    using assms(3) x by metis+
  then show "page_of m x = page_of m a" "unat (offset_of m x) = unat (offset_of m a) + (unat x - unat a)"
    by (simp_all add: word_unat_eq_iff)
qed

lemma nth_patch:
  "i < length old \<Longrightarrow> j + length new \<le> length old \<Longrightarrow> (take j old @ new @ drop (j + length new) old) ! i =
    (if j \<le> i \<and> i < j + length new then new ! (i - j) else old ! i)"
  by (auto simp: nth_append)

lemma write_block_ok:
  assumes "mem_ok m" and fit: "unat (offset_of m a) + length data \<le> unat (m_bsize m)"
  obtains m' where "write_block (page_of m a) (offset_of m a) data m = Inr m'" and "mem_ok m'" and "same_shape m m'"
    and "\<And>x. byte_at m' x = patched m a data x"
proof -
  let ?o = "unat (offset_of m a)" and ?B = "unat (m_bsize m)"
  let ?old = "case m_data m (page_of m a) of None \<Rightarrow> storage_new (m_bsize m) | Some blk \<Rightarrow> blk"
  let ?new = "take ?o ?old @ data @ drop (?o + length data) ?old"
  have old: "length ?old = ?B"
    using assms(1) by (auto simp: storage_new_def mem_ok_def split: option.split)
  have small: "length data < 2 ^ 64" using fit unat_u32_less [of "m_bsize m"] by simp
  have "unat ((ucast (offset_of m a) :: u64) + of_nat (length data)) = ?o + length data"
    using fit small unat_u32_less [of "m_bsize m"] by (simp add: unat_word_ariths unat_of_nat)
  with fit have "storage_write (m_bsize m) (offset_of m a) data ?old = Inr ?new"
    by (simp add: storage_write_def word_le_nat_alt)
  then have wr: "write_block (page_of m a) (offset_of m a) data m = Inr (m\<lparr>m_data := (m_data m)(page_of m a \<mapsto> ?new)\<rparr>)"
    (is "_ = Inr ?m'") by (simp add: write_block_def)
  have shape: "same_shape m ?m'" by (simp add: same_shape_def)
  have "length ?new = ?B" using old fit by simp
  then have ok: "mem_ok ?m'" using assms(1) by (simp add: mem_ok_def)
  have "byte_at ?m' x = patched m a data x" for x
  proof (cases "page_of m x = page_of m a")
    case True
    let ?x = "unat (offset_of m x)"
    have x: "?x < ?B" by (rule offset_less [OF assms(1)])
    have pos: "?x + unat a = unat x + ?o"
      using addr_split [OF assms(1), of x] addr_split [OF assms(1), of a] True by simp
    have "byte_at ?m' x = ?new ! ?x"
      by (simp add: byte_at_def True)
    moreover have "byte_at m x = ?old ! ?x"
      using x by (simp add: byte_at_def True storage_new_def split: option.split)
    moreover have "?new ! ?x = (if ?o \<le> ?x \<and> ?x < ?o + length data then data ! (?x - ?o) else ?old ! ?x)"
      using x old fit by (intro nth_patch) simp_all
    moreover have "?o \<le> ?x \<and> ?x < ?o + length data \<longleftrightarrow> unat a \<le> unat x \<and> unat x < unat a + length data"
      and "unat a \<le> unat x \<Longrightarrow> ?x - ?o = unat x - unat a"
      using pos by linarith+
    ultimately show ?thesis by (simp add: patched_def)
  next
    case False
    moreover from False have "\<not> (unat a \<le> unat x \<and> unat x < unat a + length data)"
      using same_page(1) [OF assms(1), of a x] fit by linarith
    ultimately show ?thesis by (auto simp: byte_at_def patched_def split: option.split)
  qed
  with wr shape ok that show thesis by blast
qed

text \<open>One round of the slow route: the bytes up to the end of the block, at least one.\<close>

lemma tx_bytes_step:
  assumes "mem_ok m" and "unat remain \<le> 2 ^ 31" and "remain \<noteq> 0" and "unat a + unat remain \<le> 2 ^ 32"
  shows "0 < unat (tx_bytes m a remain)" and "unat (tx_bytes m a remain) \<le> unat remain"
    and "unat (offset_of m a) + unat (tx_bytes m a remain) \<le> unat (m_bsize m)"
    and "unat (remain - tx_bytes m a remain) = unat remain - unat (tx_bytes m a remain)"
    and "remain - tx_bytes m a remain \<noteq> 0 \<Longrightarrow> unat (a + tx_bytes m a remain) = unat a + unat (tx_bytes m a remain)"
proof -
  let ?tx = "tx_bytes m a remain"
  note tx = tx_bytes_nat [OF assms(1,2), of a] and o = offset_less [OF assms(1), of a]
  have "0 < unat remain" using assms(3) by (simp add: unat_gt_0)
  with tx o show "0 < unat ?tx" by simp
  show le: "unat ?tx \<le> unat remain" using tx by simp
  show "unat (offset_of m a) + unat ?tx \<le> unat (m_bsize m)" using tx o by simp
  show diff: "unat (remain - ?tx) = unat remain - unat ?tx" by (rule ucast_minus_nat [OF le])
  assume "remain - ?tx \<noteq> 0"
  then have "0 < unat (remain - ?tx)" by (simp add: unat_gt_0)
  with diff assms(4) show "unat (a + ?tx) = unat a + unat ?tx" by (simp add: unat_word_ariths)
qed

lemma patched_Nil [simp]: "patched m a [] = byte_at m"
  by (auto simp: patched_def fun_eq_iff)

lemma patched_compose:
  assumes "unat (a + of_nat n) = unat a + n" and "n \<le> length data"
    and "\<And>x. byte_at m1 x = patched m a (take n data) x"
  shows "patched m1 (a + of_nat n) (drop n data) x = patched m a data x"
  using assms(2) by (auto simp: patched_def assms(1,3))

lemma write_loop_ok:
  assumes "mem_ok m" and "length data = unat remain" and "unat remain \<le> 2 ^ 31" and "unat a + unat remain \<le> 2 ^ 32"
    and "unat remain \<le> fuel"
  shows "\<exists>m'. write_loop fuel a remain data m = Some (Inr m') \<and> mem_ok m' \<and> same_shape m m' \<and>
    (\<forall>x. byte_at m' x = patched m a data x)"
  using assms
proof (induction fuel arbitrary: a remain data m)
  case 0
  then show ?case by (simp add: write_loop.simps unat_eq_0 same_shape_def)
next
  case (Suc fuel)
  show ?case
  proof (cases "remain = 0")
    case True
    with Suc.prems show ?thesis by (simp add: write_loop.simps same_shape_def)
  next
    case False
    let ?tx = "tx_bytes m a remain"
    note step = tx_bytes_step [OF Suc.prems(1,3) False Suc.prems(4)]
    obtain m1 where m1: "write_block (page_of m a) (offset_of m a) (take (unat ?tx) data) m = Inr m1" "mem_ok m1"
      "same_shape m m1" and bytes: "\<And>x. byte_at m1 x = patched m a (take (unat ?tx) data) x"
      using write_block_ok [OF Suc.prems(1), of a "take (unat ?tx) data"] step(2,3) Suc.prems(2) by auto
    show ?thesis
    proof (cases "remain - ?tx = 0")
      case last: True
      then have "unat ?tx = length data" using step(2,4) Suc.prems(2) by simp
      with m1 bytes False last show ?thesis by (simp add: write_loop.simps [of "Suc fuel"] write_loop.simps [of fuel _ 0] Let_def)
    next
      case more: False
      note a1 = step(5) [OF more]
      have "unat (remain - ?tx) \<le> fuel" "unat (a + ?tx) + unat (remain - ?tx) \<le> 2 ^ 32" "unat (remain - ?tx) \<le> 2 ^ 31"
        using step(1,2,4) a1 Suc.prems by simp_all
      then obtain m2 where m2: "write_loop fuel (a + ?tx) (remain - ?tx) (drop (unat ?tx) data) m1 = Some (Inr m2)"
        "mem_ok m2" "same_shape m1 m2" "\<And>x. byte_at m2 x = patched m1 (a + ?tx) (drop (unat ?tx) data) x"
        using Suc.IH [OF m1(2), of "drop (unat ?tx) data" "remain - ?tx" "a + ?tx"] step(4) Suc.prems(2) by auto
      have "patched m1 (a + ?tx) (drop (unat ?tx) data) x = patched m a data x" for x
        using patched_compose [of a "unat ?tx" data m1 m x] a1 step(2) Suc.prems(2) bytes by simp
      with m1 m2 False show ?thesis
        by (auto simp: write_loop.simps [of "Suc fuel"] Let_def intro: same_shape_trans)
    qed
  qed
qed

text \<open>A write is a write to flat memory.\<close>

lemma mem_write_flat:
  assumes "mem_ok m" and "length data \<le> 2 ^ 31" and "unat a + length data \<le> 2 ^ 32"
  shows "\<exists>m'. mem_write a data m = Some (Inr (watch_hits a (of_nat (length data)) (m_watchpoints m), m')) \<and>
    mem_ok m' \<and> same_shape m m' \<and> (\<forall>x. byte_at m' x = patched m a data x)"
proof -
  let ?len = "of_nat (length data) :: u64"
  have len: "unat ?len = length data" "unat (ucast ?len :: u32) = length data"
    using assms(2) by (simp_all add: unat_of_nat unat_ucast_u32)
  have "\<exists>m'. (if in_block m (page_of m a) a ?len
      then Some (write_block (page_of m a) (offset_of m a) data m)
      else write_loop (length data) a (ucast ?len) data m) = Some (Inr m') \<and> mem_ok m' \<and> same_shape m m' \<and>
      (\<forall>x. byte_at m' x = patched m a data x)"
  proof (cases "in_block m (page_of m a) a ?len")
    case True
    then have "unat (offset_of m a) + length data \<le> unat (m_bsize m)"
      using in_block_nat [OF assms(1), of a ?len] len(1) assms(2,3) offset_less [OF assms(1), of a]
      by (auto split: if_splits)
    from write_block_ok [OF assms(1) this] True show ?thesis by metis
  next
    case False
    with write_loop_ok [OF assms(1), of data "ucast ?len" a "length data"] len assms(2,3) show ?thesis by simp
  qed
  then show ?thesis by (auto simp: mem_write_def Let_def same_shape_def)
qed

subsection \<open>Reading\<close>

lemma page_before_last:
  assumes "mem_ok m" and "unat a < last_block m"
  shows "unat a + (unat (m_bsize m) - unat (offset_of m a)) \<le> last_block m"
proof -
  let ?k = "m_log2_block_size m" and ?B = "unat (m_bsize m)" and ?p = "unat (page_of m a)"
  have k: "(2::nat) ^ 32 = 2 ^ (32 - ?k) * ?B"
    by (rule block_count [OF assms(1)])
  have "(?p + 1) * ?B < 2 ^ (32 - ?k) * ?B"
    using pages_end [OF assms(1), of a] assms(2) unfolding k [symmetric] by linarith
  then have "?p + 1 < 2 ^ (32 - ?k)" by (rule mult_right_less_imp_less) simp
  then have "(?p + 2) * ?B \<le> 2 ^ (32 - ?k) * ?B" by (intro mult_right_mono) simp_all
  then have "(?p + 2) * ?B \<le> 2 ^ 32" unfolding k .
  then show ?thesis
    using addr_split [OF assms(1), of a] offset_less [OF assms(1), of a]
    by (simp add: last_block_def add_mult_distrib)
qed

lemma bytes_at_append:
  "bytes_at m a (n + k) = bytes_at m a n @ bytes_at m (a + of_nat n) k"
proof -
  have "[0..<n + k] = [0..<n] @ map (\<lambda>i. n + i) [0..<k]"
    using upt_add_eq_append [of 0 n k] map_add_upt [of n k] by (simp add: add.commute)
  then show ?thesis by (simp add: bytes_at_def add.assoc)
qed

lemma read_single_block_ok:
  assumes "mem_ok m" and "unat a < last_block m" and fit: "unat (offset_of m a) + unat len \<le> unat (m_bsize m)"
  shows "read_single_block m (page_of m a) a len = Inr (bytes_at m a (unat len))"
proof -
  let ?B = "unat (m_bsize m)" and ?o = "unat (offset_of m a)"
  have end32: "unat a + unat len < 2 ^ 32"
    using page_before_last [OF assms(1,2)] fit offset_less [OF assms(1), of a] unat_u32_less [of "m_bsize m"]
    by (simp add: last_block_def)
  then have ib: "in_block m (page_of m a) a len"
    using in_block_nat [OF assms(1), of a len] assms(2) fit by simp
  have pos: "unat (a + of_nat i) = unat a + i" if "i < unat len" for i
    using that end32 by (intro unat_plus_small) simp
  have page: "page_of m (a + of_nat i) = page_of m a" "unat (offset_of m (a + of_nat i)) = ?o + i" if "i < unat len" for i
    using same_page [OF assms(1), of a "a + of_nat i"] pos [OF that] that fit by simp_all
  show ?thesis
  proof (cases "m_data m (page_of m a)")
    case None
    then have "bytes_at m a (unat len) = replicate (unat len) 0"
      using page(1) by (intro nth_equalityI) (simp_all add: bytes_at_def byte_at_def)
    with None ib show ?thesis by (simp add: read_single_block_def)
  next
    case (Some blk)
    have "length blk = ?B" using assms(1) Some by (simp add: mem_ok_def)
    then have "bytes_at m a (unat len) = take (unat len) (drop ?o blk)"
      using page Some fit by (intro nth_equalityI) (simp_all add: bytes_at_def byte_at_def)
    moreover have "unat ((ucast (offset_of m a) :: u64) + len) = ?o + unat len"
      using fit unat_u32_less [of "m_bsize m"] by (simp add: unat_word_ariths)
    then have "storage_read (m_bsize m) (offset_of m a) len blk = Inr (take (unat len) (drop ?o blk))"
      using fit by (simp add: storage_read_def word_le_nat_alt)
    ultimately show ?thesis using Some ib by (simp add: read_single_block_def)
  qed
qed

lemma read_single_block_last:
  assumes "mem_ok m" and "unat a \<ge> last_block m" and "len \<noteq> 0" and "unat len \<le> 2 ^ 32"
  shows "read_single_block m (page_of m a) a len = Inl Thrown"
proof -
  have "0 < unat len" using assms(3) by (simp add: unat_gt_0)
  with in_block_nat [OF assms(1), of a len] unat_u32_less [of a] assms(2,4) show ?thesis
    by (simp add: read_single_block_def)
qed

lemma read_loop_ok:
  assumes "mem_ok m" and "remain \<noteq> 0" and "unat remain \<le> 2 ^ 31" and "unat a + unat remain \<le> 2 ^ 32"
    and "unat remain \<le> fuel"
  shows "read_loop fuel m a remain =
    Some (if unat a + unat remain \<le> last_block m then Inr (bytes_at m a (unat remain)) else Inl Thrown)"
  using assms(2-)
proof (induction fuel arbitrary: a remain)
  case 0
  then show ?case by (simp add: unat_eq_0)
next
  case (Suc fuel)
  let ?tx = "tx_bytes m a remain"
  let ?len = "ucast ?tx :: u64"
  note step = tx_bytes_step [OF assms(1) Suc.prems(2,1,3)]
  have "?len \<noteq> 0" using step(1) by (metis unat_0 unat_ucast_u64 less_irrefl)
  show ?case
  proof (cases "unat a \<ge> last_block m")
    case True
    have "unat ?len \<le> 2 ^ 32" using unat_u32_less [of ?tx] by simp
    note thrown = read_single_block_last [OF assms(1) True \<open>?len \<noteq> 0\<close> this]
    have "\<not> unat a + unat remain \<le> last_block m" using True step(1,2) by linarith
    with thrown Suc.prems(1) show ?thesis by (simp add: read_loop.simps [of "Suc fuel"] Let_def)
  next
    case False
    then have blk: "read_single_block m (page_of m a) a ?len = Inr (bytes_at m a (unat ?tx))"
      using read_single_block_ok [OF assms(1), of a ?len] step(3) by simp
    show ?thesis
    proof (cases "remain - ?tx = 0")
      case last: True
      then have "unat ?tx = unat remain" using step(2,4) by simp
      moreover from this have "unat a + unat remain \<le> last_block m"
        using page_before_last [OF assms(1), of a] False step(3) by linarith
      ultimately show ?thesis
        using blk Suc.prems(1) last by (simp add: read_loop.simps [of "Suc fuel"] read_loop.simps [of fuel _ _ 0] Let_def)
    next
      case more: False
      note a1 = step(5) [OF more]
      have "read_loop fuel m (a + ?tx) (remain - ?tx) =
          Some (if unat a + unat remain \<le> last_block m then Inr (bytes_at m (a + ?tx) (unat remain - unat ?tx)) else Inl Thrown)"
        using Suc.IH [OF more] step(1,2,4) a1 Suc.prems by simp
      moreover have "bytes_at m a (unat remain) = bytes_at m a (unat ?tx) @ bytes_at m (a + ?tx) (unat remain - unat ?tx)"
        using bytes_at_append [of m a "unat ?tx" "unat remain - unat ?tx"] step(2) by simp
      ultimately show ?thesis
        using blk Suc.prems(1) by (simp add: read_loop.simps [of "Suc fuel"] Let_def)
    qed
  qed
qed

text \<open>A read is a read of flat memory, unless it reaches into the last block.\<close>

lemma mem_read_flat:
  assumes "mem_ok m" and "unat len \<le> 2 ^ 31" and "unat a + unat len \<le> 2 ^ 32"
  shows "mem_read m a len =
    Some (if len = 0 \<or> unat a + unat len \<le> last_block m then Inr (bytes_at m a (unat len)) else Inl Thrown)"
proof (cases "in_block m (page_of m a) a len")
  case True
  have lt: "unat a < last_block m \<or> unat a + unat len = 0"
    using True in_block_nat [OF assms(1), of a len] assms(3) by (auto split: if_splits)
  have "0 < last_block m" using bsize_le [OF assms(1)] by (simp add: last_block_def)
  with lt have lt: "unat a < last_block m" by auto
  then have fit: "unat (offset_of m a) + unat len \<le> unat (m_bsize m)"
    using True in_block_nat [OF assms(1), of a len] assms(3) by simp
  have "unat a + unat len \<le> last_block m"
    using page_before_last [OF assms(1) lt] fit offset_less [OF assms(1), of a] by linarith
  with read_single_block_ok [OF assms(1) lt fit] True show ?thesis by (simp add: mem_read_def)
next
  case False
  have len: "unat (ucast len :: u32) = unat len" using assms(2) by (simp add: unat_ucast_u32)
  show ?thesis
  proof (cases "len = 0")
    case True
    then have "read_loop 0 m a 0 = Some (Inr [])" by (simp add: read_loop.simps)
    with True False show ?thesis by (simp add: mem_read_def bytes_at_def)
  next
    case nz: False
    then have "(ucast len :: u32) \<noteq> 0" using len by (metis unat_eq_0 unat_0)
    from read_loop_ok [OF assms(1) this, of a "unat len"] len assms nz False show ?thesis
      by (simp add: mem_read_def)
  qed
qed

subsection \<open>Construction\<close>

lemma log2_loop_none:
  "(\<And>m. m \<in> set ms \<Longrightarrow> \<not> bit bsize m) \<Longrightarrow> log2_loop bsize n ms found = Some found"
  by (induction ms) auto

lemma log2_loop_found: "log2_loop bsize n ms None = Some (Some k) \<Longrightarrow> k \<in> set ms \<and> bit bsize k \<and> (\<forall>i\<in>set ms. bit bsize i \<longrightarrow> i = k)"
proof (induction ms)
  case (Cons m ms)
  have other: "\<forall>i\<in>set ms. \<not> bit bsize i" if "log2_loop bsize n ms (Some k') = Some x" for k' x
    using that by (induction ms arbitrary: x) (auto split: if_splits)
  have same: "x = Some k'" if "log2_loop bsize n ms (Some k') = Some x" for k' x
    using that by (induction ms) (auto split: if_splits)
  show ?case
    using Cons by (auto split: if_splits dest: other same)
qed simp

lemma memory_space_new_ok:
  assumes "memory_space_new bsize = Some m" shows "mem_ok m" and "byte_at m a = 0"
proof -
  obtain k where k: "log2_loop bsize 0 [0..<32] None = Some (Some k)"
    and m: "m = \<lparr>m_bsize = bsize, m_log2_block_size = k, m_data = (\<lambda>_. None), m_watchpoints = []\<rparr>"
    using assms by (auto simp: memory_space_new_def bind_eq_Some_iff)
  from log2_loop_found [OF k] have "k < 32" "\<And>i. i < 32 \<Longrightarrow> bit bsize i \<longleftrightarrow> i = k" by auto
  then have "bsize = 2 ^ k"
    by (intro bit_word_eqI) (auto simp: bit_simps)
  with m \<open>k < 32\<close> show "mem_ok m" "byte_at m a = 0" by (simp_all add: mem_ok_def byte_at_def)
qed

subsection \<open>Properties\<close>

text \<open>Memories as the simulator makes them; the bytes of an access fit an object of the machine.\<close>

inductive mem_reachable :: "memory_space_impl \<Rightarrow> bool" where
  new: "memory_space_new bsize = Some m \<Longrightarrow> mem_reachable m"
| wr: "mem_reachable m \<Longrightarrow> length data < 2 ^ 63 \<Longrightarrow> mem_write a data m = Some (Inr (hits, m')) \<Longrightarrow> mem_reachable m'"
| watch: "mem_reachable m \<Longrightarrow> mem_reachable (set_watch a i m)"

lemma write_block_keeps:
  assumes "mem_ok m" and "length data < 2 ^ 63" and "write_block page off data m = Inr m'"
  shows "mem_ok m'"
proof -
  let ?old = "case m_data m page of None \<Rightarrow> storage_new (m_bsize m) | Some blk \<Rightarrow> blk"
  have old: "length ?old = unat (m_bsize m)"
    using assms(1) by (auto simp: storage_new_def mem_ok_def split: option.split)
  obtain blk where blk: "storage_write (m_bsize m) off data ?old = Inr blk" and m': "m' = m\<lparr>m_data := (m_data m)(page \<mapsto> blk)\<rparr>"
    using assms(3) by (auto simp: write_block_def mem_bind_Inr)
  have "(ucast off :: u64) + of_nat (length data) \<le> ucast (m_bsize m)"
    and new: "blk = take (unat off) ?old @ data @ drop (unat off + length data) ?old"
    using blk by (auto simp: storage_write_def split: if_splits)
  moreover have "unat (of_nat (length data) :: u64) = length data" using assms(2) by (simp add: unat_of_nat)
  ultimately have "unat off + length data \<le> unat (m_bsize m)"
    using assms(2) unat_u32_less [of off] by (simp add: word_le_nat_alt unat_word_ariths)
  then have "length blk = unat (m_bsize m)" using old new by simp
  with assms(1) show ?thesis by (simp add: mem_ok_def m')
qed

lemma write_loop_keeps:
  "write_loop fuel a remain data m = Some (Inr m') \<Longrightarrow> mem_ok m \<Longrightarrow> length data < 2 ^ 63 \<Longrightarrow> mem_ok m'"
proof (induction fuel arbitrary: a remain data m)
  case 0
  then show ?case by (simp add: write_loop.simps split: if_splits)
next
  case (Suc fuel)
  show ?case
  proof (cases "remain = 0")
    case True
    with Suc.prems show ?thesis by (simp add: write_loop.simps)
  next
    case False
    let ?tx = "tx_bytes m a remain"
    from Suc.prems(1) False obtain m1 where m1: "write_block (page_of m a) (offset_of m a) (take (unat ?tx) data) m = Inr m1"
      and rest: "write_loop fuel (a + ?tx) (remain - ?tx) (drop (unat ?tx) data) m1 = Some (Inr m')"
      by (auto simp: write_loop.simps [of "Suc fuel"] Let_def split: sum.splits)
    have "mem_ok m1" using write_block_keeps [OF Suc.prems(2) _ m1] Suc.prems(3) by simp
    with Suc.IH [OF rest] Suc.prems(3) show ?thesis by simp
  qed
qed

text \<open>
  Property C39 (type): whatever is written, every block of a memory has exactly \<open>BSIZE\<close> bytes and the block
  size is a power of two, so no access to a block leaves its buffer.
\<close>

theorem memory_blocks_stay_whole:
  assumes "mem_reachable m"
  shows "mem_ok m"
  using assms
proof induction
  case (wr m data a hits m')
  from wr.hyps(3) consider "write_block (page_of m a) (offset_of m a) data m = Inr m'"
    | "write_loop (length data) a (ucast (of_nat (length data) :: u64)) data m = Some (Inr m')"
    unfolding mem_write_def Let_def bind_eq_Some_iff mem_bind_Inr option.inject
    by (auto simp only: mem_bind_Inr sum.inject prod.inject split: if_splits)
  then show ?case using write_block_keeps write_loop_keeps wr.IH wr.hyps(2) by cases blast+
next
  case (watch m a i)
  then show ?case by (simp add: set_watch_def mem_ok_def)
qed (rule memory_space_new_ok(1))


text \<open>
  Property C12 (roundtrip): what was written is read back, however the access
  crosses blocks, provided it ends before the last block.
\<close>

theorem memory_write_read:
  assumes "mem_ok m" and "length data \<le> 2 ^ 31" and "unat a + length data \<le> 2 ^ 32 - unat (m_bsize m)"
    and "mem_write a data m = Some (Inr (hits, m'))"
  shows "mem_read m' a (of_nat (length data)) = Some (Inr data)"
proof -
  have le: "unat a + length data \<le> 2 ^ 32" using assms(3) by simp
  from mem_write_flat [OF assms(1,2) le] assms(4) have ok: "mem_ok m'" "same_shape m m'"
    and bytes: "\<And>x. byte_at m' x = patched m a data x" by auto
  have len: "unat (of_nat (length data) :: u64) = length data" using assms(2) by (simp add: unat_of_nat)
  have "unat a + length data < 2 ^ 32"
    using assms(3) offset_less [OF assms(1), of a] by simp
  then have "unat (a + of_nat i) = unat a + i" if "i < length data" for i
    using that by (intro unat_plus_small) simp
  then have "bytes_at m' a (length data) = data"
    by (intro nth_equalityI) (simp_all add: bytes_at_def bytes patched_def)
  with mem_read_flat [OF ok(1), of "of_nat (length data)" a] len assms(2,3) le ok(2) show ?thesis
    by (simp add: last_block_def same_shape_def)
qed

text \<open>
  Property C40 (error): the end of the last block is 0 in 32 bits, so every read that reaches into
  it throws, although a write to it succeeds.
\<close>

theorem last_block_unreadable:
  assumes "mem_ok m" and "0 < unat len" and "unat len \<le> 2 ^ 31" and "unat a + unat len \<le> 2 ^ 32"
    and "2 ^ 32 - unat (m_bsize m) < unat a + unat len"
  shows "mem_read m a len = Some (Inl Thrown)"
  using mem_read_flat [OF assms(1,3,4)] assms(2,5) by (auto simp: last_block_def)

subsection \<open>A memory\<close>

definition demo_memory :: memory_space_impl where
  "demo_memory = \<lparr>m_bsize = 32, m_log2_block_size = 5, m_data = (\<lambda>_. None), m_watchpoints = [(1, 31)]\<rparr>"

lemma demo_memory_ok: "mem_ok demo_memory"
  by (simp add: mem_ok_def demo_memory_def)

theorem memory_blocks_stay_whole_witness:
  "\<exists>hits m. mem_write 30 [1, 2, 3] \<lparr>m_bsize = 32, m_log2_block_size = 5, m_data = (\<lambda>_. None), m_watchpoints = []\<rparr> = Some (Inr (hits, m)) \<and> mem_ok m"
proof -
  let ?m = "\<lparr>m_bsize = 32, m_log2_block_size = 5, m_data = (\<lambda>_. None), m_watchpoints = []\<rparr>"
  have "map_option m_log2_block_size (memory_space_new 32) = Some 5" by code_simp
  then have "memory_space_new 32 = Some ?m" by (auto simp: memory_space_new_def bind_eq_Some_iff)
  then have r: "mem_reachable ?m" by (rule mem_reachable.new)
  moreover obtain m' where m': "mem_write 30 [1, 2, 3] ?m = Some (Inr (watch_hits 30 3 [], m'))"
    using mem_write_flat [of ?m "[1, 2, 3]" 30] by (auto simp: mem_ok_def)
  ultimately have "mem_reachable m'" by (intro mem_reachable.wr [OF r _ m']) simp
  from memory_blocks_stay_whole [OF this] m' show ?thesis by blast
qed


theorem memory_write_read_witness:
  "\<exists>hits m'. mem_write 30 [1, 2, 3] demo_memory = Some (Inr (hits, m')) \<and> mem_read m' 30 3 = Some (Inr [1, 2, 3])"
proof -
  obtain m' where m': "mem_write 30 [1, 2, 3] demo_memory = Some (Inr (watch_hits 30 3 (m_watchpoints demo_memory), m'))"
    using mem_write_flat [OF demo_memory_ok, of "[1, 2, 3]" 30] by auto
  from memory_write_read [OF demo_memory_ok _ _ m'] m' show ?thesis by (auto simp: demo_memory_def)
qed

theorem last_block_unreadable_witness: "mem_read demo_memory 0xFFFFFFE0 4 = Some (Inl Thrown)"
  by (rule last_block_unreadable [OF demo_memory_ok]) (simp_all add: demo_memory_def)

end
