(* ===== verification/Spec2Isabelle.thy ===== *)
theory Spec2Isabelle
  imports Writeback Operand_Runs Partition_Credits Cacp_Runs Data_Cache_Runs Coalesce_Correct Dram_Timing Frfcfs Memory_Space Kernel_Launch
begin

text \<open>
  A verification development for GPGPU-Sim with criticality-aware warp acceleration (CAWA): the timing model
  of a GPU under \<open>src/src\<close>, with the additions that predict the criticality of warps (\<open>CPL.cc\<close>),
  schedule by it (\<open>CAWS.cc\<close>) and protect the lines of critical warps in the L1 data cache (\<open>CACP.cc\<close>).

  \<^bold>\<open>The program and its parts.\<close> \<open>gpgpu_sim\<close> launches kernels and hands their CTAs to cores. A core
  (\<open>shader_core_ctx\<close>) keeps, for every warp, its state and instruction buffer, a SIMT stack that says which lanes
  execute where, and a row of the scoreboard. Each cycle a scheduler orders its warps and issues from the first
  that can; memory instructions are coalesced into accesses, which become \<open>mem_fetch\<close> objects. These
  pass the L1 cache, the interconnect, the address decoder and the L2 cache of a partition and
  the DRAM controller, and come back as replies. The parts share data through pointers: the requests
  live in an explicit heap (\<open>Mem_Fetch.mf_heap\<close>), the requests of the DRAM in a second one.

  \<^bold>\<open>Conventions\<close> (\<open>Sim_Prelude\<close>). \<open>assert\<close> and \<open>abort\<close> end the process, since \<open>NDEBUG\<close> is never defined: a step that
  may do so is a function into \<open>option\<close>. \<open>unsigned\<close> is a 32-bit word, \<open>new_addr_type\<close> a 64-bit word, so all
  arithmetic wraps as in the code. Exceptions of the functional memory are a sum type. Records have the fields of the
  classes they model; fields that only feed statistics or output are left out where the theory says so.

  \<^bold>\<open>Theories.\<close>
  \<^item> \<open>Instruction\<close>: operands and opcodes (\<open>abstract_hardware_model.h\<close>).
  \<^item> \<open>Kernel_Launch\<close>: \<open>kernel_info_t\<close>, the slots of running kernels and \<open>select_kernel\<close> (\<open>gpu-sim.cc\<close>),
    \<open>max_cta\<close> and \<open>issue_block2core\<close>, \<open>ptx_sim_init_thread\<close>, local memory addresses. Every CTA and every thread is visited once and
    numbered as \<open>tw_next_cta_num\<close> says; CTAs fit the core; local memories of threads are disjoint.
  \<^item> \<open>Warp\<close>, \<open>Float_Value\<close>: \<open>shd_warp_t\<close> and the criticality counters (\<open>shader.h\<close>, \<open>CPL.cc\<close>), with the rounding of
    the floating-point operations written out. Threads and buffered instructions balance; the counter
    telescopes to the instructions left.
  \<^item> \<open>Simt_Stack\<close>: the reconvergence stack (\<open>abstract_hardware_model.cc\<close>). The stack follows the threads.
  \<^item> \<open>Scoreboard\<close>: register hazards; issue after the check never aborts.
  \<^item> \<open>Barrier\<close>: \<open>barrier_set_t\<close>; no warp waits at a barrier that is complete.
  \<^item> \<open>Scheduler\<close>: the warp orders of every scheduler (\<open>shader.cc\<close>, \<open>CAWS.cc\<close>).
  \<^item> \<open>Coalesce\<close>, \<open>Coalesce_Correct\<close>: \<open>generate_mem_accesses\<close> (\<open>abstract_hardware_model.cc\<close>).
  \<^item> \<open>Pipeline_Register\<close>: instructions in flight, \<open>move_warp\<close> and \<open>register_set\<close>
    (\<open>abstract_hardware_model.h\<close>, \<open>abstract_hardware_model.cc\<close>).
  \<^item> \<open>Issue\<close>, \<open>Issue_Correct\<close>: \<open>scheduler_unit::cycle\<close> and \<open>issue_warp\<close> (\<open>shader.cc\<close>) on the warps, stacks, barriers,
    scoreboard and pipeline registers of a core. A scheduler issues from one warp a cycle, only ready instructions.
  \<^item> \<open>Function_Unit\<close>: \<open>simd_function_unit\<close>, \<open>pipelined_simd_unit\<close> and \<open>execute\<close> with its result buses (\<open>shader.cc\<close>). No two
    results of a bus are due together and the write-back registers never overflow.
  \<^item> \<open>Operand_Collector\<close>: \<open>opndcoll_rfu_t\<close> (\<open>shader.h\<close>, \<open>shader.cc\<close>) between the issue stage and the units.
    \<open>Operand_Reads\<close>: its arbiter computes a maximal matching of banks and collector units, no read starves, and with fewer
    units than banks it aborts. \<open>Operand_Runs\<close>: otherwise a step never aborts and loses no instruction.
  \<^item> \<open>Writeback\<close>: \<open>shader_core_ctx::writeback\<close>. The oldest instructions leave, their registers and warps are released.
  \<^item> \<open>Mem_Fetch\<close>, \<open>Addrdec\<close>: requests; the decoding of addresses into chip, bank, row and column.
  \<^item> \<open>Cache_Config\<close>, \<open>Tag_Array\<close>, \<open>Mshr\<close>, \<open>Cache_Stats\<close>, \<open>Data_Cache\<close>, \<open>Data_Cache_Runs\<close>: the caches of
    \<open>gpu-cache.h\<close> and \<open>gpu-cache.cc\<close>, from the replacement of a set to the response of a whole cache.
  \<^item> \<open>Cacp\<close>, \<open>Cacp_Runs\<close>: the criticality-aware prioritization (\<open>CACP.cc\<close>) and what it changes.
  \<^item> \<open>Delay_Queue\<close>: \<open>fifo_pipeline\<close> (\<open>delayqueue.h\<close>), a queue that delays.
  \<^item> \<open>Dram\<close>, \<open>Dram_Timing\<close>, \<open>Frfcfs\<close>: \<open>dram_t\<close> and \<open>frfcfs_scheduler\<close>. The command stream obeys the
    protocol of rows and all timing parameters; the scheduler is first ready, first come. \<open>Dram_Conserve\<close>: every
    request is in one queue of the DRAM until it is answered once.
  \<^item> \<open>Memory_Partition\<close>: \<open>memory_partition_unit\<close> and \<open>memory_sub_partition\<close> (\<open>l2cache.cc\<close>, \<open>l2cache.h\<close>): the queues
    around the L2 cache, the latency queue and the credits for which sub partitions compete. \<open>Sub_Partition_Runs\<close>: a
    request stuck in the queue of the ROP delay. \<open>Partition_Credits\<close>: credits are the requests in flight, at most as
    many as the limits allow, and the arbitration is fair.
  \<^item> \<open>Memory_Space\<close>: the functional memory (\<open>cuda-sim/memory.cc\<close>) as a refinement of flat memory.

  \<^bold>\<open>Interfaces.\<close> A hazard table (\<open>Scoreboard\<close>), a comparison with side effects (\<open>Scheduler\<close>), a
  delay line (\<open>Delay_Queue\<close>), a set of slots emptied oldest first (\<open>slot_file\<close> in \<open>Writeback\<close>) and a bank of credits
  (\<open>credit_bank\<close> in \<open>Partition_Credits\<close>) are locales, interpreted on the model's own definitions. The interpretation
  stands with the provider, or with the client where the laws need its invariant.

  \<^bold>\<open>Termination and fuel.\<close> Loops over fixed ranges are folds. The search of \<open>divergent_paths\<close> and
  the restarting search of \<open>Cacp.find_victim\<close> are partial functions and proved to return. Fuel is
  the number of elements a loop can consume: \<open>max_issue\<close> in \<open>Issue.issue_loop\<close>, the number of registers in
  \<open>Writeback.drain\<close>, the queue length in \<open>Dram.fill_scheduler\<close>, the slots in \<open>Delay_Queue\<close>, the bytes
  left in the slow routes of \<open>Memory_Space\<close> (each round moves at least one), the threads of a CTA in
  \<open>Kernel_Launch.make_threads\<close>; the theorems about them show that it suffices.

  \<^bold>\<open>Parameters.\<close> \<open>std::sort\<close> (its result is a sorted permutation), the instruction at a program counter and the next
  program counters of the threads (the PTX interpreter), the fullness of the port below a cache, the contents of
  freshly allocated memory, the functional execution of an issued instruction (\<open>functional\<close>, what
  \<open>ptx_exec_inst\<close> does to the threads of a warp), the current cycle. The runs of a memory partition
  (\<open>partition_run\<close>) say what it relies on: waiting requests are routed to its sub partitions, and none in flight is freed.

  \<^bold>\<open>Not modelled.\<close> The PTX front end and interpreter (\<open>cuda-sim\<close> but for its memory and the launch of threads): the
  semantics of the instruction set is that of NVIDIA's virtual machine, and the timing model only sees its program
  counters and addresses. \<open>gpuwattch\<close> (a copy of McPAT) and \<open>intersim2\<close> (a copy of BookSim) are third-party. The texture
  cache, the load/store unit, instruction fetch and the clock domains of \<open>gpgpu_sim::cycle\<close>
  are left out: the first two and the last move requests over the interconnect of \<open>intersim2\<close>. Streams, option parsing,
  statistics, traces and the visualizer are glue or output.
\<close>

end
